(* ===== verification/RRD_Prelude.thy ===== *)
theory RRD_Prelude
  imports Complex_Main "HOL-Library.Log_Nat"
begin

text \<open>
  Shared vocabulary of the development: the proof-fact collections, the C integer conversions
  (LP64: \<open>int\<close> is 32 bits, \<open>long\<close>, \<open>unsigned long\<close>, \<open>time_t\<close> and \<open>size_t\<close> are 64 bits), the shape
  of a fallible operation on a state, and generic facts on lists that the components share.

  An \<open>unsigned long\<close> is a \<^typ>\<open>nat\<close> with the wrap-around written out (\<open>u64\<close>) wherever the source
  stores or subtracts a value that can leave the range; \<open>time_t\<close> and other signed integers are
  \<^typ>\<open>int\<close>.
\<close>

named_theorems dbl_simps "evaluation of double operations"
named_theorems wf_intros "well-formedness of operations' results"
named_theorems frame_simps "what an operation leaves alone"

section \<open>C integers\<close>

definition u64 :: "int \<Rightarrow> nat" where
  "u64 i = nat (i mod 2 ^ 64)"

definition s64 :: "int \<Rightarrow> int" where
  "s64 i = (i + 2 ^ 63) mod 2 ^ 64 - 2 ^ 63"

definition s32 :: "int \<Rightarrow> int" where
  "s32 i = (i + 2 ^ 31) mod 2 ^ 32 - 2 ^ 31"

definition s16 :: "int \<Rightarrow> int" where
  "s16 i = (i + 2 ^ 15) mod 2 ^ 16 - 2 ^ 15"

definition u16 :: "int \<Rightarrow> nat" where
  "u16 i = nat (i mod 2 ^ 16)"

text \<open>C's integer division and remainder truncate towards zero.\<close>

definition cdiv :: "int \<Rightarrow> int \<Rightarrow> int" where
  "cdiv a b = sgn a * sgn b * (\<bar>a\<bar> div \<bar>b\<bar>)"

lemma u64_bound: "u64 i < 2 ^ 64"
  by (simp add: u64_def nat_less_iff)

lemma u64_id [simp]: "0 \<le> i \<Longrightarrow> i < 2 ^ 64 \<Longrightarrow> u64 i = nat i"
  by (simp add: u64_def)

lemma u64_of_nat [simp]: "n < 2 ^ 64 \<Longrightarrow> u64 (int n) = n"
  by (simp add: u64_def)

lemma s64_id [simp]: "- (2 ^ 63) \<le> i \<Longrightarrow> i < 2 ^ 63 \<Longrightarrow> s64 i = i"
  by (simp add: s64_def)

lemma s32_id [simp]: "- (2 ^ 31) \<le> i \<Longrightarrow> i < 2 ^ 31 \<Longrightarrow> s32 i = i"
  by (simp add: s32_def)

lemma s16_id [simp]: "- (2 ^ 15) \<le> i \<Longrightarrow> i < 2 ^ 15 \<Longrightarrow> s16 i = i"
  by (simp add: s16_def)

lemma s16_range: "- (2 ^ 15) \<le> s16 i \<and> s16 i < 2 ^ 15"
  by (simp add: s16_def)

lemma cdiv_nonneg [simp]: "0 \<le> a \<Longrightarrow> 0 \<le> b \<Longrightarrow> cdiv a b = a div b"
  by (auto simp: cdiv_def sgn_if)

lemma cdiv_exact: "0 < b \<Longrightarrow> cdiv (k * b) b = k"
  by (cases "0 \<le> k") (auto simp: cdiv_def sgn_if abs_mult zero_less_mult_iff simp flip: mult_minus_left)

section \<open>Fallible operations on a state\<close>

text \<open>
  A C function that returns \<open>-1\<close> after \<open>rrd_set_error\<close> may already have changed the structures it
  was handed, and with a memory-mapped file those changes are the file's. So such a function is a
  state transformer that returns its error (if any) together with the state it leaves behind.
\<close>

type_synonym ('e, 's) outcome = "'e option \<times> 's"

definition andThen :: "('e, 's) outcome \<Rightarrow> ('s \<Rightarrow> ('e, 's) outcome) \<Rightarrow> ('e, 's) outcome" where
  "andThen r f = (case r of (Some e, s) \<Rightarrow> (Some e, s) | (None, s) \<Rightarrow> f s)"

lemma andThen_simps [simp]:
  "andThen (Some e, s) f = (Some e, s)"
  "andThen (None, s) f = f s"
  by (simp_all add: andThen_def)

definition map_err :: "('e \<Rightarrow> 'f) \<Rightarrow> ('e, 's) outcome \<Rightarrow> ('f, 's) outcome" where
  "map_err f r = (map_option f (fst r), snd r)"

lemma map_err_simps [simp]:
  "map_err f (Some e, s) = (Some (f e), s)"
  "map_err f (None, s) = (None, s)"
  by (simp_all add: map_err_def)

lemma map_err_proj [simp]:
  "snd (map_err f r) = snd r"
  "fst (map_err f r) = None \<longleftrightarrow> fst r = None"
  by (simp_all add: map_err_def)

text \<open>The loop \<open>for (i = ...; ...; i++) if (body(i) == -1) return -1;\<close> over a list of indices.\<close>

fun loopM :: "('i \<Rightarrow> 's \<Rightarrow> ('e, 's) outcome) \<Rightarrow> 'i list \<Rightarrow> 's \<Rightarrow> ('e, 's) outcome" where
  "loopM body [] s = (None, s)"
| "loopM body (i # is) s = andThen (body i s) (loopM body is)"

lemma loopM_append: "loopM b (xs @ ys) s = andThen (loopM b xs s) (loopM b ys)"
proof (induction xs arbitrary: s)
  case Nil
  then show ?case by simp
next
  case (Cons x xs)
  then show ?case by (cases "b x s") (auto simp: andThen_def split: option.splits)
qed

lemma loopM_invariant:
  assumes "P s" and "\<And>i s. i \<in> set is \<Longrightarrow> P s \<Longrightarrow> P (snd (b i s))"
  shows "P (snd (loopM b is s))"
  using assms
proof (induction "is" arbitrary: s)
  case Nil
  then show ?case by simp
next
  case (Cons i "is")
  then have "P (snd (b i s))" by simp
  with Cons show ?case by (cases "b i s") (auto simp: andThen_def split: option.splits)
qed

lemma loopM_total:
  assumes "P s" and "\<And>i s. i \<in> set is \<Longrightarrow> P s \<Longrightarrow> fst (b i s) = None \<and> P (snd (b i s))"
  shows "fst (loopM b is s) = None \<and> P (snd (loopM b is s))"
  using assms
proof (induction "is" arbitrary: s)
  case Nil
  then show ?case by simp
next
  case (Cons i "is")
  then have "fst (b i s) = None" and "P (snd (b i s))" by simp_all
  with Cons show ?case by (cases "b i s") auto
qed

section \<open>Lists\<close>

lemma nth_concat_blocks:
  assumes "\<forall>x \<in> set xss. length x = w" and "i < length xss" and "j < w"
  shows "concat xss ! (i * w + j) = xss ! i ! j"
  using assms
proof (induction xss arbitrary: i)
  case Nil
  then show ?case by simp
next
  case (Cons x xss)
  then show ?case by (cases i) (auto simp: nth_append)
qed

lemma length_concat_blocks: "\<forall>x \<in> set xss. length x = w \<Longrightarrow> length (concat xss) = length xss * w"
  by (induction xss) auto

lemma div_mod_block:
  assumes "p < n * (w::nat)"
  shows "p div w < n \<and> p mod w < w \<and> p = p div w * w + p mod w"
  using assms by (metis div_mult_mod_eq gr0I less_mult_imp_div_less less_zeroE mod_less_divisor mult_0_right)

lemma block_index_less: "i < n \<Longrightarrow> j < w \<Longrightarrow> i * w + j < n * (w::nat)"
proof -
  assume "i < n" "j < w"
  then have "i * w + j < Suc i * w" by simp
  also have "\<dots> \<le> n * w" using \<open>i < n\<close> by (intro mult_le_mono1) simp
  finally show ?thesis .
qed

lemma rotate_nth_mod: "i < length xs \<Longrightarrow> rotate k xs ! i = xs ! ((k + i) mod length xs)"
  by (simp add: nth_rotate)

end
