(* ===== verification/IEEE_Double.thy ===== *)
theory IEEE_Double
  imports RRD_Prelude
begin

text \<open>
  The C type \<open>double\<close> (\<open>rrd_value_t\<close>) as IEEE 754 binary64 with round to nearest, ties to even:
  every finite value is an exact rational, every operation rounds the exact result, and NaN, the
  two infinities and the negative zero are values of their own. All definitions compute.
\<close>

section \<open>Values\<close>

datatype dbl = NaN | PInf | NInf | NZero | Fin rat

text \<open>\<open>DNAN\<close> and \<open>DINF\<close> of the source are \<^const>\<open>NaN\<close> and \<^const>\<open>PInf\<close>.\<close>

definition isnan :: "dbl \<Rightarrow> bool" where
  "isnan x \<longleftrightarrow> x = NaN"

definition isinf :: "dbl \<Rightarrow> bool" where
  "isinf x \<longleftrightarrow> x = PInf \<or> x = NInf"

fun dval :: "dbl \<Rightarrow> rat" where
  "dval (Fin q) = q"
| "dval _ = 0"

fun dfinite :: "dbl \<Rightarrow> bool" where
  "dfinite (Fin q) = True"
| "dfinite NZero = True"
| "dfinite _ = False"

text \<open>The sign bit (of a value that is not a NaN).\<close>

fun dneg :: "dbl \<Rightarrow> bool" where
  "dneg NInf = True"
| "dneg NZero = True"
| "dneg (Fin q) = (q < 0)"
| "dneg _ = False"

section \<open>Rounding\<close>

definition pow2 :: "int \<Rightarrow> rat" where
  "pow2 k = 2 powi k"

lemma pow2_code [code]: "pow2 k = (if 0 \<le> k then of_int (2 ^ nat k) else 1 / of_int (2 ^ nat (- k)))"
  by (simp add: pow2_def power_int_def field_simps)

text \<open>\<open>flog2 x\<close> is the exponent \<open>e\<close> with \<open>2^e \<le> x < 2^(e+1)\<close>, for positive \<open>x\<close>.\<close>

definition flog2 :: "rat \<Rightarrow> int" where
  "flog2 x =
     (let (n, d) = quotient_of x;
          k = int (floorlog 2 (nat n)) - int (floorlog 2 (nat d))
      in if pow2 k \<le> x then k else k - 1)"

text \<open>Round to the nearest integer, ties to even.\<close>

definition rne :: "rat \<Rightarrow> int" where
  "rne x =
     (let f = \<lfloor>x\<rfloor>; r = x - of_int f
      in if r < 1 / 2 then f else if 1 / 2 < r then f + 1 else if even f then f else f + 1)"

text \<open>The weight of the last bit of the significand at the magnitude of \<open>x\<close>.\<close>

definition ulp_exp :: "rat \<Rightarrow> int" where
  "ulp_exp x = max (flog2 \<bar>x\<bar> - 52) (- 1074)"

definition rnd64 :: "rat \<Rightarrow> rat" where
  "rnd64 x = (if x = 0 then 0 else of_int (rne (x / pow2 (ulp_exp x))) * pow2 (ulp_exp x))"

definition dround :: "rat \<Rightarrow> dbl" where
  "dround x =
     (let y = rnd64 x
      in if 2 ^ 1024 \<le> \<lfloor>y\<rfloor> then PInf else if \<lceil>y\<rceil> \<le> - (2 ^ 1024) then NInf
         else if y = 0 \<and> x < 0 then NZero else Fin y)"

section \<open>Operations\<close>

instantiation dbl :: "{zero, one, plus, uminus, minus, times, inverse, ord}"
begin

definition zero_dbl :: dbl where "zero_dbl = Fin 0"

definition one_dbl :: dbl where "one_dbl = Fin 1"

fun uminus_dbl :: "dbl \<Rightarrow> dbl" where
  "uminus_dbl NaN = NaN"
| "uminus_dbl PInf = NInf"
| "uminus_dbl NInf = PInf"
| "uminus_dbl NZero = Fin 0"
| "uminus_dbl (Fin q) = (if q = 0 then NZero else Fin (- q))"

fun plus_dbl :: "dbl \<Rightarrow> dbl \<Rightarrow> dbl" where
  "plus_dbl NaN y = NaN"
| "plus_dbl x NaN = NaN"
| "plus_dbl PInf NInf = NaN"
| "plus_dbl NInf PInf = NaN"
| "plus_dbl PInf y = PInf"
| "plus_dbl NInf y = NInf"
| "plus_dbl x PInf = PInf"
| "plus_dbl x NInf = NInf"
| "plus_dbl NZero NZero = NZero"
| "plus_dbl x y = dround (dval x + dval y)"

definition minus_dbl :: "dbl \<Rightarrow> dbl \<Rightarrow> dbl" where
  "minus_dbl x y = x + - y"

definition times_dbl :: "dbl \<Rightarrow> dbl \<Rightarrow> dbl" where
  "times_dbl x y =
     (if isnan x \<or> isnan y then NaN
      else if isinf x \<or> isinf y then
        (if (dfinite x \<and> dval x = 0) \<or> (dfinite y \<and> dval y = 0) then NaN
         else if dneg x \<noteq> dneg y then NInf else PInf)
      else if dval x * dval y = 0 then (if dneg x \<noteq> dneg y then NZero else Fin 0)
      else dround (dval x * dval y))"

definition divide_dbl :: "dbl \<Rightarrow> dbl \<Rightarrow> dbl" where
  "divide_dbl x y =
     (if isnan x \<or> isnan y then NaN
      else if isinf x then (if isinf y then NaN else if dneg x \<noteq> dneg y then NInf else PInf)
      else if isinf y then (if dneg x \<noteq> dneg y then NZero else Fin 0)
      else if dval y = 0 then
        (if dval x = 0 then NaN else if dneg x \<noteq> dneg y then NInf else PInf)
      else if dval x = 0 then (if dneg x \<noteq> dneg y then NZero else Fin 0)
      else dround (dval x / dval y))"

definition inverse_dbl :: "dbl \<Rightarrow> dbl" where
  "inverse_dbl x = divide (Fin 1) x"

fun less_dbl :: "dbl \<Rightarrow> dbl \<Rightarrow> bool" where
  "less_dbl NaN y = False"
| "less_dbl x NaN = False"
| "less_dbl PInf y = False"
| "less_dbl x NInf = False"
| "less_dbl NInf y = True"
| "less_dbl x PInf = True"
| "less_dbl x y = (dval x < dval y)"

definition less_eq_dbl :: "dbl \<Rightarrow> dbl \<Rightarrow> bool" where
  "less_eq_dbl x y \<longleftrightarrow>
     x < y \<or> (x = PInf \<and> y = PInf) \<or> (x = NInf \<and> y = NInf) \<or> (dfinite x \<and> dfinite y \<and> dval x = dval y)"

instance ..

end

text \<open>The C operator \<open>==\<close>: the two zeros are equal, a NaN is not equal to itself.\<close>

definition deq :: "dbl \<Rightarrow> dbl \<Rightarrow> bool" where
  "deq x y \<longleftrightarrow> x \<le> y \<and> y \<le> x"

text \<open>Conversions from integers, and the functions of \<open>math.h\<close> whose results are exact.\<close>

definition d_of_int :: "int \<Rightarrow> dbl" where
  "d_of_int i = dround (of_int i)"

abbreviation d_of_nat :: "nat \<Rightarrow> dbl" where
  "d_of_nat n \<equiv> d_of_int (int n)"

text \<open>A decimal constant of the source, \<open>n / 10^k\<close>, as the compiler converts it.\<close>

definition d_const :: "int \<Rightarrow> nat \<Rightarrow> dbl" where
  "d_const n k = dround (of_int n / 10 ^ k)"

fun dfloor :: "dbl \<Rightarrow> dbl" where
  "dfloor (Fin q) = d_of_int \<lfloor>q\<rfloor>"
| "dfloor x = x"

fun dceil :: "dbl \<Rightarrow> dbl" where
  "dceil (Fin q) = (if -1 < q \<and> q < 0 then NZero else d_of_int \<lceil>q\<rceil>)"
| "dceil x = x"

fun dfabs :: "dbl \<Rightarrow> dbl" where
  "dfabs NInf = PInf"
| "dfabs NZero = Fin 0"
| "dfabs (Fin q) = Fin \<bar>q\<bar>"
| "dfabs x = x"

text \<open>Truncation towards zero of a rational, and \<open>fmod\<close>, which is exact and has the sign of \<open>x\<close>.\<close>

definition rtrunc :: "rat \<Rightarrow> int" where
  "rtrunc q = (if 0 \<le> q then \<lfloor>q\<rfloor> else \<lceil>q\<rceil>)"

definition dfmod :: "dbl \<Rightarrow> dbl \<Rightarrow> dbl" where
  "dfmod x y =
     (if isnan x \<or> isnan y \<or> isinf x then NaN
      else if isinf y then x
      else if dval y = 0 then NaN
      else let r = dval x - of_int (rtrunc (dval x / dval y)) * dval y
           in if r = 0 \<and> dneg x then NZero else Fin r)"

text \<open>
  Conversions to integer types truncate. Out of range (and for a NaN) C leaves the result
  undefined; these definitions give what the x86-64 conversion instructions deliver.
\<close>

definition d_to_long :: "dbl \<Rightarrow> int" where
  "d_to_long x =
     (if dfinite x \<and> - (2 ^ 63) \<le> rtrunc (dval x) \<and> rtrunc (dval x) < 2 ^ 63
      then rtrunc (dval x) else - (2 ^ 63))"

definition d_to_int :: "dbl \<Rightarrow> int" where
  "d_to_int x =
     (if dfinite x \<and> - (2 ^ 31) \<le> rtrunc (dval x) \<and> rtrunc (dval x) < 2 ^ 31
      then rtrunc (dval x) else - (2 ^ 31))"

definition d_to_ulong :: "dbl \<Rightarrow> nat" where
  "d_to_ulong x =
     (if dfinite x \<and> 2 ^ 63 \<le> rtrunc (dval x) \<and> rtrunc (dval x) < 2 ^ 64
      then nat (rtrunc (dval x))
      else if (dfinite x \<and> 2 ^ 64 \<le> rtrunc (dval x)) \<or> x = PInf then 0
      else u64 (d_to_long x))"

section \<open>Exactness and sign of rounding\<close>

lemma dround_def':
  "dround x =
     (let y = rnd64 x
      in if 2 ^ 1024 \<le> y then PInf else if y \<le> - (2 ^ 1024) then NInf
         else if y = 0 \<and> x < 0 then NZero else Fin y)"
proof -
  have "2 ^ 1024 \<le> \<lfloor>y\<rfloor> \<longleftrightarrow> 2 ^ 1024 \<le> y" "\<lceil>y\<rceil> \<le> - (2 ^ 1024) \<longleftrightarrow> y \<le> - (2 ^ 1024)" for y :: rat
    by (simp_all only: le_floor_iff ceiling_le_iff of_int_minus of_int_power of_int_numeral)
  then show ?thesis by (simp only: dround_def)
qed

lemma int_floorlog_bounds:
  assumes "0 < n"
  shows "2 powi (int (floorlog 2 (nat n)) - 1) \<le> (of_int n :: rat)"
    and "(of_int n :: rat) < 2 powi int (floorlog 2 (nat n))"
proof -
  define a where "a = floorlog 2 (nat n)"
  have "2 ^ (a - 1) \<le> nat n \<and> nat n < 2 ^ a"
    using floorlog_bounds [of "nat n" 2] assms by (simp add: a_def)
  then have "of_nat (2 ^ (a - 1)) \<le> (of_nat (nat n) :: rat)" "(of_nat (nat n) :: rat) < of_nat (2 ^ a)"
    by (simp_all only: of_nat_le_iff of_nat_less_iff)
  moreover have "0 < a" using assms by (simp add: a_def floorlog_def)
  then have "int a - 1 = int (a - 1)" by simp
  ultimately show "2 powi (int (floorlog 2 (nat n)) - 1) \<le> (of_int n :: rat)"
    and "(of_int n :: rat) < 2 powi int (floorlog 2 (nat n))"
    unfolding a_def [symmetric] using assms by (simp_all only: power_int_of_nat) simp_all
qed

lemma flog2_bounds:
  assumes "0 < x"
  shows "2 powi flog2 x \<le> x \<and> x < 2 powi (flog2 x + 1)"
proof -
  obtain n d where q: "quotient_of x = (n, d)" by fastforce
  have d: "0 < d" using quotient_of_denom_pos [OF q] .
  have x: "x = of_int n / of_int d" using quotient_of_div [OF q] .
  have n: "0 < n" using assms d by (simp add: x zero_less_divide_iff)
  define a where "a = floorlog 2 (nat n)"
  define b where "b = floorlog 2 (nat d)"
  note N = int_floorlog_bounds [OF n, folded a_def] and D = int_floorlog_bounds [OF d, folded b_def]
  define k where "k = int a - int b"
  have lo: "2 powi (k - 1) \<le> x"
  proof -
    have "2 powi (k - 1) * (of_int d :: rat) \<le> 2 powi (k - 1) * 2 powi int b" using D by (intro mult_left_mono) auto
    also have "\<dots> = 2 powi (int a - 1)" by (simp add: k_def power_int_add [symmetric] del: power_int_of_nat)
    also note N(1)
    finally show ?thesis using d by (simp add: x field_simps)
  qed
  have hi: "x < 2 powi (k + 1)"
  proof -
    note N(2)
    also have "2 powi int a = (2 powi (k + 1) * 2 powi (int b - 1) :: rat)"
      by (simp add: k_def power_int_add [symmetric] del: power_int_of_nat)
    also have "\<dots> \<le> (2 powi (k + 1) * of_int d :: rat)" using D by (intro mult_left_mono) auto
    finally show ?thesis using d by (simp add: x field_simps)
  qed
  have "flog2 x = (if 2 powi k \<le> x then k else k - 1)"
    by (simp add: flog2_def q k_def a_def b_def pow2_def)
  with lo hi show ?thesis by auto
qed

lemma powi2_less_iff: "(2 powi a < (2 powi b :: rat)) \<longleftrightarrow> a < b"
  by (meson linorder_not_less power_int_increasing power_int_strict_increasing one_less_numeral_iff order_less_imp_le semiring_norm(76))

lemma flog2_less:
  assumes "0 < x" and "x < 2 powi k"
  shows "flog2 x < k"
proof -
  have "2 powi flog2 x < (2 powi k :: rat)" using flog2_bounds [OF assms(1)] assms(2) by simp
  then show ?thesis by (simp add: powi2_less_iff)
qed

lemma rne_of_int [simp]: "rne (of_int n) = n"
  by (simp add: rne_def)

lemma rne_nonneg: "0 \<le> x \<Longrightarrow> 0 \<le> rne x"
  by (auto simp: rne_def Let_def)

lemma rne_nonpos: 
  assumes "x \<le> 0" shows "rne x \<le> 0"
proof (cases "x = 0")
  case False
  with assms have "\<lfloor>x\<rfloor> < 0" by (simp add: floor_less_iff)
  then show ?thesis by (auto simp: rne_def Let_def)
qed (simp add: rne_def)

lemma rnd64_nonneg: "0 \<le> x \<Longrightarrow> 0 \<le> rnd64 x"
  by (auto simp: rnd64_def pow2_def intro!: mult_nonneg_nonneg rne_nonneg divide_nonneg_pos)

lemma rnd64_nonpos: "x \<le> 0 \<Longrightarrow> rnd64 x \<le> 0"
  by (auto simp: rnd64_def pow2_def intro!: mult_nonpos_nonneg rne_nonpos divide_nonpos_pos)

text \<open>A number with at most 53 significant bits in the exponent range is not changed.\<close>

lemma rnd64_exact:
  assumes x: "x = of_int m * 2 powi k" and m: "\<bar>m\<bar> < 2 ^ 53" and k: "- 1074 \<le> k"
  shows "rnd64 x = x"
proof (cases "x = 0")
  case False
  then have "m \<noteq> 0" using x by auto
  have "\<bar>x\<bar> = of_int \<bar>m\<bar> * 2 powi k" by (simp add: x abs_mult)
  also have "\<dots> < 2 ^ 53 * 2 powi k"
  proof (intro mult_strict_right_mono)
    have "(of_int \<bar>m\<bar> :: rat) < of_int (2 ^ 53)" using m by (simp only: of_int_less_iff)
    then show "(of_int \<bar>m\<bar> :: rat) < 2 ^ 53" by simp
  qed simp
  also have "\<dots> = 2 powi (53 + k)" by (simp add: power_int_add)
  finally have "flog2 \<bar>x\<bar> < 53 + k" using False by (intro flog2_less) simp_all
  then have e: "ulp_exp x \<le> k" using k by (simp add: ulp_exp_def)
  have "x / 2 powi ulp_exp x = of_int m * 2 powi (k - ulp_exp x)"
    by (simp add: x power_int_diff)
  also have "\<dots> = of_int (m * 2 ^ nat (k - ulp_exp x))" using e by (simp add: power_int_def)
  finally have "rne (x / 2 powi ulp_exp x) = m * 2 ^ nat (k - ulp_exp x)" by (simp only: rne_of_int)
  moreover have "of_int (m * 2 ^ nat (k - ulp_exp x)) * 2 powi ulp_exp x = x"
  proof -
    have "(2 ^ nat (k - ulp_exp x) :: rat) = 2 powi (k - ulp_exp x)" using e by (simp add: power_int_def)
    then show ?thesis by (simp add: x power_int_diff)
  qed
  ultimately show ?thesis by (simp add: rnd64_def pow2_def)
qed (simp add: rnd64_def)

lemma dround_exact:
  assumes "x = of_int m * 2 powi k" and "\<bar>m\<bar> < 2 ^ 53" and "- 1074 \<le> k" and "\<bar>x\<bar> < 2 ^ 1024"
  shows "dround x = Fin x"
proof -
  have "rnd64 x = x" using assms(1-3) by (rule rnd64_exact)
  with assms(4) show ?thesis by (auto simp: dround_def' Let_def)
qed

lemma dround_int:
  assumes "\<bar>n\<bar> \<le> 2 ^ 53"
  shows "dround (of_int n) = Fin (of_int n)"
proof -
  have big: "(2 ^ 53 :: rat) < 2 ^ 1024" by (rule power_strict_increasing) simp_all
  have "\<bar>of_int n :: rat\<bar> = of_int \<bar>n\<bar>" by simp
  also have "\<dots> \<le> of_int (2 ^ 53)" using assms by (simp only: of_int_le_iff)
  finally have b: "\<bar>of_int n :: rat\<bar> < 2 ^ 1024" using big by simp
  show ?thesis
  proof (cases "\<bar>n\<bar> < 2 ^ 53")
    case True
    then show ?thesis using b by (intro dround_exact [where m = n and k = 0]) simp_all
  next
    case False
    with assms have "n = 2 ^ 53 \<or> n = - (2 ^ 53)" by linarith
    then have "n = 2 ^ 52 * 2 \<or> n = - (2 ^ 52) * 2" by simp
    then obtain m :: int where m: "n = m * 2" "\<bar>m\<bar> < 2 ^ 53" by force
    then show ?thesis using b by (intro dround_exact [where m = m and k = 1]) simp_all
  qed
qed

lemma dround_0 [simp]: "dround 0 = Fin 0" and dround_1 [simp]: "dround 1 = Fin 1"
  using dround_int [of 0] dround_int [of 1] by simp_all

lemma dround_numeral [simp]:
  "(numeral w :: int) \<le> 9007199254740992 \<Longrightarrow> dround (numeral w) = Fin (numeral w)"
  "(numeral w :: int) \<le> 9007199254740992 \<Longrightarrow> dround (- numeral w) = Fin (- numeral w)"
  using dround_int [of "numeral w"] dround_int [of "- numeral w"] by simp_all

lemma dround_m1 [simp]: "dround (- 1) = Fin (- 1)"
  using dround_int [of "- 1"] by simp

lemma d_of_int_small: "\<bar>n\<bar> \<le> 2 ^ 53 \<Longrightarrow> d_of_int n = Fin (of_int n)"
  by (simp add: d_of_int_def dround_int)

lemma d_of_int_eval [simp]:
  "d_of_int 0 = Fin 0" "d_of_int 1 = Fin 1" "d_of_int (- 1) = Fin (- 1)"
  "(numeral w :: int) \<le> 9007199254740992 \<Longrightarrow> d_of_int (numeral w) = Fin (numeral w)"
  "(numeral w :: int) \<le> 9007199254740992 \<Longrightarrow> d_of_int (- numeral w) = Fin (- numeral w)"
  by (simp_all add: d_of_int_def)

lemma dround_not_nan [simp]: "dround x \<noteq> NaN"
  by (simp add: dround_def' Let_def)

lemma dround_nonneg: "0 \<le> x \<Longrightarrow> \<not> dneg (dround x) \<and> dround x \<noteq> NInf \<and> dround x \<noteq> NZero"
  using rnd64_nonneg [of x] by (auto simp: dround_def' Let_def)

lemma dround_nonpos: "x \<le> 0 \<Longrightarrow> dround x \<noteq> PInf \<and> dval (dround x) \<le> 0"
  using rnd64_nonpos [of x] by (auto simp: dround_def' Let_def)

lemma d_of_int_not_nan [simp]: "d_of_int i \<noteq> NaN"
  by (simp add: d_of_int_def)

section \<open>Rounding is odd, and keeps large values large\<close>

lemma rne_split:
  assumes "0 \<le> r" and "r < 1"
  shows "rne (of_int f + r) =
           (if r < 1 / 2 then f else if 1 / 2 < r then f + 1 else if even f then f else f + 1)"
proof -
  have "\<lfloor>of_int f + r\<rfloor> = f" using assms by (simp add: floor_eq_iff)
  then show ?thesis by (simp add: rne_def Let_def)
qed

lemma rne_uminus: "rne (- x) = - rne x"
proof -
  define f where "f = \<lfloor>x\<rfloor>"
  define r where "r = x - of_int f"
  have r: "0 \<le> r" "r < 1" unfolding r_def f_def by linarith+
  have x: "x = of_int f + r" by (simp add: r_def)
  show ?thesis
  proof (cases "r = 0")
    case True
    then have "x = of_int f" by (simp add: x)
    then show ?thesis using rne_of_int [of f] rne_of_int [of "- f"] by simp
  next
    case False
    have "- x = of_int (- f - 1) + (1 - r)" by (simp add: x)
    then have "rne (- x) = (if 1 - r < 1 / 2 then - f - 1 else if 1 / 2 < 1 - r then - f - 1 + 1
        else if even (- f - 1) then - f - 1 else - f - 1 + 1)"
      using r False by (simp only:) (rule rne_split; simp)
    also have "\<dots> = - rne x" unfolding x rne_split [OF r] by auto
    finally show ?thesis .
  qed
qed

lemma rnd64_uminus: "rnd64 (- x) = - rnd64 x"
  by (simp add: rnd64_def ulp_exp_def minus_divide_left [symmetric] rne_uminus)

lemma dround_uminus: "x \<noteq> 0 \<Longrightarrow> dround (- x) = - dround x"
  unfolding dround_def rnd64_uminus Let_def
  by (auto simp: rnd64_uminus not_le ceiling_def le_less_trans)

lemma rne_ge:
  assumes "of_int k \<le> x"
  shows "k \<le> rne x"
proof -
  have "k \<le> \<lfloor>x\<rfloor>" using assms by (simp add: le_floor_iff)
  then show ?thesis by (auto simp: rne_def Let_def)
qed

lemma rnd64_ge_pow2:
  assumes "0 < x" and "- 1022 \<le> flog2 x"
  shows "2 powi flog2 x \<le> rnd64 x"
proof -
  have u: "ulp_exp x = flog2 x - 52" using assms by (simp add: ulp_exp_def)
  have "2 powi flog2 x \<le> x" using flog2_bounds [OF assms(1)] by simp
  moreover have "(2::rat) powi flog2 x = 2 ^ 52 * 2 powi (flog2 x - 52)"
    by (simp add: power_int_diff)
  ultimately have "of_int (2 ^ 52) \<le> x / 2 powi (flog2 x - 52)" by (simp add: pos_le_divide_eq)
  then have "2 ^ 52 \<le> rne (x / 2 powi (flog2 x - 52))" by (rule rne_ge)
  then have "(of_int (2 ^ 52) :: rat) \<le> of_int (rne (x / 2 powi (flog2 x - 52)))" by (simp only: of_int_le_iff)
  then have "2 ^ 52 * 2 powi (flog2 x - 52) \<le> of_int (rne (x / 2 powi (flog2 x - 52))) * (2 powi (flog2 x - 52) :: rat)"
    by (intro mult_right_mono) simp_all
  then show ?thesis using assms(1) by (simp add: rnd64_def pow2_def u power_int_diff)
qed

lemma flog2_ge:
  assumes "0 < x" and "2 powi k \<le> x"
  shows "k \<le> flog2 x"
proof (rule ccontr)
  assume "\<not> k \<le> flog2 x"
  then have "flog2 x + 1 \<le> k" by simp
  then have "(2::rat) powi (flog2 x + 1) \<le> 2 powi k" by (intro power_int_increasing) simp_all
  with assms(2) flog2_bounds [OF assms(1)] show False by simp
qed

lemma dround_big:
  assumes "2 ^ 53 \<le> i"
  shows "Fin (2 ^ 53 - 1) < dround (of_int i)"
proof -
  have pos: "(0::rat) < of_int i" using assms by simp
  have "(of_int (2 ^ 53) :: rat) \<le> of_int i" using assms by (simp only: of_int_le_iff)
  then have "(2::rat) powi 53 \<le> of_int i" by simp
  then have k: "53 \<le> flog2 (of_int i)" using pos by (intro flog2_ge) simp_all
  have "(2::rat) powi 53 \<le> 2 powi flog2 (of_int i)" using k by (intro power_int_increasing) simp_all
  also have "\<dots> \<le> rnd64 (of_int i)" using pos k by (intro rnd64_ge_pow2) simp_all
  finally have "(2::rat) ^ 53 \<le> rnd64 (of_int i)" by simp
  then have "2 ^ 53 - 1 < rnd64 (of_int i)" by simp
  then show ?thesis by (auto simp: dround_def' Let_def)
qed

section \<open>How NaN propagates\<close>

lemma isnan_simps [simp]:
  "isnan NaN" "\<not> isnan PInf" "\<not> isnan NInf" "\<not> isnan NZero" "\<not> isnan (Fin q)"
  "isnan 0 = False" "isnan 1 = False"
  by (simp_all add: isnan_def zero_dbl_def one_dbl_def)

lemma isinf_simps [simp]:
  "\<not> isinf NaN" "isinf PInf" "isinf NInf" "\<not> isinf NZero" "\<not> isinf (Fin q)"
  by (simp_all add: isinf_def)

lemma nan_plus [simp]: "NaN + y = NaN" "x + NaN = NaN" for x y :: dbl
  by simp (cases x, simp_all)

lemma nan_minus [simp]: "NaN - y = NaN" "x - NaN = NaN" for x y :: dbl
  by (simp_all add: minus_dbl_def)

lemma nan_times [simp]: "NaN * y = NaN" "x * NaN = NaN" for x y :: dbl
  by (simp_all add: times_dbl_def)

lemma nan_divide [simp]: "NaN / y = NaN" "x / NaN = NaN" for x y :: dbl
  by (simp_all add: divide_dbl_def)

lemma nan_less [simp]: "\<not> NaN < y" "\<not> x < NaN" for x y :: dbl
  by simp (cases x, simp_all)

lemma nan_le [simp]: "\<not> NaN \<le> y" "\<not> x \<le> NaN" for x y :: dbl
  by (simp_all add: less_eq_dbl_def)

lemma uminus_nan_iff [simp]: "(- x = NaN) = (x = NaN)" for x :: dbl
  by (cases x) simp_all

section \<open>Evaluation on finite values\<close>

lemma fin_plus [simp]: "Fin a + Fin b = dround (a + b)"
  by simp

lemma fin_minus [simp]: "Fin a - Fin b = dround (a - b)"
  by (simp add: minus_dbl_def)

lemma fin_times [simp]: "0 < a \<Longrightarrow> 0 < b \<Longrightarrow> Fin a * Fin b = dround (a * b)"
  by (simp add: times_dbl_def)

lemma fin_divide [simp]: "a \<noteq> 0 \<Longrightarrow> b \<noteq> 0 \<Longrightarrow> Fin a / Fin b = dround (a / b)"
  by (simp add: divide_dbl_def)

lemma fin_less [simp]: "(Fin a < Fin b) = (a < b)"
  by simp

lemma fin_le [simp]: "(Fin a \<le> Fin b) = (a \<le> b)"
  by (auto simp: less_eq_dbl_def)

lemma dfloor_fin_nonneg: "0 \<le> q \<Longrightarrow> q < 2 ^ 53 \<Longrightarrow> dfloor (Fin q) = Fin (of_int \<lfloor>q\<rfloor>)"
  by (simp add: d_of_int_small floor_le_iff)

section \<open>Order\<close>

text \<open>On values that are not NaN the C comparison is a linear preorder with infinite ends.\<close>

lemma dbl_less_irrefl [simp]: "\<not> x < x" for x :: dbl
  by (cases x) simp_all

lemma dbl_less_trans: "x < y \<Longrightarrow> y < z \<Longrightarrow> x < z" for x y z :: dbl
  by (cases x; cases y; cases z) simp_all

lemma dbl_not_less: "x \<noteq> NaN \<Longrightarrow> y \<noteq> NaN \<Longrightarrow> (\<not> x < y) = (y \<le> x)" for x y :: dbl
  by (cases x; cases y) (auto simp: less_eq_dbl_def)

lemma dbl_le_trans: "x \<le> y \<Longrightarrow> y \<le> z \<Longrightarrow> x \<le> z" for x y z :: dbl
  by (cases x; cases y; cases z) (auto simp: less_eq_dbl_def)

lemma dbl_le_refl [simp]: "x \<noteq> NaN \<Longrightarrow> x \<le> x" for x :: dbl
  by (cases x) (auto simp: less_eq_dbl_def)

lemma dbl_less_imp_le: "x < y \<Longrightarrow> x \<le> y" for x y :: dbl
  by (simp add: less_eq_dbl_def)

lemma inf_le [simp]: "x \<noteq> NaN \<Longrightarrow> NInf \<le> x" "x \<noteq> NaN \<Longrightarrow> x \<le> PInf"
  by (cases x; simp add: less_eq_dbl_def)+

section \<open>Rounding is monotone at representable numbers\<close>

lemma rne_near: "\<bar>of_int (rne x) - x\<bar> \<le> 1 / 2"
proof -
  define f where "f = \<lfloor>x\<rfloor>"
  define r where "r = x - of_int f"
  have r: "0 \<le> r" "r < 1" unfolding r_def f_def by linarith+
  have x: "x = of_int f + r" by (simp add: r_def)
  show ?thesis unfolding x rne_split [OF r] using r by auto
qed

lemma rne_le:
  assumes "x \<le> of_int n"
  shows "rne x \<le> n"
proof -
  have "- of_int n \<le> - x" using assms by simp
  then have "- n \<le> rne (- x)" by (intro rne_ge) simp
  then show ?thesis by (simp add: rne_uminus)
qed

text \<open>Rounding does not cross a number that can be represented.\<close>

lemma rnd64_mono_representable:
  assumes "0 < x" and r: "r = of_int m * 2 powi k" and m: "0 < m" "m < 2 ^ 53" and k: "- 1074 \<le> k"
  shows "x \<le> r \<Longrightarrow> rnd64 x \<le> r" and "r \<le> x \<Longrightarrow> r \<le> rnd64 x"
proof -
  define e where "e = ulp_exp x"
  have p: "(0::rat) < 2 powi e" by simp
  have rd: "rnd64 x = of_int (rne (x / 2 powi e)) * 2 powi e" using assms(1) by (simp add: rnd64_def pow2_def e_def)
  have small: "r < 2 powi flog2 x" "e = flog2 x - 52" "- 1022 \<le> flog2 x" if "k < e"
  proof -
    show e: "e = flog2 x - 52" and "- 1022 \<le> flog2 x" using that k assms(1) by (auto simp: e_def ulp_exp_def)
    have "(of_int m :: rat) < of_int (2 ^ 53)" using m(2) by (simp only: of_int_less_iff)
    then have "r < 2 ^ 53 * 2 powi k" unfolding r by (intro mult_strict_right_mono) simp_all
    also have "\<dots> = 2 powi (53 + k)" by (simp add: power_int_add)
    also have "\<dots> \<le> 2 powi flog2 x" using that e by (intro power_int_increasing) simp_all
    finally show "r < 2 powi flog2 x" .
  qed
  have int: "r / 2 powi e = of_int (m * 2 ^ nat (k - e))" if "e \<le> k"
  proof -
    have "r / 2 powi e = of_int m * 2 powi (k - e)" by (simp add: r power_int_diff)
    then show ?thesis using that by (simp add: power_int_def)
  qed
  show "rnd64 x \<le> r" if "x \<le> r"
  proof (cases "e \<le> k")
    case True
    have "x / 2 powi e \<le> of_int (m * 2 ^ nat (k - e))" unfolding int [OF True, symmetric] using that p by (simp add: divide_right_mono)
    then have "(of_int (rne (x / 2 powi e)) :: rat) \<le> of_int (m * 2 ^ nat (k - e))" unfolding of_int_le_iff by (rule rne_le)
    then show ?thesis unfolding rd int [OF True, symmetric] using p by (simp add: pos_le_divide_eq)
  next
    case False
    then show ?thesis using small(1) that flog2_bounds [OF assms(1)] by simp
  qed
  show "r \<le> rnd64 x" if "r \<le> x"
  proof (cases "e \<le> k")
    case True
    have "of_int (m * 2 ^ nat (k - e)) \<le> x / 2 powi e" unfolding int [OF True, symmetric] using that p by (simp add: divide_right_mono)
    then have "(of_int (m * 2 ^ nat (k - e)) :: rat) \<le> of_int (rne (x / 2 powi e))" unfolding of_int_le_iff by (rule rne_ge)
    then show ?thesis unfolding rd int [OF True, symmetric] using p by (simp add: pos_divide_le_eq)
  next
    case False
    then show ?thesis using small rnd64_ge_pow2 [OF assms(1)] by simp
  qed
qed

lemma rnd64_le_int:
  assumes "0 \<le> x" and "x \<le> of_int m" and "m < 2 ^ 53"
  shows "rnd64 x \<le> of_int m"
proof (cases "x = 0")
  case False
  then have "(0 :: rat) < of_int m" using assms(1,2) by linarith
  then show ?thesis using False assms rnd64_mono_representable(1) [of x "of_int m" m 0] by simp
qed (use assms in \<open>simp add: rnd64_def\<close>)

lemma dround_small:
  assumes "0 \<le> x" and "x \<le> of_int m" and "m < 2 ^ 53"
  shows "dround x = Fin (rnd64 x)"
proof -
  have "rnd64 x \<le> of_int m" using assms by (rule rnd64_le_int)
  also have "\<dots> < of_int (2 ^ 53)" using assms(3) by (simp only: of_int_less_iff)
  also have "\<dots> < 2 ^ 1024" by simp
  finally have "rnd64 x < 2 ^ 1024" .
  moreover have "0 \<le> rnd64 x" using assms(1) by (rule rnd64_nonneg)
  moreover have "\<not> rnd64 x \<le> - (2 ^ 1024)" using \<open>0 \<le> rnd64 x\<close> by (simp add: not_le order.strict_trans2)
  ultimately show ?thesis using assms(1) by (simp add: dround_def' Let_def)
qed

text \<open>Products and quotients of non-negative numbers that are not too large.\<close>

lemma times_nonneg:
  assumes "0 \<le> p" and "0 \<le> q" and "p * q \<le> of_int m" and "m < 2 ^ 53"
  shows "Fin p * Fin q = Fin (rnd64 (p * q))"
  using assms dround_small [of "p * q" m] by (auto simp: times_dbl_def rnd64_def)

lemma divide_nonneg:
  assumes "0 \<le> p" and "0 < q" and "p / q \<le> of_int m" and "m < 2 ^ 53"
  shows "Fin p / Fin q = Fin (rnd64 (p / q))"
  using assms dround_small [of "p / q" m] by (auto simp: divide_dbl_def rnd64_def)

end
