(* ===== verification/RRD_Format.thy ===== *)
theory RRD_Format
  imports IEEE_Double
begin

text \<open>
  The database format (\<open>rrd_format.h\<close>, \<open>rrd_format.c\<close>): the header structures as records, the
  enumerations as datatypes, the name conversions, and the state of an open database.

  The program is modelled as built with \<open>HAVE_MMAP\<close> on an LP64 machine: the header structures of an
  open file are the mapped file itself, so every assignment to them is a change of the file. The
  union \<open>unival\<close> is resolved per slot: each slot of \<open>par\<close> and \<open>scratch\<close> is used by the program
  through one member only, and the slot is a field of that member's type. The two places where the
  program lays a second structure over the slots are fields of their own: the compact RPN program of
  a COMPUTE data source (\<open>par\<close> of \<open>ds_def_t\<close>) and the violation history of a FAILURES archive
  (\<open>scratch\<close> of \<open>cdp_prep_t\<close>).
\<close>

section \<open>Enumerations\<close>

datatype dst_en = DST_COUNTER | DST_ABSOLUTE | DST_GAUGE | DST_DERIVE | DST_CDEF

datatype cf_en = CF_AVERAGE | CF_MINIMUM | CF_MAXIMUM | CF_LAST | CF_HWPREDICT | CF_SEASONAL
  | CF_DEVPREDICT | CF_DEVSEASONAL | CF_FAILURES | CF_MHWPREDICT

datatype (plugins only: code) op_en = OP_NUMBER | OP_VARIABLE | OP_INF | OP_PREV | OP_NEGINF
  | OP_UNKN | OP_NOW | OP_TIME | OP_ADD | OP_MOD | OP_SUB | OP_MUL
  | OP_DIV | OP_SIN | OP_DUP | OP_EXC | OP_POP
  | OP_COS | OP_LOG | OP_EXP | OP_LT | OP_LE | OP_GT | OP_GE | OP_EQ | OP_IF
  | OP_MIN | OP_MAX | OP_LIMIT | OP_FLOOR | OP_CEIL
  | OP_UN | OP_END | OP_LTIME | OP_NE | OP_ISINF | OP_PREV_OTHER | OP_COUNT
  | OP_ATAN | OP_SQRT | OP_SORT | OP_REV | OP_TREND | OP_TRENDNAN
  | OP_ATAN2 | OP_RAD2DEG | OP_DEG2RAD
  | OP_PREDICT | OP_PREDICTSIGMA
  | OP_AVG | OP_ABS | OP_ADDNAN

section \<open>Header structures\<close>

record stat_head_t =
  version :: string
  ds_cnt :: nat
  rra_cnt :: nat
  pdp_step :: nat

record rpn_cdefds_t =
  cop :: op_en
  cval :: int

text \<open>\<open>par[DS_mrhb_cnt]\<close>, \<open>par[DS_min_val]\<close>, \<open>par[DS_max_val]\<close>, and the nodes stored over \<open>par\<close>.\<close>

record ds_def_t =
  ds_nam :: string
  dst :: string
  mrhb_cnt :: nat
  min_val :: dbl
  max_val :: dbl
  cdef :: "rpn_cdefds_t list"

text \<open>
  The slots of \<open>par\<close>: 0 is \<open>RRA_cdp_xff_val\<close>; 1 is \<open>RRA_hw_alpha\<close>, \<open>RRA_seasonal_gamma\<close> or
  \<open>RRA_delta_pos\<close>; 2 is \<open>RRA_hw_beta\<close>, \<open>RRA_seasonal_smoothing_window\<close> or \<open>RRA_delta_neg\<close>; 3 is
  \<open>RRA_dependent_rra_idx\<close>; 4 is \<open>RRA_seasonal_smooth_idx\<close> or \<open>RRA_window_len\<close>; 5 is
  \<open>RRA_failure_threshold\<close>.
\<close>

record rra_def_t =
  cf_nam :: string
  row_cnt :: nat
  pdp_cnt :: nat
  cdp_xff_val :: dbl
  par1 :: dbl
  par2 :: dbl
  dependent_rra_idx :: nat
  par4 :: nat
  failure_threshold :: nat

abbreviation hw_alpha :: "rra_def_t \<Rightarrow> dbl" where "hw_alpha \<equiv> par1"
abbreviation seasonal_gamma :: "rra_def_t \<Rightarrow> dbl" where "seasonal_gamma \<equiv> par1"
abbreviation delta_pos :: "rra_def_t \<Rightarrow> dbl" where "delta_pos \<equiv> par1"
abbreviation hw_beta :: "rra_def_t \<Rightarrow> dbl" where "hw_beta \<equiv> par2"
abbreviation seasonal_smoothing_window :: "rra_def_t \<Rightarrow> dbl" where "seasonal_smoothing_window \<equiv> par2"
abbreviation delta_neg :: "rra_def_t \<Rightarrow> dbl" where "delta_neg \<equiv> par2"
abbreviation seasonal_smooth_idx :: "rra_def_t \<Rightarrow> nat" where "seasonal_smooth_idx \<equiv> par4"
abbreviation window_len :: "rra_def_t \<Rightarrow> nat" where "window_len \<equiv> par4"

record live_head_t =
  last_up :: int
  last_up_usec :: int

record pdp_prep_t =
  last_ds :: string
  unkn_sec_cnt :: nat
  pdp_val :: dbl

text \<open>
  The slots of \<open>scratch\<close>, in order; \<open>CDP_hw_seasonal\<close> and \<open>CDP_seasonal_deviation\<close> are the slot of
  \<open>CDP_hw_intercept\<close>, their \<open>last\<close> variants that of \<open>CDP_hw_last_intercept\<close>, and
  \<open>CDP_init_seasonal\<close> that of \<open>CDP_null_count\<close>. The last field is the character array that the
  FAILURES functions lay over the scratch area.
\<close>

record cdp_prep_t =
  cdp_val :: dbl
  unkn_pdp_cnt :: nat
  hw_intercept :: dbl
  hw_last_intercept :: dbl
  hw_slope :: dbl
  hw_last_slope :: dbl
  null_count :: nat
  last_null_count :: nat
  primary_val :: dbl
  secondary_val :: dbl
  violations :: "int list"

abbreviation hw_seasonal :: "cdp_prep_t \<Rightarrow> dbl" where "hw_seasonal \<equiv> hw_intercept"
abbreviation hw_last_seasonal :: "cdp_prep_t \<Rightarrow> dbl" where "hw_last_seasonal \<equiv> hw_last_intercept"
abbreviation seasonal_deviation :: "cdp_prep_t \<Rightarrow> dbl" where "seasonal_deviation \<equiv> hw_intercept"
abbreviation last_seasonal_deviation :: "cdp_prep_t \<Rightarrow> dbl" where
  "last_seasonal_deviation \<equiv> hw_last_intercept"
abbreviation init_seasonal :: "cdp_prep_t \<Rightarrow> nat" where "init_seasonal \<equiv> null_count"

text \<open>The scratch index \<open>CDP_scratch_idx\<close> takes two values only.\<close>

datatype scratch_idx = CDP_primary_val | CDP_secondary_val

fun scratch_get :: "scratch_idx \<Rightarrow> cdp_prep_t \<Rightarrow> dbl" where
  "scratch_get CDP_primary_val c = primary_val c"
| "scratch_get CDP_secondary_val c = secondary_val c"

fun scratch_set :: "scratch_idx \<Rightarrow> dbl \<Rightarrow> cdp_prep_t \<Rightarrow> cdp_prep_t" where
  "scratch_set CDP_primary_val v c = c\<lparr>primary_val := v\<rparr>"
| "scratch_set CDP_secondary_val v c = c\<lparr>secondary_val := v\<rparr>"

text \<open>
  One entry that \<open>write_RRA_row\<close> appends to the list of \<open>rrd_update_v\<close>: the parts of the key
  \<open>[time]RRA[cf][pdp_cnt]DS[name]\<close> and the value.
\<close>

record cdp_info =
  info_time :: int
  info_cf :: string
  info_pdp_cnt :: nat
  info_ds :: string
  info_val :: dbl

text \<open>
  An open database: \<open>rrd_t\<close>, the data area behind the header as one flat array of values, the
  position of \<open>rrd_file_t\<close> (counted in values from the end of the header), and the info list that
  \<open>rrd_update_v\<close> threads through the update (\<open>None\<close> for the null pointer).
\<close>

record rrd =
  stat_head :: stat_head_t
  ds_def :: "ds_def_t list"
  rra_def :: "rra_def_t list"
  live_head :: live_head_t
  legacy_last_up :: "int option"
  pdp_prep :: "pdp_prep_t list"
  cdp_prep :: "cdp_prep_t list"
  rra_ptr :: "nat list"
  rrd_value :: "dbl list"
  pos :: nat
  pcdp_summary :: "cdp_info list option"

abbreviation dscnt :: "rrd \<Rightarrow> nat" where "dscnt s \<equiv> ds_cnt (stat_head s)"
abbreviation rracnt :: "rrd \<Rightarrow> nat" where "rracnt s \<equiv> rra_cnt (stat_head s)"
abbreviation pdpstep :: "rrd \<Rightarrow> nat" where "pdpstep s \<equiv> pdp_step (stat_head s)"

section \<open>Conversions of names\<close>

text \<open>\<open>None\<close> is the result \<open>-1\<close>, for which the source has set its error text.\<close>

definition dst_conv :: "string \<Rightarrow> dst_en option" where
  "dst_conv str =
     (if str = ''COUNTER'' then Some DST_COUNTER
      else if str = ''ABSOLUTE'' then Some DST_ABSOLUTE
      else if str = ''GAUGE'' then Some DST_GAUGE
      else if str = ''DERIVE'' then Some DST_DERIVE
      else if str = ''COMPUTE'' then Some DST_CDEF
      else None)"

definition cf_conv :: "string \<Rightarrow> cf_en option" where
  "cf_conv str =
     (if str = ''AVERAGE'' then Some CF_AVERAGE
      else if str = ''MIN'' then Some CF_MINIMUM
      else if str = ''MAX'' then Some CF_MAXIMUM
      else if str = ''LAST'' then Some CF_LAST
      else if str = ''HWPREDICT'' then Some CF_HWPREDICT
      else if str = ''MHWPREDICT'' then Some CF_MHWPREDICT
      else if str = ''DEVPREDICT'' then Some CF_DEVPREDICT
      else if str = ''SEASONAL'' then Some CF_SEASONAL
      else if str = ''DEVSEASONAL'' then Some CF_DEVSEASONAL
      else if str = ''FAILURES'' then Some CF_FAILURES
      else None)"

fun ds_match_from :: "nat \<Rightarrow> ds_def_t list \<Rightarrow> string \<Rightarrow> int" where
  "ds_match_from i [] nam = - 1"
| "ds_match_from i (d # ds) nam = (if nam = ds_nam d then int i else ds_match_from (Suc i) ds nam)"

definition ds_match :: "rrd \<Rightarrow> string \<Rightarrow> int" where
  "ds_match s nam = ds_match_from 0 (take (dscnt s) (ds_def s)) nam"

text \<open>\<open>atoi\<close> on the four digits of the version field.\<close>

definition digit_val :: "char \<Rightarrow> int" where
  "digit_val c = of_char c - 48"

definition is_digit :: "char \<Rightarrow> bool" where
  "is_digit c \<longleftrightarrow> 48 \<le> (of_char c :: nat) \<and> (of_char c :: nat) \<le> 57"

definition dec_val :: "string \<Rightarrow> int" where
  "dec_val str = foldl (\<lambda>acc c. acc * 10 + digit_val c) 0 str"

definition rrd_version :: "rrd \<Rightarrow> int" where
  "rrd_version s = dec_val (takeWhile is_digit (version (stat_head s)))"

text \<open>Sizes of the header structures on LP64.\<close>

definition rrd_get_header_size :: "rrd \<Rightarrow> nat" where
  "rrd_get_header_size s =
     128 + 120 * dscnt s + 120 * rracnt s + (if rrd_version s < 3 then 8 else 16)
     + 112 * dscnt s + 80 * dscnt s * rracnt s + 8 * rracnt s"

section \<open>Well-formed databases\<close>

text \<open>
  What \<open>rrd_open\<close> has checked or read (the array sizes and the file length) and what creation
  establishes (non-empty archives, current rows in range, known type names).
\<close>

definition rra_total :: "nat \<Rightarrow> rra_def_t list \<Rightarrow> nat" where
  "rra_total w rs = sum_list (map (\<lambda>r. row_cnt r * w) rs)"

definition wf_rrd :: "rrd \<Rightarrow> bool" where
  "wf_rrd s \<longleftrightarrow>
     length (ds_def s) = dscnt s \<and> length (pdp_prep s) = dscnt s \<and>
     length (rra_def s) = rracnt s \<and> length (rra_ptr s) = rracnt s \<and>
     length (cdp_prep s) = rracnt s * dscnt s \<and>
     0 < pdpstep s \<and>
     list_all (\<lambda>r. 0 < row_cnt r \<and> 0 < pdp_cnt r \<and> cf_conv (cf_nam r) \<noteq> None) (rra_def s) \<and>
     list_all (\<lambda>d. dst_conv (dst d) \<noteq> None) (ds_def s) \<and>
     list_all2 (\<lambda>c r. c < row_cnt r) (rra_ptr s) (rra_def s) \<and>
     rra_total (dscnt s) (rra_def s) \<le> length (rrd_value s)"

text \<open>The static part of the header, which no update changes.\<close>

definition same_layout :: "rrd \<Rightarrow> rrd \<Rightarrow> bool" where
  "same_layout s t \<longleftrightarrow>
     stat_head t = stat_head s \<and> ds_def t = ds_def s \<and> rra_def t = rra_def s \<and>
     length (pdp_prep t) = length (pdp_prep s) \<and> length (cdp_prep t) = length (cdp_prep s) \<and>
     length (rra_ptr t) = length (rra_ptr s) \<and> length (rrd_value t) = length (rrd_value s)"

lemma same_layout_refl [simp, intro]: "same_layout s s"
  by (simp add: same_layout_def)

lemma same_layout_trans [trans]: "same_layout s t \<Longrightarrow> same_layout t u \<Longrightarrow> same_layout s u"
  by (simp add: same_layout_def)

section \<open>Facts about the conversions\<close>

text \<open>The names are one to one: a type name determines its member and no two names share one.\<close>

lemma dst_conv_inj: "dst_conv a = Some d \<Longrightarrow> dst_conv b = Some d \<Longrightarrow> a = b"
  by (auto simp: dst_conv_def split: if_splits)

lemma cf_conv_inj: "cf_conv a = Some c \<Longrightarrow> cf_conv b = Some c \<Longrightarrow> a = b"
  unfolding cf_conv_def by (cases c) (simp_all split: if_splits)

lemma cf_conv_total: "\<exists>str. cf_conv str = Some c"
proof (cases c)
  case CF_AVERAGE then show ?thesis by (intro exI [of _ "''AVERAGE''"]) (simp add: cf_conv_def)
next
  case CF_MINIMUM then show ?thesis by (intro exI [of _ "''MIN''"]) (simp add: cf_conv_def)
next
  case CF_MAXIMUM then show ?thesis by (intro exI [of _ "''MAX''"]) (simp add: cf_conv_def)
next
  case CF_LAST then show ?thesis by (intro exI [of _ "''LAST''"]) (simp add: cf_conv_def)
next
  case CF_HWPREDICT then show ?thesis by (intro exI [of _ "''HWPREDICT''"]) (simp add: cf_conv_def)
next
  case CF_SEASONAL then show ?thesis by (intro exI [of _ "''SEASONAL''"]) (simp add: cf_conv_def)
next
  case CF_DEVPREDICT then show ?thesis by (intro exI [of _ "''DEVPREDICT''"]) (simp add: cf_conv_def)
next
  case CF_DEVSEASONAL then show ?thesis by (intro exI [of _ "''DEVSEASONAL''"]) (simp add: cf_conv_def)
next
  case CF_FAILURES then show ?thesis by (intro exI [of _ "''FAILURES''"]) (simp add: cf_conv_def)
next
  case CF_MHWPREDICT then show ?thesis by (intro exI [of _ "''MHWPREDICT''"]) (simp add: cf_conv_def)
qed

lemma ds_match_from_cases:
  "(ds_match_from i ds nam = - 1 \<and> nam \<notin> ds_nam ` set ds) \<or>
   (\<exists>k < length ds. ds_match_from i ds nam = int (i + k) \<and> ds_nam (ds ! k) = nam \<and>
      (\<forall>j < k. ds_nam (ds ! j) \<noteq> nam))"
proof (induction ds arbitrary: i)
  case Nil
  then show ?case by simp
next
  case (Cons d ds)
  show ?case
  proof (cases "nam = ds_nam d")
    case True
    then show ?thesis by (intro disjI2 exI [of _ 0]) simp
  next
    case False
    from Cons [of "Suc i"] show ?thesis
    proof (elim disjE exE conjE)
      fix k
      assume k: "k < length ds" "ds_match_from (Suc i) ds nam = int (Suc i + k)" "ds_nam (ds ! k) = nam"
        "\<forall>j < k. ds_nam (ds ! j) \<noteq> nam"
      have "\<forall>j < Suc k. ds_nam ((d # ds) ! j) \<noteq> nam"
        using k(4) False by (auto simp: nth_Cons split: nat.splits)
      with k False show ?thesis by (intro disjI2 exI [of _ "Suc k"]) simp
    qed (use False in auto)
  qed
qed

lemma scratch_get_set [simp]: "scratch_get i (scratch_set i v c) = v"
  by (cases i) simp_all

lemma wf_rrdD:
  assumes "wf_rrd s"
  shows "length (ds_def s) = dscnt s" "length (pdp_prep s) = dscnt s"
    "length (rra_def s) = rracnt s" "length (rra_ptr s) = rracnt s"
    "length (cdp_prep s) = rracnt s * dscnt s" "0 < pdpstep s"
    "rra_total (dscnt s) (rra_def s) \<le> length (rrd_value s)"
    "i < rracnt s \<Longrightarrow> 0 < row_cnt (rra_def s ! i)"
    "i < rracnt s \<Longrightarrow> 0 < pdp_cnt (rra_def s ! i)"
    "i < rracnt s \<Longrightarrow> rra_ptr s ! i < row_cnt (rra_def s ! i)"
    "i < rracnt s \<Longrightarrow> \<exists>c. cf_conv (cf_nam (rra_def s ! i)) = Some c"
    "j < dscnt s \<Longrightarrow> \<exists>d. dst_conv (dst (ds_def s ! j)) = Some d"
  using assms by (auto simp: wf_rrd_def list_all_length list_all2_conv_all_nth)

lemma wf_same_layout:
  assumes "wf_rrd s" and "same_layout s t" and "list_all2 (\<lambda>c r. c < row_cnt r) (rra_ptr t) (rra_def t)"
  shows "wf_rrd t"
  using assms by (auto simp: wf_rrd_def same_layout_def)

section \<open>A sample database\<close>

text \<open>
  Two data sources and two archives, as \<open>rrd_create\<close> leaves them a while after creation: the
  concrete input of the witnesses.
\<close>

definition demo_cdp :: "dbl \<Rightarrow> dbl \<Rightarrow> cdp_prep_t" where
  "demo_cdp p q = \<lparr>cdp_val = 0, unkn_pdp_cnt = 0, hw_intercept = NaN, hw_last_intercept = NaN,
     hw_slope = NaN, hw_last_slope = NaN, null_count = 1, last_null_count = 1,
     primary_val = p, secondary_val = q, violations = []\<rparr>"

definition demo_rra :: "string \<Rightarrow> nat \<Rightarrow> nat \<Rightarrow> rra_def_t" where
  "demo_rra cf rows pdps = \<lparr>cf_nam = cf, row_cnt = rows, pdp_cnt = pdps, cdp_xff_val = Fin (1 / 2),
     par1 = 0, par2 = 0, dependent_rra_idx = 0, par4 = 0, failure_threshold = 0\<rparr>"

definition demo_rrd :: rrd where
  "demo_rrd = \<lparr>stat_head = \<lparr>version = ''0003'', ds_cnt = 2, rra_cnt = 2, pdp_step = 300\<rparr>,
     ds_def = [\<lparr>ds_nam = ''in'', dst = ''GAUGE'', mrhb_cnt = 600, min_val = NaN, max_val = NaN, cdef = []\<rparr>,
               \<lparr>ds_nam = ''out'', dst = ''COUNTER'', mrhb_cnt = 600, min_val = 0, max_val = NaN, cdef = []\<rparr>],
     rra_def = [demo_rra ''AVERAGE'' 3 1, demo_rra ''MAX'' 2 2],
     live_head = \<lparr>last_up = 1200000000, last_up_usec = 0\<rparr>, legacy_last_up = None,
     pdp_prep = [\<lparr>last_ds = ''5'', unkn_sec_cnt = 0, pdp_val = 0\<rparr>, \<lparr>last_ds = ''1000'', unkn_sec_cnt = 0, pdp_val = 0\<rparr>],
     cdp_prep = [demo_cdp (Fin 1) (Fin 2), demo_cdp (Fin 3) (Fin 4), demo_cdp (Fin 5) (Fin 6), demo_cdp (Fin 7) (Fin 8)],
     rra_ptr = [1, 1], rrd_value = map Fin [10, 20, 11, 21, 12, 22, 13, 23, 14, 24],
     pos = 0, pcdp_summary = Some []\<rparr>"

lemma wf_demo_rrd [simp]: "wf_rrd demo_rrd"
  by (simp add: demo_rrd_def wf_rrd_def demo_rra_def cf_conv_def dst_conv_def rra_total_def)

lemma demo_rrd_simps [simp]:
  "rracnt demo_rrd = 2" "dscnt demo_rrd = 2" "pdpstep demo_rrd = 300"
  by (simp_all add: demo_rrd_def)

end
