(* ===== verification/Rra_Store.thy ===== *)
theory Rra_Store
  imports RRD_Format
begin

text \<open>
  The round robin archives on disk: the file operations of \<open>rrd_open.c\<close> (\<open>rrd_seek\<close>, \<open>rrd_tell\<close>,
  \<open>rrd_read\<close>, \<open>rrd_write\<close> in their \<open>HAVE_MMAP\<close> form) and the writer of \<open>rrd_update.c\<close>
  (\<open>write_RRA_row\<close>, \<open>write_to_rras\<close>).

  Positions are counted in values from the end of the header: every position the writer uses is a
  multiple of \<open>sizeof(rrd_value_t)\<close> behind the header. The contract of one archive is the locale
  \<open>round_robin\<close>: a ring of rows with a current row, and a step that advances the ring and stores a
  row. Its chronological content (\<open>chron\<close>, oldest row first) behaves as a queue of fixed length. The
  locale is interpreted on one iteration of the writing loop of \<open>write_to_rras\<close>.
\<close>

section \<open>File operations\<close>

datatype store_error = WriteBeyondEOF | WritingRrd | SeekErrorInRrd

datatype whence = SEEK_SET | SEEK_CUR | SEEK_END

text \<open>
  With \<open>HAVE_MMAP\<close> a seek only moves the position and never fails. File offsets are taken to stay in
  the range of \<open>off_t\<close> and at or behind the end of the header.
\<close>

definition rrd_seek :: "int \<Rightarrow> whence \<Rightarrow> rrd \<Rightarrow> (store_error, rrd) outcome" where
  "rrd_seek off whence s =
     (None, (case whence of
               SEEK_SET \<Rightarrow> s\<lparr>pos := nat off\<rparr>
             | SEEK_CUR \<Rightarrow> s\<lparr>pos := nat (int (pos s) + off)\<rparr>
             | SEEK_END \<Rightarrow> s\<lparr>pos := nat (int (length (rrd_value s)) + off)\<rparr>))"

definition rrd_tell :: "rrd \<Rightarrow> nat" where
  "rrd_tell s = pos s"

text \<open>The values read are the result; a read at or behind the end returns none, one that reaches
  over the end is short.\<close>

definition rrd_read :: "nat \<Rightarrow> rrd \<Rightarrow> dbl list \<times> rrd" where
  "rrd_read count s =
     (if pos s > length (rrd_value s) \<or> count = 0 then ([], s)
      else let surplus = int (pos s) + int count - int (length (rrd_value s));
               cnt = (if surplus > 0 then nat (int count - surplus) else count)
           in if cnt = 0 then ([], s)
              else (take cnt (drop (pos s) (rrd_value s)), s\<lparr>pos := pos s + cnt\<rparr>))"

definition rrd_write :: "dbl list \<Rightarrow> rrd \<Rightarrow> (store_error, rrd) outcome" where
  "rrd_write buf s =
     (let count = length buf in
      if count = 0 then (None, s)
      else if pos s + count > length (rrd_value s) then (Some WriteBeyondEOF, s)
      else (None, s\<lparr>rrd_value := take (pos s) (rrd_value s) @ buf @ drop (pos s + count) (rrd_value s),
                    pos := pos s + count\<rparr>))"

section \<open>The writer\<close>

definition info_push :: "cdp_info \<Rightarrow> rrd \<Rightarrow> rrd" where
  "info_push e s = s\<lparr>pcdp_summary := map_option (\<lambda>l. l @ [e]) (pcdp_summary s)\<rparr>"

definition write_RRA_row :: "nat \<Rightarrow> scratch_idx \<Rightarrow> int \<Rightarrow> rrd \<Rightarrow> (store_error, rrd) outcome" where
  "write_RRA_row rra_idx CDP_scratch_idx rra_time s =
     loopM (\<lambda>ds_idx s.
        let cdp_idx = rra_idx * dscnt s + ds_idx;
            v = scratch_get CDP_scratch_idx (cdp_prep s ! cdp_idx);
            s = (if pcdp_summary s \<noteq> None
                 then info_push \<lparr>info_time = rra_time, info_cf = cf_nam (rra_def s ! rra_idx),
                                 info_pdp_cnt = pdp_cnt (rra_def s ! rra_idx),
                                 info_ds = ds_nam (ds_def s ! ds_idx), info_val = v\<rparr> s
                 else s)
        in map_err (\<lambda>_. WritingRrd) (rrd_write [v] s))
       [0 ..< dscnt s] s"

text \<open>
  The body of the inner loop of \<open>write_to_rras\<close>, for one pending step of one archive. \<open>cnt\<close> is the
  current value of \<open>rra_step_cnt[rra_idx]\<close>. The time arithmetic is that of \<open>unsigned long\<close>, its
  result stored to a \<open>time_t\<close>; \<open>rrd_notify_row\<close> is the empty function of \<open>rrd_open.c\<close>.
\<close>

definition advance_row :: "nat \<Rightarrow> rrd \<Rightarrow> rrd" where
  "advance_row rra_idx s =
     (let c = rra_ptr s ! rra_idx + 1
      in s\<lparr>rra_ptr := (rra_ptr s)[rra_idx := (if c \<ge> row_cnt (rra_def s ! rra_idx) then 0 else c)]\<rparr>)"

definition rra_row_time :: "rrd \<Rightarrow> nat \<Rightarrow> int \<Rightarrow> nat \<Rightarrow> nat \<Rightarrow> int" where
  "rra_row_time s rra_idx current_time cnt step_subtract =
     (let step_time = u64 (int (pdp_cnt (rra_def s ! rra_idx) * pdpstep s));
          ct = u64 current_time
      in s64 (int (ct - ct mod step_time) - (int cnt - int step_subtract) * int step_time))"

definition write_step :: "nat \<Rightarrow> nat \<Rightarrow> int \<Rightarrow> bool \<Rightarrow> scratch_idx \<Rightarrow> nat \<Rightarrow> nat \<Rightarrow> rrd
    \<Rightarrow> (store_error, rrd) outcome" where
  "write_step rra_idx rra_start current_time skip scratch_idx step_subtract cnt s =
     (let s = advance_row rra_idx s;
          rra_pos_new = rra_start + dscnt s * rra_ptr s ! rra_idx
      in andThen (if rra_pos_new \<noteq> pos s
                  then map_err (\<lambda>_. SeekErrorInRrd) (rrd_seek (int rra_pos_new) SEEK_SET s)
                  else (None, s))
         (\<lambda>s. if skip then (None, s)
              else write_RRA_row rra_idx scratch_idx
                     (if pcdp_summary s \<noteq> None
                      then rra_row_time s rra_idx current_time cnt step_subtract else 0) s))"

fun write_steps :: "nat \<Rightarrow> nat \<Rightarrow> int \<Rightarrow> bool \<Rightarrow> scratch_idx \<Rightarrow> nat \<Rightarrow> nat \<Rightarrow> rrd
    \<Rightarrow> (store_error, rrd) outcome" where
  "write_steps ri st ct skip sc sub 0 s = (None, s)"
| "write_steps ri st ct skip sc sub (Suc n) s =
     andThen (write_step ri st ct skip sc sub (Suc n) s)
       (write_steps ri st ct skip CDP_secondary_val 2 n)"

fun write_rras_from :: "nat list \<Rightarrow> nat list \<Rightarrow> int \<Rightarrow> nat list \<Rightarrow> nat \<Rightarrow> rrd
    \<Rightarrow> (store_error, rrd) outcome" where
  "write_rras_from [] rra_step_cnt current_time skip_update rra_start s = (None, s)"
| "write_rras_from (rra_idx # ris) rra_step_cnt current_time skip_update rra_start s =
     andThen (write_steps rra_idx rra_start current_time (skip_update ! rra_idx \<noteq> 0) CDP_primary_val 1
                (rra_step_cnt ! rra_idx) s)
       (\<lambda>s. write_rras_from ris rra_step_cnt current_time skip_update
              (rra_start + row_cnt (rra_def s ! rra_idx) * dscnt s) s)"

definition write_to_rras :: "nat list \<Rightarrow> nat \<Rightarrow> int \<Rightarrow> nat list \<Rightarrow> rrd \<Rightarrow> (store_error, rrd) outcome" where
  "write_to_rras rra_step_cnt rra_begin current_time skip_update s =
     write_rras_from [0 ..< rracnt s] rra_step_cnt current_time skip_update rra_begin s"

section \<open>The contract of a round robin archive\<close>

text \<open>
  A ring of rows: \<open>step a\<close> moves the current row forward, wrapping at the end, and replaces it by the
  row that \<open>row_of a\<close> reads from the state; that row is not changed by steps.
\<close>

locale round_robin =
  fixes inv :: "'s \<Rightarrow> bool" and rows :: "'s \<Rightarrow> 'r list" and cur :: "'s \<Rightarrow> nat"
    and row_of :: "'a \<Rightarrow> 's \<Rightarrow> 'r" and step :: "'a \<Rightarrow> 's \<Rightarrow> 's"
  assumes cur_less: "inv s \<Longrightarrow> cur s < length (rows s)"
    and inv_step: "inv s \<Longrightarrow> inv (step a s)"
    and cur_step: "inv s \<Longrightarrow> cur (step a s) = Suc (cur s) mod length (rows s)"
    and rows_step: "inv s \<Longrightarrow> rows (step a s) = (rows s)[Suc (cur s) mod length (rows s) := row_of a s]"
    and row_of_step: "inv s \<Longrightarrow> row_of b (step a s) = row_of b s"
begin

definition chron :: "'s \<Rightarrow> 'r list" where
  "chron s = rotate (Suc (cur s)) (rows s)"

lemma length_chron: "length (chron s) = length (rows s)"
  by (simp add: chron_def)

lemma chron_nth:
  assumes "i < length (rows s)"
  shows "chron s ! i = rows s ! ((Suc (cur s) + i) mod length (rows s))"
  unfolding chron_def using assms by (rule nth_rotate)

lemma chron_last:
  assumes "inv s"
  shows "last (chron s) = rows s ! cur s"
proof -
  from cur_less [OF assms] have n: "cur s < length (rows s)" .
  then have "rows s \<noteq> []" by auto
  then have "last (chron s) = chron s ! (length (rows s) - 1)"
    by (simp add: last_conv_nth length_chron chron_def)
  also have "\<dots> = rows s ! ((Suc (cur s) + (length (rows s) - 1)) mod length (rows s))"
    using n by (intro chron_nth) simp
  also have "Suc (cur s) + (length (rows s) - 1) = cur s + length (rows s)" using n by simp
  finally show ?thesis using n by simp
qed

lemma chron_step:
  assumes inv: "inv s"
  shows "chron (step a s) = tl (chron s) @ [row_of a s]"
proof (rule nth_equalityI)
  define n where "n = length (rows s)"
  define c where "c = Suc (cur s) mod n"
  have n: "0 < n" "cur s < n" using cur_less [OF inv] by (auto simp: n_def)
  have rows': "rows (step a s) = (rows s)[c := row_of a s]" and cur': "cur (step a s) = c"
    using rows_step [OF inv] cur_step [OF inv] by (auto simp: c_def n_def)
  have len': "length (rows (step a s)) = n" by (simp add: rows' n_def)
  show "length (chron (step a s)) = length (tl (chron s) @ [row_of a s])"
    using n by (simp add: length_chron len' n_def)
  fix i assume "i < length (chron (step a s))"
  then have i: "i < n" by (simp add: length_chron len')
  have "chron (step a s) ! i = (rows s)[c := row_of a s] ! ((Suc c + i) mod n)"
    using i by (subst chron_nth) (simp_all add: len', simp add: rows' cur')
  also have "\<dots> = (tl (chron s) @ [row_of a s]) ! i"
  proof (cases "i = n - 1")
    case True
    with n have "(Suc c + i) mod n = c" by (simp add: c_def)
    with True n show ?thesis by (simp add: nth_append length_chron n_def c_def)
  next
    case False
    with i have i': "Suc i < n" by simp
    have "(Suc c + i) mod n = (c + Suc i) mod n" by simp
    moreover have "(c + Suc i) mod n \<noteq> c"
    proof (cases "c + Suc i < n")
      case False
      have "c < n" using n by (simp add: c_def)
      with False i' have "(c + Suc i) mod n = c + Suc i - n" by (simp add: mod_if)
      with i' \<open>c < n\<close> False show ?thesis by simp
    qed simp
    ultimately have "(rows s)[c := row_of a s] ! ((Suc c + i) mod n) = rows s ! ((c + Suc i) mod n)"
      by (metis nth_list_update_neq)
    also have "(c + Suc i) mod n = (Suc (cur s) + Suc i) mod n" by (simp only: c_def mod_add_left_eq)
    also have "rows s ! \<dots> = chron s ! Suc i"
      unfolding n_def using i' by (intro chron_nth [symmetric]) (simp add: n_def)
    also have "\<dots> = (tl (chron s) @ [row_of a s]) ! i"
      using i' by (auto simp: nth_append length_chron n_def nth_tl)
    finally show ?thesis .
  qed
  finally show "chron (step a s) ! i = (tl (chron s) @ [row_of a s]) ! i" .
qed

lemma inv_fold: "inv s \<Longrightarrow> inv (fold step as s)"
  by (induction as arbitrary: s) (auto intro: inv_step)

text \<open>After any number of steps the log is the end of the old log followed by the new rows.\<close>

lemma chron_fold:
  assumes "inv s"
  shows "chron (fold step as s) = drop (length as) (chron s @ map (\<lambda>a. row_of a s) as)"
  using assms
proof (induction as arbitrary: s)
  case Nil
  then show ?case by simp
next
  case (Cons a as)
  have ne: "chron s \<noteq> []" using cur_less [OF Cons.prems] length_chron [of s] by (cases "chron s") auto
  have "chron (fold step (a # as) s)
      = drop (length as) (chron (step a s) @ map (\<lambda>b. row_of b (step a s)) as)"
    using Cons.IH [OF inv_step [OF Cons.prems]] by simp
  also have "map (\<lambda>b. row_of b (step a s)) as = map (\<lambda>b. row_of b s) as"
    using row_of_step [OF Cons.prems] by simp
  also have "chron (step a s) @ map (\<lambda>b. row_of b s) as = tl (chron s @ map (\<lambda>b. row_of b s) (a # as))"
    using ne by (simp add: chron_step [OF Cons.prems])
  finally show ?case by (simp only: drop_Suc list.size add_0_right add_Suc_right)
qed

end

section \<open>Archives of a database\<close>

text \<open>
  Archive \<open>i\<close> occupies \<open>row_cnt * ds_cnt\<close> values behind the archives before it. \<open>rra_log\<close> is its
  content in the order of time.
\<close>

definition rra_off :: "rrd \<Rightarrow> nat \<Rightarrow> nat" where
  "rra_off s i = rra_total (dscnt s) (take i (rra_def s))"

definition rra_cell :: "rrd \<Rightarrow> nat \<Rightarrow> nat \<Rightarrow> nat \<Rightarrow> dbl" where
  "rra_cell s i r d = rrd_value s ! (rra_off s i + r * dscnt s + d)"

definition rra_rows :: "rrd \<Rightarrow> nat \<Rightarrow> dbl list list" where
  "rra_rows s i = map (\<lambda>r. map (rra_cell s i r) [0 ..< dscnt s]) [0 ..< row_cnt (rra_def s ! i)]"

definition rra_log :: "rrd \<Rightarrow> nat \<Rightarrow> dbl list list" where
  "rra_log s i = rotate (Suc (rra_ptr s ! i)) (rra_rows s i)"

text \<open>The row that \<open>write_RRA_row\<close> stores: one scratch value per data source.\<close>

definition scratch_row :: "rrd \<Rightarrow> nat \<Rightarrow> scratch_idx \<Rightarrow> dbl list" where
  "scratch_row s i sc = map (\<lambda>d. scratch_get sc (cdp_prep s ! (i * dscnt s + d))) [0 ..< dscnt s]"

lemma length_rra_rows [simp]: "length (rra_rows s i) = row_cnt (rra_def s ! i)"
  by (simp add: rra_rows_def)

lemma length_scratch_row [simp]: "length (scratch_row s i sc) = dscnt s"
  by (simp add: scratch_row_def)

lemma rra_total_append [simp]: "rra_total w (xs @ ys) = rra_total w xs + rra_total w ys"
  by (simp add: rra_total_def)

lemma rra_off_Suc:
  "i < length (rra_def s) \<Longrightarrow> rra_off s (Suc i) = rra_off s i + row_cnt (rra_def s ! i) * dscnt s"
  by (simp add: rra_off_def take_Suc_conv_app_nth) (simp add: rra_total_def)

lemma rra_off_mono:
  assumes "i < j" and "j \<le> length (rra_def s)"
  shows "rra_off s i + row_cnt (rra_def s ! i) * dscnt s \<le> rra_off s j"
proof -
  have "take j (rra_def s) = take (Suc i) (rra_def s) @ take (j - Suc i) (drop (Suc i) (rra_def s))"
    using assms by (metis Suc_leI le_add_diff_inverse take_add)
  then have "rra_off s (Suc i) \<le> rra_off s j" by (simp add: rra_off_def)
  with assms show ?thesis by (simp add: rra_off_Suc)
qed

lemma rra_off_end:
  assumes "wf_rrd s" and "i < rracnt s"
  shows "rra_off s i + row_cnt (rra_def s ! i) * dscnt s \<le> length (rrd_value s)"
proof -
  have "rra_off s (length (rra_def s)) \<le> length (rrd_value s)"
    using wf_rrdD(7) [OF assms(1)] by (simp add: rra_off_def)
  with rra_off_mono [of i "length (rra_def s)" s] assms wf_rrdD(3) [OF assms(1)] show ?thesis by simp
qed

lemma cell_index_bounds:
  assumes "r < row_cnt (rra_def s ! i)" and "d < dscnt s"
  shows "rra_off s i \<le> rra_off s i + r * dscnt s + d"
    and "rra_off s i + r * dscnt s + d < rra_off s i + row_cnt (rra_def s ! i) * dscnt s"
  using block_index_less [OF assms] by auto

text \<open>Cells of different archives or different rows are different places of the file.\<close>

lemma cells_disjoint:
  assumes "i < length (rra_def s)" "j < length (rra_def s)"
    and "r < row_cnt (rra_def s ! i)" "q < row_cnt (rra_def s ! j)" "d < dscnt s"
    and "i \<noteq> j \<or> r \<noteq> q"
  shows "rra_off s j + q * dscnt s + d < rra_off s i + r * dscnt s \<or>
         rra_off s i + r * dscnt s + dscnt s \<le> rra_off s j + q * dscnt s + d"
proof -
  consider "i < j" | "j < i" | "i = j" "r < q" | "i = j" "q < r" using assms(6) by linarith
  then show ?thesis
  proof cases
    case 1
    then have "rra_off s i + row_cnt (rra_def s ! i) * dscnt s \<le> rra_off s j"
      using assms(2) by (intro rra_off_mono) simp_all
    moreover have "Suc r * dscnt s \<le> row_cnt (rra_def s ! i) * dscnt s"
      using assms(3) by (intro mult_le_mono1) simp
    ultimately show ?thesis by simp
  next
    case 2
    then have "rra_off s j + row_cnt (rra_def s ! j) * dscnt s \<le> rra_off s i"
      using assms(1) by (intro rra_off_mono) simp_all
    with cell_index_bounds(2) [OF assms(4,5)] show ?thesis by simp
  next
    case 3
    then have "Suc r * dscnt s \<le> q * dscnt s" by (intro mult_le_mono1) simp
    with 3 show ?thesis by simp
  next
    case 4
    then have "Suc q * dscnt s \<le> r * dscnt s" by (intro mult_le_mono1) simp
    with 4 assms(5) show ?thesis by simp
  qed
qed

lemma rrd_seek_nat: "rrd_seek (int p) SEEK_SET s = (None, s\<lparr>pos := p\<rparr>)"
  by (simp add: rrd_seek_def)

section \<open>One row\<close>

definition row_infos :: "rrd \<Rightarrow> nat \<Rightarrow> scratch_idx \<Rightarrow> int \<Rightarrow> nat \<Rightarrow> cdp_info list" where
  "row_infos s i sc t n =
     map (\<lambda>d. \<lparr>info_time = t, info_cf = cf_nam (rra_def s ! i), info_pdp_cnt = pdp_cnt (rra_def s ! i),
               info_ds = ds_nam (ds_def s ! d),
               info_val = scratch_get sc (cdp_prep s ! (i * dscnt s + d))\<rparr>) [0 ..< n]"

text \<open>\<open>write_RRA_row\<close> in closed form: it succeeds exactly when the row fits the file.\<close>

lemma write_RRA_row_eq:
  assumes "pos s + dscnt s \<le> length (rrd_value s)"
  shows "write_RRA_row i sc t s =
    (None, s\<lparr>rrd_value := take (pos s) (rrd_value s) @ scratch_row s i sc
                 @ drop (pos s + dscnt s) (rrd_value s),
             pos := pos s + dscnt s,
             pcdp_summary := map_option (\<lambda>l. l @ row_infos s i sc t (dscnt s)) (pcdp_summary s)\<rparr>)"
proof -
  define b where "b = (\<lambda>ds_idx s.
        let cdp_idx = i * dscnt s + ds_idx;
            v = scratch_get sc (cdp_prep s ! cdp_idx);
            s = (if pcdp_summary s \<noteq> None
                 then info_push \<lparr>info_time = t, info_cf = cf_nam (rra_def s ! i),
                                 info_pdp_cnt = pdp_cnt (rra_def s ! i),
                                 info_ds = ds_nam (ds_def s ! ds_idx), info_val = v\<rparr> s
                 else s)
        in map_err (\<lambda>_. WritingRrd) (rrd_write [v] s))"
  have "n \<le> dscnt s \<Longrightarrow> loopM b [0 ..< n] s =
    (None, s\<lparr>rrd_value := take (pos s) (rrd_value s)
                 @ map (\<lambda>d. scratch_get sc (cdp_prep s ! (i * dscnt s + d))) [0 ..< n]
                 @ drop (pos s + n) (rrd_value s),
             pos := pos s + n,
             pcdp_summary := map_option (\<lambda>l. l @ row_infos s i sc t n) (pcdp_summary s)\<rparr>)" for n
  proof (induction n)
    case 0
    then show ?case by (cases "pcdp_summary s") (simp_all add: row_infos_def option.map_ident)
  next
    case (Suc n)
    then have "pos s + n < length (rrd_value s)" using assms by simp
    with Suc show ?case
      by (cases "pcdp_summary s")
        (simp_all add: loopM_append, simp_all add: b_def info_push_def rrd_write_def Let_def row_infos_def)
  qed
  from this [of "dscnt s"] show ?thesis
    unfolding write_RRA_row_def b_def scratch_row_def by simp
qed

text \<open>The file contents with \<open>row\<close> stored at position \<open>p\<close>.\<close>

definition put_row :: "nat \<Rightarrow> dbl list \<Rightarrow> dbl list \<Rightarrow> dbl list" where
  "put_row p row v = take p v @ row @ drop (p + length row) v"

lemma length_put_row [simp]: "p + length row \<le> length v \<Longrightarrow> length (put_row p row v) = length v"
  by (simp add: put_row_def)

lemma nth_put_row:
  assumes "p + length row \<le> length v" and "k < length v"
  shows "put_row p row v ! k = (if k < p \<or> p + length row \<le> k then v ! k else row ! (k - p))"
  using assms by (auto simp: put_row_def nth_append)

lemma rra_cell_put_row:
  assumes wf: "wf_rrd s" and i: "i < rracnt s" and j: "j < rracnt s"
    and c: "c < row_cnt (rra_def s ! i)" and r: "r < row_cnt (rra_def s ! j)" and d: "d < dscnt s"
    and len: "length row = dscnt s"
    and t: "rrd_value t = put_row (rra_off s i + c * dscnt s) row (rrd_value s)"
      "rra_def t = rra_def s" "stat_head t = stat_head s"
  shows "rra_cell t j r d = (if j = i \<and> r = c then row ! d else rra_cell s j r d)"
proof -
  note L = wf_rrdD(3) [OF wf]
  have off: "rra_off t x = rra_off s x" for x using t by (simp add: rra_off_def)
  have "Suc c * dscnt s \<le> row_cnt (rra_def s ! i) * dscnt s" using c by (intro mult_le_mono1) simp
  then have p: "rra_off s i + c * dscnt s + length row \<le> length (rrd_value s)"
    using rra_off_end [OF wf i] len by simp
  have k: "rra_off s j + r * dscnt s + d < length (rrd_value s)"
    using cell_index_bounds(2) [OF r d] rra_off_end [OF wf j] by simp
  have ds: "dscnt t = dscnt s" using t by simp
  show ?thesis
  proof (cases "j = i \<and> r = c")
    case True
    with k p len d show ?thesis by (auto simp: rra_cell_def off t(1) ds nth_put_row)
  next
    case False
    then have "rra_off s j + r * dscnt s + d < rra_off s i + c * dscnt s \<or>
        rra_off s i + c * dscnt s + dscnt s \<le> rra_off s j + r * dscnt s + d"
      using cells_disjoint [of i s j c r d] i j c r d L by auto
    with False k p len show ?thesis
      by (auto simp: rra_cell_def off t(1) ds nth_put_row)
  qed
qed

lemma rra_rows_put_row:
  assumes "wf_rrd s" "i < rracnt s" "j < rracnt s" "c < row_cnt (rra_def s ! i)" "length row = dscnt s"
    and t: "rrd_value t = put_row (rra_off s i + c * dscnt s) row (rrd_value s)"
      "rra_def t = rra_def s" "stat_head t = stat_head s"
  shows "rra_rows t j = (if j = i then (rra_rows s i)[c := row] else rra_rows s j)"
proof (rule nth_equalityI)
  show "length (rra_rows t j) = length (if j = i then (rra_rows s i)[c := row] else rra_rows s j)"
    using t by simp
  fix r assume "r < length (rra_rows t j)"
  then have r: "r < row_cnt (rra_def s ! j)" using t by simp
  note cell = rra_cell_put_row [OF assms(1-4) r _ assms(5) t]
  have "rra_rows t j ! r = map (rra_cell t j r) [0 ..< dscnt s]" using r t by (simp add: rra_rows_def)
  also have "\<dots> = map (\<lambda>d. if j = i \<and> r = c then row ! d else rra_cell s j r d) [0 ..< dscnt s]"
    using cell by (intro map_cong) simp_all
  also have "\<dots> = (if j = i then (rra_rows s i)[c := row] else rra_rows s j) ! r"
    using r assms(4,5) by (auto simp: rra_rows_def nth_list_update map_nth simp flip: assms(5))
  finally show "rra_rows t j ! r = (if j = i then (rra_rows s i)[c := row] else rra_rows s j) ! r" .
qed

section \<open>One step of an archive\<close>

text \<open>What the writer may change: current rows, stored values, the file position, the info list.\<close>

definition store_only :: "rrd \<Rightarrow> rrd \<Rightarrow> bool" where
  "store_only s t \<longleftrightarrow>
     stat_head t = stat_head s \<and> ds_def t = ds_def s \<and> rra_def t = rra_def s \<and>
     live_head t = live_head s \<and> legacy_last_up t = legacy_last_up s \<and>
     pdp_prep t = pdp_prep s \<and> cdp_prep t = cdp_prep s \<and>
     length (rra_ptr t) = length (rra_ptr s) \<and> length (rrd_value t) = length (rrd_value s)"

lemma store_onlyD:
  assumes "store_only s t"
  shows "stat_head t = stat_head s" "ds_def t = ds_def s" "rra_def t = rra_def s"
    "live_head t = live_head s" "legacy_last_up t = legacy_last_up s"
    "pdp_prep t = pdp_prep s" "cdp_prep t = cdp_prep s"
    "length (rra_ptr t) = length (rra_ptr s)" "length (rrd_value t) = length (rrd_value s)"
  using assms by (simp_all add: store_only_def)

lemma store_only_refl [simp]: "store_only s s"
  by (simp add: store_only_def)

lemma store_only_trans: "store_only s t \<Longrightarrow> store_only t u \<Longrightarrow> store_only s u"
  by (simp add: store_only_def)

lemma store_only_layout: "store_only s t \<Longrightarrow> same_layout s t"
  using store_onlyD by (auto simp: same_layout_def)

lemma store_only_off: "store_only s t \<Longrightarrow> rra_off t i = rra_off s i"
  by (simp add: rra_off_def store_onlyD)

lemma store_only_scratch: "store_only s t \<Longrightarrow> scratch_row t i sc = scratch_row s i sc"
  by (simp add: scratch_row_def store_onlyD)

definition next_row :: "rrd \<Rightarrow> nat \<Rightarrow> nat" where
  "next_row s i = Suc (rra_ptr s ! i) mod row_cnt (rra_def s ! i)"

lemma next_row_less: "wf_rrd s \<Longrightarrow> i < rracnt s \<Longrightarrow> next_row s i < row_cnt (rra_def s ! i)"
  using wf_rrdD(8) [of s i] by (simp add: next_row_def)

lemma advance_row_eq:
  assumes "wf_rrd s" and "i < rracnt s"
  shows "advance_row i s = s\<lparr>rra_ptr := (rra_ptr s)[i := next_row s i]\<rparr>"
proof -
  have "rra_ptr s ! i < row_cnt (rra_def s ! i)" using wf_rrdD(10) [OF assms(1)] assms(2) by simp
  then have "(if row_cnt (rra_def s ! i) \<le> rra_ptr s ! i + 1 then 0 else rra_ptr s ! i + 1) = next_row s i"
    by (auto simp: next_row_def mod_Suc)
  then show ?thesis unfolding advance_row_def Let_def by simp
qed

lemma write_step_eq:
  assumes wf: "wf_rrd s" and i: "i < rracnt s"
  shows "write_step i (rra_off s i) ct skip sc sub cnt s =
    (let p = rra_off s i + next_row s i * dscnt s;
         t = s\<lparr>rra_ptr := (rra_ptr s)[i := next_row s i], pos := p\<rparr>
     in if skip then (None, t)
        else (None, t\<lparr>rrd_value := put_row p (scratch_row s i sc) (rrd_value s), pos := p + dscnt s,
                pcdp_summary := map_option (\<lambda>l. l @ row_infos s i sc
                    (rra_row_time s i ct cnt sub) (dscnt s)) (pcdp_summary s)\<rparr>))"
proof -
  define p where "p = rra_off s i + next_row s i * dscnt s"
  define t where "t = s\<lparr>rra_ptr := (rra_ptr s)[i := next_row s i], pos := p\<rparr>"
  have il: "i < length (rra_ptr s)" using wf_rrdD(4) [OF wf] i by simp
  have "Suc (next_row s i) * dscnt s \<le> row_cnt (rra_def s ! i) * dscnt s"
    using next_row_less [OF wf i] by (intro mult_le_mono1) simp
  then have fit: "pos t + dscnt t \<le> length (rrd_value t)"
    using rra_off_end [OF wf i] by (simp add: p_def t_def)
  have step: "write_step i (rra_off s i) ct skip sc sub cnt s =
      (if skip then (None, t)
       else write_RRA_row i sc (if pcdp_summary t \<noteq> None then rra_row_time t i ct cnt sub else 0) t)"
    unfolding write_step_def Let_def advance_row_eq [OF wf i]
    using il by (auto simp: rrd_seek_nat t_def p_def mult.commute simp del: of_nat_add of_nat_mult)
  show ?thesis
  proof (cases skip)
    case True
    then show ?thesis using step by (simp add: Let_def p_def t_def)
  next
    case False
    have *: "row_infos t i sc u n = row_infos s i sc u n" "scratch_row t i sc = scratch_row s i sc"
      "rra_row_time t i ct cnt sub = rra_row_time s i ct cnt sub" for u n
      by (simp_all add: row_infos_def scratch_row_def rra_row_time_def t_def)
    from False show ?thesis
      unfolding step write_RRA_row_eq [OF fit] Let_def
      by (cases "pcdp_summary s")
        (simp_all only: * if_False, simp_all add: put_row_def p_def t_def)
  qed
qed

text \<open>One successful step: the frame, the ring of the archive, and the other archives.\<close>

lemma write_step_store:
  assumes "wf_rrd s" and "i < rracnt s"
  shows "fst (write_step i (rra_off s i) ct skip sc sub cnt s) = None"
    and "store_only s (snd (write_step i (rra_off s i) ct skip sc sub cnt s))"
    and "rra_ptr (snd (write_step i (rra_off s i) ct skip sc sub cnt s)) = (rra_ptr s)[i := next_row s i]"
    and "skip \<Longrightarrow> rrd_value (snd (write_step i (rra_off s i) ct skip sc sub cnt s)) = rrd_value s"
proof -
  have "Suc (next_row s i) * dscnt s \<le> row_cnt (rra_def s ! i) * dscnt s"
    using next_row_less [OF assms] by (intro mult_le_mono1) simp
  then have "rra_off s i + next_row s i * dscnt s + dscnt s \<le> length (rrd_value s)"
    using rra_off_end [OF assms] by simp
  then have len: "length (put_row (rra_off s i + next_row s i * dscnt s) (scratch_row s i sc) (rrd_value s))
      = length (rrd_value s)"
    by (intro length_put_row) simp
  show "store_only s (snd (write_step i (rra_off s i) ct skip sc sub cnt s))"
    unfolding write_step_eq [OF assms] Let_def using len by (cases skip) (simp_all add: store_only_def)
qed (cases skip; simp add: write_step_eq [OF assms] Let_def)+

lemma wf_store_only:
  assumes "wf_rrd s" "i < rracnt s" "store_only s t" "rra_ptr t = (rra_ptr s)[i := c]"
    "c < row_cnt (rra_def s ! i)"
  shows "wf_rrd t"
proof (rule wf_same_layout [OF assms(1) store_only_layout [OF assms(3)]])
  show "list_all2 (\<lambda>c r. c < row_cnt r) (rra_ptr t) (rra_def t)"
    using wf_rrdD(3,4) [OF assms(1)] wf_rrdD(10) [OF assms(1)] assms(2,4,5) store_onlyD(3) [OF assms(3)]
    by (simp add: list_all2_conv_all_nth nth_list_update)
qed

lemma wf_write_step:
  assumes "wf_rrd s" and "i < rracnt s"
  shows "wf_rrd (snd (write_step i (rra_off s i) ct skip sc sub cnt s))"
  using wf_store_only [OF assms write_step_store(2,3) [OF assms] next_row_less [OF assms]] .

lemma write_step_rows:
  assumes "wf_rrd s" and "i < rracnt s" and "j < rracnt s"
  shows "rra_rows (snd (write_step i (rra_off s i) ct False sc sub cnt s)) j =
           (if j = i then (rra_rows s i)[next_row s i := scratch_row s i sc] else rra_rows s j)"
proof (rule rra_rows_put_row [OF assms next_row_less [OF assms(1,2)]])
qed (simp_all add: write_step_eq [OF assms(1,2)] Let_def)

text \<open>The writing iteration of archive \<open>i\<close>, as the step of the ring.\<close>

definition ring_step :: "nat \<Rightarrow> int \<times> scratch_idx \<times> nat \<times> nat \<Rightarrow> rrd \<Rightarrow> rrd" where
  "ring_step i a s = (case a of (ct, sc, sub, cnt) \<Rightarrow> snd (write_step i (rra_off s i) ct False sc sub cnt s))"

interpretation rra: round_robin "\<lambda>s. wf_rrd s \<and> i < rracnt s" "\<lambda>s. rra_rows s i" "\<lambda>s. rra_ptr s ! i"
  "\<lambda>a s. scratch_row s i (fst (snd a))" "ring_step i" for i
proof unfold_locales
  fix s :: rrd and a b :: "int \<times> scratch_idx \<times> nat \<times> nat"
  assume s: "wf_rrd s \<and> i < rracnt s"
  then have wf: "wf_rrd s" and i: "i < rracnt s" by simp_all
  obtain ct sc sub cnt where a: "a = (ct, sc, sub, cnt)" by (cases a)
  note st = write_step_store [OF wf i, where ct = ct and skip = False and sc = sc and sub = sub and cnt = cnt]
  have il: "i < length (rra_ptr s)" using wf_rrdD(4) [OF wf] i by simp
  show "rra_ptr s ! i < length (rra_rows s i)" using wf_rrdD(10) [OF wf] i by simp
  show "wf_rrd (ring_step i a s) \<and> i < rracnt (ring_step i a s)"
    using wf_write_step [OF wf i] i st(2) by (simp add: ring_step_def a store_onlyD)
  show "rra_ptr (ring_step i a s) ! i = Suc (rra_ptr s ! i) mod length (rra_rows s i)"
    using st(3) il by (simp add: ring_step_def a next_row_def)
  show "rra_rows (ring_step i a s) i =
      (rra_rows s i)[Suc (rra_ptr s ! i) mod length (rra_rows s i) := scratch_row s i (fst (snd a))]"
    using write_step_rows [OF wf i i] by (simp add: ring_step_def a next_row_def)
  show "scratch_row (ring_step i a s) i (fst (snd b)) = scratch_row s i (fst (snd b))"
    using st(2) by (simp add: ring_step_def a store_only_scratch)
qed

lemma rra_chron: "rra.chron i = (\<lambda>s. rra_log s i)"
  by (simp add: rra.chron_def rra_log_def fun_eq_iff)

section \<open>All steps of one archive\<close>

fun ring_args :: "int \<Rightarrow> scratch_idx \<Rightarrow> nat \<Rightarrow> nat \<Rightarrow> (int \<times> scratch_idx \<times> nat \<times> nat) list" where
  "ring_args ct sc sub 0 = []"
| "ring_args ct sc sub (Suc n) = (ct, sc, sub, Suc n) # ring_args ct CDP_secondary_val 2 n"

lemma length_ring_args [simp]: "length (ring_args ct sc sub n) = n"
  by (induction n arbitrary: sc sub) simp_all

lemma ring_args_scratch:
  "map (\<lambda>a. fst (snd a)) (ring_args ct sc sub n) =
     (if n = 0 then [] else sc # replicate (n - 1) CDP_secondary_val)"
proof (induction n arbitrary: sc sub)
  case (Suc n)
  then show ?case by (cases n) simp_all
qed simp

lemma write_steps_fold:
  assumes "wf_rrd s" and "i < rracnt s"
  shows "write_steps i (rra_off s i) ct False sc sub n s = (None, fold (ring_step i) (ring_args ct sc sub n) s)"
  using assms
proof (induction n arbitrary: sc sub s)
  case (Suc n)
  note st = write_step_store [OF Suc.prems, where ct = ct and skip = False and sc = sc and sub = sub and cnt = "Suc n"]
  define t where "t = ring_step i (ct, sc, sub, Suc n) s"
  have step: "write_step i (rra_off s i) ct False sc sub (Suc n) s = (None, t)"
    using st(1) by (simp add: t_def ring_step_def prod_eq_iff)
  have t: "store_only s t" using st(2) by (simp add: t_def ring_step_def)
  have "wf_rrd t \<and> i < rracnt t" unfolding t_def using rra.inv_step Suc.prems by simp
  then have "write_steps i (rra_off t i) ct False CDP_secondary_val 2 n t =
      (None, fold (ring_step i) (ring_args ct CDP_secondary_val 2 n) t)"
    by (intro Suc.IH) simp_all
  with step store_only_off [OF t] show ?case by (simp add: t_def)
qed simp

text \<open>What pending steps store: the first takes the primary value, every further one the secondary.\<close>

definition pending_rows :: "rrd \<Rightarrow> nat \<Rightarrow> nat \<Rightarrow> dbl list list" where
  "pending_rows s i n =
     (if n = 0 then [] else scratch_row s i CDP_primary_val # replicate (n - 1) (scratch_row s i CDP_secondary_val))"

lemma length_pending_rows [simp]: "length (pending_rows s i n) = n"
  by (simp add: pending_rows_def)

definition steps_post :: "nat \<Rightarrow> nat \<Rightarrow> rrd \<Rightarrow> rrd \<Rightarrow> bool" where
  "steps_post i n s t \<longleftrightarrow>
     store_only s t \<and> wf_rrd t \<and>
     rra_ptr t = (rra_ptr s)[i := (rra_ptr s ! i + n) mod row_cnt (rra_def s ! i)] \<and>
     (\<forall>j < rracnt s. j \<noteq> i \<longrightarrow> rra_rows t j = rra_rows s j)"

lemma rra_rows_cong:
  "stat_head t = stat_head s \<Longrightarrow> rra_def t = rra_def s \<Longrightarrow> rrd_value t = rrd_value s \<Longrightarrow> rra_rows t = rra_rows s"
  by (simp add: fun_eq_iff rra_rows_def rra_cell_def rra_off_def)

lemma write_step_post:
  assumes "wf_rrd s" and "i < rracnt s"
  shows "steps_post i 1 s (snd (write_step i (rra_off s i) ct skip sc sub cnt s))"
proof -
  define t where "t = snd (write_step i (rra_off s i) ct skip sc sub cnt s)"
  note st = write_step_store [OF assms, where ct = ct and skip = skip and sc = sc and sub = sub and cnt = cnt,
      folded t_def]
  have "rra_rows t j = rra_rows s j" if "j < rracnt s" "j \<noteq> i" for j
  proof (cases skip)
    case True
    then show ?thesis using rra_rows_cong [OF store_onlyD(1,3) [OF st(2)] st(4) [OF True]] by simp
  next
    case False
    then show ?thesis using write_step_rows [OF assms that(1)] that(2) by (simp add: t_def)
  qed
  with st wf_write_step [OF assms, of ct skip sc sub cnt, folded t_def] show ?thesis
    by (simp add: steps_post_def next_row_def flip: t_def)
qed

lemma steps_post_trans:
  assumes "steps_post i m s t" and "steps_post i n t u" and "i < length (rra_ptr s)"
  shows "steps_post i (m + n) s u"
  using assms store_onlyD(1,3) [of s t]
  by (auto simp: steps_post_def mod_add_left_eq add.assoc intro: store_only_trans)

lemma write_steps_post:
  assumes "wf_rrd s" and "i < rracnt s"
  shows "fst (write_steps i (rra_off s i) ct skip sc sub n s) = None \<and>
         steps_post i n s (snd (write_steps i (rra_off s i) ct skip sc sub n s)) \<and>
         (skip \<longrightarrow> rrd_value (snd (write_steps i (rra_off s i) ct skip sc sub n s)) = rrd_value s)"
  using assms
proof (induction n arbitrary: sc sub s)
  case 0
  then have "rra_ptr s ! i < row_cnt (rra_def s ! i)" using wf_rrdD(10) by blast
  with 0 show ?case by (simp add: steps_post_def)
next
  case (Suc n)
  define t where "t = snd (write_step i (rra_off s i) ct skip sc sub (Suc n) s)"
  note st = write_step_store [OF Suc.prems, where ct = ct and skip = skip and sc = sc and sub = sub
      and cnt = "Suc n", folded t_def]
  have step: "write_step i (rra_off s i) ct skip sc sub (Suc n) s = (None, t)"
    using st(1) by (simp add: t_def prod_eq_iff)
  have post: "steps_post i 1 s t" unfolding t_def by (rule write_step_post [OF Suc.prems])
  then have "wf_rrd t" "i < rracnt t" using Suc.prems st(2) by (simp_all add: steps_post_def store_onlyD)
  note IH = Suc.IH [OF this, of CDP_secondary_val 2, unfolded store_only_off [OF st(2)]]
  have "i < length (rra_ptr s)" using Suc.prems wf_rrdD(4) by simp
  from steps_post_trans [OF post _ this] have tr: "steps_post i n t u \<Longrightarrow> steps_post i (Suc n) s u" for n u
    by simp
  have "write_steps i (rra_off s i) ct skip sc sub (Suc n) s =
      write_steps i (rra_off s i) ct skip CDP_secondary_val 2 n t"
    using step by simp
  then show ?case using tr IH st(4) by (simp del: write_steps.simps) metis
qed

lemma write_steps_log:
  assumes "wf_rrd s" and "i < rracnt s"
  shows "rra_log (snd (write_steps i (rra_off s i) ct False CDP_primary_val sub n s)) i =
           drop n (rra_log s i @ pending_rows s i n)"
proof -
  have map: "map (\<lambda>a. scratch_row s i (fst (snd a))) as = map (scratch_row s i) (map (\<lambda>a. fst (snd a)) as)"
    for as :: "(int \<times> scratch_idx \<times> nat \<times> nat) list" by simp
  have "rra_log (fold (ring_step i) (ring_args ct CDP_primary_val sub n) s) i =
      drop n (rra_log s i @ map (\<lambda>a. scratch_row s i (fst (snd a))) (ring_args ct CDP_primary_val sub n))"
    using rra.chron_fold [of s i "ring_args ct CDP_primary_val sub n"] assms by (simp add: rra_chron)
  then show ?thesis
    unfolding write_steps_fold [OF assms] map ring_args_scratch by (simp add: pending_rows_def)
qed

section \<open>All archives\<close>

text \<open>The state of archive \<open>i\<close> after \<open>n\<close> pending steps.\<close>

definition rra_written :: "nat \<Rightarrow> nat \<Rightarrow> bool \<Rightarrow> rrd \<Rightarrow> rrd \<Rightarrow> bool" where
  "rra_written i n skip s t \<longleftrightarrow>
     rra_ptr t ! i = (rra_ptr s ! i + n) mod row_cnt (rra_def s ! i) \<and>
     (if skip then rra_rows t i = rra_rows s i else rra_log t i = drop n (rra_log s i @ pending_rows s i n))"

lemma write_rras_from_post:
  assumes "wf_rrd s" and "k \<le> rracnt s"
  shows "fst (write_rras_from [k ..< rracnt s] cnt ct skip (rra_off s k) s) = None \<and>
    (let t = snd (write_rras_from [k ..< rracnt s] cnt ct skip (rra_off s k) s) in
       store_only s t \<and> wf_rrd t \<and>
       (\<forall>i < k. rra_ptr t ! i = rra_ptr s ! i \<and> rra_rows t i = rra_rows s i) \<and>
       (\<forall>i. k \<le> i \<longrightarrow> i < rracnt s \<longrightarrow> rra_written i (cnt ! i) (skip ! i \<noteq> 0) s t))"
  using assms
proof (induction "rracnt s - k" arbitrary: k s)
  case 0
  then show ?case by simp
next
  case (Suc m)
  then have k: "k < rracnt s" and wf: "wf_rrd s" by simp_all
  define t where "t = snd (write_steps k (rra_off s k) ct (skip ! k \<noteq> 0) CDP_primary_val 1 (cnt ! k) s)"
  note P = write_steps_post [OF wf k, of ct "skip ! k \<noteq> 0" CDP_primary_val 1 "cnt ! k", folded t_def]
  then have st: "write_steps k (rra_off s k) ct (skip ! k \<noteq> 0) CDP_primary_val 1 (cnt ! k) s = (None, t)"
    by (simp add: t_def prod_eq_iff)
  have so: "store_only s t" and wft: "wf_rrd t" using P by (simp_all add: steps_post_def)
  note D = store_onlyD [OF so]
  have kl: "k < length (rra_ptr s)" "k < length (rra_def s)" using k wf_rrdD(3,4) [OF wf] by simp_all
  have off: "rra_off s k + row_cnt (rra_def t ! k) * dscnt t = rra_off t (Suc k)"
    using rra_off_Suc [of k s] kl D by (simp add: store_only_off [OF so])
  have run: "write_rras_from [k ..< rracnt s] cnt ct skip (rra_off s k) s =
      write_rras_from [Suc k ..< rracnt t] cnt ct skip (rra_off t (Suc k)) t"
    using k st off D(1) by (simp add: upt_conv_Cons)
  define u where "u = snd (write_rras_from [Suc k ..< rracnt t] cnt ct skip (rra_off t (Suc k)) t)"
  have IH: "fst (write_rras_from [Suc k ..< rracnt t] cnt ct skip (rra_off t (Suc k)) t) = None \<and>
      store_only t u \<and> wf_rrd u \<and>
      (\<forall>i < Suc k. rra_ptr u ! i = rra_ptr t ! i \<and> rra_rows u i = rra_rows t i) \<and>
      (\<forall>i. Suc k \<le> i \<longrightarrow> i < rracnt t \<longrightarrow> rra_written i (cnt ! i) (skip ! i \<noteq> 0) t u)"
    using Suc.hyps(1) [of t "Suc k"] Suc.hyps(2) wft k D(1) by (simp add: Let_def u_def)
  have other: "rra_ptr t ! i = rra_ptr s ! i" "rra_rows t i = rra_rows s i" if "i < rracnt s" "i \<noteq> k" for i
    using P that by (auto simp: steps_post_def)
  have "rra_written k (cnt ! k) (skip ! k \<noteq> 0) s u"
  proof -
    have "rra_ptr u ! k = rra_ptr t ! k" "rra_rows u k = rra_rows t k" using IH by simp_all
    then have "rra_log u k = rra_log t k" by (simp add: rra_log_def)
    moreover have "rra_rows t k = rra_rows s k" if "skip ! k \<noteq> 0"
      using rra_rows_cong [OF D(1,3)] P that by simp
    moreover have "rra_log t k = drop (cnt ! k) (rra_log s k @ pending_rows s k (cnt ! k))" if "skip ! k = 0"
      using write_steps_log [OF wf k] that by (simp add: t_def)
    ultimately show ?thesis
      using P \<open>rra_ptr u ! k = rra_ptr t ! k\<close> \<open>rra_rows u k = rra_rows t k\<close> kl
      by (simp add: rra_written_def steps_post_def)
  qed
  moreover have "rra_written i (cnt ! i) (skip ! i \<noteq> 0) s u" if "Suc k \<le> i" "i < rracnt s" for i
  proof -
    have "rra_written i (cnt ! i) (skip ! i \<noteq> 0) t u" using IH that D(1) by simp
    moreover have "pending_rows t i n = pending_rows s i n" for n
      by (simp add: pending_rows_def store_only_scratch [OF so])
    moreover have "rra_log t i = rra_log s i" using other [of i] that by (simp add: rra_log_def)
    ultimately show ?thesis using other [of i] that D(3) by (simp add: rra_written_def)
  qed
  ultimately have "\<forall>i. k \<le> i \<longrightarrow> i < rracnt s \<longrightarrow> rra_written i (cnt ! i) (skip ! i \<noteq> 0) s u"
    by (metis Suc_leI le_neq_implies_less)
  moreover have "\<forall>i < k. rra_ptr u ! i = rra_ptr s ! i \<and> rra_rows u i = rra_rows s i"
    using IH other k by simp
  ultimately show ?case
    using IH store_only_trans [OF so] by (simp add: run Let_def u_def)
qed

lemma write_to_rras_post:
  assumes "wf_rrd s"
  shows "fst (write_to_rras cnt 0 ct skip s) = None"
    and "store_only s (snd (write_to_rras cnt 0 ct skip s))"
    and "wf_rrd (snd (write_to_rras cnt 0 ct skip s))"
    and "i < rracnt s \<Longrightarrow> rra_written i (cnt ! i) (skip ! i \<noteq> 0) s (snd (write_to_rras cnt 0 ct skip s))"
proof -
  have "rra_off s 0 = 0" by (simp add: rra_off_def rra_total_def)
  with write_rras_from_post [OF assms, of 0 cnt ct skip]
  have *: "fst (write_to_rras cnt 0 ct skip s) = None \<and>
    store_only s (snd (write_to_rras cnt 0 ct skip s)) \<and> wf_rrd (snd (write_to_rras cnt 0 ct skip s)) \<and>
    (\<forall>i < rracnt s. rra_written i (cnt ! i) (skip ! i \<noteq> 0) s (snd (write_to_rras cnt 0 ct skip s)))"
    by (simp add: write_to_rras_def Let_def)
  then show "fst (write_to_rras cnt 0 ct skip s) = None"
    "store_only s (snd (write_to_rras cnt 0 ct skip s))" "wf_rrd (snd (write_to_rras cnt 0 ct skip s))"
    "i < rracnt s \<Longrightarrow> rra_written i (cnt ! i) (skip ! i \<noteq> 0) s (snd (write_to_rras cnt 0 ct skip s))"
    by simp_all
qed

section \<open>Properties\<close>

text \<open>
  C2: writing the pending steps of an update makes every archive the queue its readers expect. On a
  well-formed database the writer succeeds, and an archive that is not skipped has as its
  chronological content the old content followed by the pending rows (the primary value first, then
  the secondary value for every further step), cut to the fixed number of rows from the old end.
\<close>

theorem write_to_rras_chronological:
  assumes "wf_rrd s" and "i < rracnt s" and "skip ! i = 0"
  shows "case write_to_rras cnt 0 ct skip s of
           (e, t) \<Rightarrow> e = None \<and> rra_log t i = drop (cnt ! i) (rra_log s i @ pending_rows s i (cnt ! i))"
  using write_to_rras_post(1,4) [OF assms(1), where cnt = cnt and ct = ct and skip = skip] assms(2,3)
  by (cases "write_to_rras cnt 0 ct skip s") (simp add: rra_written_def)

text \<open>The first archive of the sample takes two rows, of which the second is the secondary value.\<close>

theorem write_to_rras_chronological_witness:
  "rra_log (snd (write_to_rras [2, 0] 0 1200000300 [0, 0] demo_rrd)) 0 =
     [[Fin 11, Fin 21], [Fin 1, Fin 3], [Fin 2, Fin 4]]"
proof -
  have "rra_log demo_rrd 0 = [[Fin 12, Fin 22], [Fin 10, Fin 20], [Fin 11, Fin 21]]"
    by code_simp
  moreover have "pending_rows demo_rrd 0 2 = [[Fin 1, Fin 3], [Fin 2, Fin 4]]" by code_simp
  ultimately show ?thesis
    using write_to_rras_chronological
      [where s = demo_rrd and i = 0 and skip = "[0, 0]" and cnt = "[2, 0]" and ct = 1200000300]
    by (simp add: split_beta)
qed

text \<open>
  C33: the writer touches nothing else. It never fails on a well-formed database, keeps it
  well-formed, leaves the header structures and the consolidation areas as they are, and archives
  that are skipped or have no pending step keep every stored row; a skipped archive only has its
  current row advanced, modulo the number of rows.
\<close>

theorem write_to_rras_frame:
  assumes "wf_rrd s"
  shows "case write_to_rras cnt 0 ct skip s of
           (e, t) \<Rightarrow> e = None \<and> wf_rrd t \<and> store_only s t \<and>
             (\<forall>i. i < rracnt s \<longrightarrow>
                rra_ptr t ! i = (rra_ptr s ! i + cnt ! i) mod row_cnt (rra_def s ! i) \<and>
                (skip ! i \<noteq> 0 \<longrightarrow> rra_rows t i = rra_rows s i) \<and>
                (cnt ! i = 0 \<longrightarrow> rra_log t i = rra_log s i))"
proof -
  obtain e t where w: "write_to_rras cnt 0 ct skip s = (e, t)" by (cases "write_to_rras cnt 0 ct skip s")
  note P = write_to_rras_post [OF assms, where cnt = cnt and ct = ct and skip = skip, unfolded w fst_conv snd_conv]
  have "rra_log t i = rra_log s i" if "i < rracnt s" "cnt ! i = 0" for i
    using P(4) [OF that(1)] that wf_rrdD(10) [OF assms that(1)]
    by (auto simp: rra_written_def rra_log_def pending_rows_def split: if_splits)
  with P show ?thesis by (auto simp: w rra_written_def)
qed

theorem write_to_rras_frame_witness:
  "rra_rows (snd (write_to_rras [0, 5] 0 1200000300 [0, 1] demo_rrd)) 1 = [[Fin 13, Fin 23], [Fin 14, Fin 24]] \<and>
   rra_ptr (snd (write_to_rras [0, 5] 0 1200000300 [0, 1] demo_rrd)) ! 1 = 0"
proof -
  have "rra_rows demo_rrd 1 = [[Fin 13, Fin 23], [Fin 14, Fin 24]]" by code_simp
  moreover have "rra_ptr demo_rrd ! 1 = 1" "row_cnt (rra_def demo_rrd ! 1) = 2"
    by (simp_all add: demo_rrd_def demo_rra_def)
  ultimately show ?thesis
    using write_to_rras_frame [where s = demo_rrd and cnt = "[0, 5]" and ct = 1200000300 and skip = "[0, 1]"]
    by (auto simp: split_beta)
qed

text \<open>
  The time labels of \<open>rrd_update_v\<close>. The loop lowers the count of pending steps and raises the
  number subtracted from it, so from the second row on the label is one row too late: of \<open>n\<close> pending
  rows, the first is labelled with its own time, and a later one, \<open>k\<close> rows before the end (\<open>1\<close> for
  the last), with the time of the row after it; the last row's label lies beyond the update.
\<close>

theorem updatev_row_labels:
  assumes "0 \<le> ct" and "ct < 2 ^ 62" and "0 < step" and "step < 2 ^ 30" and "k < 2 ^ 30"
    and "step = pdp_cnt (rra_def s ! i) * pdpstep s"
  shows "rra_row_time s i ct k 1 = (ct - ct mod int step) - (int k - 1) * int step \<and>
         rra_row_time s i ct k 2 = (ct - ct mod int step) - (int k - 2) * int step"
proof -
  have st: "u64 (int step) = step" using assms(4) by simp
  have m: "0 \<le> ct mod int step" "ct mod int step \<le> ct"
    using assms(1,3) by (simp_all add: zmod_le_nonneg_dividend)
  have c: "int (u64 ct - u64 ct mod step) = ct - ct mod int step"
  proof -
    have "u64 ct = nat ct" using assms(1,2) by simp
    moreover have "int (nat ct - nat ct mod step) = ct - ct mod int step"
      using assms(1) by (simp add: of_nat_diff zmod_int)
    ultimately show ?thesis by simp
  qed
  have k: "\<bar>(int k - j) * int step\<bar> < 2 ^ 61" if "j = 1 \<or> j = 2" for j :: int
  proof -
    have "\<bar>int k - j\<bar> \<le> 2 ^ 30" using assms(5) that by auto
    then have "\<bar>int k - j\<bar> * int step \<le> 2 ^ 30 * 2 ^ 30"
      using assms(4) by (intro mult_mono) simp_all
    then show ?thesis by (simp add: abs_mult)
  qed
  have "s64 ((ct - ct mod int step) - (int k - j) * int step) = (ct - ct mod int step) - (int k - j) * int step"
    if "j = 1 \<or> j = 2" for j :: int
    using k [OF that] m assms(2) by (intro s64_id) (auto simp: abs_less_iff)
  then show ?thesis
    unfolding rra_row_time_def Let_def assms(6) [symmetric] st c by simp
qed

theorem updatev_row_labels_witness:
  "rra_row_time demo_rrd 1 1200000700 2 1 = 1200000000 \<and> rra_row_time demo_rrd 1 1200000700 1 2 = 1200001200"
proof -
  have step: "600 = pdp_cnt (rra_def demo_rrd ! 1) * pdpstep demo_rrd"
    by (simp add: demo_rrd_def demo_rra_def)
  have lab: "rra_row_time demo_rrd 1 1200000700 k 1 = (1200000700 - 1200000700 mod int 600) - (int k - 1) * int 600 \<and>
      rra_row_time demo_rrd 1 1200000700 k 2 = (1200000700 - 1200000700 mod int 600) - (int k - 2) * int 600"
    if "k < 2 ^ 30" for k
    by (rule updatev_row_labels [OF _ _ _ _ that step]) simp_all
  have "(2::nat) < 2 ^ 30" "(1::nat) < 2 ^ 30" by simp_all
  from lab [OF this(1)] lab [OF this(2)] show ?thesis by simp
qed

end
