(* ===== verification/Fifo_Queue.thy ===== *)
theory Fifo_Queue
  imports IEEE_Double
begin

text \<open>
  The fixed-capacity queue at the end of \<open>rrd_hw.c\<close> (\<open>queue_alloc\<close>, \<open>queue_isempty\<close>, \<open>queue_push\<close>,
  \<open>queue_pop\<close>) and \<open>MyMod\<close>. The queue does no overflow checking; its contract is the locale \<open>fifo\<close>
  (first in, first out as long as the content fits the capacity), interpreted on the array
  implementation. The client lemma of the locale is the sliding window that \<open>apply_smoother\<close> runs: a
  window that is filled and then pushed and popped in turn gives back the pushed values in order.
\<close>

section \<open>The array queue\<close>

record FIFOqueue =
  queue :: "dbl list"
  capacity :: nat
  head :: nat
  tail :: nat

text \<open>\<open>malloc\<close> leaves the array uninitialised; the model fills it with zeros, which are never read
  before they are written as long as pops do not outnumber pushes.\<close>

definition queue_alloc :: "nat \<Rightarrow> FIFOqueue" where
  "queue_alloc cap = \<lparr>queue = replicate cap (Fin 0), capacity = cap, head = cap, tail = 0\<rparr>"

definition queue_isempty :: "FIFOqueue \<Rightarrow> bool" where
  "queue_isempty q \<longleftrightarrow> head q mod capacity q = tail q"

definition queue_push :: "dbl \<Rightarrow> FIFOqueue \<Rightarrow> FIFOqueue" where
  "queue_push value q =
     (let q = q\<lparr>queue := (queue q)[tail q := value], tail := tail q + 1\<rparr>
      in q\<lparr>tail := tail q mod capacity q\<rparr>)"

definition queue_pop :: "FIFOqueue \<Rightarrow> dbl \<times> FIFOqueue" where
  "queue_pop q =
     (let q = q\<lparr>head := head q mod capacity q\<rparr>
      in (queue q ! head q, q\<lparr>head := head q + 1\<rparr>))"

text \<open>\<open>abs\<close> takes an \<open>int\<close>: the argument is narrowed to 32 bits first.\<close>

definition MyMod :: "int \<Rightarrow> nat \<Rightarrow> nat" where
  "MyMod val m =
     (let new_val = (if val < 0 then u64 \<bar>s32 val\<bar> mod m else u64 val mod m)
      in if val < 0 then u64 (int m - int new_val) else new_val)"

section \<open>The contract of a bounded queue\<close>

locale fifo =
  fixes holds :: "'q \<Rightarrow> 'v list \<Rightarrow> bool" and cap :: "'q \<Rightarrow> nat"
    and push :: "'v \<Rightarrow> 'q \<Rightarrow> 'q" and pop :: "'q \<Rightarrow> 'v \<times> 'q"
  assumes holds_push: "holds q xs \<Longrightarrow> length xs < cap q \<Longrightarrow> holds (push v q) (xs @ [v])"
    and holds_pop: "holds q (x # xs) \<Longrightarrow> fst (pop q) = x \<and> holds (snd (pop q)) xs"
    and cap_push: "cap (push v q) = cap q"
    and cap_pop: "cap (snd (pop q)) = cap q"
begin

lemma holds_pushes:
  assumes "holds q xs" and "length xs + length vs \<le> cap q"
  shows "holds (fold push vs q) (xs @ vs)" and "cap (fold push vs q) = cap q"
proof -
  have "holds (fold push vs q) (xs @ vs) \<and> cap (fold push vs q) = cap q"
    using assms
  proof (induction vs arbitrary: q xs)
    case (Cons v vs)
    have "holds (push v q) (xs @ [v])" using Cons.prems by (intro holds_push) simp_all
    then show ?case using Cons.IH [of "push v q" "xs @ [v]"] Cons.prems cap_push by simp
  qed simp
  then show "holds (fold push vs q) (xs @ vs)" and "cap (fold push vs q) = cap q" by simp_all
qed

text \<open>One turn of the window: push the new value, pop the oldest.\<close>

fun slide :: "'v list \<Rightarrow> 'q \<Rightarrow> 'v list \<times> 'q" where
  "slide [] q = ([], q)"
| "slide (v # vs) q = (let (x, q) = pop (push v q); (xs, q) = slide vs q in (x # xs, q))"

lemma slide_fifo:
  assumes "holds q ws" and "length ws < cap q"
  shows "fst (slide vs q) = take (length vs) (ws @ vs) \<and> holds (snd (slide vs q)) (drop (length vs) (ws @ vs))"
  using assms
proof (induction vs arbitrary: q ws)
  case (Cons v vs)
  define q1 where "q1 = push v q"
  have "holds q1 (ws @ [v])" unfolding q1_def using Cons.prems by (intro holds_push)
  moreover obtain y ys where ys: "ws @ [v] = y # ys" by (cases "ws @ [v]") auto
  ultimately have p: "fst (pop q1) = y" "holds (snd (pop q1)) ys" using holds_pop by metis+
  have "length ys = length ws" using ys by (metis length_append_singleton list.size(4) Suc_inject add.right_neutral add_Suc_right)
  moreover have "cap (snd (pop q1)) = cap q" by (simp add: cap_pop q1_def cap_push)
  ultimately have IH: "fst (slide vs (snd (pop q1))) = take (length vs) (ys @ vs) \<and>
      holds (snd (slide vs (snd (pop q1)))) (drop (length vs) (ys @ vs))"
    using Cons.IH [OF p(2)] Cons.prems(2) by simp
  have eq: "ws @ v # vs = y # (ys @ vs)" using ys by (metis append.assoc append_Cons append_Nil)
  have "slide (v # vs) q = (y # fst (slide vs (snd (pop q1))), snd (slide vs (snd (pop q1))))"
    using p(1) by (simp add: split_beta Let_def flip: q1_def)
  then show ?case unfolding eq using IH by simp
qed simp

end

section \<open>The array implements the contract\<close>

text \<open>\<open>fifo_holds q xs\<close>: the queue stores \<open>xs\<close>, oldest first, from the slot of \<open>head\<close> on.\<close>

definition fifo_holds :: "FIFOqueue \<Rightarrow> dbl list \<Rightarrow> bool" where
  "fifo_holds q xs \<longleftrightarrow>
     0 < capacity q \<and> length (queue q) = capacity q \<and> length xs \<le> capacity q \<and>
     tail q = (head q + length xs) mod capacity q \<and>
     (\<forall>i < length xs. queue q ! ((head q + i) mod capacity q) = xs ! i)"

lemma fifo_holds_alloc: "0 < cap \<Longrightarrow> fifo_holds (queue_alloc cap) []"
  by (simp add: fifo_holds_def queue_alloc_def)

lemma offset_mod_neq: "i < n \<Longrightarrow> n < c \<Longrightarrow> (h + i) mod c \<noteq> (h + n) mod (c::nat)"
proof
  assume "i < n" "n < c" and "(h + i) mod c = (h + n) mod c"
  then have "c dvd (h + n) - (h + i)" by (metis add_le_cancel_left less_imp_le mod_eq_dvd_iff_nat)
  then have "c dvd n - i" by simp
  with \<open>i < n\<close> \<open>n < c\<close> show False by (auto dest: dvd_imp_le)
qed

lemma fifo_holds_push:
  assumes "fifo_holds q xs" and "length xs < capacity q"
  shows "fifo_holds (queue_push v q) (xs @ [v])"
proof -
  have t: "tail q = (head q + length xs) mod capacity q" "tail q < capacity q" "length (queue q) = capacity q"
    using assms(1) by (auto simp: fifo_holds_def)
  have "(queue q)[tail q := v] ! ((head q + i) mod capacity q) = (xs @ [v]) ! i" if "i < Suc (length xs)" for i
  proof (cases "i = length xs")
    case True
    then show ?thesis using t by simp
  next
    case False
    with that have i: "i < length xs" by simp
    then have "(head q + i) mod capacity q \<noteq> tail q" unfolding t(1) using assms(2) by (rule offset_mod_neq)
    then show ?thesis using i assms(1) by (simp add: fifo_holds_def nth_append)
  qed
  then show ?thesis
    using assms t by (simp add: fifo_holds_def queue_push_def mod_Suc_eq)
qed

lemma fifo_holds_pop:
  assumes "fifo_holds q (x # xs)"
  shows "fst (queue_pop q) = x \<and> fifo_holds (snd (queue_pop q)) xs"
proof -
  have h: "queue q ! ((head q + i) mod capacity q) = (x # xs) ! i" if "i < Suc (length xs)" for i
    using assms that by (simp add: fifo_holds_def)
  have "queue q ! (head q mod capacity q) = x" using h [of 0] by simp
  moreover have "queue q ! ((head q mod capacity q + 1 + i) mod capacity q) = xs ! i" if "i < length xs" for i
  proof -
    have "(head q mod capacity q + 1 + i) mod capacity q = (head q + Suc i) mod capacity q"
      by (metis add.assoc mod_add_left_eq plus_1_eq_Suc)
    then show ?thesis using h [of "Suc i"] that by simp
  qed
  moreover have "(head q mod capacity q + 1 + length xs) mod capacity q = (head q + Suc (length xs)) mod capacity q"
    by (metis add.assoc mod_add_left_eq plus_1_eq_Suc)
  ultimately show ?thesis using assms by (auto simp: fifo_holds_def queue_pop_def Let_def)
qed

interpretation hwq: fifo fifo_holds capacity queue_push queue_pop
proof unfold_locales
  show "fifo_holds (queue_push v q) (xs @ [v])" if "fifo_holds q xs" "length xs < capacity q" for q xs v
    using that by (rule fifo_holds_push)
  show "fst (queue_pop q) = x \<and> fifo_holds (snd (queue_pop q)) xs" if "fifo_holds q (x # xs)" for q x xs
    using that by (rule fifo_holds_pop)
qed (simp_all add: queue_push_def queue_pop_def Let_def)

section \<open>MyMod\<close>

lemma MyMod_nonneg: "0 \<le> val \<Longrightarrow> val < 2 ^ 63 \<Longrightarrow> MyMod val m = nat val mod m"
  by (simp add: MyMod_def)

lemma MyMod_neg:
  assumes "val < 0" and "- (2 ^ 31) \<le> val" and "0 < m" and "m < 2 ^ 63"
  shows "MyMod val m = (if int m dvd val then m else nat (val mod int m))"
proof -
  have s: "s32 val = val" using assms(1,2) by simp
  define n where "n = nat \<bar>val\<bar>"
  have n: "val = - int n" "n \<le> 2 ^ 31" using assms(1,2) by (simp_all add: n_def)
  have "u64 \<bar>s32 val\<bar> = n" unfolding s n using n(2) by simp
  then have M: "MyMod val m = u64 (int m - int (n mod m))" using assms(1) by (simp add: MyMod_def)
  have le: "n mod m < m" using assms(3) by simp
  have "MyMod val m = m - n mod m"
    unfolding M using le assms(4) by (subst u64_id) (simp_all add: nat_diff_distrib)
  moreover have "int m dvd val \<longleftrightarrow> n mod m = 0"
    unfolding n by (metis dvd_imp_mod_0 dvd_minus_iff mod_0_imp_dvd of_nat_dvd_iff)
  moreover have "nat (val mod int m) = m - n mod m" if "n mod m \<noteq> 0"
  proof -
    have "val mod int m = int m - int n mod int m"
      unfolding n using that assms(3) by (simp add: zmod_zminus1_eq_if flip: of_nat_mod)
    then show ?thesis using le by (simp add: nat_diff_distrib flip: of_nat_mod)
  qed
  ultimately show ?thesis by simp
qed

section \<open>Properties\<close>

text \<open>
  The moving window of the smoother. A queue of capacity \<open>n + 1\<close> is filled with the first \<open>n\<close>
  values; then every further value is pushed and one value popped. The values popped are the values
  pushed, in order, \<open>n\<close> behind: what leaves the window is the original value, although the smoother has
  overwritten it in its array by then.
\<close>

theorem queue_window:
  assumes "length ws \<le> n"
  shows "fst (hwq.slide vs (fold queue_push ws (queue_alloc (n + 1)))) = take (length vs) (ws @ vs)"
proof -
  have a: "fifo_holds (queue_alloc (n + 1)) []" by (rule fifo_holds_alloc) simp
  have c: "capacity (queue_alloc (n + 1)) = n + 1" by (simp add: queue_alloc_def)
  note f = hwq.holds_pushes [OF a, of ws, unfolded c append_Nil]
  then show ?thesis using hwq.slide_fifo [of "fold queue_push ws (queue_alloc (n + 1))" ws vs] assms by simp
qed

theorem queue_window_witness:
  "fst (hwq.slide [Fin 3, Fin 4, Fin 5] (fold queue_push [Fin 1, Fin 2] (queue_alloc (2 + 1)))) = [Fin 1, Fin 2, Fin 3]"
  using queue_window [of "[Fin 1, Fin 2]" 2 "[Fin 3, Fin 4, Fin 5]"] by simp

text \<open>
  \<open>MyMod\<close> is the mathematical remainder, in the range of row indices, for every non-negative
  argument and for every negative one in the range of \<open>int\<close> that is not a multiple of the modulus; for
  a negative multiple it returns the modulus itself, one past the last row.
\<close>

theorem MyMod_correct:
  assumes "- (2 ^ 31) \<le> val" and "val < 2 ^ 63" and "0 < m" and "m < 2 ^ 63"
  shows "MyMod val m = (if val < 0 \<and> int m dvd val then m else nat (val mod int m)) \<and>
         (MyMod val m < m \<longleftrightarrow> \<not> (val < 0 \<and> int m dvd val))"
proof -
  have eq: "MyMod val m = (if val < 0 \<and> int m dvd val then m else nat (val mod int m))"
  proof (cases "val < 0")
    case True
    then show ?thesis using MyMod_neg [OF True assms(1,3,4)] by simp
  next
    case False
    then show ?thesis using MyMod_nonneg [OF _ assms(2), of m] by (simp add: nat_mod_distrib)
  qed
  moreover have "nat (val mod int m) < m" using assms(3) by (simp add: nat_less_iff)
  ultimately show ?thesis by simp
qed

theorem MyMod_correct_witness: "MyMod (- 3) 10 = 7 \<and> MyMod (- 10) 10 = 10"
  using MyMod_correct [of "- 3" 10] MyMod_correct [of "- 10" 10] by simp

end
