(* ===== verification/C_Strings.thy ===== *)
theory C_Strings
  imports RRD_Format
begin

text \<open>
  The parts of the C library that the program applies to strings: the classification of characters,
  \<open>strtol\<close>, \<open>strtoul\<close>, \<open>atoi\<close>, \<open>atol\<close>, \<open>strtod\<close> and \<open>atof\<close> in the \<open>C\<close> locale (the program sets it
  around the conversions to double), \<open>strncpy\<close> into a fixed field, and \<open>strchr\<close>-like splitting.
\<close>

section \<open>Characters\<close>

definition code :: "char \<Rightarrow> nat" where
  "code c = of_char c"

definition isspace :: "char \<Rightarrow> bool" where
  "isspace c \<longleftrightarrow> code c = 32 \<or> 9 \<le> code c \<and> code c \<le> 13"

definition isupper :: "char \<Rightarrow> bool" where
  "isupper c \<longleftrightarrow> 65 \<le> code c \<and> code c \<le> 90"

definition islower :: "char \<Rightarrow> bool" where
  "islower c \<longleftrightarrow> 97 \<le> code c \<and> code c \<le> 122"

definition isalpha :: "char \<Rightarrow> bool" where
  "isalpha c \<longleftrightarrow> isupper c \<or> islower c"

definition isalnum :: "char \<Rightarrow> bool" where
  "isalnum c \<longleftrightarrow> isalpha c \<or> is_digit c"

definition lower :: "char \<Rightarrow> char" where
  "lower c = (if isupper c then char_of (code c + 32) else c)"

definition hex_val :: "char \<Rightarrow> int option" where
  "hex_val c =
     (if is_digit c then Some (digit_val c)
      else let l = code (lower c) in if 97 \<le> l \<and> l \<le> 102 then Some (int l - 87) else None)"

definition is_hex :: "char \<Rightarrow> bool" where
  "is_hex c \<longleftrightarrow> hex_val c \<noteq> None"

definition hex_num :: "string \<Rightarrow> int" where
  "hex_num str = foldl (\<lambda>acc c. acc * 16 + the (hex_val c)) 0 str"

text \<open>Case-insensitive comparison with a lower-case prefix; \<open>Some\<close> is the rest behind it.\<close>

fun strip_prefix_ci :: "string \<Rightarrow> string \<Rightarrow> string option" where
  "strip_prefix_ci [] str = Some str"
| "strip_prefix_ci (p # ps) [] = None"
| "strip_prefix_ci (p # ps) (c # cs) = (if lower c = p then strip_prefix_ci ps cs else None)"

section \<open>Integers\<close>

text \<open>An optional sign behind leading white space.\<close>

definition strip_sign :: "string \<Rightarrow> bool \<times> string" where
  "strip_sign str =
     (case str of
        c # cs \<Rightarrow> if c = CHR ''-'' then (True, cs) else if c = CHR ''+'' then (False, cs) else (False, str)
      | [] \<Rightarrow> (False, []))"

text \<open>\<open>strtol\<close> in base 10: the value, saturated to \<open>long\<close>, and the rest of the string.\<close>

definition strtol :: "string \<Rightarrow> int \<times> string" where
  "strtol str =
     (let (neg, r) = strip_sign (dropWhile isspace str);
          ds = takeWhile is_digit r;
          v = (if neg then - dec_val ds else dec_val ds)
      in if ds = [] then (0, str)
         else (max (- (2 ^ 63)) (min (2 ^ 63 - 1) v), dropWhile is_digit r))"

text \<open>\<open>strtoul\<close> in base 10 negates modulo \<open>2 ^ 64\<close> and saturates at \<open>ULONG_MAX\<close>.\<close>

definition strtoul :: "string \<Rightarrow> nat \<times> string" where
  "strtoul str =
     (let (neg, r) = strip_sign (dropWhile isspace str);
          ds = takeWhile is_digit r;
          v = dec_val ds
      in if ds = [] then (0, str)
         else (if v \<ge> 2 ^ 64 then 2 ^ 64 - 1 else u64 (if neg then - v else v), dropWhile is_digit r))"

definition atol :: "string \<Rightarrow> int" where
  "atol str = fst (strtol str)"

definition atoi :: "string \<Rightarrow> int" where
  "atoi str = s32 (atol str)"

text \<open>\<open>strtol\<close> with base 0: hexadecimal behind \<open>0x\<close>, octal behind \<open>0\<close>, decimal otherwise.\<close>

definition is_oct :: "char \<Rightarrow> bool" where
  "is_oct c \<longleftrightarrow> 48 \<le> code c \<and> code c \<le> 55"

definition oct_num :: "string \<Rightarrow> int" where
  "oct_num str = foldl (\<lambda>acc c. acc * 8 + digit_val c) 0 str"

definition strtol_base0 :: "string \<Rightarrow> int \<times> string" where
  "strtol_base0 str =
     (let (neg, r) = strip_sign (dropWhile isspace str);
          sat = (\<lambda>v. max (- (2 ^ 63)) (min (2 ^ 63 - 1) (if neg then - v else v)))
      in case strip_prefix_ci ''0x'' r of
           Some h \<Rightarrow> if takeWhile is_hex h = [] then (0, tl r) else (sat (hex_num (takeWhile is_hex h)), dropWhile is_hex h)
         | None \<Rightarrow>
             if r \<noteq> [] \<and> hd r = CHR ''0'' then (sat (oct_num (takeWhile is_oct r)), dropWhile is_oct r)
             else if takeWhile is_digit r = [] then (0, str)
             else (sat (dec_val (takeWhile is_digit r)), dropWhile is_digit r))"

section \<open>Floating point\<close>

text \<open>
  A number with digits \<open>ip\<close> before and \<open>fp\<close> behind the point, scaled by the exponent, is rounded
  once. The range error is raised on overflow, and on an inexact result that is tiny after rounding
  to 53 bits without a bound on the exponent.
\<close>

definition tiny_inexact :: "rat \<Rightarrow> bool" where
  "tiny_inexact x \<longleftrightarrow>
     x \<noteq> 0 \<and> rnd64 x \<noteq> x \<and>
     (let u = pow2 (flog2 \<bar>x\<bar> - 52) in \<bar>of_int (rne (x / u)) * u\<bar> < pow2 (- 1022))"

definition signed_result :: "bool \<Rightarrow> rat \<Rightarrow> dbl \<times> bool" where
  "signed_result neg x =
     (let d = dround (if neg then - x else x)
      in (if neg \<and> x = 0 then NZero else d, isinf d \<or> tiny_inexact x))"

text \<open>The optional exponent \<open>e[+-]digits\<close> (or \<open>p\<close>): it belongs to the number only with a digit.\<close>

definition parse_exp :: "char \<Rightarrow> string \<Rightarrow> int \<times> string" where
  "parse_exp m str =
     (case str of
        [] \<Rightarrow> (0, [])
      | c # cs \<Rightarrow>
          if lower c = m
          then let (neg, r) = strip_sign cs; ds = takeWhile is_digit r
               in if ds = [] then (0, str)
                  else ((if neg then - dec_val ds else dec_val ds), dropWhile is_digit r)
          else (0, str))"

definition parse_frac :: "(char \<Rightarrow> bool) \<Rightarrow> string \<Rightarrow> string \<times> string" where
  "parse_frac dig str =
     (case str of
        [] \<Rightarrow> ([], [])
      | c # cs \<Rightarrow> if c = CHR ''.'' then (takeWhile dig cs, dropWhile dig cs) else ([], str))"

definition parse_dec :: "bool \<Rightarrow> string \<Rightarrow> ((dbl \<times> bool) \<times> string) option" where
  "parse_dec neg r =
     (let ip = takeWhile is_digit r;
          (fp, r') = parse_frac is_digit (dropWhile is_digit r);
          (e, rest) = parse_exp (CHR ''e'') r'
      in if ip = [] \<and> fp = [] then None
         else Some (signed_result neg (of_int (dec_val (ip @ fp)) * 10 powi (e - int (length fp))), rest))"

definition parse_hex :: "bool \<Rightarrow> string \<Rightarrow> ((dbl \<times> bool) \<times> string) option" where
  "parse_hex neg r =
     (let ip = takeWhile is_hex r;
          (fp, r') = parse_frac is_hex (dropWhile is_hex r);
          (e, rest) = parse_exp (CHR ''p'') r'
      in if ip = [] \<and> fp = [] then None
         else Some (signed_result neg (of_int (hex_num (ip @ fp)) * 2 powi (e - 4 * int (length fp))), rest))"

text \<open>\<open>nan\<close> may carry a parenthesised sequence of letters, digits and underscores.\<close>

definition nan_tail :: "string \<Rightarrow> string" where
  "nan_tail r =
     (case r of
        c # cs \<Rightarrow>
          if c = CHR ''(''
          then (case dropWhile (\<lambda>c. isalnum c \<or> c = CHR ''_'') cs of
                  d # ds \<Rightarrow> if d = CHR '')'' then ds else r
                | [] \<Rightarrow> r)
          else r
      | [] \<Rightarrow> r)"

text \<open>The value, whether \<open>errno\<close> is set to \<open>ERANGE\<close>, and the unconverted rest.\<close>

definition strtod :: "string \<Rightarrow> (dbl \<times> bool) \<times> string" where
  "strtod str =
     (let (neg, r) = strip_sign (dropWhile isspace str) in
      case strip_prefix_ci ''infinity'' r of
        Some rest \<Rightarrow> ((if neg then NInf else PInf, False), rest)
      | None \<Rightarrow>
        (case strip_prefix_ci ''inf'' r of
           Some rest \<Rightarrow> ((if neg then NInf else PInf, False), rest)
         | None \<Rightarrow>
           (case strip_prefix_ci ''nan'' r of
              Some rest \<Rightarrow> ((NaN, False), nan_tail rest)
            | None \<Rightarrow>
              (case (case strip_prefix_ci ''0x'' r of Some h \<Rightarrow> parse_hex neg h | None \<Rightarrow> None) of
                 Some res \<Rightarrow> res
               | None \<Rightarrow>
                 (case parse_dec neg r of
                    Some res \<Rightarrow> res
                  | None \<Rightarrow> ((Fin 0, False), str))))))"

definition atof :: "string \<Rightarrow> dbl" where
  "atof str = fst (fst (strtod str))"

section \<open>Fixed fields\<close>

text \<open>\<open>strncpy(dst, src, n - 1); dst[n - 1] = 0\<close>, read back as a string.\<close>

definition strncpy_field :: "nat \<Rightarrow> string \<Rightarrow> string" where
  "strncpy_field n str = take (n - 1) str"

section \<open>Printing numbers\<close>

text \<open>The conversions \<open>%lu\<close> and \<open>%d\<close>.\<close>

fun show_nat :: "nat \<Rightarrow> string" where
  "show_nat n = (if n < 10 then [char_of (48 + n)] else show_nat (n div 10) @ [char_of (48 + n mod 10)])"

declare show_nat.simps [simp del]

definition show_int :: "int \<Rightarrow> string" where
  "show_int i = (if i < 0 then CHR ''-'' # show_nat (nat (- i)) else show_nat (nat i))"

section \<open>Facts\<close>

lemma is_digit_code: "is_digit c \<longleftrightarrow> 48 \<le> code c \<and> code c \<le> 57"
  by (simp add: is_digit_def code_def)

lemma is_digit_not_space: "is_digit c \<Longrightarrow> \<not> isspace c"
  by (simp add: is_digit_code isspace_def)

lemma is_digit_lower: "is_digit c \<Longrightarrow> lower c = c"
  by (simp add: is_digit_code lower_def isupper_def)

lemma is_digit_chars:
  "is_digit c \<Longrightarrow> c \<noteq> CHR ''-'' \<and> c \<noteq> CHR ''+'' \<and> c \<noteq> CHR ''.'' \<and> c \<noteq> CHR ''i'' \<and> c \<noteq> CHR ''n''
     \<and> c \<noteq> CHR ''x'' \<and> c \<noteq> CHR ''U''"
  by (auto simp: is_digit_def)

lemma digit_val_range: "is_digit c \<Longrightarrow> 0 \<le> digit_val c \<and> digit_val c \<le> 9"
proof -
  assume "is_digit c"
  then have "48 \<le> (of_char c :: nat)" "(of_char c :: nat) \<le> 57" by (simp_all add: is_digit_def)
  moreover have "(of_char c :: int) = int (of_char c)" by (simp add: of_nat_of_char)
  ultimately show ?thesis unfolding digit_val_def by linarith
qed

lemma dec_val_nonneg: "list_all is_digit ds \<Longrightarrow> 0 \<le> dec_val ds"
proof (induction ds rule: rev_induct)
  case (snoc d ds)
  then show ?case using digit_val_range [of d] by (simp add: dec_val_def)
qed (simp add: dec_val_def)

lemma takeWhile_all: "list_all P xs \<Longrightarrow> takeWhile P xs = xs"
  by (induction xs) simp_all

lemma dropWhile_all: "list_all P xs \<Longrightarrow> dropWhile P xs = []"
  by (induction xs) simp_all

text \<open>A string of decimal digits converts to its value, rounded once, with nothing left over.\<close>

lemma strtod_digits:
  assumes "list_all is_digit ds" and "ds \<noteq> []"
  shows "strtod ds = (signed_result False (of_int (dec_val ds)), [])"
proof -
  obtain d ds' where ds: "ds = d # ds'" and d: "is_digit d" and ds': "list_all is_digit ds'"
    using assms by (cases ds) auto
  note c = is_digit_chars [OF d] is_digit_lower [OF d] is_digit_not_space [OF d]
  have x: "strip_prefix_ci ''0x'' ds = None"
  proof (cases ds')
    case (Cons e es)
    then have "is_digit e" using ds' by simp
    then show ?thesis using is_digit_chars is_digit_lower by (simp add: ds Cons)
  qed (simp add: ds)
  have "parse_dec False ds = Some (signed_result False (of_int (dec_val ds)), [])"
    using assms by (simp add: parse_dec_def takeWhile_all dropWhile_all parse_frac_def parse_exp_def)
  with c x show ?thesis by (simp add: strtod_def strip_sign_def ds)
qed

lemma strtod_spaces:
  assumes sp: "list_all isspace sp" and r: "strtod ds = (r, [])" and ne: "ds \<noteq> []"
  shows "strtod (sp @ ds) = (r, [])"
proof -
  have d: "dropWhile isspace (sp @ ds) = dropWhile isspace ds"
    using sp by (induction sp) simp_all
  show ?thesis
  proof (cases "parse_dec (fst (strip_sign (dropWhile isspace ds))) (snd (strip_sign (dropWhile isspace ds)))")
    case None
    with r d ne show ?thesis unfolding strtod_def
      by (auto simp: Let_def split_beta split: option.splits)
  next
    case (Some a)
    with r d show ?thesis unfolding strtod_def
      by (auto simp: Let_def split_beta split: option.splits)
  qed
qed

section \<open>Printed numbers are read back\<close>

lemma digit_char: "k < 10 \<Longrightarrow> is_digit (char_of (48 + k)) \<and> digit_val (char_of (48 + k)) = int k" for k :: nat
proof -
  assume k: "k < 10"
  have "(of_char (char_of (48 + k)) :: int) = int (of_char (char_of (48 + k) :: char))" by (rule of_nat_of_char [symmetric])
  also have "\<dots> = int (48 + k)" using k by (simp only: of_char_of) simp
  finally show ?thesis using k by (simp add: is_digit_def digit_val_def)
qed

lemma show_nat_digits: "list_all is_digit (show_nat n)"
  by (induction n rule: show_nat.induct) (subst show_nat.simps, simp add: digit_char)

lemma show_nat_not_Nil [simp]: "show_nat n \<noteq> []"
  by (subst show_nat.simps) simp

lemma dec_val_show_nat: "dec_val (show_nat n) = int n"
proof (induction n rule: show_nat.induct)
  case (1 n)
  show ?case
  proof (cases "n < 10")
    case True
    then show ?thesis by (subst show_nat.simps) (simp add: dec_val_def digit_char)
  next
    case False
    have "int (n div 10) * 10 + int (n mod 10) = int n" by (metis div_mult_mod_eq of_nat_add of_nat_mult of_nat_numeral)
    with False 1 [OF False] show ?thesis
      by (subst show_nat.simps) (simp add: dec_val_def digit_char)
  qed
qed

text \<open>No number is printed with a leading zero, except zero.\<close>

lemma show_nat_head: "0 < n \<Longrightarrow> hd (show_nat n) \<noteq> CHR ''0''"
proof (induction n rule: show_nat.induct)
  case (1 n)
  show ?case
  proof (cases "n < 10")
    case True
    have "char_of (48 + n) \<noteq> CHR ''0''"
    proof
      assume "char_of (48 + n) = CHR ''0''"
      then have "of_char (char_of (48 + n) :: char) = (of_char CHR ''0'' :: nat)" by (rule arg_cong)
      with True "1.prems" show False by simp
    qed
    with True show ?thesis by (subst show_nat.simps) simp
  next
    case False
    with 1 show ?thesis by (subst show_nat.simps) simp
  qed
qed

lemma strtol_signed:
  assumes str: "strip_sign (dropWhile isspace str) = (neg, show_nat n @ r)" and n: "n < 2 ^ 63"
    and r: "r \<noteq> [] \<longrightarrow> \<not> is_digit (hd r) \<and> lower (hd r) \<noteq> CHR ''x''"
  shows "strtol_base0 str = (if neg then - int n else int n, r)"
proof -
  obtain d ds where d: "show_nat n = d # ds" by (cases "show_nat n") auto
  have dig: "list_all is_digit (d # ds)" using show_nat_digits [of n] d by simp
  have tw: "takeWhile is_digit (show_nat n @ r) = show_nat n" "dropWhile is_digit (show_nat n @ r) = r"
    using show_nat_digits [of n] r by (auto simp: takeWhile_append dropWhile_append list_all_iff) (cases r; simp)+
  show ?thesis
  proof (cases "n = 0")
    case True
    have "char_of (48 :: nat) = CHR ''0''" by code_simp
    with True have "show_nat n = ''0''" by (simp add: show_nat.simps [of 0])
    with str r show ?thesis
      by (cases r) (auto simp: strtol_base0_def True is_oct_def oct_num_def digit_val_def code_def lower_def isupper_def is_digit_def)
  next
    case False
    then have "d \<noteq> CHR ''0''" using show_nat_head [of n] d by simp
    moreover from this have "strip_prefix_ci ''0x'' (show_nat n @ r) = None"
      using dig is_digit_lower [of d] by (simp add: d)
    ultimately show ?thesis
      using str tw n dec_val_show_nat [of n] by (simp add: strtol_base0_def d)
  qed
qed

lemma strtol_show_int:
  assumes "\<bar>i\<bar> < 2 ^ 63" and "r \<noteq> [] \<longrightarrow> \<not> is_digit (hd r) \<and> lower (hd r) \<noteq> CHR ''x''"
  shows "strtol_base0 (show_int i @ r) = (i, r)"
proof (cases "i < 0")
  case True
  have "dropWhile isspace (show_int i @ r) = CHR ''-'' # show_nat (nat (- i)) @ r"
    using True by (simp add: show_int_def isspace_def code_def)
  with True assms strtol_signed [of "show_int i @ r" True "nat (- i)" r] show ?thesis by (simp add: strip_sign_def)
next
  case False
  obtain d ds where d: "show_nat (nat i) = d # ds" by (cases "show_nat (nat i)") auto
  then have "is_digit d" using show_nat_digits [of "nat i"] by simp
  with False d have "strip_sign (dropWhile isspace (show_int i @ r)) = (False, show_nat (nat i) @ r)"
    using is_digit_not_space [of d] is_digit_chars [of d] by (simp add: show_int_def strip_sign_def)
  with False assms strtol_signed [of "show_int i @ r" False "nat i" r] show ?thesis by simp
qed

lemma length_show_nat: "n < 10 ^ Suc k \<Longrightarrow> length (show_nat n) \<le> Suc k"
proof (induction k arbitrary: n)
  case 0
  then show ?case by (subst show_nat.simps) simp
next
  case (Suc k)
  then have "n div 10 < 10 ^ Suc k" by (simp add: div_less_iff_less_mult)
  with Suc.IH [of "n div 10"] show ?case by (subst show_nat.simps) simp
qed

end
