(* ===== verification/Holt_Winters.thy ===== *)
theory Holt_Winters
  imports Rra_Store Fifo_Queue C_Strings
begin

text \<open>
  Aberrant behaviour detection: \<open>rrd_hw_math.c\<close> (the formulas of the additive and the multiplicative
  model and the function container \<open>hw_functions_t\<close>), \<open>rrd_hw_update.c\<close> (one update of HWPREDICT,
  SEASONAL, DEVPREDICT, DEVSEASONAL and FAILURES) and \<open>rrd_hw.c\<close> (\<open>lookup_seasonal\<close>,
  \<open>erase_violations\<close>, \<open>apply_smoother\<close>, \<open>reset_aberrant_coefficients\<close>, \<open>update_aberrant_CF\<close>).

  The function container is the interface between the formulas and the update functions: the locale
  \<open>hw_model\<close> states what the update functions rely on (an unknown argument makes the result
  unknown), and both containers interpret it.
\<close>

section \<open>Formulas\<close>

text \<open>The scratch area is read through the record; \<open>int null_count\<close> narrows an \<open>unsigned long\<close>.\<close>

definition hw_additive_calculate_prediction :: "dbl \<Rightarrow> dbl \<Rightarrow> int \<Rightarrow> dbl \<Rightarrow> dbl" where
  "hw_additive_calculate_prediction intercept slope nulls seasonal_coef =
     intercept + slope * d_of_int nulls + seasonal_coef"

definition hw_additive_calculate_intercept :: "dbl \<Rightarrow> dbl \<Rightarrow> dbl \<Rightarrow> cdp_prep_t \<Rightarrow> dbl" where
  "hw_additive_calculate_intercept alpha observed seasonal_coef coefs =
     alpha * (observed - seasonal_coef)
     + (1 - alpha) * (hw_intercept coefs + hw_slope coefs * d_of_nat (null_count coefs))"

definition hw_additive_calculate_seasonality :: "dbl \<Rightarrow> dbl \<Rightarrow> dbl \<Rightarrow> dbl \<Rightarrow> dbl" where
  "hw_additive_calculate_seasonality hw_gamma observed intercept seasonal_coef =
     hw_gamma * (observed - intercept) + (1 - hw_gamma) * seasonal_coef"

definition hw_additive_init_seasonality :: "dbl \<Rightarrow> dbl \<Rightarrow> dbl" where
  "hw_additive_init_seasonality seasonal_coef intercept = seasonal_coef - intercept"

definition hw_multiplicative_calculate_prediction :: "dbl \<Rightarrow> dbl \<Rightarrow> int \<Rightarrow> dbl \<Rightarrow> dbl" where
  "hw_multiplicative_calculate_prediction intercept slope nulls seasonal_coef =
     (intercept + slope * d_of_int nulls) * seasonal_coef"

definition hw_multiplicative_calculate_intercept :: "dbl \<Rightarrow> dbl \<Rightarrow> dbl \<Rightarrow> cdp_prep_t \<Rightarrow> dbl" where
  "hw_multiplicative_calculate_intercept alpha observed seasonal_coef coefs =
     (if seasonal_coef \<le> 0 then NaN
      else alpha * (observed / seasonal_coef)
           + (1 - alpha) * (hw_intercept coefs + hw_slope coefs * d_of_nat (null_count coefs)))"

definition hw_multiplicative_calculate_seasonality :: "dbl \<Rightarrow> dbl \<Rightarrow> dbl \<Rightarrow> dbl \<Rightarrow> dbl" where
  "hw_multiplicative_calculate_seasonality hw_gamma observed intercept seasonal_coef =
     (if intercept \<le> 0 then NaN
      else hw_gamma * (observed / intercept) + (1 - hw_gamma) * seasonal_coef)"

definition hw_multiplicative_init_seasonality :: "dbl \<Rightarrow> dbl \<Rightarrow> dbl" where
  "hw_multiplicative_init_seasonality seasonal_coef intercept =
     (if intercept \<le> 0 then NaN else seasonal_coef / intercept)"

definition hw_calculate_slope :: "dbl \<Rightarrow> cdp_prep_t \<Rightarrow> dbl" where
  "hw_calculate_slope beta coefs =
     beta * (hw_intercept coefs - hw_last_intercept coefs) + (1 - beta) * hw_slope coefs"

definition hw_calculate_seasonal_deviation :: "dbl \<Rightarrow> dbl \<Rightarrow> dbl \<Rightarrow> dbl \<Rightarrow> dbl" where
  "hw_calculate_seasonal_deviation hw_gamma prediction observed previous =
     hw_gamma * dfabs (prediction - observed) + (1 - hw_gamma) * previous"

definition hw_init_seasonal_deviation :: "dbl \<Rightarrow> dbl \<Rightarrow> dbl" where
  "hw_init_seasonal_deviation prediction observed = dfabs (prediction - observed)"

record hw_functions_t =
  predict :: "dbl \<Rightarrow> dbl \<Rightarrow> int \<Rightarrow> dbl \<Rightarrow> dbl"
  intercept_fn :: "dbl \<Rightarrow> dbl \<Rightarrow> dbl \<Rightarrow> cdp_prep_t \<Rightarrow> dbl"
  slope_fn :: "dbl \<Rightarrow> cdp_prep_t \<Rightarrow> dbl"
  seasonality :: "dbl \<Rightarrow> dbl \<Rightarrow> dbl \<Rightarrow> dbl \<Rightarrow> dbl"
  init_seasonality :: "dbl \<Rightarrow> dbl \<Rightarrow> dbl"
  seasonal_deviation_fn :: "dbl \<Rightarrow> dbl \<Rightarrow> dbl \<Rightarrow> dbl \<Rightarrow> dbl"
  init_seasonal_deviation :: "dbl \<Rightarrow> dbl \<Rightarrow> dbl"
  identity :: dbl

definition hw_multiplicative_functions :: hw_functions_t where
  "hw_multiplicative_functions =
     \<lparr>predict = hw_multiplicative_calculate_prediction,
      intercept_fn = hw_multiplicative_calculate_intercept,
      slope_fn = hw_calculate_slope,
      seasonality = hw_multiplicative_calculate_seasonality,
      init_seasonality = hw_multiplicative_init_seasonality,
      seasonal_deviation_fn = hw_calculate_seasonal_deviation,
      init_seasonal_deviation = hw_init_seasonal_deviation,
      identity = 1\<rparr>"

definition hw_additive_functions :: hw_functions_t where
  "hw_additive_functions =
     \<lparr>predict = hw_additive_calculate_prediction,
      intercept_fn = hw_additive_calculate_intercept,
      slope_fn = hw_calculate_slope,
      seasonality = hw_additive_calculate_seasonality,
      init_seasonality = hw_additive_init_seasonality,
      seasonal_deviation_fn = hw_calculate_seasonal_deviation,
      init_seasonal_deviation = hw_init_seasonal_deviation,
      identity = 0\<rparr>"

section \<open>One update of each consolidation function\<close>

definition upd_cdp :: "nat \<Rightarrow> (cdp_prep_t \<Rightarrow> cdp_prep_t) \<Rightarrow> rrd \<Rightarrow> rrd" where
  "upd_cdp i f s = s\<lparr>cdp_prep := (cdp_prep s)[i := f (cdp_prep s ! i)]\<rparr>"

definition init_slope_intercept :: "scratch_idx \<Rightarrow> cdp_prep_t \<Rightarrow> cdp_prep_t" where
  "init_slope_intercept sc coefs =
     coefs\<lparr>hw_intercept := scratch_get sc coefs, hw_last_intercept := scratch_get sc coefs,
           hw_slope := 0, hw_last_slope := 0, null_count := 1, last_null_count := 1\<rparr>"

definition hw_is_violation :: "dbl \<Rightarrow> dbl \<Rightarrow> dbl \<Rightarrow> dbl \<Rightarrow> dbl \<Rightarrow> bool" where
  "hw_is_violation observed prediction deviation dpos dneg' \<longleftrightarrow>
     prediction + dpos * deviation < observed \<or> observed < prediction - dneg' * deviation"

text \<open>The prediction takes its counter through an \<open>int\<close> parameter.\<close>

definition null_arg :: "nat \<Rightarrow> int" where
  "null_arg n = s32 (int n)"

definition update_hwpredict :: "nat \<Rightarrow> nat \<Rightarrow> nat \<Rightarrow> scratch_idx \<Rightarrow> hw_functions_t \<Rightarrow> rrd \<Rightarrow> rrd" where
  "update_hwpredict cdp_idx rra_idx ds_idx sc functions s =
     (let current_rra = rra_def s ! rra_idx;
          s = upd_cdp cdp_idx (\<lambda>c. c\<lparr>hw_last_intercept := hw_intercept c, hw_last_slope := hw_slope c,
                                     last_null_count := null_count c\<rparr>) s;
          dependent = dependent_rra_idx current_rra;
          seasonal_cdp_idx = dependent * dscnt s + ds_idx;
          seasonal_coef = (if dependent < rra_idx then hw_last_seasonal (cdp_prep s ! seasonal_cdp_idx)
                           else hw_seasonal (cdp_prep s ! seasonal_cdp_idx));
          coefs = cdp_prep s ! cdp_idx;
          (prediction, coefs) =
            (if isnan (hw_intercept coefs) \<or> isnan (hw_slope coefs) \<or> isnan seasonal_coef
             then (NaN, if isnan (hw_intercept coefs) \<and> \<not> isnan (scratch_get sc coefs)
                        then init_slope_intercept sc coefs else coefs)
             else (predict functions (hw_intercept coefs) (hw_slope coefs) (null_arg (null_count coefs)) seasonal_coef,
                   if isnan (scratch_get sc coefs)
                   then coefs\<lparr>null_count := u64 (int (null_count coefs) + 1)\<rparr>
                   else let coefs = coefs\<lparr>hw_intercept := intercept_fn functions (hw_alpha current_rra)
                                            (scratch_get sc coefs) seasonal_coef coefs\<rparr>;
                            coefs = coefs\<lparr>hw_slope := slope_fn functions (hw_beta current_rra) coefs\<rparr>
                        in coefs\<lparr>null_count := 1\<rparr>))
      in upd_cdp cdp_idx (\<lambda>_. scratch_set sc prediction coefs) s)"

definition update_seasonal :: "nat \<Rightarrow> nat \<Rightarrow> nat \<Rightarrow> scratch_idx \<Rightarrow> dbl list \<Rightarrow> hw_functions_t \<Rightarrow> rrd \<Rightarrow> rrd" where
  "update_seasonal cdp_idx rra_idx ds_idx sc seasonal_coef functions s =
     (let current_rra = rra_def s ! rra_idx;
          dependent = dependent_rra_idx current_rra;
          hw_rra = rra_def s ! dependent;
          hw_cdp_idx = dependent * dscnt s + ds_idx;
          seasonal = hw_seasonal (cdp_prep s ! cdp_idx);
          s = upd_cdp cdp_idx (\<lambda>c. c\<lparr>hw_last_intercept := seasonal, hw_intercept := seasonal_coef ! ds_idx\<rparr>) s;
          observed = scratch_get sc (cdp_prep s ! cdp_idx);
          coefs = cdp_prep s ! hw_cdp_idx;
          store = (\<lambda>v. upd_cdp cdp_idx (scratch_set sc v) s)
      in if isnan observed then store seasonal
         else if dependent < rra_idx then
           (if isnan (hw_last_intercept coefs) \<or> isnan (hw_last_slope coefs) then store NaN
            else if isnan seasonal then store (init_seasonality functions observed (hw_last_intercept coefs))
            else store (seasonality functions (seasonal_gamma current_rra) observed (hw_intercept coefs) seasonal))
         else
           (if isnan (hw_intercept coefs) \<or> isnan (hw_slope coefs) then store (identity functions)
            else if isnan seasonal then store (init_seasonality functions observed (hw_intercept coefs))
            else store (seasonality functions (seasonal_gamma current_rra) observed
                          (intercept_fn functions (hw_alpha hw_rra) observed seasonal coefs) seasonal)))"

definition update_devpredict :: "nat \<Rightarrow> nat \<Rightarrow> nat \<Rightarrow> scratch_idx \<Rightarrow> rrd \<Rightarrow> rrd" where
  "update_devpredict cdp_idx rra_idx ds_idx sc s =
     (let dependent = dependent_rra_idx (rra_def s ! rra_idx);
          seasonal_cdp_idx = dependent * dscnt s + ds_idx
      in upd_cdp cdp_idx
           (scratch_set sc (if dependent < rra_idx then last_seasonal_deviation (cdp_prep s ! seasonal_cdp_idx)
                            else seasonal_deviation (cdp_prep s ! seasonal_cdp_idx))) s)"

definition update_devseasonal :: "nat \<Rightarrow> nat \<Rightarrow> nat \<Rightarrow> scratch_idx \<Rightarrow> dbl list \<Rightarrow> hw_functions_t \<Rightarrow> rrd \<Rightarrow> rrd" where
  "update_devseasonal cdp_idx rra_idx ds_idx sc seasonal_dev functions s =
     (let current_rra = rra_def s ! rra_idx;
          hw_rra_idx = dependent_rra_idx current_rra;
          hw_cdp_idx = hw_rra_idx * dscnt s + ds_idx;
          s = upd_cdp cdp_idx (\<lambda>c. c\<lparr>hw_last_intercept := seasonal_deviation c,
                                     hw_intercept := seasonal_dev ! ds_idx\<rparr>) s;
          seasonal_rra = dependent_rra_idx (rra_def s ! hw_rra_idx);
          seasonal_cdp_idx = seasonal_rra * dscnt s + ds_idx;
          seasonal_coef = (if seasonal_rra < rra_idx then hw_last_seasonal (cdp_prep s ! seasonal_cdp_idx)
                           else hw_seasonal (cdp_prep s ! seasonal_cdp_idx));
          coefs = cdp_prep s ! hw_cdp_idx;
          (i, b, n) = (if hw_rra_idx < rra_idx
                       then (hw_last_intercept coefs, hw_last_slope coefs, last_null_count coefs)
                       else (hw_intercept coefs, hw_slope coefs, null_count coefs));
          store = (\<lambda>v. upd_cdp cdp_idx (scratch_set sc v) s)
      in if isnan i \<or> isnan b \<or> isnan seasonal_coef then store NaN
         else
           let prediction = predict functions i b (null_arg n) seasonal_coef;
               c = cdp_prep s ! cdp_idx;
               observed = scratch_get sc c
           in if isnan observed then store (last_seasonal_deviation c)
              else if isnan (last_seasonal_deviation c)
              then store (init_seasonal_deviation functions prediction observed)
              else store (seasonal_deviation_fn functions (seasonal_gamma current_rra) prediction observed
                            (last_seasonal_deviation c)))"

text \<open>
  The shift of the violation history. The loop runs from \<open>window_len\<close> down to \<open>2\<close>; the counter is an
  \<open>unsigned short\<close>, which the window bound of 28 does not fill.
\<close>

fun shift_violations :: "nat \<Rightarrow> int list \<Rightarrow> nat \<Rightarrow> int list \<times> nat" where
  "shift_violations 0 va cnt = (va, cnt)"
| "shift_violations (Suc 0) va cnt = (va, cnt)"
| "shift_violations (Suc (Suc i)) va cnt =
     (let va = va[Suc i := va ! i]
      in shift_violations (Suc i) va (u16 (int cnt + va ! Suc i)))"

text \<open>Whether the observed value counts as a violation; an unknown deviation never does, an unknown
  observation always does.\<close>

definition failure_violation :: "nat \<Rightarrow> nat \<Rightarrow> nat \<Rightarrow> scratch_idx \<Rightarrow> hw_functions_t \<Rightarrow> rrd \<Rightarrow> bool" where
  "failure_violation cdp_idx rra_idx ds_idx sc functions s \<longleftrightarrow>
     (let current_rra = rra_def s ! rra_idx;
          dev_rra_idx = dependent_rra_idx current_rra;
          hw_rra_idx = dependent_rra_idx (rra_def s ! dev_rra_idx);
          seasonal_rra_idx = dependent_rra_idx (rra_def s ! hw_rra_idx);
          dev_cdp = cdp_prep s ! (dev_rra_idx * dscnt s + ds_idx);
          deviation = (if rra_idx < seasonal_rra_idx then seasonal_deviation dev_cdp
                       else last_seasonal_deviation dev_cdp);
          observed = scratch_get sc (cdp_prep s ! cdp_idx)
      in if isnan deviation then False
         else
           let seasonal_cdp = cdp_prep s ! (seasonal_rra_idx * dscnt s + ds_idx);
               seasonal_coef = (if rra_idx < seasonal_rra_idx then hw_seasonal seasonal_cdp
                                else hw_last_seasonal seasonal_cdp);
               hw_cdp = cdp_prep s ! (hw_rra_idx * dscnt s + ds_idx);
               prediction =
                 (if rra_idx < hw_rra_idx
                  then predict functions (hw_intercept hw_cdp) (hw_slope hw_cdp)
                         (null_arg (null_count hw_cdp)) seasonal_coef
                  else predict functions (hw_last_intercept hw_cdp) (hw_last_slope hw_cdp)
                         (null_arg (last_null_count hw_cdp)) seasonal_coef)
           in if isnan observed then True
              else hw_is_violation observed prediction deviation (delta_pos current_rra) (delta_neg current_rra))"

definition update_failures :: "nat \<Rightarrow> nat \<Rightarrow> nat \<Rightarrow> scratch_idx \<Rightarrow> hw_functions_t \<Rightarrow> rrd \<Rightarrow> int \<times> rrd" where
  "update_failures cdp_idx rra_idx ds_idx sc functions s =
     (let current_rra = rra_def s ! rra_idx;
          v = (if failure_violation cdp_idx rra_idx ds_idx sc functions s then 1 else 0);
          (va, cnt) = shift_violations (u16 (int (window_len current_rra))) (violations (cdp_prep s ! cdp_idx)) (nat v);
          va = va[0 := v];
          res = (if cnt < failure_threshold current_rra then 0 else 1)
      in (res, upd_cdp cdp_idx (\<lambda>c. scratch_set sc (d_of_int res) (c\<lparr>violations := va\<rparr>)) s))"

text \<open>
  The dispatcher. Its result is \<open>-1\<close> for an archive whose dependency has the wrong type and for an
  unknown function; the caller ignores it.
\<close>

definition hw_dep_cf :: "nat \<Rightarrow> rrd \<Rightarrow> hw_functions_t option" where
  "hw_dep_cf rra_idx s =
     (case cf_conv (cf_nam (rra_def s ! rra_idx)) of
        Some CF_HWPREDICT \<Rightarrow> Some hw_additive_functions
      | Some CF_MHWPREDICT \<Rightarrow> Some hw_multiplicative_functions
      | _ \<Rightarrow> None)"

definition hw_dep_idx :: "rrd \<Rightarrow> nat \<Rightarrow> nat" where
  "hw_dep_idx s rra_idx = dependent_rra_idx (rra_def s ! rra_idx)"

definition update_aberrant_CF :: "dbl \<Rightarrow> cf_en \<Rightarrow> nat \<Rightarrow> nat \<Rightarrow> nat \<Rightarrow> scratch_idx \<Rightarrow> dbl list \<Rightarrow> rrd \<Rightarrow> int \<times> rrd" where
  "update_aberrant_CF val current_cf cdp_idx rra_idx ds_idx sc seasonal_coef s =
     (let s = upd_cdp cdp_idx (scratch_set sc val) s in
      case current_cf of
        CF_HWPREDICT \<Rightarrow> (0, update_hwpredict cdp_idx rra_idx ds_idx sc hw_additive_functions s)
      | CF_MHWPREDICT \<Rightarrow> (0, update_hwpredict cdp_idx rra_idx ds_idx sc hw_multiplicative_functions s)
      | CF_DEVPREDICT \<Rightarrow> (0, update_devpredict cdp_idx rra_idx ds_idx sc s)
      | CF_SEASONAL \<Rightarrow>
          (case hw_dep_cf (hw_dep_idx s rra_idx) s of
             Some f \<Rightarrow> (0, update_seasonal cdp_idx rra_idx ds_idx sc seasonal_coef f s)
           | None \<Rightarrow> (- 1, s))
      | CF_DEVSEASONAL \<Rightarrow>
          (case hw_dep_cf (hw_dep_idx s rra_idx) s of
             Some f \<Rightarrow> (0, update_devseasonal cdp_idx rra_idx ds_idx sc seasonal_coef f s)
           | None \<Rightarrow> (- 1, s))
      | CF_FAILURES \<Rightarrow>
          (case hw_dep_cf (hw_dep_idx s (hw_dep_idx s rra_idx)) s of
             Some f \<Rightarrow> update_failures cdp_idx rra_idx ds_idx sc f s
           | None \<Rightarrow> (- 1, s))
      | _ \<Rightarrow> (0, s))"

section \<open>Archive-level operations\<close>

datatype hw_error = LookupSeasonalRead | LookupSeasonalSeek | SmootherSeek | SmootherRead
  | SmootherDependency | SmootherWrite | ResetWrite

text \<open>The buffer of coefficients is part of the state; a short read overwrites its beginning.\<close>

definition lookup_seasonal :: "nat \<Rightarrow> nat \<Rightarrow> nat \<Rightarrow> dbl list \<times> rrd \<Rightarrow> (hw_error, dbl list \<times> rrd) outcome" where
  "lookup_seasonal rra_idx rra_start offset cs =
     (let (coef, s) = cs;
          row_idx = rra_ptr s ! rra_idx + offset;
          rows = row_cnt (rra_def s ! rra_idx);
          row_idx = (if row_idx \<ge> rows then row_idx mod rows else row_idx);
          pos_tmp = rra_start + row_idx * dscnt s
      in case rrd_seek (int pos_tmp) SEEK_SET s of
           (Some _, s) \<Rightarrow> (Some LookupSeasonalSeek, (coef, s))
         | (None, s) \<Rightarrow>
             (let (vs, s) = rrd_read (dscnt s) s
              in (if length vs = dscnt s then None else Some LookupSeasonalRead,
                  (vs @ drop (length vs) coef, s))))"

definition erase_violations :: "nat \<Rightarrow> nat \<Rightarrow> rrd \<Rightarrow> rrd" where
  "erase_violations cdp_idx rra_idx s =
     (if cf_conv (cf_nam (rra_def s ! rra_idx)) \<noteq> Some CF_FAILURES then s
      else upd_cdp cdp_idx (\<lambda>c. c\<lparr>violations :=
             fold (\<lambda>i va. va[i := 0]) (rev [0 ..< u16 (int (window_len (rra_def s ! rra_idx)))]) (violations c)\<rparr>) s)"

section \<open>The contract of a model\<close>

text \<open>
  What the update functions rely on: an unknown coefficient or observation makes the result unknown,
  and the level and the trend are computed from the coefficients of the model alone.
\<close>

locale hw_model =
  fixes f :: hw_functions_t
  assumes predict_nan: "isnan i \<or> isnan b \<or> isnan sc \<Longrightarrow> predict f i b n sc = NaN"
    and intercept_cong: "hw_intercept c = hw_intercept d \<Longrightarrow> hw_slope c = hw_slope d \<Longrightarrow>
      null_count c = null_count d \<Longrightarrow> intercept_fn f a x sc c = intercept_fn f a x sc d"
    and slope_cong: "hw_intercept c = hw_intercept d \<Longrightarrow> hw_slope c = hw_slope d \<Longrightarrow>
      hw_last_intercept c = hw_last_intercept d \<Longrightarrow> slope_fn f a c = slope_fn f a d"
begin

text \<open>The explicit test for unknown coefficients gives what the formula would give.\<close>

lemma guarded_predict:
  "(if isnan i \<or> isnan b \<or> isnan sc then NaN else predict f i b n sc) = predict f i b n sc"
  using predict_nan by simp

end

interpretation additive: hw_model hw_additive_functions
  by unfold_locales (auto simp: hw_additive_functions_def hw_additive_calculate_prediction_def
    hw_additive_calculate_intercept_def hw_calculate_slope_def isnan_def)

interpretation multiplicative: hw_model hw_multiplicative_functions
  by unfold_locales (auto simp: hw_multiplicative_functions_def hw_multiplicative_calculate_prediction_def
    hw_multiplicative_calculate_intercept_def hw_calculate_slope_def isnan_def)

lemma hw_dep_model: "hw_dep_cf i s = Some f \<Longrightarrow> hw_model f"
  using additive.hw_model_axioms multiplicative.hw_model_axioms
  by (auto simp: hw_dep_cf_def split: option.splits cf_en.splits)

section \<open>The model step\<close>

text \<open>
  The abstract step of a trained model: level, trend, number of steps since the last known value, and
  the seasonal coefficient of the season. It yields the prediction, the seasonal coefficient to store
  for the next cycle, and the new level, trend and count.
\<close>

record hw_state =
  level :: dbl
  trend :: dbl
  gap :: nat
  season :: dbl

definition hw_coefs :: "hw_state \<Rightarrow> dbl \<Rightarrow> cdp_prep_t" where
  "hw_coefs m prev = \<lparr>cdp_val = 0, unkn_pdp_cnt = 0, hw_intercept = level m, hw_last_intercept = prev,
     hw_slope = trend m, hw_last_slope = 0, null_count = gap m, last_null_count = 0,
     primary_val = 0, secondary_val = 0, violations = []\<rparr>"

definition hw_prediction :: "hw_functions_t \<Rightarrow> hw_state \<Rightarrow> dbl" where
  "hw_prediction f m = predict f (level m) (trend m) (null_arg (gap m)) (season m)"

definition hw_train :: "hw_functions_t \<Rightarrow> dbl \<Rightarrow> dbl \<Rightarrow> dbl \<Rightarrow> hw_state \<Rightarrow> hw_state" where
  "hw_train f alpha beta x m =
     (if isnan (season m) then m
      else if isnan x then m\<lparr>gap := u64 (int (gap m) + 1)\<rparr>
      else let l = intercept_fn f alpha x (season m) (hw_coefs m 0)
           in m\<lparr>level := l, trend := slope_fn f beta (hw_coefs (m\<lparr>level := l\<rparr>) (level m)), gap := 1\<rparr>)"

definition hw_season :: "hw_functions_t \<Rightarrow> dbl \<Rightarrow> dbl \<Rightarrow> dbl \<Rightarrow> hw_state \<Rightarrow> dbl" where
  "hw_season f alpha gam x m =
     (if isnan x then season m
      else if isnan (season m) then init_seasonality f x (level m)
      else seasonality f gam x (intercept_fn f alpha x (season m) (hw_coefs m 0)) (season m))"

text \<open>The abstract state that two preparation areas (of the HWPREDICT and of the SEASONAL archive) hold.\<close>

definition hw_abs :: "cdp_prep_t \<Rightarrow> cdp_prep_t \<Rightarrow> hw_state" where
  "hw_abs h q = \<lparr>level = hw_intercept h, trend = hw_slope h, gap = null_count h, season = hw_seasonal q\<rparr>"

text \<open>The result of one step, on the two preparation areas.\<close>

definition hw_step_post :: "hw_functions_t \<Rightarrow> rra_def_t \<Rightarrow> rra_def_t \<Rightarrow> scratch_idx \<Rightarrow> dbl \<Rightarrow> dbl \<Rightarrow>
    hw_state \<Rightarrow> cdp_prep_t \<Rightarrow> cdp_prep_t \<Rightarrow> bool" where
  "hw_step_post f hrra qrra sc x nxt m h' q' \<longleftrightarrow>
     scratch_get sc h' = hw_prediction f m \<and>
     scratch_get sc q' = hw_season f (hw_alpha hrra) (seasonal_gamma qrra) x m \<and>
     hw_abs h' q' = (hw_train f (hw_alpha hrra) (hw_beta hrra) x m)\<lparr>season := nxt\<rparr> \<and>
     hw_last_intercept h' = level m \<and> hw_last_slope h' = trend m \<and> last_null_count h' = gap m \<and>
     hw_last_seasonal q' = season m"

text \<open>The two updates of one data source, in the order of the archives.\<close>

definition hw_pair_update :: "hw_functions_t \<Rightarrow> nat \<Rightarrow> nat \<Rightarrow> nat \<Rightarrow> scratch_idx \<Rightarrow> dbl list \<Rightarrow> rrd \<Rightarrow> rrd" where
  "hw_pair_update f hi qi d sc coef s =
     (if hi < qi
      then update_seasonal (qi * dscnt s + d) qi d sc coef f (update_hwpredict (hi * dscnt s + d) hi d sc f s)
      else update_hwpredict (hi * dscnt s + d) hi d sc f (update_seasonal (qi * dscnt s + d) qi d sc coef f s))"

lemma upd_cdp_simps [simp]:
  "stat_head (upd_cdp i g s) = stat_head s" "rra_def (upd_cdp i g s) = rra_def s"
  "ds_def (upd_cdp i g s) = ds_def s" "rra_ptr (upd_cdp i g s) = rra_ptr s"
  "rrd_value (upd_cdp i g s) = rrd_value s" "live_head (upd_cdp i g s) = live_head s"
  "pdp_prep (upd_cdp i g s) = pdp_prep s" "length (cdp_prep (upd_cdp i g s)) = length (cdp_prep s)"
  "legacy_last_up (upd_cdp i g s) = legacy_last_up s" "pos (upd_cdp i g s) = pos s"
  "pcdp_summary (upd_cdp i g s) = pcdp_summary s"
  by (simp_all add: upd_cdp_def)

lemma upd_cdp_nth:
  "j < length (cdp_prep s) \<Longrightarrow> cdp_prep (upd_cdp i g s) ! j = (if j = i then g (cdp_prep s ! i) else cdp_prep s ! j)"
  by (auto simp: upd_cdp_def nth_list_update)

lemma scratch_get_fields [simp]:
  "scratch_get sc (c\<lparr>hw_intercept := v\<rparr>) = scratch_get sc c"
  "scratch_get sc (c\<lparr>hw_last_intercept := v\<rparr>) = scratch_get sc c"
  "scratch_get sc (c\<lparr>hw_slope := v\<rparr>) = scratch_get sc c"
  "scratch_get sc (c\<lparr>hw_last_slope := v\<rparr>) = scratch_get sc c"
  "scratch_get sc (c\<lparr>null_count := n\<rparr>) = scratch_get sc c"
  "scratch_get sc (c\<lparr>last_null_count := n\<rparr>) = scratch_get sc c"
  "scratch_get sc (c\<lparr>violations := va\<rparr>) = scratch_get sc c"
  by (cases sc; simp)+

lemma scratch_set_fields [simp]:
  "hw_intercept (scratch_set sc v c) = hw_intercept c"
  "hw_last_intercept (scratch_set sc v c) = hw_last_intercept c"
  "hw_slope (scratch_set sc v c) = hw_slope c"
  "hw_last_slope (scratch_set sc v c) = hw_last_slope c"
  "null_count (scratch_set sc v c) = null_count c"
  "last_null_count (scratch_set sc v c) = last_null_count c"
  "cdp_val (scratch_set sc v c) = cdp_val c"
  "unkn_pdp_cnt (scratch_set sc v c) = unkn_pdp_cnt c"
  "violations (scratch_set sc v c) = violations c"
  by (cases sc; simp)+

context hw_model
begin

text \<open>One HWPREDICT update of a trained model, with the season read from either slot.\<close>

lemma update_hwpredict_trained:
  assumes ch: "ch < length (cdp_prep s)"
    and trained: "\<not> isnan (hw_intercept (cdp_prep s ! ch))" "\<not> isnan (hw_slope (cdp_prep s ! ch))"
    and cq: "cq = dependent_rra_idx (rra_def s ! hi) * dscnt s + d" "cq \<noteq> ch"
    and m: "m = \<lparr>level = hw_intercept (cdp_prep s ! ch), trend = hw_slope (cdp_prep s ! ch),
        gap = null_count (cdp_prep s ! ch),
        season = (if dependent_rra_idx (rra_def s ! hi) < hi then hw_last_seasonal (cdp_prep s ! cq)
                  else hw_seasonal (cdp_prep s ! cq))\<rparr>"
  shows "\<exists>c. update_hwpredict ch hi d sc f s = upd_cdp ch (\<lambda>_. c) s \<and>
    scratch_get sc c = hw_prediction f m \<and>
    (let m' = hw_train f (hw_alpha (rra_def s ! hi)) (hw_beta (rra_def s ! hi)) (scratch_get sc (cdp_prep s ! ch)) m
     in hw_intercept c = level m' \<and> hw_slope c = trend m' \<and> null_count c = gap m') \<and>
    hw_last_intercept c = level m \<and> hw_last_slope c = trend m \<and> last_null_count c = gap m"
proof -
  define h where "h = cdp_prep s ! ch"
  define h1 where "h1 = h\<lparr>hw_last_intercept := hw_intercept h, hw_last_slope := hw_slope h,
      last_null_count := null_count h\<rparr>"
  define s1 where "s1 = upd_cdp ch (\<lambda>c. c\<lparr>hw_last_intercept := hw_intercept c, hw_last_slope := hw_slope c,
      last_null_count := null_count c\<rparr>) s"
  have s1: "cdp_prep s1 ! ch = h1" "cq \<noteq> ch \<Longrightarrow> cdp_prep s1 ! cq = cdp_prep s ! cq" "rra_def s1 = rra_def s"
    "dscnt s1 = dscnt s"
    using ch by (simp_all add: s1_def h1_def h_def upd_cdp_def)
  have up: "upd_cdp ch (\<lambda>_. c) s1 = upd_cdp ch (\<lambda>_. c) s" for c by (simp add: s1_def upd_cdp_def)
  have tr: "\<not> isnan (hw_intercept h)" "\<not> isnan (hw_slope h)" using trained by (simp_all add: h_def)
  have ml: "level m = hw_intercept h" "trend m = hw_slope h" "gap m = null_count h" by (simp_all add: m h_def)
  have sea: "(if dependent_rra_idx (rra_def s ! hi) < hi then hw_last_seasonal (cdp_prep s1 ! cq)
      else hw_seasonal (cdp_prep s1 ! cq)) = season m"
    using s1(2) [OF cq(2)] by (simp add: m)
  have ic: "intercept_fn f a x (season m) h1 = intercept_fn f a x (season m) (hw_coefs m 0)" for a x
    by (rule intercept_cong) (simp_all add: h1_def hw_coefs_def ml)
  have sl: "slope_fn f a (h1\<lparr>hw_intercept := l\<rparr>) = slope_fn f a (hw_coefs (m\<lparr>level := l\<rparr>) (level m))" for a l
    by (rule slope_cong) (simp_all add: h1_def hw_coefs_def ml)
  have x: "scratch_get sc h1 = scratch_get sc h" by (simp add: h1_def)
  define pc where "pc =
            (if isnan (hw_intercept h1) \<or> isnan (hw_slope h1) \<or> isnan (season m)
             then (NaN, if isnan (hw_intercept h1) \<and> \<not> isnan (scratch_get sc h1)
                        then init_slope_intercept sc h1 else h1)
             else (predict f (hw_intercept h1) (hw_slope h1) (null_arg (null_count h1)) (season m),
                   if isnan (scratch_get sc h1)
                   then h1\<lparr>null_count := u64 (int (null_count h1) + 1)\<rparr>
                   else let coefs = h1\<lparr>hw_intercept := intercept_fn f (hw_alpha (rra_def s ! hi))
                                            (scratch_get sc h1) (season m) h1\<rparr>;
                            coefs = coefs\<lparr>hw_slope := slope_fn f (hw_beta (rra_def s ! hi)) coefs\<rparr>
                        in coefs\<lparr>null_count := 1\<rparr>))"
  have run: "update_hwpredict ch hi d sc f s = upd_cdp ch (\<lambda>_. scratch_set sc (fst pc) (snd pc)) s"
    unfolding update_hwpredict_def Let_def s1_def [symmetric] s1(3,4) cq(1) [symmetric] sea s1(1) up
      pc_def split_beta ..
  have h1: "hw_intercept h1 = hw_intercept h" "hw_slope h1 = hw_slope h" "null_count h1 = null_count h"
    "hw_last_intercept h1 = hw_intercept h" "hw_last_slope h1 = hw_slope h" "last_null_count h1 = null_count h"
    by (simp_all add: h1_def)
  have p: "fst pc = hw_prediction f m"
    using tr by (auto simp: pc_def h1 ml hw_prediction_def predict_nan)
  have c: "let m' = hw_train f (hw_alpha (rra_def s ! hi)) (hw_beta (rra_def s ! hi)) (scratch_get sc h) m
     in hw_intercept (snd pc) = level m' \<and> hw_slope (snd pc) = trend m' \<and> null_count (snd pc) = gap m'"
    using tr by (simp add: pc_def h1 x ic sl ml hw_train_def Let_def)
  have l: "hw_last_intercept (snd pc) = level m \<and> hw_last_slope (snd pc) = trend m \<and> last_null_count (snd pc) = gap m"
    using tr by (simp add: pc_def h1 ml Let_def)
  show ?thesis
    by (rule exI [of _ "scratch_set sc (fst pc) (snd pc)"]) (use run p c l in \<open>simp add: Let_def flip: h_def\<close>)
qed

text \<open>One SEASONAL update: the level comes from the archive that was updated before, or is recomputed.\<close>

lemma update_seasonal_trained:
  assumes cq: "cq < length (cdp_prep s)"
    and ch: "ch = dependent_rra_idx (rra_def s ! qi) * dscnt s + d" "ch \<noteq> cq"
    and season: "season m = hw_seasonal (cdp_prep s ! cq)"
    and x: "x = scratch_get sc (cdp_prep s ! cq)"
    and known: "\<not> isnan (level m)" "\<not> isnan (trend m)"
    and alpha: "alpha = hw_alpha (rra_def s ! dependent_rra_idx (rra_def s ! qi))"
    and coefs: "if dependent_rra_idx (rra_def s ! qi) < qi
      then hw_last_intercept (cdp_prep s ! ch) = level m \<and> hw_last_slope (cdp_prep s ! ch) = trend m \<and>
           hw_intercept (cdp_prep s ! ch) = level (hw_train f alpha beta x m)
      else hw_intercept (cdp_prep s ! ch) = level m \<and> hw_slope (cdp_prep s ! ch) = trend m \<and>
           null_count (cdp_prep s ! ch) = gap m"
  shows "\<exists>c. update_seasonal cq qi d sc coef f s = upd_cdp cq (\<lambda>_. c) s \<and>
    scratch_get sc c = hw_season f alpha (seasonal_gamma (rra_def s ! qi)) x m \<and>
    hw_seasonal c = coef ! d \<and> hw_last_seasonal c = season m"
proof -
  define q1 where "q1 = (cdp_prep s ! cq)\<lparr>hw_last_intercept := season m, hw_intercept := coef ! d\<rparr>"
  define h where "h = cdp_prep s ! ch"
  define dep where "dep = dependent_rra_idx (rra_def s ! qi)"
  define gam where "gam = seasonal_gamma (rra_def s ! qi)"
  define s1 where "s1 = upd_cdp cq (\<lambda>c. c\<lparr>hw_last_intercept := season m, hw_intercept := coef ! d\<rparr>) s"
  have s1: "cdp_prep s1 ! cq = q1" "cdp_prep s1 ! ch = h"
    using cq ch(2) by (simp_all add: s1_def q1_def h_def upd_cdp_def)
  have up: "upd_cdp cq (scratch_set sc v) s1 = upd_cdp cq (\<lambda>_. scratch_set sc v q1) s" for v
    using s1(1) cq by (simp add: s1_def upd_cdp_def q1_def)
  have obs: "scratch_get sc q1 = x" by (simp add: q1_def x)
  define v where "v =
     (if isnan x then season m
      else if dep < qi then
        (if isnan (hw_last_intercept h) \<or> isnan (hw_last_slope h) then NaN
         else if isnan (season m) then init_seasonality f x (hw_last_intercept h)
         else seasonality f gam x (hw_intercept h) (season m))
      else
        (if isnan (hw_intercept h) \<or> isnan (hw_slope h) then identity f
         else if isnan (season m) then init_seasonality f x (hw_intercept h)
         else seasonality f gam x (intercept_fn f alpha x (season m) h) (season m)))"
  have run: "update_seasonal cq qi d sc coef f s = upd_cdp cq (\<lambda>_. scratch_set sc v q1) s"
    unfolding update_seasonal_def Let_def season [symmetric] s1_def [symmetric] s1(1) obs
      ch(1) [symmetric] s1(2) up v_def dep_def gam_def alpha [symmetric] by simp
  have ic: "intercept_fn f alpha x (season m) h = intercept_fn f alpha x (season m) (hw_coefs m 0)" if "\<not> dep < qi"
    using coefs that by (intro intercept_cong) (simp_all add: h_def dep_def hw_coefs_def)
  have lv: "level (hw_train f alpha beta x m) = intercept_fn f alpha x (season m) (hw_coefs m 0)"
    if "\<not> isnan x" "\<not> isnan (season m)" using that by (simp add: hw_train_def Let_def)
  have "v = hw_season f alpha gam x m"
  proof (cases "dep < qi")
    case True
    then show ?thesis using known coefs lv by (simp add: v_def hw_season_def h_def dep_def)
  next
    case False
    then show ?thesis using known coefs ic by (simp add: v_def hw_season_def h_def dep_def)
  qed
  then show ?thesis
    by (intro exI [of _ "scratch_set sc v q1"]) (simp add: run q1_def gam_def)
qed

lemma hw_pair_update_post:
  assumes wf: "length (cdp_prep s) = rracnt s * dscnt s" and i: "hi < rracnt s" "qi < rracnt s" "hi \<noteq> qi" "d < dscnt s"
    and dep: "dependent_rra_idx (rra_def s ! hi) = qi" "dependent_rra_idx (rra_def s ! qi) = hi"
    and ix: "ch = hi * dscnt s + d" "cq = qi * dscnt s + d"
    and x: "scratch_get sc (cdp_prep s ! ch) = x" "scratch_get sc (cdp_prep s ! cq) = x"
    and m: "m = hw_abs (cdp_prep s ! ch) (cdp_prep s ! cq)"
    and known: "\<not> isnan (level m)" "\<not> isnan (trend m)"
    and t: "t = hw_pair_update f hi qi d sc coef s"
  shows "hw_step_post f (rra_def s ! hi) (rra_def s ! qi) sc x (coef ! d) m (cdp_prep t ! ch) (cdp_prep t ! cq)"
proof -
  have len: "ch < length (cdp_prep s)" "cq < length (cdp_prep s)"
    using block_index_less i wf by (simp_all add: ix)
  have ne: "cq \<noteq> ch"
  proof
    assume "cq = ch"
    then have "cq div dscnt s = ch div dscnt s" by simp
    then show False using i by (simp add: ix)
  qed
  have ms: "level m = hw_intercept (cdp_prep s ! ch)" "trend m = hw_slope (cdp_prep s ! ch)"
    "gap m = null_count (cdp_prep s ! ch)" "season m = hw_seasonal (cdp_prep s ! cq)"
    by (simp_all add: m hw_abs_def)
  have abs: "hw_state.level (hw_train f a b y m) = l \<Longrightarrow> trend (hw_train f a b y m) = tr \<Longrightarrow> gap (hw_train f a b y m) = g
      \<Longrightarrow> (hw_train f a b y m)\<lparr>season := n\<rparr> = \<lparr>level = l, trend = tr, gap = g, season = n\<rparr>" for a b y l tr g n
    by (cases "hw_train f a b y m") simp
  show ?thesis
  proof (cases "hi < qi")
    case True
    obtain c where c: "update_hwpredict ch hi d sc f s = upd_cdp ch (\<lambda>_. c) s"
      "scratch_get sc c = hw_prediction f m"
      "let m' = hw_train f (hw_alpha (rra_def s ! hi)) (hw_beta (rra_def s ! hi)) x m
         in hw_intercept c = level m' \<and> hw_slope c = trend m' \<and> null_count c = gap m'"
      "hw_last_intercept c = level m" "hw_last_slope c = trend m" "last_null_count c = gap m"
      using update_hwpredict_trained [OF len(1), of cq hi d m sc] known ne dep ix True ms x(1) m
      by (auto simp: hw_abs_def)
    define s1 where "s1 = upd_cdp ch (\<lambda>_. c) s"
    have s1: "cdp_prep s1 ! ch = c" "cdp_prep s1 ! cq = cdp_prep s ! cq"
      using len ne by (simp_all add: s1_def upd_cdp_def)
    obtain e where e: "update_seasonal cq qi d sc coef f s1 = upd_cdp cq (\<lambda>_. e) s1"
      "scratch_get sc e = hw_season f (hw_alpha (rra_def s ! hi)) (seasonal_gamma (rra_def s ! qi)) x m"
      "hw_seasonal e = coef ! d" "hw_last_seasonal e = season m"
      using update_seasonal_trained [of cq s1 ch qi d m x sc "hw_alpha (rra_def s ! hi)" "hw_beta (rra_def s ! hi)" coef]
        len ne known s1 c True dep ix ms x(2) by (auto simp: s1_def Let_def)
    have "t = upd_cdp cq (\<lambda>_. e) s1"
      unfolding t hw_pair_update_def ix [symmetric] using True c(1) e(1) by (simp add: s1_def)
    then have tc: "cdp_prep t ! ch = c" "cdp_prep t ! cq = e"
      using len ne by (simp_all add: s1_def upd_cdp_def)
    show ?thesis unfolding hw_step_post_def tc using c e by (simp add: hw_abs_def Let_def abs)
  next
    case False
    obtain e where e: "update_seasonal cq qi d sc coef f s = upd_cdp cq (\<lambda>_. e) s"
      "scratch_get sc e = hw_season f (hw_alpha (rra_def s ! hi)) (seasonal_gamma (rra_def s ! qi)) x m"
      "hw_seasonal e = coef ! d" "hw_last_seasonal e = season m"
      using update_seasonal_trained [of cq s ch qi d m x sc "hw_alpha (rra_def s ! hi)" "hw_beta (rra_def s ! hi)" coef]
        len ne known False dep ix ms x(2) by auto
    define s1 where "s1 = upd_cdp cq (\<lambda>_. e) s"
    have s1: "cdp_prep s1 ! cq = e" "cdp_prep s1 ! ch = cdp_prep s ! ch" "rra_def s1 = rra_def s" "dscnt s1 = dscnt s"
      "ch < length (cdp_prep s1)"
      using len ne by (simp_all add: s1_def upd_cdp_def)
    have lt: "qi < hi" using False i(3) by simp
    obtain c where c: "update_hwpredict ch hi d sc f s1 = upd_cdp ch (\<lambda>_. c) s1"
      "scratch_get sc c = hw_prediction f m"
      "let m' = hw_train f (hw_alpha (rra_def s ! hi)) (hw_beta (rra_def s ! hi)) x m
         in hw_intercept c = level m' \<and> hw_slope c = trend m' \<and> null_count c = gap m'"
      "hw_last_intercept c = level m" "hw_last_slope c = trend m" "last_null_count c = gap m"
    proof -
      have mm: "m = \<lparr>level = hw_intercept (cdp_prep s1 ! ch), trend = hw_slope (cdp_prep s1 ! ch),
        gap = null_count (cdp_prep s1 ! ch),
        season = (if dependent_rra_idx (rra_def s1 ! hi) < hi then hw_last_seasonal (cdp_prep s1 ! cq)
                  else hw_seasonal (cdp_prep s1 ! cq))\<rparr>"
        unfolding s1 dep(1) e(4) using lt by (cases m) (simp flip: ms)
      have cq': "cq = dependent_rra_idx (rra_def s1 ! hi) * dscnt s1 + d" by (simp add: s1 dep ix)
      have k: "\<not> isnan (hw_intercept (cdp_prep s1 ! ch))" "\<not> isnan (hw_slope (cdp_prep s1 ! ch))"
        using known by (simp_all add: s1 ms)
      from update_hwpredict_trained [OF s1(5) k cq' ne mm, of sc] x(1) that show ?thesis
        unfolding s1(2,3) by blast
    qed
    have "t = upd_cdp ch (\<lambda>_. c) s1"
      unfolding t hw_pair_update_def ix [symmetric] using False c(1) e(1) by (simp add: s1_def)
    then have tc: "cdp_prep t ! ch = c" "cdp_prep t ! cq = e"
      using len ne by (simp_all add: s1_def upd_cdp_def)
    show ?thesis unfolding hw_step_post_def tc using c e by (simp add: hw_abs_def Let_def abs)
  qed
qed

end

section \<open>The violation history\<close>

lemma shift_violations_eq:
  assumes "n < length va" and "list_all (\<lambda>v. v = 0 \<or> v = 1) va" and "cnt + n < 2 ^ 16"
  shows "shift_violations (Suc n) va cnt =
    (take 1 va @ take n va @ drop (Suc n) va, cnt + nat (sum_list (take n va)))"
  using assms
proof (induction n arbitrary: va cnt)
  case 0
  then show ?case by (cases va) simp_all
next
  case (Suc n)
  define va1 where "va1 = va[Suc n := va ! n]"
  have v: "va ! n = 0 \<or> va ! n = 1" using Suc.prems by (simp add: list_all_length)
  have va1: "n < length va1" "list_all (\<lambda>v. v = 0 \<or> v = 1) va1"
    using Suc.prems(1,2) v by (auto simp: va1_def list_all_length nth_list_update)
  define cnt1 where "cnt1 = u16 (int cnt + va1 ! Suc n)"
  have c1: "cnt1 = cnt + nat (va ! n)"
    using Suc.prems(1,3) v by (auto simp: cnt1_def va1_def u16_def)
  then have "cnt1 + n < 2 ^ 16" using Suc.prems(3) v by auto
  then have IH: "shift_violations (Suc n) va1 cnt1
      = (take 1 va1 @ take n va1 @ drop (Suc n) va1, cnt1 + nat (sum_list (take n va1)))"
    using Suc.IH [OF va1] by simp
  have "take 1 va1 = take 1 va" "take n va1 = take n va" by (simp_all add: va1_def)
  moreover have "drop (Suc n) va1 = va ! n # drop (Suc (Suc n)) va"
    using Suc.prems(1) by (simp add: va1_def drop_update_swap flip: Cons_nth_drop_Suc)
  moreover have t: "take (Suc n) va = take n va @ [va ! n]"
    using Suc.prems(1) by (intro take_Suc_conv_app_nth) simp
  moreover have "0 \<le> sum_list (take n va)"
    using Suc.prems(2) by (intro sum_list_nonneg) (auto simp: list_all_iff dest!: in_set_takeD)
  ultimately show ?case using IH v by (auto simp: c1 Let_def nat_add_distrib simp flip: va1_def cnt1_def)
qed

lemma count_ones: "list_all (\<lambda>v. v = 0 \<or> v = (1::int)) xs \<Longrightarrow> sum_list xs = int (count_list xs 1)"
  by (induction xs) auto

lemma update_failures_window:
  assumes ci: "ci < length (cdp_prep s)" and va: "va = violations (cdp_prep s ! ci)"
    and w: "w = window_len (rra_def s ! ri)" "0 < w" "w \<le> 28" "w \<le> length va"
    and bits: "list_all (\<lambda>v. v = 0 \<or> v = 1) va"
    and v: "v = (if failure_violation ci ri d sc f s then 1 else 0)"
  shows "case update_failures ci ri d sc f s of (res, t) \<Rightarrow>
       take w (violations (cdp_prep t ! ci)) = v # take (w - 1) va \<and>
       res = (if count_list (v # take (w - 1) va) 1 < failure_threshold (rra_def s ! ri) then 0 else 1) \<and>
       scratch_get sc (cdp_prep t ! ci) = d_of_int res"
proof -
  obtain n where n: "w = Suc n" using w(2) by (cases w) auto
  have uw: "u16 (int w) = Suc n" using w(3) by (simp add: n u16_def)
  have vn: "nat v \<le> 1" by (simp add: v)
  have sh: "shift_violations (Suc n) va (nat v) = (take 1 va @ take n va @ drop (Suc n) va, nat v + nat (sum_list (take n va)))"
    using w(3,4) vn by (intro shift_violations_eq [OF _ bits]) (simp_all add: n)
  define va' where "va' = (take 1 va @ take n va @ drop (Suc n) va)[0 := v]"
  have va': "take w va' = v # take n va" using w(4) by (cases va) (simp_all add: va'_def n)
  have "list_all (\<lambda>v. v = 0 \<or> v = 1) (take n va)" using bits by (auto simp: list_all_iff dest: in_set_takeD)
  then have cnt: "nat v + nat (sum_list (take n va)) = count_list (v # take n va) 1"
    by (simp add: count_ones v)
  have "update_failures ci ri d sc f s = (if count_list (v # take n va) 1 < failure_threshold (rra_def s ! ri) then 0 else 1,
      upd_cdp ci (\<lambda>c. scratch_set sc (d_of_int (if count_list (v # take n va) 1 < failure_threshold (rra_def s ! ri) then 0 else 1))
        (c\<lparr>violations := va'\<rparr>)) s)"
    unfolding update_failures_def Let_def v [symmetric] va [symmetric] w(1) [symmetric] uw sh prod.case cnt va'_def ..
  then show ?thesis
    using ci va' by (simp add: n upd_cdp_nth)
qed

section \<open>Properties\<close>

text \<open>A trained model on one data source, for the witnesses.\<close>

definition demo_hw_cdp :: "dbl \<Rightarrow> dbl \<Rightarrow> dbl \<Rightarrow> cdp_prep_t" where
  "demo_hw_cdp i b x = (demo_cdp x NaN)\<lparr>hw_intercept := i, hw_slope := b, violations := [1, 0, 1, 1]\<rparr>"

definition demo_hw :: rrd where
  "demo_hw = demo_rrd\<lparr>stat_head := \<lparr>version = ''0004'', ds_cnt = 1, rra_cnt = 4, pdp_step = 300\<rparr>,
     ds_def := [ds_def demo_rrd ! 0], pdp_prep := [pdp_prep demo_rrd ! 0],
     rra_def := [(demo_rra ''HWPREDICT'' 3 1)\<lparr>par1 := Fin (1 / 2), par2 := Fin (1 / 4), dependent_rra_idx := 1\<rparr>,
                 (demo_rra ''SEASONAL'' 3 1)\<lparr>par1 := Fin (1 / 2), par2 := Fin 1, dependent_rra_idx := 0\<rparr>,
                 (demo_rra ''DEVSEASONAL'' 3 1)\<lparr>par1 := Fin (1 / 2), dependent_rra_idx := 0\<rparr>,
                 (demo_rra ''FAILURES'' 3 1)\<lparr>par1 := Fin 2, par2 := Fin 2, par4 := 3, failure_threshold := 2, dependent_rra_idx := 2\<rparr>],
     rra_ptr := [0, 0, 0, 0], rrd_value := map Fin [1, 2, 3, 3, 6, 9, 1, 1, 1, 0, 0, 0],
     cdp_prep := [demo_hw_cdp (Fin 10) (Fin 1) (Fin 14), demo_hw_cdp (Fin 2) NaN (Fin 14),
                  demo_hw_cdp (Fin 3) NaN (Fin 14), demo_hw_cdp NaN NaN (Fin 14)]\<rparr>"

lemma wf_demo_hw [simp]: "wf_rrd demo_hw"
  by (simp add: demo_hw_def demo_rrd_def wf_rrd_def demo_rra_def cf_conv_def dst_conv_def rra_total_def)

text \<open>
  C37: one update of a trained Holt-Winters model, by the pair of archives HWPREDICT (or MHWPREDICT)
  and SEASONAL that depend on each other, refines the abstract model step, in either order of the two
  archives in the file: the stored prediction, the stored seasonal coefficient, the new level, trend
  and gap count, and the saved previous values are those of the step, whichever archive is updated
  first.
\<close>

theorem hw_pair_update_refines:
  assumes "wf_rrd s" and "hi < rracnt s" "qi < rracnt s" "hi \<noteq> qi" "d < dscnt s"
    and "dependent_rra_idx (rra_def s ! hi) = qi" "dependent_rra_idx (rra_def s ! qi) = hi"
    and "hw_dep_cf hi s = Some f"
    and "scratch_get sc (cdp_prep s ! (hi * dscnt s + d)) = x" "scratch_get sc (cdp_prep s ! (qi * dscnt s + d)) = x"
    and "m = hw_abs (cdp_prep s ! (hi * dscnt s + d)) (cdp_prep s ! (qi * dscnt s + d))"
    and "\<not> isnan (level m)" "\<not> isnan (trend m)"
  shows "let t = hw_pair_update f hi qi d sc coef s
         in hw_step_post f (rra_def s ! hi) (rra_def s ! qi) sc x (coef ! d) m
              (cdp_prep t ! (hi * dscnt s + d)) (cdp_prep t ! (qi * dscnt s + d))"
  using hw_model.hw_pair_update_post [OF hw_dep_model [OF assms(8)] wf_rrdD(5) [OF assms(1)] assms(2-7) refl refl
      assms(9-13) refl]
  by (simp add: Let_def)

theorem hw_pair_update_refines_witness:
  "scratch_get CDP_primary_val
     (cdp_prep (hw_pair_update hw_additive_functions 0 1 0 CDP_primary_val [Fin 4] demo_hw) ! 0) = Fin 13"
proof -
  define m :: hw_state where "m = \<lparr>level = Fin 10, trend = Fin 1, gap = 1, season = Fin 2\<rparr>"
  have n: "rracnt demo_hw = 4" "dscnt demo_hw = 1" by (simp_all add: demo_hw_def)
  have c: "cdp_prep demo_hw ! 0 = demo_hw_cdp (Fin 10) (Fin 1) (Fin 14)"
    "cdp_prep demo_hw ! 1 = demo_hw_cdp (Fin 2) NaN (Fin 14)" by (simp_all add: demo_hw_def)
  have r: "dependent_rra_idx (rra_def demo_hw ! 0) = 1" "dependent_rra_idx (rra_def demo_hw ! 1) = 0"
    "cf_nam (rra_def demo_hw ! 0) = ''HWPREDICT''" by (simp_all add: demo_hw_def demo_rra_def)
  have f: "hw_dep_cf 0 demo_hw = Some hw_additive_functions"
    by (simp add: hw_dep_cf_def r cf_conv_def)
  have x: "scratch_get CDP_primary_val (demo_hw_cdp i b y) = y" for i b y
    by (simp add: demo_hw_cdp_def demo_cdp_def)
  have m: "m = hw_abs (demo_hw_cdp (Fin 10) (Fin 1) (Fin 14)) (demo_hw_cdp (Fin 2) NaN (Fin 14))"
    by (simp add: m_def demo_hw_cdp_def demo_cdp_def hw_abs_def)
  have "hw_prediction hw_additive_functions m = Fin 13"
    by (simp add: m_def hw_prediction_def hw_additive_functions_def hw_additive_calculate_prediction_def null_arg_def)
  moreover have "let t = hw_pair_update hw_additive_functions 0 1 0 CDP_primary_val [Fin 4] demo_hw
         in hw_step_post hw_additive_functions (rra_def demo_hw ! 0) (rra_def demo_hw ! 1) CDP_primary_val (Fin 14) ([Fin 4] ! 0) m
              (cdp_prep t ! (0 * dscnt demo_hw + 0)) (cdp_prep t ! (1 * dscnt demo_hw + 0))"
    by (rule hw_pair_update_refines [OF wf_demo_hw _ _ _ _ r(1,2) f])
      (simp_all only: n mult_1_left mult_0 mult_0_right add_0_right mult_1_right c x m [symmetric], simp_all add: m_def isnan_def)
  ultimately show ?thesis by (simp add: Let_def hw_step_post_def n)
qed

text \<open>
  The failure detector. A FAILURES update shifts the outcome of this step into the history window
  of the archive and reports a failure (1) exactly when the window, this step included, holds at least
  \<open>failure_threshold\<close> violations; an unknown observation counts as a violation as soon as the model has
  a deviation.
\<close>

theorem failures_window:
  assumes "ci < length (cdp_prep s)" and "va = violations (cdp_prep s ! ci)"
    and "w = window_len (rra_def s ! ri)" "0 < w" "w \<le> 28" "w \<le> length va"
    and "list_all (\<lambda>v. v = 0 \<or> v = 1) va"
    and "v = (if failure_violation ci ri d sc f s then 1 else 0)"
  shows "case update_failures ci ri d sc f s of (res, t) \<Rightarrow>
       take w (violations (cdp_prep t ! ci)) = v # take (w - 1) va \<and>
       res = (if count_list (v # take (w - 1) va) 1 < failure_threshold (rra_def s ! ri) then 0 else 1) \<and>
       scratch_get sc (cdp_prep t ! ci) = d_of_int res"
  by (rule update_failures_window [OF assms])

theorem failures_window_witness:
  "fst (update_failures 3 3 0 CDP_primary_val hw_additive_functions (upd_cdp 3 (\<lambda>c. c\<lparr>violations := [1, 1, 0]\<rparr>) demo_hw)) = 1"
proof -
  define s where "s = upd_cdp 3 (\<lambda>c. c\<lparr>violations := [1, 1, 0]\<rparr>) demo_hw"
  define v :: int where "v = (if failure_violation 3 3 0 CDP_primary_val hw_additive_functions s then 1 else 0)"
  have len: "3 < length (cdp_prep s)" by (simp add: s_def demo_hw_def)
  have va: "[1, 1, 0] = violations (cdp_prep s ! 3)" by (simp add: s_def demo_hw_def upd_cdp_nth)
  have w: "3 = window_len (rra_def s ! 3)" "failure_threshold (rra_def s ! 3) = 2"
    by (simp_all add: s_def demo_hw_def)
  have "case update_failures 3 3 0 CDP_primary_val hw_additive_functions s of (res, t) \<Rightarrow>
       take 3 (violations (cdp_prep t ! 3)) = v # take (3 - 1) [1, 1, 0] \<and>
       res = (if count_list (v # take (3 - 1) [1, 1, 0]) 1 < failure_threshold (rra_def s ! 3) then 0 else 1) \<and>
       scratch_get CDP_primary_val (cdp_prep t ! 3) = d_of_int res"
    by (rule failures_window [OF len va w(1) _ _ _ _ v_def]) simp_all
  then show ?thesis unfolding s_def [symmetric] by (simp add: w(2) split: prod.splits)
qed

end
