(* ===== verification/Hw_Smoother.thy ===== *)
theory Hw_Smoother
  imports Holt_Winters
begin

text \<open>
  The operations of \<open>rrd_hw.c\<close> on whole archives: \<open>apply_smoother\<close> (a moving average over a SEASONAL
  or DEVSEASONAL archive), \<open>reset_aberrant_coefficients\<close>, \<open>init_hwpredict_cdp\<close>, \<open>init_seasonal_cdp\<close>,
  and \<open>smooth_all_rras\<close> of \<open>rrd_update.c\<close>.

  The position behind the header is the first archive: the offsets the source computes with
  \<open>sizeof(live_head_t)\<close> are those of a file of version 3 or later. In such a file the flush of the
  preparation areas copies the mapped area onto itself.
\<close>

section \<open>The smoother\<close>

definition smoother_offset :: "nat \<Rightarrow> rrd \<Rightarrow> nat" where
  "smoother_offset rra_idx s =
     (let row_count = row_cnt (rra_def s ! rra_idx)
      in if atoi (version (stat_head s)) \<ge> 4
         then d_to_ulong (dfloor (seasonal_smoothing_window (rra_def s ! rra_idx) / Fin 2 * d_of_nat row_count))
         else d_to_ulong (dfloor (d_const 5 2 / Fin 2 * d_of_nat row_count)))"

text \<open>
  Reading the archive value by value. \<open>ReadNan\<close> is the early return for an uninitialised archive. A
  short read sets the error and continues with what \<open>malloc\<close> left in the buffer; the model stops
  there, with the error.
\<close>

datatype read_result = ReadAll "dbl list" | ReadNan | ReadShort

fun smoother_read :: "nat \<Rightarrow> dbl list \<Rightarrow> rrd \<Rightarrow> read_result \<times> rrd" where
  "smoother_read 0 acc s = (ReadAll acc, s)"
| "smoother_read (Suc n) acc s =
     (case rrd_read 1 s of
        ([v], s) \<Rightarrow> if isnan v then (ReadNan, s) else smoother_read n (acc @ [v]) s
      | (_, s) \<Rightarrow> (ReadShort, s))"

record smoother =
  sm_values :: "dbl list"
  sm_buffers :: "FIFOqueue list"
  working_average :: "dbl list"
  baseline :: "dbl list"

definition sm_push :: "nat \<Rightarrow> dbl \<Rightarrow> smoother \<Rightarrow> smoother" where
  "sm_push j v st = st\<lparr>sm_buffers := (sm_buffers st)[j := queue_push v (sm_buffers st ! j)]\<rparr>"

definition sm_add :: "nat \<Rightarrow> dbl \<Rightarrow> smoother \<Rightarrow> smoother" where
  "sm_add j v st = st\<lparr>working_average := (working_average st)[j := working_average st ! j + v]\<rparr>"

text \<open>The sums of the first \<open>2 * offset\<close> terms.\<close>

definition sm_fill :: "nat \<Rightarrow> nat \<Rightarrow> nat \<Rightarrow> smoother \<Rightarrow> smoother" where
  "sm_fill row_length row_count offset st =
     fold (\<lambda>i st.
        let k = MyMod (s64 (int i - int offset)) row_count
        in fold (\<lambda>j st. let v = sm_values st ! (k * row_length + j) in sm_add j v (sm_push j v st))
             [0 ..< row_length] st)
       [0 ..< 2 * offset] st"

text \<open>One value of the moving average, for one data source.\<close>

definition sm_average :: "nat \<Rightarrow> nat \<Rightarrow> nat \<Rightarrow> nat \<Rightarrow> nat \<Rightarrow> smoother \<Rightarrow> smoother" where
  "sm_average row_length row_count offset i j st =
     (let k = MyMod (int i) row_count;
          v = sm_values st ! (k * row_length + j);
          st = sm_push j v (sm_add j v st);
          k = MyMod (s64 (int i - int offset)) row_count;
          a = working_average st ! j / d_of_nat (2 * offset + 1);
          st = st\<lparr>sm_values := (sm_values st)[k * row_length + j := a],
                  baseline := (baseline st)[j := baseline st ! j + a]\<rparr>;
          (old, q) = queue_pop (sm_buffers st ! j)
      in st\<lparr>sm_buffers := (sm_buffers st)[j := q],
            working_average := (working_average st)[j := working_average st ! j - old]\<rparr>)"

definition sm_run :: "nat \<Rightarrow> nat \<Rightarrow> nat \<Rightarrow> dbl list \<Rightarrow> smoother" where
  "sm_run row_length row_count offset values =
     (let st = \<lparr>sm_values = values, sm_buffers = replicate row_length (queue_alloc (2 * offset + 1)),
                working_average = replicate row_length (Fin 0), baseline = replicate row_length (Fin 0)\<rparr>;
          st = sm_fill row_length row_count offset st;
          st = fold (\<lambda>i st. fold (\<lambda>j. sm_average row_length row_count offset i j) [0 ..< row_length] st)
                 [offset ..< row_count + offset] st
      in st\<lparr>baseline := map (\<lambda>b. b / d_of_nat row_count) (baseline st)\<rparr>)"

text \<open>The adjustment of a SEASONAL archive: the mean moves from the coefficients to the level.\<close>

definition sm_rebase :: "nat \<Rightarrow> nat \<Rightarrow> (dbl \<Rightarrow> dbl \<Rightarrow> dbl) \<Rightarrow> dbl list \<Rightarrow> dbl list \<Rightarrow> dbl list" where
  "sm_rebase row_length row_count init base values =
     fold (\<lambda>j vs. fold (\<lambda>i vs. vs[i * row_length + j := init (vs ! (i * row_length + j)) (base ! j)])
                    [0 ..< row_count] vs)
       [0 ..< row_length] values"

definition apply_smoother :: "nat \<Rightarrow> nat \<Rightarrow> rrd \<Rightarrow> (hw_error, rrd) outcome" where
  "apply_smoother rra_idx rra_start s =
     (let row_length = dscnt s;
          row_count = row_cnt (rra_def s ! rra_idx);
          offset = smoother_offset rra_idx s;
          write = (\<lambda>values s.
             andThen (map_err (\<lambda>_. SmootherSeek) (rrd_seek (int rra_start) SEEK_SET s))
               (\<lambda>s. map_err (\<lambda>_. SmootherWrite) (rrd_write values s)))
      in if offset = 0 then (None, s)
         else
           andThen (map_err (\<lambda>_. SmootherSeek) (rrd_seek (int rra_start) SEEK_SET s))
             (\<lambda>s. case smoother_read (row_length * row_count) [] s of
                    (ReadNan, s) \<Rightarrow> (None, s)
                  | (ReadShort, s) \<Rightarrow> (Some SmootherRead, s)
                  | (ReadAll values, s) \<Rightarrow>
                      (let st = sm_run row_length row_count offset values
                       in if cf_conv (cf_nam (rra_def s ! rra_idx)) = Some CF_SEASONAL
                          then (case hw_dep_cf (hw_dep_idx s rra_idx) s of
                                  None \<Rightarrow> (Some SmootherDependency, s)
                                | Some f \<Rightarrow>
                                    let values = sm_rebase row_length row_count (init_seasonality f) (baseline st) (sm_values st);
                                        s = fold (\<lambda>j. upd_cdp (hw_dep_idx s rra_idx * row_length + j)
                                                    (\<lambda>c. c\<lparr>hw_intercept := hw_intercept c + baseline st ! j\<rparr>))
                                              [0 ..< row_length] s
                                    in write values s)
                          else write (sm_values st) s)))"

text \<open>\<open>smooth_all_rras\<close> of \<open>rrd_update.c\<close>.\<close>

fun smooth_rras_from :: "nat list \<Rightarrow> nat \<Rightarrow> rrd \<Rightarrow> (hw_error, rrd) outcome" where
  "smooth_rras_from [] rra_start s = (None, s)"
| "smooth_rras_from (rra_idx # ris) rra_start s =
     andThen (if cf_conv (cf_nam (rra_def s ! rra_idx)) = Some CF_DEVSEASONAL \<or>
                 cf_conv (cf_nam (rra_def s ! rra_idx)) = Some CF_SEASONAL
              then apply_smoother rra_idx rra_start s else (None, s))
       (\<lambda>s. smooth_rras_from ris (rra_start + row_cnt (rra_def s ! rra_idx) * dscnt s) s)"

definition smooth_all_rras :: "nat \<Rightarrow> rrd \<Rightarrow> (hw_error, rrd) outcome" where
  "smooth_all_rras rra_begin s = smooth_rras_from [0 ..< rracnt s] rra_begin s"

section \<open>Resetting coefficients\<close>

definition init_hwpredict_cdp :: "cdp_prep_t \<Rightarrow> cdp_prep_t" where
  "init_hwpredict_cdp c =
     c\<lparr>hw_intercept := NaN, hw_last_intercept := NaN, hw_slope := NaN, hw_last_slope := NaN,
       null_count := 1, last_null_count := 1\<rparr>"

definition init_seasonal_cdp :: "cdp_prep_t \<Rightarrow> cdp_prep_t" where
  "init_seasonal_cdp c = c\<lparr>hw_intercept := NaN, hw_last_intercept := NaN, null_count := 1\<rparr>"

text \<open>The column of one data source of one archive, row by row.\<close>

fun reset_column :: "nat \<Rightarrow> rrd \<Rightarrow> (hw_error, rrd) outcome" where
  "reset_column 0 s = (None, s)"
| "reset_column (Suc n) s =
     andThen (map_err (\<lambda>_. ResetWrite) (rrd_write [NaN] s))
       (\<lambda>s. reset_column n (snd (rrd_seek (int (dscnt s) - 1) SEEK_CUR s)))"

definition reset_rra :: "nat \<Rightarrow> nat \<Rightarrow> nat \<Rightarrow> rrd \<Rightarrow> (hw_error, rrd) outcome" where
  "reset_rra rra_idx rra_start ds_idx s =
     (let cdp_idx = rra_idx * dscnt s + ds_idx in
      case cf_conv (cf_nam (rra_def s ! rra_idx)) of
        Some CF_HWPREDICT \<Rightarrow> (None, upd_cdp cdp_idx init_hwpredict_cdp s)
      | Some CF_MHWPREDICT \<Rightarrow> (None, upd_cdp cdp_idx init_hwpredict_cdp s)
      | Some CF_SEASONAL \<Rightarrow>
          reset_column (row_cnt (rra_def s ! rra_idx))
            (snd (rrd_seek (int (rra_start + ds_idx)) SEEK_SET
               (upd_cdp cdp_idx (\<lambda>c. c\<lparr>hw_intercept := NaN, hw_last_intercept := NaN\<rparr>) s)))
      | Some CF_DEVSEASONAL \<Rightarrow>
          reset_column (row_cnt (rra_def s ! rra_idx))
            (snd (rrd_seek (int (rra_start + ds_idx)) SEEK_SET
               (upd_cdp cdp_idx (\<lambda>c. c\<lparr>hw_intercept := NaN, hw_last_intercept := NaN\<rparr>) s)))
      | Some CF_FAILURES \<Rightarrow> (None, erase_violations cdp_idx rra_idx s)
      | _ \<Rightarrow> (None, s))"

fun reset_rras_from :: "nat list \<Rightarrow> nat \<Rightarrow> nat \<Rightarrow> rrd \<Rightarrow> (hw_error, rrd) outcome" where
  "reset_rras_from [] rra_start ds_idx s = (None, s)"
| "reset_rras_from (rra_idx # ris) rra_start ds_idx s =
     andThen (reset_rra rra_idx rra_start ds_idx s)
       (\<lambda>s. reset_rras_from ris (rra_start + row_cnt (rra_def s ! rra_idx) * dscnt s) ds_idx s)"

definition reset_aberrant_coefficients :: "nat \<Rightarrow> rrd \<Rightarrow> (hw_error, rrd) outcome" where
  "reset_aberrant_coefficients ds_idx s = reset_rras_from [0 ..< rracnt s] 0 ds_idx s"

section \<open>The wrap-around of the moving average\<close>

lemma sm_run_3_6_9: "sm_values (sm_run 1 3 1 [Fin 3, Fin 6, Fin 9]) = [Fin 6, Fin 6, Fin 7]"
  by code_simp

section \<open>Reading and writing a block\<close>

lemma rrd_write_eq:
  assumes "pos s + length buf \<le> length (rrd_value s)"
  shows "rrd_write buf s = (None, s\<lparr>rrd_value := put_row (pos s) buf (rrd_value s), pos := pos s + length buf\<rparr>)"
  using assms by (cases "buf = []") (simp_all add: rrd_write_def put_row_def Let_def)

lemma rrd_read_one:
  "pos s < length (rrd_value s) \<Longrightarrow> rrd_read 1 s = ([rrd_value s ! pos s], s\<lparr>pos := Suc (pos s)\<rparr>)"
  by (simp add: rrd_read_def Let_def take_Suc_conv_app_nth hd_drop_conv_nth take_Suc)

lemma smoother_read_cases:
  assumes "pos s + n \<le> length (rrd_value s)"
  shows "smoother_read n acc s = (ReadAll (acc @ take n (drop (pos s) (rrd_value s))), s\<lparr>pos := pos s + n\<rparr>) \<and>
           NaN \<notin> set (take n (drop (pos s) (rrd_value s))) \<or>
         (\<exists>p. smoother_read n acc s = (ReadNan, s\<lparr>pos := p\<rparr>)) \<and>
           NaN \<in> set (take n (drop (pos s) (rrd_value s)))"
  using assms
proof (induction n arbitrary: acc s)
  case 0
  then show ?case by simp
next
  case (Suc n)
  define v where "v = rrd_value s ! pos s"
  have p: "pos s < length (rrd_value s)" using Suc.prems by simp
  have tk: "take (Suc n) (drop (pos s) (rrd_value s)) = v # take n (drop (Suc (pos s)) (rrd_value s))"
    using p by (simp add: v_def flip: Cons_nth_drop_Suc)
  show ?case
  proof (cases "isnan v")
    case True
    then show ?thesis unfolding tk using rrd_read_one [OF p]
      by (intro disjI2 conjI exI [of _ "Suc (pos s)"]) (simp_all add: v_def isnan_def)
  next
    case False
    define s1 where "s1 = s\<lparr>pos := Suc (pos s)\<rparr>"
    have run: "smoother_read (Suc n) acc s = smoother_read n (acc @ [v]) s1"
      using rrd_read_one [OF p] False by (simp add: v_def s1_def)
    have s1: "rrd_value s1 = rrd_value s" "pos s1 = Suc (pos s)" "s1\<lparr>pos := q\<rparr> = s\<lparr>pos := q\<rparr>" for q
      by (simp_all add: s1_def)
    from Suc.IH [of s1 "acc @ [v]"] Suc.prems False show ?thesis
      unfolding run tk by (auto simp: s1 isnan_def)
  qed
qed

lemma sm_values_length: "length (sm_values (sm_run rl rc off vs)) = length vs"
proof -
  have push: "length (sm_values (sm_push j v st)) = length (sm_values st)"
    and add: "length (sm_values (sm_add j v st)) = length (sm_values st)" for j v st
    by (simp_all add: sm_push_def sm_add_def)
  have fold: "length (sm_values (fold g xs st)) = length (sm_values st)"
    if "\<And>x st. length (sm_values (g x st)) = length (sm_values st)" for g :: "nat \<Rightarrow> smoother \<Rightarrow> smoother" and xs st
    using that by (induction xs arbitrary: st) simp_all
  have fill: "length (sm_values (sm_fill rl rc off st)) = length (sm_values st)" for st
    unfolding sm_fill_def Let_def by (intro fold) (simp add: push add)
  have avg: "length (sm_values (sm_average rl rc off i j st)) = length (sm_values st)" for i j st
    by (simp add: sm_average_def Let_def split_beta push add)
  show ?thesis unfolding sm_run_def Let_def by (simp add: fold avg fill)
qed

lemma sm_rebase_length [simp]: "length (sm_rebase rl rc g b vs) = length vs"
proof -
  have fold: "length (fold h xs ws) = length ws" if "\<And>x ws. length (h x ws) = length ws"
    for h :: "nat \<Rightarrow> dbl list \<Rightarrow> dbl list" and xs ws
    using that by (induction xs arbitrary: ws) simp_all
  show ?thesis unfolding sm_rebase_def by (intro fold) simp
qed

text \<open>A block of the size of archive \<open>i\<close> at its place leaves every other archive alone.\<close>

lemma rra_rows_put_block:
  assumes wf: "wf_rrd s" and i: "i < rracnt s" and j: "j < rracnt s" "j \<noteq> i"
    and len: "length vs = dscnt s * row_cnt (rra_def s ! i)"
    and t: "rrd_value t = put_row (rra_off s i) vs (rrd_value s)" "rra_def t = rra_def s" "stat_head t = stat_head s"
  shows "rra_rows t j = rra_rows s j"
proof -
  note L = wf_rrdD(3) [OF wf]
  have fit: "rra_off s i + length vs \<le> length (rrd_value s)"
    using rra_off_end [OF wf i] len by (simp add: mult.commute)
  have off: "rra_off t j = rra_off s j" using t by (simp add: rra_off_def)
  have cell: "rra_cell t j r d = rra_cell s j r d" if r: "r < row_cnt (rra_def s ! j)" and d: "d < dscnt s" for r d
  proof -
    define k where "k = rra_off s j + r * dscnt s + d"
    have k: "rra_off s j \<le> k" "k < rra_off s j + row_cnt (rra_def s ! j) * dscnt s"
      using cell_index_bounds [OF r d] by (simp_all add: k_def)
    have "k < rra_off s i \<or> rra_off s i + length vs \<le> k"
    proof (cases "j < i")
      case True
      then show ?thesis using rra_off_mono [OF True, of s] i L k by simp
    next
      case False
      then have "i < j" using j by simp
      then show ?thesis using rra_off_mono [of i j s] j L k len by (simp add: mult.commute)
    qed
    moreover have "k < length (rrd_value s)" using k rra_off_end [OF wf j(1)] by simp
    ultimately show ?thesis
      using nth_put_row [OF fit] by (simp add: rra_cell_def off t flip: k_def)
  qed
  have "dscnt t = dscnt s" using t by simp
  then show ?thesis unfolding rra_rows_def t(2) by (intro map_cong refl) (auto intro!: map_cong cell)
qed

section \<open>What the smoother may change\<close>

definition smooth_frame :: "nat \<Rightarrow> rrd \<Rightarrow> rrd \<Rightarrow> bool" where
  "smooth_frame i s t \<longleftrightarrow>
     same_layout s t \<and> rra_ptr t = rra_ptr s \<and> pdp_prep t = pdp_prep s \<and> live_head t = live_head s \<and>
     legacy_last_up t = legacy_last_up s \<and> pcdp_summary t = pcdp_summary s \<and>
     (\<forall>j < rracnt s. j \<noteq> i \<longrightarrow> rra_rows t j = rra_rows s j)"

definition rebase_level :: "nat list \<Rightarrow> nat \<Rightarrow> dbl list \<Rightarrow> rrd \<Rightarrow> rrd" where
  "rebase_level js k base s = fold (\<lambda>j. upd_cdp (k + j) (\<lambda>c. c\<lparr>hw_intercept := hw_intercept c + base ! j\<rparr>)) js s"

lemma rebase_level_frame:
  "stat_head (rebase_level js k b s) = stat_head s \<and> rra_def (rebase_level js k b s) = rra_def s \<and>
   ds_def (rebase_level js k b s) = ds_def s \<and> rra_ptr (rebase_level js k b s) = rra_ptr s \<and>
   rrd_value (rebase_level js k b s) = rrd_value s \<and> live_head (rebase_level js k b s) = live_head s \<and>
   pdp_prep (rebase_level js k b s) = pdp_prep s \<and> length (cdp_prep (rebase_level js k b s)) = length (cdp_prep s) \<and>
   legacy_last_up (rebase_level js k b s) = legacy_last_up s \<and> pcdp_summary (rebase_level js k b s) = pcdp_summary s"
proof (induction js arbitrary: s)
  case (Cons j js)
  show ?case using Cons [of "upd_cdp (k + j) (\<lambda>c. c\<lparr>hw_intercept := hw_intercept c + b ! j\<rparr>) s"]
    by (simp add: rebase_level_def)
qed (simp add: rebase_level_def)

lemma smooth_frame_write:
  assumes wf: "wf_rrd s" and i: "i < rracnt s" and len: "length vs = dscnt s * row_cnt (rra_def s ! i)"
    and u: "u = rebase_level js k b (s\<lparr>pos := p\<rparr>)"
  shows "\<exists>t. andThen (map_err (\<lambda>_. SmootherSeek) (rrd_seek (int (rra_off s i)) SEEK_SET u))
       (\<lambda>s. map_err (\<lambda>_. SmootherWrite) (rrd_write vs s)) = (None, t) \<and> smooth_frame i s t"
proof -
  have uf: "stat_head u = stat_head s" "rra_def u = rra_def s" "ds_def u = ds_def s" "rra_ptr u = rra_ptr s"
    "rrd_value u = rrd_value s" "live_head u = live_head s" "pdp_prep u = pdp_prep s"
    "length (cdp_prep u) = length (cdp_prep s)" "legacy_last_up u = legacy_last_up s" "pcdp_summary u = pcdp_summary s"
    using rebase_level_frame [of js k b "s\<lparr>pos := p\<rparr>"] by (simp_all add: u)
  define t where "t = u\<lparr>rrd_value := put_row (rra_off s i) vs (rrd_value s), pos := rra_off s i + length vs\<rparr>"
  have fit: "rra_off s i + length vs \<le> length (rrd_value s)"
    using rra_off_end [OF wf i] len by (simp add: mult.commute)
  have "rrd_write vs (u\<lparr>pos := rra_off s i\<rparr>) = (None, t)"
    using fit by (subst rrd_write_eq) (simp_all add: t_def uf)
  moreover have "rra_rows t j = rra_rows s j" if "j < rracnt s" "j \<noteq> i" for j
    using rra_rows_put_block [OF wf i that len, of t] by (simp add: t_def uf)
  ultimately show ?thesis
    using fit by (intro exI [of _ t]) (simp add: rrd_seek_nat smooth_frame_def same_layout_def t_def uf)
qed

lemma hw_dep_pos: "hw_dep_cf k (s\<lparr>pos := p\<rparr>) = hw_dep_cf k s" "hw_dep_idx (s\<lparr>pos := p\<rparr>) k = hw_dep_idx s k"
  by (simp_all add: hw_dep_cf_def hw_dep_idx_def)

lemma smooth_frame_refl: "smooth_frame i s (s\<lparr>pos := p\<rparr>)"
  using rra_rows_cong [of "s\<lparr>pos := p\<rparr>" s] by (simp add: smooth_frame_def same_layout_def)

lemma apply_smoother_post:
  assumes wf: "wf_rrd s" and i: "i < rracnt s"
    and dep: "cf_conv (cf_nam (rra_def s ! i)) = Some CF_SEASONAL \<Longrightarrow> hw_dep_cf (hw_dep_idx s i) s \<noteq> None"
  shows "\<exists>t. apply_smoother i (rra_off s i) s = (None, t) \<and> smooth_frame i s t \<and>
    (smoother_offset i s = 0 \<or> NaN \<in> set (concat (rra_rows s i)) \<longrightarrow> (\<exists>p. t = s\<lparr>pos := p\<rparr>))"
proof (cases "smoother_offset i s = 0")
  case True
  then show ?thesis using smooth_frame_refl [of i s "pos s"]
    by (intro exI [of _ s] conjI impI exI [of _ "pos s"]) (simp_all add: apply_smoother_def)
next
  case off: False
  define n where "n = dscnt s * row_cnt (rra_def s ! i)"
  define s1 where "s1 = s\<lparr>pos := rra_off s i\<rparr>"
  define vs where "vs = take n (drop (rra_off s i) (rrd_value s))"
  have fit: "rra_off s i + n \<le> length (rrd_value s)" using rra_off_end [OF wf i] by (simp add: n_def mult.commute)
  have len: "length vs = n" using fit by (simp add: vs_def)
  have rd: "smoother_read n [] s1 = (ReadAll vs, s\<lparr>pos := rra_off s i + n\<rparr>) \<and> NaN \<notin> set vs \<or>
      (\<exists>p. smoother_read n [] s1 = (ReadNan, s\<lparr>pos := p\<rparr>)) \<and> NaN \<in> set vs"
    using smoother_read_cases [of s1 n "[]"] fit by (simp add: s1_def vs_def)
  have nan: "NaN \<in> set (concat (rra_rows s i)) \<longleftrightarrow> NaN \<in> set vs"
  proof -
    have blk: "length x = dscnt s" if "x \<in> set (rra_rows s i)" for x using that by (auto simp: rra_rows_def)
    have "concat (rra_rows s i) = vs"
    proof (rule nth_equalityI)
      show l: "length (concat (rra_rows s i)) = length vs"
        using blk by (subst length_concat_blocks [where w = "dscnt s"]) (simp_all add: len n_def mult.commute)
      fix k assume "k < length (concat (rra_rows s i))"
      then have k: "k < row_cnt (rra_def s ! i) * dscnt s" using l len by (simp add: n_def mult.commute)
      note dm = div_mod_block [OF k]
      have "concat (rra_rows s i) ! k = rra_rows s i ! (k div dscnt s) ! (k mod dscnt s)"
        using nth_concat_blocks [of "rra_rows s i" "dscnt s" "k div dscnt s" "k mod dscnt s"] blk dm by simp
      also have "\<dots> = rrd_value s ! (rra_off s i + k)"
        using dm by (simp add: rra_rows_def rra_cell_def add.assoc)
      finally show "concat (rra_rows s i) ! k = vs ! k" using k fit by (simp add: vs_def n_def mult.commute)
    qed
    then show ?thesis by simp
  qed
  have run: "apply_smoother i (rra_off s i) s =
      (case smoother_read n [] s1 of
         (ReadNan, s) \<Rightarrow> (None, s) | (ReadShort, s) \<Rightarrow> (Some SmootherRead, s)
       | (ReadAll values, s') \<Rightarrow> apply_smoother i (rra_off s i) s)"
    using off by (simp add: apply_smoother_def Let_def rrd_seek_nat n_def s1_def
        split: prod.splits read_result.splits)
  show ?thesis
  proof (cases "NaN \<in> set vs")
    case True
    then obtain p where "smoother_read n [] s1 = (ReadNan, s\<lparr>pos := p\<rparr>)" using rd by blast
    with run smooth_frame_refl [of i s p] show ?thesis by auto
  next
    case False
    then have rd': "smoother_read n [] s1 = (ReadAll vs, s\<lparr>pos := rra_off s i + n\<rparr>)" using rd by blast
    define st where "st = sm_run (dscnt s) (row_cnt (rra_def s ! i)) (smoother_offset i s) vs"
    have lst: "length (sm_values st) = dscnt s * row_cnt (rra_def s ! i)"
      by (simp add: st_def sm_values_length len n_def)
    define w where "w = (\<lambda>values u. andThen (map_err (\<lambda>_. SmootherSeek) (rrd_seek (int (rra_off s i)) SEEK_SET u))
               (\<lambda>s. map_err (\<lambda>_. SmootherWrite) (rrd_write values s)))"
    have sm: "apply_smoother i (rra_off s i) s =
      (if cf_conv (cf_nam (rra_def s ! i)) = Some CF_SEASONAL
       then case hw_dep_cf (hw_dep_idx s i) s of None \<Rightarrow> (Some SmootherDependency, s\<lparr>pos := rra_off s i + n\<rparr>)
          | Some f \<Rightarrow> w (sm_rebase (dscnt s) (row_cnt (rra_def s ! i)) (init_seasonality f) (baseline st) (sm_values st))
                (rebase_level [0 ..< dscnt s] (hw_dep_idx s i * dscnt s) (baseline st) (s\<lparr>pos := rra_off s i + n\<rparr>))
       else w (sm_values st) (s\<lparr>pos := rra_off s i + n\<rparr>))"
      using off rd' by (cases "hw_dep_cf (hw_dep_idx s i) s")
        (simp_all add: apply_smoother_def Let_def rrd_seek_nat w_def st_def rebase_level_def
          hw_dep_pos flip: s1_def n_def)
    have "\<exists>t. apply_smoother i (rra_off s i) s = (None, t) \<and> smooth_frame i s t"
    proof (cases "cf_conv (cf_nam (rra_def s ! i)) = Some CF_SEASONAL")
      case True
      then obtain f where "hw_dep_cf (hw_dep_idx s i) s = Some f" using dep by auto
      then show ?thesis using True lst unfolding sm w_def by (simp add: smooth_frame_write [OF wf i])
    next
      case False
      have "s\<lparr>pos := rra_off s i + n\<rparr> = rebase_level [] 0 [] (s\<lparr>pos := rra_off s i + n\<rparr>)"
        by (simp add: rebase_level_def)
      from smooth_frame_write [OF wf i lst this] show ?thesis using False unfolding sm w_def by simp
    qed
    then show ?thesis using off False nan by auto
  qed
qed

section \<open>Smoothing all archives\<close>

definition is_seasonal :: "rrd \<Rightarrow> nat \<Rightarrow> bool" where
  "is_seasonal s i \<longleftrightarrow> cf_conv (cf_nam (rra_def s ! i)) = Some CF_DEVSEASONAL \<or>
     cf_conv (cf_nam (rra_def s ! i)) = Some CF_SEASONAL"

text \<open>Every SEASONAL archive depends on a HWPREDICT or MHWPREDICT archive.\<close>

definition seasonal_deps :: "rrd \<Rightarrow> bool" where
  "seasonal_deps s \<longleftrightarrow> (\<forall>i < rracnt s. cf_conv (cf_nam (rra_def s ! i)) = Some CF_SEASONAL \<longrightarrow>
     hw_dep_cf (hw_dep_idx s i) s \<noteq> None)"

lemma seasonal_deps_cong: "stat_head t = stat_head s \<Longrightarrow> rra_def t = rra_def s \<Longrightarrow> seasonal_deps t = seasonal_deps s"
  by (simp add: seasonal_deps_def hw_dep_cf_def hw_dep_idx_def)

definition smooth_all_frame :: "nat \<Rightarrow> rrd \<Rightarrow> rrd \<Rightarrow> bool" where
  "smooth_all_frame k s t \<longleftrightarrow>
     same_layout s t \<and> rra_ptr t = rra_ptr s \<and> pdp_prep t = pdp_prep s \<and> live_head t = live_head s \<and>
     legacy_last_up t = legacy_last_up s \<and> pcdp_summary t = pcdp_summary s \<and>
     (\<forall>j < rracnt s. j < k \<or> \<not> is_seasonal s j \<longrightarrow> rra_rows t j = rra_rows s j)"

lemma wf_same_ptr: "wf_rrd s \<Longrightarrow> same_layout s t \<Longrightarrow> rra_ptr t = rra_ptr s \<Longrightarrow> wf_rrd t"
  by (rule wf_same_layout) (auto simp: wf_rrd_def same_layout_def)

lemma rra_off_layout: "same_layout s t \<Longrightarrow> rra_off t i = rra_off s i"
  by (simp add: rra_off_def same_layout_def)

lemma smooth_rras_from_post:
  assumes "wf_rrd s" and "k \<le> rracnt s" and "seasonal_deps s"
  shows "\<exists>t. smooth_rras_from [k ..< rracnt s] (rra_off s k) s = (None, t) \<and> smooth_all_frame k s t"
  using assms
proof (induction "rracnt s - k" arbitrary: k s)
  case 0
  then show ?case by (simp add: smooth_all_frame_def)
next
  case (Suc m)
  then have k: "k < rracnt s" and wf: "wf_rrd s" by simp_all
  obtain t where t: "(if is_seasonal s k then apply_smoother k (rra_off s k) s else (None, s)) = (None, t)"
    and fr: "smooth_frame k s t" and same: "\<not> is_seasonal s k \<Longrightarrow> t = s"
  proof (cases "is_seasonal s k")
    case True
    then show thesis using apply_smoother_post [OF wf k] Suc.prems(3) k that by (auto simp: seasonal_deps_def)
  next
    case False
    then show thesis using smooth_frame_refl [of k s "pos s"] that by simp
  qed
  have L: "same_layout s t" "rra_ptr t = rra_ptr s" using fr by (simp_all add: smooth_frame_def)
  then have st: "stat_head t = stat_head s" "rra_def t = rra_def s" by (simp_all add: same_layout_def)
  have wft: "wf_rrd t" using wf_same_ptr [OF wf L] .
  have off: "rra_off s k + row_cnt (rra_def t ! k) * dscnt t = rra_off t (Suc k)"
    using rra_off_Suc [of k t] k wf_rrdD(3) [OF wft] st by (simp add: rra_off_layout [OF L(1)])
  have "[k ..< rracnt s] = k # [Suc k ..< rracnt t]" using k st by (simp add: upt_conv_Cons)
  then have run: "smooth_rras_from [k ..< rracnt s] (rra_off s k) s =
      smooth_rras_from [Suc k ..< rracnt t] (rra_off t (Suc k)) t"
    using t off by (simp add: is_seasonal_def)
  obtain u where u: "smooth_rras_from [Suc k ..< rracnt t] (rra_off t (Suc k)) t = (None, u)" "smooth_all_frame (Suc k) t u"
  proof -
    have "m = rracnt t - Suc k" "Suc k \<le> rracnt t" "seasonal_deps t"
      using Suc.hyps(2) k st seasonal_deps_cong [OF st] Suc.prems(3) by simp_all
    from Suc.hyps(1) [OF this(1) wft this(2,3)] that show ?thesis by blast
  qed
  have sea: "is_seasonal t j = is_seasonal s j" for j by (simp add: is_seasonal_def st)
  have rows: "rra_rows u j = rra_rows s j" if "j < rracnt s" "j < k \<or> \<not> is_seasonal s j" for j
  proof -
    have "rra_rows u j = rra_rows t j" using u(2) that st sea by (auto simp: smooth_all_frame_def)
    also have "\<dots> = rra_rows s j" using fr same that by (cases "j = k") (auto simp: smooth_frame_def)
    finally show ?thesis .
  qed
  have "smooth_all_frame k s u"
    using u(2) fr rows same_layout_trans [OF L(1)] by (simp add: smooth_all_frame_def smooth_frame_def)
  then show ?case using run u(1) by simp
qed

section \<open>Resetting a column\<close>

lemma reset_column_eq:
  assumes "0 < dscnt s" and "n = 0 \<or> pos s + (n - 1) * dscnt s < length (rrd_value s)"
  shows "\<exists>t. reset_column n s = (None, t) \<and>
    store_only s t \<and> rra_ptr t = rra_ptr s \<and>
    (\<forall>k < length (rrd_value s). rrd_value t ! k =
       (if \<exists>r < n. k = pos s + r * dscnt s then NaN else rrd_value s ! k))"
  using assms
proof (induction n arbitrary: s)
  case 0
  then show ?case by simp
next
  case (Suc n)
  define w where "w = dscnt s"
  have p: "pos s < length (rrd_value s)" using Suc.prems(2) by (cases n) simp_all
  define s1 where "s1 = s\<lparr>rrd_value := (rrd_value s)[pos s := NaN], pos := pos s + w\<rparr>"
  have run: "reset_column (Suc n) s = reset_column n s1"
    using p Suc.prems(1)
    by (simp add: rrd_write_def s1_def w_def rrd_seek_def upd_conv_take_nth_drop nat_add_distrib of_nat_diff)
  have w1: "dscnt s1 = w" "pos s1 = pos s + w" "length (rrd_value s1) = length (rrd_value s)"
    by (simp_all add: s1_def w_def)
  have "0 < dscnt s1" "n = 0 \<or> pos s1 + (n - 1) * dscnt s1 < length (rrd_value s1)"
    using Suc.prems w1 by (auto simp: w_def algebra_simps) (cases n; simp add: algebra_simps)+
  from Suc.IH [OF this] obtain t where t: "reset_column n s1 = (None, t)" "store_only s1 t" "rra_ptr t = rra_ptr s1"
    "\<forall>k < length (rrd_value s1). rrd_value t ! k =
       (if \<exists>r < n. k = pos s1 + r * dscnt s1 then NaN else rrd_value s1 ! k)" by blast
  have "rrd_value t ! k = (if \<exists>r < Suc n. k = pos s + r * w then NaN else rrd_value s ! k)"
    if k: "k < length (rrd_value s)" for k
  proof -
    have "(\<exists>r < Suc n. k = pos s + r * w) \<longleftrightarrow> k = pos s \<or> (\<exists>r < n. k = pos s1 + r * w)"
      unfolding w1(2) by (auto simp: less_Suc_eq_0_disj)
    moreover have "rrd_value s1 ! k = (if k = pos s then NaN else rrd_value s ! k)"
      using k by (simp add: s1_def nth_list_update)
    ultimately show ?thesis using t(4) k w1 by auto
  qed
  moreover have "store_only s t" using t(2) by (simp add: store_only_def s1_def)
  ultimately show ?case using run t(1,3) by (simp add: w_def s1_def)
qed

text \<open>A place of the file is the cell of one archive, row and data source only.\<close>

lemma cell_index_inj:
  assumes "i < length (rra_def s)" "j < length (rra_def s)"
    and "r < row_cnt (rra_def s ! i)" "q < row_cnt (rra_def s ! j)" "d < dscnt s" "e < dscnt s"
    and eq: "rra_off s i + r * dscnt s + d = rra_off s j + q * dscnt s + e"
  shows "i = j \<and> r = q \<and> d = e"
proof -
  have ij: "i = j \<and> r = q"
    using cells_disjoint [OF assms(1-4,6)] eq assms(5) by linarith
  then show ?thesis using eq by simp
qed

definition cells_reset :: "nat \<Rightarrow> (nat \<Rightarrow> bool) \<Rightarrow> rrd \<Rightarrow> rrd \<Rightarrow> bool" where
  "cells_reset d P s t \<longleftrightarrow>
     (\<forall>j r e. j < rracnt s \<longrightarrow> r < row_cnt (rra_def s ! j) \<longrightarrow> e < dscnt s \<longrightarrow>
        rra_cell t j r e = (if P j \<and> e = d then NaN else rra_cell s j r e))"

lemma reset_rra_post:
  assumes wf: "wf_rrd s" and i: "i < rracnt s" and d: "d < dscnt s"
  shows "\<exists>t. reset_rra i (rra_off s i) d s = (None, t) \<and> same_layout s t \<and> rra_ptr t = rra_ptr s \<and>
    cells_reset d (\<lambda>j. j = i \<and> is_seasonal s i) s t"
proof (cases "is_seasonal s i")
  case True
  define s1 where "s1 = snd (rrd_seek (int (rra_off s i + d)) SEEK_SET
       (upd_cdp (i * dscnt s + d) (\<lambda>c. c\<lparr>hw_intercept := NaN, hw_last_intercept := NaN\<rparr>) s))"
  define n where "n = row_cnt (rra_def s ! i)"
  have run: "reset_rra i (rra_off s i) d s = reset_column n s1"
    using True by (auto simp: reset_rra_def is_seasonal_def s1_def n_def Let_def)
  have s1: "pos s1 = rra_off s i + d" "rrd_value s1 = rrd_value s" "dscnt s1 = dscnt s" "rra_def s1 = rra_def s"
    "stat_head s1 = stat_head s" "ds_def s1 = ds_def s" "rra_ptr s1 = rra_ptr s" "pdp_prep s1 = pdp_prep s"
    "length (cdp_prep s1) = length (cdp_prep s)"
    by (simp_all add: s1_def rrd_seek_nat del: of_nat_add)
  have n: "0 < n" using wf_rrdD(8) [OF wf i] by (simp add: n_def)
  have "pos s1 + (n - 1) * dscnt s1 < length (rrd_value s1)"
    using cell_index_bounds(2) [of "n - 1" s i d] n d rra_off_end [OF wf i] unfolding s1 by (simp add: n_def)
  then obtain t where t: "reset_column n s1 = (None, t)" "store_only s1 t" "rra_ptr t = rra_ptr s1"
    "\<forall>k < length (rrd_value s1). rrd_value t ! k =
       (if \<exists>r < n. k = pos s1 + r * dscnt s1 then NaN else rrd_value s1 ! k)"
    using reset_column_eq [of s1 n] s1 d by auto
  have lay: "same_layout s t" using store_only_layout [OF t(2)] s1 by (simp add: same_layout_def)
  have "rra_cell t j r e = (if (j = i \<and> is_seasonal s i) \<and> e = d then NaN else rra_cell s j r e)"
    if h: "j < rracnt s" "r < row_cnt (rra_def s ! j)" "e < dscnt s" for j r e
  proof -
    define k where "k = rra_off s j + r * dscnt s + e"
    have k: "k < length (rrd_value s)"
      using cell_index_bounds(2) [OF h(2,3)] rra_off_end [OF wf h(1)] by (simp add: k_def)
    have "(\<exists>q < n. k = rra_off s i + d + q * dscnt s) \<longleftrightarrow> j = i \<and> e = d"
      using cell_index_inj [of i s j _ r d e] h d i wf_rrdD(3) [OF wf] by (auto simp: k_def n_def)
    moreover have "rra_cell t j r e = rrd_value t ! k"
      using lay by (simp add: rra_cell_def rra_off_layout [OF lay] k_def) (simp add: same_layout_def)
    ultimately show ?thesis using t(4) k True by (simp add: s1 rra_cell_def flip: k_def)
  qed
  then show ?thesis using run t s1(7) lay by (auto simp: cells_reset_def)
next
  case False
  have "\<exists>g. reset_rra i (rra_off s i) d s = (None, upd_cdp (i * dscnt s + d) g s)"
  proof (cases "cf_conv (cf_nam (rra_def s ! i)) = Some CF_FAILURES")
    case True
    then show ?thesis by (auto simp: reset_rra_def erase_violations_def)
  next
    case nf: False
    have id: "upd_cdp k (\<lambda>c. c) s = s" for k by (simp add: upd_cdp_def)
    obtain c where c: "cf_conv (cf_nam (rra_def s ! i)) = Some c" using wf_rrdD(11) [OF wf i] by blast
    define g where "g = (if c = CF_HWPREDICT \<or> c = CF_MHWPREDICT then init_hwpredict_cdp else (\<lambda>c. c))"
    have "reset_rra i (rra_off s i) d s = (None, upd_cdp (i * dscnt s + d) g s)"
      using False nf c by (cases c) (simp_all add: reset_rra_def is_seasonal_def id g_def Let_def)
    then show ?thesis by blast
  qed
  then obtain g where g: "reset_rra i (rra_off s i) d s = (None, upd_cdp (i * dscnt s + d) g s)" by blast
  show ?thesis using g False
    by (simp add: same_layout_def cells_reset_def rra_cell_def rra_off_def)
qed

lemma reset_rras_from_post:
  assumes "wf_rrd s" and "k \<le> rracnt s" and "d < dscnt s"
  shows "\<exists>t. reset_rras_from [k ..< rracnt s] (rra_off s k) d s = (None, t) \<and> same_layout s t \<and> rra_ptr t = rra_ptr s \<and>
    cells_reset d (\<lambda>j. k \<le> j \<and> is_seasonal s j) s t"
  using assms
proof (induction "rracnt s - k" arbitrary: k s)
  case 0
  then show ?case by (simp add: cells_reset_def)
next
  case (Suc m)
  then have k: "k < rracnt s" and wf: "wf_rrd s" by simp_all
  obtain t where t: "reset_rra k (rra_off s k) d s = (None, t)" "same_layout s t" "rra_ptr t = rra_ptr s"
    "cells_reset d (\<lambda>j. j = k \<and> is_seasonal s k) s t"
    using reset_rra_post [OF wf k Suc.prems(3)] by blast
  have st: "stat_head t = stat_head s" "rra_def t = rra_def s" using t(2) by (simp_all add: same_layout_def)
  have wft: "wf_rrd t" using wf_same_ptr [OF wf t(2,3)] .
  have off: "rra_off s k + row_cnt (rra_def t ! k) * dscnt t = rra_off t (Suc k)"
    using rra_off_Suc [of k t] k wf_rrdD(3) [OF wft] st by (simp add: rra_off_layout [OF t(2)])
  have "[k ..< rracnt s] = k # [Suc k ..< rracnt t]" using k st by (simp add: upt_conv_Cons)
  then have run: "reset_rras_from [k ..< rracnt s] (rra_off s k) d s = reset_rras_from [Suc k ..< rracnt t] (rra_off t (Suc k)) d t"
    using t(1) off by simp
  obtain u where u: "reset_rras_from [Suc k ..< rracnt t] (rra_off t (Suc k)) d t = (None, u)" "same_layout t u"
    "rra_ptr u = rra_ptr t" "cells_reset d (\<lambda>j. Suc k \<le> j \<and> is_seasonal t j) t u"
  proof -
    have "m = rracnt t - Suc k" "Suc k \<le> rracnt t" "d < dscnt t"
      using Suc.hyps(2) k st Suc.prems(3) by simp_all
    from Suc.hyps(1) [OF this(1) wft this(2,3)] that show ?thesis by blast
  qed
  have sea: "is_seasonal t j = is_seasonal s j" for j by (simp add: is_seasonal_def st)
  have "cells_reset d (\<lambda>j. k \<le> j \<and> is_seasonal s j) s u"
    unfolding cells_reset_def
  proof (intro allI impI)
    fix j r e
    assume h: "j < rracnt s" "r < row_cnt (rra_def s ! j)" "e < dscnt s"
    have a: "rra_cell u j r e = (if (Suc k \<le> j \<and> is_seasonal s j) \<and> e = d then NaN else rra_cell t j r e)"
      using u(4) h st sea by (simp add: cells_reset_def)
    have b: "rra_cell t j r e = (if (j = k \<and> is_seasonal s k) \<and> e = d then NaN else rra_cell s j r e)"
      using t(4) h by (simp add: cells_reset_def)
    show "rra_cell u j r e = (if (k \<le> j \<and> is_seasonal s j) \<and> e = d then NaN else rra_cell s j r e)"
      unfolding a b by (auto simp: le_eq_less_or_eq)
  qed
  then show ?case using run u same_layout_trans [OF t(2) u(2)] t(3) by simp
qed

section \<open>Properties\<close>

text \<open>
  Smoothing stays inside the archive. On a well-formed database whose SEASONAL archive depends on a
  HWPREDICT or MHWPREDICT archive the smoother succeeds and keeps the database well-formed, the current
  rows and every other archive; when the window is empty or the archive still holds an unknown value it
  changes nothing but the file position.
\<close>

theorem apply_smoother_frame:
  assumes "wf_rrd s" and "i < rracnt s"
    and "cf_conv (cf_nam (rra_def s ! i)) = Some CF_SEASONAL \<longrightarrow> hw_dep_cf (hw_dep_idx s i) s \<noteq> None"
  shows "case apply_smoother i (rra_off s i) s of
           (e, t) \<Rightarrow> e = None \<and> wf_rrd t \<and> smooth_frame i s t \<and>
             (smoother_offset i s = 0 \<or> NaN \<in> set (concat (rra_rows s i)) \<longrightarrow> (\<exists>p. t = s\<lparr>pos := p\<rparr>))"
proof -
  obtain t where "apply_smoother i (rra_off s i) s = (None, t)" "smooth_frame i s t"
    "smoother_offset i s = 0 \<or> NaN \<in> set (concat (rra_rows s i)) \<longrightarrow> (\<exists>p. t = s\<lparr>pos := p\<rparr>)"
    using apply_smoother_post [OF assms(1,2)] assms(3) by blast
  moreover from this have "wf_rrd t" using wf_same_ptr [OF assms(1)] by (simp add: smooth_frame_def)
  ultimately show ?thesis by simp
qed

theorem apply_smoother_frame_witness:
  "rra_rows (snd (apply_smoother 1 (rra_off demo_hw 1) demo_hw)) 0 = [[Fin 1], [Fin 2], [Fin 3]]"
proof -
  have "rra_rows demo_hw 0 = [[Fin 1], [Fin 2], [Fin 3]]"
    by (simp add: rra_rows_def rra_cell_def rra_off_def demo_hw_def demo_rra_def rra_total_def upt_rec)
  moreover have "hw_dep_cf (hw_dep_idx demo_hw 1) demo_hw \<noteq> None" "rracnt demo_hw = 4"
    by (simp_all add: hw_dep_cf_def hw_dep_idx_def demo_hw_def demo_rra_def cf_conv_def)
  ultimately show ?thesis
    using apply_smoother_frame [of demo_hw 1] by (auto simp: smooth_frame_def split: prod.splits)
qed

text \<open>
  resetting the coefficients of a data source. On a well-formed database the reset succeeds, keeps
  the database well-formed, makes every stored seasonal coefficient and deviation of that data source
  unknown, and changes no other stored value of any archive.
\<close>

theorem reset_aberrant_coefficients_cells:
  assumes "wf_rrd s" and "d < dscnt s"
  shows "case reset_aberrant_coefficients d s of
           (e, t) \<Rightarrow> e = None \<and> wf_rrd t \<and> cells_reset d (is_seasonal s) s t"
proof -
  have "rra_off s 0 = 0" by (simp add: rra_off_def rra_total_def)
  then obtain t where t: "reset_aberrant_coefficients d s = (None, t)" "same_layout s t" "rra_ptr t = rra_ptr s"
    "cells_reset d (\<lambda>j. 0 \<le> j \<and> is_seasonal s j) s t"
    using reset_rras_from_post [OF assms(1) _ assms(2), of 0] by (auto simp: reset_aberrant_coefficients_def)
  moreover have "wf_rrd t" using wf_same_ptr [OF assms(1) t(2,3)] .
  ultimately show ?thesis by simp
qed

theorem reset_aberrant_coefficients_cells_witness:
  "rra_cell (snd (reset_aberrant_coefficients 0 demo_hw)) 1 2 0 = NaN \<and>
   rra_cell (snd (reset_aberrant_coefficients 0 demo_hw)) 0 2 0 = Fin 3"
proof -
  have "rra_cell demo_hw 0 2 0 = Fin 3"
    by (simp add: rra_cell_def rra_off_def demo_hw_def demo_rra_def rra_total_def)
  moreover have "is_seasonal demo_hw 1" "\<not> is_seasonal demo_hw 0" "rracnt demo_hw = 4" "dscnt demo_hw = 1"
    "row_cnt (rra_def demo_hw ! 0) = 3" "row_cnt (rra_def demo_hw ! 1) = 3"
    by (simp_all add: is_seasonal_def demo_hw_def demo_rra_def cf_conv_def)
  ultimately show ?thesis
    using reset_aberrant_coefficients_cells [of demo_hw 0] by (auto simp: cells_reset_def split: prod.splits)
qed

end
