(* ===== verification/Cdp.thy ===== *)
theory Cdp
  imports Hw_Smoother
begin

text \<open>
  Consolidation (\<open>rrd_update.c\<close>, \<open>update_all_cdp_prep\<close> and the functions below it, and
  \<open>update_aberrant_cdps\<close>): how the primary data points of an update are folded into the consolidated
  data point of every archive.

  The contract of a consolidation function is the locale \<open>consolidation\<close>: which prefix of the current
  window an accumulator stands for, how known values are added, and what the finished value is. Its
  client lemma shows that \<open>update_cdp\<close> cuts the stream of primary data points into windows of
  \<open>pdp_cnt\<close> and consolidates each one. It is interpreted for MAX, MIN, LAST, and for AVERAGE on integer
  values small enough for exact sums.
\<close>

section \<open>One archive, one data source\<close>

definition IFDNAN :: "dbl \<Rightarrow> dbl \<Rightarrow> dbl" where
  "IFDNAN x y = (if isnan x then y else x)"

definition initialize_cdp_val :: "cf_en \<Rightarrow> dbl \<Rightarrow> nat \<Rightarrow> nat \<Rightarrow> cdp_prep_t \<Rightarrow> cdp_prep_t" where
  "initialize_cdp_val current_cf pdp_temp_val start_pdp_offset pdps scratch =
     (case current_cf of
        CF_AVERAGE \<Rightarrow>
          (let cum_val = IFDNAN (cdp_val scratch) 0; cur_val = IFDNAN pdp_temp_val 0
           in scratch\<lparr>primary_val := (cum_val + cur_val * d_of_nat start_pdp_offset) /
                        d_of_nat (u64 (int pdps - int (unkn_pdp_cnt scratch)))\<rparr>)
      | CF_MAXIMUM \<Rightarrow>
          (let cum_val = IFDNAN (cdp_val scratch) NInf; cur_val = IFDNAN pdp_temp_val NInf
           in scratch\<lparr>primary_val := (if cum_val < cur_val then cur_val else cum_val)\<rparr>)
      | CF_MINIMUM \<Rightarrow>
          (let cum_val = IFDNAN (cdp_val scratch) PInf; cur_val = IFDNAN pdp_temp_val PInf
           in scratch\<lparr>primary_val := (if cur_val < cum_val then cur_val else cum_val)\<rparr>)
      | _ \<Rightarrow> scratch\<lparr>primary_val := pdp_temp_val\<rparr>)"

definition initialize_carry_over :: "dbl \<Rightarrow> cf_en \<Rightarrow> nat \<Rightarrow> nat \<Rightarrow> nat \<Rightarrow> dbl" where
  "initialize_carry_over pdp_temp_val current_cf elapsed_pdp_st start_pdp_offset pdps =
     (let pdp_into_cdp_cnt = (elapsed_pdp_st - start_pdp_offset) mod pdps
      in if pdp_into_cdp_cnt = 0 \<or> isnan pdp_temp_val
         then (case current_cf of CF_MAXIMUM \<Rightarrow> NInf | CF_MINIMUM \<Rightarrow> PInf | CF_AVERAGE \<Rightarrow> 0 | _ \<Rightarrow> NaN)
         else (case current_cf of CF_AVERAGE \<Rightarrow> pdp_temp_val * d_of_nat pdp_into_cdp_cnt | _ \<Rightarrow> pdp_temp_val))"

definition calculate_cdp_val :: "dbl \<Rightarrow> dbl \<Rightarrow> nat \<Rightarrow> cf_en \<Rightarrow> dbl" where
  "calculate_cdp_val cdpv pdp_temp_val elapsed_pdp_st current_cf =
     (if isnan cdpv
      then (if current_cf = CF_AVERAGE then pdp_temp_val * d_of_nat elapsed_pdp_st else pdp_temp_val)
      else if current_cf = CF_AVERAGE then cdpv + pdp_temp_val * d_of_nat elapsed_pdp_st
      else if current_cf = CF_MINIMUM then (if pdp_temp_val < cdpv then pdp_temp_val else cdpv)
      else if current_cf = CF_MAXIMUM then (if cdpv < pdp_temp_val then pdp_temp_val else cdpv)
      else pdp_temp_val)"

definition update_cdp :: "cf_en \<Rightarrow> dbl \<Rightarrow> nat \<Rightarrow> nat \<Rightarrow> nat \<Rightarrow> nat \<Rightarrow> dbl \<Rightarrow> cdp_prep_t \<Rightarrow> cdp_prep_t" where
  "update_cdp current_cf pdp_temp_val step_cnt elapsed_pdp_st start_pdp_offset pdps xff scratch =
     (if step_cnt \<noteq> 0
      then
        let scratch = (if isnan pdp_temp_val
                       then scratch\<lparr>unkn_pdp_cnt := u64 (int (unkn_pdp_cnt scratch) + int start_pdp_offset),
                                    secondary_val := NaN\<rparr>
                       else scratch\<lparr>secondary_val := pdp_temp_val\<rparr>);
            scratch = (if d_of_nat pdps * xff < d_of_nat (unkn_pdp_cnt scratch)
                       then scratch\<lparr>primary_val := NaN\<rparr>
                       else initialize_cdp_val current_cf pdp_temp_val start_pdp_offset pdps scratch);
            scratch = scratch\<lparr>cdp_val := initialize_carry_over pdp_temp_val current_cf elapsed_pdp_st
                                           start_pdp_offset pdps\<rparr>
        in scratch\<lparr>unkn_pdp_cnt := (if isnan pdp_temp_val then (elapsed_pdp_st - start_pdp_offset) mod pdps else 0)\<rparr>
      else if isnan pdp_temp_val
      then scratch\<lparr>unkn_pdp_cnt := u64 (int (unkn_pdp_cnt scratch) + int elapsed_pdp_st)\<rparr>
      else scratch\<lparr>cdp_val := calculate_cdp_val (cdp_val scratch) pdp_temp_val elapsed_pdp_st current_cf\<rparr>)"

definition reset_cdp :: "nat \<Rightarrow> dbl list \<Rightarrow> dbl list \<Rightarrow> dbl list \<Rightarrow> nat \<Rightarrow> nat \<Rightarrow> nat \<Rightarrow> cf_en \<Rightarrow> rrd \<Rightarrow> rrd" where
  "reset_cdp elapsed_pdp_st pdp_temp last_coef coef rra_idx ds_idx cdp_idx current_cf s =
     (case current_cf of
        CF_SEASONAL \<Rightarrow> upd_cdp cdp_idx (\<lambda>c. c\<lparr>hw_last_intercept := last_coef ! ds_idx, hw_intercept := coef ! ds_idx\<rparr>) s
      | CF_DEVSEASONAL \<Rightarrow> upd_cdp cdp_idx (\<lambda>c. c\<lparr>hw_last_intercept := last_coef ! ds_idx, hw_intercept := coef ! ds_idx\<rparr>) s
      | CF_HWPREDICT \<Rightarrow> upd_cdp cdp_idx (\<lambda>c. c\<lparr>null_count := u64 (int (null_count c) + int elapsed_pdp_st),
            last_null_count := u64 (int (last_null_count c) + int elapsed_pdp_st - 1), primary_val := NaN, secondary_val := NaN\<rparr>) s
      | CF_MHWPREDICT \<Rightarrow> upd_cdp cdp_idx (\<lambda>c. c\<lparr>null_count := u64 (int (null_count c) + int elapsed_pdp_st),
            last_null_count := u64 (int (last_null_count c) + int elapsed_pdp_st - 1), primary_val := NaN, secondary_val := NaN\<rparr>) s
      | CF_DEVPREDICT \<Rightarrow> upd_cdp cdp_idx (\<lambda>c. c\<lparr>primary_val := NaN, secondary_val := NaN\<rparr>) s
      | CF_FAILURES \<Rightarrow> erase_violations cdp_idx rra_idx (upd_cdp cdp_idx (\<lambda>c. c\<lparr>primary_val := 0, secondary_val := 0\<rparr>) s)
      | _ \<Rightarrow> upd_cdp cdp_idx (\<lambda>c. c\<lparr>primary_val := pdp_temp ! ds_idx, secondary_val := pdp_temp ! ds_idx\<rparr>) s)"

section \<open>All data sources, all archives\<close>

definition update_cdp_prep :: "nat \<Rightarrow> nat \<Rightarrow> nat \<Rightarrow> nat \<Rightarrow> dbl list \<Rightarrow> dbl list \<Rightarrow> dbl list \<Rightarrow> cf_en \<Rightarrow> rrd \<Rightarrow> rrd" where
  "update_cdp_prep elapsed_pdp_st start_pdp_offset step_cnt rra_idx pdp_temp last_coef coef current_cf s =
     fold (\<lambda>ds_idx s.
        let cdp_idx = rra_idx * dscnt s + ds_idx; rra = rra_def s ! rra_idx
        in if pdp_cnt rra > 1
           then upd_cdp cdp_idx (update_cdp current_cf (pdp_temp ! ds_idx) step_cnt elapsed_pdp_st start_pdp_offset
                                   (pdp_cnt rra) (cdp_xff_val rra)) s
           else if elapsed_pdp_st > 2
           then reset_cdp elapsed_pdp_st pdp_temp last_coef coef rra_idx ds_idx cdp_idx current_cf s
           else s)
       [0 ..< dscnt s] s"

definition BURNIN_CYCLES :: nat where
  "BURNIN_CYCLES = 3"

text \<open>Both branches for the schedule leave the state alone; burn-in counts in the first data source.\<close>

definition do_schedule_smooth :: "nat \<Rightarrow> nat \<Rightarrow> rrd \<Rightarrow> bool \<times> rrd" where
  "do_schedule_smooth rra_idx elapsed_pdp_st s =
     (let cdp_idx = rra_idx * dscnt s;
          cur_row = rra_ptr s ! rra_idx;
          rows = row_cnt (rra_def s ! rra_idx);
          smooth_idx = seasonal_smooth_idx (rra_def s ! rra_idx);
          init = init_seasonal (cdp_prep s ! cdp_idx)
      in if init > BURNIN_CYCLES
         then if smooth_idx > cur_row then (cur_row + elapsed_pdp_st \<ge> smooth_idx, s)
              else (cur_row + elapsed_pdp_st \<ge> rows \<and> cur_row + elapsed_pdp_st \<ge> rows + smooth_idx, s)
         else if cur_row + elapsed_pdp_st \<ge> rows
         then let init = u64 (int init + 1)
              in (init \<noteq> 0, upd_cdp cdp_idx (\<lambda>c. c\<lparr>null_count := init\<rparr>) s)
         else (False, s))"

datatype cdp_error = UnknownCF string | SeasonalError hw_error

text \<open>The arrays that \<open>process_arg\<close> passes by reference.\<close>

record cdp_ctx =
  cx_rrd :: rrd
  rra_step_cnt :: "nat list"
  skip_update :: "nat list"
  last_seasonal_coef :: "dbl list"
  seasonal_coef :: "dbl list"
  schedule_smooth :: bool

text \<open>Number of steps to the end of the current consolidation window, and rows to write.\<close>

definition start_offset :: "nat \<Rightarrow> nat \<Rightarrow> nat" where
  "start_offset proc_pdp_cnt pdps = pdps - proc_pdp_cnt mod pdps"

definition step_count :: "nat \<Rightarrow> nat \<Rightarrow> nat \<Rightarrow> nat" where
  "step_count elapsed_pdp_st start_pdp_offset pdps =
     (if start_pdp_offset \<le> elapsed_pdp_st then (elapsed_pdp_st - start_pdp_offset) div pdps + 1 else 0)"

text \<open>A failed lookup has set the error, which is tested behind both lookups.\<close>

definition seasonal_lookups :: "nat \<Rightarrow> nat \<Rightarrow> nat \<Rightarrow> cdp_ctx \<Rightarrow> (cdp_error, cdp_ctx) outcome" where
  "seasonal_lookups rra_idx rra_start elapsed_pdp_st cx =
     (let (e1, (c1, s)) = lookup_seasonal rra_idx rra_start elapsed_pdp_st (last_seasonal_coef cx, cx_rrd cx);
          (e2, (c2, s)) = lookup_seasonal rra_idx rra_start (elapsed_pdp_st + 1) (seasonal_coef cx, s)
      in (case (e1, e2) of (_, Some e) \<Rightarrow> Some (SeasonalError e) | (Some e, None) \<Rightarrow> Some (SeasonalError e) | _ \<Rightarrow> None,
          cx\<lparr>last_seasonal_coef := c1, seasonal_coef := c2, cx_rrd := s\<rparr>))"

definition cdp_prep_rra :: "nat \<Rightarrow> nat \<Rightarrow> nat \<Rightarrow> nat \<Rightarrow> dbl list \<Rightarrow> cdp_ctx \<Rightarrow> (cdp_error, cdp_ctx) outcome" where
  "cdp_prep_rra rra_idx rra_start elapsed_pdp_st proc_pdp_cnt pdp_temp cx =
     (let rra = rra_def (cx_rrd cx) ! rra_idx;
          current_cf = cf_conv (cf_nam rra);
          start_pdp_offset = start_offset proc_pdp_cnt (pdp_cnt rra);
          steps = step_count elapsed_pdp_st start_pdp_offset (pdp_cnt rra);
          cx = cx\<lparr>skip_update := (skip_update cx)[rra_idx := 0],
                  rra_step_cnt := (rra_step_cnt cx)[rra_idx := steps]\<rparr>
      in andThen
           (if current_cf = Some CF_SEASONAL \<or> current_cf = Some CF_DEVSEASONAL
            then let (e, cx) = (if steps > 1
                                then seasonal_lookups rra_idx rra_start elapsed_pdp_st
                                       (cx\<lparr>skip_update := (skip_update cx)[rra_idx := 1]\<rparr>)
                                else (None, cx));
                     (due, s) = do_schedule_smooth rra_idx elapsed_pdp_st (cx_rrd cx)
                 in (e, cx\<lparr>cx_rrd := s, schedule_smooth := schedule_smooth cx \<or> due\<rparr>)
            else (None, cx))
           (\<lambda>cx. case current_cf of
                   None \<Rightarrow> (Some (UnknownCF (cf_nam rra)), cx)
                 | Some cf \<Rightarrow>
                     (None, cx\<lparr>cx_rrd := update_cdp_prep elapsed_pdp_st start_pdp_offset steps rra_idx pdp_temp
                                           (last_seasonal_coef cx) (seasonal_coef cx) cf (cx_rrd cx)\<rparr>)))"

fun cdp_prep_from :: "nat list \<Rightarrow> nat \<Rightarrow> nat \<Rightarrow> nat \<Rightarrow> dbl list \<Rightarrow> cdp_ctx \<Rightarrow> (cdp_error, cdp_ctx) outcome" where
  "cdp_prep_from [] rra_start elapsed proc pdp_temp cx = (None, cx)"
| "cdp_prep_from (rra_idx # ris) rra_start elapsed proc pdp_temp cx =
     andThen (cdp_prep_rra rra_idx rra_start elapsed proc pdp_temp cx)
       (\<lambda>cx. cdp_prep_from ris (rra_start + row_cnt (rra_def (cx_rrd cx) ! rra_idx) * dscnt (cx_rrd cx)) elapsed proc pdp_temp cx)"

definition update_all_cdp_prep :: "nat \<Rightarrow> nat \<Rightarrow> nat \<Rightarrow> dbl list \<Rightarrow> cdp_ctx \<Rightarrow> (cdp_error, cdp_ctx) outcome" where
  "update_all_cdp_prep rra_begin elapsed_pdp_st proc_pdp_cnt pdp_temp cx =
     cdp_prep_from [0 ..< rracnt (cx_rrd cx)] rra_begin elapsed_pdp_st proc_pdp_cnt pdp_temp cx"

section \<open>Aberrant behaviour archives\<close>

definition aberrant_rra :: "nat \<Rightarrow> nat \<Rightarrow> nat \<Rightarrow> scratch_idx \<Rightarrow> dbl list \<Rightarrow> dbl list \<times> rrd
    \<Rightarrow> (cdp_error, dbl list \<times> rrd) outcome" where
  "aberrant_rra rra_idx rra_start elapsed_pdp_st scratch_idx pdp_temp cs =
     (let (coef, s) = cs in
      if pdp_cnt (rra_def s ! rra_idx) \<noteq> 1 then (None, cs)
      else
        (case cf_conv (cf_nam (rra_def s ! rra_idx)) of
           None \<Rightarrow> (Some (UnknownCF (cf_nam (rra_def s ! rra_idx))), cs)
         | Some current_cf \<Rightarrow>
             andThen
               (if current_cf = CF_SEASONAL \<or> current_cf = CF_DEVSEASONAL
                then map_err SeasonalError
                       (lookup_seasonal rra_idx rra_start
                          (elapsed_pdp_st + (if scratch_idx = CDP_primary_val then 1 else 2)) cs)
                else (None, cs))
               (\<lambda>(coef, s). (None, (coef,
                  fold (\<lambda>ds_idx s. snd (update_aberrant_CF (pdp_temp ! ds_idx) current_cf
                                    (rra_idx * dscnt s + ds_idx) rra_idx ds_idx scratch_idx coef s))
                    [0 ..< dscnt s] s)))))"

fun aberrant_from :: "nat list \<Rightarrow> nat \<Rightarrow> nat \<Rightarrow> scratch_idx \<Rightarrow> dbl list \<Rightarrow> dbl list \<times> rrd
    \<Rightarrow> (cdp_error, dbl list \<times> rrd) outcome" where
  "aberrant_from [] rra_start elapsed sc pdp_temp cs = (None, cs)"
| "aberrant_from (rra_idx # ris) rra_start elapsed sc pdp_temp cs =
     andThen (aberrant_rra rra_idx rra_start elapsed sc pdp_temp cs)
       (\<lambda>cs. aberrant_from ris (rra_start + row_cnt (rra_def (snd cs) ! rra_idx) * dscnt (snd cs)) elapsed sc pdp_temp cs)"

text \<open>The loop over \<open>j\<close> runs only for one or two elapsed steps.\<close>

fun aberrant_steps :: "nat \<Rightarrow> nat \<Rightarrow> nat \<Rightarrow> scratch_idx \<Rightarrow> dbl list \<Rightarrow> dbl list \<times> rrd
    \<Rightarrow> (cdp_error, dbl list \<times> rrd) outcome" where
  "aberrant_steps 0 rra_begin elapsed sc pdp_temp cs = (None, cs)"
| "aberrant_steps (Suc j) rra_begin elapsed sc pdp_temp cs =
     (if Suc j < 3
      then andThen (aberrant_from [0 ..< rracnt (snd cs)] rra_begin elapsed sc pdp_temp cs)
             (aberrant_steps j rra_begin elapsed CDP_secondary_val pdp_temp)
      else (None, cs))"

definition update_aberrant_cdps :: "nat \<Rightarrow> nat \<Rightarrow> dbl list \<Rightarrow> dbl list \<times> rrd
    \<Rightarrow> (cdp_error, dbl list \<times> rrd) outcome" where
  "update_aberrant_cdps rra_begin elapsed_pdp_st pdp_temp cs =
     aberrant_steps elapsed_pdp_st rra_begin elapsed_pdp_st CDP_primary_val pdp_temp cs"

section \<open>The contract of a consolidation function\<close>

text \<open>Number of unknown primary data points in a window.\<close>

definition unknowns :: "dbl list \<Rightarrow> nat" where
  "unknowns w = length (filter isnan w)"

lemma unknowns_append [simp]: "unknowns (v @ w) = unknowns v + unknowns w"
  by (simp add: unknowns_def)

lemma unknowns_replicate [simp]: "unknowns (replicate n v) = (if isnan v then n else 0)"
  by (simp add: unknowns_def)

lemma unknowns_le: "unknowns w \<le> length w"
  by (simp add: unknowns_def)

lemma unknowns_Nil [simp]: "unknowns [] = 0"
  by (simp add: unknowns_def)

text \<open>
  \<open>rep c w\<close>: the accumulator \<open>c\<close> stands for the beginning \<open>w\<close> of a window of \<open>n\<close> points. \<open>ok\<close> are the
  values for which the contract is claimed, \<open>cf_value w\<close> the consolidated value of a full window.
\<close>

text \<open>The full windows at the beginning of a stream of primary data points.\<close>

definition full_windows :: "nat \<Rightarrow> dbl list \<Rightarrow> dbl list list" where
  "full_windows n xs = map (\<lambda>i. take n (drop (i * n) xs)) [0 ..< length xs div n]"

text \<open>A share of admissible unknown points below one, as \<open>rrd_create\<close> checks it.\<close>

definition valid_xff :: "nat \<Rightarrow> dbl \<Rightarrow> bool" where
  "valid_xff n xff \<longleftrightarrow> d_of_nat n * xff < d_of_nat n \<and> \<not> d_of_nat n * xff < d_of_nat 0"

lemma start_offset_window: "0 < n \<Longrightarrow> 0 < start_offset p n \<and> start_offset p n \<le> n \<and> p mod n + start_offset p n = n"
  using mod_less_divisor [of n p] by (simp add: start_offset_def)

lemma step_count_windows:
  assumes "0 < n" and "off + l = n"
  shows "step_count e off n = (l + e) div n"
proof (cases "off \<le> e")
  case True
  have "l + e = n + (e - off)" using True assms(2) by simp
  moreover have "(n + (e - off)) div n = (e - off) div n + 1" using assms(1) by simp
  ultimately show ?thesis using True by (simp only: step_count_def if_True)
next
  case False
  then show ?thesis using assms by (simp add: step_count_def)
qed

lemma drop_constant_tail: "length w \<le> j \<Longrightarrow> drop j (w @ replicate e v) = replicate (length w + e - j) v"
  by simp

lemma full_windows_stream:
  assumes n: "0 < n" and w: "length w < n" and off: "off + length w = n" and e: "off \<le> e"
  shows "full_windows n (w @ replicate e v) =
    (w @ replicate off v) # replicate ((length w + e) div n - 1) (replicate n v)"
proof -
  define st where "st = w @ replicate e v"
  have len: "length st = length w + e" by (simp add: st_def)
  have ge: "n \<le> length st" using e off by (simp add: len)
  then have k: "0 < length st div n" using n by (simp add: div_greater_zero_iff)
  have st: "st = (w @ replicate off v) @ replicate (e - off) v"
    using e by (simp add: st_def flip: replicate_add)
  have first: "take n st = w @ replicate off v" unfolding st using off by simp
  have rest: "take n (drop (i * n) st) = replicate n v" if "0 < i" "i < length st div n" for i
  proof -
    have "Suc i * n \<le> length st div n * n" using that by (intro mult_le_mono1) simp
    also have "\<dots> \<le> length st" by simp
    finally have a: "i * n + n \<le> length st" by simp
    have b: "n \<le> i * n" using that(1) by (cases i) simp_all
    have "drop (i * n) st = replicate (length w + e - i * n) v"
      unfolding st_def using w b by (intro drop_constant_tail) linarith
    then show ?thesis using a by (simp add: len)
  qed
  have "full_windows n st = map (\<lambda>i. take n (drop (i * n) st)) (0 # [1 ..< length st div n])"
    using k by (simp add: full_windows_def upt_conv_Cons)
  also have "\<dots> = (w @ replicate off v) # map (\<lambda>i. take n (drop (i * n) st)) [1 ..< length st div n]"
    using first by simp
  also have "map (\<lambda>i. take n (drop (i * n) st)) [1 ..< length st div n] = map (\<lambda>i. replicate n v) [1 ..< length st div n]"
    using rest by (intro map_cong) simp_all
  finally show ?thesis by (simp add: map_replicate_const len flip: st_def)
qed

text \<open>The preparation area \<open>c\<close> holds the unfinished window \<open>w\<close>.\<close>

definition cdp_holds :: "nat \<Rightarrow> (dbl \<Rightarrow> dbl list \<Rightarrow> bool) \<Rightarrow> cdp_prep_t \<Rightarrow> dbl list \<Rightarrow> bool" where
  "cdp_holds n rep c w \<longleftrightarrow> rep (cdp_val c) w \<and> unkn_pdp_cnt c = unknowns w \<and> length w < n"

text \<open>A window with too many unknown points is unknown.\<close>

definition consolidated :: "nat \<Rightarrow> (dbl list \<Rightarrow> dbl) \<Rightarrow> dbl \<Rightarrow> dbl list \<Rightarrow> dbl" where
  "consolidated n cf_value xff w = (if d_of_nat n * xff < d_of_nat (unknowns w) then NaN else cf_value w)"

lemma full_windows_append:
  assumes "0 < n"
  shows "full_windows n (xs @ ys) = full_windows n xs @ full_windows n (drop (length xs div n * n) xs @ ys)"
proof -
  define q where "q = length xs div n"
  have q: "q * n \<le> length xs" by (simp add: q_def)
  have "length (xs @ ys) = (length xs - q * n + length ys) + q * n" using q by simp
  then have d: "length (xs @ ys) div n = q + (length xs - q * n + length ys) div n" using assms by (simp only: div_mult_self3 add.commute)
  have old: "take n (drop (i * n) (xs @ ys)) = take n (drop (i * n) xs)" if "i < q" for i
  proof -
    have "Suc i * n \<le> q * n" using that by (intro mult_le_mono1) simp
    then have "i * n + n \<le> length xs" using q by simp
    then show ?thesis by simp
  qed
  have new: "drop ((q + i) * n) (xs @ ys) = drop (i * n) (drop (q * n) xs @ ys)" for i
  proof -
    have "drop (q * n) (xs @ ys) = drop (q * n) xs @ ys" using q by simp
    then show ?thesis by (metis add.commute add_mult_distrib drop_drop)
  qed
  let ?m = "(length xs - q * n + length ys) div n"
  have upt: "[0 ..< q + m] = [0 ..< q] @ map (\<lambda>i. q + i) [0 ..< m]" for m by (induction m) simp_all
  have "full_windows n (xs @ ys) = map (\<lambda>i. take n (drop (i * n) (xs @ ys))) [0 ..< q + ?m]" by (simp only: full_windows_def d)
  also have "\<dots> = map (\<lambda>i. take n (drop (i * n) (xs @ ys))) [0 ..< q] @ map (\<lambda>i. take n (drop ((q + i) * n) (xs @ ys))) [0 ..< ?m]"
    by (simp only: upt map_append map_map comp_def)
  also have "map (\<lambda>i. take n (drop (i * n) (xs @ ys))) [0 ..< q] = full_windows n xs"
    unfolding full_windows_def q_def [symmetric] using old by (intro map_cong) simp_all
  also have "map (\<lambda>i. take n (drop ((q + i) * n) (xs @ ys))) [0 ..< ?m] = full_windows n (drop (q * n) xs @ ys)"
    by (simp only: full_windows_def new length_append length_drop)
  finally show ?thesis by (simp only: q_def)
qed

text \<open>
  The preparation area of an archive over a sequence of updates: from a number of steps since the epoch, each update brings a
  number of further steps, all with the value of this update. The rows that are handed on are the primary value and, for every
  further row, the secondary value.
\<close>

fun update_cdps :: "cf_en \<Rightarrow> nat \<Rightarrow> dbl \<Rightarrow> nat \<Rightarrow> (nat \<times> dbl) list \<Rightarrow> cdp_prep_t \<Rightarrow> dbl list \<times> cdp_prep_t" where
  "update_cdps cf n xff proc [] c = ([], c)"
| "update_cdps cf n xff proc ((e, v) # us) c =
     (let off = start_offset proc n; k = step_count e off n; c' = update_cdp cf v k e off n xff c;
          (rows, c'') = update_cdps cf n xff (proc + e) us c'
      in ((if k = 0 then [] else primary_val c' # replicate (k - 1) (secondary_val c')) @ rows, c''))"

definition stream_of :: "(nat \<times> dbl) list \<Rightarrow> dbl list" where
  "stream_of us = concat (map (\<lambda>(e, v). replicate e v) us)"

locale consolidation =
  fixes cf :: cf_en and n :: nat and ok :: "dbl \<Rightarrow> bool" and rep :: "dbl \<Rightarrow> dbl list \<Rightarrow> bool"
    and cf_value :: "dbl list \<Rightarrow> dbl"
  assumes rep_carry: "ok v \<Longrightarrow> (e - off) mod n = k \<Longrightarrow> 0 < n \<Longrightarrow> rep (initialize_carry_over v cf e off n) (replicate k v)"
    and rep_known: "rep a w \<Longrightarrow> ok v \<Longrightarrow> \<not> isnan v \<Longrightarrow> 0 < e \<Longrightarrow> length w + e < n \<Longrightarrow>
      rep (calculate_cdp_val a v e cf) (w @ replicate e v)"
    and rep_unknown: "rep a w \<Longrightarrow> rep a (w @ replicate e NaN)"
    and finish: "rep (cdp_val c) w \<Longrightarrow> ok v \<Longrightarrow> 0 < off \<Longrightarrow> length w + off = n \<Longrightarrow>
      unkn_pdp_cnt c = unknowns (w @ replicate off v) \<Longrightarrow> unknowns (w @ replicate off v) < n \<Longrightarrow>
      primary_val (initialize_cdp_val cf v off n c) = cf_value (w @ replicate off v)"
    and value_const: "ok v \<Longrightarrow> \<not> isnan v \<Longrightarrow> 0 < n \<Longrightarrow> cf_value (replicate n v) = v"
begin

lemma initialize_cdp_val_frame:
  "secondary_val (initialize_cdp_val cf v off n c) = secondary_val c"
  "unkn_pdp_cnt (initialize_cdp_val cf v off n c) = unkn_pdp_cnt c"
  by (cases cf; simp add: initialize_cdp_val_def Let_def)+

text \<open>A window that stays unfinished.\<close>

lemma update_cdp_open:
  assumes h: "cdp_holds n rep c w" and ok: "ok v" and e: "0 < e" "length w + e < n" and n: "n < 2 ^ 64"
  shows "cdp_holds n rep (update_cdp cf v 0 e off n xff c) (w @ replicate e v)"
proof (cases "isnan v")
  case True
  then have v: "v = NaN" by (simp add: isnan_def)
  have "unkn_pdp_cnt c \<le> length w" using h unknowns_le by (simp add: cdp_holds_def)
  then have "u64 (int (unkn_pdp_cnt c) + int e) = unkn_pdp_cnt c + e"
    using e n by (subst u64_id) (simp_all flip: of_nat_add)
  then show ?thesis
    using h e rep_unknown [of "cdp_val c" w e] by (simp add: update_cdp_def cdp_holds_def v)
next
  case False
  then show ?thesis
    using h ok e rep_known [of "cdp_val c" w v e] by (simp add: update_cdp_def cdp_holds_def)
qed

text \<open>A finished window: the primary value, the filler, and the carry-over.\<close>

lemma update_cdp_closed:
  assumes h: "cdp_holds n rep c w" and ok: "ok v" and off: "off = n - length w" "off \<le> e" and k: "0 < k"
    and n: "n < 2 ^ 64" and xff: "d_of_nat n * xff < d_of_nat n" and xff_nonneg: "\<not> d_of_nat n * xff < d_of_nat 0"
  shows "primary_val (update_cdp cf v k e off n xff c) = consolidated n cf_value xff (w @ replicate off v)"
    and "secondary_val (update_cdp cf v k e off n xff c) = consolidated n cf_value xff (replicate n v)"
    and "cdp_holds n rep (update_cdp cf v k e off n xff c) (replicate ((e - off) mod n) v)"
proof -
  have w: "length w < n" "unkn_pdp_cnt c = unknowns w" using h by (simp_all add: cdp_holds_def)
  define c1 where "c1 = (if isnan v then c\<lparr>unkn_pdp_cnt := u64 (int (unkn_pdp_cnt c) + int off), secondary_val := NaN\<rparr>
      else c\<lparr>secondary_val := v\<rparr>)"
  define c2 where "c2 = (if d_of_nat n * xff < d_of_nat (unkn_pdp_cnt c1) then c1\<lparr>primary_val := NaN\<rparr>
      else initialize_cdp_val cf v off n c1)"
  have eq: "update_cdp cf v k e off n xff c = c2\<lparr>cdp_val := initialize_carry_over v cf e off n,
      unkn_pdp_cnt := (if isnan v then (e - off) mod n else 0)\<rparr>"
    using k by (simp add: update_cdp_def c1_def c2_def Let_def)
  have "unknowns w + off \<le> n" using unknowns_le [of w] w off by simp
  then have "u64 (int (unknowns w) + int off) = unknowns w + off"
    using n by (subst u64_id) (simp_all flip: of_nat_add)
  then have u: "unkn_pdp_cnt c1 = unknowns (w @ replicate off v)" by (simp add: c1_def w)
  have r: "rep (cdp_val c1) w" using h by (simp add: c1_def cdp_holds_def)
  have "unknowns (w @ replicate off v) < n" if "\<not> d_of_nat n * xff < d_of_nat (unknowns (w @ replicate off v))"
  proof -
    have "unknowns (w @ replicate off v) \<le> n" using unknowns_le [of "w @ replicate off v"] w off by simp
    moreover have "unknowns (w @ replicate off v) \<noteq> n" using that xff by auto
    ultimately show ?thesis by simp
  qed
  then have "primary_val c2 = consolidated n cf_value xff (w @ replicate off v)"
    using finish [OF r ok _ _ u] w off u by (simp add: c2_def consolidated_def)
  then show "primary_val (update_cdp cf v k e off n xff c) = consolidated n cf_value xff (w @ replicate off v)"
    by (simp add: eq)
  have "secondary_val c2 = (if isnan v then NaN else v)"
    by (simp add: c2_def c1_def initialize_cdp_val_frame)
  also have "\<dots> = consolidated n cf_value xff (replicate n v)"
  proof (cases "isnan v")
    case True
    then show ?thesis using xff by (simp add: consolidated_def)
  next
    case False
    have "consolidated n cf_value xff (replicate n v) = (if d_of_nat n * xff < d_of_nat 0 then NaN else v)"
      using False value_const [OF ok False] w by (simp add: consolidated_def)
    then show ?thesis using False xff_nonneg by simp
  qed
  finally show "secondary_val (update_cdp cf v k e off n xff c) = consolidated n cf_value xff (replicate n v)"
    by (simp add: eq)
  show "cdp_holds n rep (update_cdp cf v k e off n xff c) (replicate ((e - off) mod n) v)"
    using rep_carry [OF ok refl, of e off] w by (simp add: eq cdp_holds_def)
qed

text \<open>An update feeds \<open>e\<close> points of value \<open>v\<close>: the stream is cut into windows, each one consolidated.\<close>

lemma update_cdp_stream:
  assumes h: "cdp_holds n rep c w" and ok: "ok v" and e: "0 < e" and off: "off + length w = n"
    and n: "n < 2 ^ 64" and xff: "valid_xff n xff"
  defines "st \<equiv> w @ replicate e v"
    and "k \<equiv> step_count e off n"
    and "c' \<equiv> update_cdp cf v (step_count e off n) e off n xff c"
  shows "map (consolidated n cf_value xff) (full_windows n st) =
           (if k = 0 then [] else primary_val c' # replicate (k - 1) (secondary_val c')) \<and>
         cdp_holds n rep c' (drop (k * n) st)"
proof -
  have w: "length w < n" using h by (simp add: cdp_holds_def)
  then have n0: "0 < n" by simp
  have k: "k = (length w + e) div n" unfolding k_def using step_count_windows [OF n0 off] .
  show ?thesis
  proof (cases "off \<le> e")
    case True
    have le: "n \<le> length w + e" using True off by simp
    then have k0: "0 < k" using n0 by (simp add: k div_greater_zero_iff)
    have x: "d_of_nat n * xff < d_of_nat n" "\<not> d_of_nat n * xff < d_of_nat 0"
      using xff by (simp_all add: valid_xff_def)
    have offn: "off = n - length w" using off by simp
    note C = update_cdp_closed [OF h ok offn True k0 n x, folded k_def]
    have "length w + e - n = e - off" using off True by simp
    then have rest: "length w + e - k * n = (e - off) mod n"
      using le by (metis k minus_div_mult_eq_mod le_mod_geq)
    have "n \<le> k * n" using k0 by (cases k) simp_all
    then have "drop (k * n) st = replicate (length w + e - k * n) v"
      unfolding st_def using w by (intro drop_constant_tail) linarith
    then show ?thesis
      using C full_windows_stream [OF n0 w off True] k0
      by (simp add: st_def c'_def k_def [symmetric] rest flip: k)
  next
    case False
    then have lt: "length w + e < n" using off by simp
    then have "k = 0" by (simp add: k)
    then show ?thesis
      using update_cdp_open [OF h ok e lt n, of off xff] lt
      by (simp add: st_def c'_def k_def [symmetric] full_windows_def)
  qed
qed

lemma update_cdps_stream:
  assumes "cdp_holds n rep c w" and "length w = proc mod n" and "list_all (\<lambda>(e, v). 0 < e \<and> ok v) us" and "n < 2 ^ 64" and "valid_xff n xff"
  shows "case update_cdps cf n xff proc us c of (rows, c') \<Rightarrow>
    rows = map (consolidated n cf_value xff) (full_windows n (w @ stream_of us)) \<and>
    cdp_holds n rep c' (drop (length (w @ stream_of us) div n * n) (w @ stream_of us))"
  using assms(1-3)
proof (induction us arbitrary: c w proc)
  case Nil
  then have "length w < n" by (simp add: cdp_holds_def)
  then show ?case using Nil by (simp add: stream_of_def full_windows_def)
next
  case (Cons u us)
  obtain e v where u: "u = (e, v)" by fastforce
  have w: "length w < n" using Cons.prems(1) by (simp add: cdp_holds_def)
  then have n: "0 < n" by simp
  define st where "st = w @ replicate e v"
  define off where "off = start_offset proc n"
  define k where "k = step_count e off n"
  define c' where "c' = update_cdp cf v k e off n xff c"
  have off: "off + length w = n" using start_offset_window [OF n, of proc] Cons.prems(2) by (simp add: off_def)
  have ev: "0 < e" "ok v" using Cons.prems(3) u by simp_all
  note step = update_cdp_stream [OF Cons.prems(1) ev(2,1) off assms(4,5), folded k_def, folded c'_def st_def]
  have k: "k = length st div n" using step_count_windows [OF n off, of e] by (simp add: k_def st_def)
  define r where "r = drop (k * n) st"
  have "length r = length st mod n" by (simp add: r_def k minus_div_mult_eq_mod)
  also have "\<dots> = (proc + e) mod n" using Cons.prems(2) by (simp add: st_def mod_add_left_eq)
  finally have lr: "length r = (proc + e) mod n" .
  obtain rows c'' where run: "update_cdps cf n xff (proc + e) us c' = (rows, c'')" by fastforce
  have "list_all (\<lambda>(e, v). 0 < e \<and> ok v) us" using Cons.prems(3) by simp
  with Cons.IH [OF _ lr, of c'] step run
  have IH: "rows = map (consolidated n cf_value xff) (full_windows n (r @ stream_of us))"
    "cdp_holds n rep c'' (drop (length (r @ stream_of us) div n * n) (r @ stream_of us))" by (simp_all add: r_def)
  have all: "w @ stream_of (u # us) = st @ stream_of us" by (simp add: stream_of_def st_def u)
  have rl: "k * n \<le> length st" by (simp add: k)
  have "length (st @ stream_of us) = length (r @ stream_of us) + k * n" using rl by (simp add: r_def)
  then have d: "length (st @ stream_of us) div n * n = length (r @ stream_of us) div n * n + k * n"
    using n by (simp only: div_mult_self3 add_mult_distrib add.commute)
  have "drop (length (st @ stream_of us) div n * n) (st @ stream_of us) = drop (length (r @ stream_of us) div n * n) (r @ stream_of us)"
  proof -
    have "drop (k * n) (st @ stream_of us) = r @ stream_of us" using rl by (simp add: r_def)
    then show ?thesis unfolding d by (metis drop_drop)
  qed
  then show ?case
    using step IH run full_windows_append [OF n, of st "stream_of us"]
    unfolding all by (simp add: u Let_def k [symmetric] r_def flip: off_def k_def c'_def)
qed

end

section \<open>MAX, MIN and LAST\<close>

text \<open>The known values of a window, and their extremes.\<close>

definition known :: "dbl list \<Rightarrow> dbl list" where
  "known w = filter (\<lambda>v. \<not> isnan v) w"

definition dmax :: "dbl \<Rightarrow> dbl \<Rightarrow> dbl" where
  "dmax x y = (if x < y then y else x)"

definition dmin :: "dbl \<Rightarrow> dbl \<Rightarrow> dbl" where
  "dmin x y = (if y < x then y else x)"

definition max_value :: "dbl list \<Rightarrow> dbl" where
  "max_value w = foldl dmax NInf (known w)"

definition min_value :: "dbl list \<Rightarrow> dbl" where
  "min_value w = foldl dmin PInf (known w)"

definition last_value :: "dbl list \<Rightarrow> dbl" where
  "last_value w = last w"

lemma known_append [simp]: "known (v @ w) = known v @ known w"
  by (simp add: known_def)

lemma known_replicate [simp]: "known (replicate e v) = (if isnan v then [] else replicate e v)"
  by (simp add: known_def)

lemma foldl_const:
  assumes "\<And>a. g (g a v) v = g a v" and "0 < e"
  shows "foldl g a (replicate e v) = g a v"
  using assms(2)
proof (induction e arbitrary: a)
  case (Suc e)
  then show ?case using assms(1) by (cases e) simp_all
qed simp

lemma dmax_idem: "dmax (dmax a v) v = dmax a v" and dmin_idem: "dmin (dmin a v) v = dmin a v"
  by (simp_all add: dmax_def dmin_def)

lemma not_less_ninf [simp]: "\<not> x < NInf" and not_pinf_less [simp]: "\<not> PInf < x"
  by (cases x; simp)+

lemma dmax_ninf: "v \<noteq> NaN \<Longrightarrow> dmax NInf v = v"
  by (cases v) (auto simp: dmax_def)

lemma dmin_pinf: "v \<noteq> NaN \<Longrightarrow> dmin PInf v = v"
  by (cases v) (auto simp: dmin_def)

lemma dmax_not_nan: "a \<noteq> NaN \<Longrightarrow> v \<noteq> NaN \<Longrightarrow> dmax a v \<noteq> NaN"
  and dmin_not_nan: "a \<noteq> NaN \<Longrightarrow> v \<noteq> NaN \<Longrightarrow> dmin a v \<noteq> NaN"
  by (simp_all add: dmax_def dmin_def)

lemma foldl_not_nan:
  assumes "\<And>a v. a \<noteq> NaN \<Longrightarrow> v \<noteq> NaN \<Longrightarrow> g a v \<noteq> NaN" and "a \<noteq> NaN" and "NaN \<notin> set xs"
  shows "foldl g a xs \<noteq> NaN"
  using assms(2,3)
proof (induction xs arbitrary: a)
  case (Cons x xs)
  then have "g a x \<noteq> NaN" by (intro assms(1)) (simp_all add: eq_commute [of NaN])
  with Cons show ?case by simp
qed simp

lemma known_no_nan: "NaN \<notin> set (known w)"
  by (simp add: known_def isnan_def)

text \<open>The accumulators: the extreme so far; LAST needs none.\<close>

definition max_rep :: "dbl \<Rightarrow> dbl list \<Rightarrow> bool" where
  "max_rep a w \<longleftrightarrow> IFDNAN a NInf = max_value w"

definition min_rep :: "dbl \<Rightarrow> dbl list \<Rightarrow> bool" where
  "min_rep a w \<longleftrightarrow> IFDNAN a PInf = min_value w"

definition last_rep :: "dbl \<Rightarrow> dbl list \<Rightarrow> bool" where
  "last_rep a w \<longleftrightarrow> True"

interpretation cmax: consolidation CF_MAXIMUM n "\<lambda>_. True" max_rep max_value for n
  unfolding max_rep_def
proof unfold_locales
  fix v :: dbl and e off k :: nat
  assume "(e - off) mod n = k"
  then show "IFDNAN (initialize_carry_over v CF_MAXIMUM e off n) NInf = max_value (replicate k v)"
    by (auto simp: initialize_carry_over_def IFDNAN_def max_value_def foldl_const [OF dmax_idem] dmax_ninf isnan_def Let_def)
next
  fix a v :: dbl and w :: "dbl list" and e :: nat
  assume r: "IFDNAN a NInf = max_value w" and v: "\<not> isnan v" and e: "0 < e"
  have "max_value (w @ replicate e v) = dmax (IFDNAN a NInf) v"
    unfolding r using v e by (simp add: max_value_def foldl_const [OF dmax_idem])
  moreover have "IFDNAN (calculate_cdp_val a v e CF_MAXIMUM) NInf = dmax (IFDNAN a NInf) v"
    using v dmax_ninf [of v] by (auto simp: calculate_cdp_val_def IFDNAN_def dmax_def isnan_def)
  ultimately show "IFDNAN (calculate_cdp_val a v e CF_MAXIMUM) NInf = max_value (w @ replicate e v)" by simp
next
  fix c :: cdp_prep_t and w :: "dbl list" and v :: dbl and off :: nat
  assume r: "IFDNAN (cdp_val c) NInf = max_value w" and off: "0 < off"
  have "max_value w \<noteq> NaN" unfolding max_value_def by (rule foldl_not_nan [OF dmax_not_nan]) (simp_all add: known_no_nan)
  then show "primary_val (initialize_cdp_val CF_MAXIMUM v off n c) = max_value (w @ replicate off v)"
    using off r by (auto simp: initialize_cdp_val_def Let_def max_value_def foldl_const [OF dmax_idem] IFDNAN_def dmax_def isnan_def)
qed (simp_all add: max_value_def foldl_const [OF dmax_idem] dmax_ninf isnan_def)

interpretation cmin: consolidation CF_MINIMUM n "\<lambda>_. True" min_rep min_value for n
  unfolding min_rep_def
proof unfold_locales
  fix v :: dbl and e off k :: nat
  assume "(e - off) mod n = k"
  then show "IFDNAN (initialize_carry_over v CF_MINIMUM e off n) PInf = min_value (replicate k v)"
    by (auto simp: initialize_carry_over_def IFDNAN_def min_value_def foldl_const [OF dmin_idem] dmin_pinf isnan_def Let_def)
next
  fix a v :: dbl and w :: "dbl list" and e :: nat
  assume r: "IFDNAN a PInf = min_value w" and v: "\<not> isnan v" and e: "0 < e"
  have "min_value (w @ replicate e v) = dmin (IFDNAN a PInf) v"
    unfolding r using v e by (simp add: min_value_def foldl_const [OF dmin_idem])
  moreover have "IFDNAN (calculate_cdp_val a v e CF_MINIMUM) PInf = dmin (IFDNAN a PInf) v"
    using v dmin_pinf [of v] by (auto simp: calculate_cdp_val_def IFDNAN_def dmin_def isnan_def)
  ultimately show "IFDNAN (calculate_cdp_val a v e CF_MINIMUM) PInf = min_value (w @ replicate e v)" by simp
next
  fix c :: cdp_prep_t and w :: "dbl list" and v :: dbl and off :: nat
  assume r: "IFDNAN (cdp_val c) PInf = min_value w" and off: "0 < off"
  have "min_value w \<noteq> NaN" unfolding min_value_def by (rule foldl_not_nan [OF dmin_not_nan]) (simp_all add: known_no_nan)
  then show "primary_val (initialize_cdp_val CF_MINIMUM v off n c) = min_value (w @ replicate off v)"
    using off r by (auto simp: initialize_cdp_val_def Let_def min_value_def foldl_const [OF dmin_idem] IFDNAN_def dmin_def isnan_def)
qed (simp_all add: min_value_def foldl_const [OF dmin_idem] dmin_pinf isnan_def)

interpretation clast: consolidation CF_LAST n "\<lambda>_. True" last_rep last_value for n
  by unfold_locales (simp_all add: last_rep_def initialize_cdp_val_def last_value_def)

section \<open>AVERAGE on integers\<close>

text \<open>
  Sums of integers are exact as long as they stay within \<open>2 ^ 53\<close>: then the average is the exact
  mean, rounded once.
\<close>

definition int_of :: "dbl \<Rightarrow> int" where
  "int_of v = \<lfloor>dval v\<rfloor>"

definition small_int :: "nat \<Rightarrow> dbl \<Rightarrow> bool" where
  "small_int n v \<longleftrightarrow> int n \<le> 2 ^ 53 \<and>
     (isnan v \<or> (v = Fin (of_int (int_of v)) \<and> \<bar>int_of v\<bar> * int n \<le> 2 ^ 53))"

definition known_sum :: "dbl list \<Rightarrow> int" where
  "known_sum w = sum_list (map int_of (known w))"

definition average_value :: "dbl list \<Rightarrow> dbl" where
  "average_value w = dround (of_int (known_sum w) / of_nat (length (known w)))"

lemma known_sum_bound:
  assumes "list_all (small_int n) w" and "length w \<le> n"
  shows "\<bar>known_sum w\<bar> \<le> 2 ^ 53"
proof (cases "n = 0")
  case False
  have b: "\<bar>int_of v\<bar> \<le> 2 ^ 53 div int n" if "v \<in> set (known w)" for v
  proof -
    have "v \<in> set w" "\<not> isnan v" using that by (simp_all add: known_def)
    then have "\<bar>int_of v\<bar> * int n \<le> 2 ^ 53" using assms(1) by (auto simp: list_all_iff small_int_def)
    then show ?thesis using False by (metis nonzero_mult_div_cancel_right of_nat_0_eq_iff of_nat_0_le_iff zdiv_mono1 of_nat_0_less_iff neq0_conv)
  qed
  have "\<bar>sum_list (map int_of xs)\<bar> \<le> int (length xs) * (2 ^ 53 div int n)" if "set xs \<subseteq> set (known w)" for xs
    using that
  proof (induction xs)
    case (Cons x xs)
    have "\<bar>int_of x\<bar> \<le> 2 ^ 53 div int n" using Cons.prems b by simp
    with Cons show ?case by (simp add: distrib_right)
  qed simp
  from this [of "known w"] have "\<bar>known_sum w\<bar> \<le> int (length (known w)) * (2 ^ 53 div int n)"
    by (simp add: known_sum_def)
  also have "\<dots> \<le> int n * (2 ^ 53 div int n)"
  proof (intro mult_right_mono)
    show "int (length (known w)) \<le> int n" using assms(2) length_filter_le [of _ w] by (simp add: known_def) (meson le_trans length_filter_le)
  qed (use False in \<open>simp add: pos_imp_zdiv_nonneg_iff\<close>)
  also have "\<dots> = 2 ^ 53 - 2 ^ 53 mod int n" by (rule minus_mod_eq_mult_div [symmetric])
  also have "\<dots> \<le> 2 ^ 53" using False pos_mod_sign [of "int n" "2 ^ 53"] by linarith
  finally show ?thesis .
qed (use assms(2) in \<open>simp add: known_sum_def known_def\<close>)

lemma known_length: "length (known w) = length w - unknowns w"
proof -
  have "length (known w) + unknowns w = length w"
    unfolding known_def unknowns_def using sum_length_filter_compl [of "\<lambda>v. \<not> isnan v" w] by simp
  then show ?thesis by simp
qed

lemma known_sum_append [simp]: "known_sum (v @ w) = known_sum v + known_sum w"
  by (simp add: known_sum_def)

lemma known_sum_replicate: "known_sum (replicate e v) = (if isnan v then 0 else int e * int_of v)"
  by (simp add: known_sum_def sum_list_replicate)

text \<open>The accumulator of AVERAGE is the exact sum, or unknown before the first known value.\<close>

definition average_rep :: "nat \<Rightarrow> dbl \<Rightarrow> dbl list \<Rightarrow> bool" where
  "average_rep n a w \<longleftrightarrow>
     list_all (\<lambda>v. isnan v \<or> small_int n v) w \<and> (if isnan a then known w = [] else a = Fin (of_int (known_sum w)))"

lemma int_times:
  assumes "\<bar>i\<bar> * int k \<le> 2 ^ 53" and "0 < k" and "int k \<le> 2 ^ 53"
  shows "Fin (of_int i) * d_of_nat k = Fin (of_int (i * int k))"
proof -
  have k: "d_of_nat k = Fin (of_nat k)" using d_of_int_small [of "int k"] assms(3) by simp
  show ?thesis
  proof (cases "i = 0")
    case True
    then show ?thesis using assms(2) by (simp add: k times_dbl_def isnan_def isinf_def)
  next
    case False
    have "dround (of_int (i * int k)) = Fin (of_int (i * int k))"
      using assms(1,2) by (intro dround_int) (simp add: abs_mult)
    then show ?thesis using False assms(2) by (simp add: k times_dbl_def isnan_def isinf_def)
  qed
qed

lemma average_sum_bound:
  assumes "list_all (\<lambda>v. isnan v \<or> small_int n v) w" and "length w \<le> n"
  shows "\<bar>known_sum w\<bar> \<le> 2 ^ 53"
proof -
  have "list_all (small_int n) (known w)" using assms(1) by (auto simp: list_all_iff known_def)
  moreover have "length (known w) \<le> n" using assms(2) unfolding known_def by (meson le_trans length_filter_le)
  moreover have "known_sum (known w) = known_sum w" by (simp add: known_sum_def known_def)
  ultimately show ?thesis using known_sum_bound [of n "known w"] by simp
qed

lemma small_int_times:
  assumes "small_int n v" and "\<not> isnan v" and "0 < k" and "k \<le> n"
  shows "v * d_of_nat k = Fin (of_int (int_of v * int k))"
proof -
  have v: "v = Fin (of_int (int_of v))" "\<bar>int_of v\<bar> * int n \<le> 2 ^ 53" "int n \<le> 2 ^ 53"
    using assms(1,2) by (auto simp: small_int_def)
  have "\<bar>int_of v\<bar> * int k \<le> \<bar>int_of v\<bar> * int n" using assms(4) by (intro mult_left_mono) simp_all
  then have "Fin (of_int (int_of v)) * d_of_nat k = Fin (of_int (int_of v * int k))"
    using v(2,3) assms(3,4) by (intro int_times) simp_all
  then show ?thesis using v(1) by simp
qed

lemma average_known:
  assumes "average_rep n a w" and "small_int n v" and v: "\<not> isnan v" and "0 < e" and "length w + e \<le> n"
  shows "Fin (of_int (known_sum w)) + v * d_of_nat e = Fin (of_int (known_sum (w @ replicate e v)))"
proof -
  have "list_all (\<lambda>v. isnan v \<or> small_int n v) (w @ replicate e v)"
    using assms(1,2) by (auto simp: average_rep_def list_all_iff)
  then have "\<bar>known_sum (w @ replicate e v)\<bar> \<le> 2 ^ 53" using assms(5) by (intro average_sum_bound) simp_all
  then have "dround (of_int (known_sum (w @ replicate e v))) = Fin (of_int (known_sum (w @ replicate e v)))"
    by (rule dround_int)
  moreover have "v * d_of_nat e = Fin (of_int (int_of v * int e))"
    using assms(4,5) by (intro small_int_times [OF assms(2) v]) linarith+
  ultimately show ?thesis using v by (simp add: known_sum_replicate mult.commute)
qed

lemma average_finish:
  assumes r: "average_rep n (cdp_val c) w" and ok: "small_int n v" and off: "0 < off" "length w + off = n"
    and u: "unkn_pdp_cnt c = unknowns (w @ replicate off v)" "unknowns (w @ replicate off v) < n"
  shows "primary_val (initialize_cdp_val CF_AVERAGE v off n c) = average_value (w @ replicate off v)"
proof -
  define st where "st = w @ replicate off v"
  have n: "int n \<le> 2 ^ 53" using ok by (simp add: small_int_def)
  have cum: "IFDNAN (cdp_val c) 0 = Fin (of_int (known_sum w))"
    using r by (auto simp: average_rep_def IFDNAN_def known_sum_def zero_dbl_def split: if_splits)
  have sum: "IFDNAN (cdp_val c) 0 + IFDNAN v 0 * d_of_nat off = Fin (of_int (known_sum st))"
  proof (cases "isnan v")
    case True
    have "Fin (of_int 0) * d_of_nat off = Fin (of_int (0 * int off))" using off n by (intro int_times) simp_all
    moreover have "dround (of_int (known_sum w)) = Fin (of_int (known_sum w))"
      using r off by (intro dround_int average_sum_bound [of n]) (simp_all add: average_rep_def)
    ultimately show ?thesis unfolding cum using True
      by (simp add: IFDNAN_def st_def known_sum_replicate zero_dbl_def)
  next
    case False
    then show ?thesis unfolding cum st_def using average_known [OF r ok False] off by (simp add: IFDNAN_def)
  qed
  have len: "length st = n" "unknowns st < n" using off u(2) by (simp_all add: st_def)
  have "u64 (int n - int (unknowns st)) = nat (int n - int (unknowns st))"
    using len n by (intro u64_id) simp_all
  then have cnt: "u64 (int n - int (unknowns st)) = length (known st)" "0 < length (known st)" "length (known st) \<le> n"
    using len by (simp_all add: known_length nat_diff_distrib)
  have d: "d_of_nat (length (known st)) = Fin (of_nat (length (known st)))"
    using d_of_int_small [of "int (length (known st))"] cnt(3) n by simp
  have "primary_val (initialize_cdp_val CF_AVERAGE v off n c) =
      Fin (of_int (known_sum st)) / Fin (of_nat (length (known st)))"
    by (simp add: initialize_cdp_val_def Let_def sum u(1) cnt(1) d flip: st_def)
  also have "\<dots> = average_value st"
    using cnt(2) by (cases "known_sum st = 0") (simp_all add: average_value_def divide_dbl_def isnan_def isinf_def)
  finally show ?thesis by (simp add: st_def)
qed

interpretation cavg: consolidation CF_AVERAGE n "small_int n" "average_rep n" average_value for n
proof unfold_locales
  fix v :: dbl and e off k :: nat
  assume ok: "small_int n v" and k: "(e - off) mod n = k" and n: "0 < n"
  have kn: "k < n" using k n by auto
  show "average_rep n (initialize_carry_over v CF_AVERAGE e off n) (replicate k v)"
  proof (cases "k = 0 \<or> isnan v")
    case True
    then show ?thesis using k ok
      by (auto simp: initialize_carry_over_def average_rep_def known_sum_replicate zero_dbl_def list_all_iff isnan_def)
  next
    case False
    then have "v * d_of_nat k = Fin (of_int (int_of v * int k))"
      using kn by (intro small_int_times [OF ok]) linarith+
    then show ?thesis using k False ok
      by (simp add: initialize_carry_over_def average_rep_def known_sum_replicate list_all_iff isnan_def mult.commute)
  qed
next
  fix a v :: dbl and w :: "dbl list" and e :: nat
  assume r: "average_rep n a w" and ok: "small_int n v" and v: "\<not> isnan v" and e: "0 < e" "length w + e < n"
  have all: "list_all (\<lambda>v. isnan v \<or> small_int n v) (w @ replicate e v)"
    using r ok by (auto simp: average_rep_def list_all_iff)
  have "calculate_cdp_val a v e CF_AVERAGE = Fin (of_int (known_sum (w @ replicate e v)))"
  proof (cases "isnan a")
    case True
    then have "known w = []" using r by (simp add: average_rep_def)
    then have z: "known_sum w = 0" by (simp add: known_sum_def)
    have "v * d_of_nat e = Fin (of_int (int_of v * int e))" using e by (intro small_int_times [OF ok v]) linarith+
    then show ?thesis using True z v by (simp add: calculate_cdp_val_def known_sum_replicate mult.commute)
  next
    case False
    then have a: "a = Fin (of_int (known_sum w))" using r by (simp add: average_rep_def)
    have "Fin (of_int (known_sum w)) + v * d_of_nat e = Fin (of_int (known_sum (w @ replicate e v)))"
      using e by (intro average_known [OF r ok v]) simp_all
    then show ?thesis using False by (simp add: calculate_cdp_val_def a)
  qed
  then show "average_rep n (calculate_cdp_val a v e CF_AVERAGE) (w @ replicate e v)"
    using all by (simp add: average_rep_def isnan_def)
next
  fix a w e
  assume "average_rep n a w"
  then show "average_rep n a (w @ replicate e NaN)"
    by (auto simp: average_rep_def list_all_iff known_sum_replicate)
next
  fix c :: cdp_prep_t and w v off
  assume "average_rep n (cdp_val c) w" "small_int n v" "0 < off" "length w + off = n"
    "unkn_pdp_cnt c = unknowns (w @ replicate off v)" "unknowns (w @ replicate off v) < n"
  then show "primary_val (initialize_cdp_val CF_AVERAGE v off n c) = average_value (w @ replicate off v)"
    by (rule average_finish)
next
  fix v
  assume ok: "small_int n v" and v: "\<not> isnan v" and n: "0 < n"
  have vi: "v = Fin (of_int (int_of v))" "\<bar>int_of v\<bar> * int n \<le> 2 ^ 53" using ok v by (auto simp: small_int_def)
  have "\<bar>int_of v\<bar> * 1 \<le> \<bar>int_of v\<bar> * int n" using n by (intro mult_left_mono) simp_all
  then have "dround (of_int (int_of v)) = Fin (of_int (int_of v))" using vi(2) by (intro dround_int) simp
  moreover have "average_value (replicate n v) = dround (of_int (int_of v))"
    using v n by (simp add: average_value_def known_sum_replicate)
  ultimately show "average_value (replicate n v) = v" using vi(1) by simp
qed

section \<open>The update of all archives\<close>

text \<open>What \<open>update_cdp_prep\<close> does to one preparation area when points are consolidated.\<close>

lemma fold_upd_cdp:
  assumes "distinct js" and "\<And>j. j \<in> set js \<Longrightarrow> k + j < length (cdp_prep s)"
  shows "cdp_prep (fold (\<lambda>j. upd_cdp (k + j) (g j)) js s) ! i =
    (if \<exists>j \<in> set js. i = k + j then g (i - k) (cdp_prep s ! i) else cdp_prep s ! i)"
  using assms
proof (induction js arbitrary: s)
  case (Cons j js)
  define s1 where "s1 = upd_cdp (k + j) (g j) s"
  have IH: "cdp_prep (fold (\<lambda>j. upd_cdp (k + j) (g j)) js s1) ! i =
      (if \<exists>j \<in> set js. i = k + j then g (i - k) (cdp_prep s1 ! i) else cdp_prep s1 ! i)"
    using Cons.prems by (intro Cons.IH) (simp_all add: s1_def)
  have "k + j < length (cdp_prep s)" using Cons.prems by simp
  then have s1: "cdp_prep s1 ! l = (if l = k + j then g j (cdp_prep s ! l) else cdp_prep s ! l)" for l
    by (simp add: s1_def upd_cdp_def nth_list_update)
  have "j \<notin> set js" using Cons.prems(1) by simp
  then show ?case using IH by (auto simp: s1 simp flip: s1_def)
qed simp

lemma fold_upd_cdp_frame:
  "stat_head (fold (\<lambda>j. upd_cdp (k + j) (g j)) js s) = stat_head s"
  "rra_def (fold (\<lambda>j. upd_cdp (k + j) (g j)) js s) = rra_def s"
  by (induction js arbitrary: s) simp_all

lemma update_cdp_prep_consolidates:
  assumes "wf_rrd s" and "i < rracnt s" and "d < dscnt s" and "1 < pdp_cnt (rra_def s ! i)"
  shows "cdp_prep (update_cdp_prep e off k i pdp_temp lc c cf s) ! (i * dscnt s + d) =
    update_cdp cf (pdp_temp ! d) k e off (pdp_cnt (rra_def s ! i)) (cdp_xff_val (rra_def s ! i))
      (cdp_prep s ! (i * dscnt s + d))"
proof -
  define g where "g = (\<lambda>d. update_cdp cf (pdp_temp ! d) k e off (pdp_cnt (rra_def s ! i)) (cdp_xff_val (rra_def s ! i)))"
  have eq: "fold (\<lambda>ds_idx s. let cdp_idx = i * dscnt s + ds_idx; rra = rra_def s ! i
        in if pdp_cnt rra > 1
           then upd_cdp cdp_idx (update_cdp cf (pdp_temp ! ds_idx) k e off (pdp_cnt rra) (cdp_xff_val rra)) s
           else if e > 2 then reset_cdp e pdp_temp lc c i ds_idx cdp_idx cf s else s) js t =
      fold (\<lambda>d. upd_cdp (i * dscnt s + d) (g d)) js t"
    if "stat_head t = stat_head s" "rra_def t = rra_def s" for js t
    using that assms(4)
  proof (induction js arbitrary: t)
    case (Cons j js)
    then show ?case by (simp add: Let_def g_def)
  qed simp
  have "cdp_prep (update_cdp_prep e off k i pdp_temp lc c cf s) ! (i * dscnt s + d) =
      (if \<exists>j \<in> set [0 ..< dscnt s]. i * dscnt s + d = i * dscnt s + j
       then g (i * dscnt s + d - i * dscnt s) (cdp_prep s ! (i * dscnt s + d)) else cdp_prep s ! (i * dscnt s + d))"
    unfolding update_cdp_prep_def eq [OF refl refl]
    using wf_rrdD(5) [OF assms(1)] assms(2) block_index_less by (intro fold_upd_cdp) auto
  then show ?thesis using assms(3) by (simp add: g_def)
qed

section \<open>Properties\<close>

text \<open>
  C4: consolidation by MAX, MIN and LAST over any sequence of updates. Let the preparation area hold the unfinished window \<open>w\<close>
  of an archive with \<open>n\<close> points per row, and let each update of the sequence deliver a number of points of one value. The
  rows handed on (for each update the primary value, then the secondary value for every further row) are the
  consolidated values of the full windows of the whole stream of points, as many as there are; and
  the area then holds the unfinished window that is left. A window is unknown when more than the share
  \<open>xff\<close> of its points is; otherwise its value is the maximum, the minimum, or the last point.
\<close>

theorem update_cdp_max_min_last:
  assumes "(cf, rep, val) \<in> {(CF_MAXIMUM, max_rep, max_value), (CF_MINIMUM, min_rep, min_value), (CF_LAST, last_rep, last_value)}"
    and "cdp_holds n rep c w" and "length w = proc mod n" and "list_all (\<lambda>(e, v). 0 < e) us" and "n < 2 ^ 64" and "valid_xff n xff"
  shows "case update_cdps cf n xff proc us c of (rows, c') \<Rightarrow>
    rows = map (consolidated n val xff) (full_windows n (w @ stream_of us)) \<and>
    cdp_holds n rep c' (drop (length (w @ stream_of us) div n * n) (w @ stream_of us))"
proof -
  have us: "list_all (\<lambda>(e, v). 0 < e \<and> True) us" using assms(4) by simp
  consider "cf = CF_MAXIMUM" "rep = max_rep" "val = max_value" | "cf = CF_MINIMUM" "rep = min_rep" "val = min_value"
    | "cf = CF_LAST" "rep = last_rep" "val = last_value" using assms(1) by auto
  then show ?thesis
  proof cases
    case 1
    show ?thesis unfolding 1 by (rule cmax.update_cdps_stream [OF assms(2) [unfolded 1] assms(3) us assms(5,6)])
  next
    case 2
    show ?thesis unfolding 2 by (rule cmin.update_cdps_stream [OF assms(2) [unfolded 2] assms(3) us assms(5,6)])
  next
    case 3
    show ?thesis unfolding 3 by (rule clast.update_cdps_stream [OF assms(2) [unfolded 3] assms(3) us assms(5,6)])
  qed
qed

lemma valid_xff_half: "valid_xff 4 (Fin (1 / 2))"
  by (simp add: valid_xff_def)

text \<open>A window of four with two points in it; two updates bring five and three more, which makes two rows and leaves two points.\<close>

theorem update_cdp_max_min_last_witness:
  "fst (update_cdps CF_MAXIMUM 4 (Fin (1 / 2)) 2 [(5, Fin 7), (3, Fin 8)] ((demo_cdp NaN NaN)\<lparr>cdp_val := Fin 9\<rparr>)) = [Fin 9, Fin 8]"
proof -
  define c where "c = (demo_cdp NaN NaN)\<lparr>cdp_val := Fin 9\<rparr>"
  have h: "cdp_holds 4 max_rep c [Fin 9, Fin 3]"
    by (simp add: cdp_holds_def max_rep_def c_def demo_cdp_def IFDNAN_def max_value_def known_def unknowns_def dmax_def)
  have fw: "full_windows 4 ([Fin 9, Fin 3] @ stream_of [(5, Fin 7), (3, Fin 8)]) = [[Fin 9, Fin 3, Fin 7, Fin 7], [Fin 7, Fin 7, Fin 7, Fin 8]]"
    by code_simp
  have m: "consolidated 4 max_value (Fin (1 / 2)) [Fin 9, Fin 3, Fin 7, Fin 7] = Fin 9"
    "consolidated 4 max_value (Fin (1 / 2)) [Fin 7, Fin 7, Fin 7, Fin 8] = Fin 8"
    by (simp_all add: consolidated_def unknowns_def max_value_def known_def dmax_def)
  have "case update_cdps CF_MAXIMUM 4 (Fin (1 / 2)) 2 [(5, Fin 7), (3, Fin 8)] c of (rows, c') \<Rightarrow>
      rows = map (consolidated 4 max_value (Fin (1 / 2))) (full_windows 4 ([Fin 9, Fin 3] @ stream_of [(5, Fin 7), (3, Fin 8)])) \<and>
      cdp_holds 4 max_rep c' (drop (length ([Fin 9, Fin 3] @ stream_of [(5, Fin 7), (3, Fin 8)]) div 4 * 4) ([Fin 9, Fin 3] @ stream_of [(5, Fin 7), (3, Fin 8)]))"
    by (rule update_cdp_max_min_last [OF _ h _ _ _ valid_xff_half]) simp_all
  then show ?thesis unfolding fw c_def [symmetric] using m by (cases "update_cdps CF_MAXIMUM 4 (Fin (1 / 2)) 2 [(5, Fin 7), (3, Fin 8)] c") simp
qed

text \<open>
  C5: consolidation by AVERAGE is exact on integers. As long as the values are integers whose sum over
  a full window stays within \<open>2 ^ 53\<close>, every row written is the true mean of the known points of its
  window, rounded once, although the sum is kept as a running double over any number of updates.
\<close>

theorem update_cdp_average_exact:
  assumes "cdp_holds n (average_rep n) c w" and "small_int n v" and "0 < e" and "off + length w = n" and "n < 2 ^ 64"
    and "valid_xff n xff" and "k = step_count e off n" and "c' = update_cdp CF_AVERAGE v k e off n xff c"
  shows "map (consolidated n (\<lambda>win. dround (of_int (known_sum win) / of_nat (length (known win)))) xff)
           (full_windows n (w @ replicate e v)) =
           (if k = 0 then [] else primary_val c' # replicate (k - 1) (secondary_val c')) \<and>
         cdp_holds n (average_rep n) c' (drop (k * n) (w @ replicate e v))"
proof -
  have "(\<lambda>win. dround (of_int (known_sum win) / of_nat (length (known win)))) = average_value"
    by (simp add: average_value_def fun_eq_iff)
  then show ?thesis unfolding assms(7,8) using cavg.update_cdp_stream [OF assms(1-6)] by metis
qed

theorem update_cdp_average_exact_witness:
  "primary_val (update_cdp CF_AVERAGE (Fin 7) 1 2 2 4 (Fin (1 / 2)) ((demo_cdp NaN NaN)\<lparr>cdp_val := Fin 10\<rparr>)) = Fin 6"
proof -
  define c where "c = (demo_cdp NaN NaN)\<lparr>cdp_val := Fin 10\<rparr>"
  define st where "st = [Fin 9, Fin 1] @ replicate 2 (Fin 7)"
  have si: "small_int 4 (Fin 9)" "small_int 4 (Fin 1)" "small_int 4 (Fin 7)"
    by (simp_all add: small_int_def int_of_def)
  have h: "cdp_holds 4 (average_rep 4) c [Fin 9, Fin 1]"
    by (simp add: cdp_holds_def c_def demo_cdp_def average_rep_def si known_def known_sum_def int_of_def unknowns_def)
  have k: "1 = step_count 2 2 4" by (simp add: step_count_def)
  have fw: "full_windows 4 st = [[Fin 9, Fin 1, Fin 7, Fin 7]]"
    unfolding st_def by code_simp
  have m: "consolidated 4 (\<lambda>win. dround (of_int (known_sum win) / of_nat (length (known win)))) (Fin (1 / 2))
      [Fin 9, Fin 1, Fin 7, Fin 7] = Fin 6"
    by (simp add: consolidated_def unknowns_def known_sum_def known_def int_of_def)
  have "map (consolidated 4 (\<lambda>win. dround (of_int (known_sum win) / of_nat (length (known win)))) (Fin (1 / 2))) (full_windows 4 st) =
      (if (1::nat) = 0 then [] else primary_val (update_cdp CF_AVERAGE (Fin 7) 1 2 2 4 (Fin (1 / 2)) c)
         # replicate (1 - 1) (secondary_val (update_cdp CF_AVERAGE (Fin 7) 1 2 2 4 (Fin (1 / 2)) c))) \<and>
      cdp_holds 4 (average_rep 4) (update_cdp CF_AVERAGE (Fin 7) 1 2 2 4 (Fin (1 / 2)) c) (drop (1 * 4) st)"
    unfolding st_def by (rule update_cdp_average_exact [OF h si(3) _ _ _ valid_xff_half k refl]) simp_all
  then show ?thesis unfolding fw c_def [symmetric] using m by simp
qed

end
