(* ===== verification/Counter_Diff.thy ===== *)
theory Counter_Diff
  imports C_Strings
begin

text \<open>
  \<open>rrd_diff.c\<close>: the difference of two counter readings given as decimal strings, computed digit by
  digit so that readings beyond the precision of a double keep their low digits. The reference is
  the integer difference of the two numbers, rounded once; the routine is shown to compute it.

  The pointers of the source walk from the last digit to the first: strings are taken reversed, and
  \<open>r\<close> collects the characters of \<open>res\<close> from the last one on. The source also cuts both arguments in
  place behind their digits; its only caller overwrites one and has checked the other to have nothing
  there.
\<close>

section \<open>The routine\<close>

definition LAST_DS_LEN :: nat where
  "LAST_DS_LEN = 30"

text \<open>The first loop: skip to a digit or the end, remembering a minus sign.\<close>

fun skip_to_digit :: "bool \<Rightarrow> string \<Rightarrow> bool \<times> string" where
  "skip_to_digit neg [] = (neg, [])"
| "skip_to_digit neg (c # cs) =
     (if is_digit c then (neg, c # cs) else skip_to_digit (neg \<or> c = CHR ''-'') cs)"

definition codes_rev :: "string \<Rightarrow> int list" where
  "codes_rev str = rev (map (\<lambda>c. int (code c)) str)"

text \<open>The subtraction loop, \<open>m\<close> times; the second component is the last borrow \<open>c\<close>. With \<open>m\<close> the
  longer length one of the two strings still has a digit in every iteration.\<close>

fun diff_loop :: "nat \<Rightarrow> int list \<Rightarrow> int list \<Rightarrow> int \<Rightarrow> int list \<times> int" where
  "diff_loop 0 as bs c = ([], c)"
| "diff_loop (Suc m) as bs c =
     (let r1 = (if as \<noteq> [] \<and> bs \<noteq> [] then ((hd as - c) - hd bs) + 48
                else if as \<noteq> [] then hd as - c
                else (48 - hd bs - c) + 48);
          (r1, c) = (if r1 < 48 then (r1 + 10, 1) else if r1 > 57 then (r1 - 10, 1) else (r1, 0));
          (rs, c) = diff_loop m (tl as) (tl bs) c
      in (r1 # rs, c))"

text \<open>The complement loop for a negative difference.\<close>

fun compl_loop :: "int list \<Rightarrow> int \<Rightarrow> int list" where
  "compl_loop [] c = []"
| "compl_loop (r1 # rs) c =
     (if 48 \<le> r1 \<and> r1 \<le> 57
      then let r1 = (57 - r1 + c) + 48
           in if r1 > 57 then (r1 - 10) # compl_loop rs 1 else r1 # compl_loop rs 0
      else r1 # rs)"

text \<open>The result buffer behind \<open>res[0]\<close>: blanks, then the digits, in reading order.\<close>

definition res_string :: "int list \<Rightarrow> string" where
  "res_string rs = [CHR '' '', CHR '' ''] @ rev (map (\<lambda>r. char_of (nat r)) rs)"

definition rrd_diff :: "string \<Rightarrow> string \<Rightarrow> dbl" where
  "rrd_diff a b =
     (let (a_neg, a) = skip_to_digit False a;
          a = takeWhile is_digit a;
          (b_neg, b) = skip_to_digit False b;
          b = takeWhile is_digit b
      in if a = [] \<or> b = [] then NaN
         else if a_neg \<noteq> b_neg then NaN
         else
           let m = max (length a) (length b)
           in if m > LAST_DS_LEN then NaN
              else
                let (rs, c) = diff_loop m (codes_rev a) (codes_rev b) 0;
                    result = (if c \<noteq> 0 then - atof (res_string (compl_loop rs c)) else atof (res_string rs))
                in if a_neg \<and> b_neg then - result else result)"

text \<open>The highest index of \<open>res\<close> that the routine writes: the terminator at \<open>r1[1]\<close>.\<close>

definition res_terminator :: "nat \<Rightarrow> nat" where
  "res_terminator m = (m + 1) + 1"

definition res_size :: nat where
  "res_size = LAST_DS_LEN + 1"

section \<open>The loops on digits\<close>

definition digit_codes :: "int list \<Rightarrow> bool" where
  "digit_codes rs \<longleftrightarrow> list_all (\<lambda>r. 48 \<le> r \<and> r \<le> 57) rs"

text \<open>The number that a list of digit characters, last digit first, stands for.\<close>

fun lv :: "int list \<Rightarrow> int" where
  "lv [] = 0"
| "lv (r # rs) = (r - 48) + 10 * lv rs"

lemma digit_codes_simps [simp]:
  "digit_codes []" "digit_codes (r # rs) \<longleftrightarrow> 48 \<le> r \<and> r \<le> 57 \<and> digit_codes rs"
  by (auto simp: digit_codes_def)

lemma lv_bounds: "digit_codes rs \<Longrightarrow> 0 \<le> lv rs \<and> lv rs < 10 ^ length rs"
  by (induction rs) auto

lemma lv_snoc: "lv (rs @ [r]) = lv rs + (r - 48) * 10 ^ length rs"
  by (induction rs) (simp_all add: algebra_simps)

lemma diff_loop_correct:
  assumes "digit_codes as" "digit_codes bs" "max (length as) (length bs) = m" "c = 0 \<or> c = 1"
    and "diff_loop m as bs c = (rs, c')"
  shows "digit_codes rs \<and> length rs = m \<and> (c' = 0 \<or> c' = 1) \<and> lv rs - 10 ^ m * c' = lv as - lv bs - c"
  using assms
proof (induction m arbitrary: as bs c rs)
  case 0
  then show ?case by auto
next
  case (Suc m)
  define r0 where "r0 = (if as \<noteq> [] \<and> bs \<noteq> [] then ((hd as - c) - hd bs) + 48
                else if as \<noteq> [] then hd as - c else (48 - hd bs - c) + 48)"
  define r1 where "r1 = (if r0 < 48 then r0 + 10 else if r0 > 57 then r0 - 10 else r0)"
  define c1 :: int where "c1 = (if r0 < 48 then 1 else if r0 > 57 then 1 else 0)"
  have dig: "as \<noteq> [] \<Longrightarrow> 48 \<le> hd as \<and> hd as \<le> 57" "bs \<noteq> [] \<Longrightarrow> 48 \<le> hd bs \<and> hd bs \<le> 57"
    "digit_codes (tl as)" "digit_codes (tl bs)"
    using Suc.prems(1,2) by (cases as; cases bs; simp)+
  have ne: "as \<noteq> [] \<or> bs \<noteq> []" using Suc.prems(3) by auto
  have len: "max (length (tl as)) (length (tl bs)) = m" using Suc.prems(3) by auto
  have r0: "38 \<le> r0" "r0 \<le> 57" using dig(1,2) ne Suc.prems(4) by (auto simp: r0_def)
  have val: "(if as = [] then 0 else hd as - 48) - (if bs = [] then 0 else hd bs - 48) - c = (r1 - 48) - 10 * c1"
    using ne r0 by (auto simp: r1_def c1_def r0_def)
  have lvs: "lv as = (if as = [] then 0 else hd as - 48) + 10 * lv (tl as)"
    "lv bs = (if bs = [] then 0 else hd bs - 48) + 10 * lv (tl bs)"
    by (cases as; simp) (cases bs; simp)
  obtain rs' where rs': "diff_loop m (tl as) (tl bs) c1 = (rs', c')" and rs: "rs = r1 # rs'"
    using Suc.prems(5) unfolding diff_loop.simps Let_def r0_def [symmetric]
    by (auto simp: r1_def c1_def split: prod.splits if_splits)
  have "c1 = 0 \<or> c1 = 1" by (simp add: c1_def)
  from Suc.IH [OF dig(3,4) len this rs']
  have IH: "digit_codes rs' \<and> length rs' = m \<and> (c' = 0 \<or> c' = 1) \<and>
      lv rs' - 10 ^ m * c' = lv (tl as) - lv (tl bs) - c1" .
  then have "lv rs - 10 ^ Suc m * c' = (r1 - 48) + 10 * (lv (tl as) - lv (tl bs) - c1)"
    by (simp add: rs algebra_simps)
  also have "\<dots> = lv as - lv bs - c" unfolding lvs using val by (simp add: algebra_simps)
  finally show ?case using IH r0 by (auto simp: rs r1_def)
qed

lemma compl_loop_correct:
  assumes "digit_codes rs" and "c = 0 \<or> c = 1"
  shows "digit_codes (compl_loop rs c) \<and> length (compl_loop rs c) = length rs \<and>
    (\<exists>k. (k = 0 \<or> k = 1) \<and> lv (compl_loop rs c) + 10 ^ length rs * k = 10 ^ length rs - 1 - lv rs + c)"
  using assms
proof (induction rs arbitrary: c)
  case Nil
  then show ?case by auto
next
  case (Cons r rs)
  define r1 where "r1 = (57 - r + c) + 48"
  define c1 :: int where "c1 = (if r1 > 57 then 1 else 0)"
  have r: "48 \<le> r" "r \<le> 57" using Cons.prems by simp_all
  then have eq: "compl_loop (r # rs) c = (r1 - 10 * c1) # compl_loop rs c1"
    by (simp add: r1_def c1_def Let_def)
  have c1: "c1 = 0 \<or> c1 = 1" by (simp add: c1_def)
  obtain k where k: "k = 0 \<or> k = 1"
    "lv (compl_loop rs c1) + 10 ^ length rs * k = 10 ^ length rs - 1 - lv rs + c1"
    using Cons.IH [OF _ c1] Cons.prems by auto
  have "lv (compl_loop (r # rs) c) + 10 ^ length (r # rs) * k
      = (r1 - 10 * c1 - 48) + 10 * (10 ^ length rs - 1 - lv rs + c1)"
    unfolding eq using k(2) by (simp add: algebra_simps)
  also have "\<dots> = 10 ^ length (r # rs) - 1 - lv (r # rs) + c" by (simp add: r1_def algebra_simps)
  finally have val: "\<exists>k. (k = 0 \<or> k = 1) \<and> lv (compl_loop (r # rs) c) + 10 ^ length (r # rs) * k
      = 10 ^ length (r # rs) - 1 - lv (r # rs) + c" using k(1) by blast
  have "48 \<le> r1 - 10 * c1 \<and> r1 - 10 * c1 \<le> 57" using r Cons.prems(2) by (auto simp: r1_def c1_def)
  then have "digit_codes (compl_loop (r # rs) c) \<and> length (compl_loop (r # rs) c) = length (r # rs)"
    unfolding eq using Cons.IH [OF _ c1] Cons.prems by simp
  with val show ?case by blast
qed

lemma compl_loop_neg:
  assumes "digit_codes rs" and "0 < lv rs"
  shows "lv (compl_loop rs 1) = 10 ^ length rs - lv rs"
proof -
  obtain k where k: "k = 0 \<or> k = 1" "lv (compl_loop rs 1) + 10 ^ length rs * k = 10 ^ length rs - lv rs"
    and d: "digit_codes (compl_loop rs 1)"
    using compl_loop_correct [OF assms(1), of 1] by auto
  have "0 \<le> lv (compl_loop rs 1)" using lv_bounds [OF d] by simp
  with k assms(2) show ?thesis by auto
qed

lemma lv_codes_rev: "lv (codes_rev ds) = dec_val ds"
proof (induction ds rule: rev_induct)
  case (snoc d ds)
  have "lv (codes_rev (ds @ [d])) = (int (code d) - 48) + 10 * lv (codes_rev ds)"
    by (simp add: codes_rev_def)
  with snoc show ?case by (simp add: dec_val_def digit_val_def code_def of_nat_of_char)
qed (simp add: codes_rev_def dec_val_def)

lemma digit_codes_rev: "list_all is_digit ds \<Longrightarrow> digit_codes (codes_rev ds)"
  by (auto simp: codes_rev_def digit_codes_def list_all_iff is_digit_code)

lemma atof_res_string:
  assumes "digit_codes rs" and "rs \<noteq> []"
  shows "atof (res_string rs) = d_of_int (lv rs)"
proof -
  define ds where "ds = rev (map (\<lambda>r. char_of (nat r)) rs)"
  have code: "of_char (char_of (nat r) :: char) = nat r" if "48 \<le> r" "r \<le> 57" for r :: int
    using that by (simp add: of_char_mod_256)
  have dig: "list_all is_digit ds"
    using assms(1) code by (auto simp: ds_def digit_codes_def list_all_iff is_digit_def)
  have "codes_rev ds = map (\<lambda>r. int (of_char (char_of (nat r) :: char))) rs"
    by (simp add: codes_rev_def ds_def rev_map code_def o_def)
  also have "\<dots> = rs"
    using assms(1) code by (intro map_idI) (auto simp: digit_codes_def list_all_iff)
  finally have val: "dec_val ds = lv rs" by (simp flip: lv_codes_rev)
  have "ds \<noteq> []" using assms(2) by (simp add: ds_def)
  have "strtod ([CHR '' '', CHR '' ''] @ ds) = (signed_result False (of_int (dec_val ds)), [])"
    by (rule strtod_spaces [OF _ strtod_digits [OF dig \<open>ds \<noteq> []\<close>] \<open>ds \<noteq> []\<close>]) (simp add: isspace_def code_def)
  then show ?thesis
    by (simp add: atof_def res_string_def flip: ds_def) (simp add: signed_result_def d_of_int_def val Let_def)
qed

section \<open>The routine computes the difference\<close>

lemma skip_to_digit_eq:
  "skip_to_digit neg str = (neg \<or> CHR ''-'' \<in> set (takeWhile (\<lambda>c. \<not> is_digit c) str),
     dropWhile (\<lambda>c. \<not> is_digit c) str)"
  by (induction str arbitrary: neg) auto

text \<open>The reading in a string: its first run of digits, and whether a minus sign stands before it.\<close>

definition reading_digits :: "string \<Rightarrow> string" where
  "reading_digits str = takeWhile is_digit (dropWhile (\<lambda>c. \<not> is_digit c) str)"

definition reading_neg :: "string \<Rightarrow> bool" where
  "reading_neg str \<longleftrightarrow> CHR ''-'' \<in> set (takeWhile (\<lambda>c. \<not> is_digit c) str)"

definition reading :: "string \<Rightarrow> int" where
  "reading str = (if reading_neg str then - dec_val (reading_digits str) else dec_val (reading_digits str))"

definition diff_defined :: "string \<Rightarrow> string \<Rightarrow> bool" where
  "diff_defined a b \<longleftrightarrow>
     reading_digits a \<noteq> [] \<and> reading_digits b \<noteq> [] \<and> (reading_neg a \<longleftrightarrow> reading_neg b) \<and>
     length (reading_digits a) \<le> LAST_DS_LEN \<and> length (reading_digits b) \<le> LAST_DS_LEN"

lemma digits_reading: "list_all is_digit (reading_digits str)"
  by (auto simp: reading_digits_def list_all_iff dest: set_takeWhileD)

lemma d_of_int_uminus: "i \<noteq> 0 \<Longrightarrow> d_of_int (- i) = - d_of_int i"
  by (simp add: d_of_int_def dround_uminus)

text \<open>The loops together, on the digits of two non-negative readings.\<close>

definition digits_diff :: "string \<Rightarrow> string \<Rightarrow> dbl" where
  "digits_diff a b =
     (let (rs, c) = diff_loop (max (length a) (length b)) (codes_rev a) (codes_rev b) 0
      in if c \<noteq> 0 then - atof (res_string (compl_loop rs c)) else atof (res_string rs))"

lemma digits_diff_correct:
  assumes "list_all is_digit a" "list_all is_digit b" "a \<noteq> []"
  shows "digits_diff a b = d_of_int (dec_val a - dec_val b)"
proof -
  define m where "m = max (length a) (length b)"
  obtain rs c where loop: "diff_loop m (codes_rev a) (codes_rev b) 0 = (rs, c)" by (metis surj_pair)
  have len: "max (length (codes_rev a)) (length (codes_rev b)) = m" by (simp add: codes_rev_def m_def)
  have R: "digit_codes rs" "length rs = m" "c = 0 \<or> c = 1" "lv rs - 10 ^ m * c = dec_val a - dec_val b"
    using diff_loop_correct [OF digit_codes_rev [OF assms(1)] digit_codes_rev [OF assms(2)] len _ loop]
    by (simp_all add: lv_codes_rev)
  have "rs \<noteq> []" using R(2) assms(3) by (auto simp: m_def max_def split: if_splits)
  show ?thesis
  proof (cases "c = 0")
    case True
    then show ?thesis
      using R loop atof_res_string [OF R(1) \<open>rs \<noteq> []\<close>] by (simp add: digits_diff_def flip: m_def)
  next
    case False
    then have c: "c = 1" using R(3) by simp
    have A: "0 \<le> dec_val a" using dec_val_nonneg [OF assms(1)] .
    have "dec_val b < 10 ^ m"
    proof -
      have "dec_val b < 10 ^ length b"
        using lv_bounds [OF digit_codes_rev [OF assms(2)]] unfolding lv_codes_rev by (simp add: codes_rev_def)
      also have "\<dots> \<le> 10 ^ m" by (intro power_increasing) (simp_all add: m_def)
      finally show ?thesis .
    qed
    with A R(4) c have pos: "0 < lv rs" by simp
    have neg: "dec_val a - dec_val b < 0" using R(4) c lv_bounds [OF R(1)] R(2) by simp
    note C = compl_loop_correct [OF R(1), of 1] compl_loop_neg [OF R(1) pos]
    have "compl_loop rs 1 \<noteq> []" using C(1) \<open>rs \<noteq> []\<close> by auto
    moreover have "10 ^ m - lv rs = - (dec_val a - dec_val b)" using R(4) c by simp
    ultimately have "atof (res_string (compl_loop rs 1)) = d_of_int (- (dec_val a - dec_val b))"
      using atof_res_string [of "compl_loop rs 1"] C R(2) by simp
    also have "\<dots> = - d_of_int (dec_val a - dec_val b)" using neg by (intro d_of_int_uminus) simp
    finally show ?thesis
      using loop c by (simp add: digits_diff_def flip: m_def) (cases "d_of_int (dec_val a - dec_val b)"; simp)
  qed
qed

lemma rrd_diff_eq:
  "rrd_diff a b =
     (if diff_defined a b
      then (if reading_neg a then - digits_diff (reading_digits a) (reading_digits b)
            else digits_diff (reading_digits a) (reading_digits b))
      else NaN)"
  unfolding rrd_diff_def skip_to_digit_eq diff_defined_def digits_diff_def
  by (auto simp: Let_def split_beta reading_digits_def reading_neg_def)

section \<open>Properties\<close>

lemma rrd_diff_reading:
  "rrd_diff a b =
     (if diff_defined a b
      then (if reading_neg a \<and> reading a = reading b then NZero else d_of_int (reading a - reading b))
      else NaN)"
proof (cases "diff_defined a b")
  case True
  then have "reading_digits a \<noteq> []" and same: "reading_neg b = reading_neg a" by (auto simp: diff_defined_def)
  then have "digits_diff (reading_digits a) (reading_digits b)
      = d_of_int (dec_val (reading_digits a) - dec_val (reading_digits b))" (is "_ = d_of_int ?d")
    using digits_diff_correct [OF digits_reading digits_reading] by blast
  moreover have "reading a - reading b = (if reading_neg a then - ?d else ?d)"
    using same by (simp add: reading_def)
  moreover have "- d_of_int ?d = (if ?d = 0 then NZero else d_of_int (- ?d))"
    by (simp add: d_of_int_uminus del: minus_diff_eq)
  ultimately show ?thesis using True by (auto simp: rrd_diff_eq)
qed (simp add: rrd_diff_eq)

text \<open>
  C34: for every pair of strings, \<open>rrd_diff\<close> is the exact integer difference of the two readings,
  rounded once to a double, whenever both have digits, the same sign and at most \<open>LAST_DS_LEN\<close> digits
  (two equal negative readings give the negative zero); in every other case it is NaN.
\<close>

theorem rrd_diff_correct:
  "rrd_diff a b =
     (if diff_defined a b
      then (if reading_neg a \<and> reading a = reading b then NZero else d_of_int (reading a - reading b))
      else NaN)"
  by (rule rrd_diff_reading)

text \<open>
  The result buffer has \<open>LAST_DS_LEN + 1\<close> bytes and the terminator goes to index \<open>m + 2\<close> for
  readings of \<open>m\<close> digits, so the routine stays inside the buffer exactly up to \<open>28\<close> digits: the guard
  \<open>m > LAST_DS_LEN\<close> lets readings of \<open>29\<close> and \<open>30\<close> digits write past its end.
\<close>

lemma rrd_diff_buffer:
  "(res_terminator m < res_size \<longleftrightarrow> m \<le> 28) \<and> (\<exists>m \<le> LAST_DS_LEN. res_size \<le> res_terminator m)"
  by (auto simp: res_terminator_def res_size_def LAST_DS_LEN_def intro: exI [of _ 30])

end
