(* ===== verification/Rpn.thy ===== *)
theory Rpn
  imports C_Strings "HOL-Library.Sublist"
begin

text \<open>
  The RPN calculator (\<open>rrd_rpncalc.c\<close>): parsing of expressions, the compact form stored in the header
  of a COMPUTE data source, the conversion back to text, and the stack machine \<open>rpn_calc\<close>.

  The stack is a list, top first; \<open>stptr\<close> of the source is its length minus one. A node's \<open>data\<close>
  pointer is an array together with a position. Reads that the source makes outside its arrays are
  the error \<open>RpnOutOfBounds\<close>. The functions of \<open>libm\<close> whose results C leaves to the implementation, the
  clock and the time zone are arguments (\<open>rpn_env\<close>).
\<close>

section \<open>Nodes\<close>

record rpnp_t =
  op :: op_en
  val :: dbl
  ptr :: int
  data :: "dbl list"
  data_pos :: int
  node_ds_cnt :: int
  node_step :: int

text \<open>\<open>calloc\<close> clears a node.\<close>

definition rpn_node :: "op_en \<Rightarrow> rpnp_t" where
  "rpn_node o' = \<lparr>op = o', val = 0, ptr = 0, data = [], data_pos = 0, node_ds_cnt = 0, node_step = 0\<rparr>"

section \<open>Parsing\<close>

text \<open>The operator names in the order in which \<open>rpn_parse\<close> tries them; \<open>PREV(name)\<close> is tried behind
  \<open>COUNT\<close>.\<close>

definition match_ops1 :: "(op_en \<times> string) list" where
  "match_ops1 =
     [(OP_ADD, ''+''), (OP_SUB, ''-''), (OP_MUL, ''*''), (OP_DIV, ''/''), (OP_MOD, ''%''), (OP_SIN, ''SIN''),
      (OP_COS, ''COS''), (OP_LOG, ''LOG''), (OP_FLOOR, ''FLOOR''), (OP_CEIL, ''CEIL''), (OP_EXP, ''EXP''),
      (OP_DUP, ''DUP''), (OP_EXC, ''EXC''), (OP_POP, ''POP''), (OP_LTIME, ''LTIME''), (OP_LT, ''LT''),
      (OP_LE, ''LE''), (OP_GT, ''GT''), (OP_GE, ''GE''), (OP_EQ, ''EQ''), (OP_IF, ''IF''), (OP_MIN, ''MIN''),
      (OP_MAX, ''MAX''), (OP_LIMIT, ''LIMIT''), (OP_UNKN, ''UNKN''), (OP_UN, ''UN''), (OP_NEGINF, ''NEGINF''),
      (OP_NE, ''NE''), (OP_COUNT, ''COUNT'')]"

definition match_ops2 :: "(op_en \<times> string) list" where
  "match_ops2 =
     [(OP_PREV, ''PREV''), (OP_INF, ''INF''), (OP_ISINF, ''ISINF''), (OP_NOW, ''NOW''), (OP_TIME, ''TIME''),
      (OP_ATAN2, ''ATAN2''), (OP_ATAN, ''ATAN''), (OP_SQRT, ''SQRT''), (OP_SORT, ''SORT''), (OP_REV, ''REV''),
      (OP_TREND, ''TREND''), (OP_TRENDNAN, ''TRENDNAN''), (OP_PREDICT, ''PREDICT''),
      (OP_PREDICTSIGMA, ''PREDICTSIGMA''), (OP_RAD2DEG, ''RAD2DEG''), (OP_DEG2RAD, ''DEG2RAD''), (OP_AVG, ''AVG''),
      (OP_ABS, ''ABS''), (OP_ADDNAN, ''ADDNAN'')]"

text \<open>\<open>match_op\<close>: the name, followed by a comma or the end.\<close>

definition ends_token :: "string \<Rightarrow> bool" where
  "ends_token r \<longleftrightarrow> r = [] \<or> hd r = CHR '',''"

fun match_op :: "(op_en \<times> string) list \<Rightarrow> string \<Rightarrow> (op_en \<times> string) option" where
  "match_op [] expr = None"
| "match_op ((o', nam) # ops) expr =
     (if prefix nam expr \<and> ends_token (drop (length nam) expr) then Some (o', drop (length nam) expr)
      else match_op ops expr)"

text \<open>\<open>DEF_NAM_FMT\<close>: up to 255 characters of the set.\<close>

definition is_name_char :: "char \<Rightarrow> bool" where
  "is_name_char c \<longleftrightarrow> isalnum c \<or> c = CHR ''-'' \<or> c = CHR ''_''"

definition scan_name :: "string \<Rightarrow> string" where
  "scan_name expr = take 255 (takeWhile is_name_char expr)"

text \<open>
  Errors of the source, and three places where it leaves its memory: \<open>RpnNullWrite\<close>, \<open>RpnReadBehind\<close> and \<open>RpnOutOfBounds\<close>.
\<close>

datatype rpn_error = RpnTooManyNodes | RpnConstantRange | RpnParseFailed | RpnOpNotSupported
  | RpnStackUnderflow | RpnVdef | RpnMalformedTrend | RpnNegativeShift | RpnFinalStack
  | RpnOutOfBounds | RpnNoEnd | RpnNullWrite | RpnReadBehind

text \<open>
  \<open>match_op_param\<close>: \<open>None\<close> when \<open>sscanf\<close> does not match; otherwise the branch is taken, and succeeds
  when the character behind the closing parenthesis ends the token and the name is known. The
  parenthesis itself is not checked; when the expression ends without it the source looks at the character behind the
  end of the string.
\<close>

definition match_op_param :: "(string \<Rightarrow> int) \<Rightarrow> string \<Rightarrow> (rpn_error + rpnp_t \<times> string) option" where
  "match_op_param lookup expr =
     (if prefix ''PREV('' expr \<and> scan_name (drop 5 expr) \<noteq> []
      then let vname = scan_name (drop 5 expr); len = 4 + length vname + 2
           in Some (if length expr < len then Inl RpnReadBehind
                    else if ends_token (drop len expr) \<and> \<not> lookup vname < 0
                    then Inr ((rpn_node OP_PREV_OTHER)\<lparr>ptr := lookup vname\<rparr>, drop len expr) else Inl RpnParseFailed)
      else None)"

definition parse_number :: "string \<Rightarrow> (rpnp_t \<times> string) option" where
  "parse_number expr =
     (let ((v, _), rest) = strtod expr
      in if rest \<noteq> expr \<and> rest \<noteq> [] \<and> hd rest = CHR '','' then Some ((rpn_node OP_NUMBER)\<lparr>val := v\<rparr>, rest) else None)"

definition parse_variable :: "(string \<Rightarrow> int) \<Rightarrow> string \<Rightarrow> (rpnp_t \<times> string) option" where
  "parse_variable lookup expr =
     (let vname = scan_name expr
      in if vname \<noteq> [] \<and> lookup vname \<noteq> - 1
         then Some ((rpn_node OP_VARIABLE)\<lparr>ptr := lookup vname\<rparr>, drop (length vname) expr) else None)"

definition rpn_token :: "(string \<Rightarrow> int) \<Rightarrow> string \<Rightarrow> rpn_error + rpnp_t \<times> string" where
  "rpn_token lookup expr =
     (case parse_number expr of
        Some r \<Rightarrow> Inr r
      | None \<Rightarrow>
        (case match_op match_ops1 expr of
           Some (o', rest) \<Rightarrow> Inr (rpn_node o', rest)
         | None \<Rightarrow>
           (case match_op_param lookup expr of
              Some r \<Rightarrow> r
            | None \<Rightarrow>
              (case match_op match_ops2 expr of
                 Some (o', rest) \<Rightarrow> Inr (rpn_node o', rest)
               | None \<Rightarrow> (case parse_variable lookup expr of Some r \<Rightarrow> Inr r | None \<Rightarrow> Inl RpnParseFailed)))))"

section \<open>Every token consumes input\<close>

lemma strip_prefix_ci_suffix: "strip_prefix_ci ps xs = Some r \<Longrightarrow> suffix r xs"
  by (induction ps xs rule: strip_prefix_ci.induct) (auto split: if_splits intro: suffix_ConsI)

lemma strip_sign_suffix: "suffix (snd (strip_sign xs)) xs"
  by (simp add: strip_sign_def suffix_ConsI split: list.splits)

lemma parse_exp_suffix: "suffix (snd (parse_exp m xs)) xs"
proof (cases xs)
  case (Cons c cs)
  have "suffix (dropWhile is_digit (snd (strip_sign cs))) (c # cs)"
    by (meson suffix_ConsI suffix_order.trans suffix_dropWhile strip_sign_suffix)
  then show ?thesis by (simp add: parse_exp_def Cons Let_def split_beta)
qed (simp add: parse_exp_def)

lemma parse_frac_suffix: "suffix (snd (parse_frac P xs)) xs"
  by (auto simp: parse_frac_def suffix_ConsI suffix_dropWhile split: list.splits)

lemma nan_tail_suffix: "suffix (nan_tail r) r"
proof -
  have "suffix ds (c # cs)" if "dropWhile (\<lambda>c. isalnum c \<or> c = CHR ''_'') cs = d # ds" for c d cs ds
    using that by (metis suffix_ConsD suffix_ConsI suffix_dropWhile)
  then show ?thesis unfolding nan_tail_def by (auto split: list.split)
qed

lemma parse_tail_suffix: "suffix (snd (parse_exp m (snd (parse_frac P (dropWhile P r))))) r"
  by (meson suffix_order.trans suffix_dropWhile parse_exp_suffix parse_frac_suffix)

lemma parse_dec_suffix: "parse_dec n r = Some (v, rest) \<Longrightarrow> suffix rest r"
  unfolding parse_dec_def Let_def split_beta by (auto split: if_splits intro: parse_tail_suffix)

lemma parse_hex_suffix: "parse_hex n r = Some (v, rest) \<Longrightarrow> suffix rest r"
  unfolding parse_hex_def Let_def split_beta by (auto split: if_splits intro: parse_tail_suffix)

lemma strtod_suffix: "suffix (snd (strtod str)) str"
proof -
  define r where "r = snd (strip_sign (dropWhile isspace str))"
  have r: "suffix r str"
    unfolding r_def by (meson suffix_order.trans suffix_dropWhile strip_sign_suffix)
  have p: "strip_prefix_ci q r = Some rest \<Longrightarrow> suffix rest str" for q rest
    using strip_prefix_ci_suffix r by (meson suffix_order.trans)
  have d: "parse_dec n r = Some (v, rest) \<Longrightarrow> suffix rest str" for n v rest
    using parse_dec_suffix r by (meson suffix_order.trans)
  have h: "strip_prefix_ci q r = Some x \<Longrightarrow> parse_hex n x = Some (v, rest) \<Longrightarrow> suffix rest str" for q x n v rest
    using parse_hex_suffix p by (meson suffix_order.trans)
  have nn: "strip_prefix_ci q r = Some rest \<Longrightarrow> suffix (nan_tail rest) str" for q rest
    using nan_tail_suffix p by (meson suffix_order.trans)
  show ?thesis
    unfolding strtod_def Let_def split_beta r_def [symmetric]
    by (auto split: option.splits dest: p d h nn)
qed

lemma match_op_shorter:
  assumes "match_op ops expr = Some (o', rest)" and "[] \<notin> snd ` set ops"
  shows "length rest < length expr"
  using assms
proof (induction ops expr rule: match_op.induct)
  case (2 o1 nam ops expr)
  have "nam \<noteq> []" using "2.prems"(2) by auto
  then have "prefix nam expr \<Longrightarrow> length (drop (length nam) expr) < length expr"
    using prefix_length_le [of nam expr] by (cases nam) auto
  then show ?case using 2 by (auto split: if_splits)
qed simp

lemma rpn_token_shorter:
  assumes "rpn_token lookup expr = Inr (n, rest)"
  shows "length rest < length expr"
proof -
  have num: "length r < length expr" if h: "parse_number expr = Some (m, r)" for m r
  proof -
    have "r = snd (strtod expr)" "r \<noteq> expr" using h by (auto simp: parse_number_def Let_def split_beta split: if_splits)
    then show ?thesis using strtod_suffix [of expr] by (metis le_neq_implies_less suffix_length_le suffix_def append_eq_conv_conj append_self_conv2 length_0_conv length_append add_diff_cancel_right' diff_self_eq_0)
  qed
  have var: "length r < length expr" if h: "parse_variable lookup expr = Some (m, r)" for m r
    using h by (cases expr) (auto simp: parse_variable_def scan_name_def Let_def split: if_splits)
  have par: "length r < length expr" if h: "match_op_param lookup expr = Some (Inr (m, r))" for m r
    using h by (auto simp: match_op_param_def Let_def split: if_splits)
  have m1: "[] \<notin> snd ` set match_ops1" and m2: "[] \<notin> snd ` set match_ops2"
    by (simp_all add: match_ops1_def match_ops2_def)
  show ?thesis
    using assms num var par match_op_shorter [OF _ m1] match_op_shorter [OF _ m2]
    by (auto simp: rpn_token_def split: option.splits prod.splits)
qed

section \<open>The parser\<close>

text \<open>Each round takes one token and the comma behind it. For an empty expression no memory is allocated, and the
  source writes the terminator through a null pointer.\<close>

function rpn_tokens :: "(string \<Rightarrow> int) \<Rightarrow> string \<Rightarrow> rpn_error + rpnp_t list" where
  "rpn_tokens lookup expr =
     (if expr = [] then Inr []
      else case rpn_token lookup expr of
             Inl e \<Rightarrow> Inl e
           | Inr (n, rest) \<Rightarrow>
               if rest = [] then Inr [n]
               else if hd rest = CHR '','' then map_sum id (\<lambda>ns. n # ns) (rpn_tokens lookup (tl rest))
               else Inl RpnParseFailed)"
  by pat_completeness auto
termination
  by (relation "measure (\<lambda>(l, e). length e)") (auto dest: rpn_token_shorter)

declare rpn_tokens.simps [simp del]

definition rpn_parse :: "(string \<Rightarrow> int) \<Rightarrow> string \<Rightarrow> rpn_error + rpnp_t list" where
  "rpn_parse lookup expr = (if expr = [] then Inl RpnNullWrite else rpn_tokens lookup expr)"

section \<open>The compact form\<close>

definition DS_CDEF_MAX_RPN_NODES :: nat where
  "DS_CDEF_MAX_RPN_NODES = 8 * 10 div 4"

text \<open>The terminating node is not part of the lists; it counts for the limit.\<close>

definition compact_node :: "rpnp_t \<Rightarrow> rpn_cdefds_t option" where
  "compact_node n =
     (if op n = OP_NUMBER
      then let temp = dfloor (val n)
           in if temp < d_of_int (- 32768) \<or> d_of_int 32767 < temp then None
              else Some \<lparr>cop = OP_NUMBER, cval = s16 (d_to_int temp)\<rparr>
      else if op n = OP_VARIABLE \<or> op n = OP_PREV_OTHER then Some \<lparr>cop = op n, cval = s16 (ptr n)\<rparr>
      else Some \<lparr>cop = op n, cval = 0\<rparr>)"

fun compact_nodes :: "rpnp_t list \<Rightarrow> rpn_cdefds_t list option" where
  "compact_nodes [] = Some []"
| "compact_nodes (n # ns) =
     (case compact_node n of None \<Rightarrow> None | Some c \<Rightarrow> map_option (\<lambda>cs. c # cs) (compact_nodes ns))"

definition rpn_compact :: "rpnp_t list \<Rightarrow> rpn_error + rpn_cdefds_t list" where
  "rpn_compact ns =
     (if length ns + 1 > DS_CDEF_MAX_RPN_NODES then Inl RpnTooManyNodes
      else case compact_nodes ns of None \<Rightarrow> Inl RpnConstantRange | Some cs \<Rightarrow> Inr cs)"

definition expand_node :: "rpn_cdefds_t \<Rightarrow> rpnp_t" where
  "expand_node c =
     (if cop c = OP_NUMBER then (rpn_node OP_NUMBER)\<lparr>val := d_of_int (cval c)\<rparr>
      else if cop c = OP_VARIABLE \<or> cop c = OP_PREV_OTHER then (rpn_node (cop c))\<lparr>ptr := cval c\<rparr>
      else rpn_node (cop c))"

definition rpn_expand :: "rpn_cdefds_t list \<Rightarrow> rpnp_t list" where
  "rpn_expand cs = map expand_node cs"

text \<open>\<open>sprintf("%d", ...)\<close>.\<close>

definition sprint_d :: "int \<Rightarrow> string" where
  "sprint_d i = (if i < 0 then CHR ''-'' # show_nat (nat (- i)) else show_nat (nat i))"

text \<open>The text of an operator in \<open>rpn_compact2str\<close>: the names of the parser. There is none for \<open>OP_COUNT\<close>.
  For \<open>OP_PREV_OTHER\<close> the source asks for the text of \<open>OP_VARIABLE\<close>, which does not apply, and so writes
  nothing.\<close>

definition op_name :: "op_en \<Rightarrow> string" where
  "op_name o' =
     (if o' = OP_COUNT then []
      else case map_of (match_ops1 @ match_ops2) o' of Some nam \<Rightarrow> nam | None \<Rightarrow> [])"

definition compact2str_node :: "ds_def_t list \<Rightarrow> rpn_cdefds_t \<Rightarrow> string" where
  "compact2str_node ds c =
     (if cop c = OP_NUMBER then sprint_d (cval c)
      else if cop c = OP_VARIABLE then ds_nam (ds ! nat (cval c))
      else op_name (cop c))"

fun rpn_compact2str :: "ds_def_t list \<Rightarrow> rpn_cdefds_t list \<Rightarrow> string" where
  "rpn_compact2str ds [] = []"
| "rpn_compact2str ds [c] = compact2str_node ds c"
| "rpn_compact2str ds (c # cs) = compact2str_node ds c @ CHR '','' # rpn_compact2str ds cs"

section \<open>COMPUTE data sources\<close>

fun lookup_DS_from :: "nat \<Rightarrow> ds_def_t list \<Rightarrow> string \<Rightarrow> int" where
  "lookup_DS_from i [] nam = - 1"
| "lookup_DS_from i (d # ds) nam = (if nam = ds_nam d then int i else lookup_DS_from (Suc i) ds nam)"

definition lookup_DS :: "rrd \<Rightarrow> string \<Rightarrow> int" where
  "lookup_DS s nam = lookup_DS_from 0 (take (dscnt s) (ds_def s)) nam"

definition op_not_permitted :: "op_en \<Rightarrow> bool" where
  "op_not_permitted o' \<longleftrightarrow>
     o' = OP_TIME \<or> o' = OP_LTIME \<or> o' = OP_PREV \<or> o' = OP_COUNT \<or> o' = OP_TREND \<or> o' = OP_TRENDNAN \<or>
     o' = OP_PREDICT \<or> o' = OP_PREDICTSIGMA"

definition parseCDEF_DS :: "string \<Rightarrow> nat \<Rightarrow> rrd \<Rightarrow> (rpn_error, rrd) outcome" where
  "parseCDEF_DS str ds_idx s =
     (case rpn_parse (lookup_DS s) str of
        Inl e \<Rightarrow> (Some e, s)
      | Inr ns \<Rightarrow>
          if list_ex (\<lambda>n. op_not_permitted (op n)) ns then (Some RpnOpNotSupported, s)
          else case rpn_compact ns of
                 Inl e \<Rightarrow> (Some e, s)
               | Inr cs \<Rightarrow> (None, s\<lparr>ds_def := (ds_def s)[ds_idx := (ds_def s ! ds_idx)\<lparr>cdef := cs\<rparr>]\<rparr>))"

section \<open>The stack machine\<close>

record rpn_env =
  time_now :: int
  tzoffset_fn :: "int \<Rightarrow> int"
  sin_fn :: "dbl \<Rightarrow> dbl"
  cos_fn :: "dbl \<Rightarrow> dbl"
  log_fn :: "dbl \<Rightarrow> dbl"
  exp_fn :: "dbl \<Rightarrow> dbl"
  atan_fn :: "dbl \<Rightarrow> dbl"
  atan2_fn :: "dbl \<Rightarrow> dbl \<Rightarrow> dbl"
  sqrt_fn :: "dbl \<Rightarrow> dbl"

definition dbool :: "bool \<Rightarrow> dbl" where
  "dbool b = (if b then 1 else 0)"

text \<open>A comparison or extremum gives the unknown operand when there is one, the left one first.\<close>

definition with_known :: "(dbl \<Rightarrow> dbl \<Rightarrow> dbl) \<Rightarrow> dbl \<Rightarrow> dbl \<Rightarrow> dbl" where
  "with_known f x y = (if isnan x then x else if isnan y then y else f x y)"

text \<open>Operators that replace the topmost value.\<close>

definition rpn_unary :: "rpn_env \<Rightarrow> op_en \<Rightarrow> (dbl \<Rightarrow> dbl) option" where
  "rpn_unary env o' =
     (case o' of
        OP_SIN \<Rightarrow> Some (sin_fn env) | OP_ATAN \<Rightarrow> Some (atan_fn env)
      | OP_RAD2DEG \<Rightarrow> Some (\<lambda>x. d_const 5729577951 8 * x) | OP_DEG2RAD \<Rightarrow> Some (\<lambda>x. d_const 174532952 10 * x)
      | OP_COS \<Rightarrow> Some (cos_fn env) | OP_CEIL \<Rightarrow> Some dceil | OP_FLOOR \<Rightarrow> Some dfloor | OP_LOG \<Rightarrow> Some (log_fn env)
      | OP_EXP \<Rightarrow> Some (exp_fn env) | OP_UN \<Rightarrow> Some (\<lambda>x. dbool (isnan x)) | OP_ISINF \<Rightarrow> Some (\<lambda>x. dbool (isinf x))
      | OP_SQRT \<Rightarrow> Some (sqrt_fn env) | OP_ABS \<Rightarrow> Some dfabs | _ \<Rightarrow> None)"

text \<open>Operators that replace the two topmost values; \<open>x\<close> is the lower one.\<close>

definition rpn_binary :: "rpn_env \<Rightarrow> op_en \<Rightarrow> (dbl \<Rightarrow> dbl \<Rightarrow> dbl) option" where
  "rpn_binary env o' =
     (case o' of
        OP_ADD \<Rightarrow> Some (\<lambda>x y. x + y)
      | OP_ADDNAN \<Rightarrow> Some (\<lambda>x y. if isnan x then y else if isnan y then x else x + y)
      | OP_SUB \<Rightarrow> Some (\<lambda>x y. x - y) | OP_MUL \<Rightarrow> Some (\<lambda>x y. x * y) | OP_DIV \<Rightarrow> Some (\<lambda>x y. x / y)
      | OP_MOD \<Rightarrow> Some dfmod | OP_ATAN2 \<Rightarrow> Some (atan2_fn env)
      | OP_LT \<Rightarrow> Some (with_known (\<lambda>x y. dbool (x < y))) | OP_LE \<Rightarrow> Some (with_known (\<lambda>x y. dbool (x \<le> y)))
      | OP_GT \<Rightarrow> Some (with_known (\<lambda>x y. dbool (y < x))) | OP_GE \<Rightarrow> Some (with_known (\<lambda>x y. dbool (y \<le> x)))
      | OP_NE \<Rightarrow> Some (with_known (\<lambda>x y. dbool (\<not> deq x y))) | OP_EQ \<Rightarrow> Some (with_known (\<lambda>x y. dbool (deq x y)))
      | OP_MIN \<Rightarrow> Some (with_known (\<lambda>x y. if y < x then y else x))
      | OP_MAX \<Rightarrow> Some (with_known (\<lambda>x y. if x < y then y else x)) | _ \<Rightarrow> None)"

text \<open>Operators that replace three values \<open>x\<close>, \<open>y\<close>, \<open>z\<close>, with \<open>z\<close> on top.\<close>

definition rpn_ternary :: "op_en \<Rightarrow> (dbl \<Rightarrow> dbl \<Rightarrow> dbl \<Rightarrow> dbl) option" where
  "rpn_ternary o' =
     (case o' of
        OP_IF \<Rightarrow> Some (\<lambda>x y z. if isnan x \<or> deq x 0 then z else y)
      | OP_LIMIT \<Rightarrow> Some (\<lambda>x y z. if isnan x then x else if isnan y then y else if isnan z then z
                                    else if x < y then NaN else if z < x then NaN else x)
      | _ \<Rightarrow> None)"

text \<open>The comparison of \<open>SORT\<close>, and the merge sort that the C library's \<open>qsort\<close> is.\<close>

definition rpn_compare_double :: "dbl \<Rightarrow> dbl \<Rightarrow> int" where
  "rpn_compare_double x y = (let diff = x - y in if diff < 0 then - 1 else if 0 < diff then 1 else 0)"

fun rpn_merge :: "dbl list \<Rightarrow> dbl list \<Rightarrow> dbl list" where
  "rpn_merge [] ys = ys"
| "rpn_merge xs [] = xs"
| "rpn_merge (x # xs) (y # ys) =
     (if rpn_compare_double x y \<le> 0 then x # rpn_merge xs (y # ys) else y # rpn_merge (x # xs) ys)"

fun rpn_qsort :: "dbl list \<Rightarrow> dbl list" where
  "rpn_qsort xs =
     (if length xs \<le> 1 then xs
      else rpn_merge (rpn_qsort (take (length xs div 2) xs)) (rpn_qsort (drop (length xs div 2) xs)))"

declare rpn_qsort.simps [simp del]

definition rpn_avg :: "dbl list \<Rightarrow> dbl" where
  "rpn_avg vs =
     (let (cnt, acc1) = fold (\<lambda>v (cnt, acc1). if isnan v then (cnt, acc1) else (cnt + 1, acc1 + v)) vs (0::nat, 0)
      in if cnt > 0 then acc1 / d_of_nat cnt else NaN)"

text \<open>\<open>(int) ceil((float) a / (float) b)\<close>; single precision has 24 significant bits.\<close>

definition f32 :: "rat \<Rightarrow> rat" where
  "f32 x = (if x = 0 then 0 else let u = pow2 (flog2 \<bar>x\<bar> - 23) in of_int (rne (x / u)) * u)"

definition fdiv_ceil :: "int \<Rightarrow> int \<Rightarrow> int" where
  "fdiv_ceil a b =
     (if b = 0 then - (2 ^ 31)
      else let c = \<lceil>f32 (f32 (of_int a) / f32 (of_int b))\<rceil>
           in if - (2 ^ 31) \<le> c \<and> c < 2 ^ 31 then c else - (2 ^ 31))"

text \<open>\<open>n.data[k]\<close>\<close>

definition data_at :: "rpnp_t \<Rightarrow> int \<Rightarrow> dbl option" where
  "data_at n k =
     (let i = data_pos n + k in if 0 \<le> i \<and> nat i < length (data n) then Some (data n ! nat i) else None)"

text \<open>A variable: its current value, or the previous one; the pointer moves on at every multiple of the
  step. A step of zero divides by zero.\<close>

definition rpn_variable :: "int \<Rightarrow> int \<Rightarrow> rpnp_t \<Rightarrow> rpn_error + (dbl \<times> rpnp_t)" where
  "rpn_variable data_idx output_idx n =
     (if node_ds_cnt n = 0 then Inl RpnVdef
      else
        let v = (if op n = OP_VARIABLE then data_at n 0
                 else if output_idx \<le> 0 then Some NaN else data_at n (- node_ds_cnt n))
        in case v of
             None \<Rightarrow> Inl RpnOutOfBounds
           | Some v \<Rightarrow>
               if node_step n = 0 then Inl RpnOutOfBounds
               else Inr (v, if node_step n dvd data_idx then n\<lparr>data_pos := data_pos n + node_ds_cnt n\<rparr> else n))"

text \<open>The loop of TREND takes a value per step while a duration is left, one at least.\<close>

fun trend_sum :: "nat \<Rightarrow> bool \<Rightarrow> rpnp_t \<Rightarrow> int \<Rightarrow> dbl \<Rightarrow> nat \<Rightarrow> (dbl \<times> nat) option" where
  "trend_sum 0 ignorenan n i accum cnt = Some (accum, cnt)"
| "trend_sum (Suc k) ignorenan n i accum cnt =
     (case data_at n (node_ds_cnt n * i) of
        None \<Rightarrow> None
      | Some v \<Rightarrow> if ignorenan \<or> \<not> isnan v then trend_sum k ignorenan n (i - 1) (accum + v) (cnt + 1)
                  else trend_sum k ignorenan n (i - 1) accum cnt)"

definition rpn_trend :: "op_en \<Rightarrow> nat \<Rightarrow> rpnp_t list \<Rightarrow> int \<Rightarrow> dbl list \<Rightarrow> rpn_error + dbl list" where
  "rpn_trend o' rpi nodes output_idx st =
     (case st of
        d # _ # rest \<Rightarrow>
          if rpi < 2 \<or> op (nodes ! (rpi - 2)) \<noteq> OP_VARIABLE then Inl RpnMalformedTrend
          else
            let n = nodes ! (rpi - 2); dur = d_to_long d; step = node_step n
            in if output_idx + 1 \<ge> fdiv_ceil dur step
               then if step \<le> 0 \<and> dur > 0 then Inl RpnNoEnd
                    else
                      let k = (if dur \<le> 0 then 1 else nat ((dur + step - 1) div step))
                      in case trend_sum k (o' = OP_TREND) n 0 0 0 of
                           None \<Rightarrow> Inl RpnOutOfBounds
                         | Some (accum, cnt) \<Rightarrow> Inr ((if cnt = 0 then NaN else accum / d_of_nat cnt) # rest)
               else Inr (NaN # rest)
      | _ \<Rightarrow> Inl RpnStackUnderflow)"

text \<open>The sums of PREDICT over one shift: count, sum and sum of squares of the known values.\<close>

fun predict_shift :: "nat list \<Rightarrow> int \<Rightarrow> int \<Rightarrow> rpnp_t \<Rightarrow> nat \<times> dbl \<times> dbl \<Rightarrow> (nat \<times> dbl \<times> dbl) option" where
  "predict_shift [] shiftstep output_idx n acc = Some acc"
| "predict_shift (i # is) shiftstep output_idx n acc =
     (let offset = shiftstep + int i in
      if 0 \<le> offset \<and> offset < output_idx
      then (case data_at n (- node_ds_cnt n * offset) of
              None \<Rightarrow> None
            | Some v \<Rightarrow>
                (case acc of (cnt, acc1, acc2) \<Rightarrow>
                   predict_shift is shiftstep output_idx n
                     (if isnan v then acc else (cnt + 1, acc1 + v, acc2 + v * v))))
      else predict_shift is shiftstep output_idx n acc)"

fun predict_shifts :: "dbl list \<Rightarrow> nat \<Rightarrow> int \<Rightarrow> rpnp_t \<Rightarrow> nat \<times> dbl \<times> dbl \<Rightarrow> rpn_error + (nat \<times> dbl \<times> dbl)" where
  "predict_shifts [] locs output_idx n acc = Inr acc"
| "predict_shifts (x # xs) locs output_idx n acc =
     (let shiftstep = d_to_int x in
      if shiftstep < 0 then Inl RpnNegativeShift
      else case predict_shift [0 ..< locs] (fdiv_ceil shiftstep (node_step n)) output_idx n acc of
             None \<Rightarrow> Inl RpnOutOfBounds
           | Some acc \<Rightarrow> predict_shifts xs locs output_idx n acc)"

definition predict_value :: "rpn_env \<Rightarrow> op_en \<Rightarrow> nat \<times> dbl \<times> dbl \<Rightarrow> dbl" where
  "predict_value env o' acc =
     (case acc of (cnt, acc1, acc2) \<Rightarrow>
        if o' = OP_PREDICT then (if cnt > 0 then acc1 / d_of_nat cnt else NaN)
        else if cnt > 1
        then let v = d_of_nat cnt * acc2 - acc1 * acc1; c = dround (f32 (of_nat cnt))
             in if v < 0 then NaN else sqrt_fn env (v / (c * (c - 1)))
        else NaN)"

text \<open>
  The arguments below the value on top: the window, the number of shifts, and the shifts themselves
  (for a negative number, one shift that is multiplied). With a negative number and nothing below it
  the source reads below the stack.
\<close>

definition rpn_predict :: "rpn_env \<Rightarrow> op_en \<Rightarrow> nat \<Rightarrow> rpnp_t list \<Rightarrow> int \<Rightarrow> dbl list \<Rightarrow> rpn_error + dbl list" where
  "rpn_predict env o' rpi nodes output_idx st =
     (case st of
        _ # w # m # rest \<Rightarrow>
          (let locstepsize = d_to_int w; shifts = d_to_int m; n = nodes ! (rpi - 1);
               locs = nat (fdiv_ceil locstepsize (node_step n) + 1)
           in if int (length rest) < shifts then Inl RpnStackUnderflow
              else if shifts < 0 \<and> rest = [] then Inl RpnOutOfBounds
              else
                let xs = (if shifts < 0 then map (\<lambda>k. d_of_nat k * hd rest) [0 ..< nat (- shifts)]
                          else rev (take (nat shifts) rest));
                    below = (if shifts < 0 then tl rest else drop (nat shifts) rest)
                in case predict_shifts xs locs output_idx n (0, 0, 0) of
                     Inl e \<Rightarrow> Inl e
                   | Inr acc \<Rightarrow> Inr (predict_value env o' acc # below))
      | _ \<Rightarrow> Inl RpnStackUnderflow)"

text \<open>Operators with a counted number of arguments.\<close>

definition rpn_counted :: "op_en \<Rightarrow> dbl list \<Rightarrow> rpn_error + dbl list" where
  "rpn_counted o' st =
     (case st of
        [] \<Rightarrow> Inl RpnStackUnderflow
      | x # rest \<Rightarrow>
          let spn = d_to_int x in
          if int (length rest) < spn then Inl RpnStackUnderflow
          else if o' = OP_SORT
          then (if spn < 0 then Inl RpnOutOfBounds
                else Inr (rev (rpn_qsort (rev (take (nat spn) rest))) @ drop (nat spn) rest))
          else if o' = OP_REV then Inr (rev (take (nat spn) rest) @ drop (nat spn) rest)
          else Inr (rpn_avg (take (nat spn) rest) # drop (nat spn) rest))"

definition rpn_push :: "rpn_env \<Rightarrow> int \<Rightarrow> dbl list \<Rightarrow> int \<Rightarrow> rpnp_t \<Rightarrow> dbl option" where
  "rpn_push env data_idx output output_idx n =
     (case op n of
        OP_NUMBER \<Rightarrow> Some (val n)
      | OP_COUNT \<Rightarrow> Some (d_of_int (output_idx + 1))
      | OP_PREV \<Rightarrow> Some (if output_idx \<le> 0 then NaN else output ! nat (output_idx - 1))
      | OP_UNKN \<Rightarrow> Some NaN | OP_INF \<Rightarrow> Some PInf | OP_NEGINF \<Rightarrow> Some NInf
      | OP_NOW \<Rightarrow> Some (d_of_int (time_now env)) | OP_TIME \<Rightarrow> Some (d_of_int data_idx)
      | OP_LTIME \<Rightarrow> Some (d_of_int (tzoffset_fn env data_idx) + d_of_int data_idx)
      | _ \<Rightarrow> None)"

definition rpn_stack_op :: "op_en \<Rightarrow> dbl list \<Rightarrow> rpn_error + dbl list" where
  "rpn_stack_op o' st =
     (case o' of
        OP_DUP \<Rightarrow> (case st of x # r \<Rightarrow> Inr (x # x # r) | _ \<Rightarrow> Inl RpnStackUnderflow)
      | OP_POP \<Rightarrow> (case st of x # r \<Rightarrow> Inr r | _ \<Rightarrow> Inl RpnStackUnderflow)
      | OP_EXC \<Rightarrow> (case st of y # x # r \<Rightarrow> Inr (x # y # r) | _ \<Rightarrow> Inl RpnStackUnderflow)
      | _ \<Rightarrow> Inr st)"

text \<open>One operator: the nodes (whose data pointers may move) and the stack behind it.\<close>

definition rpn_step :: "rpn_env \<Rightarrow> int \<Rightarrow> dbl list \<Rightarrow> int \<Rightarrow> nat \<Rightarrow> rpnp_t list \<times> dbl list
    \<Rightarrow> rpn_error + (rpnp_t list \<times> dbl list)" where
  "rpn_step env data_idx output output_idx rpi ns =
     (case ns of (nodes, st) \<Rightarrow>
      let n = nodes ! rpi; keep = map_sum id (\<lambda>st. (nodes, st)) in
      if op n = OP_VARIABLE \<or> op n = OP_PREV_OTHER
      then map_sum id (\<lambda>(v, n). (nodes[rpi := n], v # st)) (rpn_variable data_idx output_idx n)
      else if op n = OP_TREND \<or> op n = OP_TRENDNAN then keep (rpn_trend (op n) rpi nodes output_idx st)
      else if op n = OP_PREDICT \<or> op n = OP_PREDICTSIGMA then keep (rpn_predict env (op n) rpi nodes output_idx st)
      else if op n = OP_SORT \<or> op n = OP_REV \<or> op n = OP_AVG then keep (rpn_counted (op n) st)
      else case rpn_push env data_idx output output_idx n of
             Some v \<Rightarrow> Inr (nodes, v # st)
           | None \<Rightarrow>
        (case rpn_unary env (op n) of
           Some f \<Rightarrow> (case st of x # r \<Rightarrow> Inr (nodes, f x # r) | _ \<Rightarrow> Inl RpnStackUnderflow)
         | None \<Rightarrow>
        (case rpn_binary env (op n) of
           Some f \<Rightarrow> (case st of y # x # r \<Rightarrow> Inr (nodes, f x y # r) | _ \<Rightarrow> Inl RpnStackUnderflow)
         | None \<Rightarrow>
        (case rpn_ternary (op n) of
           Some f \<Rightarrow> (case st of z # y # x # r \<Rightarrow> Inr (nodes, f x y z # r) | _ \<Rightarrow> Inl RpnStackUnderflow)
         | None \<Rightarrow> keep (rpn_stack_op (op n) st)))))"

fun rpn_run :: "rpn_env \<Rightarrow> int \<Rightarrow> dbl list \<Rightarrow> int \<Rightarrow> nat list \<Rightarrow> rpnp_t list \<times> dbl list
    \<Rightarrow> rpn_error + (rpnp_t list \<times> dbl list)" where
  "rpn_run env data_idx output output_idx [] ns = Inr ns"
| "rpn_run env data_idx output output_idx (rpi # rpis) ns =
     (case rpn_step env data_idx output output_idx rpi ns of
        Inl e \<Rightarrow> Inl e
      | Inr ns \<Rightarrow> rpn_run env data_idx output output_idx rpis ns)"

text \<open>The value that is stored to \<open>output[output_idx]\<close>, and the nodes.\<close>

definition rpn_calc :: "rpn_env \<Rightarrow> rpnp_t list \<Rightarrow> int \<Rightarrow> dbl list \<Rightarrow> int \<Rightarrow> rpn_error + (rpnp_t list \<times> dbl)" where
  "rpn_calc env nodes data_idx output output_idx =
     (case rpn_run env data_idx output output_idx [0 ..< length nodes] (nodes, []) of
        Inl e \<Rightarrow> Inl e
      | Inr (nodes, st) \<Rightarrow> (case st of [v] \<Rightarrow> Inr (nodes, v) | _ \<Rightarrow> Inl RpnFinalStack))"

section \<open>Compacting and expanding\<close>

text \<open>A node as the parser makes it: nothing but its constant or its index set.\<close>

definition plain_node :: "rpnp_t \<Rightarrow> bool" where
  "plain_node n \<longleftrightarrow>
     data n = [] \<and> data_pos n = 0 \<and> node_ds_cnt n = 0 \<and> node_step n = 0 \<and>
     (op n \<noteq> OP_NUMBER \<longrightarrow> val n = 0) \<and>
     (if op n = OP_VARIABLE \<or> op n = OP_PREV_OTHER then 0 \<le> ptr n \<and> ptr n < 2 ^ 15 else ptr n = 0)"

text \<open>What storing does to a constant: it is rounded down to an integer (and \<open>-0\<close> becomes \<open>0\<close>).\<close>

definition floor_const :: "rpnp_t \<Rightarrow> rpnp_t" where
  "floor_const n =
     (if op n = OP_NUMBER then n\<lparr>val := (if val n = NZero then 0 else dfloor (val n))\<rparr> else n)"

lemma Fin_less_dround:
  assumes "\<bar>k\<bar> < 2 ^ 53"
  shows "Fin (of_int k) < dround (of_int i) \<longleftrightarrow> k < i"
proof (cases "\<bar>i\<bar> \<le> 2 ^ 53")
  case True
  then show ?thesis by (simp add: dround_int)
next
  case False
  show ?thesis
  proof (cases "0 < i")
    case True
    with False have "Fin (2 ^ 53 - 1) < dround (of_int i)" by (intro dround_big) simp
    moreover have "(of_int k :: rat) \<le> of_int (2 ^ 53 - 1)" using assms by (subst of_int_le_iff) simp
    ultimately have "Fin (of_int k) < dround (of_int i)" by (cases "dround (of_int i :: rat)") simp_all
    then show ?thesis using assms False True by simp
  next
    case neg: False
    with False have "Fin (2 ^ 53 - 1) < dround (of_int (- i))" by (intro dround_big) simp
    moreover have "(of_int (- (2 ^ 53 - 1)) :: rat) \<le> of_int k" using assms by (subst of_int_le_iff) simp
    ultimately have "\<not> Fin (of_int k) < dround (of_int i)" using dround_uminus [of "of_int i"] neg False
      by (cases "dround (of_int i :: rat)") (simp_all split: if_splits)
    then show ?thesis using assms False neg by simp
  qed
qed

lemma dround_less_Fin:
  assumes "\<bar>k\<bar> < 2 ^ 53"
  shows "dround (of_int i) < Fin (of_int k) \<longleftrightarrow> i < k"
proof (cases "i = k")
  case True
  then show ?thesis using assms by (simp add: dround_int)
next
  case False
  show ?thesis
  proof (cases "i = 0")
    case nz: False
    have "dround (of_int i) < Fin (of_int k) \<longleftrightarrow> Fin (of_int (- k)) < dround (of_int (- i))"
      using dround_uminus [of "of_int i"] nz by (cases "dround (of_int i :: rat)") auto
    also have "\<dots> \<longleftrightarrow> i < k" using assms by (subst Fin_less_dround) auto
    finally show ?thesis .
  qed simp
qed

text \<open>The constants that the compact form can hold.\<close>

definition const_fits :: "rpnp_t \<Rightarrow> bool" where
  "const_fits n \<longleftrightarrow> op n = OP_NUMBER \<longrightarrow> Fin (- 32768) \<le> val n \<and> val n < Fin 32768"

lemma compact_number_range:
  assumes "x \<noteq> NaN"
  shows "\<not> dfloor x < d_of_int (- 32768) \<and> \<not> d_of_int 32767 < dfloor x \<longleftrightarrow> Fin (- 32768) \<le> x \<and> x < Fin 32768"
proof (cases x)
  case (Fin q)
  have "dround (of_int \<lfloor>q\<rfloor>) < Fin (of_int (- 32768)) \<longleftrightarrow> \<lfloor>q\<rfloor> < - 32768"
    by (rule dround_less_Fin) simp
  moreover have "Fin (of_int 32767) < dround (of_int \<lfloor>q\<rfloor>) \<longleftrightarrow> 32767 < \<lfloor>q\<rfloor>"
    by (rule Fin_less_dround) simp
  moreover have "32767 < \<lfloor>q\<rfloor> \<longleftrightarrow> 32768 \<le> q" by linarith
  moreover have "\<lfloor>q\<rfloor> < - 32768 \<longleftrightarrow> q < - 32768" by linarith
  ultimately show ?thesis by (auto simp: Fin d_of_int_def)
qed (use assms in \<open>auto simp: less_eq_dbl_def\<close>)

lemma compact_number:
  assumes "x \<noteq> NZero" and "Fin (- 32768) \<le> x" and "x < Fin 32768"
  shows "d_of_int (s16 (d_to_int (dfloor x))) = dfloor x"
proof (cases x)
  case (Fin q)
  define i where "i = \<lfloor>q\<rfloor>"
  have i: "- 32768 \<le> i" "i \<le> 32767" using assms(2,3) unfolding i_def Fin fin_le fin_less by linarith+
  then have ex: "dround (of_int i) = Fin (of_int i)" by (intro dround_int) simp
  have fl: "dfloor x = Fin (of_int i)" using ex by (simp add: Fin i_def d_of_int_def)
  show ?thesis using i unfolding fl by (simp add: d_to_int_def rtrunc_def d_of_int_def ex)
qed (use assms in \<open>auto simp: less_eq_dbl_def\<close>)

lemma compact_node_iff:
  assumes "op n = OP_NUMBER \<Longrightarrow> val n \<noteq> NaN"
  shows "compact_node n = None \<longleftrightarrow> \<not> const_fits n"
  using assms compact_number_range [of "val n"] by (auto simp: compact_node_def const_fits_def Let_def)

lemma compact_node_expand:
  assumes "plain_node n" and "op n = OP_NUMBER \<Longrightarrow> val n \<noteq> NaN" and "compact_node n = Some c"
  shows "expand_node c = floor_const n"
proof (cases "op n = OP_NUMBER")
  case True
  show ?thesis
  proof (cases "val n = NZero")
    case True
    then show ?thesis using assms \<open>op n = OP_NUMBER\<close>
      by (cases n) (auto simp: compact_node_def expand_node_def floor_const_def plain_node_def rpn_node_def
          d_to_int_def rtrunc_def zero_dbl_def)
  next
    case False
    have "const_fits n" using assms(2,3) compact_node_iff [of n] by auto
    then show ?thesis using False assms compact_number [of "val n"] True
      by (cases n) (auto simp: compact_node_def expand_node_def floor_const_def plain_node_def rpn_node_def
          const_fits_def Let_def split: if_splits)
  qed
next
  case False
  then show ?thesis using assms
    by (cases n) (auto simp: compact_node_def expand_node_def floor_const_def plain_node_def rpn_node_def
        split: if_splits)
qed

lemma compact_nodes_expand:
  assumes "list_all plain_node ns" and "list_all (\<lambda>n. op n = OP_NUMBER \<longrightarrow> val n \<noteq> NaN) ns" and "compact_nodes ns = Some cs"
  shows "rpn_expand cs = map floor_const ns"
  using assms
proof (induction ns arbitrary: cs)
  case Nil
  then show ?case by (simp add: rpn_expand_def)
next
  case (Cons n ns)
  then show ?case using compact_node_expand [of n]
    by (auto simp: rpn_expand_def split: option.splits)
qed

text \<open>The parser only makes such nodes.\<close>

lemma rpn_token_plain:
  assumes "rpn_token lookup expr = Inr (n, rest)" and "\<And>nam. - 1 \<le> lookup nam \<and> lookup nam < 2 ^ 15"
  shows "plain_node n"
proof -
  have ops: "snd (the (Some r)) = rest \<Longrightarrow> match_op ops expr = Some r \<Longrightarrow> fst r \<in> fst ` set ops" for r ops
    by (induction ops expr rule: match_op.induct) (auto split: if_splits)
  have op: "o' \<notin> {OP_VARIABLE, OP_PREV_OTHER}" if "match_op ops expr = Some (o', rest)" "ops = match_ops1 \<or> ops = match_ops2" for o' ops
    using ops [of "(o', rest)" ops] that by (auto simp: match_ops1_def match_ops2_def)
  have plain_op: "plain_node (rpn_node o')" if "match_op ops expr = Some (o', rest)" "ops = match_ops1 \<or> ops = match_ops2" for o' ops
    using op [OF that] by (simp add: plain_node_def rpn_node_def)
  have range: "0 \<le> lookup nam \<and> lookup nam < 2 ^ 15" if "lookup nam \<noteq> - 1" for nam using assms(2) [of nam] that by linarith
  have par: "plain_node m" if "match_op_param lookup expr = Some (Inr (m, r))" for m r
    using that range [of "scan_name (drop 5 expr)"]
    by (auto simp: match_op_param_def plain_node_def rpn_node_def Let_def split: if_splits)
  have var: "plain_node m" if "parse_variable lookup expr = Some (m, r)" for m r
    using that range [of "scan_name expr"] by (auto simp: parse_variable_def plain_node_def rpn_node_def Let_def split: if_splits)
  have num: "plain_node m" if "parse_number expr = Some (m, r)" for m r
    using that by (auto simp: parse_number_def plain_node_def rpn_node_def Let_def split_beta split: if_splits)
  show ?thesis using assms(1) num par var plain_op
    by (auto simp: rpn_token_def split: option.splits)
qed

lemma rpn_tokens_plain:
  assumes "rpn_tokens lookup expr = Inr ns" and "\<And>nam. - 1 \<le> lookup nam \<and> lookup nam < 2 ^ 15"
  shows "list_all plain_node ns"
  using assms
proof (induction lookup expr arbitrary: ns rule: rpn_tokens.induct)
  case (1 lookup expr)
  note eq = "1.prems"(1) [unfolded rpn_tokens.simps [of lookup expr]]
  show ?case
  proof (cases "rpn_token lookup expr")
    case (Inl e)
    with eq show ?thesis by (simp split: if_splits)
  next
    case (Inr p)
    have "plain_node (fst p)" using rpn_token_plain [of lookup expr "fst p" "snd p"] Inr "1.prems"(2) by simp
    then show ?thesis using Inr eq "1.IH" [OF _ Inr, of "fst p" "snd p"] "1.prems"(2)
      by (cases "rpn_tokens lookup (tl (snd p))") (auto split: if_splits prod.splits)
  qed
qed

lemma rpn_parse_plain:
  "rpn_parse lookup expr = Inr ns \<Longrightarrow> (\<And>nam. - 1 \<le> lookup nam \<and> lookup nam < 2 ^ 15) \<Longrightarrow> list_all plain_node ns"
  using rpn_tokens_plain by (simp add: rpn_parse_def split: if_splits)

text \<open>How parsing fails: in the way of the source, or by one of its two accesses outside of the expression.\<close>

lemma rpn_token_error: "rpn_token lookup expr = Inl e \<Longrightarrow> e = RpnParseFailed \<or> e = RpnReadBehind"
  by (auto simp: rpn_token_def match_op_param_def Let_def split: option.splits if_splits)

lemma rpn_tokens_error: "rpn_tokens lookup expr = Inl e \<Longrightarrow> e = RpnParseFailed \<or> e = RpnReadBehind"
proof (induction lookup expr rule: rpn_tokens.induct)
  case (1 lookup expr)
  note eq = "1.prems" [unfolded rpn_tokens.simps [of lookup expr]]
  show ?case
  proof (cases "rpn_token lookup expr")
    case (Inl e')
    with eq rpn_token_error [of lookup expr] show ?thesis by (simp split: if_splits)
  next
    case (Inr p)
    then show ?thesis using eq "1.IH" [OF _ Inr, of "fst p" "snd p"]
      by (cases "rpn_tokens lookup (tl (snd p))") (auto split: if_splits prod.splits)
  qed
qed

lemma compact_nodes_iff:
  assumes "list_all (\<lambda>n. op n = OP_NUMBER \<longrightarrow> val n \<noteq> NaN) ns"
  shows "compact_nodes ns = None \<longleftrightarrow> \<not> list_all const_fits ns"
  using assms
proof (induction ns)
  case (Cons n ns)
  then show ?case using compact_node_iff [of n] by (auto split: option.splits)
qed simp

lemma lookup_DS_from_range: "- 1 \<le> lookup_DS_from i ds nam \<and> lookup_DS_from i ds nam < int i + int (length ds)"
  by (induction i ds nam rule: lookup_DS_from.induct) auto


text \<open>\<open>in,8,*\<close> on the sample database.\<close>

definition demo_expr :: "rpnp_t list" where
  "demo_expr = [rpn_node OP_VARIABLE, (rpn_node OP_NUMBER)\<lparr>val := Fin 8\<rparr>, rpn_node OP_MUL]"

lemma demo_expr_parse: "rpn_parse (lookup_DS demo_rrd) ''in,8,*'' = Inr demo_expr"
  by code_simp


section \<open>Stack depth\<close>

text \<open>
  The operators that take and leave a fixed number of values. What an expression of such operators does
  to the depth of the stack is known before it runs.
\<close>

definition rpn_arity :: "op_en \<Rightarrow> (nat \<times> nat) option" where
  "rpn_arity o' =
     (case o' of
        OP_NUMBER \<Rightarrow> Some (0, 1) | OP_VARIABLE \<Rightarrow> Some (0, 1) | OP_PREV_OTHER \<Rightarrow> Some (0, 1) | OP_COUNT \<Rightarrow> Some (0, 1)
      | OP_PREV \<Rightarrow> Some (0, 1) | OP_UNKN \<Rightarrow> Some (0, 1) | OP_INF \<Rightarrow> Some (0, 1) | OP_NEGINF \<Rightarrow> Some (0, 1)
      | OP_NOW \<Rightarrow> Some (0, 1) | OP_TIME \<Rightarrow> Some (0, 1) | OP_LTIME \<Rightarrow> Some (0, 1)
      | OP_SIN \<Rightarrow> Some (1, 1) | OP_COS \<Rightarrow> Some (1, 1) | OP_ATAN \<Rightarrow> Some (1, 1) | OP_RAD2DEG \<Rightarrow> Some (1, 1)
      | OP_DEG2RAD \<Rightarrow> Some (1, 1) | OP_CEIL \<Rightarrow> Some (1, 1) | OP_FLOOR \<Rightarrow> Some (1, 1) | OP_LOG \<Rightarrow> Some (1, 1)
      | OP_EXP \<Rightarrow> Some (1, 1) | OP_UN \<Rightarrow> Some (1, 1) | OP_ISINF \<Rightarrow> Some (1, 1) | OP_SQRT \<Rightarrow> Some (1, 1)
      | OP_ABS \<Rightarrow> Some (1, 1) | OP_DUP \<Rightarrow> Some (1, 2) | OP_POP \<Rightarrow> Some (1, 0) | OP_EXC \<Rightarrow> Some (2, 2)
      | OP_ADD \<Rightarrow> Some (2, 1) | OP_ADDNAN \<Rightarrow> Some (2, 1) | OP_SUB \<Rightarrow> Some (2, 1) | OP_MUL \<Rightarrow> Some (2, 1)
      | OP_DIV \<Rightarrow> Some (2, 1) | OP_MOD \<Rightarrow> Some (2, 1) | OP_ATAN2 \<Rightarrow> Some (2, 1) | OP_LT \<Rightarrow> Some (2, 1)
      | OP_LE \<Rightarrow> Some (2, 1) | OP_GT \<Rightarrow> Some (2, 1) | OP_GE \<Rightarrow> Some (2, 1) | OP_NE \<Rightarrow> Some (2, 1) | OP_EQ \<Rightarrow> Some (2, 1)
      | OP_MIN \<Rightarrow> Some (2, 1) | OP_MAX \<Rightarrow> Some (2, 1) | OP_IF \<Rightarrow> Some (3, 1) | OP_LIMIT \<Rightarrow> Some (3, 1)
      | _ \<Rightarrow> None)"

fun stack_depth :: "op_en list \<Rightarrow> nat \<Rightarrow> nat option" where
  "stack_depth [] d = Some d"
| "stack_depth (o' # os) d =
     (case rpn_arity o' of
        None \<Rightarrow> None
      | Some (i, j) \<Rightarrow> if i \<le> d then stack_depth os (d - i + j) else None)"

text \<open>A variable is bound when its array has a value where the operator looks for it.\<close>

definition bound_node :: "rpnp_t \<Rightarrow> bool" where
  "bound_node n \<longleftrightarrow>
     (op n = OP_VARIABLE \<or> op n = OP_PREV_OTHER \<longrightarrow> node_ds_cnt n \<noteq> 0 \<and> node_step n \<noteq> 0) \<and>
     (op n = OP_VARIABLE \<longrightarrow> data_at n 0 \<noteq> None) \<and>
     (op n = OP_PREV_OTHER \<longrightarrow> data_at n (- node_ds_cnt n) \<noteq> None)"

lemma rpn_step_fails:
  assumes "rpn_arity (op (nodes ! rpi)) = Some (i, j)" and "length st < i"
  shows "rpn_step env data_idx output output_idx rpi (nodes, st) = Inl RpnStackUnderflow"
  using assms
  by (cases "op (nodes ! rpi)")
    (auto simp: rpn_arity_def rpn_step_def rpn_push_def rpn_unary_def rpn_binary_def rpn_ternary_def rpn_stack_op_def
      Let_def split: list.splits)

lemma rpn_step_works:
  assumes "rpn_arity (op (nodes ! rpi)) = Some (i, j)" and "i \<le> length st" and "bound_node (nodes ! rpi)"
  shows "\<exists>n' st'. rpn_step env data_idx output output_idx rpi (nodes, st) = Inr (nodes[rpi := n'], st') \<and>
           length st' = length st - i + j"
proof (cases "op (nodes ! rpi) = OP_VARIABLE \<or> op (nodes ! rpi) = OP_PREV_OTHER")
  case True
  have same: "\<exists>n'. nodes = nodes[rpi := n']" by (metis list_update_id)
  show ?thesis using assms True same
    by (auto simp: rpn_arity_def rpn_step_def rpn_variable_def bound_node_def Let_def)
next
  case False
  have "\<exists>st'. rpn_step env data_idx output output_idx rpi (nodes, st) = Inr (nodes, st') \<and>
           length st' = length st - i + j"
    using assms(1,2) False
    by (cases "op (nodes ! rpi)")
      (auto simp: rpn_arity_def rpn_step_def rpn_push_def rpn_unary_def rpn_binary_def rpn_ternary_def rpn_stack_op_def
        Let_def split: list.splits)
  then show ?thesis by (metis list_update_id)
qed

lemma rpn_run_depth:
  assumes "k + length ns = length nodes" and "drop k nodes = ns"
    and "list_all (\<lambda>n. bound_node n \<and> rpn_arity (op n) \<noteq> None) ns"
  shows "case stack_depth (map op ns) (length st) of
           None \<Rightarrow> rpn_run env data_idx outp output_idx [k ..< length nodes] (nodes, st) = Inl RpnStackUnderflow
         | Some d \<Rightarrow> \<exists>nodes' st'. rpn_run env data_idx outp output_idx [k ..< length nodes] (nodes, st) = Inr (nodes', st') \<and>
                       length st' = d"
  using assms
proof (induction ns arbitrary: k nodes st)
  case Nil
  then show ?case by simp
next
  case (Cons n ns)
  have k: "k < length nodes" "nodes ! k = n" "drop (Suc k) nodes = ns"
    using Cons.prems(1,2) by (auto simp: nth_via_drop drop_Suc simp flip: tl_drop)
  have up: "[k ..< length nodes] = k # [Suc k ..< length nodes]" using k(1) by (rule upt_conv_Cons)
  obtain i j where ar: "rpn_arity (op n) = Some (i, j)" using Cons.prems(3) by force
  show ?case
  proof (cases "i \<le> length st")
    case False
    then show ?thesis using k(2) ar rpn_step_fails [of nodes k i j st] by (simp add: up)
  next
    case True
    obtain n' st' where step: "rpn_step env data_idx outp output_idx k (nodes, st) = Inr (nodes[k := n'], st')"
      and len: "length st' = length st - i + j"
      using rpn_step_works [of nodes k i j st env data_idx outp output_idx] k ar True Cons.prems(3) by auto
    show ?thesis
      using Cons.IH [of "Suc k" "nodes[k := n']" st'] k(3) Cons.prems ar True step len
      by (simp add: up split: option.splits)
  qed
qed

text \<open>
  C39: the calculator does what the static depth of an expression says. For an expression of operators
  with a fixed number of operands whose variables are bound: a depth below zero anywhere is a stack
  underflow, a final depth other than one is the error of a stack that is not of size one, and in all
  other cases the calculator delivers a value.
\<close>

theorem rpn_calc_depth:
  assumes "list_all (\<lambda>n. bound_node n \<and> rpn_arity (op n) \<noteq> None) nodes"
  shows "case stack_depth (map op nodes) 0 of
           None \<Rightarrow> rpn_calc env nodes data_idx outp output_idx = Inl RpnStackUnderflow
         | Some d \<Rightarrow>
             if d = 1 then \<exists>nodes' v. rpn_calc env nodes data_idx outp output_idx = Inr (nodes', v)
             else rpn_calc env nodes data_idx outp output_idx = Inl RpnFinalStack"
  using rpn_run_depth [where k = 0 and ns = nodes and nodes = nodes and st = "[]" and env = env and data_idx = data_idx and
    outp = outp and output_idx = output_idx] assms
  by (auto simp: rpn_calc_def length_Suc_conv split: option.splits list.splits)

definition demo_env :: rpn_env where
  "demo_env = \<lparr>time_now = 1200000000, tzoffset_fn = (\<lambda>_. 3600), sin_fn = id, cos_fn = id, log_fn = id, exp_fn = id,
     atan_fn = id, atan2_fn = (\<lambda>x _. x), sqrt_fn = id\<rparr>"

theorem rpn_calc_depth_witness:
  "(\<exists>nodes' v. rpn_calc demo_env
      [(rpn_node OP_VARIABLE)\<lparr>data := [Fin 5], node_ds_cnt := 1, node_step := 300\<rparr>, (rpn_node OP_NUMBER)\<lparr>val := Fin 8\<rparr>,
       rpn_node OP_MUL] 900 [] 0 = Inr (nodes', v)) \<and>
   rpn_calc demo_env [rpn_node OP_UNKN, rpn_node OP_ADD] 900 [] 0 = Inl RpnStackUnderflow"
  using rpn_calc_depth [where data_idx = 900 and outp = "[]" and output_idx = 0 and env = demo_env and
      nodes = "[(rpn_node OP_VARIABLE)\<lparr>data := [Fin 5], node_ds_cnt := 1, node_step := 300\<rparr>,
        (rpn_node OP_NUMBER)\<lparr>val := Fin 8\<rparr>, rpn_node OP_MUL]"]
    rpn_calc_depth [where data_idx = 900 and outp = "[]" and output_idx = 0 and env = demo_env and
      nodes = "[rpn_node OP_UNKN, rpn_node OP_ADD]"]
  by (simp add: rpn_node_def bound_node_def data_at_def rpn_arity_def)

end
