(* ===== verification/Pdp.thy ===== *)
theory Pdp
  imports Counter_Diff Rpn
begin

text \<open>
  Primary data points (\<open>rrd_update.c\<close>): a reading becomes \<open>pdp_new\<close>, the rate times the seconds since the
  last update (\<open>update_pdp_prep\<close>); while no step boundary is passed it is added to the data source's
  accumulator (\<open>simple_update\<close>); when one is passed, the accumulator becomes the rate of the finished
  steps and restarts behind the boundary (\<open>process_pdp_st\<close>).

  \<open>pdp_new\<close> and \<open>pdp_temp\<close> are arrays of the caller, lists with one value per data source.
\<close>

datatype pdp_error = PdpNotInteger | PdpConversion | PdpTail | PdpUnknownDS | PdpErrorSet | PdpRpn rpn_error

section \<open>Readings\<close>

definition is_U :: "string \<Rightarrow> bool" where
  "is_U str \<longleftrightarrow> str \<noteq> [] \<and> hd str = CHR ''U''"

definition simple_integer :: "dst_en \<Rightarrow> string \<Rightarrow> bool" where
  "simple_integer d str =
     list_all is_digit (if d = DST_DERIVE \<and> str \<noteq> [] \<and> hd str = CHR ''-'' then tl str else str)"

text \<open>The overflow catcher for counters of 32 and of 64 bits.\<close>

definition counter_wrap :: "dbl \<Rightarrow> dbl" where
  "counter_wrap v =
     (let v = (if v < 0 then v + Fin 4294967296 else v)
      in if v < 0 then v + Fin 18446744069414584320 else v)"

text \<open>The \<open>switch\<close> on the type: \<open>pdp_new\<close> and the rate.\<close>

definition read_value :: "dst_en option \<Rightarrow> string \<Rightarrow> string \<Rightarrow> dbl \<Rightarrow> pdp_error + (dbl \<times> dbl)" where
  "read_value d str old interval =
     (case d of
        Some DST_COUNTER \<Rightarrow>
          if \<not> simple_integer DST_COUNTER str then Inl PdpNotInteger
          else if is_U old then Inr (NaN, NaN)
          else let v = counter_wrap (rrd_diff str old) in Inr (v, v / interval)
      | Some DST_DERIVE \<Rightarrow>
          if \<not> simple_integer DST_DERIVE str then Inl PdpNotInteger
          else if is_U old then Inr (NaN, NaN)
          else let v = rrd_diff str old in Inr (v, v / interval)
      | Some DST_ABSOLUTE \<Rightarrow>
          (case strtod str of ((v, erange), endptr) \<Rightarrow>
             if erange then Inl PdpConversion else if endptr \<noteq> [] then Inl PdpTail
             else Inr (v, v / interval))
      | Some DST_GAUGE \<Rightarrow>
          (case strtod str of ((v, erange), endptr) \<Rightarrow>
             if erange then Inl PdpConversion else if endptr \<noteq> [] then Inl PdpTail
             else Inr (v * interval, v * interval / interval))
      | _ \<Rightarrow> Inl PdpUnknownDS)"

definition out_of_limits :: "ds_def_t \<Rightarrow> dbl \<Rightarrow> bool" where
  "out_of_limits d rate \<longleftrightarrow>
     \<not> isnan rate \<and>
     ((\<not> isnan (max_val d) \<and> max_val d < rate) \<or> (\<not> isnan (min_val d) \<and> rate < min_val d))"

definition set_last_ds :: "nat \<Rightarrow> string \<Rightarrow> rrd \<Rightarrow> rrd" where
  "set_last_ds i str s =
     s\<lparr>pdp_prep := (pdp_prep s)[i := (pdp_prep s ! i)\<lparr>last_ds := strncpy_field LAST_DS_LEN str\<rparr>]\<rparr>"

text \<open>One round of the loop. \<open>dst_conv\<close> sets the error text for an unknown type, which \<open>rrd_test_error\<close>
  finds at the next data source that has a value.\<close>

definition update_pdp_ds :: "string list \<Rightarrow> dbl \<Rightarrow> nat \<Rightarrow> rrd \<times> dbl list \<Rightarrow> (pdp_error, rrd \<times> dbl list) outcome" where
  "update_pdp_ds updvals interval i st =
     (case st of (s, pdp_new) \<Rightarrow>
      let d = ds_def s ! i; str = updvals ! (i + 1); hb = d_of_nat (mrhb_cnt d);
          s = (if hb < interval then set_last_ds i ''U'' s else s)
      in if \<not> is_U str \<and> dst_conv (dst d) \<noteq> Some DST_CDEF \<and> interval \<le> hb
         then (case read_value (dst_conv (dst d)) str (last_ds (pdp_prep s ! i)) interval of
                 Inl e \<Rightarrow> (Some e, (s, pdp_new))
               | Inr (v, rate) \<Rightarrow>
                   if list_ex (\<lambda>d. dst_conv (dst d) = None) (take (Suc i) (ds_def s)) then (Some PdpErrorSet, (s, pdp_new))
                   else (None, (set_last_ds i str s, pdp_new[i := (if out_of_limits d rate then NaN else v)])))
         else (None, (set_last_ds i str s, pdp_new[i := NaN])))"

definition update_pdp_prep :: "string list \<Rightarrow> dbl \<Rightarrow> rrd \<times> dbl list \<Rightarrow> (pdp_error, rrd \<times> dbl list) outcome" where
  "update_pdp_prep updvals interval st = loopM (update_pdp_ds updvals interval) [0 ..< dscnt (fst st)] st"

section \<open>Elapsed steps\<close>

record elapsed =
  el_steps :: int
  pre_int :: dbl
  post_int :: dbl
  proc_pdp_cnt :: nat

definition calculate_elapsed_steps :: "rrd \<Rightarrow> nat \<Rightarrow> nat \<Rightarrow> dbl \<Rightarrow> elapsed" where
  "calculate_elapsed_steps s current_time current_time_usec interval =
     (let lastup = last_up (live_head s);
          proc_pdp_age = u64 lastup mod pdpstep s;
          proc_pdp_st = u64 (lastup - int proc_pdp_age);
          occu_pdp_age = current_time mod pdpstep s;
          occu_pdp_st = current_time - occu_pdp_age;
          passed = occu_pdp_st > proc_pdp_st
      in \<lparr>el_steps = s32 (int (u64 (int occu_pdp_st - int proc_pdp_st) div pdpstep s)),
          pre_int = (if passed
            then d_of_int (s64 (s64 (int occu_pdp_st) - lastup)) - d_of_int (last_up_usec (live_head s)) / Fin 1000000
            else interval),
          post_int = (if passed then d_of_nat occu_pdp_age + d_of_nat current_time_usec / Fin 1000000 else 0),
          proc_pdp_cnt = proc_pdp_st div pdpstep s\<rparr>)"

section \<open>Accumulating\<close>

definition simple_update_ds :: "dbl \<Rightarrow> dbl \<Rightarrow> pdp_prep_t \<Rightarrow> pdp_prep_t" where
  "simple_update_ds interval new p =
     (if isnan new then p\<lparr>unkn_sec_cnt := d_to_ulong (d_of_nat (unkn_sec_cnt p) + dfloor interval)\<rparr>
      else if isnan (pdp_val p) then p\<lparr>pdp_val := new\<rparr>
      else p\<lparr>pdp_val := pdp_val p + new\<rparr>)"

definition simple_update :: "dbl \<Rightarrow> dbl list \<Rightarrow> rrd \<Rightarrow> rrd" where
  "simple_update interval pdp_new s =
     fold (\<lambda>i s. s\<lparr>pdp_prep := (pdp_prep s)[i := simple_update_ds interval (pdp_new ! i) (pdp_prep s ! i)]\<rparr>)
       [0 ..< dscnt s] s"

text \<open>The rate of the finished steps, with the new reading's share before the boundary added.\<close>

definition pdp_finish :: "rrd \<Rightarrow> nat \<Rightarrow> dbl \<Rightarrow> dbl \<Rightarrow> int \<Rightarrow> dbl \<Rightarrow> pdp_prep_t \<Rightarrow> dbl" where
  "pdp_finish s mrhb interval pre diff_pdp_st new p =
     (let pre_unknown = (if isnan new then pre else 0);
          v = (if isnan new then pdp_val p
               else (if isnan (pdp_val p) then 0 else pdp_val p) + new / interval * pre)
      in if d_of_nat mrhb < interval \<or> d_of_nat (pdpstep s) / Fin 2 < d_of_int (s32 (int (unkn_sec_cnt p))) then NaN
         else v / (d_of_nat (u64 (diff_pdp_st - int (unkn_sec_cnt p))) - pre_unknown))"

text \<open>The accumulator restarts with the share behind the boundary.\<close>

definition pdp_restart :: "dbl \<Rightarrow> dbl \<Rightarrow> dbl \<Rightarrow> pdp_prep_t \<Rightarrow> pdp_prep_t" where
  "pdp_restart interval post new p =
     (if isnan new then p\<lparr>unkn_sec_cnt := d_to_ulong (dfloor post), pdp_val := NaN\<rparr>
      else p\<lparr>unkn_sec_cnt := 0, pdp_val := new / interval * post\<rparr>)"

text \<open>COMPUTE data sources: the variables are the rates of this round.\<close>

definition subst_variables :: "dbl list \<Rightarrow> rpnp_t list \<Rightarrow> rpnp_t list" where
  "subst_variables pdp_temp =
     map (\<lambda>n. if op n = OP_VARIABLE then n\<lparr>op := OP_NUMBER, val := pdp_temp ! nat (ptr n)\<rparr> else n)"

text \<open>On an error of the calculator the new reading's share stays added to the accumulator.\<close>

definition process_pdp_st :: "rpn_env \<Rightarrow> dbl \<Rightarrow> dbl \<Rightarrow> dbl \<Rightarrow> int \<Rightarrow> dbl list \<Rightarrow> nat \<Rightarrow> rrd \<times> dbl list
    \<Rightarrow> (pdp_error, rrd \<times> dbl list) outcome" where
  "process_pdp_st env interval pre post diff_pdp_st pdp_new i st =
     (case st of (s, pdp_temp) \<Rightarrow>
      let d = ds_def s ! i; p = pdp_prep s ! i; new = pdp_new ! i;
          pdp_temp = pdp_temp[i := pdp_finish s (mrhb_cnt d) interval pre diff_pdp_st new p];
          p' = (if isnan new then p
                else p\<lparr>pdp_val := (if isnan (pdp_val p) then 0 else pdp_val p) + new / interval * pre\<rparr>);
          done = (\<lambda>pdp_temp. (None, (s\<lparr>pdp_prep := (pdp_prep s)[i := pdp_restart interval post new p']\<rparr>, pdp_temp)))
      in if dst_conv (dst d) = Some DST_CDEF
         then (case rpn_calc env (subst_variables pdp_temp (rpn_expand (cdef d))) 0 pdp_temp (int i) of
                 Inl e \<Rightarrow> (Some (PdpRpn e), (s\<lparr>pdp_prep := (pdp_prep s)[i := p']\<rparr>, pdp_temp))
               | Inr (_, v) \<Rightarrow> done (pdp_temp[i := v]))
         else done pdp_temp)"

definition process_all_pdp_st :: "rpn_env \<Rightarrow> dbl \<Rightarrow> dbl \<Rightarrow> dbl \<Rightarrow> nat \<Rightarrow> dbl list \<Rightarrow> rrd \<times> dbl list
    \<Rightarrow> (pdp_error, rrd \<times> dbl list) outcome" where
  "process_all_pdp_st env interval pre post elapsed_pdp_st pdp_new st =
     loopM (process_pdp_st env interval pre post (s64 (int (elapsed_pdp_st * pdpstep (fst st)))) pdp_new)
       [0 ..< dscnt (fst st)] st"

section \<open>Loops that treat every slot by itself\<close>

text \<open>
  A loop whose body at index \<open>i\<close> reads and changes slot \<open>i\<close> only, and leaves the static part of the state
  alone: when it ends without an error, every slot holds what its body makes of its first content.
\<close>

locale slot_loop =
  fixes body :: "nat \<Rightarrow> 's \<Rightarrow> ('e, 's) outcome" and slot :: "nat \<Rightarrow> 's \<Rightarrow> 'a" and same :: "'s \<Rightarrow> 's \<Rightarrow> bool"
  assumes same_refl: "same s s"
    and same_trans: "same s t \<Longrightarrow> same t u \<Longrightarrow> same s u"
    and body_same: "same s (snd (body i s))"
    and body_other: "i \<noteq> j \<Longrightarrow> slot j (snd (body i s)) = slot j s"
    and body_local: "same s t \<Longrightarrow> slot i s = slot i t \<Longrightarrow>
      fst (body i s) = fst (body i t) \<and> slot i (snd (body i s)) = slot i (snd (body i t))"
begin

lemma loop_same: "same s (snd (loopM body [0 ..< n] s))"
  using loopM_invariant [of "same s" s] same_refl same_trans body_same by metis

lemma loop_beyond: "n \<le> j \<Longrightarrow> slot j (snd (loopM body [0 ..< n] s)) = slot j s"
  using loopM_invariant [of "\<lambda>t. slot j t = slot j s" s "[0 ..< n]" body] body_other by fastforce

lemma loop_slot:
  assumes "fst (loopM body [0 ..< n] s) = None" and "i < n"
  shows "fst (body i s) = None \<and> slot i (snd (loopM body [0 ..< n] s)) = slot i (snd (body i s))"
  using assms
proof (induction n)
  case (Suc n)
  define t where "t = snd (loopM body [0 ..< n] s)"
  have ok: "fst (loopM body [0 ..< n] s) = None"
    using Suc.prems(1) by (auto simp: loopM_append andThen_def split: option.splits prod.splits)
  then have run: "loopM body [0 ..< Suc n] s = loopM body [n] t"
    by (cases "loopM body [0 ..< n] s") (simp add: loopM_append t_def)
  moreover have "loopM body [n] t = body n t"
    by (cases "body n t") (simp add: andThen_def split: option.splits)
  ultimately have last: "loopM body [0 ..< Suc n] s = body n t" by simp
  show ?case
  proof (cases "i = n")
    case True
    have "same s t" unfolding t_def by (rule loop_same)
    moreover have "slot n s = slot n t" unfolding t_def by (simp add: loop_beyond)
    ultimately show ?thesis using body_local [of s t n] last Suc.prems(1) True by simp
  next
    case False
    then have "i < n" using Suc.prems(2) by simp
    with Suc.IH ok have "fst (body i s) = None" "slot i t = slot i (snd (body i s))" by (simp_all add: t_def)
    then show ?thesis using last False body_other [of n i t] by simp
  qed
qed simp

end

text \<open>The static part here: everything but the accumulators, and the sizes of the arrays.\<close>

definition same_pdp_frame :: "rrd \<times> dbl list \<Rightarrow> rrd \<times> dbl list \<Rightarrow> bool" where
  "same_pdp_frame st st' \<longleftrightarrow>
     fst st' = (fst st)\<lparr>pdp_prep := pdp_prep (fst st')\<rparr> \<and>
     length (pdp_prep (fst st')) = length (pdp_prep (fst st)) \<and> length (snd st') = length (snd st)"

definition pdp_slot :: "nat \<Rightarrow> rrd \<times> dbl list \<Rightarrow> pdp_prep_t \<times> dbl" where
  "pdp_slot i st = (pdp_prep (fst st) ! i, snd st ! i)"

lemma same_pdp_frame_refl: "same_pdp_frame s s"
  by (cases "fst s") (simp add: same_pdp_frame_def)

lemma same_pdp_frame_trans: "same_pdp_frame s t \<Longrightarrow> same_pdp_frame t u \<Longrightarrow> same_pdp_frame s u"
  unfolding same_pdp_frame_def by (metis rrd.surjective rrd.update_convs(6))

lemma same_pdp_frame_parts:
  assumes "same_pdp_frame s t"
  shows "ds_def (fst t) = ds_def (fst s)" "stat_head (fst t) = stat_head (fst s)"
    "length (pdp_prep (fst t)) = length (pdp_prep (fst s))" "length (snd t) = length (snd s)"
  using assms unfolding same_pdp_frame_def by (metis rrd.select_convs rrd.update_convs rrd.surjective)+

lemma set_last_ds_parts [simp]:
  "ds_def (set_last_ds i str s) = ds_def s" "stat_head (set_last_ds i str s) = stat_head s"
  "length (pdp_prep (set_last_ds i str s)) = length (pdp_prep s)"
  "j \<noteq> i \<Longrightarrow> pdp_prep (set_last_ds i str s) ! j = pdp_prep s ! j"
  "i < length (pdp_prep s) \<Longrightarrow>
     pdp_prep (set_last_ds i str s) ! i = (pdp_prep s ! i)\<lparr>last_ds := strncpy_field LAST_DS_LEN str\<rparr>"
  by (simp_all add: set_last_ds_def)

lemma nth_update_if: "xs[i := v] ! j = (if j = i \<and> i < length xs then v else xs ! j)"
  by (cases "i < length xs") (auto simp: nth_list_update list_update_beyond)

lemma pdp_prep_set_last_ds:
  "pdp_prep (set_last_ds i str s) ! j =
     (if j = i \<and> i < length (pdp_prep s) then (pdp_prep s ! i)\<lparr>last_ds := strncpy_field LAST_DS_LEN str\<rparr>
      else pdp_prep s ! j)"
  by (auto simp: set_last_ds_def nth_update_if)

lemma same_frame_update_pdp_ds: "same_pdp_frame st (snd (update_pdp_ds updvals interval i st))"
proof -
  have s2: "set_last_ds i x (set_last_ds i y s) = set_last_ds i x s" for x y s
    by (cases "i < length (pdp_prep s)") (simp_all add: set_last_ds_def list_update_beyond)
  have sl: "set_last_ds i x s = s\<lparr>pdp_prep := pdp_prep (set_last_ds i x s)\<rparr>" for x s
    by (simp add: set_last_ds_def)
  show ?thesis
    using same_pdp_frame_refl [of st] sl
    by (cases st) (auto simp: update_pdp_ds_def Let_def same_pdp_frame_def s2 split: sum.splits prod.splits)
qed

interpretation upd: slot_loop "update_pdp_ds updvals interval" pdp_slot same_pdp_frame for updvals interval
proof
  fix st st' st'' :: "rrd \<times> dbl list" and i j :: nat
  show "same_pdp_frame st st" by (rule same_pdp_frame_refl)
  show "same_pdp_frame st st' \<Longrightarrow> same_pdp_frame st' st'' \<Longrightarrow> same_pdp_frame st st''"
    by (rule same_pdp_frame_trans)
  show "same_pdp_frame st (snd (update_pdp_ds updvals interval i st))" by (rule same_frame_update_pdp_ds)
  show "i \<noteq> j \<Longrightarrow> pdp_slot j (snd (update_pdp_ds updvals interval i st)) = pdp_slot j st"
    by (cases st) (auto simp: update_pdp_ds_def pdp_slot_def Let_def split: sum.splits prod.splits)
  assume "same_pdp_frame st st'" "pdp_slot i st = pdp_slot i st'"
  then show "fst (update_pdp_ds updvals interval i st) = fst (update_pdp_ds updvals interval i st') \<and>
      pdp_slot i (snd (update_pdp_ds updvals interval i st)) = pdp_slot i (snd (update_pdp_ds updvals interval i st'))"
    using same_pdp_frame_parts [of st st']
    by (cases st; cases st')
      (auto simp: update_pdp_ds_def pdp_slot_def Let_def pdp_prep_set_last_ds nth_update_if split: sum.splits prod.splits)
qed

lemma read_value_rate:
  assumes "read_value d str old interval = Inr (v, rate)"
  shows "rate = v / interval"
  using assms by (auto simp: read_value_def Let_def split: option.splits dst_en.splits if_splits prod.splits)

text \<open>A successful round: the slot's new content, in every case.\<close>

lemma update_pdp_ds_slot:
  assumes "fst (update_pdp_ds updvals interval i (s, pdp_new)) = None"
    and "i < length (pdp_prep s)" and "i < length pdp_new"
  shows "let d = ds_def s ! i; str = updvals ! (i + 1); p = pdp_prep s ! i;
             (p', v') = pdp_slot i (snd (update_pdp_ds updvals interval i (s, pdp_new)))
         in p' = p\<lparr>last_ds := strncpy_field LAST_DS_LEN str\<rparr> \<and>
            (if \<not> is_U str \<and> dst_conv (dst d) \<noteq> Some DST_CDEF \<and> interval \<le> d_of_nat (mrhb_cnt d)
             then \<exists>v. read_value (dst_conv (dst d)) str (last_ds p) interval = Inr (v, v / interval) \<and>
                    v' = (if out_of_limits d (v / interval) then NaN else v)
             else v' = NaN)"
proof -
  have hb: "interval \<le> h \<Longrightarrow> \<not> h < interval" for h :: dbl
    using dbl_not_less by (metis nan_le(1,2))
  show ?thesis using assms
    by (auto simp: update_pdp_ds_def pdp_slot_def Let_def hb pdp_prep_set_last_ds dest!: read_value_rate
        split: sum.splits prod.splits if_splits)
qed

section \<open>What a reading becomes\<close>

lemma dround_not_neg [simp]: "0 \<le> x \<Longrightarrow> \<not> dround x < Fin 0"
  using dround_nonneg [of x] by (cases "dround x") simp_all

lemma strtod_small_digits:
  assumes "list_all is_digit ds" and "ds \<noteq> []" and "dec_val ds = n" and "n \<le> 2 ^ 53"
  shows "strtod ds = ((Fin (of_int n), False), [])"
proof -
  have n: "dround (of_int n) = Fin (of_int n)"
    using assms dec_val_nonneg [of ds] by (intro dround_int) simp
  then have "rnd64 (of_int n) = of_int n" by (auto simp: dround_def' Let_def split: if_splits)
  then show ?thesis using strtod_digits [OF assms(1,2)] n by (simp add: assms(3) signed_result_def tiny_inexact_def)
qed

lemma reading_of_digits: "list_all is_digit str \<Longrightarrow> reading str = dec_val str \<and> reading_digits str = str \<and> \<not> reading_neg str"
proof -
  assume d: "list_all is_digit str"
  then have "dropWhile (\<lambda>c. \<not> is_digit c) str = str" "takeWhile (\<lambda>c. \<not> is_digit c) str = []"
    by (cases str; simp)+
  with d show ?thesis by (simp add: reading_def reading_digits_def reading_neg_def takeWhile_all)
qed

lemma counter_wrap_32:
  assumes "0 \<le> a" "a < 2 ^ 32" "0 \<le> b" "b < 2 ^ 32"
  shows "counter_wrap (d_of_int (b - a)) = Fin (of_int ((b - a) mod 2 ^ 32))"
proof -
  have e: "d_of_int (b - a) = Fin (of_int (b - a))" using assms by (intro d_of_int_small) simp
  show ?thesis
  proof (cases "b < a")
    case True
    then have m: "(b - a) mod 2 ^ 32 = b - a + 2 ^ 32" using assms
      by (intro int_mod_pos_eq [where q = "- 1"]) auto
    have "Fin (of_int (b - a)) + Fin 4294967296 = dround (of_int (b - a + 2 ^ 32))" by simp
    also have "\<dots> = Fin (of_int (b - a + 2 ^ 32))" using assms True by (intro dround_int) simp
    finally have "Fin (of_int (b - a)) + Fin 4294967296 = Fin (of_int (b - a + 2 ^ 32))" .
    moreover have "(0::rat) \<le> of_int (b - a + 2 ^ 32)" using assms by (subst of_int_0_le_iff) simp
    ultimately show ?thesis using True m by (simp add: counter_wrap_def e zero_dbl_def Let_def)
  next
    case False
    then show ?thesis using assms by (simp add: counter_wrap_def e zero_dbl_def Let_def)
  qed
qed

lemma counter_delta_32:
  assumes "list_all is_digit str" "str \<noteq> []" "length str \<le> 30" "dec_val str < 2 ^ 32"
    and "list_all is_digit old" "old \<noteq> []" "length old \<le> 30" "dec_val old < 2 ^ 32"
  shows "counter_wrap (rrd_diff str old) = Fin (of_int ((dec_val str - dec_val old) mod 2 ^ 32))"
proof -
  note r = reading_of_digits [OF assms(1)] reading_of_digits [OF assms(5)]
  have "rrd_diff str old = d_of_int (dec_val str - dec_val old)"
    using assms r by (simp add: rrd_diff_reading diff_defined_def LAST_DS_LEN_def)
  then show ?thesis
    using counter_wrap_32 [of "dec_val old" "dec_val str"] assms dec_val_nonneg by simp
qed

lemma update_pdp_prep_slot:
  assumes "update_pdp_prep updvals interval (s, pdp_new) = (None, (s', new'))"
    and "dscnt s = length (pdp_prep s)" and "length pdp_new = dscnt s" and "i < dscnt s"
  shows "same_pdp_frame (s, pdp_new) (s', new')"
    and "pdp_prep s' ! i = (pdp_prep s ! i)\<lparr>last_ds := take 29 (updvals ! (i + 1))\<rparr>"
    and "if \<not> is_U (updvals ! (i + 1)) \<and> dst_conv (dst (ds_def s ! i)) \<noteq> Some DST_CDEF \<and>
            interval \<le> d_of_nat (mrhb_cnt (ds_def s ! i))
         then \<exists>v. read_value (dst_conv (dst (ds_def s ! i))) (updvals ! (i + 1)) (last_ds (pdp_prep s ! i)) interval
                     = Inr (v, v / interval) \<and>
                   new' ! i = (if out_of_limits (ds_def s ! i) (v / interval) then NaN else v)
         else new' ! i = NaN"
proof -
  note run = assms(1) [unfolded update_pdp_prep_def fst_conv]
  have ok: "fst (loopM (update_pdp_ds updvals interval) [0 ..< dscnt s] (s, pdp_new)) = None" by (simp add: run)
  show "same_pdp_frame (s, pdp_new) (s', new')"
    using upd.loop_same [of "(s, pdp_new)" updvals interval "dscnt s"] by (simp add: run)
  have fin: "fst (update_pdp_ds updvals interval i (s, pdp_new)) = None"
    "(pdp_prep s' ! i, new' ! i) = pdp_slot i (snd (update_pdp_ds updvals interval i (s, pdp_new)))"
    using upd.loop_slot [OF ok assms(4)] by (simp_all add: run pdp_slot_def)
  have "i < length (pdp_prep s)" "i < length pdp_new" using assms(2-4) by simp_all
  note slot = update_pdp_ds_slot [OF fin(1) this, folded fin(2), unfolded Let_def prod.case]
  from slot show "pdp_prep s' ! i = (pdp_prep s ! i)\<lparr>last_ds := take 29 (updvals ! (i + 1))\<rparr>"
    using assms by (simp add: strncpy_field_def LAST_DS_LEN_def)
  show "if \<not> is_U (updvals ! (i + 1)) \<and> dst_conv (dst (ds_def s ! i)) \<noteq> Some DST_CDEF \<and>
            interval \<le> d_of_nat (mrhb_cnt (ds_def s ! i))
         then \<exists>v. read_value (dst_conv (dst (ds_def s ! i))) (updvals ! (i + 1)) (last_ds (pdp_prep s ! i)) interval
                     = Inr (v, v / interval) \<and>
                   new' ! i = (if out_of_limits (ds_def s ! i) (v / interval) then NaN else v)
         else new' ! i = NaN"
    using slot by (rule conjunct2)
qed

text \<open>
  C35: after a successful \<open>update_pdp_prep\<close> only the accumulators' last readings have changed, each to the
  (truncated) text of the new one, and a data source has a known increment only if its reading was not
  unknown, it is not computed, the heartbeat was kept, and the rate is within its limits.
\<close>

theorem update_pdp_prep_limits:
  assumes "update_pdp_prep updvals interval (s, pdp_new) = (None, (s', new'))"
    and "dscnt s = length (pdp_prep s)" and "length pdp_new = dscnt s" and "i < dscnt s"
  shows "s' = s\<lparr>pdp_prep := pdp_prep s'\<rparr> \<and>
    pdp_prep s' ! i = (pdp_prep s ! i)\<lparr>last_ds := take 29 (updvals ! (i + 1))\<rparr> \<and>
    (new' ! i \<noteq> NaN \<longrightarrow>
      \<not> is_U (updvals ! (i + 1)) \<and> dst_conv (dst (ds_def s ! i)) \<noteq> Some DST_CDEF \<and>
      interval \<le> d_of_nat (mrhb_cnt (ds_def s ! i)) \<and>
      \<not> max_val (ds_def s ! i) < new' ! i / interval \<and> \<not> new' ! i / interval < min_val (ds_def s ! i))"
proof -
  note slot = update_pdp_prep_slot [OF assms]
  have lim: "\<not> out_of_limits d rate \<Longrightarrow> \<not> max_val d < rate \<and> \<not> rate < min_val d" for d rate
    unfolding out_of_limits_def isnan_def by (cases "rate = NaN") auto
  from slot(1) have "s' = s\<lparr>pdp_prep := pdp_prep s'\<rparr>" by (simp add: same_pdp_frame_def)
  with slot(2,3) lim show ?thesis by (auto split: if_splits)
qed

text \<open>The sample database gets a reading of its gauge and its counter.\<close>

lemma demo_update_pdp_prep:
  "update_pdp_prep [''N'', ''7'', ''400''] (Fin 300) (demo_rrd, [0, 0]) =
     (None, (demo_rrd\<lparr>pdp_prep := [\<lparr>last_ds = ''7'', unkn_sec_cnt = 0, pdp_val = 0\<rparr>,
                                   \<lparr>last_ds = ''400'', unkn_sec_cnt = 0, pdp_val = 0\<rparr>]\<rparr>, [Fin 2100, Fin 4294966696]))"
proof -
  have "strtod ''7'' = ((Fin 7, False), [])" by (rule strtod_small_digits [where n = 7, simplified]) (simp_all add: is_digit_def dec_val_def digit_val_def)
  moreover have "counter_wrap (rrd_diff ''400'' ''1000'') = Fin 4294966696"
    using counter_delta_32 [of "''400''" "''1000''"] by (simp add: is_digit_def dec_val_def digit_val_def)
  ultimately show ?thesis
    by (simp add: update_pdp_prep_def update_pdp_ds_def demo_rrd_def upt_rec read_value_def Let_def is_U_def
        dst_conv_def set_last_ds_def out_of_limits_def strncpy_field_def LAST_DS_LEN_def simple_integer_def
        is_digit_def zero_dbl_def)
qed

theorem update_pdp_prep_limits_witness:
  "Fin 4294966696 \<noteq> NaN \<and> Fin 300 \<le> d_of_nat 600 \<and> \<not> Fin 4294966696 / Fin 300 < 0"
  using update_pdp_prep_limits [OF demo_update_pdp_prep, of 1] by (simp add: demo_rrd_def)


text \<open>
  counters of 32 bits. When both readings are plain numbers below \<open>2^32\<close> and the heartbeat is kept,
  the increment of a COUNTER is the exact difference modulo \<open>2^32\<close>, whichever of the two is larger
  (or unknown, when the resulting rate leaves the limits of the data source).
\<close>

theorem update_pdp_prep_counter:
  assumes "update_pdp_prep updvals interval (s, pdp_new) = (None, (s', new'))"
    and "dscnt s = length (pdp_prep s)" and "length pdp_new = dscnt s" and "i < dscnt s"
    and "dst_conv (dst (ds_def s ! i)) = Some DST_COUNTER" and "interval \<le> d_of_nat (mrhb_cnt (ds_def s ! i))"
    and "str = updvals ! (i + 1)" and "old = last_ds (pdp_prep s ! i)"
    and "list_all is_digit str" "str \<noteq> []" "length str \<le> 30" "dec_val str < 2 ^ 32"
    and "list_all is_digit old" "old \<noteq> []" "length old \<le> 30" "dec_val old < 2 ^ 32"
  shows "new' ! i =
    (let v = Fin (of_int ((dec_val str - dec_val old) mod 2 ^ 32))
     in if out_of_limits (ds_def s ! i) (v / interval) then NaN else v)"
proof -
  have u: "\<not> is_U str" "\<not> is_U old"
    using assms(9,10,13,14) is_digit_chars by (cases str; cases old; simp add: is_U_def; blast)+
  note delta = counter_delta_32 [OF assms(9-16)]
  have "read_value (Some DST_COUNTER) str old interval
      = Inr (Fin (of_int ((dec_val str - dec_val old) mod 2 ^ 32)),
             Fin (of_int ((dec_val str - dec_val old) mod 2 ^ 32)) / interval)"
    using u assms(9) unfolding read_value_def delta by (simp add: simple_integer_def Let_def)
  with update_pdp_prep_slot(3) [OF assms(1-4)] u assms(5-8) show ?thesis by (auto simp: Let_def)
qed

theorem update_pdp_prep_counter_witness:
  "[Fin 2100, Fin 4294966696] ! 1 =
    (let v = Fin (of_int ((dec_val ''400'' - dec_val ''1000'') mod 2 ^ 32))
     in if out_of_limits (ds_def demo_rrd ! 1) (v / Fin 300) then NaN else v)"
  by (rule update_pdp_prep_counter [OF demo_update_pdp_prep])
    (simp_all add: demo_rrd_def dst_conv_def is_digit_def dec_val_def digit_val_def)

section \<open>Steps that have passed\<close>

text \<open>
  For a reading at time \<open>t\<close> not before the last update \<open>l\<close>, the number of elapsed steps is the
  difference of the step numbers, and the interval is cut at the last boundary: while no boundary was
  passed everything is before it; otherwise the full steps are made up of what had already passed of the
  first one and the seconds from \<open>l\<close> to the last boundary, and the rest lies behind it.
\<close>

theorem calculate_elapsed_steps_correct:
  assumes "last_up (live_head s) = int l" and "l \<le> t" and "t < 2 ^ 31" and "0 < pdpstep s"
  shows "calculate_elapsed_steps s t usec interval =
    (let n = t div pdpstep s - l div pdpstep s
     in if n = 0 then \<lparr>el_steps = 0, pre_int = interval, post_int = 0, proc_pdp_cnt = l div pdpstep s\<rparr>
        else \<lparr>el_steps = int n,
               pre_int = Fin (of_nat (n * pdpstep s - l mod pdpstep s)) - d_of_int (last_up_usec (live_head s)) / Fin 1000000,
               post_int = Fin (of_nat (t mod pdpstep s)) + d_of_nat usec / Fin 1000000,
               proc_pdp_cnt = l div pdpstep s\<rparr>)"
    (is "?lhs = ?rhs")
proof -
  define w where "w = pdpstep s"
  have w: "0 < w" using assms(4) by (simp add: w_def)
  have le: "l div w \<le> t div w" using assms(2) by (rule div_le_mono)
  have t64: "t < 2 ^ 64" using assms(3) by simp
  have ts: "t - t mod w = t div w * w" by (simp add: minus_mod_eq_div_mult)
  have ls: "u64 (int l - int (l mod w)) = l div w * w"
  proof -
    have "int l - int (l mod w) = int (l div w * w)" by (metis of_nat_diff mod_le_divisor minus_mod_eq_div_mult mod_less_eq_dividend)
    moreover have "l div w * w < 2 ^ 64"
      using assms(2,3) le_less_trans [OF div_times_less_eq_dividend [of l w], of "2 ^ 64"] by simp
    ultimately show ?thesis by (simp only: u64_of_nat)
  qed
  have l64: "u64 (int l) = l" using assms(2,3) by (intro u64_of_nat) simp
  have df: "int (t div w * w) - int (l div w * w) = int ((t div w - l div w) * w)"
    using le by (simp add: of_nat_diff diff_mult_distrib mult_le_mono1)
  have b: "(t div w - l div w) * w \<le> t"
    by (metis diff_le_self div_times_less_eq_dividend le_trans mult_le_mono1)
  have st: "s32 (int (u64 (int (t div w * w) - int (l div w * w)) div w)) = int (t div w - l div w)"
  proof -
    have "u64 (int ((t div w - l div w) * w)) = (t div w - l div w) * w" using le_less_trans [OF b t64] by (intro u64_of_nat)
    moreover have "t div w - l div w \<le> t" by (meson diff_le_self div_le_dividend le_trans)
    ultimately show ?thesis using w assms(3) unfolding df by (simp add: of_nat_diff [symmetric] del: of_nat_diff)
  qed
  have pre: "d_of_int (s64 (s64 (int (t div w * w)) - int l)) = Fin (of_nat ((t div w - l div w) * w - l mod w))"
    if "l div w < t div w"
  proof -
    have "Suc (l div w) * w \<le> t div w * w" using that by (intro mult_le_mono1) simp
    then have le2: "l \<le> t div w * w" using w by (metis dividend_less_div_times le_trans less_imp_le mult_Suc add.commute)
    have tb: "t div w * w < 2 ^ 31" using assms(3) div_times_less_eq_dividend [of t w] by linarith
    have "(t div w - l div w) * w - l mod w = t div w * w - l"
      by (metis diff_diff_left diff_mult_distrib div_mult_mod_eq)
    moreover have "int (t div w * w) - int l = int (t div w * w - l)" using le2 by simp
    moreover have "d_of_int (int (t div w * w - l)) = Fin (of_int (int (t div w * w - l)))"
      using tb by (intro d_of_int_small) simp
    moreover have "s64 (int n) = int n" if "n < 2 ^ 31" for n using that by (intro s64_id) simp_all
    moreover have "t div w * w - l < 2 ^ 31" using tb by simp
    ultimately show ?thesis using tb by (simp only: of_int_of_nat_eq)
  qed
  have post: "d_of_nat (t mod w) = Fin (of_nat (t mod w))"
    using le_less_trans [OF mod_less_eq_dividend [of t w] assms(3)] by (subst d_of_int_small) simp_all
  have lt: "l div w * w < t div w * w \<longleftrightarrow> l div w < t div w" using w by simp
  show ?thesis
    unfolding calculate_elapsed_steps_def Let_def assms(1) w_def [symmetric] l64 ts ls st lt post
    using pre le w by auto
qed

theorem calculate_elapsed_steps_correct_witness:
  "calculate_elapsed_steps demo_rrd 1200000400 0 (Fin 400) =
     \<lparr>el_steps = 1, pre_int = Fin 300 - 0, post_int = Fin 100 + 0, proc_pdp_cnt = 4000000\<rparr>"
  using calculate_elapsed_steps_correct [of demo_rrd 1200000000 1200000400 0 "Fin 400"]
  by (simp add: demo_rrd_def zero_dbl_def divide_dbl_def)

section \<open>The rate of a step is a weighted mean\<close>

text \<open>
  The abstract accumulator of a data source: the sum of rate times seconds, the known and the unknown
  seconds since the last step boundary. A sample is a number of seconds and a rate, if there is one.
\<close>

type_synonym pdp_acc = "nat \<times> nat \<times> nat"

fun acc_add :: "nat \<Rightarrow> nat option \<Rightarrow> pdp_acc \<Rightarrow> pdp_acc" where
  "acc_add d (Some r) (S, K, U) = (S + r * d, K + d, U)"
| "acc_add d None (S, K, U) = (S, K, U + d)"

fun acc_mean :: "pdp_acc \<Rightarrow> dbl" where
  "acc_mean (S, K, U) = (if K = 0 then NaN else dround (of_nat S / of_nat K))"

text \<open>The increment that a sample gives, and the accumulator's representation.\<close>

fun sample_new :: "nat \<Rightarrow> nat option \<Rightarrow> dbl" where
  "sample_new d (Some r) = d_of_nat (r * d)"
| "sample_new d None = NaN"

fun pdp_rep :: "pdp_acc \<Rightarrow> pdp_prep_t \<Rightarrow> bool" where
  "pdp_rep (S, K, U) p \<longleftrightarrow>
     unkn_sec_cnt p = U \<and> (pdp_val p = Fin (of_nat S) \<or> pdp_val p = NaN \<and> S = 0 \<and> K = 0) \<and> (K = 0 \<longrightarrow> S = 0)"

lemma d_of_nat_small: "n \<le> 2 ^ 53 \<Longrightarrow> d_of_nat n = Fin (of_nat n)"
  by (subst d_of_int_small) simp_all

lemma d_nat_add: "a + b \<le> 2 ^ 53 \<Longrightarrow> Fin (of_nat a) + Fin (of_nat b) = Fin (of_nat (a + b))"
  using d_of_nat_small [of "a + b"] by (simp add: d_of_int_def)

lemma d_nat_diff: "b \<le> a \<Longrightarrow> a \<le> 2 ^ 53 \<Longrightarrow> Fin (of_nat a) - Fin (of_nat b) = Fin (of_nat (a - b))"
  using d_of_nat_small [of "a - b"] by (simp add: d_of_int_def of_nat_diff)

lemma d_nat_mult: "a * b \<le> 2 ^ 53 \<Longrightarrow> Fin (of_nat a) * Fin (of_nat b) = Fin (of_nat (a * b))"
  using d_of_nat_small [of "a * b"] by (auto simp: times_dbl_def d_of_int_def)

lemma d_nat_div: "0 < d \<Longrightarrow> r * d \<le> 2 ^ 53 \<Longrightarrow> Fin (of_nat (r * d)) / Fin (of_nat d) = Fin (of_nat r)"
proof -
  assume "0 < d" "r * d \<le> 2 ^ 53"
  then have "r \<le> 2 ^ 53" by (metis le_trans mult.right_neutral mult_le_mono2 Suc_leI One_nat_def)
  then show ?thesis using d_of_nat_small [of r] \<open>0 < d\<close> by (auto simp: divide_dbl_def d_of_int_def)
qed

lemma d_to_ulong_nat: "n < 2 ^ 53 \<Longrightarrow> d_to_ulong (Fin (of_nat n)) = n"
  by (simp add: d_to_ulong_def d_to_long_def rtrunc_def floor_of_nat)

lemma dfloor_nat: "n \<le> 2 ^ 53 \<Longrightarrow> dfloor (Fin (of_nat n)) = Fin (of_nat n)"
  by (simp add: d_of_nat_small)

lemmas d_nat = d_of_nat_small d_nat_add d_nat_diff d_nat_mult d_nat_div dfloor_nat d_to_ulong_nat

lemma simple_update_ds_rep:
  assumes "pdp_rep (S, K, U) p" and "acc_add d ro (S, K, U) = (S', K', U')"
    and "S' \<le> 2 ^ 53" and "K' + U' < 2 ^ 31"
  shows "pdp_rep (S', K', U') (simple_update_ds (d_of_nat d) (sample_new d ro) p)"
proof (cases ro)
  case None
  then have "d_to_ulong (d_of_nat U + dfloor (d_of_nat d)) = U + d"
    using assms(2,4) by (simp add: d_nat del: plus_dbl.simps fin_plus of_nat_add dfloor.simps)
  then show ?thesis using None assms by (auto simp: simple_update_ds_def)
next
  case (Some r)
  define m where "m = r * d"
  have m: "S' = S + m" "K' = K + d" "U' = U" "m \<le> 2 ^ 53" using assms(2,3) Some by (simp_all add: m_def)
  have "sample_new d ro = Fin (of_nat m)" using m(4) by (simp add: Some d_of_nat_small flip: m_def)
  moreover have "Fin (of_nat S) + Fin (of_nat m) = Fin (of_nat S')" using assms(3) m(1) by (simp only: d_nat_add)
  moreover have "K' = 0 \<longrightarrow> m = 0" using m(2) by (simp add: m_def)
  ultimately show ?thesis using assms(1) m(1-3)
    by (auto simp: simple_update_ds_def simp del: plus_dbl.simps fin_plus)
qed

lemma half_less: 
  assumes "w < 2 ^ 53" and "U < 2 ^ 31"
  shows "d_of_nat w / Fin 2 < d_of_int (s32 (int U)) \<longleftrightarrow> w < 2 * U"
proof -
  have "dround (of_nat w / 2) = Fin (of_nat w / 2)"
  proof (rule dround_exact [where m = "int w" and k = "- 1"])
    have "(of_nat w :: rat) < of_nat (2 ^ 53)" using assms(1) by (simp only: of_nat_less_iff)
    also have "\<dots> < 2 ^ 1024" by (simp only: of_nat_power of_nat_numeral) (rule power_strict_increasing; simp)
    finally show "\<bar>of_nat w / 2 :: rat\<bar> < 2 ^ 1024" by simp
  qed (use assms(1) in \<open>simp_all add: power_int_minus\<close>)
  moreover have "d_of_nat w / Fin 2 = dround (of_nat w / 2)"
    using assms(1) by (auto simp: d_of_nat_small divide_dbl_def)
  moreover have "d_of_int (s32 (int U)) = Fin (of_nat U)" using assms(2) by (simp add: d_of_nat_small)
  moreover have "of_nat w / 2 < (of_nat U :: rat) \<longleftrightarrow> of_nat w < (of_nat (2 * U) :: rat)" by auto
  ultimately show ?thesis by (simp only: fin_less of_nat_less_iff)
qed

lemma share_exact:
  assumes "r * (pre + post) \<le> 2 ^ 53" and "0 < pre + post" and "x \<le> pre + post" and "pre + post \<le> 2 ^ 53"
  shows "d_of_nat (r * (pre + post)) / d_of_nat (pre + post) * d_of_nat x = Fin (of_nat (r * x))"
proof -
  have "r * x \<le> r * (pre + post)" using assms(3) by simp
  then have "r * x \<le> 2 ^ 53" using assms(1) by (rule le_trans)
  moreover have "d_of_nat (r * (pre + post)) = Fin (of_nat (r * (pre + post)))" using assms(1) by (rule d_of_nat_small)
  moreover have "d_of_nat (pre + post) = Fin (of_nat (pre + post))" using assms(4) by (rule d_of_nat_small)
  moreover have "d_of_nat x = Fin (of_nat x)" using assms(3,4) by (intro d_of_nat_small) simp
  ultimately show ?thesis using assms(1,2) by (simp only: d_nat_div d_nat_mult)
qed

lemma pdp_finish_mean:
  assumes "pdp_rep (S, K, U) p" and "acc_add pre ro (S, K, U) = (S', K', U')" and "0 < pre"
    and "\<And>r. ro = Some r \<Longrightarrow> S + r * (pre + post) \<le> 2 ^ 53" and "S \<le> 2 ^ 53" and "K + U + pre + post < 2 ^ 31"
    and "mrhb < 2 ^ 53" and "pdpstep s < 2 ^ 53"
  shows "pdp_finish s mrhb (d_of_nat (pre + post)) (d_of_nat pre) (int (K + U + pre)) (sample_new (pre + post) ro) p =
    (if mrhb < pre + post \<or> pdpstep s < 2 * U then NaN else acc_mean (S', K', U'))"
proof -
  have u: "unkn_sec_cnt p = U" using assms(1) by simp
  have hb: "d_of_nat mrhb < d_of_nat (pre + post) \<longleftrightarrow> mrhb < pre + post"
    using assms(6,7) by (simp add: d_of_nat_small del: of_nat_add)
  have un: "d_of_nat (pdpstep s) / Fin 2 < d_of_int (s32 (int U)) \<longleftrightarrow> pdpstep s < 2 * U"
    using assms(6,8) by (intro half_less) simp_all
  have "u64 (int (K + pre)) = K + pre" using assms(6) by (intro u64_of_nat) simp
  moreover have "int (K + U + pre) - int U = int (K + pre)" by simp
  ultimately have "u64 (int (K + U + pre) - int U) = K + pre" by (simp only:)
  then have dn: "d_of_nat (u64 (int (K + U + pre) - int U)) = Fin (of_nat (K + pre))"
    using assms(6) by (simp only:) (intro d_of_nat_small, simp)
  have quot: "Fin (of_nat a) / Fin (of_nat b) = dround (of_nat a / of_nat b)" if "0 < b" for a b
    using that by (auto simp: divide_dbl_def)
  show ?thesis
  proof (cases ro)
    case None
    then have v: "S' = S" "K' = K" "U' = U + pre" using assms(2) by simp_all
    have "Fin (of_nat (K + pre)) - d_of_nat pre = Fin (of_nat K)"
      using assms(6) by (simp add: d_nat del: of_nat_add fin_minus)
    moreover have "pdp_val p / Fin (of_nat K) = acc_mean (S', K', U')"
    proof (cases "K = 0")
      case True
      then show ?thesis using assms(1) v by (auto simp: divide_dbl_def)
    next
      case False
      then show ?thesis using assms(1) v quot [of K S] by auto
    qed
    ultimately show ?thesis unfolding pdp_finish_def Let_def u hb un dn None by (simp del: of_nat_add acc_mean.simps)
  next
    case (Some r)
    have v: "S' = S + r * pre" "K' = K + pre" "U' = U" using assms(2) Some by simp_all
    define new where "new = d_of_nat (r * (pre + post))"
    have b: "S + r * (pre + post) \<le> 2 ^ 53" using assms(4) Some by simp
    then have sh: "new / d_of_nat (pre + post) * d_of_nat pre = Fin (of_nat (r * pre))"
      using assms(3,6) unfolding new_def by (intro share_exact) simp_all
    have "r * pre \<le> r * (pre + post)" by simp
    with b have "S + r * pre \<le> 2 ^ 53" by linarith
    then have "Fin (of_nat S) + Fin (of_nat (r * pre)) = Fin (of_nat S')" unfolding v(1) by (rule d_nat_add)
    then have sum: "(if isnan (pdp_val p) then 0 else pdp_val p) + Fin (of_nat (r * pre)) = Fin (of_nat S')"
      using assms(1) v(1) by (auto simp: zero_dbl_def simp del: of_nat_mult plus_dbl.simps fin_plus)
    have "\<not> isnan new" by (simp add: new_def isnan_def)
    moreover have "Fin (of_nat (K + pre)) - 0 = Fin (of_nat K')"
      using assms(6) v(2) d_nat_diff [of 0 "K + pre"] by (simp add: zero_dbl_def)
    moreover have "sample_new (pre + post) ro = new" by (simp add: Some new_def)
    ultimately have "pdp_finish s mrhb (d_of_nat (pre + post)) (d_of_nat pre) (int (K + U + pre)) (sample_new (pre + post) ro) p
        = (if mrhb < pre + post \<or> pdpstep s < 2 * U then NaN else Fin (of_nat S') / Fin (of_nat K'))"
      unfolding pdp_finish_def Let_def u hb un dn by (simp only: sh sum if_False)
    then show ?thesis using quot [of K' S'] assms(3) v(2) by simp
  qed
qed

lemma pdp_restart_rep:
  assumes "\<And>r. ro = Some r \<Longrightarrow> r * (pre + post) \<le> 2 ^ 53" and "0 < pre" and "pre + post < 2 ^ 31"
  shows "pdp_rep (acc_add post ro (0, 0, 0)) (pdp_restart (d_of_nat (pre + post)) (d_of_nat post) (sample_new (pre + post) ro) p)"
proof (cases ro)
  case None
  then show ?thesis using assms(3) by (simp add: pdp_restart_def d_nat del: dfloor.simps)
next
  case (Some r)
  have "d_of_nat (r * (pre + post)) / d_of_nat (pre + post) * d_of_nat post = Fin (of_nat (r * post))"
    using assms Some by (intro share_exact) simp_all
  moreover have "\<not> isnan (d_of_nat (r * (pre + post)))" by (simp add: isnan_def)
  ultimately show ?thesis using Some by (simp add: pdp_restart_def del: of_nat_mult of_nat_add)
qed

text \<open>The loop of \<open>simple_update\<close> treats every data source by itself.\<close>

lemma simple_update_slot:
  assumes "dscnt s = length (pdp_prep s)"
  shows "simple_update interval new s =
     s\<lparr>pdp_prep := map (\<lambda>i. simple_update_ds interval (new ! i) (pdp_prep s ! i)) [0 ..< dscnt s]\<rparr>"
proof -
  define f where "f = (\<lambda>i. simple_update_ds interval (new ! i) (pdp_prep s ! i))"
  have "fold (\<lambda>i s. s\<lparr>pdp_prep := (pdp_prep s)[i := simple_update_ds interval (new ! i) (pdp_prep s ! i)]\<rparr>) [0 ..< k] s
      = s\<lparr>pdp_prep := map f [0 ..< k] @ drop k (pdp_prep s)\<rparr>" if "k \<le> dscnt s" for k
    using that
  proof (induction k)
    case (Suc k)
    then have "k < length (pdp_prep s)" using assms by simp
    then show ?case using Suc by (simp add: nth_append list_update_append f_def Cons_nth_drop_Suc [symmetric])
  qed simp
  from this [of "dscnt s"] show ?thesis using assms by (simp add: simple_update_def f_def)
qed

definition readings_update :: "nat \<times> nat option list \<Rightarrow> rrd \<Rightarrow> rrd" where
  "readings_update = (\<lambda>(d, ros). simple_update (d_of_nat d) (map (sample_new d) ros))"

definition readings_acc :: "nat \<Rightarrow> nat \<times> nat option list \<Rightarrow> pdp_acc \<Rightarrow> pdp_acc" where
  "readings_acc i = (\<lambda>(d, ros). acc_add d (ros ! i))"

lemma acc_add_mono: "acc_add d ro (S, K, U) = (S', K', U') \<Longrightarrow> S \<le> S' \<and> K + U \<le> K' + U'"
  by (cases ro) auto

lemma readings_acc_mono: "fold (readings_acc i) rs (S, K, U) = (S', K', U') \<Longrightarrow> S \<le> S' \<and> K + U \<le> K' + U'"
proof (induction rs arbitrary: S K U)
  case (Cons x rs)
  obtain S1 K1 U1 where x: "acc_add (fst x) (snd x ! i) (S, K, U) = (S1, K1, U1)" by (metis prod_cases3)
  then have "fold (readings_acc i) rs (S1, K1, U1) = (S', K', U')"
    using Cons.prems by (cases x) (simp add: readings_acc_def)
  from Cons.IH [OF this] acc_add_mono [OF x] show ?case by linarith
qed simp

lemma readings_rep:
  assumes "pdp_rep (S, K, U) (pdp_prep s ! i)" and "fold (readings_acc i) rs (S, K, U) = (S', K', U')"
    and "S' \<le> 2 ^ 53" and "K' + U' < 2 ^ 31" and "i < dscnt s" and "dscnt s = length (pdp_prep s)"
    and "list_all (\<lambda>(d, ros). length ros = dscnt s) rs"
  shows "\<exists>ps. fold readings_update rs s = s\<lparr>pdp_prep := ps\<rparr> \<and> length ps = dscnt s \<and> pdp_rep (S', K', U') (ps ! i)"
  using assms
proof (induction rs arbitrary: S K U s)
  case Nil
  then show ?case by (intro exI [of _ "pdp_prep s"]) simp
next
  case (Cons x rs)
  obtain d ros where x: "x = (d, ros)" by fastforce
  obtain S1 K1 U1 where a: "acc_add d (ros ! i) (S, K, U) = (S1, K1, U1)" by (metis prod_cases3)
  define ps where "ps = map (\<lambda>i. simple_update_ds (d_of_nat d) (map (sample_new d) ros ! i) (pdp_prep s ! i)) [0 ..< dscnt s]"
  have s1: "readings_update x s = s\<lparr>pdp_prep := ps\<rparr>"
    using Cons.prems(6) by (simp add: x readings_update_def simple_update_slot ps_def)
  have acc: "fold (readings_acc i) rs (S1, K1, U1) = (S', K', U')"
    using Cons.prems(2) a by (simp add: x readings_acc_def)
  have "ps ! i = simple_update_ds (d_of_nat d) (sample_new d (ros ! i)) (pdp_prep s ! i)"
    using Cons.prems(5,7) by (simp add: x ps_def)
  then have "pdp_rep (S1, K1, U1) (ps ! i)"
    using simple_update_ds_rep [OF Cons.prems(1) a] readings_acc_mono [OF acc] Cons.prems(3,4) by simp
  then show ?case
    using Cons.IH [of S1 K1 U1 "s\<lparr>pdp_prep := ps\<rparr>"] acc Cons.prems(3-7) s1 by (simp add: ps_def)
qed

text \<open>
  C3: a primary data point is the mean of the rates weighted with the seconds they held. Start from an
  accumulator that represents \<open>(S, K, U)\<close> (rate times seconds, known and unknown seconds since the last
  boundary), let any readings \<open>rs\<close> arrive inside the step, then one whose interval has \<open>pre\<close> seconds before
  the last boundary and \<open>post\<close> behind it. The rate that \<open>process_pdp_st\<close> hands on is the weighted mean over
  all known seconds up to the boundary, rounded once; it is unknown when the heartbeat was missed, when
  more than half a step was unknown before this reading, or when nothing was known. The accumulator then
  represents the share of the reading behind the boundary. Everything is exact below \<open>2^53\<close>.
\<close>

theorem process_pdp_st_weighted_mean:
  assumes "pdp_rep (S0, K0, U0) (pdp_prep s ! i)" and "fold (readings_acc i) rs (S0, K0, U0) = (S, K, U)"
    and "i < dscnt s" and "dscnt s = length (pdp_prep s)" and "length temp = dscnt s" and "length ros = dscnt s"
    and "list_all (\<lambda>(d, ros). length ros = dscnt s) rs" and "dst_conv (dst (ds_def s ! i)) \<noteq> Some DST_CDEF"
    and "0 < pre" and "S + (case ros ! i of None \<Rightarrow> 0 | Some r \<Rightarrow> r * (pre + post)) \<le> 2 ^ 53"
    and "K + U + pre + post < 2 ^ 31" and "mrhb_cnt (ds_def s ! i) < 2 ^ 53" and "pdpstep s < 2 ^ 53"
  shows "\<exists>s' temp'.
    process_pdp_st env (d_of_nat (pre + post)) (d_of_nat pre) (d_of_nat post) (int (K + U + pre))
      (map (sample_new (pre + post)) ros) i (fold readings_update rs s, temp) = (None, (s', temp')) \<and>
    temp' = temp[i :=
      (if mrhb_cnt (ds_def s ! i) < pre + post \<or> pdpstep s < 2 * U then NaN
       else acc_mean (acc_add pre (ros ! i) (S, K, U)))] \<and>
    pdp_rep (acc_add post (ros ! i) (0, 0, 0)) (pdp_prep s' ! i)"
proof -
  obtain ps where ps: "fold readings_update rs s = s\<lparr>pdp_prep := ps\<rparr>" "length ps = dscnt s" "pdp_rep (S, K, U) (ps ! i)"
    using readings_rep [OF assms(1,2)] assms(3,4,7,10,11) by auto
  obtain S' K' U' where a: "acc_add pre (ros ! i) (S, K, U) = (S', K', U')" by (metis prod_cases3)
  have b: "S + r * (pre + post) \<le> 2 ^ 53" if "ros ! i = Some r" for r using assms(10) that by simp
  have fin: "pdp_finish (s\<lparr>pdp_prep := ps\<rparr>) (mrhb_cnt (ds_def s ! i)) (d_of_nat (pre + post)) (d_of_nat pre) (int (K + U + pre))
        (sample_new (pre + post) (ros ! i)) (ps ! i)
      = (if mrhb_cnt (ds_def s ! i) < pre + post \<or> pdpstep s < 2 * U then NaN else acc_mean (S', K', U'))"
    using pdp_finish_mean [OF ps(3) a, of post "mrhb_cnt (ds_def s ! i)" "s\<lparr>pdp_prep := ps\<rparr>"] b assms(9-13) by simp
  have rep: "pdp_rep (acc_add post (ros ! i) (0, 0, 0))
      (pdp_restart (d_of_nat (pre + post)) (d_of_nat post) (sample_new (pre + post) (ros ! i)) p)" for p
    using assms(9,11) b by (intro pdp_restart_rep) fastforce+
  have "i < length ps" "map (sample_new (pre + post)) ros ! i = sample_new (pre + post) (ros ! i)"
    using assms(3,6) ps(2) by simp_all
  then show ?thesis using assms(8) rep
    by (simp add: process_pdp_st_def ps(1) fin a Let_def del: of_nat_add)
qed

theorem process_pdp_st_weighted_mean_witness:
  "\<exists>s' temp'.
    process_pdp_st demo_env (d_of_nat (200 + 50)) (d_of_nat 200) (d_of_nat 50) (int (100 + 0 + 200))
      (map (sample_new (200 + 50)) [Some 8, None]) 0 (fold readings_update [(100, [Some 5, None])] demo_rrd, [0, 0])
      = (None, (s', temp')) \<and>
    temp' = [0, 0][0 := acc_mean (acc_add 200 (Some 8) (500, 100, 0))] \<and>
    pdp_rep (acc_add 50 (Some 8) (0, 0, 0)) (pdp_prep s' ! 0)"
proof -
  have "pdp_rep (0, 0, 0) (pdp_prep demo_rrd ! 0)" by (simp add: demo_rrd_def zero_dbl_def)
  then show ?thesis
    using process_pdp_st_weighted_mean [where s = demo_rrd and i = 0 and ?S0.0 = 0 and ?K0.0 = 0 and ?U0.0 = 0
        and rs = "[(100, [Some 5, None])]" and S = 500 and K = 100 and U = 0 and temp = "[0, 0]"
        and ros = "[Some 8, None]" and pre = 200 and post = 50 and env = demo_env]
    by (simp add: readings_acc_def del: acc_mean.simps pdp_rep.simps)
      (simp add: demo_rrd_def dst_conv_def del: acc_mean.simps pdp_rep.simps)
qed

end
