(* ===== verification/Update.thy ===== *)
theory Update
  imports Cdp Pdp
begin

text \<open>
  The update command (\<open>rrd_update.c\<close>): the template, the parsing of one argument
  \<open>time:value:value...\<close>, and the driver \<open>process_arg\<close> that runs primary data points, consolidation and
  the archives. The state is the opened and locked database together with the arrays of \<open>_rrd_update\<close>.

  The clock is an argument. So is the reader of at-style times (\<open>rrd_parsetime\<close> followed by \<open>mktime\<close>).
\<close>

datatype upd_error = UpdNoArgs | UpdTemplateTooLong | UpdUnknownDS | UpdNoTimestamp | UpdExtraData | UpdMissingData
  | UpdIndexUnset | UpdAtSyntax | UpdAtRelative | UpdTimeConversion | UpdTooOld
  | UpdPdp pdp_error | UpdCdp cdp_error | UpdStore store_error

section \<open>Time\<close>

definition normalize_time :: "int \<times> int \<Rightarrow> int \<times> int" where
  "normalize_time t = (if snd t < 0 then (fst t - 1, snd t + 1000000) else t)"

definition initialize_time :: "int \<times> int \<Rightarrow> int \<Rightarrow> int \<times> int" where
  "initialize_time clock ver =
     (let t = normalize_time clock in if ver \<ge> 3 then t else (fst t, 0))"

datatype at_time = AtError | AtRelative | AtTime int

record upd_env =
  ue_rpn :: rpn_env
  ue_at :: "string \<Rightarrow> at_time"

text \<open>The literal \<open>1e-6f\<close> is the single precision number next to a millionth.\<close>

definition micro_f :: dbl where
  "micro_f = Fin (f32 (1 / 1000000))"

definition seconds_of_reading :: "int \<times> int \<Rightarrow> dbl \<Rightarrow> int \<times> int" where
  "seconds_of_reading clock tmp =
     (let tmp = (if tmp < 0 then d_of_int (fst clock) + d_of_int (snd clock) * micro_f + tmp else tmp);
          sec = d_to_long (dfloor tmp)
      in (sec, d_to_long ((tmp - d_of_int sec) * Fin 1000000)))"

definition get_time_from_reading :: "upd_env \<Rightarrow> int \<times> int \<Rightarrow> char \<Rightarrow> string \<Rightarrow> rrd \<Rightarrow> upd_error + (int \<times> int)" where
  "get_time_from_reading env clock timesyntax str s =
     (case (if timesyntax = CHR ''@''
            then (case ue_at env str of
                    AtError \<Rightarrow> Inl UpdAtSyntax | AtRelative \<Rightarrow> Inl UpdAtRelative | AtTime t \<Rightarrow> Inr (t, 0))
            else if str = ''N'' then Inr (normalize_time clock)
            else case strtod str of ((tmp, erange), _) \<Rightarrow>
                   if erange then Inl UpdTimeConversion else Inr (seconds_of_reading clock tmp)) of
        Inl e \<Rightarrow> Inl e
      | Inr (sec, usec) \<Rightarrow>
          let usec = (if rrd_version s < 3 then 0 else usec); l = live_head s
          in if sec < last_up l \<or> (sec = last_up l \<and> usec \<le> last_up_usec l) then Inl UpdTooOld
             else Inr (sec, usec))"

section \<open>Templates and readings\<close>

text \<open>The fields of a string between separators.\<close>

fun split_on :: "char \<Rightarrow> string \<Rightarrow> string list" where
  "split_on c [] = [[]]"
| "split_on c (x # xs) =
     (if x = c then [] # split_on c xs
      else case split_on c xs of f # fs \<Rightarrow> (x # f) # fs | [] \<Rightarrow> [[x]])"

text \<open>The redirector \<open>tmpl_idx\<close>, whose length is \<open>tmpl_cnt\<close>.\<close>

definition default_template :: "rrd \<Rightarrow> nat list" where
  "default_template s = 0 # filter (\<lambda>i. dst_conv (dst (ds_def s ! (i - 1))) \<noteq> Some DST_CDEF) [1 ..< dscnt s + 1]"

fun template_from :: "rrd \<Rightarrow> string list \<Rightarrow> nat list \<Rightarrow> upd_error + nat list" where
  "template_from s [] idx = Inr idx"
| "template_from s (nam # nams) idx =
     (if length idx > dscnt s then Inl UpdTemplateTooLong
      else if ds_match s nam + 1 = 0 then Inl UpdUnknownDS
      else template_from s nams (idx @ [nat (ds_match s nam + 1)]))"

definition parse_template :: "rrd \<Rightarrow> string \<Rightarrow> upd_error + nat list" where
  "parse_template s tmplt = template_from s (split_on CHR '':'' tmplt) [0]"

text \<open>
  The assignments \<open>updvals[tmpl_idx[i]] = ...\<close>. With no reading in the template (every data source is
  computed) the source stores through an index it never set: \<open>UpdIndexUnset\<close> is not an error of the source but
  stands for this, and says nothing about what follows.
\<close>

definition parse_ds :: "upd_env \<Rightarrow> int \<times> int \<Rightarrow> nat list \<Rightarrow> string \<Rightarrow> rrd \<Rightarrow> upd_error + (string list \<times> int \<times> int)" where
  "parse_ds env clock tmpl_idx inp s =
     (let sep = (if CHR ''@'' \<in> set inp then Some CHR ''@'' else if CHR '':'' \<in> set inp then Some CHR '':'' else None)
      in case sep of
           None \<Rightarrow> Inl UpdNoTimestamp
         | Some c \<Rightarrow>
             let time = takeWhile (\<lambda>x. x \<noteq> c) inp;
                 vals = split_on CHR '':'' (drop (length time + 1) inp);
                 updvals = fold (\<lambda>(i, v) u. u[i := v]) (zip (tl tmpl_idx) vals) (time # replicate (dscnt s) ''U'')
             in if length tmpl_idx \<le> 1 then Inl UpdIndexUnset
                else if length vals > length tmpl_idx - 1 then Inl UpdExtraData
                else if length vals < length tmpl_idx - 1 then Inl UpdMissingData
                else (case get_time_from_reading env clock c time s of
                        Inl e \<Rightarrow> Inl e
                      | Inr (sec, usec) \<Rightarrow> Inr (updvals, sec, usec)))"

section \<open>The driver\<close>

record upd_ctx =
  ux_rrd :: rrd
  ux_pdp_new :: "dbl list"
  ux_pdp_temp :: "dbl list"
  ux_step_cnt :: "nat list"
  ux_skip :: "nat list"
  ux_smooth :: bool

definition reading_interval :: "live_head_t \<Rightarrow> int \<times> int \<Rightarrow> dbl" where
  "reading_interval l now =
     d_of_int (fst now - last_up l) + d_of_int (snd now - last_up_usec l) / Fin 1000000"

text \<open>The branch of \<open>process_arg\<close> for an update behind a step boundary.\<close>

definition run_cdps :: "nat \<Rightarrow> nat \<Rightarrow> int \<Rightarrow> upd_ctx \<Rightarrow> (upd_error, upd_ctx) outcome" where
  "run_cdps elapsed_pdp_st proc_cnt sec cx =
     (case update_all_cdp_prep 0 elapsed_pdp_st proc_cnt (ux_pdp_temp cx)
             \<lparr>cx_rrd = ux_rrd cx, rra_step_cnt = ux_step_cnt cx, skip_update = ux_skip cx,
              last_seasonal_coef = [], seasonal_coef = [], schedule_smooth = ux_smooth cx\<rparr> of (e, c) \<Rightarrow>
      let cx = cx\<lparr>ux_rrd := cx_rrd c, ux_step_cnt := rra_step_cnt c, ux_skip := skip_update c,
                 ux_smooth := schedule_smooth c\<rparr>
      in case e of
           Some e \<Rightarrow> (Some (UpdCdp e), cx)
         | None \<Rightarrow>
             (case update_aberrant_cdps 0 elapsed_pdp_st (ux_pdp_temp cx) (seasonal_coef c, ux_rrd cx) of (e, (_, s)) \<Rightarrow>
              case e of
                Some e \<Rightarrow> (Some (UpdCdp e), cx\<lparr>ux_rrd := s\<rparr>)
              | None \<Rightarrow>
                  (case write_to_rras (ux_step_cnt cx) 0 sec (ux_skip cx) s of (e, s) \<Rightarrow>
                   (map_option UpdStore e, cx\<lparr>ux_rrd := s\<rparr>))))"

definition stamp_update :: "int \<times> int \<Rightarrow> rrd \<Rightarrow> rrd" where
  "stamp_update now s =
     (let s = s\<lparr>live_head := \<lparr>last_up = fst now, last_up_usec = snd now\<rparr>\<rparr>
      in if rrd_version s < 3 then s\<lparr>legacy_last_up := Some (fst now)\<rparr> else s)"

definition process_arg :: "upd_env \<Rightarrow> nat list \<Rightarrow> (int \<times> int) \<times> string \<Rightarrow> upd_ctx \<Rightarrow> (upd_error, upd_ctx) outcome" where
  "process_arg env tmpl_idx arg cx =
     (case arg of (clock, inp) \<Rightarrow>
      case parse_ds env clock tmpl_idx inp (ux_rrd cx) of
        Inl e \<Rightarrow> (Some e, cx)
      | Inr (updvals, now) \<Rightarrow>
          let interval = reading_interval (live_head (ux_rrd cx)) now in
          (case update_pdp_prep updvals interval (ux_rrd cx, ux_pdp_new cx) of (e, (s, new)) \<Rightarrow>
           let cx = cx\<lparr>ux_rrd := s, ux_pdp_new := new\<rparr> in
           case e of
             Some e \<Rightarrow> (Some (UpdPdp e), cx)
           | None \<Rightarrow>
               let el = calculate_elapsed_steps s (u64 (fst now)) (u64 (snd now)) interval;
                   elapsed_pdp_st = u64 (el_steps el)
               in andThen
                    (if elapsed_pdp_st = 0 then (None, cx\<lparr>ux_rrd := simple_update interval new s\<rparr>)
                     else case process_all_pdp_st (ue_rpn env) interval (pre_int el) (post_int el) elapsed_pdp_st new
                                 (s, ux_pdp_temp cx) of (e, (s, temp)) \<Rightarrow>
                          let cx = cx\<lparr>ux_rrd := s, ux_pdp_temp := temp\<rparr> in
                          (case e of
                             Some e \<Rightarrow> (Some (UpdPdp e), cx)
                           | None \<Rightarrow> run_cdps elapsed_pdp_st (proc_pdp_cnt el) (fst now) cx))
                    (\<lambda>cx. (None, cx\<lparr>ux_rrd := stamp_update now (ux_rrd cx)\<rparr>))))"

text \<open>\<open>_rrd_update\<close> behind \<open>rrd_open\<close> and \<open>rrd_lock\<close>: every argument comes with the reading of the clock. The
  arrays are allocated without initial contents; they are written before they are read.\<close>

definition upd_init :: "rrd \<Rightarrow> upd_ctx" where
  "upd_init s = \<lparr>ux_rrd = s, ux_pdp_new = replicate (dscnt s) NaN, ux_pdp_temp = replicate (dscnt s) NaN,
     ux_step_cnt = replicate (rracnt s) 0, ux_skip = replicate (rracnt s) 0, ux_smooth = False\<rparr>"

definition rrd_update :: "upd_env \<Rightarrow> string option \<Rightarrow> ((int \<times> int) \<times> string) list \<Rightarrow> rrd \<Rightarrow> (upd_error, rrd) outcome" where
  "rrd_update env tmplt args s =
     (if args = [] then (Some UpdNoArgs, s)
      else case (case tmplt of None \<Rightarrow> Inr (default_template s) | Some t \<Rightarrow> parse_template s t) of
             Inl e \<Rightarrow> (Some e, s)
           | Inr tmpl_idx \<Rightarrow>
               (case loopM (process_arg env tmpl_idx) args (upd_init s) of (e, cx) \<Rightarrow>
                case e of
                  Some e \<Rightarrow> (Some e, ux_rrd cx)
                | None \<Rightarrow> (None, if ux_smooth cx then snd (smooth_all_rras 0 (ux_rrd cx)) else ux_rrd cx)))"

section \<open>What the preparation stages may touch\<close>

text \<open>Everything between parsing and writing works on the two preparation areas (and moves the position).\<close>

definition prep_only :: "rrd \<Rightarrow> rrd \<Rightarrow> bool" where
  "prep_only s t \<longleftrightarrow>
     (\<exists>ps cs p. length ps = length (pdp_prep s) \<and> length cs = length (cdp_prep s) \<and>
        t = s\<lparr>pdp_prep := ps, cdp_prep := cs, pos := p\<rparr>)"

lemma prep_only_refl [simp]: "prep_only s s"
  unfolding prep_only_def by (intro exI [of _ "pdp_prep s"] exI [of _ "cdp_prep s"] exI [of _ "pos s"]) simp

lemma prep_only_trans [trans]: "prep_only s t \<Longrightarrow> prep_only t u \<Longrightarrow> prep_only s u"
  unfolding prep_only_def by fastforce

lemma prep_onlyD:
  assumes "prep_only s t"
  shows "same_layout s t" "rra_ptr t = rra_ptr s" "live_head t = live_head s" "legacy_last_up t = legacy_last_up s"
    "rrd_value t = rrd_value s" "stat_head t = stat_head s" "rra_def t = rra_def s" "ds_def t = ds_def s"
  using assms by (auto simp: prep_only_def same_layout_def)

lemma prep_only_upd_cdp [simp]: "prep_only s (upd_cdp i f s)"
  unfolding prep_only_def upd_cdp_def
  by (intro exI [of _ "pdp_prep s"] exI [of _ "(cdp_prep s)[i := f (cdp_prep s ! i)]"] exI [of _ "pos s"]) simp

lemma prep_only_upd_cdp2 [simp]: "prep_only s t \<Longrightarrow> prep_only s (upd_cdp i f t)"
  by (erule prep_only_trans) (rule prep_only_upd_cdp)

lemma prep_only_andThen:
  assumes "prep_only s (g (snd r))" and "\<And>x. prep_only (g x) (g (snd (f x)))"
  shows "prep_only s (g (snd (andThen r f)))"
  using assms prep_only_trans [OF assms(1)] by (cases r) (auto simp: andThen_def split: option.splits)

lemma prep_only_fold: "(\<And>x s. prep_only s (f x s)) \<Longrightarrow> prep_only s (fold f xs s)"
  by (induction xs arbitrary: s) (auto intro: prep_only_trans)

lemma prep_only_reset_cdp: "prep_only s (reset_cdp e pt lc co ri di ci cf s)"
  by (cases cf) (auto simp: reset_cdp_def erase_violations_def)

lemma prep_only_update_cdp_prep: "prep_only s (update_cdp_prep e off cnt ri pt lc co cf s)"
  unfolding update_cdp_prep_def
  by (rule prep_only_fold) (simp add: Let_def prep_only_reset_cdp)

lemma prep_only_update_aberrant_CF: "prep_only s (snd (update_aberrant_CF v cf ci ri di sc co s))"
  by (cases cf)
    (auto simp: update_aberrant_CF_def update_hwpredict_def update_seasonal_def update_devpredict_def
      update_devseasonal_def update_failures_def Let_def split_beta split: option.split)

lemma prep_only_pos [simp]: "prep_only s (s\<lparr>pos := p\<rparr>)"
  unfolding prep_only_def by (intro exI [of _ "pdp_prep s"] exI [of _ "cdp_prep s"] exI [of _ p]) simp

lemma prep_only_lookup_seasonal: "prep_only (snd cs) (snd (snd (lookup_seasonal ri rs off cs)))"
  by (cases cs)
    (auto simp: lookup_seasonal_def rrd_seek_def rrd_read_def Let_def split: prod.splits option.splits if_splits)

lemma prep_only_schedule: "prep_only s (snd (do_schedule_smooth ri e s))"
  by (simp add: do_schedule_smooth_def Let_def)

lemma prep_only_seasonal_lookups: "prep_only (cx_rrd cx) (cx_rrd (snd (seasonal_lookups ri rs e cx)))"
proof -
  define r1 where "r1 = lookup_seasonal ri rs e (last_seasonal_coef cx, cx_rrd cx)"
  define r2 where "r2 = lookup_seasonal ri rs (e + 1) (seasonal_coef cx, snd (snd r1))"
  have "prep_only (cx_rrd cx) (snd (snd r1))"
    using prep_only_lookup_seasonal [of "(last_seasonal_coef cx, cx_rrd cx)" ri rs e] by (simp add: r1_def)
  moreover have "prep_only (snd (snd r1)) (snd (snd r2))"
    using prep_only_lookup_seasonal [of "(seasonal_coef cx, snd (snd r1))" ri rs "e + 1"] by (simp add: r2_def)
  moreover have "cx_rrd (snd (seasonal_lookups ri rs e cx)) = snd (snd r2)"
    by (simp add: seasonal_lookups_def r1_def r2_def Let_def split_beta)
  ultimately show ?thesis using prep_only_trans by metis
qed

lemma prep_only_cdp_prep_rra: "prep_only (cx_rrd cx) (cx_rrd (snd (cdp_prep_rra ri rs e p pt cx)))"
proof -
  have sched: "prep_only s t \<Longrightarrow> prep_only s (snd (do_schedule_smooth ri e t))" for s t
    using prep_only_schedule prep_only_trans by metis
  have look: "prep_only (cx_rrd cx) (cx_rrd (snd (seasonal_lookups ri rs e (cx\<lparr>rra_step_cnt := z, skip_update := y\<rparr>))))" for y z
    using prep_only_seasonal_lookups [of "cx\<lparr>rra_step_cnt := z, skip_update := y\<rparr>"] by simp
  show ?thesis
    unfolding cdp_prep_rra_def Let_def
  proof (rule prep_only_andThen [where g = cx_rrd], goal_cases)
    case 1
    show ?case by (auto simp: split_beta intro!: sched look)
  next
    case (2 x)
    then show ?case using prep_only_update_cdp_prep by (auto split: option.split)
  qed
qed

lemma prep_only_cdp_prep_from: "prep_only (cx_rrd cx) (cx_rrd (snd (cdp_prep_from ris rs e p pt cx)))"
proof (induction ris arbitrary: rs cx)
  case (Cons ri ris)
  show ?case unfolding cdp_prep_from.simps
    by (rule prep_only_andThen [where g = cx_rrd]) (rule prep_only_cdp_prep_rra, rule Cons.IH)
qed simp

lemma prep_only_aberrant_rra: "prep_only (snd cs) (snd (snd (aberrant_rra ri rs e sc pt cs)))"
proof -
  obtain co s where cs: "cs = (co, s)" by fastforce
  have f: "prep_only s (fold (\<lambda>d s. snd (update_aberrant_CF (pt ! d) cf (ri * dscnt s + d) ri d sc co s)) xs s)" for s cf co xs sc
    by (rule prep_only_fold) (rule prep_only_update_aberrant_CF)
  show ?thesis
  proof (cases "cf_conv (cf_nam (rra_def s ! ri))")
    case None
    then show ?thesis by (simp add: aberrant_rra_def cs)
  next
    case (Some cf)
    then show ?thesis unfolding aberrant_rra_def cs Let_def prod.case option.case
      by (cases "pdp_cnt (rra_def s ! ri) = 1")
        (auto intro!: prep_only_andThen [where g = snd] f prep_only_lookup_seasonal [of "(co, s)", simplified] split: prod.split)
  qed
qed

lemma prep_only_aberrant_from: "prep_only (snd cs) (snd (snd (aberrant_from ris rs e sc pt cs)))"
proof (induction ris arbitrary: rs cs)
  case (Cons ri ris)
  show ?case unfolding aberrant_from.simps
    by (rule prep_only_andThen [where g = snd]) (rule prep_only_aberrant_rra, rule Cons.IH)
qed simp

lemma prep_only_aberrant_steps: "prep_only (snd cs) (snd (snd (aberrant_steps j rb e sc pt cs)))"
proof (induction j arbitrary: sc cs)
  case (Suc j)
  show ?case unfolding aberrant_steps.simps
    by (auto intro!: prep_only_andThen [where g = snd] prep_only_aberrant_from Suc.IH)
qed simp

lemma prep_only_pdp:
  assumes "length ps = length (pdp_prep s)"
  shows "prep_only s (s\<lparr>pdp_prep := ps\<rparr>)"
  unfolding prep_only_def
  using assms by (intro exI [of _ ps] exI [of _ "cdp_prep s"] exI [of _ "pos s"]) simp

lemma prep_only_update_pdp_prep: "prep_only (fst st) (fst (snd (update_pdp_prep updvals interval st)))"
proof -
  define u where "u = snd (update_pdp_prep updvals interval st)"
  have "same_pdp_frame st u" unfolding u_def update_pdp_prep_def by (rule upd.loop_same)
  then have "fst u = (fst st)\<lparr>pdp_prep := pdp_prep (fst u)\<rparr>" "length (pdp_prep (fst u)) = length (pdp_prep (fst st))"
    by (simp_all add: same_pdp_frame_def)
  then have "prep_only (fst st) (fst u)" using prep_only_pdp by metis
  then show ?thesis by (simp add: u_def)
qed

lemma prep_only_simple_update: "prep_only s (simple_update interval new s)"
  unfolding simple_update_def by (rule prep_only_fold) (rule prep_only_pdp, simp)

lemma prep_only_process_pdp_st: "prep_only (fst st) (fst (snd (process_pdp_st env iv pre post diff new i st)))"
  by (cases st) (auto simp: process_pdp_st_def Let_def split: sum.split prod.split intro!: prep_only_pdp)

lemma prep_only_process_all: "prep_only (fst st) (fst (snd (process_all_pdp_st env iv pre post el new st)))"
  unfolding process_all_pdp_st_def
  by (rule loopM_invariant [where P = "\<lambda>t. prep_only (fst st) (fst t)"])
    (auto intro: prep_only_trans prep_only_process_pdp_st)

section \<open>What a whole argument may touch\<close>

text \<open>The database stays well-formed, keeps its layout, and its time of update is not touched.\<close>

definition kept :: "rrd \<Rightarrow> rrd \<Rightarrow> bool" where
  "kept s t \<longleftrightarrow> wf_rrd t \<and> same_layout s t \<and> live_head t = live_head s"

lemma kept_trans [trans]: "kept s t \<Longrightarrow> kept t u \<Longrightarrow> kept s u"
  unfolding kept_def using same_layout_trans by auto

lemma kept_prep: "wf_rrd s \<Longrightarrow> prep_only s t \<Longrightarrow> kept s t"
  unfolding kept_def using prep_onlyD wf_same_ptr by auto

lemma kept_write:
  assumes "wf_rrd s"
  shows "kept s (snd (write_to_rras cnt 0 ct skip s))"
proof -
  have "rra_off s 0 = 0" by (simp add: rra_off_def rra_total_def)
  then have "store_only s (snd (write_to_rras cnt 0 ct skip s))" "wf_rrd (snd (write_to_rras cnt 0 ct skip s))"
    using write_rras_from_post [OF assms, of 0 cnt ct skip] by (simp_all add: write_to_rras_def Let_def)
  then show ?thesis using store_only_layout by (auto simp: kept_def store_only_def)
qed

lemma kept_run_cdps:
  assumes "wf_rrd (ux_rrd cx)"
  shows "kept (ux_rrd cx) (ux_rrd (snd (run_cdps el pc sec cx)))"
proof -
  define c where "c = snd (update_all_cdp_prep 0 el pc (ux_pdp_temp cx)
     \<lparr>cx_rrd = ux_rrd cx, rra_step_cnt = ux_step_cnt cx, skip_update = ux_skip cx,
      last_seasonal_coef = [], seasonal_coef = [], schedule_smooth = ux_smooth cx\<rparr>)"
  define s where "s = snd (snd (update_aberrant_cdps 0 el (ux_pdp_temp cx) (seasonal_coef c, cx_rrd c)))"
  have c: "prep_only (ux_rrd cx) (cx_rrd c)"
    unfolding c_def update_all_cdp_prep_def
    using prep_only_cdp_prep_from [where cx = "\<lparr>cx_rrd = ux_rrd cx, rra_step_cnt = ux_step_cnt cx, skip_update = ux_skip cx,
      last_seasonal_coef = [], seasonal_coef = [], schedule_smooth = ux_smooth cx\<rparr>"] by simp
  have s: "prep_only (cx_rrd c) s"
    unfolding s_def update_aberrant_cdps_def using prep_only_aberrant_steps [of "(seasonal_coef c, cx_rrd c)"] by simp
  have k: "kept (ux_rrd cx) (cx_rrd c)" "kept (ux_rrd cx) s"
    using kept_prep [OF assms] c prep_only_trans [OF c s] by simp_all
  then have "wf_rrd s" by (simp add: kept_def)
  have "ux_rrd (snd (run_cdps el pc sec cx)) \<in>
      {cx_rrd c, s, snd (write_to_rras (rra_step_cnt c) 0 sec (skip_update c) s)}"
    by (auto simp: run_cdps_def c_def s_def Let_def split_beta split: option.splits)
  with k kept_trans [OF k(2) kept_write [OF \<open>wf_rrd s\<close>]] show ?thesis by auto
qed

text \<open>Time stamps are ordered lexicographically.\<close>

definition stamp_less :: "live_head_t \<Rightarrow> int \<times> int \<Rightarrow> bool" where
  "stamp_less l now \<longleftrightarrow> last_up l < fst now \<or> (last_up l = fst now \<and> last_up_usec l < snd now)"

lemma parse_ds_later: "parse_ds env clock tmpl inp s = Inr (u, now) \<Longrightarrow> stamp_less (live_head s) now"
  by (auto simp: parse_ds_def get_time_from_reading_def stamp_less_def Let_def
      split: option.splits sum.splits if_splits prod.splits)

lemma wf_stamp: "wf_rrd s \<Longrightarrow> wf_rrd (stamp_update now s) \<and> same_layout s (stamp_update now s)"
  by (auto simp: stamp_update_def Let_def wf_rrd_def same_layout_def)

lemma live_head_stamp [simp]: "live_head (stamp_update now s) = \<lparr>last_up = fst now, last_up_usec = snd now\<rparr>"
  by (simp add: stamp_update_def Let_def)

lemma process_arg_post:
  assumes "wf_rrd (ux_rrd cx)" and "process_arg env tmpl arg cx = (e, cx')"
  shows "wf_rrd (ux_rrd cx') \<and> same_layout (ux_rrd cx) (ux_rrd cx') \<and>
    (case e of Some _ \<Rightarrow> live_head (ux_rrd cx') = live_head (ux_rrd cx)
     | None \<Rightarrow> \<exists>u now. parse_ds env (fst arg) tmpl (snd arg) (ux_rrd cx) = Inr (u, now) \<and>
                 live_head (ux_rrd cx') = \<lparr>last_up = fst now, last_up_usec = snd now\<rparr>)"
proof -
  define s where "s = ux_rrd cx"
  have wf: "wf_rrd s" and kr: "kept s s" using assms(1) by (simp_all add: s_def kept_def)
  obtain clock inp where arg: "arg = (clock, inp)" by fastforce
  show ?thesis
  proof (cases "parse_ds env clock tmpl inp s")
    case (Inl e0)
    then show ?thesis using assms by (auto simp: process_arg_def arg s_def)
  next
    case (Inr p)
    obtain updvals now where p: "p = (updvals, now)" by (metis surj_pair)
    define iv where "iv = reading_interval (live_head s) now"
    obtain e1 s1 new where u: "update_pdp_prep updvals iv (s, ux_pdp_new cx) = (e1, (s1, new))" by (metis prod_cases3)
    have k1: "kept s s1"
      using kept_prep [OF wf] prep_only_update_pdp_prep [of "(s, ux_pdp_new cx)" updvals iv] by (simp add: u)
    then have wf1: "wf_rrd s1" by (simp add: kept_def)
    define el where "el = calculate_elapsed_steps s1 (u64 (fst now)) (u64 (snd now)) iv"
    define cx1 where "cx1 = cx\<lparr>ux_rrd := s1, ux_pdp_new := new\<rparr>"
    obtain e2 s2 temp where pr: "process_all_pdp_st (ue_rpn env) iv (pre_int el) (post_int el) (u64 (el_steps el)) new
        (s1, ux_pdp_temp cx) = (e2, (s2, temp))" by (metis prod_cases3)
    define mid where "mid = (if u64 (el_steps el) = 0 then (None, cx1\<lparr>ux_rrd := simple_update iv new s1\<rparr>)
      else case e2 of Some e \<Rightarrow> (Some (UpdPdp e), cx1\<lparr>ux_rrd := s2, ux_pdp_temp := temp\<rparr>)
        | None \<Rightarrow> run_cdps (u64 (el_steps el)) (proc_pdp_cnt el) (fst now) (cx1\<lparr>ux_rrd := s2, ux_pdp_temp := temp\<rparr>))"
    have k2: "kept s1 s2" using kept_prep [OF wf1] prep_only_process_all [of "(s1, ux_pdp_temp cx)"] pr by (metis fst_conv snd_conv)
    then have "wf_rrd s2" by (simp add: kept_def)
    then have kr2: "kept s2 (ux_rrd (snd (run_cdps (u64 (el_steps el)) (proc_pdp_cnt el) (fst now) (cx1\<lparr>ux_rrd := s2, ux_pdp_temp := temp\<rparr>))))"
      using kept_run_cdps [of "cx1\<lparr>ux_rrd := s2, ux_pdp_temp := temp\<rparr>"] by simp
    have "kept s1 (simple_update iv new s1)" using wf1 prep_only_simple_update by (rule kept_prep)
    then have "kept s1 (ux_rrd (snd mid))"
      using k2 kept_trans [OF k2 kr2] by (simp add: mid_def split: option.split)
    then have km: "kept s (ux_rrd (snd mid))" by (rule kept_trans [OF k1])
    have run: "process_arg env tmpl arg cx = (case e1 of Some e \<Rightarrow> (Some (UpdPdp e), cx1)
        | None \<Rightarrow> andThen mid (\<lambda>cx. (None, cx\<lparr>ux_rrd := stamp_update now (ux_rrd cx)\<rparr>)))"
      using Inr u pr
      by (auto simp: process_arg_def arg p s_def [symmetric] iv_def [symmetric] el_def [symmetric] cx1_def mid_def Let_def
          split: option.split)
    show ?thesis
    proof (cases e1)
      case (Some e)
      then show ?thesis using run assms(2) k1 by (auto simp: cx1_def kept_def s_def)
    next
      case None
      obtain em cm where mid: "mid = (em, cm)" by fastforce
      show ?thesis
      proof (cases em)
        case (Some e)
        then show ?thesis using run None mid assms(2) km by (auto simp: kept_def s_def)
      next
        case None
        then have "e = None" "cx' = cm\<lparr>ux_rrd := stamp_update now (ux_rrd cm)\<rparr>"
          using run \<open>e1 = None\<close> mid assms(2) by simp_all
        then show ?thesis using km mid wf_stamp [of "ux_rrd cm" now] Inr same_layout_trans
          by (auto simp: kept_def p arg s_def)
      qed
    qed
  qed
qed

section \<open>The whole update\<close>

definition stamp :: "rrd \<Rightarrow> int \<times> int" where
  "stamp s = (last_up (live_head s), last_up_usec (live_head s))"

definition earlier :: "int \<times> int \<Rightarrow> int \<times> int \<Rightarrow> bool" where
  "earlier a b \<longleftrightarrow> fst a < fst b \<or> (fst a = fst b \<and> snd a < snd b)"

lemma earlier_trans: "earlier a b \<Longrightarrow> earlier b c \<Longrightarrow> earlier a c"
  by (auto simp: earlier_def)

lemma process_arg_stamp:
  assumes "wf_rrd (ux_rrd cx)" and "process_arg env tmpl arg cx = (e, cx')"
  shows "if e = None then earlier (stamp (ux_rrd cx)) (stamp (ux_rrd cx')) else stamp (ux_rrd cx') = stamp (ux_rrd cx)"
  using process_arg_post [OF assms] parse_ds_later
  by (fastforce simp: stamp_def earlier_def stamp_less_def split: option.splits)

lemma process_args_post:
  assumes "wf_rrd (ux_rrd cx)" and "loopM (process_arg env tmpl) args cx = (e, cx')"
  shows "wf_rrd (ux_rrd cx') \<and> same_layout (ux_rrd cx) (ux_rrd cx') \<and>
    (stamp (ux_rrd cx') = stamp (ux_rrd cx) \<and> (e = None \<longrightarrow> args = []) \<or> earlier (stamp (ux_rrd cx)) (stamp (ux_rrd cx')))"
  using assms
proof (induction args arbitrary: cx)
  case Nil
  then show ?case by simp
next
  case (Cons a args)
  obtain e1 cx1 where a: "process_arg env tmpl a cx = (e1, cx1)" by fastforce
  have w: "wf_rrd (ux_rrd cx1)" "same_layout (ux_rrd cx) (ux_rrd cx1)"
    using process_arg_post [OF Cons.prems(1) a] by simp_all
  note st = process_arg_stamp [OF Cons.prems(1) a]
  show ?case
  proof (cases e1)
    case (Some x)
    then show ?thesis using Cons.prems(2) a w st by auto
  next
    case None
    then have "loopM (process_arg env tmpl) args cx1 = (e, cx')" using Cons.prems(2) a by simp
    moreover have "earlier (stamp (ux_rrd cx)) (stamp (ux_rrd cx1))" using st None by simp
    ultimately show ?thesis
      using Cons.IH [OF w(1)] same_layout_trans [OF w(2)] earlier_trans [of "stamp (ux_rrd cx)" "stamp (ux_rrd cx1)"] by metis
  qed
qed

lemma seasonal_deps_layout: "same_layout s t \<Longrightarrow> seasonal_deps s \<Longrightarrow> seasonal_deps t"
  by (simp add: seasonal_deps_def same_layout_def hw_dep_cf_def hw_dep_idx_def)

lemma smooth_all_kept:
  assumes "wf_rrd s" and "seasonal_deps s"
  shows "kept s (snd (smooth_all_rras 0 s))"
proof -
  have "rra_off s 0 = 0" by (simp add: rra_off_def rra_total_def)
  then obtain t where "smooth_all_rras 0 s = (None, t)" "smooth_all_frame 0 s t"
    using smooth_rras_from_post [OF assms(1) _ assms(2), of 0] by (auto simp: smooth_all_rras_def)
  then show ?thesis using wf_same_ptr [OF assms(1)] by (auto simp: smooth_all_frame_def kept_def)
qed

lemma rrd_update_post:
  assumes "wf_rrd s" and "seasonal_deps s" and "rrd_update env tmplt args s = (e, t)"
  shows "wf_rrd t \<and> same_layout s t \<and>
    (if e = None then earlier (stamp s) (stamp t) else stamp t = stamp s \<or> earlier (stamp s) (stamp t))"
proof (cases "args = [] \<or> (\<exists>x. (case tmplt of None \<Rightarrow> Inr (default_template s) | Some t \<Rightarrow> parse_template s t) = Inl x)")
  case True
  then have "t = s" "e \<noteq> None" using assms(3) by (auto simp: rrd_update_def split: sum.splits if_splits)
  then show ?thesis using assms(1) by auto
next
  case False
  then obtain idx where idx: "(case tmplt of None \<Rightarrow> Inr (default_template s) | Some t \<Rightarrow> parse_template s t) = Inr idx"
    and ne: "args \<noteq> []" by (meson sumE)
  obtain e1 cx where run: "loopM (process_arg env idx) args (upd_init s) = (e1, cx)" by fastforce
  have "ux_rrd (upd_init s) = s" by (simp add: upd_init_def)
  with process_args_post [OF _ run] assms(1) ne
  have p: "wf_rrd (ux_rrd cx)" "same_layout s (ux_rrd cx)"
    "if e1 = None then earlier (stamp s) (stamp (ux_rrd cx))
     else stamp (ux_rrd cx) = stamp s \<or> earlier (stamp s) (stamp (ux_rrd cx))" by auto
  have sm: "kept (ux_rrd cx) (snd (smooth_all_rras 0 (ux_rrd cx)))"
    using p(1) seasonal_deps_layout [OF p(2) assms(2)] by (rule smooth_all_kept)
  have "e = e1 \<and> t = (if e1 = None \<and> ux_smooth cx then snd (smooth_all_rras 0 (ux_rrd cx)) else ux_rrd cx)"
    using assms(3) idx ne run by (auto simp: rrd_update_def split: option.splits)
  with p sm same_layout_trans [OF p(2)] show ?thesis by (auto simp: kept_def stamp_def split: if_splits)
qed

text \<open>
  What an update relies on and creation does not check: some data source is not computed, and the archives of aberrant behaviour
  detection depend on archives that exist, a SEASONAL one on one of Holt-Winters forecasting.
\<close>

definition has_input :: "rrd \<Rightarrow> bool" where
  "has_input s \<longleftrightarrow> (\<exists>k < dscnt s. dst_conv (dst (ds_def s ! k)) \<noteq> Some DST_CDEF)"

definition partners_exist :: "rrd \<Rightarrow> bool" where
  "partners_exist s \<longleftrightarrow> seasonal_deps s \<and>
     (\<forall>i < rracnt s. cf_conv (cf_nam (rra_def s ! i)) \<in>
        Some ` {CF_HWPREDICT, CF_MHWPREDICT, CF_SEASONAL, CF_DEVPREDICT, CF_DEVSEASONAL, CF_FAILURES} \<longrightarrow> hw_dep_idx s i < rracnt s)"

lemma default_template_input: "has_input s \<Longrightarrow> 1 < length (default_template s)"
proof -
  assume "has_input s"
  then obtain k where "k < dscnt s" "dst_conv (dst (ds_def s ! k)) \<noteq> Some DST_CDEF" by (auto simp: has_input_def)
  moreover have "Suc k \<in> set [1 ..< dscnt s + 1]" using calculation(1) unfolding set_upt by simp
  ultimately have "Suc k \<in> set (filter (\<lambda>i. dst_conv (dst (ds_def s ! (i - 1))) \<noteq> Some DST_CDEF) [1 ..< dscnt s + 1])" by (simp del: upt_Suc)
  then have "0 < length (filter (\<lambda>i. dst_conv (dst (ds_def s ! (i - 1))) \<noteq> Some DST_CDEF) [1 ..< dscnt s + 1])"
    by (rule length_pos_if_in_set)
  then show ?thesis unfolding default_template_def by (simp del: upt_Suc)
qed

lemma template_from_length: "template_from s nams idx = Inr idx' \<Longrightarrow> length idx' = length idx + length nams"
  by (induction s nams idx rule: template_from.induct) (auto split: if_splits)

lemma template_from_error: "template_from s nams idx \<noteq> Inl UpdIndexUnset"
  by (induction s nams idx rule: template_from.induct) auto

lemma split_on_not_Nil [simp]: "split_on c xs \<noteq> []"
  by (induction xs) (auto split: list.splits)

lemma process_arg_unset: "fst (process_arg env idx arg cx) = Some UpdIndexUnset \<Longrightarrow> length idx \<le> 1"
  by (cases arg)
    (auto simp: process_arg_def parse_ds_def get_time_from_reading_def run_cdps_def andThen_def Let_def
      split: prod.splits sum.splits option.splits if_splits at_time.splits)

lemma loopM_error: "fst (loopM b is s) = Some e \<Longrightarrow> \<exists>i s'. fst (b i s') = Some e"
  by (induction "is" arbitrary: s) (auto simp: andThen_def split: prod.splits option.splits, metis fst_conv)

lemma rrd_update_unset:
  assumes "has_input s"
  shows "fst (rrd_update env tmplt args s) \<noteq> Some UpdIndexUnset"
proof
  assume u: "fst (rrd_update env tmplt args s) = Some UpdIndexUnset"
  let ?tm = "case tmplt of None \<Rightarrow> Inr (default_template s) | Some t \<Rightarrow> parse_template s t"
  show False
  proof (cases ?tm)
    case (Inl e)
    then show False using u template_from_error by (auto simp: rrd_update_def parse_template_def split: option.splits if_splits)
  next
    case (Inr idx)
    have long: "1 < length idx"
    proof (cases tmplt)
      case None
      then show ?thesis using Inr default_template_input [OF assms] by simp
    next
      case (Some str)
      then have "length idx = 1 + length (split_on CHR '':'' str)" using Inr template_from_length [of s _ "[0]" idx] by (simp add: parse_template_def)
      then show ?thesis by simp
    qed
    have "fst (loopM (process_arg env idx) args (upd_init s)) = Some UpdIndexUnset"
      using u Inr by (auto simp: rrd_update_def split: prod.splits option.splits if_splits)
    then show False using loopM_error process_arg_unset long by (metis not_le)
  qed
qed

text \<open>
  C1: an update keeps the database usable, whatever it is given. Let the archives of aberrant behaviour detection depend on archives
  that exist, and let some data source not be computed (creation checks neither). For any template, any arguments, any
  clock and any reader of at-style times, nothing is stored through an unset index, and the database that is left behind, with or
  without an error, is well-formed and has the layout it had; its time of last update never moves backwards, and after a
  successful update it has moved forward.
\<close>

theorem rrd_update_invariant:
  assumes "wf_rrd s" and "partners_exist s" and "has_input s" and "rrd_update env tmplt args s = (e, t)"
  shows "e \<noteq> Some UpdIndexUnset \<and> wf_rrd t \<and> same_layout s t \<and>
    (if e = None then earlier (stamp s) (stamp t) else stamp t = stamp s \<or> earlier (stamp s) (stamp t))"
proof -
  have "seasonal_deps s" using assms(2) by (simp add: partners_exist_def)
  then show ?thesis using rrd_update_post [OF assms(1) _ assms(4)] rrd_update_unset [OF assms(3), of env tmplt args] assms(4) by simp
qed

lemma rrd_update_kept: "wf_rrd s \<Longrightarrow> seasonal_deps s \<Longrightarrow>
    wf_rrd (snd (rrd_update env tmplt args s)) \<and> same_layout s (snd (rrd_update env tmplt args s))"
  using rrd_update_post [of s env tmplt args] by (metis prod.collapse)

definition demo_upd_env :: upd_env where
  "demo_upd_env = \<lparr>ue_rpn = demo_env, ue_at = (\<lambda>_. AtError)\<rparr>"

lemma demo_seasonal_deps: "seasonal_deps demo_rrd"
  by (auto simp: seasonal_deps_def demo_rrd_def demo_rra_def cf_conv_def less_Suc_eq numeral_2_eq_2)

lemma demo_partners: "partners_exist demo_rrd"
  using demo_seasonal_deps by (auto simp: partners_exist_def demo_rrd_def demo_rra_def cf_conv_def less_Suc_eq numeral_2_eq_2)

lemma demo_input: "has_input demo_rrd"
  by (auto simp: has_input_def demo_rrd_def dst_conv_def intro: exI [of _ 0])

theorem rrd_update_invariant_witness:
  "wf_rrd (snd (rrd_update demo_upd_env None [((1200000600, 0), ''N:7:400'')] demo_rrd))"
  using rrd_update_invariant [OF wf_demo_rrd demo_partners demo_input,
      of demo_upd_env None "[((1200000600, 0), ''N:7:400'')]"
        "fst (rrd_update demo_upd_env None [((1200000600, 0), ''N:7:400'')] demo_rrd)"
        "snd (rrd_update demo_upd_env None [((1200000600, 0), ''N:7:400'')] demo_rrd)"]
  by simp

section \<open>Reading an argument\<close>

fun join_with :: "char \<Rightarrow> string list \<Rightarrow> string" where
  "join_with c [] = []"
| "join_with c [v] = v"
| "join_with c (v # vs) = v @ c # join_with c vs"

lemma split_on_plain: "c \<notin> set v \<Longrightarrow> split_on c v = [v]"
  by (induction v) auto

lemma split_on_append: "c \<notin> set v \<Longrightarrow> split_on c (v @ c # r) = v # split_on c r"
  by (induction v) auto

lemma split_join: "vs \<noteq> [] \<Longrightarrow> \<forall>v \<in> set vs. c \<notin> set v \<Longrightarrow> split_on c (join_with c vs) = vs"
  by (induction c vs rule: join_with.induct) (simp_all add: split_on_plain split_on_append)

lemma join_chars: "set (join_with c vs) \<subseteq> insert c (\<Union> (set ` set vs))"
  by (induction c vs rule: join_with.induct) auto

lemma fold_assign_other:
  "j \<notin> set is \<Longrightarrow> fold (\<lambda>(i, v) u. u[i := v]) (zip is vs) u ! j = u ! j"
proof (induction "is" arbitrary: vs u)
  case (Cons i "is")
  then show ?case by (cases vs) simp_all
qed simp

lemma fold_assign_nth:
  assumes "distinct is" and "length vs = length is" and "k < length is" and "\<forall>i \<in> set is. i < length u"
  shows "fold (\<lambda>(i, v) u. u[i := v]) (zip is vs) u ! (is ! k) = vs ! k"
  using assms
proof (induction "is" arbitrary: vs u k)
  case (Cons i "is")
  then obtain v vs' where vs: "vs = v # vs'" by (cases vs) auto
  show ?case
  proof (cases k)
    case 0
    then show ?thesis using Cons.prems fold_assign_other [of i "is" vs' "u[i := v]"] by (simp add: vs)
  next
    case (Suc k')
    then show ?thesis using Cons.prems Cons.IH [of vs' k' "u[i := v]"] by (simp add: vs)
  qed
qed simp

lemma default_template_facts:
  "distinct (tl (default_template s))" "\<forall>i \<in> set (tl (default_template s)). 1 \<le> i \<and> i \<le> dscnt s"
  by (auto simp: default_template_def)

lemma default_template_Cons: "default_template s = 0 # tl (default_template s)"
  by (simp add: default_template_def)

lemma parse_ds_join:
  assumes "CHR '':'' \<notin> set time" and "CHR ''@'' \<notin> set time"
    and "\<forall>v \<in> set vs. CHR '':'' \<notin> set v \<and> CHR ''@'' \<notin> set v"
    and "length vs = length (tl (default_template s))" and "vs \<noteq> []"
  shows "parse_ds env clock (default_template s) (join_with CHR '':'' (time # vs)) s =
    (case get_time_from_reading env clock CHR '':'' time s of
       Inl e \<Rightarrow> Inl e
     | Inr now \<Rightarrow> Inr (fold (\<lambda>(i, v) u. u[i := v]) (zip (tl (default_template s)) vs) (time # replicate (dscnt s) ''U''), now))"
proof -
  define inp where "inp = join_with CHR '':'' (time # vs)"
  have inp: "inp = time @ CHR '':'' # join_with CHR '':'' vs" using assms(5) by (cases vs) (simp_all add: inp_def)
  have "CHR ''@'' \<notin> set (join_with CHR '':'' vs)" using join_chars [of "CHR '':''" vs] assms(3) by fastforce
  then have sep: "CHR ''@'' \<notin> set inp" "CHR '':'' \<in> set inp" using assms(2) by (simp_all add: inp)
  have tm: "takeWhile (\<lambda>x. x \<noteq> CHR '':'') inp = time"
    using assms(1) unfolding inp by (subst takeWhile_append2) auto
  have vals: "split_on CHR '':'' (drop (length time + 1) inp) = vs"
    using split_join [OF assms(5)] assms(3) by (simp add: inp)
  have lt: "length (default_template s) = length vs + 1"
    using assms(4) by (subst default_template_Cons) simp
  have "0 < length vs" using assms(5) by simp
  note lt = lt this
  have "parse_ds env clock (default_template s) inp s = 
    (case get_time_from_reading env clock CHR '':'' time s of
       Inl e \<Rightarrow> Inl e
     | Inr now \<Rightarrow> Inr (fold (\<lambda>(i, v) u. u[i := v]) (zip (tl (default_template s)) vs) (time # replicate (dscnt s) ''U''), now))"
    using sep tm vals lt by (simp add: parse_ds_def Let_def split_beta split: sum.split)
  then show ?thesis by (simp add: inp_def)
qed

text \<open>
  C36: an argument \<open>time:v1:...:vn\<close> is taken apart as it was put together. With no template and as many
  readings as there are data sources that are not computed, every such data source gets its own reading, in
  order, and every computed one the unknown reading; the first field is the time.
\<close>

theorem parse_ds_fields:
  assumes "CHR '':'' \<notin> set time" and "CHR ''@'' \<notin> set time"
    and "\<forall>v \<in> set vs. CHR '':'' \<notin> set v \<and> CHR ''@'' \<notin> set v"
    and "length vs = length (tl (default_template s))" and "vs \<noteq> []"
    and "get_time_from_reading env clock CHR '':'' time s = Inr now"
  shows "\<exists>updvals. parse_ds env clock (default_template s) (join_with CHR '':'' (time # vs)) s = Inr (updvals, now) \<and>
    length updvals = dscnt s + 1 \<and> updvals ! 0 = time \<and>
    (\<forall>k < length vs. updvals ! (tl (default_template s) ! k) = vs ! k) \<and>
    (\<forall>i < dscnt s. dst_conv (dst (ds_def s ! i)) = Some DST_CDEF \<longrightarrow> updvals ! (i + 1) = ''U'')"
proof -
  define is' where "is' = tl (default_template s)"
  define u0 where "u0 = time # replicate (dscnt s) ''U''"
  define u where "u = fold (\<lambda>(i, v) u. u[i := v]) (zip is' vs) u0"
  have run: "parse_ds env clock (default_template s) (join_with CHR '':'' (time # vs)) s = Inr (u, now)"
    using parse_ds_join [OF assms(1-5)] assms(6) by (simp add: u_def u0_def is'_def)
  note dt = default_template_facts [of s, folded is'_def]
  have "length (fold (\<lambda>(i, v) u. u[i := v]) xs y) = length y" for xs :: "(nat \<times> string) list" and y
    by (induction xs arbitrary: y) auto
  then have len: "length u = dscnt s + 1" by (simp add: u_def u0_def)
  have "0 \<notin> set is'" using dt(2) by force
  then have z: "u ! 0 = time" unfolding u_def by (subst fold_assign_other) (simp_all add: u0_def)
  have asg: "\<forall>k < length vs. u ! (is' ! k) = vs ! k"
    unfolding u_def using assms(4) dt by (intro allI impI fold_assign_nth) (auto simp: is'_def u0_def less_Suc_eq_le)
  have "u ! (i + 1) = ''U''" if "i < dscnt s" "dst_conv (dst (ds_def s ! i)) = Some DST_CDEF" for i
  proof -
    have "i + 1 \<notin> set is'" using that by (auto simp: is'_def default_template_def simp del: upt_Suc)
    then show ?thesis unfolding u_def using that(1) by (subst fold_assign_other) (simp_all add: u0_def)
  qed
  with run len z asg show ?thesis by (auto simp: is'_def)
qed

lemma get_time_digits:
  assumes "list_all is_digit str" and "str \<noteq> []" and "dec_val str \<le> 2 ^ 53"
  shows "get_time_from_reading env clock CHR '':'' str s =
    (if dec_val str < last_up (live_head s) \<or> (dec_val str = last_up (live_head s) \<and> 0 \<le> last_up_usec (live_head s))
     then Inl UpdTooOld else Inr (dec_val str, 0))"
proof -
  define n where "n = nat (dec_val str)"
  have n: "dec_val str = int n" "n \<le> 2 ^ 53" using assms(3) dec_val_nonneg [OF assms(1)] by (simp_all add: n_def nat_le_iff)
  have N: "str \<noteq> ''N''" using assms(1) by (auto simp: is_digit_def)
  have "strtod str = ((Fin (of_nat n), False), [])"
    using strtod_small_digits [OF assms(1,2) n(1)] n(2) by simp
  moreover have "d_to_long (Fin (of_nat n)) = int n" using n(2) by (simp add: d_to_long_def rtrunc_def)
  moreover have "(Fin (of_nat n) - Fin (of_nat n)) * Fin 1000000 = Fin 0" by (simp add: times_dbl_def)
  ultimately have "seconds_of_reading clock (fst (fst (strtod str))) = (int n, 0)"
    using n(2) by (simp add: seconds_of_reading_def zero_dbl_def Let_def d_nat d_to_long_def rtrunc_def
        del: fin_minus dfloor.simps)
  then show ?thesis using N \<open>strtod str = _\<close> by (simp add: get_time_from_reading_def n(1) Let_def)
qed

text \<open>
  A reading that is not newer than the last update is refused and changes nothing: for a time of plain
  digits not after the last update, the whole update returns the error and the database it was given.
\<close>

theorem rrd_update_too_old:
  assumes "list_all is_digit time" and "time \<noteq> []" and "dec_val time \<le> last_up (live_head s)"
    and "0 \<le> last_up_usec (live_head s)" and "last_up (live_head s) \<le> 2 ^ 53"
    and "\<forall>v \<in> set vs. CHR '':'' \<notin> set v \<and> CHR ''@'' \<notin> set v"
    and "length vs = length (tl (default_template s))" and "vs \<noteq> []"
  shows "rrd_update env None ((clock, join_with CHR '':'' (time # vs)) # args) s = (Some UpdTooOld, s)"
proof -
  have nc: "CHR '':'' \<notin> set time" "CHR ''@'' \<notin> set time"
    using assms(1) by (auto simp: list_all_iff is_digit_def)
  have "get_time_from_reading env clock CHR '':'' time s = Inl UpdTooOld"
    using get_time_digits [OF assms(1,2), of env clock s] assms(3-5) by auto
  then have "process_arg env (default_template s) (clock, join_with CHR '':'' (time # vs)) (upd_init s) = (Some UpdTooOld, upd_init s)"
    using parse_ds_join [OF nc assms(6-8)] by (simp add: process_arg_def upd_init_def)
  then show ?thesis by (simp add: rrd_update_def upd_init_def)
qed

theorem parse_ds_fields_witness:
  "\<exists>updvals. parse_ds demo_upd_env (0, 0) (default_template demo_rrd) (join_with CHR '':'' [''1200000300'', ''7'', ''400'']) demo_rrd
      = Inr (updvals, (1200000300, 0)) \<and> updvals ! 2 = ''400''"
proof -
  have t: "tl (default_template demo_rrd) = [1, 2]" by code_simp
  have g: "get_time_from_reading demo_upd_env (0, 0) CHR '':'' ''1200000300'' demo_rrd = Inr (1200000300, 0)"
    using get_time_digits [of "''1200000300''" demo_upd_env "(0, 0)" demo_rrd]
    by (simp add: is_digit_def dec_val_def digit_val_def demo_rrd_def)
  show ?thesis
    using parse_ds_fields [of "''1200000300''" "[''7'', ''400'']" demo_rrd, OF _ _ _ _ _ g] by (auto simp: t)
qed

theorem rrd_update_too_old_witness:
  "rrd_update demo_upd_env None [((0, 0), join_with CHR '':'' [''1200000000'', ''7'', ''400''])] demo_rrd
     = (Some UpdTooOld, demo_rrd)"
proof -
  have t: "tl (default_template demo_rrd) = [1, 2]" by code_simp
  have l: "live_head demo_rrd = \<lparr>last_up = 1200000000, last_up_usec = 0\<rparr>" by (simp add: demo_rrd_def)
  show ?thesis
    by (rule rrd_update_too_old) (simp_all add: t l is_digit_def dec_val_def digit_val_def del: length_tl)
qed

end
