(* ===== verification/Fetch.thy ===== *)
theory Fetch
  imports Rra_Store
begin

text \<open>
  Reading a range of rows (\<open>rrd_fetch.c\<close>): the checks on the wanted window, the choice of the archive that
  fits it best, and the loop that copies the rows, with unknown rows outside the archive.
\<close>

datatype fetch_error = FetchBefore1980 | FetchStartAfterEnd | FetchStepTooSmall | FetchUnknownCF | FetchNoRRA
  | FetchSeek | FetchWrapSeek | FetchRead

section \<open>The wanted window\<close>

definition rrd_fetch_window :: "int \<Rightarrow> int \<Rightarrow> int \<Rightarrow> fetch_error option" where
  "rrd_fetch_window start_tmp end_tmp step_tmp =
     (if start_tmp < 3600 * 24 * 365 * 10 then Some FetchBefore1980
      else if end_tmp < start_tmp then Some FetchStartAfterEnd
      else if step_tmp < 1 then Some FetchStepTooSmall else None)"

section \<open>Choosing an archive\<close>

text \<open>The seconds of a row. Products of \<open>unsigned long\<close> wrap.\<close>

definition rra_step :: "rrd \<Rightarrow> nat \<Rightarrow> nat" where
  "rra_step s i = u64 (int (pdpstep s * pdp_cnt (rra_def s ! i)))"

definition cal_end :: "rrd \<Rightarrow> nat \<Rightarrow> int" where
  "cal_end s i = (let l = last_up (live_head s) in s64 (l - int (u64 l mod rra_step s i)))"

definition cal_start :: "rrd \<Rightarrow> nat \<Rightarrow> int" where
  "cal_start s i = s64 (cal_end s i - int (u64 (int (pdp_cnt (rra_def s ! i) * row_cnt (rra_def s ! i) * pdpstep s))))"

definition step_diff :: "rrd \<Rightarrow> nat \<Rightarrow> nat \<Rightarrow> int" where
  "step_diff s step i = \<bar>s64 (int step - int (rra_step s i))\<bar>"

text \<open>The best candidates so far, \<open>None\<close> while \<open>first_full\<close> or \<open>first_part\<close> is still set.\<close>

record fetch_best =
  best_full :: "(nat \<times> int) option"
  best_part :: "(nat \<times> int \<times> int) option"

definition consider_rra :: "rrd \<Rightarrow> cf_en \<Rightarrow> int \<Rightarrow> int \<Rightarrow> nat \<Rightarrow> nat \<Rightarrow> fetch_best \<Rightarrow> fetch_best" where
  "consider_rra s cf start end' step i b =
     (if cf_conv (cf_nam (rra_def s ! i)) \<noteq> Some cf then b
      else
        let diff = step_diff s step i in
        if cal_start s i \<le> start
        then (case best_full b of
                Some (_, d) \<Rightarrow> if diff < d then b\<lparr>best_full := Some (i, diff)\<rparr> else b
              | None \<Rightarrow> b\<lparr>best_full := Some (i, diff)\<rparr>)
        else
          let m = end' - start - (cal_start s i - start)
          in case best_part b of
               Some (_, bm, d) \<Rightarrow> if bm < m \<or> (bm = m \<and> diff < d) then b\<lparr>best_part := Some (i, m, diff)\<rparr> else b
             | None \<Rightarrow> b\<lparr>best_part := Some (i, m, diff)\<rparr>)"

definition choose_rra :: "rrd \<Rightarrow> cf_en \<Rightarrow> int \<Rightarrow> int \<Rightarrow> nat \<Rightarrow> nat option" where
  "choose_rra s cf start end' step =
     (let b = fold (consider_rra s cf start end' step) [0 ..< rracnt s] \<lparr>best_full = None, best_part = None\<rparr>
      in case best_full b of
           Some (i, _) \<Rightarrow> Some i
         | None \<Rightarrow> map_option fst (best_part b))"

section \<open>Copying the rows\<close>

text \<open>One round of the loop at row \<open>i\<close>: the pointer, the file and the row that is delivered.\<close>

definition fetch_row :: "nat \<Rightarrow> nat \<Rightarrow> int \<Rightarrow> int \<times> rrd \<Rightarrow> fetch_error + (dbl list \<times> int \<times> rrd)" where
  "fetch_row base rows i ps =
     (case ps of (rra_pointer, s) \<Rightarrow>
      if i < 0 \<or> i \<ge> s32 (int rows) then Inr (replicate (dscnt s) NaN, rra_pointer, s)
      else
       (case (if rra_pointer \<ge> s32 (int rows)
              then (let p = rra_pointer - int rows
                    in case rrd_seek (int base + p * int (dscnt s)) SEEK_SET s of (e, s) \<Rightarrow> (e, p, s))
              else (None, rra_pointer, s)) of
          (Some _, _, _) \<Rightarrow> Inl FetchWrapSeek
        | (None, p, s) \<Rightarrow>
            (case rrd_read (dscnt s) s of (vs, s) \<Rightarrow>
               if length vs \<noteq> dscnt s then Inl FetchRead else Inr (vs, p + 1, s))))"

fun fetch_rows :: "nat \<Rightarrow> nat \<Rightarrow> nat \<Rightarrow> int \<Rightarrow> int \<times> rrd \<Rightarrow> fetch_error + (dbl list list \<times> rrd)" where
  "fetch_rows base rows 0 i ps = Inr ([], snd ps)"
| "fetch_rows base rows (Suc n) i ps =
     (case fetch_row base rows i ps of
        Inl e \<Rightarrow> Inl e
      | Inr (vs, ps) \<Rightarrow>
          (case fetch_rows base rows n (i + 1) ps of
             Inl e \<Rightarrow> Inl e
           | Inr (d, s) \<Rightarrow> Inr (vs # d, s)))"

record fetched =
  ft_start :: int
  ft_end :: int
  ft_step :: nat
  ft_alloc_rows :: nat
  ft_ds_namv :: "string list"
  ft_data :: "dbl list list"

text \<open>
  What the fetch computes from the window and the archive: the rounded window, the number of rows allocated, the
  times of the oldest and newest rows of the archive, and the two offsets of the window against the archive.
\<close>

record fetch_geo =
  geo_start :: int
  geo_end :: int
  geo_alloc :: nat
  geo_rra_start :: int
  geo_rra_end :: int
  geo_start_offset :: int
  geo_end_offset :: int

definition fetch_geometry :: "rrd \<Rightarrow> nat \<Rightarrow> int \<Rightarrow> int \<Rightarrow> fetch_geo" where
  "fetch_geometry s ri start end' =
     (let step = rra_step s ri;
          start = s64 (start - int (u64 start mod step));
          end' = s64 (end' + int step - int (u64 end' mod step));
          l = last_up (live_head s);
          rra_end_time = s64 (l - int (u64 l mod step));
          rra_start_time = s64 (rra_end_time - int (u64 (int step * (int (row_cnt (rra_def s ! ri)) - 1))))
      in \<lparr>geo_start = start, geo_end = end',
          geo_alloc = u64 (int (u64 (end' - start) div step) + 1),
          geo_rra_start = rra_start_time, geo_rra_end = rra_end_time,
          geo_start_offset = cdiv (s64 (start + int step - rra_start_time)) (int step),
          geo_end_offset = cdiv (rra_end_time - end') (int step)\<rparr>)"

text \<open>The pointer and the first seek; both stay away when window and archive do not meet.\<close>

definition fetch_position :: "rrd \<Rightarrow> nat \<Rightarrow> nat \<Rightarrow> fetch_geo \<Rightarrow> store_error option \<times> int \<times> rrd" where
  "fetch_position s ri base g =
     (let rows = s32 (int (row_cnt (rra_def s ! ri))); cur = int (rra_ptr s ! ri) + 1 in
      if geo_start g \<le> geo_rra_end g \<and> geo_end g \<ge> geo_rra_start g - int (rra_step s ri)
      then let p = (if geo_start_offset g \<le> 0 then cur else cur + geo_start_offset g);
               p = p - cdiv p rows * rows
           in case rrd_seek (int base + p * int (dscnt s)) SEEK_SET s of (e, s) \<Rightarrow> (e, p, s)
      else (None, 0, s))"

text \<open>\<open>rrd_fetch_fn\<close> on an opened database.\<close>

definition rrd_fetch_fn :: "cf_en \<Rightarrow> int \<Rightarrow> int \<Rightarrow> nat \<Rightarrow> rrd \<Rightarrow> fetch_error + fetched" where
  "rrd_fetch_fn cf start end' step s =
     (case choose_rra s cf start end' step of
        None \<Rightarrow> Inl FetchNoRRA
      | Some ri \<Rightarrow>
          let g = fetch_geometry s ri start end';
              rows = row_cnt (rra_def s ! ri);
              base = sum_list (map (\<lambda>i. dscnt s * row_cnt (rra_def s ! i)) [0 ..< ri]);
              n = nat (s32 (int rows) - geo_end_offset g - geo_start_offset g)
          in case fetch_position s ri base g of
               (Some _, _) \<Rightarrow> Inl FetchSeek
             | (None, ps) \<Rightarrow>
                 (case fetch_rows base rows n (geo_start_offset g) ps of
                    Inl e \<Rightarrow> Inl e
                  | Inr (d, _) \<Rightarrow>
                      Inr \<lparr>ft_start = geo_start g, ft_end = geo_end g, ft_step = rra_step s ri,
                           ft_alloc_rows = geo_alloc g,
                           ft_ds_namv = map (\<lambda>i. take 19 (ds_nam (ds_def s ! i))) [0 ..< dscnt s], ft_data = d\<rparr>))"

definition rrd_fetch_r :: "string \<Rightarrow> int \<Rightarrow> int \<Rightarrow> nat \<Rightarrow> rrd \<Rightarrow> fetch_error + fetched" where
  "rrd_fetch_r cf start end' step s =
     (case cf_conv cf of None \<Rightarrow> Inl FetchUnknownCF | Some cf_idx \<Rightarrow> rrd_fetch_fn cf_idx start end' step s)"

section \<open>The rows that are delivered\<close>

text \<open>
  The specification of a fetch: the row of archive \<open>ri\<close> for the interval that ends at time \<open>t\<close> is the entry of
  the chronological log whose own time is \<open>t\<close>, and an unknown row when the archive does not reach there.
\<close>

definition log_end :: "rrd \<Rightarrow> nat \<Rightarrow> int" where
  "log_end s ri = last_up (live_head s) - last_up (live_head s) mod int (rra_step s ri)"

definition log_index :: "rrd \<Rightarrow> nat \<Rightarrow> int \<Rightarrow> int" where
  "log_index s ri t = int (row_cnt (rra_def s ! ri)) - 1 - (log_end s ri - t) div int (rra_step s ri)"

definition row_at :: "rrd \<Rightarrow> nat \<Rightarrow> int \<Rightarrow> dbl list" where
  "row_at s ri i =
     (if 0 \<le> i \<and> i < int (row_cnt (rra_def s ! ri)) then rra_log s ri ! nat i else replicate (dscnt s) NaN)"

definition rra_row_at :: "rrd \<Rightarrow> nat \<Rightarrow> int \<Rightarrow> dbl list" where
  "rra_row_at s ri t = row_at s ri (log_index s ri t)"

text \<open>The numbers of a request that stays in the range of the C types.\<close>

definition fetch_in_range :: "rrd \<Rightarrow> nat \<Rightarrow> int \<Rightarrow> int \<Rightarrow> bool" where
  "fetch_in_range s ri start end' \<longleftrightarrow>
     0 \<le> start \<and> start \<le> end' \<and> end' < 2 ^ 60 \<and> 0 \<le> last_up (live_head s) \<and> last_up (live_head s) < 2 ^ 60 \<and>
     row_cnt (rra_def s ! ri) < 2 ^ 31 \<and>
     pdpstep s * pdp_cnt (rra_def s ! ri) * row_cnt (rra_def s ! ri) < 2 ^ 60"

lemma rra_off_sum:
  assumes "ri \<le> length (rra_def s)"
  shows "sum_list (map (\<lambda>i. dscnt s * row_cnt (rra_def s ! i)) [0 ..< ri]) = rra_off s ri"
  using assms
proof (induction ri)
  case 0
  then show ?case by (simp add: rra_off_def rra_total_def)
next
  case (Suc ri)
  then show ?case by (simp add: rra_off_Suc mult.commute)
qed

lemma rra_pos [simp]:
  "rra_off (s\<lparr>pos := q\<rparr>) ri = rra_off s ri" "rra_rows (s\<lparr>pos := q\<rparr>) ri = rra_rows s ri"
  "rra_log (s\<lparr>pos := q\<rparr>) ri = rra_log s ri" "row_at (s\<lparr>pos := q\<rparr>) ri i = row_at s ri i"
proof -
  have "rra_off (s\<lparr>pos := q\<rparr>) ri = rra_off s ri" for ri by (simp add: rra_off_def)
  moreover from this have "rra_cell (s\<lparr>pos := q\<rparr>) ri = rra_cell s ri" by (simp add: rra_cell_def fun_eq_iff)
  ultimately show "rra_off (s\<lparr>pos := q\<rparr>) ri = rra_off s ri" "rra_rows (s\<lparr>pos := q\<rparr>) ri = rra_rows s ri"
    "rra_log (s\<lparr>pos := q\<rparr>) ri = rra_log s ri" "row_at (s\<lparr>pos := q\<rparr>) ri i = row_at s ri i"
    by (simp_all add: rra_rows_def rra_log_def row_at_def)
qed

lemma rrd_read_row:
  assumes wf: "wf_rrd s" and ri: "ri < rracnt s" and p: "p < row_cnt (rra_def s ! ri)"
    and pos: "pos s = rra_off s ri + p * dscnt s"
  shows "rrd_read (dscnt s) s = (rra_rows s ri ! p, s\<lparr>pos := rra_off s ri + Suc p * dscnt s\<rparr>)"
proof -
  have "Suc p * dscnt s \<le> row_cnt (rra_def s ! ri) * dscnt s" using p by (intro mult_le_mono1) simp
  then have le: "pos s + dscnt s \<le> length (rrd_value s)" using rra_off_end [OF wf ri] pos by simp
  have "rra_rows s ri ! p = take (dscnt s) (drop (pos s) (rrd_value s))"
    by (rule nth_equalityI) (use le p pos in \<open>auto simp: rra_rows_def rra_cell_def\<close>)
  moreover have "rrd_read (dscnt s) s = (take (dscnt s) (drop (pos s) (rrd_value s)), s\<lparr>pos := pos s + dscnt s\<rparr>)"
    using le by (cases "dscnt s = 0") (simp_all add: rrd_read_def Let_def)
  moreover have "pos s + dscnt s = rra_off s ri + Suc p * dscnt s" using pos by simp
  ultimately show ?thesis by simp
qed

text \<open>
  The state of the loop at row \<open>i\<close>: the pointer is the ring position of the next row to deliver and the file
  stands there, except that a pointer just behind the last row has not been wrapped yet.
\<close>

definition fetch_inv :: "rrd \<Rightarrow> nat \<Rightarrow> int \<Rightarrow> int \<times> rrd \<Rightarrow> bool" where
  "fetch_inv s ri i ps \<longleftrightarrow>
     (\<exists>p q. ps = (int p, s\<lparr>pos := q\<rparr>) \<and>
        (i < int (row_cnt (rra_def s ! ri)) \<longrightarrow>
           p \<le> row_cnt (rra_def s ! ri) \<and> q = rra_off s ri + p * dscnt s \<and>
           p mod row_cnt (rra_def s ! ri) = (Suc (rra_ptr s ! ri) + nat i) mod row_cnt (rra_def s ! ri)))"

lemma fetch_row_ok:
  assumes wf: "wf_rrd s" and ri: "ri < rracnt s" and small: "row_cnt (rra_def s ! ri) < 2 ^ 31"
    and inv: "fetch_inv s ri i ps"
  shows "\<exists>ps'. fetch_row (rra_off s ri) (row_cnt (rra_def s ! ri)) i ps = Inr (row_at s ri i, ps') \<and>
           fetch_inv s ri (i + 1) ps'"
proof -
  define n where "n = row_cnt (rra_def s ! ri)"
  have n0: "0 < n" using wf_rrdD(8) [OF wf ri] by (simp add: n_def)
  from inv obtain p q where ps: "ps = (int p, s\<lparr>pos := q\<rparr>)"
    and c: "i < int n \<Longrightarrow> p \<le> n \<and> q = rra_off s ri + p * dscnt s \<and> p mod n = (Suc (rra_ptr s ! ri) + nat i) mod n"
    unfolding fetch_inv_def n_def by blast
  have s32: "s32 (int n) = int n" using small by (simp add: n_def)
  show ?thesis
  proof (cases "i < 0 \<or> int n \<le> i")
    case True
    then have "fetch_row (rra_off s ri) n i ps = Inr (row_at s ri i, ps)"
      using s32 by (auto simp: fetch_row_def ps row_at_def n_def)
    moreover have "fetch_inv s ri (i + 1) ps"
      using True c ps by (auto simp: fetch_inv_def simp flip: n_def)
    ultimately show ?thesis by (auto simp: n_def)
  next
    case False
    then have i: "0 \<le> i" "i < int n" by auto
    define p' where "p' = p mod n"
    from c [OF i(2)] have p: "p \<le> n" and q: "q = rra_off s ri + p * dscnt s"
      and pm: "p' = (Suc (rra_ptr s ! ri) + nat i) mod n" by (auto simp: p'_def)
    have p'n: "p' < n" using n0 by (simp add: p'_def)
    define t where "t = s\<lparr>pos := rra_off s ri + p' * dscnt s\<rparr>"
    have "rra_log s ri ! nat i = rra_rows s ri ! p'"
      unfolding rra_log_def using i by (subst nth_rotate) (simp_all add: pm n_def)
    moreover have wft: "wf_rrd t" using wf by (simp add: t_def wf_rrd_def)
    from rrd_read_row [OF wft, of ri p'] ri p'n
    have read: "rrd_read (dscnt s) t = (rra_rows s ri ! p', s\<lparr>pos := rra_off s ri + Suc p' * dscnt s\<rparr>)"
      by (simp add: t_def n_def)
    have seek: "(if int p \<ge> s32 (int n)
        then (let p = int p - int n
              in case rrd_seek (int (rra_off s ri) + p * int (dscnt (s\<lparr>pos := q\<rparr>))) SEEK_SET (s\<lparr>pos := q\<rparr>) of (e, s) \<Rightarrow> (e, p, s))
        else (None, int p, s\<lparr>pos := q\<rparr>)) = (None, int p', t)"
      using p q n0 by (auto simp: s32 p'_def t_def rrd_seek_def Let_def)
    have len: "length (rra_rows s ri ! p') = dscnt s" using p'n by (simp add: rra_rows_def n_def)
    have "fetch_row (rra_off s ri) n i ps
        = Inr (rra_rows s ri ! p', int p' + 1, s\<lparr>pos := rra_off s ri + Suc p' * dscnt s\<rparr>)"
      using i seek read len by (simp add: fetch_row_def ps s32 t_def)
    moreover have "row_at s ri i = rra_rows s ri ! p'" using i calculation(1) by (simp add: row_at_def n_def)
    moreover have "fetch_inv s ri (i + 1) (int p' + 1, s\<lparr>pos := rra_off s ri + Suc p' * dscnt s\<rparr>)"
      unfolding fetch_inv_def
      by (rule exI [of _ "Suc p'"], rule exI [of _ "rra_off s ri + Suc p' * dscnt s"])
         (use i n0 in \<open>simp add: nat_add_distrib mod_Suc_eq pm Suc_le_eq flip: n_def\<close>)
    ultimately show ?thesis unfolding n_def by metis
  qed
qed

lemma fetch_rows_ok:
  assumes "wf_rrd s" and "ri < rracnt s" and "row_cnt (rra_def s ! ri) < 2 ^ 31" and "fetch_inv s ri i ps"
  shows "\<exists>t. fetch_rows (rra_off s ri) (row_cnt (rra_def s ! ri)) n i ps
            = Inr (map (\<lambda>k. row_at s ri (i + int k)) [0 ..< n], t)"
  using assms(4)
proof (induction n arbitrary: i ps)
  case 0
  then show ?case by simp
next
  case (Suc n)
  from fetch_row_ok [OF assms(1-3) Suc.prems] obtain ps' where
    r: "fetch_row (rra_off s ri) (row_cnt (rra_def s ! ri)) i ps = Inr (row_at s ri i, ps')"
    and inv: "fetch_inv s ri (i + 1) ps'" by blast
  from Suc.IH [OF inv] obtain t where
    "fetch_rows (rra_off s ri) (row_cnt (rra_def s ! ri)) n (i + 1) ps'
       = Inr (map (\<lambda>k. row_at s ri (i + 1 + int k)) [0 ..< n], t)" by blast
  moreover have "map (\<lambda>k. row_at s ri (i + int k)) [0 ..< Suc n]
      = row_at s ri i # map (\<lambda>k. row_at s ri (i + 1 + int k)) [0 ..< n]"
    by (rule nth_equalityI) (auto simp: nth_Cons algebra_simps simp del: upt_Suc split: nat.splits)
  ultimately show ?case by (cases ps') (simp add: r del: upt_Suc)
qed


text \<open>The rounding of the window to the rows of the archive.\<close>

definition fetch_start :: "rrd \<Rightarrow> nat \<Rightarrow> int \<Rightarrow> int" where
  "fetch_start s ri start = start - start mod int (rra_step s ri)"

definition fetch_end :: "rrd \<Rightarrow> nat \<Rightarrow> int \<Rightarrow> int" where
  "fetch_end s ri end' = end' - end' mod int (rra_step s ri) + int (rra_step s ri)"

lemma rra_step_id:
  assumes "fetch_in_range s ri start end'" and "0 < row_cnt (rra_def s ! ri)"
  shows "rra_step s ri = pdpstep s * pdp_cnt (rra_def s ! ri)"
    "int (rra_step s ri) * int (row_cnt (rra_def s ! ri)) < 2 ^ 60" "rra_step s ri < 2 ^ 60"
proof -
  let ?x = "pdpstep s * pdp_cnt (rra_def s ! ri)" and ?n = "row_cnt (rra_def s ! ri)"
  have b: "?x * ?n < 2 ^ 60" using assms(1) by (simp add: fetch_in_range_def)
  have "?x * 1 \<le> ?x * ?n" using assms(2) by (intro mult_le_mono2) simp
  with b have x: "?x < 2 ^ 60" by linarith
  then show st: "rra_step s ri = ?x" unfolding rra_step_def by (intro u64_of_nat) simp
  show "rra_step s ri < 2 ^ 60" unfolding st by (rule x)
  have "int (?x * ?n) < int (2 ^ 60)" using b by (simp only: of_nat_less_iff)
  then show "int (rra_step s ri) * int ?n < 2 ^ 60" unfolding st by simp
qed

lemma div_mult_le_pos: "0 < b \<Longrightarrow> (a::int) div b * b \<le> a"
  by (metis diff_ge_0_iff_ge minus_div_mult_eq_mod pos_mod_sign)

lemma fetch_rows_before:
  assumes "i + int n \<le> 0"
  shows "fetch_rows (rra_off s ri) r n i (p, s) = Inr (map (\<lambda>k. row_at s ri (i + int k)) [0 ..< n], s)"
  using assms
proof (induction n arbitrary: i)
  case 0
  then show ?case by simp
next
  case (Suc n)
  have "map (\<lambda>k. row_at s ri (i + int k)) [0 ..< Suc n]
      = row_at s ri i # map (\<lambda>k. row_at s ri (i + 1 + int k)) [0 ..< n]"
    by (rule nth_equalityI) (auto simp: nth_Cons algebra_simps simp del: upt_Suc split: nat.splits)
  with Suc show ?case by (simp add: fetch_row_def row_at_def del: upt_Suc)
qed

lemma cmod_pos: "0 < (b::int) \<Longrightarrow> 0 \<le> a \<Longrightarrow> a - cdiv a b * b = a mod b"
  by (simp add: minus_div_mult_eq_mod)

lemma mod_eq_mult: "0 < b \<Longrightarrow> (a::int) - a mod b = a div b * b"
  by (simp add: minus_mod_eq_div_mult)

lemma int_u64_mod: "0 \<le> i \<Longrightarrow> i < 2 ^ 60 \<Longrightarrow> int (u64 i mod k) = i mod int k"
  by (simp add: zmod_int)

text \<open>Everything in units of the step: the geometry is determined by three quotients.\<close>

lemma fetch_geometry_eq:
  assumes rng: "fetch_in_range s ri start end'" and n0: "0 < row_cnt (rra_def s ! ri)" and st0: "0 < rra_step s ri"
  defines "st \<equiv> int (rra_step s ri)" and "n \<equiv> row_cnt (rra_def s ! ri)"
  defines "a \<equiv> start div st" and "b \<equiv> end' div st + 1" and "e \<equiv> last_up (live_head s) div st"
  shows "fetch_geometry s ri start end' =
     \<lparr>geo_start = a * st, geo_end = b * st, geo_alloc = nat (b - a) + 1, geo_rra_start = (e - int n + 1) * st,
      geo_rra_end = e * st, geo_start_offset = a - e + int n, geo_end_offset = e - b\<rparr>"
proof -
  have st0: "0 < st" using st0 by (simp add: st_def)
  have r: "0 \<le> start" "start \<le> end'" "end' < 2 ^ 60" "0 \<le> last_up (live_head s)" "last_up (live_head s) < 2 ^ 60"
    using rng by (simp_all add: fetch_in_range_def)
  have stn: "st * int n < 2 ^ 60" and st60: "st < 2 ^ 60"
    using rra_step_id(2,3) [OF rng n0] of_nat_less_iff [of "rra_step s ri" "2 ^ 60", where 'a = int]
    by (simp_all add: st_def n_def)
  have stn': "0 \<le> st * (int n - 1)" "st * (int n - 1) < 2 ^ 60"
    using stn st0 n0 by (simp_all add: right_diff_distrib n_def)
  have eqs: "start - start mod st = a * st" "end' + st - end' mod st = b * st"
    "last_up (live_head s) - last_up (live_head s) mod st = e * st"
    using mod_eq_mult [OF st0] by (simp_all add: a_def b_def e_def algebra_simps)
  have bounds: "0 \<le> a * st" "a * st \<le> start" "st \<le> b * st" "b * st \<le> end' + st"
    "0 \<le> e * st" "e * st \<le> last_up (live_head s)"
    using r st0 by (simp_all add: a_def b_def e_def pos_imp_zdiv_nonneg_iff div_mult_le_pos distrib_right)
  have ab: "a < b" using r(2) st0 by (simp add: a_def b_def zdiv_mono1 less_add_one le_less_trans)
  have prods: "(e - int n + 1) * st = e * st - st * (int n - 1)" "(a - e + int n) * st = a * st - e * st + st * int n"
    "(e - b) * st = e * st - b * st" "(b - a) * st = b * st - a * st"
    by (simp_all add: algebra_simps)
  note u = int_u64_mod [where k = "rra_step s ri", folded st_def]
  have A: "s64 (start - int (u64 start mod rra_step s ri)) = a * st"
    using r bounds eqs(1) u [of start] by (simp del: u64_id)
  have B: "s64 (end' + st - int (u64 end' mod rra_step s ri)) = b * st"
  proof -
    have "end' + st - int (u64 end' mod rra_step s ri) = b * st" using u [of end'] r eqs(2) by (simp del: u64_id)
    moreover have "- (2 ^ 63) \<le> b * st" "b * st < 2 ^ 63"
      using order_trans [OF less_imp_le [OF st0] bounds(3)] bounds(4) st60 r by simp_all
    ultimately show ?thesis by (simp only: s64_id)
  qed
  have C: "s64 (last_up (live_head s) - int (u64 (last_up (live_head s)) mod rra_step s ri)) = e * st"
    using r bounds eqs(3) u [of "last_up (live_head s)"] by (simp del: u64_id)
  have D: "s64 (e * st - int (u64 (st * (int n - 1)))) = (e - int n + 1) * st"
    using stn' bounds r by (simp add: prods)
  have "s64 (a * st + st - (e - int n + 1) * st) = (a - e + int n) * st"
  proof -
    have "a * st + st - (e - int n + 1) * st = (a - e + int n) * st" by (simp add: algebra_simps)
    moreover have "- (2 ^ 63) \<le> (a - e + int n) * st" "(a - e + int n) * st < 2 ^ 63"
      using bounds r stn mult_nonneg_nonneg [OF less_imp_le [OF st0] of_nat_0_le_iff [of n]] unfolding prods(2) by simp_all
    ultimately show ?thesis by (simp only: s64_id)
  qed
  then have E: "cdiv (s64 (a * st + st - (e - int n + 1) * st)) st = a - e + int n"
    using cdiv_exact [OF st0] by simp
  have F: "cdiv (e * st - b * st) st = e - b" using cdiv_exact [OF st0, of "e - b"] by (simp add: prods)
  have "int (u64 (b * st - a * st)) = (b - a) * st"
    using bounds st60 r st0 ab by (simp add: prods less_imp_le mult_right_mono)
  then have "int (u64 (b * st - a * st) div rra_step s ri) = b - a" using st0 by (simp add: zdiv_int st_def)
  moreover have "(b - a) * 1 \<le> (b - a) * st" using ab st0 by (intro mult_left_mono) auto
  ultimately have G: "u64 (int (u64 (b * st - a * st) div rra_step s ri) + 1) = nat (b - a) + 1"
    using ab bounds st60 r by (simp add: prods nat_add_distrib)
  show ?thesis
    unfolding fetch_geometry_def Let_def st_def [symmetric] n_def [symmetric] A B C D E F G ..
qed

lemma fetch_position_rows:
  assumes wf: "wf_rrd s" and ri: "ri < rracnt s" and small: "row_cnt (rra_def s ! ri) < 2 ^ 31"
    and g: "geo_start g = a * st" "geo_end g = b * st" "geo_rra_start g = (e - int n + 1) * st"
      "geo_rra_end g = e * st" "geo_start_offset g = a - e + int n"
    and st: "st = int (rra_step s ri)" "0 < st" and n: "n = row_cnt (rra_def s ! ri)" and ab: "a < b"
  shows "\<exists>ps t. fetch_position s ri (rra_off s ri) g = (None, ps) \<and>
     fetch_rows (rra_off s ri) n (nat (b - a)) (a - e + int n) ps
       = Inr (map (\<lambda>k. row_at s ri (a - e + int n + int k)) [0 ..< nat (b - a)], t)"
proof -
  note rows = fetch_rows_ok [OF wf ri small, folded n]
  have n0: "0 < n" using wf_rrdD(8) [OF wf ri] by (simp add: n)
  have meet: "geo_end g \<ge> geo_rra_start g - int (rra_step s ri) \<longleftrightarrow> e - int n \<le> b"
  proof -
    have "geo_rra_start g - int (rra_step s ri) = (e - int n) * st" using st(1) by (simp add: g algebra_simps)
    then show ?thesis using st(2) by (simp add: g(2) mult_le_cancel_right_pos)
  qed
  consider "e < a" | "b < e - int n" | "a \<le> e" "e - int n \<le> b" by linarith
  then show ?thesis
  proof cases
    case 1
    then have "fetch_position s ri (rra_off s ri) g = (None, 0, s)"
      using st by (simp add: fetch_position_def Let_def g)
    moreover have "fetch_inv s ri (a - e + int n) (0, s)"
      unfolding fetch_inv_def using 1 n by (intro exI [of _ 0] exI [of _ "pos s"]) simp
    ultimately show ?thesis using rows by blast
  next
    case 2
    then have "fetch_position s ri (rra_off s ri) g = (None, 0, s)"
      using meet by (simp add: fetch_position_def Let_def)
    with 2 ab show ?thesis using fetch_rows_before [of "a - e + int n" "nat (b - a)"] by simp
  next
    case 3
    define p where "p = (Suc (rra_ptr s ! ri) + nat (a - e + int n)) mod n"
    have s32: "s32 (int n) = int n" using small n by simp
    have p: "(let p = (if geo_start_offset g \<le> 0 then int (rra_ptr s ! ri) + 1 else int (rra_ptr s ! ri) + 1 + geo_start_offset g)
             in p - cdiv p (int n) * int n) = int p"
      using n0 by (simp add: g cmod_pos p_def Let_def zmod_int del: cdiv_nonneg) (simp add: ac_simps)
    then have "fetch_position s ri (rra_off s ri) g = (None, int p, s\<lparr>pos := rra_off s ri + p * dscnt s\<rparr>)"
      using 3 st(2) meet by (simp add: fetch_position_def Let_def rrd_seek_def n [symmetric] s32 g(1,4) nat_add_distrib flip: of_nat_mult)
    moreover have "fetch_inv s ri (a - e + int n) (int p, s\<lparr>pos := rra_off s ri + p * dscnt s\<rparr>)"
      unfolding fetch_inv_def using n0
      by (intro exI [of _ p] exI [of _ "rra_off s ri + p * dscnt s"]) (simp add: p_def less_imp_le flip: n)
    ultimately show ?thesis using rows by blast
  qed
qed

lemma rra_row_at_quot:
  assumes "0 < rra_step s ri"
  defines "st \<equiv> int (rra_step s ri)"
  shows "rra_row_at s ri (a * st + (int k + 1) * st)
    = row_at s ri (a - last_up (live_head s) div st + int (row_cnt (rra_def s ! ri)) + int k)"
proof -
  have st0: "0 < st" using assms by simp
  have "log_end s ri - (a * st + (int k + 1) * st) = (last_up (live_head s) div st - a - int k - 1) * st"
    using mod_eq_mult [OF st0] by (simp add: log_end_def st_def algebra_simps)
  then show ?thesis using st0 by (simp add: rra_row_at_def log_index_def algebra_simps flip: st_def)
qed

definition fetch_count :: "rrd \<Rightarrow> nat \<Rightarrow> int \<Rightarrow> int \<Rightarrow> nat" where
  "fetch_count s ri start end' = nat ((fetch_end s ri end' - fetch_start s ri start) div int (rra_step s ri))"

lemma rrd_fetch_fn_eq:
  assumes wf: "wf_rrd s" and ri: "ri < rracnt s" and ch: "choose_rra s cf start end' step = Some ri"
    and rng: "fetch_in_range s ri start end'"
  shows "rrd_fetch_fn cf start end' step s =
     Inr \<lparr>ft_start = fetch_start s ri start, ft_end = fetch_end s ri end', ft_step = rra_step s ri,
          ft_alloc_rows = fetch_count s ri start end' + 1,
          ft_ds_namv = map (\<lambda>i. take 19 (ds_nam (ds_def s ! i))) [0 ..< dscnt s],
          ft_data = map (\<lambda>k. rra_row_at s ri (fetch_start s ri start + (int k + 1) * int (rra_step s ri)))
                      [0 ..< fetch_count s ri start end']\<rparr>"
proof -
  define st n where "st = int (rra_step s ri)" and "n = row_cnt (rra_def s ! ri)"
  define a b e where "a = start div st" and "b = end' div st + 1" and "e = last_up (live_head s) div st"
  have n0: "0 < n" using wf_rrdD(8) [OF wf ri] by (simp add: n_def)
  have n31: "n < 2 ^ 31" using rng by (simp add: n_def fetch_in_range_def)
  have step0: "0 < rra_step s ri"
    using wf_rrdD(6) [OF wf] wf_rrdD(9) [OF wf ri] rra_step_id(1) [OF rng] n0 by (simp add: n_def)
  then have st0: "0 < st" by (simp add: st_def)
  have ab: "a < b" using rng st0 by (simp add: a_def b_def fetch_in_range_def zdiv_mono1 less_add_one le_less_trans)
  note g = fetch_geometry_eq [OF rng n0 [unfolded n_def] step0, folded st_def, folded n_def a_def b_def e_def]
  have se: "fetch_start s ri start = a * st" "fetch_end s ri end' = b * st"
    using mod_eq_mult [OF st0] by (simp_all add: fetch_start_def fetch_end_def a_def b_def algebra_simps flip: st_def)
  then have cnt: "fetch_count s ri start end' = nat (b - a)"
    using st0 by (simp add: fetch_count_def flip: st_def left_diff_distrib)
  have base: "sum_list (map (\<lambda>i. dscnt s * row_cnt (rra_def s ! i)) [0 ..< ri]) = rra_off s ri"
    using rra_off_sum [of ri s] ri wf_rrdD(3) [OF wf] by simp
  have len: "nat (s32 (int n) - (e - b) - (a - e + int n)) = nat (b - a)" using n31 by simp
  have at: "rra_row_at s ri (a * st + (int k + 1) * st) = row_at s ri (a - e + int n + int k)" for k
    using rra_row_at_quot [OF step0, of a k] by (simp add: st_def n_def e_def)
  define G where "G = fetch_geometry s ri start end'"
  have G: "geo_start G = a * st" "geo_end G = b * st" "geo_alloc G = nat (b - a) + 1"
    "geo_rra_start G = (e - int n + 1) * st" "geo_rra_end G = e * st" "geo_start_offset G = a - e + int n"
    "geo_end_offset G = e - b" by (simp_all add: G_def g)
  obtain ps t where p: "fetch_position s ri (rra_off s ri) G = (None, ps)"
    and rows: "fetch_rows (rra_off s ri) n (nat (b - a)) (a - e + int n) ps
       = Inr (map (\<lambda>k. row_at s ri (a - e + int n + int k)) [0 ..< nat (b - a)], t)"
    using fetch_position_rows [OF wf ri n31 [unfolded n_def] G(1,2,4,5,6) st_def st0 n_def ab] by blast
  show ?thesis
    unfolding rrd_fetch_fn_def ch option.case Let_def base n_def [symmetric] G_def [symmetric] p prod.case
      G len rows sum.case se cnt at st_def [symmetric] ..
qed

section \<open>The archive that is chosen\<close>

definition cf_match :: "rrd \<Rightarrow> cf_en \<Rightarrow> nat \<Rightarrow> bool" where
  "cf_match s cf i \<longleftrightarrow> i < rracnt s \<and> cf_conv (cf_nam (rra_def s ! i)) = Some cf"

text \<open>Covering archives are ranked by the distance of their step, the others by their reach first.\<close>

definition full_better :: "rrd \<Rightarrow> nat \<Rightarrow> nat \<Rightarrow> nat \<Rightarrow> bool" where
  "full_better s step i j \<longleftrightarrow>
     step_diff s step i < step_diff s step j \<or> (step_diff s step i = step_diff s step j \<and> i \<le> j)"

definition part_better :: "rrd \<Rightarrow> nat \<Rightarrow> nat \<Rightarrow> nat \<Rightarrow> bool" where
  "part_better s step i j \<longleftrightarrow>
     cal_start s i < cal_start s j \<or> (cal_start s i = cal_start s j \<and> full_better s step i j)"

definition best_inv :: "rrd \<Rightarrow> cf_en \<Rightarrow> int \<Rightarrow> int \<Rightarrow> nat \<Rightarrow> nat \<Rightarrow> fetch_best \<Rightarrow> bool" where
  "best_inv s cf start end' step k b \<longleftrightarrow>
     (case best_full b of
        None \<Rightarrow> \<forall>j < k. cf_match s cf j \<longrightarrow> start < cal_start s j
      | Some (i, d) \<Rightarrow> i < k \<and> cf_match s cf i \<and> cal_start s i \<le> start \<and> d = step_diff s step i \<and>
          (\<forall>j < k. cf_match s cf j \<longrightarrow> cal_start s j \<le> start \<longrightarrow> full_better s step i j)) \<and>
     (case best_part b of
        None \<Rightarrow> \<forall>j < k. cf_match s cf j \<longrightarrow> cal_start s j \<le> start
      | Some (i, m, d) \<Rightarrow> i < k \<and> cf_match s cf i \<and> start < cal_start s i \<and> d = step_diff s step i \<and>
          m = end' - cal_start s i \<and>
          (\<forall>j < k. cf_match s cf j \<longrightarrow> start < cal_start s j \<longrightarrow> part_better s step i j))"

lemma best_inv_step:
  assumes "best_inv s cf start end' step k b" and "k < rracnt s"
  shows "best_inv s cf start end' step (Suc k) (consider_rra s cf start end' step k b)"
proof (cases "cf_match s cf k")
  case False
  with assms have "consider_rra s cf start end' step k b = b" by (auto simp: consider_rra_def cf_match_def)
  with assms False show ?thesis
    by (auto simp: best_inv_def less_Suc_eq split: option.splits)
next
  case True
  then have cf: "cf_conv (cf_nam (rra_def s ! k)) = Some cf" by (simp add: cf_match_def)
  show ?thesis
  proof (cases "cal_start s k \<le> start")
    case full: True
    show ?thesis
      using assms True full cf
      by (auto simp: best_inv_def consider_rra_def Let_def full_better_def less_Suc_eq split: option.splits) force
  next
    case False
    then show ?thesis
      using assms True cf
      by (auto simp: best_inv_def consider_rra_def Let_def part_better_def full_better_def less_Suc_eq
          split: option.splits) force+
  qed
qed

lemma best_inv_fold:
  assumes "k \<le> rracnt s"
  shows "best_inv s cf start end' step k
    (fold (consider_rra s cf start end' step) [0 ..< k] \<lparr>best_full = None, best_part = None\<rparr>)"
  using assms
proof (induction k)
  case 0
  then show ?case by (simp add: best_inv_def)
next
  case (Suc k)
  then show ?case using best_inv_step by simp
qed

lemma choose_rra_best:
  "case choose_rra s cf start end' step of
     None \<Rightarrow> \<forall>j. \<not> cf_match s cf j
   | Some i \<Rightarrow> cf_match s cf i \<and>
       (if \<exists>j. cf_match s cf j \<and> cal_start s j \<le> start
        then cal_start s i \<le> start \<and> (\<forall>j. cf_match s cf j \<and> cal_start s j \<le> start \<longrightarrow> full_better s step i j)
        else \<forall>j. cf_match s cf j \<longrightarrow> part_better s step i j)"
proof -
  define b where "b = fold (consider_rra s cf start end' step) [0 ..< rracnt s] \<lparr>best_full = None, best_part = None\<rparr>"
  have inv: "best_inv s cf start end' step (rracnt s) b" unfolding b_def by (rule best_inv_fold) simp
  have j: "cf_match s cf j \<Longrightarrow> j < rracnt s" for j by (simp add: cf_match_def)
  have ch: "choose_rra s cf start end' step
      = (case best_full b of Some (i, _) \<Rightarrow> Some i | None \<Rightarrow> map_option fst (best_part b))"
    unfolding choose_rra_def b_def Let_def ..
  show ?thesis
  proof (cases "best_full b")
    case None
    with inv have n: "cf_match s cf j \<Longrightarrow> start < cal_start s j" for j using j by (auto simp: best_inv_def)
    then have "\<not> (\<exists>j. cf_match s cf j \<and> cal_start s j \<le> start)" by force
    with inv None n j show ?thesis
      by (cases "best_part b") (fastforce simp: ch best_inv_def)+
  next
    case (Some p)
    with inv j show ?thesis by (cases p) (auto simp: ch best_inv_def)
  qed
qed

lemma choose_rra_less: "choose_rra s cf start end' step = Some i \<Longrightarrow> i < rracnt s"
  using choose_rra_best [where s = s and cf = cf and start = start and end' = end' and step = step] by (simp add: cf_match_def)

section \<open>Properties\<close>

text \<open>
  C6: A fetch succeeds and delivers exactly the rows of the chosen archive between the rounded ends of the window:
  the window contains the wanted one, the rows fill it without a gap and stay within the memory allocated for
  them, and every row is the one the archive holds for the end of its interval, unknown outside the archive.
\<close>

theorem rrd_fetch_fn_rows:
  assumes "wf_rrd s" and "choose_rra s cf start end' step = Some ri" and "fetch_in_range s ri start end'"
  shows "\<exists>ft. rrd_fetch_fn cf start end' step s = Inr ft \<and>
     ft_start ft \<le> start \<and> end' < ft_end ft \<and> ft_step ft = rra_step s ri \<and>
     ft_start ft + int (length (ft_data ft)) * int (ft_step ft) = ft_end ft \<and>
     length (ft_data ft) < ft_alloc_rows ft \<and>
     (\<forall>k < length (ft_data ft).
        ft_data ft ! k = rra_row_at s ri (ft_start ft + (int k + 1) * int (ft_step ft)))"
proof -
  note ri = choose_rra_less [OF assms(2)]
  note eq = rrd_fetch_fn_eq [OF assms(1) ri assms(2,3)]
  have st: "0 < int (rra_step s ri)"
    using wf_rrdD(6) [OF assms(1)] wf_rrdD(9) [OF assms(1) ri] rra_step_id(1) [OF assms(3) wf_rrdD(8) [OF assms(1) ri]]
    by simp
  have "fetch_start s ri start \<le> start" using st by (simp add: fetch_start_def)
  moreover have e: "end' < fetch_end s ri end'" using pos_mod_bound [OF st, of end'] by (simp add: fetch_end_def)
  moreover have "fetch_start s ri start + int (fetch_count s ri start end') * int (rra_step s ri) = fetch_end s ri end'"
  proof -
    have "fetch_end s ri end' - fetch_start s ri start
        = (end' div int (rra_step s ri) + 1 - start div int (rra_step s ri)) * int (rra_step s ri)"
      using mod_eq_mult [OF st] by (simp add: fetch_start_def fetch_end_def algebra_simps)
    moreover have "start div int (rra_step s ri) \<le> end' div int (rra_step s ri)"
      using assms(3) st by (simp add: fetch_in_range_def zdiv_mono1)
    ultimately show ?thesis using st by (simp add: fetch_count_def)
  qed
  ultimately show ?thesis unfolding eq by simp
qed

lemma demo_rra_simps:
  "rra_def demo_rrd ! 0 = demo_rra ''AVERAGE'' 3 1" "rra_def demo_rrd ! Suc 0 = demo_rra ''MAX'' 2 2"
  "last_up (live_head demo_rrd) = 1200000000" "rra_step demo_rrd 0 = 300" "rra_step demo_rrd (Suc 0) = 600"
  by (simp_all add: demo_rrd_def rra_step_def demo_rra_def)

lemma upt_0_2: "[0 ..< 2] = [0, Suc 0]"
  by (simp add: upt_rec)

lemmas fetch_eval = choose_rra_def consider_rra_def cal_start_def cal_end_def step_diff_def Let_def cf_conv_def
  demo_rra_simps demo_rra_def upt_0_2 u64_def s64_def

theorem rrd_fetch_fn_rows_witness:
  "\<exists>ft. rrd_fetch_fn CF_AVERAGE 1199999500 1200000100 300 demo_rrd = Inr ft \<and> ft_step ft = 300 \<and>
     ft_start ft \<le> 1199999500 \<and> 1200000100 < ft_end ft \<and>
     (\<forall>k < length (ft_data ft). ft_data ft ! k = rra_row_at demo_rrd 0 (ft_start ft + (int k + 1) * 300)) \<and>
     rra_row_at demo_rrd 0 1199999700 = [Fin 10, Fin 20] \<and> rra_row_at demo_rrd 0 1200000300 = [NaN, NaN]"
proof -
  have "choose_rra demo_rrd CF_AVERAGE 1199999500 1200000100 300 = Some 0"
    by (simp add: fetch_eval)
  moreover have "fetch_in_range demo_rrd 0 1199999500 1200000100"
    by (simp add: fetch_in_range_def demo_rra_simps) (simp add: demo_rra_def)
  moreover have "rra_step demo_rrd 0 = 300" by (rule demo_rra_simps)
  moreover have "rra_row_at demo_rrd 0 1199999700 = [Fin 10, Fin 20]"
    by (simp add: rra_row_at_def row_at_def log_index_def log_end_def demo_rra_simps)
       (simp add: demo_rrd_def demo_rra_def rra_log_def rra_rows_def rra_cell_def rra_off_def rra_total_def upt_rec)
  moreover have "rra_row_at demo_rrd 0 1200000300 = [NaN, NaN]"
    by (simp add: rra_row_at_def row_at_def log_index_def log_end_def demo_rra_simps)
       (simp add: demo_rra_def numeral_2_eq_2)
  ultimately show ?thesis using rrd_fetch_fn_rows [OF wf_demo_rrd] by fastforce
qed

text \<open>
  C17: The choice of the archive: none exactly when no archive has the wanted function; else, among those that
  reach back to the start of the window, the first one whose step is nearest to the wanted step; and when none
  reaches back, the one that reaches furthest, again the nearest step and the first index breaking ties.
\<close>

theorem choose_rra_optimal:
  "(choose_rra s cf start end' step = None \<longleftrightarrow> (\<forall>j. \<not> cf_match s cf j)) \<and>
   (\<forall>i. choose_rra s cf start end' step = Some i \<longrightarrow> cf_match s cf i \<and>
      (if \<exists>j. cf_match s cf j \<and> cal_start s j \<le> start
       then cal_start s i \<le> start \<and> (\<forall>j. cf_match s cf j \<and> cal_start s j \<le> start \<longrightarrow> full_better s step i j)
       else \<forall>j. cf_match s cf j \<longrightarrow> part_better s step i j))"
  using choose_rra_best [where s = s and cf = cf and start = start and end' = end' and step = step]
  by (cases "choose_rra s cf start end' step") (simp_all, blast)

theorem choose_rra_optimal_witness:
  "choose_rra demo_rrd CF_MAXIMUM 1199999500 1200000100 300 = Some 1 \<and> cf_match demo_rrd CF_MAXIMUM 1"
proof -
  have "choose_rra demo_rrd CF_MAXIMUM 1199999500 1200000100 300 = Some 1"
    by (simp add: fetch_eval)
  then show ?thesis using choose_rra_optimal [of demo_rrd CF_MAXIMUM 1199999500 1200000100 300] by simp
qed

end
