(* ===== verification/Create.thy ===== *)
theory Create
  imports Update Fetch "HOL-Library.Word"
begin

text \<open>
  Creating a database (\<open>rrd_create.c\<close>, with the name hash of \<open>hash_32.c\<close>): the definitions of data sources and
  archives on the command line, the archives that an HWPREDICT definition brings along, and the empty file.
\<close>

section \<open>The name hash\<close>

text \<open>\<open>Fnv32_t\<close> is \<open>unsigned long\<close>, so the hash is computed modulo \<open>2 ^ 64\<close>.\<close>

unbundle bit_operations_syntax

definition fnv_octet :: "64 word \<Rightarrow> char \<Rightarrow> 64 word" where
  "fnv_octet hval c = (hval * 0x01000193) XOR of_nat (code c)"

definition fnv_32_str :: "string \<Rightarrow> 64 word \<Rightarrow> 64 word" where
  "fnv_32_str str hval = foldl fnv_octet hval str"

definition fnv_32_buf :: "char list \<Rightarrow> nat \<Rightarrow> 64 word \<Rightarrow> 64 word" where
  "fnv_32_buf buf len hval = foldl fnv_octet hval (take len buf)"

definition FnvHash :: "string \<Rightarrow> nat" where
  "FnvHash str = unat (fnv_32_str str 0x811c9dc5)"

section \<open>Data sources\<close>

datatype create_error =
    InvalidDsName | InvalidDsType | InvalidDsFormat | DuplicateDsName | InvalidDsTypeSpecified
  | ComputeError rpn_error | MinNotLessMax | FailedToParseDs
  | UnrecognizedCF | InvalidRowCount | InvalidXff | InvalidAlpha | InvalidGamma | ThresholdRange
  | InvalidStep | InvalidBeta | WindowRange | WindowShort | ExtraArgument | InvalidSmoothingWindow
  | InvalidOption | PeriodTooLong | UnknownCreateError | TooFewArguments | CantParseArgument
  | NoArchive | NoDataSource | DivisionByZero

definition ds_nam_char :: "char \<Rightarrow> bool" where
  "ds_nam_char c \<longleftrightarrow> isalnum c \<or> c = CHR ''_'' \<or> c = CHR ''-''"

text \<open>
  The conversion \<open>%n[...]\<close>: up to \<open>n\<close> characters of the set, and the rest; at least one must match.
\<close>

definition scan_set :: "nat \<Rightarrow> (char \<Rightarrow> bool) \<Rightarrow> string \<Rightarrow> (string \<times> string) option" where
  "scan_set n P str =
     (let v = take n (takeWhile P str) in if v = [] then None else Some (v, drop (length v) str))"

text \<open>Name and type of a definition, with the rest behind them, or what the count of \<open>sscanf\<close> stands for.\<close>

definition scan_ds_head :: "string \<Rightarrow> create_error + (string \<times> string \<times> string)" where
  "scan_ds_head str =
     (if str = [] then Inl InvalidDsFormat
      else case scan_set 19 ds_nam_char str of
        None \<Rightarrow> Inl InvalidDsName
      | Some (nam, r) \<Rightarrow>
          (case scan_set 1 (\<lambda>c. c = CHR '':'') r of
             None \<Rightarrow> Inl InvalidDsName
           | Some (_, r) \<Rightarrow>
               (case scan_set 19 isupper r of
                  None \<Rightarrow> Inl InvalidDsType
                | Some (ty, r) \<Rightarrow>
                    (case scan_set 1 (\<lambda>c. c = CHR '':'') r of
                       None \<Rightarrow> Inl InvalidDsType
                     | Some (_, r) \<Rightarrow> Inr (nam, ty, r)))))"

definition limit_val :: "string \<Rightarrow> dbl" where
  "limit_val str = (if str = ''U'' then NaN else atof str)"

text \<open>\<open>sscanf(def, "%lu:%18[^:]:%18[^:]", ...)\<close>\<close>

definition scan_generic :: "string \<Rightarrow> (nat \<times> string \<times> string) option" where
  "scan_generic str =
     (case strtoul str of (hb, r) \<Rightarrow>
      if r = str then None
      else case r of
        [] \<Rightarrow> None
      | c # r \<Rightarrow>
          if c \<noteq> CHR '':'' then None
          else (case scan_set 18 (\<lambda>c. c \<noteq> CHR '':'') r of
                  None \<Rightarrow> None
                | Some (minstr, r) \<Rightarrow>
                    (case r of
                       [] \<Rightarrow> None
                     | c # r \<Rightarrow>
                         if c \<noteq> CHR '':'' then None
                         else map_option (\<lambda>(maxstr, _). (hb, minstr, maxstr)) (scan_set 18 (\<lambda>c. c \<noteq> CHR '':'') r))))"

definition parseGENERIC_DS :: "string \<Rightarrow> nat \<Rightarrow> rrd \<Rightarrow> create_error + rrd" where
  "parseGENERIC_DS def ds_idx s =
     (case scan_generic def of
        None \<Rightarrow> Inl FailedToParseDs
      | Some (hb, minstr, maxstr) \<Rightarrow>
          let mi = limit_val minstr; ma = limit_val maxstr
          in if mi \<noteq> NaN \<and> ma \<noteq> NaN \<and> mi \<ge> ma then Inl MinNotLessMax
             else Inr (s\<lparr>ds_def := (ds_def s)[ds_idx := (ds_def s ! ds_idx)\<lparr>mrhb_cnt := hb, min_val := mi, max_val := ma\<rparr>]\<rparr>))"

text \<open>One \<open>DS:\<close> argument, without the prefix. The array has room for the new entry, cleared, at \<open>ds_cnt\<close>.\<close>

definition create_ds :: "string \<Rightarrow> rrd \<Rightarrow> create_error + rrd" where
  "create_ds str s =
     (case scan_ds_head str of
        Inl e \<Rightarrow> Inl e
      | Inr (nam, ty, r) \<Rightarrow>
          let n = dscnt s;
              s1 = s\<lparr>ds_def := take n (ds_def s) @
                      [\<lparr>ds_nam = nam, dst = ty, mrhb_cnt = 0, min_val = 0, max_val = 0, cdef = []\<rparr>]\<rparr>
          in if list_ex (\<lambda>i. nam = ds_nam (ds_def s1 ! i)) [0 ..< n] then Inl DuplicateDsName
             else
               (case (case dst_conv ty of
                        None \<Rightarrow> Inl InvalidDsTypeSpecified
                      | Some DST_CDEF \<Rightarrow>
                          (case parseCDEF_DS r n s1 of (Some e, _) \<Rightarrow> Inl (ComputeError e) | (None, s) \<Rightarrow> Inr s)
                      | Some _ \<Rightarrow> parseGENERIC_DS r n s1) of
                  Inl e \<Rightarrow> Inl e
                | Inr s \<Rightarrow> Inr (s\<lparr>stat_head := (stat_head s)\<lparr>ds_cnt := n + 1\<rparr>\<rparr>)))"

section \<open>Archives\<close>

definition MAX_FAILURES_WINDOW_LEN :: int where
  "MAX_FAILURES_WINDOW_LEN = 28"

text \<open>The parts that the loop over the tokens of one definition changes. \<open>period\<close> is an \<open>unsigned short\<close>.\<close>

record rra_parse =
  rp_def :: rra_def_t
  rp_token_min :: nat
  rp_version :: string
  rp_period :: nat

abbreviation upd_def :: "(rra_def_t \<Rightarrow> rra_def_t) \<Rightarrow> rra_parse \<Rightarrow> rra_parse" where
  "upd_def f p \<equiv> p\<lparr>rp_def := f (rp_def p)\<rparr>"

definition guard :: "bool \<Rightarrow> create_error \<Rightarrow> rra_parse \<Rightarrow> create_error + rra_parse" where
  "guard ok e p = (if ok then Inr p else Inl e)"

text \<open>Token 0: the consolidation function, with the defaults of its parameters.\<close>

definition cf_defaults :: "nat \<Rightarrow> cf_en \<Rightarrow> rra_parse \<Rightarrow> rra_parse" where
  "cf_defaults rra_idx cf p =
     (let hw = p\<lparr>rp_token_min := 5,
                 rp_def := (rp_def p)\<lparr>par1 := d_const 1 1, par2 := Fin 1 / Fin 288, dependent_rra_idx := rra_idx\<rparr>\<rparr>;
          none = u64 (- 1)
      in case cf of
           CF_MHWPREDICT \<Rightarrow> hw\<lparr>rp_version := ''0004''\<rparr>
         | CF_HWPREDICT \<Rightarrow> hw
         | CF_DEVSEASONAL \<Rightarrow>
             p\<lparr>rp_token_min := 3, rp_def := (rp_def p)\<lparr>par1 := d_const 1 1, par2 := d_const 5 2, dependent_rra_idx := none\<rparr>\<rparr>
         | CF_SEASONAL \<Rightarrow>
             p\<lparr>rp_token_min := 4, rp_def := (rp_def p)\<lparr>par1 := d_const 1 1, par2 := d_const 5 2, dependent_rra_idx := none\<rparr>\<rparr>
         | CF_DEVPREDICT \<Rightarrow> p\<lparr>rp_token_min := 3, rp_def := (rp_def p)\<lparr>dependent_rra_idx := none\<rparr>\<rparr>
         | CF_FAILURES \<Rightarrow>
             p\<lparr>rp_token_min := 5,
               rp_def := (rp_def p)\<lparr>par1 := Fin 2, par2 := Fin 2, par4 := 3, failure_threshold := 2, dependent_rra_idx := none\<rparr>\<rparr>
         | _ \<Rightarrow> p)"

definition rra_token0 :: "nat \<Rightarrow> string \<Rightarrow> rra_parse \<Rightarrow> create_error + rra_parse" where
  "rra_token0 rra_idx tok p =
     (let nam = take 19 (takeWhile isupper tok)
      in case cf_conv nam of
           None \<Rightarrow> Inl UnrecognizedCF
         | Some cf \<Rightarrow> Inr (upd_def (\<lambda>d. d\<lparr>pdp_cnt := 1\<rparr>) (cf_defaults rra_idx cf (upd_def (\<lambda>d. d\<lparr>cf_nam := nam\<rparr>) p))))"

text \<open>\<open>aberrant\<close>: the functions whose second token is the number of rows.\<close>

definition aberrant :: "cf_en \<Rightarrow> bool" where
  "aberrant cf \<longleftrightarrow> cf \<in> {CF_HWPREDICT, CF_MHWPREDICT, CF_DEVSEASONAL, CF_SEASONAL, CF_DEVPREDICT, CF_FAILURES}"

definition set_rows :: "string \<Rightarrow> rra_parse \<Rightarrow> create_error + rra_parse" where
  "set_rows tok p = guard (0 < atoi tok) InvalidRowCount (upd_def (\<lambda>d. d\<lparr>row_cnt := u64 (atoi tok)\<rparr>) p)"

definition set_dependent :: "string \<Rightarrow> rra_parse \<Rightarrow> rra_parse" where
  "set_dependent tok = upd_def (\<lambda>d. d\<lparr>dependent_rra_idx := u64 (atoi tok - 1)\<rparr>)"

definition rra_token1 :: "cf_en \<Rightarrow> string \<Rightarrow> rra_parse \<Rightarrow> create_error + rra_parse" where
  "rra_token1 cf tok p =
     (if aberrant cf then set_rows tok p
      else guard (\<not> (atof tok < 0 \<or> atof tok \<ge> 1)) InvalidXff (upd_def (\<lambda>d. d\<lparr>cdp_xff_val := atof tok\<rparr>) p))"

definition rra_token2 :: "nat \<Rightarrow> cf_en \<Rightarrow> string \<Rightarrow> rra_parse \<Rightarrow> create_error + rra_parse" where
  "rra_token2 hashed_name cf tok p =
     (let unit = \<not> (atof tok \<le> 0 \<or> atof tok \<ge> 1) in
      if cf = CF_HWPREDICT \<or> cf = CF_MHWPREDICT then guard unit InvalidAlpha (upd_def (\<lambda>d. d\<lparr>par1 := atof tok\<rparr>) p)
      else if cf = CF_DEVSEASONAL \<or> cf = CF_SEASONAL
      then guard unit InvalidGamma (upd_def (\<lambda>d. d\<lparr>par1 := atof tok, par4 := hashed_name mod row_cnt d\<rparr>) p)
      else if cf = CF_FAILURES
      then guard (1 \<le> atoi tok \<and> atoi tok \<le> MAX_FAILURES_WINDOW_LEN) ThresholdRange
             (upd_def (\<lambda>d. d\<lparr>failure_threshold := u64 (atoi tok)\<rparr>) p)
      else if cf = CF_DEVPREDICT then Inr (set_dependent tok p)
      else guard (1 \<le> atoi tok) InvalidStep (upd_def (\<lambda>d. d\<lparr>pdp_cnt := u64 (atoi tok)\<rparr>) p))"

definition rra_token3 :: "cf_en \<Rightarrow> string \<Rightarrow> rra_parse \<Rightarrow> create_error + rra_parse" where
  "rra_token3 cf tok p =
     (if cf = CF_HWPREDICT \<or> cf = CF_MHWPREDICT
      then guard (\<not> (atof tok < 0 \<or> atof tok > 1)) InvalidBeta (upd_def (\<lambda>d. d\<lparr>par2 := atof tok\<rparr>) p)
      else if cf = CF_DEVSEASONAL \<or> cf = CF_SEASONAL then Inr (set_dependent tok p)
      else if cf = CF_FAILURES
      then (let p = upd_def (\<lambda>d. d\<lparr>par4 := u64 (atoi tok)\<rparr>) p
            in if par4 (rp_def p) < failure_threshold (rp_def p) then Inl WindowShort
               else guard (1 \<le> atoi tok \<and> atoi tok \<le> MAX_FAILURES_WINDOW_LEN) WindowRange p)
      else if cf = CF_DEVPREDICT then Inl ExtraArgument
      else set_rows tok p)"

text \<open>
  \<open>%lf\<close> reads the longest sequence that can be continued to a number and then fails when the sequence is not a
  number itself, so it fails where \<open>strtod\<close> stops in front of a character that would continue it.
\<close>

definition stops_short :: "string \<Rightarrow> string \<Rightarrow> bool" where
  "stops_short item rest \<longleftrightarrow>
     rest \<noteq> [] \<and>
     (let c = lower (hd rest); l = map lower item in
      if CHR ''n'' \<in> set l then c = CHR ''('' \<or> c = CHR ''i'' \<and> last l = CHR ''f''
      else if CHR ''x'' \<in> set l then c = CHR ''p'' \<and> CHR ''p'' \<notin> set l
      else c = CHR ''e'' \<and> CHR ''e'' \<notin> set l \<or> c = CHR ''x'' \<and> snd (strip_sign (dropWhile isspace l)) = ''0'')"

definition scan_lf :: "string \<Rightarrow> dbl option" where
  "scan_lf str =
     (case strtod str of ((v, _), rest) \<Rightarrow>
        if rest = str \<or> stops_short (take (length str - length rest) str) rest then None else Some v)"

text \<open>\<open>sscanf(token, "smoothing-window=%lf", ...)\<close>; its result \<open>EOF\<close>, for a token that ends early, counts as true.\<close>

definition smoothing_token :: "string \<Rightarrow> (dbl option) option" where
  "smoothing_token tok =
     (let pre = ''smoothing-window='' in
      if take (length pre) tok = pre
      then (let r = drop (length pre) tok in
            if dropWhile isspace r = [] then Some None
            else map_option Some (scan_lf r))
      else if length tok < length pre \<and> take (length tok) pre = tok then Some None
      else None)"

definition rra_token4 :: "cf_en \<Rightarrow> string \<Rightarrow> rra_parse \<Rightarrow> create_error + rra_parse" where
  "rra_token4 cf tok p =
     (if cf = CF_FAILURES then Inr (set_dependent tok p)
      else if cf = CF_DEVSEASONAL \<or> cf = CF_SEASONAL
      then (case smoothing_token tok of
              None \<Rightarrow> Inl InvalidOption
            | Some v \<Rightarrow>
                let p = upd_def (\<lambda>d. d\<lparr>par2 := (case v of Some w \<Rightarrow> w | None \<Rightarrow> par2 d)\<rparr>) p\<lparr>rp_version := ''0004''\<rparr>
                in guard (\<not> (par2 (rp_def p) < 0 \<or> par2 (rp_def p) > 1)) InvalidSmoothingWindow p)
      else if cf = CF_HWPREDICT \<or> cf = CF_MHWPREDICT
      then (let p = p\<lparr>rp_period := u16 (atoi tok)\<rparr>
            in guard (rp_period p \<le> row_cnt (rp_def p)) PeriodTooLong p)
      else Inl ExtraArgument)"

definition rra_token :: "nat \<Rightarrow> nat \<Rightarrow> nat \<Rightarrow> string \<Rightarrow> rra_parse \<Rightarrow> create_error + rra_parse" where
  "rra_token hashed_name rra_idx token_idx tok p =
     (if token_idx = 0 then rra_token0 rra_idx tok p
      else case cf_conv (cf_nam (rp_def p)) of
        None \<Rightarrow> Inl UnknownCreateError
      | Some cf \<Rightarrow>
          if token_idx = 1 then rra_token1 cf tok p
          else if token_idx = 2 then rra_token2 hashed_name cf tok p
          else if token_idx = 3 then rra_token3 cf tok p
          else if token_idx = 4 then rra_token4 cf tok p
          else if token_idx = 5 then Inr (set_dependent tok p)
          else Inl UnknownCreateError)"

fun rra_tokens :: "nat \<Rightarrow> nat \<Rightarrow> nat \<Rightarrow> string list \<Rightarrow> rra_parse \<Rightarrow> create_error + rra_parse" where
  "rra_tokens hashed_name rra_idx i [] p = Inr p"
| "rra_tokens hashed_name rra_idx i (tok # toks) p =
     (case rra_token hashed_name rra_idx i tok p of
        Inl e \<Rightarrow> Inl e
      | Inr p \<Rightarrow> rra_tokens hashed_name rra_idx (Suc i) toks p)"

text \<open>\<open>strtok_r\<close> passes over empty tokens.\<close>

definition strtok_tokens :: "char \<Rightarrow> string \<Rightarrow> string list" where
  "strtok_tokens c str = filter (\<lambda>t. t \<noteq> []) (split_on c str)"

definition rra_zero :: rra_def_t where
  "rra_zero = \<lparr>cf_nam = '''', row_cnt = 0, pdp_cnt = 0, cdp_xff_val = 0, par1 = 0, par2 = 0,
     dependent_rra_idx = 0, par4 = 0, failure_threshold = 0\<rparr>"

text \<open>
  The four archives that belong to the HWPREDICT archive just parsed, at index \<open>rra_cnt\<close>. A period of 0 makes
  the source divide by zero.
\<close>

definition create_hw_contingent_rras :: "nat \<Rightarrow> nat \<Rightarrow> rrd \<Rightarrow> create_error + rrd" where
  "create_hw_contingent_rras period hashed_name s =
     (if period = 0 then Inl DivisionByZero
      else
        let hw_index = rracnt s;
            hw = rra_def s ! hw_index;
            seasonal = rra_zero\<lparr>cf_nam := ''SEASONAL'', row_cnt := period, par4 := hashed_name mod period, pdp_cnt := 1,
                         par1 := par1 hw, dependent_rra_idx := hw_index\<rparr>;
            devseasonal = seasonal\<lparr>cf_nam := ''DEVSEASONAL''\<rparr>;
            devpredict = rra_zero\<lparr>cf_nam := ''DEVPREDICT'', row_cnt := row_cnt hw, pdp_cnt := 1,
                           dependent_rra_idx := hw_index + 2\<rparr>;
            failures = rra_zero\<lparr>cf_nam := ''FAILURES'', row_cnt := period, pdp_cnt := 1, par1 := Fin 2, par2 := Fin 2,
                         failure_threshold := 7, par4 := 9, dependent_rra_idx := hw_index + 2\<rparr>
        in Inr (s\<lparr>stat_head := (stat_head s)\<lparr>rra_cnt := hw_index + 4\<rparr>,
                  rra_def := (rra_def s)[hw_index := hw\<lparr>dependent_rra_idx := hw_index + 1\<rparr>]
                             @ [seasonal, devseasonal, devpredict, failures]\<rparr>))"

text \<open>One \<open>RRA:\<close> argument, without the prefix; \<open>period\<close> is the local variable of the whole loop.\<close>

definition create_rra :: "nat \<Rightarrow> string \<Rightarrow> nat \<times> rrd \<Rightarrow> create_error + nat \<times> rrd" where
  "create_rra hashed_name str ps =
     (case ps of (period, s) \<Rightarrow>
      let n = rracnt s;
          toks = strtok_tokens CHR '':'' str
      in case rra_tokens hashed_name n 0 toks
                \<lparr>rp_def = rra_zero, rp_token_min = 4, rp_version = version (stat_head s), rp_period = period\<rparr> of
           Inl e \<Rightarrow> Inl e
         | Inr p \<Rightarrow>
             if length toks < rp_token_min p then Inl TooFewArguments
             else
               let s = s\<lparr>rra_def := take n (rra_def s) @ [rp_def p], stat_head := (stat_head s)\<lparr>version := rp_version p\<rparr>\<rparr>;
                   cf = cf_conv (cf_nam (rp_def p))
               in (case (if (cf = Some CF_HWPREDICT \<or> cf = Some CF_MHWPREDICT) \<and> dependent_rra_idx (rp_def p) = n
                         then create_hw_contingent_rras (rp_period p) hashed_name s
                         else Inr s) of
                     Inl e \<Rightarrow> Inl e
                   | Inr s \<Rightarrow> Inr (rp_period p, s\<lparr>stat_head := (stat_head s)\<lparr>rra_cnt := rracnt s + 1\<rparr>\<rparr>)))"

definition create_arg :: "nat \<Rightarrow> string \<Rightarrow> nat \<times> rrd \<Rightarrow> create_error + nat \<times> rrd" where
  "create_arg hashed_name arg ps =
     (if take 3 arg = ''DS:''
      then (case create_ds (drop 3 arg) (snd ps) of Inl e \<Rightarrow> Inl e | Inr s \<Rightarrow> Inr (fst ps, s))
      else if take 4 arg = ''RRA:'' then create_rra hashed_name (drop 4 arg) ps
      else Inl CantParseArgument)"

fun create_args :: "nat \<Rightarrow> string list \<Rightarrow> nat \<times> rrd \<Rightarrow> create_error + nat \<times> rrd" where
  "create_args hashed_name [] ps = Inr ps"
| "create_args hashed_name (arg # args) ps =
     (case create_arg hashed_name arg ps of Inl e \<Rightarrow> Inl e | Inr ps \<Rightarrow> create_args hashed_name args ps)"

section \<open>The empty file\<close>

definition cdp_zero :: cdp_prep_t where
  "cdp_zero = \<lparr>cdp_val = 0, unkn_pdp_cnt = 0, hw_intercept = 0, hw_last_intercept = 0, hw_slope = 0,
     hw_last_slope = 0, null_count = 0, last_null_count = 0, primary_val = 0, secondary_val = 0,
     violations = replicate 28 0\<rparr>"

text \<open>
  The one preparation record that is filled for an archive and written for each of its data sources; what an
  archive does not set is what the archives before it left there.
\<close>

definition init_cdp :: "nat \<Rightarrow> rrd \<Rightarrow> rra_def_t \<Rightarrow> cdp_prep_t \<Rightarrow> cdp_prep_t" where
  "init_cdp unkn_sec s r c =
     (case cf_conv (cf_nam r) of
        Some CF_HWPREDICT \<Rightarrow> init_hwpredict_cdp c
      | Some CF_MHWPREDICT \<Rightarrow> init_hwpredict_cdp c
      | Some CF_SEASONAL \<Rightarrow> init_seasonal_cdp c
      | Some CF_DEVSEASONAL \<Rightarrow> init_seasonal_cdp c
      | Some CF_FAILURES \<Rightarrow> cdp_zero
      | _ \<Rightarrow> c\<lparr>cdp_val := NaN,
               unkn_pdp_cnt := u64 (last_up (live_head s) - int unkn_sec) mod u64 (int (pdpstep s * pdp_cnt r)) div pdpstep s\<rparr>)"

fun init_cdps :: "nat \<Rightarrow> rrd \<Rightarrow> rra_def_t list \<Rightarrow> cdp_prep_t \<Rightarrow> cdp_prep_t list" where
  "init_cdps unkn_sec s [] c = []"
| "init_cdps unkn_sec s (r # rs) c =
     (let c = init_cdp unkn_sec s r c in replicate (dscnt s) c @ init_cdps unkn_sec s rs c)"

text \<open>\<open>unkn_cnt\<close> is an \<open>int\<close>.\<close>

definition unkn_cnt :: "rrd \<Rightarrow> int" where
  "unkn_cnt s = foldl (\<lambda>n i. s32 (n + int (dscnt s * row_cnt (rra_def s ! i)))) 0 [0 ..< rracnt s]"

text \<open>
  \<open>rrd_random\<close> delivers \<open>rnd i\<close> for archive \<open>i\<close>. The file has its full length before anything is written; \<open>fill\<close>
  is the value that its bytes have then. \<open>unkn_cnt\<close> values are overwritten with NaN, in blocks of 512.
\<close>

definition rrd_create_fn :: "(nat \<Rightarrow> nat) \<Rightarrow> dbl \<Rightarrow> rrd \<Rightarrow> rrd" where
  "rrd_create_fn rnd fill s =
     (let unkn_sec = u64 (last_up (live_head s)) mod pdpstep s;
          total = rra_total (dscnt s) (rra_def s);
          k = min (nat (unkn_cnt s)) total
      in s\<lparr>pdp_prep := replicate (dscnt s) \<lparr>last_ds = ''U'', unkn_sec_cnt = unkn_sec, pdp_val = 0\<rparr>,
           cdp_prep := init_cdps unkn_sec s (rra_def s) cdp_zero,
           rra_ptr := map (\<lambda>i. rnd i mod row_cnt (rra_def s ! i)) [0 ..< rracnt s],
           rrd_value := replicate k NaN @ replicate (total - k) fill\<rparr>)"

definition rrd_create_r :: "(nat \<Rightarrow> nat) \<Rightarrow> dbl \<Rightarrow> string \<Rightarrow> nat \<Rightarrow> int \<Rightarrow> string list \<Rightarrow> create_error + rrd" where
  "rrd_create_r rnd fill filename pdp_step0 last_up0 args =
     (case create_args (FnvHash filename) args
             (0, \<lparr>stat_head = \<lparr>version = ''0003'', ds_cnt = 0, rra_cnt = 0, pdp_step = pdp_step0\<rparr>,
                  ds_def = [], rra_def = [], live_head = \<lparr>last_up = last_up0, last_up_usec = 0\<rparr>,
                  legacy_last_up = None, pdp_prep = [], cdp_prep = [], rra_ptr = [], rrd_value = [], pos = 0,
                  pcdp_summary = None\<rparr>) of
        Inl e \<Rightarrow> Inl e
      | Inr (_, s) \<Rightarrow>
          if rracnt s < 1 then Inl NoArchive
          else if dscnt s < 1 then Inl NoDataSource
          else Inr (rrd_create_fn rnd fill s))"

section \<open>What the definitions guarantee\<close>

text \<open>The least number of tokens of a definition, by function.\<close>

definition token_min :: "cf_en \<Rightarrow> nat" where
  "token_min cf =
     (if cf \<in> {CF_HWPREDICT, CF_MHWPREDICT, CF_FAILURES} then 5
      else if cf \<in> {CF_DEVSEASONAL, CF_DEVPREDICT} then 3 else 4)"

definition rows_token :: "cf_en \<Rightarrow> nat" where
  "rows_token cf = (if aberrant cf then 2 else 4)"

text \<open>After \<open>k\<close> tokens: the function is known, the step positive, and so is the row count once its token has been read.\<close>

definition rp_ok :: "nat \<Rightarrow> rra_parse \<Rightarrow> bool" where
  "rp_ok k p \<longleftrightarrow>
     (\<exists>cf. cf_conv (cf_nam (rp_def p)) = Some cf \<and> rp_token_min p = token_min cf \<and>
        (rows_token cf \<le> k \<longrightarrow> 0 < row_cnt (rp_def p))) \<and>
     0 < pdp_cnt (rp_def p) \<and> rp_version p \<in> {''0003'', ''0004''}"

lemma guard_Inr [simp]: "guard ok e p = Inr q \<longleftrightarrow> ok \<and> q = p"
  by (auto simp: guard_def)

lemma u64_pos: "0 < i \<Longrightarrow> i < 2 ^ 63 \<Longrightarrow> 0 < u64 i"
  by simp

lemma s32_less: "s32 i < 2 ^ 31"
  by (simp add: s32_def)

lemma atoi_u64: "0 < atoi tok \<Longrightarrow> 0 < u64 (atoi tok)"
  using s32_less [of "atol tok"] by (intro u64_pos) (simp_all add: atoi_def)

lemma rra_token0_ok:
  assumes "rra_token0 n tok p = Inr q" and "rp_version p \<in> {''0003'', ''0004''}" and "rp_token_min p = 4"
  shows "rp_ok 1 q"
proof -
  from assms(1) obtain cf where cf: "cf_conv (take 19 (takeWhile isupper tok)) = Some cf"
    and q: "q = upd_def (\<lambda>d. d\<lparr>pdp_cnt := 1\<rparr>) (cf_defaults n cf (upd_def (\<lambda>d. d\<lparr>cf_nam := take 19 (takeWhile isupper tok)\<rparr>) p))"
    by (auto simp: rra_token0_def Let_def split: option.splits)
  show ?thesis
    using cf assms(2,3) unfolding q
    by (cases cf) (simp_all add: rp_ok_def cf_defaults_def token_min_def rows_token_def aberrant_def Let_def)
qed

lemma rra_token_ok:
  assumes "rra_token h n k tok p = Inr q" and "0 < k" and "rp_ok k p"
  shows "rp_ok (Suc k) q \<and> cf_nam (rp_def q) = cf_nam (rp_def p)"
proof -
  from assms(3) obtain cf where cf: "cf_conv (cf_nam (rp_def p)) = Some cf" and tm: "rp_token_min p = token_min cf"
    and rows: "rows_token cf \<le> k \<Longrightarrow> 0 < row_cnt (rp_def p)" and pdp: "0 < pdp_cnt (rp_def p)"
    and v: "rp_version p \<in> {''0003'', ''0004''}" by (auto simp: rp_ok_def)
  have rp: "rp_ok (Suc k) q \<and> cf_nam (rp_def q) = cf_nam (rp_def p)"
    if "cf_nam (rp_def q) = cf_nam (rp_def p)" "rp_token_min q = rp_token_min p" "0 < pdp_cnt (rp_def q)"
      "rp_version q \<in> {''0003'', ''0004''}" "rows_token cf \<le> Suc k \<longrightarrow> 0 < row_cnt (rp_def q)"
    using that cf tm by (auto simp: rp_ok_def)
  consider "k = 1" | "k = 2" | "k = 3" | "k = 4" | "k = 5" | "5 < k" using assms(2) by linarith
  then show ?thesis
  proof cases
    case 1
    with assms(1) cf have "rra_token1 cf tok p = Inr q" by (simp add: rra_token_def)
    then show ?thesis
      by (intro rp; cases cf; use pdp v in \<open>simp add: 1 rra_token1_def set_rows_def rows_token_def aberrant_def atoi_u64\<close>)
  next
    case 2
    with assms(1) cf have "rra_token2 h cf tok p = Inr q" by (simp add: rra_token_def)
    then show ?thesis
      by (intro rp; cases cf; use pdp v rows in
          \<open>auto simp: 2 rra_token2_def set_dependent_def rows_token_def aberrant_def atoi_u64 Let_def\<close>)
  next
    case 3
    with assms(1) cf have "rra_token3 cf tok p = Inr q" by (simp add: rra_token_def)
    then show ?thesis
      by (intro rp; cases cf; use pdp v rows in
          \<open>auto simp: 3 rra_token3_def set_dependent_def set_rows_def rows_token_def aberrant_def atoi_u64 Let_def split: if_splits\<close>)
  next
    case 4
    with assms(1) cf have "rra_token4 cf tok p = Inr q" by (simp add: rra_token_def)
    then show ?thesis
      by (intro rp; cases cf; use pdp v rows in
          \<open>auto simp: 4 rra_token4_def set_dependent_def rows_token_def aberrant_def Let_def split: option.splits\<close>)
  next
    case 5
    with assms(1) cf have "q = set_dependent tok p" by (simp add: rra_token_def)
    then show ?thesis
      by (intro rp; use pdp v rows 5 in \<open>simp add: set_dependent_def rows_token_def split: if_splits\<close>)
  next
    case 6
    with assms(1) cf show ?thesis by (simp add: rra_token_def)
  qed
qed

lemma rra_tokens_ok:
  assumes "rra_tokens h n k toks p = Inr q" and "0 < k" and "rp_ok k p"
  shows "rp_ok (k + length toks) q \<and> cf_nam (rp_def q) = cf_nam (rp_def p)"
  using assms
proof (induction toks arbitrary: k p)
  case Nil
  then show ?case by simp
next
  case (Cons tok toks)
  then obtain p1 where t: "rra_token h n k tok p = Inr p1" and r: "rra_tokens h n (Suc k) toks p1 = Inr q"
    by (auto split: sum.splits)
  from Cons.IH [OF r] rra_token_ok [OF t Cons.prems(2,3)] show ?case by simp
qed

lemma cf_defaults_nam [simp]: "cf_nam (rp_def (cf_defaults n cf p)) = cf_nam (rp_def p)"
  by (cases cf) (simp_all add: cf_defaults_def Let_def)

lemma rra_token0_nam: "rra_token0 n tok p = Inr q \<Longrightarrow> cf_nam (rp_def q) = take 19 (takeWhile isupper tok)"
  by (auto simp: rra_token0_def Let_def split: option.splits)

definition rra_ok :: "rra_def_t \<Rightarrow> bool" where
  "rra_ok r \<longleftrightarrow> 0 < row_cnt r \<and> 0 < pdp_cnt r \<and> cf_conv (cf_nam r) \<noteq> None"

lemma rra_tokens_rra_ok:
  assumes "rra_tokens h n 0 toks p = Inr q" and "rp_version p \<in> {''0003'', ''0004''}" and "rp_token_min p = 4"
    and "rp_token_min q \<le> length toks"
  shows "rra_ok (rp_def q) \<and> rp_version q \<in> {''0003'', ''0004''} \<and>
    cf_nam (rp_def q) = take 19 (takeWhile isupper (hd toks))"
proof (cases toks)
  case Nil
  with assms show ?thesis by simp
next
  case (Cons tok rest)
  with assms(1) obtain p1 where t: "rra_token0 n tok p = Inr p1" and r: "rra_tokens h n (Suc 0) rest p1 = Inr q"
    by (auto simp: rra_token_def split: sum.splits)
  have "rp_ok (length toks) q \<and> cf_nam (rp_def q) = take 19 (takeWhile isupper tok)"
    using rra_token0_nam [OF t] rra_tokens_ok [OF r _ rra_token0_ok [OF t assms(2,3), unfolded One_nat_def]] Cons by simp
  then obtain cf where cf: "cf_conv (cf_nam (rp_def q)) = Some cf" "rp_token_min q = token_min cf"
    "rows_token cf \<le> length toks \<Longrightarrow> 0 < row_cnt (rp_def q)" and q: "0 < pdp_cnt (rp_def q)" "rp_version q \<in> {''0003'', ''0004''}"
    and nam: "cf_nam (rp_def q) = take 19 (takeWhile isupper tok)"
    by (auto simp: rp_ok_def)
  have "rows_token cf \<le> token_min cf" by (cases cf) (simp_all add: rows_token_def token_min_def aberrant_def)
  with cf q nam Cons assms(4) show ?thesis by (simp add: rra_ok_def)
qed

text \<open>The database under construction.\<close>

definition limits_ok :: "ds_def_t \<Rightarrow> bool" where
  "limits_ok d \<longleftrightarrow> min_val d = NaN \<or> max_val d = NaN \<or> min_val d < max_val d"

definition building :: "rrd \<Rightarrow> bool" where
  "building s \<longleftrightarrow>
     length (ds_def s) = dscnt s \<and> length (rra_def s) = rracnt s \<and> list_all rra_ok (rra_def s) \<and>
     list_all (\<lambda>d. dst_conv (dst d) \<noteq> None \<and> (dst_conv (dst d) \<noteq> Some DST_CDEF \<longrightarrow> limits_ok d)) (ds_def s) \<and>
     distinct (map ds_nam (ds_def s)) \<and> version (stat_head s) \<in> {''0003'', ''0004''}"

text \<open>What no definition changes: the step and the live header.\<close>

definition same_clock :: "rrd \<Rightarrow> rrd \<Rightarrow> bool" where
  "same_clock s t \<longleftrightarrow> pdpstep t = pdpstep s \<and> live_head t = live_head s \<and> legacy_last_up t = legacy_last_up s"

lemma scan_set_Some: "scan_set n P str = Some (v, r) \<Longrightarrow> v \<noteq> []"
  by (auto simp: scan_set_def Let_def split: if_splits)

lemma parseGENERIC_DS_Inr:
  assumes "parseGENERIC_DS def i s = Inr t"
  shows "\<exists>hb mi ma. t = s\<lparr>ds_def := (ds_def s)[i := (ds_def s ! i)\<lparr>mrhb_cnt := hb, min_val := mi, max_val := ma\<rparr>]\<rparr> \<and>
    (mi = NaN \<or> ma = NaN \<or> mi < ma)"
proof -
  from assms obtain hb mi ma where
    t: "t = s\<lparr>ds_def := (ds_def s)[i := (ds_def s ! i)\<lparr>mrhb_cnt := hb, min_val := mi, max_val := ma\<rparr>]\<rparr>"
    and "\<not> (mi \<noteq> NaN \<and> ma \<noteq> NaN \<and> mi \<ge> ma)"
    by (auto simp: parseGENERIC_DS_def Let_def split: option.splits if_splits)
  then have "mi = NaN \<or> ma = NaN \<or> mi < ma" using dbl_not_less by blast
  with t show ?thesis by blast
qed

lemma parseCDEF_DS_None:
  "parseCDEF_DS str i s = (None, t) \<Longrightarrow> \<exists>cs. t = s\<lparr>ds_def := (ds_def s)[i := (ds_def s ! i)\<lparr>cdef := cs\<rparr>]\<rparr>"
  by (auto simp: parseCDEF_DS_def split: sum.splits if_splits)

lemma create_ds_building:
  assumes "create_ds str s = Inr t" and b: "building s"
  shows "building t \<and> same_clock s t"
proof -
  from b have len: "length (ds_def s) = dscnt s" by (simp add: building_def)
  define n where "n = dscnt s"
  from assms(1) obtain nam ty r where h: "scan_ds_head str = Inr (nam, ty, r)"
    by (auto simp: create_ds_def split: sum.splits)
  define d where "d = \<lparr>ds_nam = nam, dst = ty, mrhb_cnt = 0, min_val = 0, max_val = 0, cdef = []\<rparr>"
  define s1 where "s1 = s\<lparr>ds_def := ds_def s @ [d]\<rparr>"
  have tk: "take n (ds_def s) = ds_def s" using len by (simp add: n_def)
  from assms(1) have nodup: "\<not> list_ex (\<lambda>i. nam = ds_nam ((ds_def s @ [d]) ! i)) [0 ..< n]"
    by (auto simp: create_ds_def h Let_def n_def [symmetric] tk d_def s1_def split: if_splits)
  from assms(1) nodup obtain ty' s2 where ty: "dst_conv ty = Some ty'"
    and s2: "if ty' = DST_CDEF then parseCDEF_DS r n s1 = (None, s2) else parseGENERIC_DS r n s1 = Inr s2"
    and t: "t = s2\<lparr>stat_head := (stat_head s2)\<lparr>ds_cnt := n + 1\<rparr>\<rparr>"
    by (cases "dst_conv ty"; cases "the (dst_conv ty)"; cases "parseCDEF_DS r n s1"; cases "fst (parseCDEF_DS r n s1)")
       (auto simp: create_ds_def h Let_def n_def [symmetric] tk d_def [symmetric] s1_def [symmetric] split: sum.splits option.splits if_splits)
  have upd: "(ds_def s @ [d])[n := f] = ds_def s @ [f]" "(ds_def s @ [d]) ! n = d" for f
    using len by (simp_all add: n_def list_update_append nth_append)
  have "\<exists>d'. s2 = s1\<lparr>ds_def := ds_def s @ [d']\<rparr> \<and> ds_nam d' = nam \<and> dst d' = ty \<and> (ty' \<noteq> DST_CDEF \<longrightarrow> limits_ok d')"
  proof (cases "ty' = DST_CDEF")
    case True
    with s2 parseCDEF_DS_None [of r n s1 s2] obtain cs where "s2 = s1\<lparr>ds_def := ds_def s @ [d\<lparr>cdef := cs\<rparr>]\<rparr>"
      using upd by (auto simp: s1_def)
    then show ?thesis using True by (intro exI [of _ "d\<lparr>cdef := cs\<rparr>"]) (simp add: d_def)
  next
    case False
    with s2 parseGENERIC_DS_Inr [of r n s1 s2] obtain hb mi ma where
      "s2 = s1\<lparr>ds_def := ds_def s @ [d\<lparr>mrhb_cnt := hb, min_val := mi, max_val := ma\<rparr>]\<rparr>" "mi = NaN \<or> ma = NaN \<or> mi < ma"
      using upd by (auto simp: s1_def)
    then show ?thesis
      by (intro exI [of _ "d\<lparr>mrhb_cnt := hb, min_val := mi, max_val := ma\<rparr>"]) (simp add: d_def limits_ok_def)
  qed
  then obtain d' where d': "s2 = s1\<lparr>ds_def := ds_def s @ [d']\<rparr>" "ds_nam d' = nam" "dst d' = ty" "ty' \<noteq> DST_CDEF \<longrightarrow> limits_ok d'"
    by blast
  have "nam \<notin> ds_nam ` set (ds_def s)"
    using nodup len by (fastforce simp: list_ex_iff n_def in_set_conv_nth nth_append)
  with b d' ty show ?thesis
    by (auto simp: building_def t s1_def same_clock_def n_def)
qed

lemma create_ds_rras: "create_ds str s = Inr t \<Longrightarrow> rra_def t = rra_def s"
  by (auto simp: create_ds_def Let_def dest!: parseGENERIC_DS_Inr parseCDEF_DS_None
      split: sum.splits if_splits option.splits dst_en.splits prod.splits)

lemma create_hw_contingent_building:
  assumes "create_hw_contingent_rras p h s = Inr t" and "length (rra_def s) = rracnt s + 1" and "list_all rra_ok (rra_def s)"
  shows "length (rra_def t) = rracnt t + 1 \<and> list_all rra_ok (rra_def t) \<and> ds_def t = ds_def s \<and>
    dscnt t = dscnt s \<and> version (stat_head t) = version (stat_head s) \<and> same_clock s t"
proof -
  have hw: "rra_ok (rra_def s ! rracnt s)" using assms(2,3) by (auto simp: list_all_length)
  have p: "0 < p" using assms(1) by (cases "p = 0") (simp_all add: create_hw_contingent_rras_def)
  have "list_all rra_ok ((rra_def s)[rracnt s := (rra_def s ! rracnt s)\<lparr>dependent_rra_idx := rracnt s + 1\<rparr>])"
    using assms(3) hw by (auto simp: list_all_iff rra_ok_def dest!: set_update_subset_insert [THEN subsetD])
  with assms(1,2) hw p show ?thesis
    by (auto simp: create_hw_contingent_rras_def Let_def rra_ok_def rra_zero_def cf_conv_def same_clock_def)
qed

lemma create_rra_building:
  assumes "create_rra h str (p, s) = Inr (p', t)" and b: "building s"
  shows "building t \<and> same_clock s t"
proof -
  let ?toks = "strtok_tokens CHR '':'' str"
  let ?init = "\<lparr>rp_def = rra_zero, rp_token_min = 4, rp_version = version (stat_head s), rp_period = p\<rparr>"
  from assms(1) obtain q where q: "rra_tokens h (rracnt s) 0 ?toks ?init = Inr q"
    and tm: "rp_token_min q \<le> length ?toks"
    by (auto simp: create_rra_def Let_def not_less split: sum.splits if_splits)
  define s1 where "s1 = s\<lparr>rra_def := rra_def s @ [rp_def q], stat_head := (stat_head s)\<lparr>version := rp_version q\<rparr>\<rparr>"
  have tk: "take (rracnt s) (rra_def s) = rra_def s" using b by (simp add: building_def)
  have ok: "rra_ok (rp_def q)" "rp_version q \<in> {''0003'', ''0004''}"
    using rra_tokens_rra_ok [OF q _ _ tm] b by (auto simp: building_def)
  from assms(1) q tm obtain s2 where
    s2: "s2 = s1 \<or> create_hw_contingent_rras (rp_period q) h s1 = Inr s2"
    and t: "t = s2\<lparr>stat_head := (stat_head s2)\<lparr>rra_cnt := rracnt s2 + 1\<rparr>\<rparr>"
    by (auto simp: create_rra_def Let_def tk s1_def [symmetric] split: sum.splits if_splits)
  have s1: "length (rra_def s1) = rracnt s1 + 1" "list_all rra_ok (rra_def s1)" "ds_def s1 = ds_def s" "dscnt s1 = dscnt s"
    "version (stat_head s1) \<in> {''0003'', ''0004''}" "same_clock s s1"
    using b ok by (auto simp: s1_def building_def same_clock_def)
  with s2 create_hw_contingent_building [of "rp_period q" h s1 s2]
  have "length (rra_def s2) = rracnt s2 + 1 \<and> list_all rra_ok (rra_def s2) \<and> ds_def s2 = ds_def s \<and> dscnt s2 = dscnt s \<and>
     version (stat_head s2) \<in> {''0003'', ''0004''} \<and> same_clock s s2"
    by (auto simp: same_clock_def)
  with b show ?thesis by (auto simp: building_def t same_clock_def)
qed

lemma create_args_building:
  assumes "create_args h args ps = Inr (p', t)" and "building (snd ps)"
  shows "building t \<and> same_clock (snd ps) t"
  using assms
proof (induction args arbitrary: ps)
  case Nil
  then show ?case by (simp add: same_clock_def)
next
  case (Cons arg args)
  obtain p s where ps: "ps = (p, s)" by fastforce
  from Cons.prems(1) obtain ps1 where a: "create_arg h arg ps = Inr ps1" and r: "create_args h args ps1 = Inr (p', t)"
    by (auto split: sum.splits)
  obtain p1 s1 where ps1: "ps1 = (p1, s1)" by fastforce
  have "building s1 \<and> same_clock s s1"
    using a Cons.prems(2) create_ds_building create_rra_building
    by (fastforce simp: create_arg_def ps ps1 split: if_splits sum.splits)
  with Cons.IH [OF r] ps ps1 show ?case by (auto simp: same_clock_def)
qed

lemma length_init_cdps: "length (init_cdps u s rs c) = length rs * dscnt s"
  by (induction u s rs c rule: init_cdps.induct) (simp_all add: Let_def)

lemma wf_rrd_create_fn:
  assumes "building s" and "0 < pdpstep s"
  shows "wf_rrd (rrd_create_fn rnd fill s)"
  using assms
  by (auto simp: building_def wf_rrd_def rrd_create_fn_def Let_def length_init_cdps rra_ok_def list_all_length
      list_all2_conv_all_nth rra_total_def)

lemma unkn_cnt_total:
  assumes "length (rra_def s) = rracnt s" and "rra_total (dscnt s) (rra_def s) < 2 ^ 31"
  shows "unkn_cnt s = int (rra_total (dscnt s) (rra_def s))"
proof -
  have "foldl (\<lambda>n i. s32 (n + int (dscnt s * row_cnt (rra_def s ! i)))) 0 [0 ..< k] = int (rra_off s k)"
    if "k \<le> rracnt s" for k
    using that
  proof (induction k)
    case 0
    then show ?case by (simp add: rra_off_def rra_total_def)
  next
    case (Suc k)
    have "rra_off s (Suc k) \<le> rra_total (dscnt s) (rra_def s)"
      using rra_total_append [of "dscnt s" "take (Suc k) (rra_def s)" "drop (Suc k) (rra_def s)"] by (simp add: rra_off_def)
    moreover have "rra_off s (Suc k) = rra_off s k + dscnt s * row_cnt (rra_def s ! k)"
      using Suc.prems assms(1) by (simp add: rra_off_Suc mult.commute)
    ultimately show ?case using Suc assms(2) by (simp flip: of_nat_mult of_nat_add)
  qed
  from this [of "rracnt s"] show ?thesis using assms(1) by (simp add: unkn_cnt_def rra_off_def)
qed

lemma created_log:
  assumes b: "building s" and small: "rra_total (dscnt s) (rra_def s) < 2 ^ 31" and i: "i < rracnt s"
    and t: "t = rrd_create_fn rnd fill s"
  shows "rra_log t i = replicate (row_cnt (rra_def s ! i)) (replicate (dscnt s) NaN)"
proof -
  have len: "length (rra_def s) = rracnt s" using b by (simp add: building_def)
  have v: "rrd_value t = replicate (rra_total (dscnt s) (rra_def s)) NaN"
    using unkn_cnt_total [OF len small] by (simp add: t rrd_create_fn_def Let_def)
  have same: "stat_head t = stat_head s" "rra_def t = rra_def s" by (simp_all add: t rrd_create_fn_def Let_def)
  have off: "rra_off t i + row_cnt (rra_def s ! i) * dscnt s \<le> rra_total (dscnt s) (rra_def s)"
    using rra_off_mono [of i "rracnt s" s] i len by (simp add: rra_off_def same)
  have "rra_cell t i r d = NaN" if "r < row_cnt (rra_def s ! i)" "d < dscnt s" for r d
    using block_index_less [OF that] off by (simp add: rra_cell_def v same add.assoc)
  then have "rra_rows t i = replicate (row_cnt (rra_def s ! i)) (replicate (dscnt s) NaN)"
    by (intro nth_equalityI) (auto simp: rra_rows_def same intro!: nth_equalityI)
  moreover have "rotate k (replicate m x) = replicate m x" for k m and x :: "dbl list"
    by (rule nth_equalityI) (simp_all add: nth_rotate)
  ultimately show ?thesis by (simp add: rra_log_def del: rotate_Suc)
qed

text \<open>
  The SEASONAL archives that creation adds itself are linked to their forecast archive; those defined on the
  command line are linked to whatever index was given.
\<close>

definition linked :: "rra_def_t list \<Rightarrow> bool" where
  "linked rs \<longleftrightarrow> (\<forall>i < length rs. cf_nam (rs ! i) = ''SEASONAL'' \<longrightarrow>
     dependent_rra_idx (rs ! i) < length rs \<and>
     cf_nam (rs ! dependent_rra_idx (rs ! i)) \<in> {''HWPREDICT'', ''MHWPREDICT''})"

definition arg_cf :: "string \<Rightarrow> string" where
  "arg_cf arg = take 19 (takeWhile isupper (hd (strtok_tokens CHR '':'' (drop 4 arg))))"

lemma linked_append:
  assumes "linked rs" and "cf_nam r = ''SEASONAL'' \<Longrightarrow> dependent_rra_idx r < length rs \<and>
     cf_nam (rs ! dependent_rra_idx r) \<in> {''HWPREDICT'', ''MHWPREDICT''}"
  shows "linked (rs @ [r])"
  using assms by (auto simp: linked_def nth_append less_Suc_eq)

lemma linked_update:
  assumes "linked rs" and "cf_nam (rs ! n) \<noteq> ''SEASONAL''" and "cf_nam r = cf_nam (rs ! n)"
  shows "linked (rs[n := r])"
proof -
  have nam: "cf_nam (rs[n := r] ! i) = cf_nam (rs ! i)" for i
    using assms(3) by (cases "i = n"; cases "n < length rs") (simp_all add: list_update_beyond)
  have "rs[n := r] ! i = rs ! i" if "cf_nam (rs ! i) = ''SEASONAL''" for i
    using that assms(2) by (cases "i = n") simp_all
  with assms(1) show ?thesis by (simp add: linked_def nam)
qed

lemma linked_contingent:
  assumes "create_hw_contingent_rras p h s = Inr t" and "linked (rra_def s)" and len: "length (rra_def s) = rracnt s + 1"
    and hw: "cf_nam (rra_def s ! rracnt s) \<in> {''HWPREDICT'', ''MHWPREDICT''}"
  shows "linked (rra_def t)"
proof -
  define n where "n = rracnt s"
  define rs where "rs = (rra_def s)[n := (rra_def s ! n)\<lparr>dependent_rra_idx := n + 1\<rparr>]"
  have "linked rs" unfolding rs_def by (rule linked_update) (use assms(2) hw in \<open>auto simp: n_def\<close>)
  moreover have "length rs = n + 1" "cf_nam (rs ! n) \<in> {''HWPREDICT'', ''MHWPREDICT''}"
    using len hw by (auto simp: rs_def n_def)
  moreover obtain a b c d where t: "rra_def t = (((rs @ [a]) @ [b]) @ [c]) @ [d]"
    and "cf_nam a = ''SEASONAL''" "dependent_rra_idx a = n" "cf_nam b = ''DEVSEASONAL''" "cf_nam c = ''DEVPREDICT''" "cf_nam d = ''FAILURES''"
    using assms(1) by (cases "p = 0") (auto simp: create_hw_contingent_rras_def Let_def rs_def n_def rra_zero_def)
  ultimately have "linked ((((rs @ [a]) @ [b]) @ [c]) @ [d])" by (intro linked_append) simp_all
  then show ?thesis by (simp only: t)
qed

lemma create_rra_linked:
  assumes "create_rra h str (p, s) = Inr (p', t)" and b: "building s" and l: "linked (rra_def s)"
    and ns: "take 19 (takeWhile isupper (hd (strtok_tokens CHR '':'' str))) \<noteq> ''SEASONAL''"
  shows "linked (rra_def t)"
proof -
  let ?toks = "strtok_tokens CHR '':'' str"
  let ?init = "\<lparr>rp_def = rra_zero, rp_token_min = 4, rp_version = version (stat_head s), rp_period = p\<rparr>"
  from assms(1) obtain q where q: "rra_tokens h (rracnt s) 0 ?toks ?init = Inr q"
    and tm: "rp_token_min q \<le> length ?toks"
    by (auto simp: create_rra_def Let_def not_less split: sum.splits if_splits)
  define s1 where "s1 = s\<lparr>rra_def := rra_def s @ [rp_def q], stat_head := (stat_head s)\<lparr>version := rp_version q\<rparr>\<rparr>"
  have len: "length (rra_def s) = rracnt s" using b by (simp add: building_def)
  have tk: "take (rracnt s) (rra_def s) = rra_def s" using len by simp
  have nam: "cf_nam (rp_def q) \<noteq> ''SEASONAL''" using rra_tokens_rra_ok [OF q _ _ tm] b ns by (auto simp: building_def)
  have l1: "linked (rra_def s1)" using linked_append [OF l] nam by (simp add: s1_def)
  define cf where "cf = cf_conv (cf_nam (rp_def q))"
  from assms(1) q tm obtain s2 where
    s2: "s2 = s1 \<or> (cf = Some CF_HWPREDICT \<or> cf = Some CF_MHWPREDICT) \<and> create_hw_contingent_rras (rp_period q) h s1 = Inr s2"
    and t: "t = s2\<lparr>stat_head := (stat_head s2)\<lparr>rra_cnt := rracnt s2 + 1\<rparr>\<rparr>"
    by (auto simp: create_rra_def Let_def tk s1_def [symmetric] cf_def [symmetric] split: sum.splits if_splits)
  have "cf = Some CF_HWPREDICT \<or> cf = Some CF_MHWPREDICT \<Longrightarrow> cf_nam (rp_def q) \<in> {''HWPREDICT'', ''MHWPREDICT''}"
    by (auto simp: cf_def cf_conv_def split: if_splits)
  then have "linked (rra_def s2)"
    using s2 l1 linked_contingent [of "rp_period q" h s1 s2] len by (auto simp: s1_def nth_append)
  with t show ?thesis by simp
qed

lemma create_args_linked:
  assumes "create_args h args ps = Inr (p', t)" and "building (snd ps)" and "linked (rra_def (snd ps))"
    and "\<forall>a \<in> set args. take 4 a = ''RRA:'' \<longrightarrow> arg_cf a \<noteq> ''SEASONAL''"
  shows "linked (rra_def t)"
  using assms
proof (induction args arbitrary: ps)
  case Nil
  then show ?case by simp
next
  case (Cons arg args)
  obtain p s where ps: "ps = (p, s)" by fastforce
  from Cons.prems(1) obtain p1 s1 where a: "create_arg h arg (p, s) = Inr (p1, s1)"
    and r: "create_args h args (p1, s1) = Inr (p', t)"
    by (auto simp: ps split: sum.splits)
  have "building s1" using create_args_building [of h "[arg]" "(p, s)" p1 s1] a Cons.prems(2) by (simp add: ps)
  moreover have "linked (rra_def s1)"
  proof (cases "take 3 arg = ''DS:''")
    case True
    then have "create_ds (drop 3 arg) s = Inr s1" using a by (auto simp: create_arg_def split: sum.splits)
    then have "rra_def s1 = rra_def s" by (rule create_ds_rras)
    with Cons.prems(3) show ?thesis by (simp add: ps)
  next
    case False
    with a have "take 4 arg = ''RRA:''" "create_rra h (drop 4 arg) (p, s) = Inr (p1, s1)"
      by (auto simp: create_arg_def split: if_splits)
    with Cons.prems(2-4) create_rra_linked show ?thesis by (simp add: ps arg_cf_def)
  qed
  ultimately show ?case using Cons.IH [OF r] Cons.prems(4) by simp
qed

lemma linked_seasonal_deps: "linked (rra_def s) \<Longrightarrow> length (rra_def s) = rracnt s \<Longrightarrow> seasonal_deps s"
  by (auto simp: seasonal_deps_def linked_def hw_dep_cf_def hw_dep_idx_def cf_conv_def split: if_splits)

definition blank :: "nat \<Rightarrow> int \<Rightarrow> rrd" where
  "blank step t = \<lparr>stat_head = \<lparr>version = ''0003'', ds_cnt = 0, rra_cnt = 0, pdp_step = step\<rparr>,
     ds_def = [], rra_def = [], live_head = \<lparr>last_up = t, last_up_usec = 0\<rparr>, legacy_last_up = None,
     pdp_prep = [], cdp_prep = [], rra_ptr = [], rrd_value = [], pos = 0, pcdp_summary = None\<rparr>"

lemma building_blank: "building (blank step t)"
  by (simp add: blank_def building_def)

lemma rrd_create_r_Inr:
  assumes "rrd_create_r rnd fill name step t args = Inr s"
  shows "\<exists>b. building b \<and> same_clock (blank step t) b \<and> 0 < dscnt b \<and> 0 < rracnt b \<and> s = rrd_create_fn rnd fill b"
proof -
  from assms obtain p b where a: "create_args (FnvHash name) args (0, blank step t) = Inr (p, b)"
    and "\<not> rracnt b < 1" "\<not> dscnt b < 1" "s = rrd_create_fn rnd fill b"
    by (auto simp: rrd_create_r_def blank_def split: sum.splits if_splits)
  with create_args_building [OF a] building_blank show ?thesis by auto
qed

lemma create_rra_plain_eq:
  assumes "building s" and "cf_conv cf = Some c" and "\<not> aberrant c"
    and "\<forall>t \<in> {x, k, n}. t \<noteq> [] \<and> CHR '':'' \<notin> set t"
  shows "create_rra h (join_with CHR '':'' [cf, x, k, n]) (p, s) =
    (if atof x < 0 \<or> atof x \<ge> 1 then Inl InvalidXff
     else if atoi k < 1 then Inl InvalidStep
     else if atoi n \<le> 0 then Inl InvalidRowCount
     else Inr (p, s\<lparr>rra_def := rra_def s @
                     [rra_zero\<lparr>cf_nam := cf, cdp_xff_val := atof x, pdp_cnt := nat (atoi k), row_cnt := nat (atoi n)\<rparr>],
                   stat_head := (stat_head s)\<lparr>rra_cnt := rracnt s + 1\<rparr>\<rparr>))"
proof -
  have cf: "cf \<in> {''AVERAGE'', ''MIN'', ''MAX'', ''LAST''}"
    using assms(2,3) by (auto simp: cf_conv_def aberrant_def split: if_splits)
  then have up: "take 19 (takeWhile isupper cf) = cf" "cf \<noteq> []" "CHR '':'' \<notin> set cf"
    by (auto simp: isupper_def code_def)
  have toks: "strtok_tokens CHR '':'' (join_with CHR '':'' [cf, x, k, n]) = [cf, x, k, n]"
    using split_join [of "[cf, x, k, n]" "CHR '':''"] up assms(4) by (simp add: strtok_tokens_def)
  have c: "c \<in> {CF_AVERAGE, CF_MINIMUM, CF_MAXIMUM, CF_LAST}"
    using assms(3) by (cases c) (simp_all add: aberrant_def)
  have ne: "c \<noteq> CF_HWPREDICT" "c \<noteq> CF_MHWPREDICT" "c \<noteq> CF_DEVSEASONAL" "c \<noteq> CF_SEASONAL" "c \<noteq> CF_DEVPREDICT" "c \<noteq> CF_FAILURES"
    using assms(3) by (auto simp: aberrant_def)
  have d: "cf_defaults i c q = q" for i q using c by (auto simp: cf_defaults_def Let_def)
  have u: "u64 (atoi t) = nat (atoi t)" if "0 < atoi t" for t
    using that s32_less [of "atol t"] by (simp add: atoi_def)
  have len: "take (rracnt s) (rra_def s) = rra_def s" using assms(1) by (simp add: building_def)
  define i where "i = \<lparr>rp_def = rra_zero, rp_token_min = 4, rp_version = version (stat_head s), rp_period = p\<rparr>"
  define q where "q = upd_def (\<lambda>d. d\<lparr>cf_nam := cf, cdp_xff_val := atof x, pdp_cnt := nat (atoi k), row_cnt := nat (atoi n)\<rparr>) i"
  have T: "rra_tokens h (rracnt s) 0 [cf, x, k, n] i =
    (if atof x < 0 \<or> atof x \<ge> 1 then Inl InvalidXff else if atoi k < 1 then Inl InvalidStep
     else if atoi n \<le> 0 then Inl InvalidRowCount else Inr q)"
    using assms(2,3) up u [of k] u [of n]
    by (simp add: ne rra_token_def rra_token0_def rra_token1_def rra_token2_def rra_token3_def set_rows_def guard_def d q_def Let_def)
  have "cf_conv (cf_nam (rp_def q)) = Some c" "rp_token_min q = 4" "rp_version q = version (stat_head s)" "rp_period q = p"
    "rp_def q = rra_zero\<lparr>cf_nam := cf, cdp_xff_val := atof x, pdp_cnt := nat (atoi k), row_cnt := nat (atoi n)\<rparr>"
    using assms(2) by (simp_all add: q_def i_def)
  then show ?thesis
    unfolding create_rra_def prod.case toks Let_def i_def [symmetric] T len by (simp add: ne)
qed

lemma wf_rrd_create_r: "0 < step \<Longrightarrow> rrd_create_r rnd fill name step t args = Inr s \<Longrightarrow> wf_rrd s"
  by (drule rrd_create_r_Inr) (auto simp: same_clock_def blank_def intro!: wf_rrd_create_fn)

lemma rrd_create_r_linked:
  assumes "rrd_create_r rnd fill name step t args = Inr s"
    and "\<forall>a \<in> set args. take 4 a = ''RRA:'' \<longrightarrow> arg_cf a \<noteq> ''SEASONAL''"
  shows "seasonal_deps s"
proof -
  from assms(1) obtain p b where a: "create_args (FnvHash name) args (0, blank step t) = Inr (p, b)"
    and s: "s = rrd_create_fn rnd fill b"
    by (auto simp: rrd_create_r_def blank_def split: sum.splits if_splits)
  have "linked (rra_def b)"
    by (rule create_args_linked [OF a _ _ assms(2)]) (simp_all add: building_blank, simp add: blank_def linked_def)
  moreover have "length (rra_def b) = rracnt b" using create_args_building [OF a] building_blank by (simp add: building_def)
  ultimately have "seasonal_deps b" by (rule linked_seasonal_deps)
  then show ?thesis by (subst seasonal_deps_cong [of _ b]) (simp_all add: s rrd_create_fn_def Let_def)
qed

section \<open>A sample definition\<close>

definition demo_args :: "string list" where
  "demo_args = [''DS:in:GAUGE:2:U:U'', ''RRA:AVERAGE:0.5:1:3'']"

definition demo_ds :: rrd where
  "demo_ds = (blank 2 5)\<lparr>stat_head := (stat_head (blank 2 5))\<lparr>ds_cnt := 1\<rparr>,
     ds_def := [\<lparr>ds_nam = ''in'', dst = ''GAUGE'', mrhb_cnt = 2, min_val = NaN, max_val = NaN, cdef = []\<rparr>]\<rparr>"

definition demo_built :: rrd where
  "demo_built = demo_ds\<lparr>rra_def := [rra_zero\<lparr>cf_nam := ''AVERAGE'', cdp_xff_val := atof ''0.5'', pdp_cnt := 1, row_cnt := 3\<rparr>],
     stat_head := (stat_head demo_ds)\<lparr>rra_cnt := 1\<rparr>\<rparr>"

lemma demo_create_ds: "create_ds ''in:GAUGE:2:U:U'' (blank 2 5) = Inr demo_ds"
  by code_simp

lemma demo_ds_simps: "building demo_ds" "rracnt demo_ds = 0" "rra_def demo_ds = []" "dscnt demo_ds = 1"
  by (simp_all add: demo_ds_def building_def blank_def dst_conv_def limits_ok_def)

lemma demo_tokens: "atoi ''1'' = 1" "atoi ''3'' = 3" "\<not> (atof ''0.5'' < 0 \<or> atof ''0.5'' \<ge> 1)"
  by code_simp+

lemma demo_create_rra: "create_rra h ''AVERAGE:0.5:1:3'' (0, demo_ds) = Inr (0, demo_built)"
proof -
  have "create_rra h (join_with CHR '':'' [''AVERAGE'', ''0.5'', ''1'', ''3'']) (0, demo_ds) = Inr (0, demo_built)"
    by (subst create_rra_plain_eq [where c = CF_AVERAGE])
       (use demo_tokens in \<open>simp_all add: demo_ds_simps cf_conv_def aberrant_def demo_built_def\<close>)
  then show ?thesis by simp
qed

lemma demo_create: "rrd_create_r rnd fill name 2 5 demo_args = Inr (rrd_create_fn rnd fill demo_built)"
  using demo_create_ds demo_create_rra
  by (simp add: rrd_create_r_def demo_args_def create_arg_def demo_built_def demo_ds_simps flip: blank_def)

section \<open>Properties\<close>

text \<open>
  C8: A database that creation delivers is usable: it is well-formed, has at least one archive and one data
  source, no two data sources share a name, every range of a data source is unbounded or not empty, and as long
  as its archives hold fewer than \<open>2 ^ 31\<close> values every row of every archive is unknown.
\<close>

theorem rrd_create_r_wf:
  assumes "0 < step" and "rrd_create_r rnd fill name step t args = Inr s"
  shows "wf_rrd s \<and> pdpstep s = step \<and> last_up (live_head s) = t \<and> 0 < dscnt s \<and> 0 < rracnt s \<and>
    distinct (map ds_nam (ds_def s)) \<and>
    (\<forall>d \<in> set (ds_def s). dst_conv (dst d) \<noteq> Some DST_CDEF \<longrightarrow> limits_ok d) \<and>
    (rra_total (dscnt s) (rra_def s) < 2 ^ 31 \<longrightarrow>
       (\<forall>i < rracnt s. rra_log s i = replicate (row_cnt (rra_def s ! i)) (replicate (dscnt s) NaN)))"
proof -
  from rrd_create_r_Inr [OF assms(2)] obtain b where b: "building b" "same_clock (blank step t) b" "0 < dscnt b" "0 < rracnt b"
    and s: "s = rrd_create_fn rnd fill b" by blast
  have c: "pdpstep b = step" "last_up (live_head b) = t" using b(2) by (simp_all add: same_clock_def blank_def)
  have same: "stat_head s = stat_head b" "ds_def s = ds_def b" "rra_def s = rra_def b" "live_head s = live_head b"
    by (simp_all add: s rrd_create_fn_def Let_def)
  have "wf_rrd s" unfolding s by (rule wf_rrd_create_fn) (use b c assms(1) in simp_all)
  with b c created_log [OF b(1) _ _ s] show ?thesis
    unfolding same by (auto simp: building_def list_all_iff)
qed

theorem rrd_create_r_wf_witness:
  "\<exists>s. rrd_create_r (\<lambda>_. 7) 0 ''a.rrd'' 2 5 demo_args = Inr s \<and> wf_rrd s \<and> rra_log s 0 = [[NaN], [NaN], [NaN]]"
proof -
  define s where "s = rrd_create_fn (\<lambda>_. 7) 0 demo_built"
  have same: "stat_head s = stat_head demo_built" "rra_def s = rra_def demo_built"
    by (simp_all add: s_def rrd_create_fn_def Let_def)
  have "dscnt s = 1" "rracnt s = 1" "row_cnt (rra_def s ! 0) = 3" "rra_total (dscnt s) (rra_def s) = 3"
    by (simp_all add: same demo_built_def demo_ds_simps rra_total_def)
  moreover have "rrd_create_r (\<lambda>_. 7) 0 ''a.rrd'' 2 5 demo_args = Inr s" by (simp add: demo_create s_def)
  ultimately show ?thesis
    using rrd_create_r_wf [of 2 "\<lambda>_. 7" 0 "''a.rrd''" 5 demo_args s] by (auto simp: numeral_3_eq_3)
qed



text \<open>
  The definition of an archive of one of the four plain functions is read token by token: it is refused for
  a share of unknown values outside \<open>[0, 1)\<close>, for fewer than one step per row and for fewer than one row, and
  accepted with exactly these parameters otherwise.
\<close>

theorem create_rra_plain:
  assumes "building s" and "cf_conv cf = Some c" and "\<not> aberrant c"
    and "\<forall>t \<in> {x, k, n}. t \<noteq> [] \<and> CHR '':'' \<notin> set t"
  shows "create_rra h (join_with CHR '':'' [cf, x, k, n]) (p, s) =
    (if atof x < 0 \<or> atof x \<ge> 1 then Inl InvalidXff
     else if atoi k < 1 then Inl InvalidStep
     else if atoi n \<le> 0 then Inl InvalidRowCount
     else Inr (p, s\<lparr>rra_def := rra_def s @
                     [rra_zero\<lparr>cf_nam := cf, cdp_xff_val := atof x, pdp_cnt := nat (atoi k), row_cnt := nat (atoi n)\<rparr>],
                   stat_head := (stat_head s)\<lparr>rra_cnt := rracnt s + 1\<rparr>\<rparr>))"
  using assms by (rule create_rra_plain_eq)

theorem create_rra_plain_witness:
  "create_rra 3 (join_with CHR '':'' [''AVERAGE'', ''0.5'', ''0'', ''3'']) (0, demo_ds) = Inl InvalidStep"
proof -
  have "atoi ''0'' = 0" by code_simp
  then show ?thesis
    using create_rra_plain [of demo_ds "''AVERAGE''" CF_AVERAGE "''0.5''" "''0''" "''3''" 3 0] demo_tokens(3)
    by (simp add: demo_ds_simps cf_conv_def aberrant_def)
qed

end
