(* ===== verification/Parsetime.thy ===== *)
theory Parsetime
  imports Rpn
begin

text \<open>
  Time specifications (\<open>rrd_parsetime.c\<close>): the scanner, the time of day, the dates, the offsets, the parser of a
  whole specification, and \<open>rrd_proc_start_end\<close>, which resolves a pair of specifications.

  \<open>localtime\<close> and \<open>mktime\<close> depend on the time zone of the process and are arguments of the model. The fields of
  \<open>struct tm\<close> are of type \<open>int\<close>; where the source computes with them the wrap-around of 32 bits is written out.
\<close>

section \<open>Tokens\<close>

datatype tokid =
    MIDNIGHT | NOON | TEATIME
  | PM | AM | YESTERDAY | TODAY | TOMORROW | NOW | START | END | EPOCH
  | SECONDS | MINUTES | HOURS | DAYS | WEEKS | MONTHS | YEARS
  | MONTHS_MINUTES
  | NUMBER | PLUS | MINUS | DOT | COLON | SLASH | ID
  | MONTH nat
  | WDAY nat
  | TOK_EOF

text \<open>\<open>MONTH k\<close> stands for \<open>JAN + k\<close>, \<open>WDAY k\<close> for \<open>SUN + k\<close>.\<close>

definition VariousWords :: "(string \<times> tokid) list" where
  "VariousWords =
     [(''midnight'', MIDNIGHT), (''noon'', NOON), (''teatime'', TEATIME), (''am'', AM), (''pm'', PM),
      (''tomorrow'', TOMORROW), (''yesterday'', YESTERDAY), (''today'', TODAY), (''now'', NOW), (''n'', NOW),
      (''start'', START), (''s'', START), (''end'', END), (''e'', END), (''epoch'', EPOCH),
      (''jan'', MONTH 0), (''feb'', MONTH 1), (''mar'', MONTH 2), (''apr'', MONTH 3), (''may'', MONTH 4),
      (''jun'', MONTH 5), (''jul'', MONTH 6), (''aug'', MONTH 7), (''sep'', MONTH 8), (''oct'', MONTH 9),
      (''nov'', MONTH 10), (''dec'', MONTH 11),
      (''january'', MONTH 0), (''february'', MONTH 1), (''march'', MONTH 2), (''april'', MONTH 3),
      (''may'', MONTH 4), (''june'', MONTH 5), (''july'', MONTH 6), (''august'', MONTH 7),
      (''september'', MONTH 8), (''october'', MONTH 9), (''november'', MONTH 10), (''december'', MONTH 11),
      (''sunday'', WDAY 0), (''sun'', WDAY 0), (''monday'', WDAY 1), (''mon'', WDAY 1), (''tuesday'', WDAY 2),
      (''tue'', WDAY 2), (''wednesday'', WDAY 3), (''wed'', WDAY 3), (''thursday'', WDAY 4), (''thu'', WDAY 4),
      (''friday'', WDAY 5), (''fri'', WDAY 5), (''saturday'', WDAY 6), (''sat'', WDAY 6)]"

definition TimeMultipliers :: "(string \<times> tokid) list" where
  "TimeMultipliers =
     [(''second'', SECONDS), (''seconds'', SECONDS), (''sec'', SECONDS), (''s'', SECONDS),
      (''minute'', MINUTES), (''minutes'', MINUTES), (''min'', MINUTES), (''m'', MONTHS_MINUTES),
      (''hour'', HOURS), (''hours'', HOURS), (''hr'', HOURS), (''h'', HOURS),
      (''day'', DAYS), (''days'', DAYS), (''d'', DAYS),
      (''week'', WEEKS), (''weeks'', WEEKS), (''wk'', WEEKS), (''w'', WEEKS),
      (''month'', MONTHS), (''months'', MONTHS), (''mon'', MONTHS),
      (''year'', YEARS), (''years'', YEARS), (''yr'', YEARS), (''y'', YEARS)]"

section \<open>The scanner\<close>

text \<open>
  The file scope variables; \<open>sc_args\<close> are the \<open>scc\<close> arguments behind \<open>scp\<close>. \<open>pm_op\<close> and \<open>pm_prev\<close> are the static
  variables of \<open>plus_minus\<close>, with \<open>None\<close> for the multiplier \<open>-1\<close>.
\<close>

record scanner =
  Specials :: "(string \<times> tokid) list"
  sc_args :: "string list"
  sct :: string
  need :: bool
  sc_token :: string
  sc_tokid :: tokid
  pm_op :: tokid
  pm_prev :: "tokid option"

definition mystrcasecmp :: "string \<Rightarrow> string \<Rightarrow> bool" where
  "mystrcasecmp s1 s2 \<longleftrightarrow> map lower s1 = map lower s2"

fun parse_token :: "(string \<times> tokid) list \<Rightarrow> string \<Rightarrow> tokid" where
  "parse_token [] arg = ID"
| "parse_token ((name, v) # sp) arg = (if mystrcasecmp name arg then v else parse_token sp arg)"

definition init_scanner :: "string \<Rightarrow> scanner" where
  "init_scanner tspec = \<lparr>Specials = VariousWords, sc_args = [tspec], sct = [], need = True, sc_token = [],
     sc_tokid = TOK_EOF, pm_op = PLUS, pm_prev = None\<rparr>"

definition tok_skip :: "char \<Rightarrow> bool" where
  "tok_skip c \<longleftrightarrow> isspace c \<or> c = CHR ''_'' \<or> c = CHR '',''"

text \<open>A token that starts with \<open>c\<close>, in front of \<open>cs\<close>.\<close>

definition lex_token :: "char \<Rightarrow> string \<Rightarrow> scanner \<Rightarrow> scanner" where
  "lex_token c cs s =
     (if is_digit c
      then s\<lparr>sc_token := c # takeWhile is_digit cs, sct := dropWhile is_digit cs, sc_tokid := NUMBER\<rparr>
      else if isalpha c
      then (let w = c # takeWhile isalpha cs
            in s\<lparr>sc_token := w, sct := dropWhile isalpha cs, sc_tokid := parse_token (Specials s) w\<rparr>)
      else case map_of [(CHR '':'', COLON), (CHR ''.'', DOT), (CHR ''+'', PLUS), (CHR ''-'', MINUS), (CHR ''/'', SLASH)] c of
             Some t \<Rightarrow> s\<lparr>sc_token := [c], sct := cs, sc_tokid := t\<rparr>
           | None \<Rightarrow> s\<lparr>sc_token := [c], sct := c # cs, sc_tokid := TOK_EOF\<rparr>)"

fun token_args :: "string list \<Rightarrow> scanner \<Rightarrow> scanner" where
  "token_args [] s = s\<lparr>sc_args := []\<rparr>"
| "token_args (a # as) s =
     (case dropWhile tok_skip a of
        [] \<Rightarrow> token_args as (s\<lparr>sct := []\<rparr>)
      | c # cs \<Rightarrow> lex_token c cs (s\<lparr>sc_args := as, need := False\<rparr>))"

definition token :: "scanner \<Rightarrow> scanner" where
  "token s =
     (let s = s\<lparr>sc_token := [], sc_tokid := TOK_EOF\<rparr> in
      if need s then token_args (sc_args s) s
      else case dropWhile tok_skip (sct s) of
             [] \<Rightarrow> token_args (sc_args s) (s\<lparr>sct := [], need := True\<rparr>)
           | c # cs \<Rightarrow> lex_token c cs s)"

datatype time_error =
    ExpectNumber | ExpectMinutes | MinutesRange | AmPmHours | InvalidYear | BeforeEpoch | ExpectDayOfMonth
  | ExpectSecondNumber | ExpectYear | MonthRange | DayRange | RelativeNeedsOffset | NowNeedsOffset
  | UnparsableTime | TrailingText | TimeIncorrect

definition expect2 :: "tokid \<Rightarrow> time_error \<Rightarrow> scanner \<Rightarrow> time_error + scanner" where
  "expect2 desired err s = (let s = token s in if sc_tokid s \<noteq> desired then Inl err else Inr s)"

section \<open>Broken-down times\<close>

record tm =
  tm_sec :: int
  tm_min :: int
  tm_hour :: int
  tm_mday :: int
  tm_mon :: int
  tm_year :: int
  tm_wday :: int
  tm_isdst :: int

datatype timetype = ABSOLUTE_TIME | RELATIVE_TO_START_TIME | RELATIVE_TO_END_TIME | RELATIVE_TO_EPOCH

record time_value =
  tv_type :: timetype
  tv_offset :: int
  tv_tm :: tm

abbreviation upd_tm :: "(tm \<Rightarrow> tm) \<Rightarrow> time_value \<Rightarrow> time_value" where
  "upd_tm f v \<equiv> v\<lparr>tv_tm := f (tv_tm v)\<rparr>"

text \<open>The environment: the current time, and the C library under the time zone of the process.\<close>

record time_env =
  te_now :: int
  localtime :: "int \<Rightarrow> tm"
  mktime :: "tm \<Rightarrow> int \<times> tm"

section \<open>Offsets\<close>

text \<open>A lone \<open>m\<close> means months or minutes, by the unit before it or by the number in front of it.\<close>

definition guess_m :: "tokid option \<Rightarrow> int \<Rightarrow> tokid" where
  "guess_m prev delta =
     (case prev of
        Some DAYS \<Rightarrow> MONTHS | Some WEEKS \<Rightarrow> MONTHS | Some MONTHS \<Rightarrow> MONTHS | Some YEARS \<Rightarrow> MONTHS
      | Some SECONDS \<Rightarrow> MINUTES | Some MINUTES \<Rightarrow> MINUTES | Some HOURS \<Rightarrow> MINUTES
      | _ \<Rightarrow> if delta < 6 then MONTHS else MINUTES)"

text \<open>The effect of one offset.\<close>

definition apply_offset :: "tokid \<Rightarrow> tokid \<Rightarrow> int \<Rightarrow> time_value \<Rightarrow> time_value" where
  "apply_offset opn unit delta v =
     (let sg = (\<lambda>d. if opn = PLUS then d else s32 (- d)) in
      case unit of
        YEARS \<Rightarrow> upd_tm (\<lambda>t. t\<lparr>tm_year := s32 (tm_year t + sg delta)\<rparr>) v
      | MONTHS \<Rightarrow> upd_tm (\<lambda>t. t\<lparr>tm_mon := s32 (tm_mon t + sg delta)\<rparr>) v
      | WEEKS \<Rightarrow> upd_tm (\<lambda>t. t\<lparr>tm_mday := s32 (tm_mday t + sg (s32 (delta * 7)))\<rparr>) v
      | DAYS \<Rightarrow> upd_tm (\<lambda>t. t\<lparr>tm_mday := s32 (tm_mday t + sg delta)\<rparr>) v
      | HOURS \<Rightarrow> v\<lparr>tv_offset := s64 (tv_offset v + s32 (s32 (sg delta * 60) * 60))\<rparr>
      | MINUTES \<Rightarrow> v\<lparr>tv_offset := s64 (tv_offset v + s32 (sg delta * 60))\<rparr>
      | _ \<Rightarrow> v\<lparr>tv_offset := s64 (tv_offset v + sg delta)\<rparr>)"

text \<open>A sign is followed by a number; without one (\<open>PREVIOUS_OP\<close>) the number has been read already.\<close>

definition pm_number :: "tokid option \<Rightarrow> scanner \<Rightarrow> time_error + scanner" where
  "pm_number doop s =
     (case doop of
        Some opn \<Rightarrow>
          (case expect2 NUMBER ExpectNumber (s\<lparr>pm_op := opn\<rparr>) of
             Inl e \<Rightarrow> Inl e
           | Inr s \<Rightarrow> Inr (s\<lparr>pm_prev := None\<rparr>))
      | None \<Rightarrow> Inr s)"

definition pm_unit :: "int \<Rightarrow> scanner \<Rightarrow> scanner" where
  "pm_unit delta s =
     (let s = token s;
          s = (if sc_tokid s = MONTHS_MINUTES then s\<lparr>sc_tokid := guess_m (pm_prev s) delta\<rparr> else s)
      in s\<lparr>pm_prev := Some (sc_tokid s)\<rparr>)"

definition plus_minus :: "tokid option \<Rightarrow> time_value \<times> scanner \<Rightarrow> time_error + time_value \<times> scanner" where
  "plus_minus doop vs =
     (case pm_number doop (snd vs) of
        Inl e \<Rightarrow> Inl e
      | Inr s \<Rightarrow>
          let delta = atoi (sc_token s);
              s = pm_unit delta s
          in Inr (apply_offset (pm_op s) (sc_tokid s) delta (fst vs), s))"

section \<open>Time of day and date\<close>

text \<open>
  When the number turns out not to be a time, the scanner goes back behind it. \<open>scc\<close>, which the source restores
  as well, cannot have changed, as there is one argument only; \<open>need\<close> is not restored.
\<close>

definition tod :: "time_value \<times> scanner \<Rightarrow> time_error + time_value \<times> scanner" where
  "tod vs =
     (case vs of (v, s0) \<Rightarrow>
      if length (sc_token s0) > 2 then Inr (v, s0)
      else
        let hour = atoi (sc_token s0);
            s = token s0;
            back = (\<lambda>h s. s\<lparr>sct := sct s0, sc_tokid := sc_tokid s0, sc_token := sprint_d h\<rparr>)
        in if sc_tokid s = SLASH \<or> sc_tokid s = DOT then Inr (v, back hour s)
           else
             (case (if sc_tokid s = COLON
                    then (case expect2 NUMBER ExpectMinutes s of
                            Inl e \<Rightarrow> Inl e
                          | Inr s \<Rightarrow>
                              if atoi (sc_token s) > 59 then Inl MinutesRange else Inr (atoi (sc_token s), token s))
                    else Inr (0, s)) of
                Inl e \<Rightarrow> Inl e
              | Inr (minute, s) \<Rightarrow>
                  let finish = (\<lambda>hour s.
                        let v = upd_tm (\<lambda>t. t\<lparr>tm_hour := hour, tm_min := minute, tm_sec := 0\<rparr>) v
                        in Inr (if hour = 24 then upd_tm (\<lambda>t. t\<lparr>tm_hour := 0, tm_mday := s32 (tm_mday t + 1)\<rparr>) v else v, s))
                  in if sc_tokid s = AM \<or> sc_tokid s = PM
                     then (if hour > 12 then Inl AmPmHours
                           else if sc_tokid s = PM then finish (if hour \<noteq> 12 then hour + 12 else hour) (token s)
                           else finish (if hour = 12 then 0 else hour) (token s))
                     else if hour > 23 then Inr (v, back hour s)
                     else finish hour s))"

definition assign_date :: "time_value \<Rightarrow> int \<Rightarrow> int \<Rightarrow> int \<Rightarrow> time_error + time_value" where
  "assign_date v mday mon year =
     (case (if year > 138 then (if year > 1970 then Inr (year - 1900) else Inl InvalidYear)
            else if year \<ge> 0 \<and> year < 38 then Inr (year + 100) else Inr year) of
        Inl e \<Rightarrow> Inl e
      | Inr year \<Rightarrow>
          if year < 70 then Inl BeforeEpoch
          else Inr (upd_tm (\<lambda>t. t\<lparr>tm_mday := s32 mday, tm_mon := s32 mon, tm_year := s32 year\<rparr>) v))"

text \<open>The numeric dates \<open>YYYYMMDD\<close>, \<open>MM/DD[/YY]\<close> and \<open>DD.MM[.YY]\<close>.\<close>

definition day_number :: "time_env \<Rightarrow> time_value \<times> scanner \<Rightarrow> time_error + time_value \<times> scanner" where
  "day_number env vs =
     (case vs of (v, s) \<Rightarrow>
      let num = atol (sc_token s) in
      if num > 10 * 365 * 24 * 60 * 60 then Inr (v\<lparr>tv_tm := localtime env num\<rparr>, token s)
      else
        (case (if num > 19700101 \<and> num < 24000101
               then (let t = sc_token s
                     in Inr (atol (take 2 (drop 6 t)), atol (take 2 (drop 4 t)), atol (take 4 t), token s))
               else
                 let s = token s; sep = sc_tokid s in
                 if num \<le> 31 \<and> (sep = SLASH \<or> sep = DOT)
                 then (case expect2 NUMBER ExpectSecondNumber s of
                         Inl e \<Rightarrow> Inl e
                       | Inr s \<Rightarrow>
                           let second = atol (sc_token s);
                               s = token s
                           in (case (if sc_tokid s = sep
                                     then (case expect2 NUMBER ExpectYear s of
                                             Inl e \<Rightarrow> Inl e
                                           | Inr s \<Rightarrow> Inr (atol (sc_token s), token s))
                                     else Inr (tm_year (tv_tm v), s)) of
                                 Inl e \<Rightarrow> Inl e
                               | Inr (year, s) \<Rightarrow>
                                   if sep = DOT then Inr (num, second, year, s) else Inr (second, num, year, s)))
                 else Inr (0, num, tm_year (tv_tm v), s)) of
           Inl e \<Rightarrow> Inl e
         | Inr (mday, mon, year, s) \<Rightarrow>
             let mon = mon - 1 in
             if mon < 0 \<or> mon > 11 then Inl MonthRange
             else if mday < 1 \<or> mday > 31 then Inl DayRange
             else (case assign_date v mday mon year of Inl e \<Rightarrow> Inl e | Inr v \<Rightarrow> Inr (v, s))))"

definition day :: "time_env \<Rightarrow> time_value \<times> scanner \<Rightarrow> time_error + time_value \<times> scanner" where
  "day env vs =
     (case vs of (v, s) \<Rightarrow>
      case sc_tokid s of
        YESTERDAY \<Rightarrow> Inr (upd_tm (\<lambda>t. t\<lparr>tm_mday := s32 (tm_mday t - 1)\<rparr>) v, token s)
      | TODAY \<Rightarrow> Inr (v, token s)
      | TOMORROW \<Rightarrow> Inr (upd_tm (\<lambda>t. t\<lparr>tm_mday := s32 (tm_mday t + 1)\<rparr>) v, token s)
      | MONTH mon \<Rightarrow>
          (case expect2 NUMBER ExpectDayOfMonth s of
             Inl e \<Rightarrow> Inl e
           | Inr s \<Rightarrow>
               let mday = atol (sc_token s);
                   s = token s;
                   (year, s) = (if sc_tokid s = NUMBER then (atol (sc_token s), token s) else (tm_year (tv_tm v), s))
               in (case assign_date v mday (int mon) year of Inl e \<Rightarrow> Inl e | Inr v \<Rightarrow> Inr (v, s)))
      | WDAY wday \<Rightarrow>
          Inr (upd_tm (\<lambda>t. t\<lparr>tm_mday := s32 (tm_mday t + (int wday - tm_wday t))\<rparr>) v, token s)
      | NUMBER \<Rightarrow> day_number env (v, s)
      | _ \<Rightarrow> Inr (v, s))"

section \<open>A whole specification\<close>

text \<open>What is left to scan, and that a token other than the end was taken from it.\<close>

definition rest_len :: "scanner \<Rightarrow> nat" where
  "rest_len s = (if need s then 0 else length (sct s)) + sum_list (map length (sc_args s))"

lemma rest_len_upd [simp]:
  "rest_len (s\<lparr>sc_tokid := t\<rparr>) = rest_len s" "rest_len (s\<lparr>pm_prev := q\<rparr>) = rest_len s" "rest_len (s\<lparr>pm_op := t\<rparr>) = rest_len s"
  "rest_len (s\<lparr>sc_token := w\<rparr>) = rest_len s" "rest_len (s\<lparr>Specials := sp\<rparr>) = rest_len s"
  by (simp_all add: rest_len_def)

lemma lex_token_rest:
  assumes "\<not> need s"
  shows "rest_len (lex_token c cs s) \<le> Suc (length cs) + sum_list (map length (sc_args s)) \<and>
    (sc_tokid (lex_token c cs s) \<noteq> TOK_EOF \<longrightarrow> rest_len (lex_token c cs s) \<le> length cs + sum_list (map length (sc_args s)))"
  using assms length_dropWhile_le [of is_digit cs] length_dropWhile_le [of isalpha cs]
  by (auto simp: lex_token_def rest_len_def Let_def split: option.splits)

lemma dropWhile_Cons_length: "dropWhile P xs = c # cs \<Longrightarrow> Suc (length cs) \<le> length xs"
  by (metis length_Cons length_dropWhile_le)

lemma token_args_rest:
  assumes "need s" and "sc_tokid s = TOK_EOF"
  shows "rest_len (token_args as s) \<le> sum_list (map length as) \<and>
    (sc_tokid (token_args as s) \<noteq> TOK_EOF \<longrightarrow> rest_len (token_args as s) < sum_list (map length as))"
  using assms
proof (induction as arbitrary: s)
  case Nil
  then show ?case by (simp add: rest_len_def)
next
  case (Cons a as)
  show ?case
  proof (cases "dropWhile tok_skip a")
    case Nil
    have "token_args (a # as) s = token_args as (s\<lparr>sct := []\<rparr>)" unfolding token_args.simps Nil by simp
    with Cons.IH [of "s\<lparr>sct := []\<rparr>"] Cons.prems show ?thesis by auto
  next
    case (Cons c cs)
    with lex_token_rest [of "s\<lparr>sc_args := as, need := False\<rparr>" c cs] dropWhile_Cons_length [OF Cons] show ?thesis by auto
  qed
qed

lemma token_rest: "rest_len (token s) \<le> rest_len s \<and> (sc_tokid (token s) \<noteq> TOK_EOF \<longrightarrow> rest_len (token s) < rest_len s)"
proof (cases "need s")
  case True
  with token_args_rest [of "s\<lparr>sc_token := [], sc_tokid := TOK_EOF\<rparr>" "sc_args s"] show ?thesis
    by (simp add: token_def rest_len_def)
next
  case False
  show ?thesis
  proof (cases "dropWhile tok_skip (sct s)")
    case Nil
    have "token s = token_args (sc_args s) (s\<lparr>sc_token := [], sc_tokid := TOK_EOF, sct := [], need := True\<rparr>)"
      using False unfolding token_def Let_def by (simp add: Nil del: dropWhile_eq_Nil_conv)
    with token_args_rest [of "s\<lparr>sc_token := [], sc_tokid := TOK_EOF, sct := [], need := True\<rparr>" "sc_args s"] False
    show ?thesis by (auto simp: rest_len_def)
  next
    case (Cons c cs)
    with False lex_token_rest [of "s\<lparr>sc_token := [], sc_tokid := TOK_EOF\<rparr>" c cs] dropWhile_Cons_length [OF Cons]
    show ?thesis by (auto simp: token_def rest_len_def)
  qed
qed

lemma pm_number_rest: "pm_number d s = Inr s' \<Longrightarrow> rest_len s' \<le> rest_len s"
  using token_rest [of "s\<lparr>pm_op := the d\<rparr>"]
  by (cases d) (auto simp: pm_number_def expect2_def Let_def split: sum.splits if_splits)

lemma pm_unit_rest: "rest_len (pm_unit delta s) \<le> rest_len s"
  using token_rest [of s] by (simp add: pm_unit_def Let_def)

lemma plus_minus_rest: "plus_minus d (v, s) = Inr (v', s') \<Longrightarrow> rest_len s' \<le> rest_len s"
  by (auto simp: plus_minus_def Let_def split: sum.splits dest!: pm_number_rest intro: order_trans [OF pm_unit_rest])

text \<open>The loop over the offsets. Every round takes a token from the input, so the loop ends.\<close>

definition is_offset_tok :: "tokid \<Rightarrow> bool" where
  "is_offset_tok t \<longleftrightarrow> t = PLUS \<or> t = MINUS \<or> t = NUMBER"

function offsets :: "time_value \<times> scanner \<Rightarrow> time_error + time_value \<times> scanner" where
  "offsets (v, s) =
     (if is_offset_tok (sc_tokid s)
      then (case plus_minus (if sc_tokid s = NUMBER then None else Some (sc_tokid s)) (v, s) of
              Inl e \<Rightarrow> Inl e
            | Inr (v, s) \<Rightarrow> offsets (v, token s))
      else Inr (v, s))"
  by pat_completeness auto

termination
proof (relation "measure (\<lambda>(v, s). if is_offset_tok (sc_tokid s) then Suc (rest_len s) else 0)", goal_cases)
  case 1
  then show ?case by simp
next
  case (2 v s p v' s')
  then have "rest_len s' \<le> rest_len s" using plus_minus_rest by metis
  with token_rest [of s'] 2(1) show ?case by (auto simp: is_offset_tok_def)
qed

declare offsets.simps [simp del]

definition offset_spec :: "time_value \<times> scanner \<Rightarrow> time_error + time_value \<times> scanner" where
  "offset_spec vs =
     (if sc_tokid (snd vs) = PLUS \<or> sc_tokid (snd vs) = MINUS
      then offsets (fst vs, (snd vs)\<lparr>Specials := TimeMultipliers\<rparr>)
      else Inr vs)"

text \<open>The part in front of the offsets, on the token that the scanner holds.\<close>

definition relative_spec :: "timetype \<Rightarrow> time_value \<times> scanner \<Rightarrow> time_error + time_value \<times> scanner" where
  "relative_spec ty vs =
     (case vs of (v, s) \<Rightarrow>
      let v = upd_tm (\<lambda>t. t\<lparr>tm_sec := 0, tm_min := 0, tm_hour := 0, tm_mday := 0, tm_mon := 0, tm_year := 0\<rparr>) v\<lparr>tv_type := ty\<rparr>;
          s = token s
      in if sc_tokid s = PLUS \<or> sc_tokid s = MINUS then Inr (v, s) else Inl RelativeNeedsOffset)"

definition now_spec :: "time_value \<times> scanner \<Rightarrow> time_error + time_value \<times> scanner" where
  "now_spec vs =
     (case vs of (v, s) \<Rightarrow>
      let s = token s
      in if sc_tokid s = PLUS \<or> sc_tokid s = MINUS then Inr (v, s)
         else if sc_tokid s \<noteq> TOK_EOF then Inl NowNeedsOffset else Inr (v, s))"

definition number_spec :: "time_env \<Rightarrow> time_value \<times> scanner \<Rightarrow> time_error + time_value \<times> scanner" where
  "number_spec env vs =
     (case vs of (v, s) \<Rightarrow>
      let hour_sv = tm_hour (tv_tm v); year_sv = tm_year (tv_tm v)
      in case tod (upd_tm (\<lambda>t. t\<lparr>tm_hour := 30, tm_year := 30000\<rparr>) v, s) of
           Inl e \<Rightarrow> Inl e
         | Inr vs \<Rightarrow>
             (case day env vs of
                Inl e \<Rightarrow> Inl e
              | Inr vs \<Rightarrow>
                  (case (if tm_hour (tv_tm (fst vs)) = 30 \<and> tm_year (tv_tm (fst vs)) \<noteq> 30000 then tod vs else Inr vs) of
                     Inl e \<Rightarrow> Inl e
                   | Inr (v, s) \<Rightarrow>
                       let v = (if tm_hour (tv_tm v) = 30 then upd_tm (\<lambda>t. t\<lparr>tm_hour := hour_sv\<rparr>) v else v);
                           v = (if tm_year (tv_tm v) = 30000 then upd_tm (\<lambda>t. t\<lparr>tm_year := year_sv\<rparr>) v else v)
                       in Inr (v, s))))"

definition fixed_hour_spec :: "time_env \<Rightarrow> int \<Rightarrow> time_value \<times> scanner \<Rightarrow> time_error + time_value \<times> scanner" where
  "fixed_hour_spec env hr vs =
     (case vs of (v, s) \<Rightarrow> day env (upd_tm (\<lambda>t. t\<lparr>tm_hour := hr, tm_min := 0, tm_sec := 0\<rparr>) v, token s))"

definition reference_spec :: "time_env \<Rightarrow> time_value \<times> scanner \<Rightarrow> time_error + time_value \<times> scanner" where
  "reference_spec env vs =
     (case sc_tokid (snd vs) of
        PLUS \<Rightarrow> Inr vs
      | MINUS \<Rightarrow> Inr vs
      | EPOCH \<Rightarrow> relative_spec RELATIVE_TO_EPOCH vs
      | START \<Rightarrow> relative_spec RELATIVE_TO_START_TIME vs
      | END \<Rightarrow> relative_spec RELATIVE_TO_END_TIME vs
      | NOW \<Rightarrow> now_spec vs
      | NUMBER \<Rightarrow> number_spec env vs
      | MONTH _ \<Rightarrow>
          (case day env vs of
             Inl e \<Rightarrow> Inl e
           | Inr vs \<Rightarrow> if sc_tokid (snd vs) \<noteq> NUMBER then Inr vs else tod vs)
      | TEATIME \<Rightarrow> fixed_hour_spec env 16 vs
      | NOON \<Rightarrow> fixed_hour_spec env 12 vs
      | MIDNIGHT \<Rightarrow> fixed_hour_spec env 0 vs
      | _ \<Rightarrow> Inl UnparsableTime)"

definition rrd_parsetime :: "time_env \<Rightarrow> string \<Rightarrow> time_error + time_value" where
  "rrd_parsetime env tspec =
     (let v = \<lparr>tv_type = ABSOLUTE_TIME, tv_offset = 0, tv_tm = (localtime env (te_now env))\<lparr>tm_isdst := - 1\<rparr>\<rparr>
      in case reference_spec env (v, token (init_scanner tspec)) of
           Inl e \<Rightarrow> Inl e
         | Inr vs \<Rightarrow>
             (case offset_spec vs of
                Inl e \<Rightarrow> Inl e
              | Inr (v, s) \<Rightarrow>
                  if sc_tokid s \<noteq> TOK_EOF then Inl TrailingText
                  else if tv_type v = ABSOLUTE_TIME
                  then (case mktime env (tv_tm v) of (t, m) \<Rightarrow> if t = - 1 then Inl TimeIncorrect else Inr (v\<lparr>tv_tm := m\<rparr>))
                  else Inr v))"

section \<open>A pair of specifications\<close>

datatype range_error = RelativeToEachOther | StartRelativeToItself | EndRelativeToItself

definition shift_tm :: "tm \<Rightarrow> tm \<Rightarrow> tm" where
  "shift_tm d t = t\<lparr>tm_mday := s32 (tm_mday t + tm_mday d), tm_mon := s32 (tm_mon t + tm_mon d),
     tm_year := s32 (tm_year t + tm_year d)\<rparr>"

definition time_of :: "time_env \<Rightarrow> time_value \<Rightarrow> int \<times> time_value" where
  "time_of env v = (case mktime env (tv_tm v) of (t, m) \<Rightarrow> (s64 (t + tv_offset v), v\<lparr>tv_tm := m\<rparr>))"

definition rrd_proc_start_end :: "time_env \<Rightarrow> time_value \<Rightarrow> time_value \<Rightarrow> range_error + int \<times> int" where
  "rrd_proc_start_end env start_tv end_tv =
     (if tv_type start_tv = RELATIVE_TO_END_TIME \<and> tv_type end_tv = RELATIVE_TO_START_TIME then Inl RelativeToEachOther
      else if tv_type start_tv = RELATIVE_TO_START_TIME then Inl StartRelativeToItself
      else if tv_type end_tv = RELATIVE_TO_END_TIME then Inl EndRelativeToItself
      else
        let (start, start_tv, end_tv) =
              (if tv_type start_tv = RELATIVE_TO_END_TIME
               then (case time_of env end_tv of (e, end_tv) \<Rightarrow>
                       (s64 (fst (mktime env (shift_tm (tv_tm start_tv) (localtime env e))) + tv_offset start_tv), start_tv, end_tv))
               else (case time_of env start_tv of (st, start_tv) \<Rightarrow> (st, start_tv, end_tv)))
        in if tv_type end_tv = RELATIVE_TO_START_TIME
           then (case time_of env start_tv of (st, start_tv) \<Rightarrow>
                   Inr (st, s64 (fst (mktime env (shift_tm (tv_tm end_tv) (localtime env st))) + tv_offset end_tv)))
           else Inr (start, fst (time_of env end_tv)))"

section \<open>Scanning\<close>

lemma token_Cons:
  "\<not> need s \<Longrightarrow> sct s = c # cs \<Longrightarrow> \<not> tok_skip c \<Longrightarrow> token s = lex_token c cs (s\<lparr>sc_token := [], sc_tokid := TOK_EOF\<rparr>)"
  by (simp add: token_def)

lemma token_Nil: "\<not> need s \<Longrightarrow> sct s = [] \<Longrightarrow> sc_args s = [] \<Longrightarrow> sc_tokid (token s) = TOK_EOF"
  by (simp add: token_def Let_def)

lemma token_init: "tspec = c # cs \<Longrightarrow> \<not> tok_skip c \<Longrightarrow>
    token (init_scanner tspec) = lex_token c cs ((init_scanner tspec)\<lparr>sc_args := [], need := False\<rparr>)"
  by (simp add: token_def init_scanner_def Let_def)

lemma is_digit_not_skip: "is_digit c \<Longrightarrow> \<not> tok_skip c \<and> \<not> isalpha c"
  by (auto simp: tok_skip_def isalpha_def isupper_def islower_def is_digit_code isspace_def code_def)

lemma isalpha_not_skip: "isalpha c \<Longrightarrow> \<not> tok_skip c \<and> \<not> is_digit c"
  by (auto simp: tok_skip_def isalpha_def isupper_def islower_def is_digit_code isspace_def code_def)

lemma lex_digits:
  assumes "list_all is_digit (d # ds)" and "rest = [] \<or> \<not> is_digit (hd rest)"
  shows "lex_token d (ds @ rest) s = s\<lparr>sc_token := d # ds, sct := rest, sc_tokid := NUMBER\<rparr>"
  using assms by (cases rest) (auto simp: lex_token_def takeWhile_append2 dropWhile_append2 list_all_iff)

lemma lex_word:
  assumes "list_all isalpha (c # cs)" and "rest = [] \<or> \<not> isalpha (hd rest)"
  shows "lex_token c (cs @ rest) s = s\<lparr>sc_token := c # cs, sct := rest, sc_tokid := parse_token (Specials s) (c # cs)\<rparr>"
proof -
  have "takeWhile isalpha (cs @ rest) = cs" "dropWhile isalpha (cs @ rest) = rest"
    using assms by (cases rest; auto simp: list_all_iff takeWhile_append2 dropWhile_append2 takeWhile_eq_all_conv)+
  then show ?thesis using assms(1) isalpha_not_skip [of c] by (simp add: lex_token_def Let_def)
qed

section \<open>Offsets as text\<close>

text \<open>An offset is a sign, the digits of a number and the name of a unit.\<close>

record offset =
  off_plus :: bool
  off_digits :: string
  off_name :: string

definition off_text :: "offset \<Rightarrow> string" where
  "off_text off = (if off_plus off then CHR ''+'' else CHR ''-'') # off_digits off @ off_name off"

definition off_ok :: "offset \<Rightarrow> bool" where
  "off_ok off \<longleftrightarrow> off_digits off \<noteq> [] \<and> list_all is_digit (off_digits off) \<and> off_name off \<in> fst ` set TimeMultipliers"

definition off_unit :: "offset \<Rightarrow> tokid" where
  "off_unit off =
     (let u = parse_token TimeMultipliers (off_name off)
      in if u = MONTHS_MINUTES then (if atoi (off_digits off) < 6 then MONTHS else MINUTES) else u)"

definition off_apply :: "offset \<Rightarrow> time_value \<Rightarrow> time_value" where
  "off_apply off = apply_offset (if off_plus off then PLUS else MINUS) (off_unit off) (atoi (off_digits off))"

lemma unit_names: "w \<in> fst ` set TimeMultipliers \<Longrightarrow> w \<noteq> [] \<and> list_all isalpha w"
  by (auto simp: TimeMultipliers_def isalpha_def islower_def code_def)

definition sign_head :: "string \<Rightarrow> bool" where
  "sign_head r \<longleftrightarrow> r = [] \<or> hd r = CHR ''+'' \<or> hd r = CHR ''-''"

lemma sign_head_props: "sign_head r \<Longrightarrow> r = [] \<or> \<not> isalpha (hd r)"
  by (auto simp: sign_head_def isalpha_def isupper_def islower_def code_def)

lemma sign_concat: "sign_head (concat (map off_text offs))"
  by (cases offs) (auto simp: sign_head_def off_text_def)

text \<open>The scanner in front of \<open>r\<close>, where nothing is left behind the argument.\<close>

definition at_text :: "string \<Rightarrow> scanner \<Rightarrow> bool" where
  "at_text r s \<longleftrightarrow> \<not> need s \<and> sct s = r \<and> sc_args s = [] \<and> Specials s = TimeMultipliers"

lemma plus_minus_text:
  assumes at: "at_text (off_digits off @ off_name off @ rest) s" and ok: "off_ok off" and rest: "sign_head rest"
  shows "\<exists>s'. plus_minus (Some (if off_plus off then PLUS else MINUS)) (v, s) = Inr (off_apply off v, s') \<and> at_text rest s'"
proof -
  define sgn where "sgn = (if off_plus off then PLUS else MINUS)"
  obtain d ds where d: "off_digits off = d # ds" using ok by (cases "off_digits off") (auto simp: off_ok_def)
  obtain c cs where w: "off_name off = c # cs" using ok unit_names [of "off_name off"] by (cases "off_name off") (auto simp: off_ok_def)
  have dig: "list_all is_digit (d # ds)" and alph: "list_all isalpha (c # cs)"
    using ok unit_names [of "off_name off"] d w by (auto simp: off_ok_def)
  define s1 where "s1 = s\<lparr>pm_op := sgn\<rparr>"
  define s2 where "s2 = s1\<lparr>sc_token := d # ds, sct := c # cs @ rest, sc_tokid := NUMBER\<rparr>"
  have t1: "token s1 = s2"
    using at dig is_digit_not_skip [of d] isalpha_not_skip [of c] alph
    by (simp add: s1_def s2_def token_Cons at_text_def d w lex_digits)
  then have n: "pm_number (Some sgn) s = Inr (s2\<lparr>pm_prev := None\<rparr>)"
    by (simp add: pm_number_def expect2_def s1_def Let_def) (simp add: s2_def)
  define s3 where "s3 = s2\<lparr>pm_prev := None, sc_token := c # cs, sct := rest, sc_tokid := parse_token TimeMultipliers (c # cs)\<rparr>"
  have t2: "token (s2\<lparr>pm_prev := None\<rparr>) = s3"
    using at alph isalpha_not_skip [of c] sign_head_props [OF rest] lex_word [OF alph, of rest]
    by (simp add: token_Cons s2_def s1_def s3_def at_text_def)
  define s4 where "s4 = pm_unit (atoi (d # ds)) (s2\<lparr>pm_prev := None\<rparr>)"
  have "sc_tokid s4 = off_unit off" "pm_op s4 = sgn" "at_text rest s4"
    using at unfolding s4_def pm_unit_def t2
    by (simp_all add: Let_def s3_def s2_def s1_def off_unit_def guess_m_def d w at_text_def)
  moreover have "sc_token (s2\<lparr>pm_prev := None\<rparr>) = d # ds" by (simp add: s2_def)
  ultimately show ?thesis
    unfolding sgn_def [symmetric] plus_minus_def snd_conv n
    by (simp add: Let_def s4_def [symmetric] off_apply_def sgn_def d)
qed

lemma token_sign:
  assumes "at_text (off_text off @ r) s"
  shows "token s = s\<lparr>sc_token := [if off_plus off then CHR ''+'' else CHR ''-''], sct := off_digits off @ off_name off @ r,
           sc_tokid := (if off_plus off then PLUS else MINUS)\<rparr>"
  using assms
  by (auto simp: token_Cons at_text_def off_text_def lex_token_def tok_skip_def isspace_def is_digit_def isalpha_def isupper_def
      islower_def code_def)

lemma offsets_text:
  assumes "list_all off_ok offs" and "at_text (concat (map off_text offs)) s"
  shows "\<exists>s'. offsets (v, token s) = Inr (fold off_apply offs v, s') \<and> sc_tokid s' = TOK_EOF"
  using assms
proof (induction offs arbitrary: v s)
  case Nil
  then have "sc_tokid (token s) = TOK_EOF" by (intro token_Nil) (simp_all add: at_text_def)
  then show ?case by (simp add: offsets.simps is_offset_tok_def)
next
  case (Cons off offs)
  let ?r = "concat (map off_text offs)" and ?sg = "if off_plus off then PLUS else MINUS"
  have tok: "sc_tokid (token s) = ?sg" and at: "at_text (off_digits off @ off_name off @ ?r) (token s)"
    using Cons.prems(2) token_sign [of off ?r s] by (simp_all add: at_text_def)
  from plus_minus_text [OF at _ sign_concat, of v] Cons.prems(1)
  obtain s1 where pm: "plus_minus (Some ?sg) (v, token s) = Inr (off_apply off v, s1)" and at1: "at_text ?r s1" by auto
  have "offsets (v, token s) = offsets (off_apply off v, token s1)"
    using pm tok by (subst offsets.simps) (simp add: is_offset_tok_def split: if_splits)
  with Cons.IH [OF _ at1, of "off_apply off v"] Cons.prems(1) show ?case by simp
qed

definition default_value :: "time_env \<Rightarrow> time_value" where
  "default_value env = \<lparr>tv_type = ABSOLUTE_TIME, tv_offset = 0, tv_tm = (localtime env (te_now env))\<lparr>tm_isdst := - 1\<rparr>\<rparr>"

definition relative_value :: "time_env \<Rightarrow> timetype \<Rightarrow> time_value" where
  "relative_value env ty = (upd_tm (\<lambda>t. t\<lparr>tm_sec := 0, tm_min := 0, tm_hour := 0, tm_mday := 0, tm_mon := 0, tm_year := 0\<rparr>)
     (default_value env))\<lparr>tv_type := ty\<rparr>"

definition normal_time :: "time_env \<Rightarrow> time_value \<Rightarrow> time_error + time_value" where
  "normal_time env v =
     (if tv_type v = ABSOLUTE_TIME
      then (case mktime env (tv_tm v) of (t, m) \<Rightarrow> if t = - 1 then Inl TimeIncorrect else Inr (v\<lparr>tv_tm := m\<rparr>))
      else Inr v)"

lemma rrd_parsetime_alt:
  "rrd_parsetime env tspec =
     (case reference_spec env (default_value env, token (init_scanner tspec)) of
        Inl e \<Rightarrow> Inl e
      | Inr vs \<Rightarrow>
          (case offset_spec vs of
             Inl e \<Rightarrow> Inl e
           | Inr (v, s) \<Rightarrow> if sc_tokid s \<noteq> TOK_EOF then Inl TrailingText else normal_time env v))"
  by (simp add: rrd_parsetime_def default_value_def normal_time_def Let_def split: sum.splits prod.splits)

text \<open>A reference word in front of offsets.\<close>

lemma token_word:
  assumes "tspec = w @ concat (map off_text offs)" and "w \<noteq> []" and "list_all isalpha w"
  shows "\<exists>s. token (init_scanner tspec) = s \<and> sc_tokid s = parse_token VariousWords w \<and>
    at_text (concat (map off_text offs)) (s\<lparr>Specials := TimeMultipliers\<rparr>)"
proof -
  obtain c cs where w: "w = c # cs" using assms(2) by (cases w) auto
  have "token (init_scanner tspec) = lex_token c (cs @ concat (map off_text offs)) ((init_scanner tspec)\<lparr>sc_args := [], need := False\<rparr>)"
    using assms w isalpha_not_skip [of c] by (intro token_init) auto
  with assms(3) w sign_head_props [OF sign_concat, of offs] show ?thesis
    by (simp add: lex_word init_scanner_def at_text_def)
qed

lemma at_text_specials:
  assumes "at_text (off_text off @ r) (s\<lparr>Specials := TimeMultipliers\<rparr>)"
  shows "sc_tokid (token s) = (if off_plus off then PLUS else MINUS)"
    and "(token s)\<lparr>Specials := TimeMultipliers\<rparr> = token (s\<lparr>Specials := TimeMultipliers\<rparr>)"
  using assms
  by (auto simp: token_Cons at_text_def off_text_def lex_token_def tok_skip_def isspace_def is_digit_def isalpha_def isupper_def
      islower_def code_def)

lemma offset_spec_text:
  assumes "list_all off_ok (off # offs)" and "at_text (concat (map off_text (off # offs))) (s\<lparr>Specials := TimeMultipliers\<rparr>)"
  shows "\<exists>s'. offset_spec (v, token s) = Inr (fold off_apply (off # offs) v, s') \<and> sc_tokid s' = TOK_EOF"
  using offsets_text [OF assms, of v] at_text_specials [of off "concat (map off_text offs)" s] assms(2)
  by (simp add: offset_spec_def split: if_splits)

lemma parse_now_offsets:
  assumes "list_all off_ok offs"
  shows "rrd_parsetime env (''now'' @ concat (map off_text offs)) = normal_time env (fold off_apply offs (default_value env))"
proof -
  have now: "parse_token VariousWords ''now'' = NOW" by code_simp
  have al: "list_all isalpha ''now''" by code_simp
  from token_word [OF refl _ al, of offs] now obtain s where
    s: "token (init_scanner (''now'' @ concat (map off_text offs))) = s" "sc_tokid s = NOW"
    "at_text (concat (map off_text offs)) (s\<lparr>Specials := TimeMultipliers\<rparr>)" by auto
  show ?thesis
  proof (cases offs)
    case Nil
    with s(3) have "sc_tokid (token s) = TOK_EOF" by (intro token_Nil) (simp_all add: at_text_def)
    with Nil s(1,2) show ?thesis by (simp add: rrd_parsetime_alt reference_spec_def now_spec_def Let_def offset_spec_def)
  next
    case (Cons off offs')
    with offset_spec_text [of off offs' s "default_value env"] at_text_specials(1) [of off "concat (map off_text offs')" s] assms s
    show ?thesis by (auto simp: rrd_parsetime_alt reference_spec_def now_spec_def Let_def)
  qed
qed

lemma parse_relative_offsets:
  assumes "list_all off_ok (off # offs)" and "(w, ty) \<in> {(''start'', RELATIVE_TO_START_TIME), (''end'', RELATIVE_TO_END_TIME), (''epoch'', RELATIVE_TO_EPOCH)}"
  shows "rrd_parsetime env (w @ concat (map off_text (off # offs))) = Inr (fold off_apply (off # offs) (relative_value env ty))"
proof -
  define tk where "tk = (if ty = RELATIVE_TO_START_TIME then START else if ty = RELATIVE_TO_END_TIME then END else EPOCH)"
  have "parse_token VariousWords ''start'' = START \<and> parse_token VariousWords ''end'' = END \<and> parse_token VariousWords ''epoch'' = EPOCH \<and>
     list_all isalpha ''start'' \<and> list_all isalpha ''end'' \<and> list_all isalpha ''epoch''" by code_simp
  with assms(2) have w: "parse_token VariousWords w = tk" "list_all isalpha w" "w \<noteq> []" by (auto simp: tk_def)
  from token_word [OF refl w(3,2), of "off # offs"] w(1) obtain s where
    s: "token (init_scanner (w @ concat (map off_text (off # offs)))) = s" "sc_tokid s = tk"
    "at_text (concat (map off_text (off # offs))) (s\<lparr>Specials := TimeMultipliers\<rparr>)" by auto
  have rel: "reference_spec env (default_value env, s) = relative_spec ty (default_value env, s)"
    using s(2) assms(2) by (auto simp: reference_spec_def tk_def)
  have rs: "relative_spec ty (default_value env, s) = Inr (relative_value env ty, token s)"
    using at_text_specials(1) [of off "concat (map off_text offs)" s] s(3)
    by (simp add: relative_spec_def relative_value_def Let_def)
  have ft: "tv_type (fold off_apply os v) = tv_type v" for os v
    by (induction os arbitrary: v) (simp_all add: off_apply_def apply_offset_def Let_def split: tokid.splits)
  have ty: "ty \<noteq> ABSOLUTE_TIME" "tv_type (relative_value env ty) = ty" using assms(2) by (auto simp: relative_value_def)
  from offset_spec_text [OF assms(1) s(3)] obtain s' where
    o: "offset_spec (relative_value env ty, token s) = Inr (fold off_apply (off # offs) (relative_value env ty), s')"
    and eof: "sc_tokid s' = TOK_EOF" by blast
  show ?thesis
    unfolding rrd_parsetime_alt s(1) rel rs sum.case o prod.case normal_time_def ft ty(2) using eof ty(1) by simp
qed

lemma dec_val_less: "list_all is_digit ds \<Longrightarrow> dec_val ds < 10 ^ length ds"
proof (induction ds rule: rev_induct)
  case Nil
  then show ?case by (simp add: dec_val_def)
next
  case (snoc d ds)
  then have "dec_val ds + 1 \<le> 10 ^ length ds" "digit_val d \<le> 9" using digit_val_range [of d] by auto
  then show ?case by (simp add: dec_val_def)
qed

lemma atol_digits: "list_all is_digit ds \<Longrightarrow> ds \<noteq> [] \<Longrightarrow> dec_val ds < 2 ^ 63 \<Longrightarrow> atol ds = dec_val ds"
proof -
  assume d: "list_all is_digit ds" "ds \<noteq> []" "dec_val ds < 2 ^ 63"
  then obtain c cs where c: "ds = c # cs" "is_digit c" by (cases ds) auto
  then have "strip_sign (dropWhile isspace ds) = (False, ds)"
    using is_digit_chars [OF c(2)] is_digit_not_space [OF c(2)] by (simp add: strip_sign_def)
  with d dec_val_nonneg [OF d(1)] show ?thesis by (simp add: atol_def strtol_def takeWhile_all)
qed

lemma parse_seconds:
  assumes dig: "list_all is_digit ds" and big: "315360000 < dec_val ds" and small: "dec_val ds < 2 ^ 63"
    and lt: "tm_hour (localtime env (dec_val ds)) \<noteq> 30" "tm_year (localtime env (dec_val ds)) \<noteq> 30000"
  shows "rrd_parsetime env ds = normal_time env ((default_value env)\<lparr>tv_tm := localtime env (dec_val ds)\<rparr>)"
proof -
  obtain c cs where c: "ds = c # cs" using big by (cases ds) (auto simp: dec_val_def)
  have len: "2 < length ds"
  proof (rule ccontr)
    assume "\<not> 2 < length ds"
    then have "(10 :: int) ^ length ds \<le> 10 ^ 2" by (intro power_increasing) auto
    with dec_val_less [OF dig] big show False by simp
  qed
  have atol: "atol ds = dec_val ds" using atol_digits [OF dig _ small] c by simp
  define s where "s = (init_scanner ds)\<lparr>sc_args := [], need := False, sc_token := ds, sct := [], sc_tokid := NUMBER\<rparr>"
  have t: "token (init_scanner ds) = s"
    using dig is_digit_not_skip [of c] lex_digits [of c cs "[]"] token_init [OF c] by (simp add: s_def c)
  have eof: "sc_tokid (token s) = TOK_EOF" by (rule token_Nil) (simp_all add: s_def)
  have n: "number_spec env (default_value env, s) = Inr ((default_value env)\<lparr>tv_tm := localtime env (dec_val ds)\<rparr>, token s)"
    using len big lt atol by (simp add: number_spec_def tod_def day_def day_number_def s_def Let_def)
  have "sc_tokid s = NUMBER" by (simp add: s_def)
  with n eof show ?thesis by (simp add: rrd_parsetime_alt t reference_spec_def offset_spec_def)
qed

section \<open>Offsets in seconds\<close>

text \<open>What an offset of a clock unit adds, and that nothing wraps for numbers of up to five digits.\<close>

definition clock_unit :: "tokid \<Rightarrow> bool" where
  "clock_unit u \<longleftrightarrow> u = SECONDS \<or> u = MINUTES \<or> u = HOURS"

definition off_seconds :: "offset \<Rightarrow> int" where
  "off_seconds off =
     (if off_plus off then 1 else - 1) * dec_val (off_digits off) *
     (if off_unit off = HOURS then 3600 else if off_unit off = MINUTES then 60 else 1)"

lemma off_apply_clock:
  assumes "off_ok off" and "clock_unit (off_unit off)" and "length (off_digits off) \<le> 5" and "\<bar>tv_offset v\<bar> < 2 ^ 62"
  shows "off_apply off v = v\<lparr>tv_offset := tv_offset v + off_seconds off\<rparr> \<and> \<bar>off_seconds off\<bar> \<le> 360000000"
proof -
  define n where "n = dec_val (off_digits off)"
  have dig: "list_all is_digit (off_digits off)" "off_digits off \<noteq> []" using assms(1) by (simp_all add: off_ok_def)
  have "(10 :: int) ^ length (off_digits off) \<le> 10 ^ 5" using assms(3) by (intro power_increasing) auto
  then have n: "0 \<le> n" "n < 100000" using dec_val_less [OF dig(1)] dec_val_nonneg [OF dig(1)] by (simp_all add: n_def)
  then have "atoi (off_digits off) = n" using atol_digits [OF dig] by (simp add: atoi_def n_def)
  with n assms(2,4) show ?thesis
    by (auto simp: off_apply_def apply_offset_def clock_unit_def off_seconds_def Let_def simp flip: n_def)
qed

lemma fold_off_apply_clock:
  assumes "list_all (\<lambda>off. off_ok off \<and> clock_unit (off_unit off) \<and> length (off_digits off) \<le> 5) offs"
    and "\<bar>tv_offset v\<bar> + 360000000 * int (length offs) < 2 ^ 62"
  shows "fold off_apply offs v = v\<lparr>tv_offset := tv_offset v + sum_list (map off_seconds offs)\<rparr>"
  using assms
proof (induction offs arbitrary: v)
  case Nil
  then show ?case by simp
next
  case (Cons off offs)
  then have a: "off_apply off v = v\<lparr>tv_offset := tv_offset v + off_seconds off\<rparr>" "\<bar>off_seconds off\<bar> \<le> 360000000"
    using off_apply_clock [of off v] by auto
  have "\<bar>tv_offset v + off_seconds off\<bar> + 360000000 * int (length offs) < 2 ^ 62" using Cons.prems(2) a(2) by simp
  with Cons.IH [of "v\<lparr>tv_offset := tv_offset v + off_seconds off\<rparr>"] Cons.prems(1) a(1) show ?case by simp
qed

section \<open>The clock in Greenwich\<close>

text \<open>An instance of the environment: the Gregorian calendar without time zone or summer time.\<close>

definition days_from_civil :: "int \<Rightarrow> int \<Rightarrow> int \<Rightarrow> int" where
  "days_from_civil y m d =
     (let y = (if m \<le> 2 then y - 1 else y); yoe = y mod 400; doy = (153 * ((m + 9) mod 12) + 2) div 5 + d - 1
      in y div 400 * 146097 + (yoe * 365 + yoe div 4 - yoe div 100 + doy) - 719468)"

definition civil_from_days :: "int \<Rightarrow> int \<times> int \<times> int" where
  "civil_from_days z =
     (let z = z + 719468; doe = z mod 146097; yoe = (doe - doe div 1460 + doe div 36524 - doe div 146096) div 365;
          doy = doe - (365 * yoe + yoe div 4 - yoe div 100); mp = (5 * doy + 2) div 153;
          m = (if mp < 10 then mp + 3 else mp - 9)
      in (yoe + z div 146097 * 400 + (if m \<le> 2 then 1 else 0), m, doy - (153 * mp + 2) div 5 + 1))"

definition gmtime :: "int \<Rightarrow> tm" where
  "gmtime t =
     (case civil_from_days (t div 86400) of (y, m, d) \<Rightarrow>
        \<lparr>tm_sec = t mod 60, tm_min = t div 60 mod 60, tm_hour = t div 3600 mod 24, tm_mday = d, tm_mon = m - 1,
         tm_year = y - 1900, tm_wday = (t div 86400 + 4) mod 7, tm_isdst = 0\<rparr>)"

definition timegm :: "tm \<Rightarrow> int \<times> tm" where
  "timegm m =
     (let t = days_from_civil (1900 + tm_year m + tm_mon m div 12) (tm_mon m mod 12 + 1) (tm_mday m) * 86400
              + tm_hour m * 3600 + tm_min m * 60 + tm_sec m
      in (t, gmtime t))"

definition utc_env :: time_env where
  "utc_env = \<lparr>te_now = 1200000000, localtime = gmtime, mktime = timegm\<rparr>"

lemma gmtime_1200000000:
  "gmtime 1200000000 = \<lparr>tm_sec = 0, tm_min = 20, tm_hour = 21, tm_mday = 10, tm_mon = 0, tm_year = 108, tm_wday = 4, tm_isdst = 0\<rparr>"
  by code_simp

lemma timegm_1200000000: "timegm (gmtime 1200000000) = (1200000000, gmtime 1200000000)"
proof -
  have "days_from_civil 2008 1 10 = 13888" by code_simp
  then have "timegm (gmtime 1200000000) = (let t = 1200000000 in (t, gmtime t))"
    unfolding timegm_def by (simp only: gmtime_1200000000 tm.simps) simp
  then show ?thesis by (simp only: Let_def)
qed

section \<open>Properties\<close>

text \<open>
  C38: offsets in words. A specification of \<open>now\<close> and any sequence of offsets, each a sign, a number and the name
  of a unit, is accepted (unless \<open>mktime\<close> refuses the time) and means the current time with every offset applied in
  turn; a lone \<open>m\<close> behind a sign means months below 6 and minutes from 6 on. When the units are seconds, minutes
  and hours, with numbers of up to five digits, the offset is their sum in seconds.
\<close>

theorem parsetime_offsets:
  assumes "list_all off_ok offs"
  shows "rrd_parsetime env (''now'' @ concat (map off_text offs)) = normal_time env (fold off_apply offs (default_value env)) \<and>
    (list_all (\<lambda>off. clock_unit (off_unit off) \<and> length (off_digits off) \<le> 5) offs \<and> length offs < 2 ^ 32 \<longrightarrow>
       fold off_apply offs (default_value env) = (default_value env)\<lparr>tv_offset := sum_list (map off_seconds offs)\<rparr>)"
proof -
  have "fold off_apply offs (default_value env) = (default_value env)\<lparr>tv_offset := sum_list (map off_seconds offs)\<rparr>"
    if "list_all (\<lambda>off. clock_unit (off_unit off) \<and> length (off_digits off) \<le> 5) offs" "length offs < 2 ^ 32"
  proof -
    have off0: "tv_offset (default_value env) = 0" by (simp add: default_value_def)
    have "list_all (\<lambda>off. off_ok off \<and> clock_unit (off_unit off) \<and> length (off_digits off) \<le> 5) offs"
      using that(1) assms by (simp add: list_all_iff)
    moreover have "\<bar>tv_offset (default_value env)\<bar> + 360000000 * int (length offs) < 2 ^ 62" using that(2) off0 by simp
    ultimately show ?thesis using fold_off_apply_clock [of offs "default_value env"] off0 by simp
  qed
  with parse_now_offsets [OF assms] show ?thesis by blast
qed

theorem parsetime_offsets_witness:
  "rrd_parsetime utc_env ''now-1h+5m'' =
     normal_time utc_env (fold off_apply [\<lparr>off_plus = False, off_digits = ''1'', off_name = ''h''\<rparr>,
       \<lparr>off_plus = True, off_digits = ''5'', off_name = ''m''\<rparr>] (default_value utc_env))"
proof -
  let ?offs = "[\<lparr>off_plus = False, off_digits = ''1'', off_name = ''h''\<rparr>, \<lparr>off_plus = True, off_digits = ''5'', off_name = ''m''\<rparr>]"
  have "list_all off_ok ?offs" by code_simp
  from parsetime_offsets [OF this, of utc_env] show ?thesis by (simp add: off_text_def)
qed

text \<open>
  seconds since 1970. A number above 315360000 is a time in seconds: as far as the C library keeps its own
  broken-down times (\<open>mktime\<close> is the inverse of \<open>localtime\<close> at this time), the parsed value stands for that number.
\<close>

theorem parsetime_seconds:
  assumes "list_all is_digit ds" and "315360000 < dec_val ds" and "dec_val ds < 2 ^ 63"
    and "mktime env (localtime env (dec_val ds)) = (dec_val ds, localtime env (dec_val ds))"
    and "tm_hour (localtime env (dec_val ds)) \<in> {0 .. 23}" and "tm_year (localtime env (dec_val ds)) \<noteq> 30000"
  shows "\<exists>v. rrd_parsetime env ds = Inr v \<and> tv_type v = ABSOLUTE_TIME \<and> fst (time_of env v) = dec_val ds"
proof -
  have "rrd_parsetime env ds = normal_time env ((default_value env)\<lparr>tv_tm := localtime env (dec_val ds)\<rparr>)"
    using assms by (intro parse_seconds) auto
  with assms(2,3,4) show ?thesis by (simp add: normal_time_def default_value_def time_of_def)
qed

theorem parsetime_seconds_witness:
  "\<exists>v. rrd_parsetime utc_env ''1200000000'' = Inr v \<and> tv_type v = ABSOLUTE_TIME \<and> fst (time_of utc_env v) = 1200000000"
proof -
  have "dec_val ''1200000000'' = 1200000000" "list_all is_digit ''1200000000''" by code_simp+
  with parsetime_seconds [of "''1200000000''" utc_env] timegm_1200000000 gmtime_1200000000 show ?thesis
    by (simp add: utc_env_def)
qed

lemma offsets_result:
  "case offsets (v, s) of
     Inl e \<Rightarrow> e = ExpectNumber
   | Inr (v', s') \<Rightarrow> \<not> is_offset_tok (sc_tokid s') \<and> rest_len s' \<le> rest_len s"
proof (induction "(v, s)" arbitrary: v s rule: offsets.induct)
  case (1 v s)
  show ?case
  proof (cases "is_offset_tok (sc_tokid s)")
    case False
    then show ?thesis by (simp add: offsets.simps)
  next
    case True
    let ?d = "if sc_tokid s = NUMBER then None else Some (sc_tokid s)"
    show ?thesis
    proof (cases "plus_minus ?d (v, s)")
      case (Inl e)
      then have "e = ExpectNumber"
        by (auto simp: plus_minus_def pm_number_def expect2_def Let_def split: sum.splits if_splits)
      with True Inl show ?thesis by (simp add: offsets.simps)
    next
      case (Inr vs)
      obtain v1 s1 where vs: "vs = (v1, s1)" by fastforce
      have "rest_len (token s1) \<le> rest_len s"
        using plus_minus_rest [of ?d v s v1 s1] Inr vs token_rest [of s1] by simp
      moreover have "offsets (v, s) = offsets (v1, token s1)" using True Inr vs by (simp add: offsets.simps [of v s])
      ultimately show ?thesis using "1.hyps" [OF True Inr vs [symmetric]] by (auto split: sum.splits)
    qed
  qed
qed

text \<open>
  The loop over the offsets ends. It returns on every state of the scanner, having moved forward only; its one
  error is a sign without a number, and otherwise it stops in front of a token that starts no offset.
\<close>

theorem offsets_terminates:
  "(\<exists>v' s'. offsets (v, s) = Inr (v', s') \<and> \<not> is_offset_tok (sc_tokid s') \<and> rest_len s' \<le> rest_len s) \<or>
   offsets (v, s) = Inl ExpectNumber"
  using offsets_result [where v = v and s = s] by (cases "offsets (v, s)") auto

text \<open>
  the time of day. On a number of digits \<open>tod\<close> leaves the date alone, and the time too unless it sets hour,
  minute and second to a time of a 24 hour clock. In particular the branch of the source for hour 24 is never taken,
  so \<open>24:00\<close> is not a time of day.
\<close>

theorem tod_range:
  assumes "tod (v, s) = Inr (v', s')" and "list_all is_digit (sc_token s)"
  shows "v' = v \<or> (\<exists>h m. h \<in> {0 .. 23} \<and> m \<in> {- (2 ^ 31) .. 59} \<and>
    v' = upd_tm (\<lambda>t. t\<lparr>tm_hour := h, tm_min := m, tm_sec := 0\<rparr>) v)"
proof (cases "length (sc_token s) > 2")
  case True
  with assms(1) show ?thesis by (simp add: tod_def)
next
  case False
  define hour where "hour = atoi (sc_token s)"
  have "(10 :: int) ^ length (sc_token s) \<le> 10 ^ 2" using False by (intro power_increasing) auto
  then have "0 \<le> hour" using dec_val_less [OF assms(2)] dec_val_nonneg [OF assms(2)] atol_digits [OF assms(2)]
    by (cases "sc_token s = []") (simp_all add: hour_def atoi_def atol_def strtol_def strip_sign_def)
  have fin: "?thesis" if "0 \<le> h" "h \<le> 23" "m \<le> 59" "- (2 ^ 31) \<le> m"
    "v' = upd_tm (\<lambda>t. t\<lparr>tm_hour := h, tm_min := m, tm_sec := 0\<rparr>) v" for h m
    using that by (intro disjI2 exI [of _ h] exI [of _ m]) simp
  have lo: "- (2 ^ 31) \<le> atoi t" for t by (simp add: atoi_def s32_def)
  show ?thesis
  proof (rule ccontr)
    assume n: "\<not> ?thesis"
    then have fin': "\<not> (0 \<le> h \<and> h \<le> 23 \<and> m \<le> 59 \<and> - (2 ^ 31) \<le> m \<and>
       v' = upd_tm (\<lambda>t. t\<lparr>tm_hour := h, tm_min := m, tm_sec := 0\<rparr>) v)" for h m using fin by blast
    from n have "v' \<noteq> v" by blast
    with assms(1) False obtain h m where "v' = (if h = 24 then upd_tm (\<lambda>t. t\<lparr>tm_hour := 0, tm_mday := s32 (tm_mday t + 1)\<rparr>)
          (upd_tm (\<lambda>t. t\<lparr>tm_hour := h, tm_min := m, tm_sec := 0\<rparr>) v) else upd_tm (\<lambda>t. t\<lparr>tm_hour := h, tm_min := m, tm_sec := 0\<rparr>) v)"
      "0 \<le> h" "h \<le> 23" "m \<le> 59" "- (2 ^ 31) \<le> m"
      using \<open>0 \<le> hour\<close> lo
      by (auto simp: tod_def Let_def hour_def [symmetric] split: if_splits sum.splits prod.splits)
    then show False using fin' [of h m] by simp
  qed
qed

theorem tod_range_witness:
  "\<exists>v' s'. tod (default_value utc_env, token (init_scanner ''11:30pm'')) = Inr (v', s') \<and>
     tm_hour (tv_tm v') = 23 \<and> tm_min (tv_tm v') = 30 \<and> tm_mday (tv_tm v') = 10"
proof -
  let ?s = "token (init_scanner ''11:30pm'')"
  have e: "case tod (default_value utc_env, ?s) of Inr (v', s') \<Rightarrow> tm_hour (tv_tm v') = 23 \<and> tm_min (tv_tm v') = 30 | _ \<Rightarrow> False"
    by code_simp
  then obtain v' s' where t: "tod (default_value utc_env, ?s) = Inr (v', s')" "tm_hour (tv_tm v') = 23" "tm_min (tv_tm v') = 30"
    by (auto split: sum.splits)
  have "list_all is_digit (sc_token ?s)" "tm_mday (tv_tm (default_value utc_env)) = 10" by code_simp+
  with tod_range [OF t(1)] t show ?thesis by auto
qed

text \<open>
  the years of dates. Two digit years up to 37 are those of this century and from 70 on those of the last one,
  years up to 138 count from 1900, and above that only the years after 1970 are accepted, so that 1970 itself
  cannot be written with four digits.
\<close>

theorem assign_date_year:
  "assign_date v mday mon year =
     (if year < 0 \<or> 38 \<le> year \<and> year < 70 then Inl BeforeEpoch
      else if 139 \<le> year \<and> year \<le> 1970 then Inl InvalidYear
      else Inr (v\<lparr>tv_tm := (tv_tm v)\<lparr>tm_mday := s32 mday, tm_mon := s32 mon,
                  tm_year := s32 ((if year < 38 then 2000 + year else if year \<le> 138 then 1900 + year else year) - 1900)\<rparr>\<rparr>))"
  by (auto simp: assign_date_def)

text \<open>
  The two ends of a range. The pair is refused exactly when an end refers to itself or the two refer to each
  other. Otherwise an absolute end is its own time, and an end given relative to the other is the other's local time
  shifted by years, months and days, and then by the offset in seconds; normalising a broken-down time twice is
  taken to be the same as once.
\<close>

theorem proc_start_end:
  assumes "\<forall>m. mktime env (snd (mktime env m)) = mktime env m"
  shows "let st = tv_type start_tv; et = tv_type end_tv; S = fst (time_of env start_tv); E = fst (time_of env end_tv);
      from = (\<lambda>d t. s64 (fst (mktime env (shift_tm (tv_tm d) (localtime env t))) + tv_offset d))
    in rrd_proc_start_end env start_tv end_tv =
      (if st = RELATIVE_TO_END_TIME \<and> et = RELATIVE_TO_START_TIME then Inl RelativeToEachOther
       else if st = RELATIVE_TO_START_TIME then Inl StartRelativeToItself
       else if et = RELATIVE_TO_END_TIME then Inl EndRelativeToItself
       else if st = RELATIVE_TO_END_TIME then Inr (from start_tv E, E)
       else if et = RELATIVE_TO_START_TIME then Inr (S, from end_tv S)
       else Inr (S, E))"
proof -
  have "fst (time_of env (snd (time_of env v))) = fst (time_of env v)" for v
    using assms by (simp add: time_of_def split_beta)
  then show ?thesis
    by (auto simp: rrd_proc_start_end_def Let_def time_of_def split_beta)
qed

text \<open>A clock whose local times count the seconds only.\<close>

definition plain_env :: time_env where
  "plain_env = \<lparr>te_now = 1200000000,
     localtime = (\<lambda>t. \<lparr>tm_sec = t, tm_min = 0, tm_hour = 0, tm_mday = 0, tm_mon = 0, tm_year = 0, tm_wday = 0, tm_isdst = 0\<rparr>),
     mktime = (\<lambda>m. let t = tm_sec m + 60 * tm_min m + 3600 * tm_hour m + 86400 * tm_mday m
       in (t, \<lparr>tm_sec = t, tm_min = 0, tm_hour = 0, tm_mday = 0, tm_mon = 0, tm_year = 0, tm_wday = 0, tm_isdst = 0\<rparr>))\<rparr>"

theorem proc_start_end_witness:
  "rrd_proc_start_end plain_env (off_apply \<lparr>off_plus = False, off_digits = ''1'', off_name = ''day''\<rparr> (relative_value plain_env RELATIVE_TO_END_TIME))
     (default_value plain_env) = Inr (1199913600, 1200000000)"
proof -
  define st where "st = off_apply \<lparr>off_plus = False, off_digits = ''1'', off_name = ''day''\<rparr> (relative_value plain_env RELATIVE_TO_END_TIME)"
  have st: "tv_type st = RELATIVE_TO_END_TIME" "tv_offset st = 0" "tm_mday (tv_tm st) = - 1" "tm_mon (tv_tm st) = 0" "tm_year (tv_tm st) = 0"
    unfolding st_def by code_simp+
  have idem: "\<forall>m. mktime plain_env (snd (mktime plain_env m)) = mktime plain_env m" by (simp add: plain_env_def Let_def)
  have dv: "tv_type (default_value plain_env) = ABSOLUTE_TIME" "fst (time_of plain_env (default_value plain_env)) = 1200000000"
    by code_simp+
  have "fst (mktime plain_env (shift_tm (tv_tm st) (localtime plain_env 1200000000))) = 1199913600"
    by (simp add: plain_env_def shift_tm_def st Let_def)
  with proc_start_end [OF idem, of st "default_value plain_env"] show ?thesis
    by (simp add: st_def [symmetric] Let_def st dv)
qed

section \<open>Two specifications that do not mean what they say\<close>

text \<open>A numeric date without a year falls into the year 30000, the marker that \<open>rrd_parsetime\<close> leaves in \<open>tm_year\<close>.\<close>

lemma date_without_year:
  "case rrd_parsetime utc_env ''12/31'' of
     Inr v \<Rightarrow> tm_mday (tv_tm v) = 31 \<and> tm_mon (tv_tm v) = 11 \<and> tm_year (tv_tm v) = 30000 - 1900 | Inl e \<Rightarrow> False"
  by code_simp

text \<open>\<open>epoch+5s\<close> is not the time 5: nothing takes the reference to the epoch into account.\<close>

lemma epoch_offset:
  "case rrd_parsetime utc_env ''epoch+5s'' of Inr v \<Rightarrow> fst (time_of utc_env v) = - 2209075195 | Inl e \<Rightarrow> False"
  by code_simp

end
