(* ===== verification/Resize.thy ===== *)
theory Resize
  imports Fetch C_Strings
begin

text \<open>
  Changing the number of rows of one archive (\<open>rrd_resize.c\<close>). The old file is read value by value and the new one
  written value by value, through the file operations of \<open>Rra_Store\<close>; growing inserts unknown rows behind the
  current row, shrinking leaves out the rows behind it, which may wrap to the start of the archive.
\<close>

section \<open>Copying values\<close>

text \<open>\<open>strtol(str, &endptr, 0)\<close>, whose \<open>endptr\<close> is ignored.\<close>

definition strtol0 :: "string \<Rightarrow> int" where
  "strtol0 str = fst (strtol_base0 str)"

datatype resize_error = ReservedName | WrongParameterCount | OnlyGrowOrShrink | AtLeastOneRow | NoSuchRra | RraNotThatBig
  | UnknownVersion

text \<open>The variable \<open>buffer\<close>, the old file and the new file. A read that fails leaves the buffer as it was.\<close>

record copy_state =
  cp_buffer :: dbl
  cp_old :: rrd
  cp_new :: rrd

definition put_value :: "copy_state \<Rightarrow> copy_state" where
  "put_value cs = cs\<lparr>cp_new := snd (rrd_write [cp_buffer cs] (cp_new cs))\<rparr>"

definition copy_value :: "copy_state \<Rightarrow> copy_state" where
  "copy_value cs =
     (case rrd_read 1 (cp_old cs) of (vs, old) \<Rightarrow>
        put_value (cs\<lparr>cp_old := old, cp_buffer := (case vs of [] \<Rightarrow> cp_buffer cs | v # _ \<Rightarrow> v)\<rparr>))"

definition copy_values :: "nat \<Rightarrow> copy_state \<Rightarrow> copy_state" where
  "copy_values n = copy_value ^^ n"

definition put_values :: "nat \<Rightarrow> copy_state \<Rightarrow> copy_state" where
  "put_values n = put_value ^^ n"

definition skip_rows :: "nat \<Rightarrow> copy_state \<Rightarrow> copy_state" where
  "skip_rows n = (\<lambda>cs. cs\<lparr>cp_old := snd (rrd_seek (int (dscnt (cp_new cs))) SEEK_CUR (cp_old cs))\<rparr>) ^^ n"

lemma rrd_read_1:
  "rrd_read (Suc 0) s = (if pos s < length (rrd_value s) then ([rrd_value s ! pos s], s\<lparr>pos := pos s + 1\<rparr>) else ([], s))"
proof (cases "pos s < length (rrd_value s)")
  case True
  then have "take (Suc 0) (drop (pos s) (rrd_value s)) = [rrd_value s ! pos s]"
    by (simp add: take_Suc hd_drop_conv_nth)
  with True show ?thesis by (simp add: rrd_read_def Let_def)
next
  case False
  then show ?thesis by (auto simp: rrd_read_def Let_def)
qed

text \<open>The loop until the old file ends. What does not fit into the new file is read and not written.\<close>

function copy_rest :: "copy_state \<Rightarrow> copy_state" where
  "copy_rest cs =
     (case rrd_read 1 (cp_old cs) of
        ([], old) \<Rightarrow> cs\<lparr>cp_old := old\<rparr>
      | (v # _, old) \<Rightarrow>
          let cs = cs\<lparr>cp_old := old, cp_buffer := v\<rparr>
          in copy_rest (if pos (cp_new cs) + 1 > length (rrd_value (cp_new cs)) then cs else put_value cs))"
  by pat_completeness auto

termination
proof (relation "measure (\<lambda>cs. length (rrd_value (cp_old cs)) - pos (cp_old cs))", goal_cases)
  case 1
  then show ?case by simp
next
  case (2 cs p old v vs cs')
  from 2(1) have "(v # vs, old) = rrd_read (Suc 0) (cp_old cs)" using 2(2) by simp
  then have "old = (cp_old cs)\<lparr>pos := pos (cp_old cs) + 1\<rparr>" "pos (cp_old cs) < length (rrd_value (cp_old cs))"
    by (auto simp: rrd_read_1 split: if_splits)
  then show ?case by (simp add: 2(3) put_value_def)
qed

declare copy_rest.simps [simp del]

section \<open>Growing and shrinking\<close>

text \<open>The number of values in front of the target archive.\<close>

definition values_before :: "rrd \<Rightarrow> nat \<Rightarrow> nat" where
  "values_before s target = sum_list (map (\<lambda>rra. dscnt s * row_cnt (rra_def s ! rra)) [0 ..< target])"

abbreviation upd_new :: "(rrd \<Rightarrow> rrd) \<Rightarrow> copy_state \<Rightarrow> copy_state" where
  "upd_new f cs \<equiv> cs\<lparr>cp_new := f (cp_new cs)\<rparr>"

definition set_row_cnt :: "nat \<Rightarrow> nat \<Rightarrow> rrd \<Rightarrow> rrd" where
  "set_row_cnt i n s = s\<lparr>rra_def := (rra_def s)[i := (rra_def s ! i)\<lparr>row_cnt := n\<rparr>]\<rparr>"

definition grow_rra :: "nat \<Rightarrow> nat \<Rightarrow> copy_state \<Rightarrow> copy_state" where
  "grow_rra target k cs =
     (let cs = copy_values (dscnt (cp_new cs) * (rra_ptr (cp_new cs) ! target + 1)) cs;
          cs = put_values (dscnt (cp_new cs) * k) (cs\<lparr>cp_buffer := NaN\<rparr>)
      in cs)"

text \<open>
  \<open>k\<close> rows are to go. When the removed part wraps, the rows from the start to \<open>remove_end\<close> are skipped first,
  and the current row moves up by as many.
\<close>

definition shrink_rra :: "nat \<Rightarrow> nat \<Rightarrow> copy_state \<Rightarrow> copy_state" where
  "shrink_rra target k cs =
     (let n = row_cnt (rra_def (cp_new cs) ! target);
          cur = rra_ptr (cp_new cs) ! target;
          remove_end = (cur + k) mod n;
          (first, cur) = (if remove_end \<le> cur then (remove_end + 1, cur - (remove_end + 1)) else (0, cur));
          cs = skip_rows first cs;
          cs = copy_values ((cur + 1) * dscnt (cp_new cs)) cs;
          cs = skip_rows (k - first) cs
      in upd_new (\<lambda>s. set_row_cnt target (n - k) (s\<lparr>rra_ptr := (rra_ptr s)[target := cur]\<rparr>)) cs)"

text \<open>The header of the new file: the parts of the old one, at the start of the file, with the version of a file that has a long live head.\<close>

definition new_header :: "rrd \<Rightarrow> rrd" where
  "new_header old = old\<lparr>pos := 0, legacy_last_up := None, stat_head := (stat_head old)\<lparr>version :=
     (if atoi (version (stat_head old)) = 1 then (version (stat_head old))[3 := CHR ''3''] else version (stat_head old))\<rparr>\<rparr>"

text \<open>
  The whole command on an opened database, from the words behind the command name. The new file is allocated with
  the new size; \<open>fill\<close> is what its values are before they are written.
\<close>

definition resize_file :: "dbl \<Rightarrow> nat \<Rightarrow> bool \<Rightarrow> nat \<Rightarrow> rrd \<Rightarrow> rrd" where
  "resize_file fill target grow k old =
     (let n = row_cnt (rra_def old ! target);
          n' = (if grow then n + k else n - k);
          size = rra_total (dscnt old) ((rra_def old)[target := (rra_def old ! target)\<lparr>row_cnt := n'\<rparr>]);
          new = (new_header old)\<lparr>rrd_value := replicate size fill\<rparr>;
          cs = copy_values (values_before old target) \<lparr>cp_buffer = fill, cp_old = old, cp_new = new\<rparr>;
          cs = (if grow then grow_rra target k cs else shrink_rra target k cs);
          cs = copy_rest cs
      in set_row_cnt target n' (cp_new cs))"

definition rrd_resize :: "dbl \<Rightarrow> string list \<Rightarrow> rrd \<Rightarrow> resize_error + rrd" where
  "rrd_resize fill args old =
     (if args \<noteq> [] \<and> hd args = ''resize.rrd'' then Inl ReservedName
      else case args of
        [_, rra, verb, num] \<Rightarrow>
          let target = u64 (strtol0 rra); modify = strtol0 num in
          if verb \<noteq> ''GROW'' \<and> verb \<noteq> ''SHRINK'' then Inl OnlyGrowOrShrink
          else if modify < 1 then Inl AtLeastOneRow
          else if target \<ge> rracnt old then Inl NoSuchRra
          else if verb = ''SHRINK'' \<and> s64 (int (row_cnt (rra_def old ! target))) \<le> modify then Inl RraNotThatBig
          else if atoi (version (stat_head old)) \<notin> {4, 3, 1} then Inl UnknownVersion
          else Inr (resize_file fill target (verb = ''GROW'') (nat modify) (old\<lparr>pos := 0\<rparr>))
      | _ \<Rightarrow> Inl WrongParameterCount)"

section \<open>What has been written\<close>

text \<open>
  The new file is written from its start. \<open>cstate O' N L p W\<close>: the old file stands at \<open>p\<close>, \<open>W\<close> has been written, and
  the new file has length \<open>L\<close>; nothing else of either has changed.
\<close>

definition cstate :: "rrd \<Rightarrow> rrd \<Rightarrow> nat \<Rightarrow> nat \<Rightarrow> dbl list \<Rightarrow> copy_state \<Rightarrow> bool" where
  "cstate O' N L p W cs \<longleftrightarrow>
     cp_old cs = O'\<lparr>pos := p\<rparr> \<and>
     (\<exists>v. cp_new cs = N\<lparr>rrd_value := v, pos := length W\<rparr> \<and> length v = L \<and> take (length W) v = W \<and> length W \<le> L)"

lemma cstate_buffer [simp]: "cstate O' N L p W (cs\<lparr>cp_buffer := b\<rparr>) = cstate O' N L p W cs"
  by (simp add: cstate_def)

lemma put_value_cstate:
  assumes "cstate O' N L p W cs" and "length W < L"
  shows "cstate O' N L p (W @ [cp_buffer cs]) (put_value cs) \<and> cp_buffer (put_value cs) = cp_buffer cs"
proof -
  from assms(1) obtain v where old: "cp_old cs = O'\<lparr>pos := p\<rparr>" and n: "cp_new cs = N\<lparr>rrd_value := v, pos := length W\<rparr>"
    and v: "length v = L" "take (length W) v = W" by (auto simp: cstate_def)
  let ?v = "take (length W) v @ [cp_buffer cs] @ drop (length W + 1) v"
  have "snd (rrd_write [cp_buffer cs] (cp_new cs)) = N\<lparr>rrd_value := ?v, pos := length (W @ [cp_buffer cs])\<rparr>"
    using n v assms(2) by (simp add: rrd_write_def Let_def)
  moreover have "length ?v = L" "take (length (W @ [cp_buffer cs])) ?v = W @ [cp_buffer cs]" using v assms(2) by simp_all
  ultimately show ?thesis
    using old assms(2) unfolding cstate_def put_value_def by (auto intro!: exI [of _ ?v])
qed

lemma put_values_cstate:
  assumes "cstate O' N L p W cs" and "length W + n \<le> L"
  shows "cstate O' N L p (W @ replicate n (cp_buffer cs)) (put_values n cs)"
proof -
  have "length W + n \<le> L \<Longrightarrow> cstate O' N L p (W @ replicate n (cp_buffer cs)) (put_values n cs) \<and> cp_buffer (put_values n cs) = cp_buffer cs"
  proof (induction n)
    case 0
    then show ?case using assms(1) by (simp add: put_values_def)
  next
    case (Suc n)
    then show ?case
      using put_value_cstate [of O' N L p "W @ replicate n (cp_buffer cs)" "put_values n cs"]
      by (simp add: put_values_def replicate_append_same [symmetric])
  qed
  with assms(2) show ?thesis by simp
qed

lemma copy_value_cstate:
  assumes "cstate O' N L p W cs" and "p < length (rrd_value O')" and "length W < L"
  shows "cstate O' N L (p + 1) (W @ [rrd_value O' ! p]) (copy_value cs)"
proof -
  have "copy_value cs = put_value (cs\<lparr>cp_old := O'\<lparr>pos := p + 1\<rparr>, cp_buffer := rrd_value O' ! p\<rparr>)"
    using assms(1,2) by (simp add: copy_value_def rrd_read_1 cstate_def)
  moreover have "cstate O' N L (p + 1) W (cs\<lparr>cp_old := O'\<lparr>pos := p + 1\<rparr>, cp_buffer := rrd_value O' ! p\<rparr>)"
    using assms(1) by (simp add: cstate_def)
  ultimately show ?thesis using put_value_cstate [OF _ assms(3)] by fastforce
qed

lemma copy_values_cstate:
  assumes "cstate O' N L p W cs" and "p + n \<le> length (rrd_value O')" and "length W + n \<le> L"
  shows "cstate O' N L (p + n) (W @ take n (drop p (rrd_value O'))) (copy_values n cs)"
  using assms(2,3)
proof (induction n)
  case 0
  then show ?case using assms(1) by (simp add: copy_values_def)
next
  case (Suc n)
  then have "cstate O' N L (p + n) (W @ take n (drop p (rrd_value O'))) (copy_values n cs)" by simp
  from copy_value_cstate [OF this] Suc.prems show ?case
    by (simp add: copy_values_def take_Suc_conv_app_nth)
qed

lemma skip_rows_cstate:
  assumes "cstate O' N L p W cs"
  shows "cstate O' N L (p + n * dscnt N) W (skip_rows n cs)"
proof (induction n)
  case 0
  then show ?case using assms by (simp add: skip_rows_def)
next
  case (Suc n)
  then show ?case by (auto simp: skip_rows_def cstate_def rrd_seek_def nat_add_distrib nat_int_add add.commute add.left_commute)
qed

lemma copy_rest_cstate:
  assumes "cstate O' N L p W cs"
  shows "\<exists>q. cstate O' N L q (W @ take (L - length W) (drop p (rrd_value O'))) (copy_rest cs)"
  using assms
proof (induction cs arbitrary: p W rule: copy_rest.induct)
  case (1 cs)
  have old: "cp_old cs = O'\<lparr>pos := p\<rparr>" and le: "length W \<le> L" using "1.prems" by (auto simp: cstate_def)
  have new: "pos (cp_new cs) = length W" "length (rrd_value (cp_new cs)) = L" using "1.prems" by (auto simp: cstate_def)
  show ?case
  proof (cases "p < length (rrd_value O')")
    case False
    then have "copy_rest cs = cs" using old by (subst copy_rest.simps) (simp add: rrd_read_1)
    with False "1.prems" show ?thesis by auto
  next
    case True
    define cs1 where "cs1 = cs\<lparr>cp_old := O'\<lparr>pos := p + 1\<rparr>, cp_buffer := rrd_value O' ! p\<rparr>"
    have r: "rrd_read 1 (cp_old cs) = ([rrd_value O' ! p], O'\<lparr>pos := p + 1\<rparr>)" using True old by (simp add: rrd_read_1)
    have step: "copy_rest cs = copy_rest (if length W + 1 > L then cs1 else put_value cs1)"
      using r new by (subst copy_rest.simps) (simp add: cs1_def)
    have c1: "cstate O' N L (p + 1) W cs1" using "1.prems" by (simp add: cs1_def cstate_def)
    define W' where "W' = (if length W + 1 > L then W else W @ [rrd_value O' ! p])"
    have "cstate O' N L (p + 1) W' (if length W + 1 > L then cs1 else put_value cs1)"
      using c1 put_value_cstate [OF c1] by (auto simp: W'_def cs1_def)
    from "1.IH" [OF r [symmetric] refl refl, unfolded Let_def, folded cs1_def] this
    have "\<exists>q. cstate O' N L q (W' @ take (L - length W') (drop (p + 1) (rrd_value O'))) (copy_rest cs)"
      using new step by (simp add: cs1_def)
    moreover have "W' @ take (L - length W') (drop (p + 1) (rrd_value O')) = W @ take (L - length W) (drop p (rrd_value O'))"
      using True le by (auto simp: W'_def Cons_nth_drop_Suc [symmetric] take_Cons' simp del: take_Suc_Cons)
    ultimately show ?thesis by simp
  qed
qed

section \<open>Rows of a list of values\<close>

definition rows_of :: "nat \<Rightarrow> nat \<Rightarrow> dbl list \<Rightarrow> dbl list list" where
  "rows_of w n xs = map (\<lambda>r. map (\<lambda>d. xs ! (r * w + d)) [0 ..< w]) [0 ..< n]"

lemma length_rows_of [simp]: "length (rows_of w n xs) = n"
  by (simp add: rows_of_def)

lemma rows_of_cong:
  assumes "\<And>i. i < n * w \<Longrightarrow> xs ! i = ys ! i"
  shows "rows_of w n xs = rows_of w n ys"
  using assms block_index_less [of _ n _ w] by (auto simp: rows_of_def)

lemma rows_of_prefix: "n * w \<le> length xs \<Longrightarrow> rows_of w n (xs @ ys) = rows_of w n xs"
  by (rule rows_of_cong) (simp add: nth_append)

lemma rows_of_append:
  assumes "length xs = m * w"
  shows "rows_of w (m + n) (xs @ ys) = rows_of w m xs @ rows_of w n ys"
proof (rule nth_equalityI)
  fix r assume "r < length (rows_of w (m + n) (xs @ ys))"
  then have r: "r < m + n" by simp
  show "rows_of w (m + n) (xs @ ys) ! r = (rows_of w m xs @ rows_of w n ys) ! r"
  proof (cases "r < m")
    case True
    then have "(xs @ ys) ! (r * w + d) = xs ! (r * w + d)" if "d < w" for d
      using assms block_index_less [OF True that] by (simp add: nth_append)
    then show ?thesis using True r by (simp add: rows_of_def nth_append_left)
  next
    case False
    then have le: "m * w \<le> r * w" by (intro mult_le_mono1) simp
    then have "\<not> r * w + d < m * w" "r * w + d - m * w = (r - m) * w + d" for d
      by (linarith, simp add: diff_mult_distrib)
    then have "(xs @ ys) ! (r * w + d) = ys ! ((r - m) * w + d)" for d
      by (simp only: nth_append assms if_False)
    then have "rows_of w (m + n) (xs @ ys) ! r = rows_of w n ys ! (r - m)"
      using False r by (simp add: rows_of_def)
    also have "\<dots> = (rows_of w m xs @ rows_of w n ys) ! r"
      using False by (simp add: nth_append)
    finally show ?thesis .
  qed
qed simp

lemma rows_of_drop:
  assumes "length xs = n * w" and "k \<le> n"
  shows "rows_of w (n - k) (drop (k * w) xs) = drop k (rows_of w n xs)"
proof -
  have "rows_of w (k + (n - k)) (take (k * w) xs @ drop (k * w) xs) = rows_of w k (take (k * w) xs) @ rows_of w (n - k) (drop (k * w) xs)"
    using assms by (intro rows_of_append) (simp add: mult_le_mono1)
  with assms(2) show ?thesis by simp
qed

lemma rows_of_replicate: "rows_of w n (replicate (w * n) x) = replicate n (replicate w x)"
  by (rule nth_equalityI) (auto simp: rows_of_def mult.commute block_index_less intro!: nth_equalityI)

lemma rra_rows_of:
  assumes "rra_off s i + row_cnt (rra_def s ! i) * dscnt s \<le> length (rrd_value s)"
  shows "rra_rows s i = rows_of (dscnt s) (row_cnt (rra_def s ! i)) (drop (rra_off s i) (rrd_value s))"
  using assms by (auto simp: rra_rows_def rows_of_def rra_cell_def add.assoc)

section \<open>The resized file\<close>

text \<open>The parts of the old data area: in front of the target, its rows up to the current one, its other rows, the rest.\<close>

definition seg_before :: "rrd \<Rightarrow> nat \<Rightarrow> dbl list" where
  "seg_before s i = take (rra_off s i) (rrd_value s)"

definition seg_upto :: "rrd \<Rightarrow> nat \<Rightarrow> dbl list" where
  "seg_upto s i = take ((rra_ptr s ! i + 1) * dscnt s) (drop (rra_off s i) (rrd_value s))"

definition seg_after :: "rrd \<Rightarrow> nat \<Rightarrow> dbl list" where
  "seg_after s i = take ((row_cnt (rra_def s ! i) - (rra_ptr s ! i + 1)) * dscnt s)
     (drop (rra_off s i + (rra_ptr s ! i + 1) * dscnt s) (rrd_value s))"

definition seg_rest :: "rrd \<Rightarrow> nat \<Rightarrow> dbl list" where
  "seg_rest s i = take (rra_total (dscnt s) (rra_def s) - (rra_off s i + row_cnt (rra_def s ! i) * dscnt s))
     (drop (rra_off s i + row_cnt (rra_def s ! i) * dscnt s) (rrd_value s))"

lemma rra_bounds:
  assumes "wf_rrd s" and "i < rracnt s"
  shows "rra_off s i + row_cnt (rra_def s ! i) * dscnt s \<le> rra_total (dscnt s) (rra_def s)"
    "rra_total (dscnt s) (rra_def s) \<le> length (rrd_value s)"
    "(rra_ptr s ! i + 1) * dscnt s + (row_cnt (rra_def s ! i) - (rra_ptr s ! i + 1)) * dscnt s = row_cnt (rra_def s ! i) * dscnt s"
proof -
  show "rra_total (dscnt s) (rra_def s) \<le> length (rrd_value s)" using wf_rrdD(7) [OF assms(1)] .
  show "rra_off s i + row_cnt (rra_def s ! i) * dscnt s \<le> rra_total (dscnt s) (rra_def s)"
    using rra_off_mono [of i "length (rra_def s)" s] assms wf_rrdD(3) [OF assms(1)] by (simp add: rra_off_def)
  have "rra_ptr s ! i + 1 + (row_cnt (rra_def s ! i) - (rra_ptr s ! i + 1)) = row_cnt (rra_def s ! i)"
    using wf_rrdD(10) [OF assms] by simp
  then show "(rra_ptr s ! i + 1) * dscnt s + (row_cnt (rra_def s ! i) - (rra_ptr s ! i + 1)) * dscnt s = row_cnt (rra_def s ! i) * dscnt s"
    by (metis add_mult_distrib)
qed

lemma seg_lengths:
  assumes "wf_rrd s" and "i < rracnt s"
  shows "length (seg_before s i) = rra_off s i" "length (seg_upto s i) = (rra_ptr s ! i + 1) * dscnt s"
    "length (seg_after s i) = (row_cnt (rra_def s ! i) - (rra_ptr s ! i + 1)) * dscnt s"
    "length (seg_rest s i) = rra_total (dscnt s) (rra_def s) - (rra_off s i + row_cnt (rra_def s ! i) * dscnt s)"
  using rra_bounds [OF assms] by (simp_all add: seg_before_def seg_upto_def seg_after_def seg_rest_def)

lemma take_four:
  assumes "t = a + (b + (c + (t - k)))" and "a + b + c = k"
  shows "take t v = take a v @ take b (drop a v) @ take c (drop (a + b) v) @ take (t - k) (drop k v)"
  by (subst assms(1), simp only: take_add drop_drop) (simp add: assms(2) add.commute flip: assms(2))

lemma seg_drops:
  assumes "wf_rrd s" and "i < rracnt s"
  shows "take (rra_total (dscnt s) (rra_def s)) (rrd_value s) = seg_before s i @ seg_upto s i @ seg_after s i @ seg_rest s i"
  unfolding seg_before_def seg_upto_def seg_after_def seg_rest_def
  using rra_bounds [OF assms] by (intro take_four) linarith+

lemma rra_total_split:
  assumes "i < length rs"
  shows "rra_total w rs = rra_total w (take i rs) + row_cnt (rs ! i) * w + rra_total w (drop (Suc i) rs)"
  by (subst id_take_nth_drop [OF assms]) (simp add: rra_total_def)

lemma rra_total_update:
  assumes "i < length rs"
  shows "rra_total w (rs[i := (rs ! i)\<lparr>row_cnt := m\<rparr>]) = rra_total w rs - row_cnt (rs ! i) * w + m * w"
  using assms rra_total_split [OF assms, of w] by (simp add: upd_conv_take_nth_drop) (simp add: rra_total_def)

text \<open>A file with rows \<open>T\<close> for the target, between the unchanged neighbours.\<close>

definition resized :: "rrd \<Rightarrow> nat \<Rightarrow> nat \<Rightarrow> dbl list \<Rightarrow> rrd \<Rightarrow> bool" where
  "resized old i m T t \<longleftrightarrow>
     dscnt t = dscnt old \<and> rracnt t = rracnt old \<and> length T = m * dscnt old \<and>
     rrd_value t = seg_before old i @ T @ seg_rest old i \<and>
     ds_def t = ds_def old \<and> pdp_prep t = pdp_prep old \<and> cdp_prep t = cdp_prep old \<and> live_head t = live_head old \<and>
     pdpstep t = pdpstep old \<and> length (rra_ptr t) = length (rra_ptr old) \<and>
     (\<forall>j. j \<noteq> i \<longrightarrow> rra_ptr t ! j = rra_ptr old ! j) \<and>
     rra_def t = (rra_def old)[i := (rra_def old ! i)\<lparr>row_cnt := m\<rparr>]"

lemma resized_off:
  assumes "wf_rrd old" and "i < rracnt old" and "resized old i m T t" and "j < rracnt old"
  shows "rra_off t j = (if j \<le> i then rra_off old j else rra_off old j - row_cnt (rra_def old ! i) * dscnt old + m * dscnt old)"
proof (cases "j \<le> i")
  case True
  then have "take j (rra_def t) = take j (rra_def old)" using assms(3) by (simp add: resized_def)
  with True assms(3) show ?thesis by (simp add: rra_off_def resized_def)
next
  case False
  have i: "i < length (take j (rra_def old))" using False assms(4) wf_rrdD(3) [OF assms(1)] by simp
  have "take j (rra_def t) = (take j (rra_def old))[i := (take j (rra_def old) ! i)\<lparr>row_cnt := m\<rparr>]"
    using assms(3) False by (simp add: resized_def take_update_swap)
  with rra_total_update [OF i] False assms(3) show ?thesis by (simp add: rra_off_def resized_def)
qed

lemma resized_len:
  assumes "wf_rrd old" and "i < rracnt old" and "resized old i m T t"
  shows "length (rrd_value t) = rra_total (dscnt t) (rra_def t)"
proof -
  have "i < length (rra_def old)" using assms(2) wf_rrdD(3) [OF assms(1)] by simp
  from rra_total_update [OF this, of "dscnt old" m] seg_lengths [OF assms(1,2)] rra_bounds [OF assms(1,2)] assms(3)
  show ?thesis by (simp add: resized_def)
qed

lemma resized_target_rows:
  assumes "wf_rrd old" and "i < rracnt old" and "resized old i m T t"
  shows "rra_rows t i = rows_of (dscnt old) m T"
proof -
  have i: "i < length (rra_def old)" using assms(2) wf_rrdD(3) [OF assms(1)] by simp
  have off: "rra_off t i = length (seg_before old i)"
    using resized_off [OF assms(1-3) assms(2)] seg_lengths [OF assms(1,2)] by simp
  have row: "row_cnt (rra_def t ! i) = m" "dscnt t = dscnt old" and T: "length T = m * dscnt old"
    and v: "rrd_value t = seg_before old i @ T @ seg_rest old i"
    using assms(3) i by (simp_all add: resized_def)
  have "rra_rows t i = rows_of (dscnt old) m (T @ seg_rest old i)"
    using rra_rows_of [of t i] off row v T by simp
  also have "\<dots> = rows_of (dscnt old) m T" by (rule rows_of_prefix) (simp add: T)
  finally show ?thesis .
qed

lemma resized_other_rows:
  assumes wf: "wf_rrd old" and i: "i < rracnt old" and r: "resized old i m T t" and j: "j < rracnt old" and "j \<noteq> i"
  shows "rra_rows t j = rra_rows old j"
proof -
  let ?n = "row_cnt (rra_def old ! i) * dscnt old" and ?w = "row_cnt (rra_def old ! j) * dscnt old"
  have len: "length (rra_def old) = rracnt old" using wf_rrdD(3) [OF wf] .
  have row: "rra_def t ! j = rra_def old ! j" "dscnt t = dscnt old" and T: "length T = m * dscnt old"
    and v: "rrd_value t = seg_before old i @ T @ seg_rest old i"
    using r \<open>j \<noteq> i\<close> by (simp_all add: resized_def)
  note sl = seg_lengths [OF wf i]
  have cells: "rrd_value t ! (rra_off t j + x) = rrd_value old ! (rra_off old j + x)" if x: "x < ?w" for x
  proof (cases "j < i")
    case True
    then have "rra_off old j + ?w \<le> rra_off old i" using rra_off_mono [of j i old] i len by simp
    with True x sl(1) resized_off [OF wf i r j] show ?thesis by (simp add: v nth_append seg_before_def)
  next
    case False
    then have ij: "i < j" using \<open>j \<noteq> i\<close> by simp
    have a: "rra_off old i + ?n \<le> rra_off old j" using rra_off_mono [of i j old] ij j len by simp
    have b: "rra_off old j + ?w \<le> rra_total (dscnt old) (rra_def old)" using rra_bounds(1) [OF wf j] .
    have c: "rra_total (dscnt old) (rra_def old) \<le> length (rrd_value old)" using rra_bounds(2) [OF wf j] .
    have off: "rra_off t j = rra_off old j - ?n + m * dscnt old" using resized_off [OF wf i r j] ij by simp
    have k: "rra_off t j + x = length (seg_before old i @ T) + (rra_off old j + x - (rra_off old i + ?n))"
      unfolding off using a sl(1) T by simp
    have "rrd_value t ! (rra_off t j + x) = seg_rest old i ! (rra_off old j + x - (rra_off old i + ?n))"
      unfolding v k append_assoc [symmetric] by (rule nth_append_length_plus)
    also have "\<dots> = rrd_value old ! (rra_off old j + x)" using a b c x by (simp add: seg_rest_def)
    finally show ?thesis .
  qed
  have "rra_cell t j r' d = rra_cell old j r' d" if "r' < row_cnt (rra_def old ! j)" "d < dscnt old" for r' d
    using cells [OF block_index_less [OF that]] by (simp add: rra_cell_def row add.assoc)
  then show ?thesis by (simp add: rra_rows_def row)
qed

lemma nth_of_slice:
  assumes "drop a (take b v) = xs" and "a + x < b" and "b \<le> length v"
  shows "xs ! x = drop a v ! x"
  using assms by auto

lemma old_log:
  assumes "wf_rrd s" and "i < rracnt s"
  shows "rra_log s i = rows_of (dscnt s) (row_cnt (rra_def s ! i) - (rra_ptr s ! i + 1)) (seg_after s i)
      @ rows_of (dscnt s) (rra_ptr s ! i + 1) (seg_upto s i)"
proof -
  let ?c = "rra_ptr s ! i + 1" and ?m = "row_cnt (rra_def s ! i) - (rra_ptr s ! i + 1)"
  have n: "row_cnt (rra_def s ! i) = ?c + ?m" using wf_rrdD(10) [OF assms] by simp
  note sl = seg_lengths [OF assms] and b = rra_bounds [OF assms]
  have "drop (rra_off s i) (take (rra_total (dscnt s) (rra_def s)) (rrd_value s)) = seg_upto s i @ seg_after s i @ seg_rest s i"
    unfolding seg_drops [OF assms] using sl(1) by simp
  then have "(seg_upto s i @ seg_after s i @ seg_rest s i) ! x = drop (rra_off s i) (rrd_value s) ! x"
    if "x < row_cnt (rra_def s ! i) * dscnt s" for x
    using nth_of_slice [of "rra_off s i" _ "rrd_value s"] b that by simp
  then have "rows_of (dscnt s) (row_cnt (rra_def s ! i)) (seg_upto s i @ seg_after s i @ seg_rest s i)
      = rows_of (dscnt s) (row_cnt (rra_def s ! i)) (drop (rra_off s i) (rrd_value s))" by (rule rows_of_cong)
  then have "rows_of (dscnt s) (row_cnt (rra_def s ! i)) (seg_upto s i @ seg_after s i @ seg_rest s i) = rra_rows s i"
    using rra_rows_of [of s i] b(1,2) by (metis order_trans)
  then have "rra_rows s i = rows_of (dscnt s) (?c + ?m) (seg_upto s i @ seg_after s i @ seg_rest s i)"
    by (simp only: flip: n)
  also have "\<dots> = rows_of (dscnt s) ?c (seg_upto s i) @ rows_of (dscnt s) ?m (seg_after s i)"
    using sl by (simp only: rows_of_append) (simp add: rows_of_prefix)
  finally show ?thesis
    using rotate_append [of "rows_of (dscnt s) ?c (seg_upto s i)"] by (simp add: rra_log_def)
qed

section \<open>Growing and shrinking the log\<close>

lemma values_before_off:
  assumes "wf_rrd s" and "i \<le> rracnt s"
  shows "values_before s i = rra_off s i"
proof -
  have "take i (rra_def s) = map (\<lambda>j. rra_def s ! j) [0 ..< i]"
    using assms wf_rrdD(3) [OF assms(1)] by (intro nth_equalityI) simp_all
  then show ?thesis by (simp add: values_before_def rra_off_def rra_total_def mult.commute comp_def)
qed

lemma cstate_header:
  assumes "cstate O' N L p W cs"
  shows "stat_head (cp_new cs) = stat_head N" "rra_ptr (cp_new cs) = rra_ptr N" "rra_def (cp_new cs) = rra_def N"
  using assms by (auto simp: cstate_def)

lemma cstate_full:
  assumes "cstate O' N L p W cs" and "length W = L"
  shows "cp_new cs = N\<lparr>rrd_value := W, pos := L\<rparr>"
  using assms by (auto simp: cstate_def)

lemma new_header_simps [simp]:
  "pos (new_header old) = 0" "dscnt (new_header old) = dscnt old" "rracnt (new_header old) = rracnt old"
  "pdpstep (new_header old) = pdpstep old" "rra_def (new_header old) = rra_def old" "rra_ptr (new_header old) = rra_ptr old"
  "ds_def (new_header old) = ds_def old" "pdp_prep (new_header old) = pdp_prep old" "cdp_prep (new_header old) = cdp_prep old"
  "live_head (new_header old) = live_head old"
  by (simp_all add: new_header_def)

lemma new_header_start: "(new_header old)\<lparr>rrd_value := v\<rparr> = (new_header old)\<lparr>rrd_value := v, pos := 0\<rparr>"
  by (rule rrd.equality) simp_all

text \<open>The values in front of the target are copied first.\<close>

lemma resize_start:
  assumes "wf_rrd old" and "i < rracnt old" and "pos old = 0" and "rra_off old i \<le> L"
  shows "cstate old (new_header old) L (rra_off old i) (seg_before old i) (copy_values (values_before old i)
    \<lparr>cp_buffer = b, cp_old = old, cp_new = (new_header old)\<lparr>rrd_value := replicate L b\<rparr>\<rparr>)"
proof -
  have "cstate old (new_header old) L 0 [] \<lparr>cp_buffer = b, cp_old = old, cp_new = (new_header old)\<lparr>rrd_value := replicate L b\<rparr>\<rparr>"
    using assms(3) new_header_start [of "replicate L b" old] by (auto simp: cstate_def intro!: exI [of _ "replicate L b"])
  from copy_values_cstate [OF this, of "rra_off old i"] show ?thesis
    using assms rra_bounds [OF assms(1,2)] values_before_off [of old i] by (simp add: seg_before_def)
qed

lemma seg_after_rest:
  assumes "wf_rrd s" and "i < rracnt s"
  shows "take (rra_total (dscnt s) (rra_def s) - (rra_off s i + (rra_ptr s ! i + 1) * dscnt s))
     (drop (rra_off s i + (rra_ptr s ! i + 1) * dscnt s) (rrd_value s)) = seg_after s i @ seg_rest s i"
  using arg_cong [OF seg_drops [OF assms], of "drop (rra_off s i + (rra_ptr s ! i + 1) * dscnt s)"] seg_lengths [OF assms]
  by (simp add: drop_take)

lemma resize_grow:
  assumes "wf_rrd old" and "i < rracnt old" and "pos old = 0"
  shows "resized old i (row_cnt (rra_def old ! i) + k) (seg_upto old i @ replicate (dscnt old * k) NaN @ seg_after old i)
      (resize_file b i True k old)" (is "resized _ _ ?n ?T _")
    and "rra_ptr (resize_file b i True k old) = rra_ptr old"
proof -
  let ?D = "dscnt old" and ?c = "rra_ptr old ! i + 1" and ?N = "new_header old"
  define L where "L = rra_total ?D ((rra_def old)[i := (rra_def old ! i)\<lparr>row_cnt := ?n\<rparr>])"
  have il: "i < length (rra_def old)" using assms(2) wf_rrdD(3) [OF assms(1)] by simp
  note sl = seg_lengths [OF assms(1,2)] and bd = rra_bounds [OF assms(1,2)]
  have len: "length ?T = ?n * ?D" and L: "L = rra_total ?D (rra_def old) + k * ?D"
    using rra_total_update [OF il, of ?D ?n] sl bd by (simp_all add: L_def add_mult_distrib)
  define cs where "cs = copy_values (values_before old i) \<lparr>cp_buffer = b, cp_old = old, cp_new = ?N\<lparr>rrd_value := replicate L b\<rparr>\<rparr>"
  have 1: "cstate old ?N L (rra_off old i) (seg_before old i) cs"
    unfolding cs_def using bd L by (intro resize_start assms) linarith
  have 2: "cstate old ?N L (rra_off old i + ?D * ?c) (seg_before old i @ seg_upto old i) (copy_values (?D * ?c) cs)"
    using copy_values_cstate [OF 1, of "?D * ?c"] sl bd L by (simp add: seg_upto_def mult.commute)
  define cs2 where "cs2 = (copy_values (?D * ?c) cs)\<lparr>cp_buffer := NaN\<rparr>"
  have 3: "cstate old ?N L (rra_off old i + ?D * ?c) ((seg_before old i @ seg_upto old i) @ replicate (?D * k) NaN) (put_values (?D * k) cs2)"
  proof -
    have "cstate old ?N L (rra_off old i + ?D * ?c) (seg_before old i @ seg_upto old i) cs2" using 2 by (simp add: cs2_def)
    moreover have "length (seg_before old i @ seg_upto old i) + ?D * k \<le> L" using sl(1,2) bd L by (simp add: mult.commute)
    ultimately show ?thesis using put_values_cstate by (fastforce simp: cs2_def)
  qed
  have g: "grow_rra i k cs = put_values (?D * k) cs2"
    using cstate_header [OF 1] cstate_header [OF 2] by (simp add: grow_rra_def cs2_def)
  obtain q where 4: "cstate old ?N L q (seg_before old i @ ?T @ seg_rest old i) (copy_rest (grow_rra i k cs))"
  proof -
    from copy_rest_cstate [OF 3] obtain q where q: "cstate old ?N L q
        (((seg_before old i @ seg_upto old i) @ replicate (?D * k) NaN) @ take (L - length ((seg_before old i @ seg_upto old i) @ replicate (?D * k) NaN))
         (drop (rra_off old i + ?D * ?c) (rrd_value old))) (copy_rest (grow_rra i k cs))" unfolding g by blast
    have "L - length ((seg_before old i @ seg_upto old i) @ replicate (?D * k) NaN) = rra_total ?D (rra_def old) - (rra_off old i + ?c * ?D)"
      using sl L by (simp add: mult.commute)
    with q seg_after_rest [OF assms(1,2)] that show thesis by (simp add: mult.commute)
  qed
  have full: "length (seg_before old i @ ?T @ seg_rest old i) = L"
    unfolding length_append [of "seg_before old i"] length_append [of ?T] len sl(1,4) L add_mult_distrib using bd(1) by linarith
  have R: "resize_file b i True k old = set_row_cnt i ?n (?N\<lparr>rrd_value := seg_before old i @ ?T @ seg_rest old i, pos := L\<rparr>)"
    using cstate_full [OF 4 full] by (simp add: resize_file_def Let_def cs_def L_def)
  show "resized old i ?n ?T (resize_file b i True k old)" unfolding R using len by (simp add: resized_def set_row_cnt_def)
  show "rra_ptr (resize_file b i True k old) = rra_ptr old" unfolding R by (simp add: set_row_cnt_def)
qed

text \<open>The rows that go from the front of the archive, and those that go from behind the current row.\<close>

definition shrink_first :: "nat \<Rightarrow> nat \<Rightarrow> nat \<Rightarrow> nat" where
  "shrink_first n cur k = (if (cur + k) mod n \<le> cur then (cur + k) mod n + 1 else 0)"

lemma shrink_first:
  assumes "cur < n" and "0 < k" and "k < n"
  shows "shrink_first n cur k \<le> k" "shrink_first n cur k \<le> cur" "k - shrink_first n cur k \<le> n - (cur + 1)"
    "shrink_first n cur k = 0 \<or> k - shrink_first n cur k = n - (cur + 1)"
proof -
  have "(cur + k) mod n = (if cur + k < n then cur + k else cur + k - n)" using assms by (simp add: mod_if)
  with assms show "shrink_first n cur k \<le> k" "shrink_first n cur k \<le> cur" "k - shrink_first n cur k \<le> n - (cur + 1)"
    "shrink_first n cur k = 0 \<or> k - shrink_first n cur k = n - (cur + 1)"
    by (auto simp: shrink_first_def)
qed

lemma shrink_rra_alt:
  "shrink_rra target k cs =
     (let n = row_cnt (rra_def (cp_new cs) ! target); cur = rra_ptr (cp_new cs) ! target; f = shrink_first n cur k;
          cs = skip_rows (k - f) (copy_values ((cur - f + 1) * dscnt (cp_new (skip_rows f cs))) (skip_rows f cs))
      in upd_new (\<lambda>s. set_row_cnt target (n - k) (s\<lparr>rra_ptr := (rra_ptr s)[target := cur - f]\<rparr>)) cs)"
  by (simp add: shrink_rra_def shrink_first_def Let_def)

lemma cstate_upd_new:
  assumes "cstate O' N L p W cs"
  shows "cstate O' (set_row_cnt i n (N\<lparr>rra_ptr := (rra_ptr N)[i := c]\<rparr>)) L p W
    (upd_new (\<lambda>s. set_row_cnt i n (s\<lparr>rra_ptr := (rra_ptr s)[i := c]\<rparr>)) cs)"
proof -
  from assms obtain v where v: "cp_new cs = N\<lparr>rrd_value := v, pos := length W\<rparr>" "length v = L" "take (length W) v = W" "length W \<le> L"
    and o: "cp_old cs = O'\<lparr>pos := p\<rparr>" by (auto simp: cstate_def)
  then show ?thesis
    unfolding cstate_def by (intro conjI exI [of _ v]) (auto simp: set_row_cnt_def intro!: rrd.equality)
qed

lemma seg_upto_tail:
  assumes "wf_rrd s" and "i < rracnt s" and "f \<le> rra_ptr s ! i"
  shows "take ((rra_ptr s ! i - f + 1) * dscnt s) (drop (rra_off s i + f * dscnt s) (rrd_value s)) = drop (f * dscnt s) (seg_upto s i)"
proof -
  have "(rra_ptr s ! i + 1) * dscnt s - f * dscnt s = (rra_ptr s ! i - f + 1) * dscnt s"
    using assms(3) by (metis Nat.add_diff_assoc2 diff_mult_distrib)
  then show ?thesis by (simp add: seg_upto_def drop_take add.commute)
qed

lemma cut_arith:
  fixes x :: nat
  assumes "x + (a - d) = m" and "d \<le> a" and "off + n \<le> t" and "c + a = n"
  shows "t - n + m - (off + x) = t - (off + c) - d"
  using assms by linarith

lemma resize_shrink:
  assumes "wf_rrd old" and "i < rracnt old" and "pos old = 0" and "0 < k" and "k < row_cnt (rra_def old ! i)"
  defines "f \<equiv> shrink_first (row_cnt (rra_def old ! i)) (rra_ptr old ! i) k"
  shows "resized old i (row_cnt (rra_def old ! i) - k)
      (drop (f * dscnt old) (seg_upto old i) @ drop ((k - f) * dscnt old) (seg_after old i)) (resize_file b i False k old)"
      (is "resized _ _ ?n ?T _")
    and "rra_ptr (resize_file b i False k old) = (rra_ptr old)[i := rra_ptr old ! i - f]"
proof -
  let ?D = "dscnt old" and ?cur = "rra_ptr old ! i" and ?N = "new_header old"
  define L where "L = rra_total ?D ((rra_def old)[i := (rra_def old ! i)\<lparr>row_cnt := ?n\<rparr>])"
  have il: "i < length (rra_def old)" using assms(2) wf_rrdD(3) [OF assms(1)] by simp
  have cur: "?cur < row_cnt (rra_def old ! i)" using wf_rrdD(10) [OF assms(1,2)] .
  note sl = seg_lengths [OF assms(1,2)] and bd = rra_bounds [OF assms(1,2)]
    and fk = shrink_first [OF cur assms(4,5), folded f_def]
  have "?cur + 1 - f + (row_cnt (rra_def old ! i) - (?cur + 1) - (k - f)) = ?n" using fk assms(4,5) cur by linarith
  then have len: "length ?T = ?n * ?D" unfolding length_append length_drop sl by (metis add_mult_distrib diff_mult_distrib)
  have L: "L = rra_total ?D (rra_def old) - row_cnt (rra_def old ! i) * ?D + ?n * ?D"
    using rra_total_update [OF il, of ?D ?n] by (simp add: L_def)
  define cs where "cs = copy_values (values_before old i) \<lparr>cp_buffer = b, cp_old = old, cp_new = ?N\<lparr>rrd_value := replicate L b\<rparr>\<rparr>"
  have 1: "cstate old ?N L (rra_off old i) (seg_before old i) cs"
    unfolding cs_def using bd L by (intro resize_start assms) linarith
  have 2: "cstate old ?N L (rra_off old i + f * ?D) (seg_before old i) (skip_rows f cs)"
    using skip_rows_cstate [OF 1, of f] by simp
  let ?cs3 = "copy_values ((?cur - f + 1) * dscnt (cp_new (skip_rows f cs))) (skip_rows f cs)"
  have fc: "f * ?D + (?cur - f + 1) * ?D = (?cur + 1) * ?D"
    using fk(2) by (metis add_mult_distrib le_add_diff_inverse add.assoc)
  have le: "(?cur - f + 1) * ?D \<le> ?n * ?D" using len fc sl(2) by (simp add: length_append)
  have 3: "cstate old ?N L (rra_off old i + (?cur + 1) * ?D) (seg_before old i @ drop (f * ?D) (seg_upto old i)) ?cs3"
  proof -
    have a: "rra_off old i + f * ?D + (?cur - f + 1) * ?D \<le> length (rrd_value old)" using fc bd by linarith
    have b: "length (seg_before old i) + (?cur - f + 1) * ?D \<le> L" unfolding L sl(1) using bd(1) le by linarith
    have c: "rra_off old i + f * ?D + (?cur - f + 1) * ?D = rra_off old i + (?cur + 1) * ?D" using fc by linarith
    have d: "dscnt (cp_new (skip_rows f cs)) = ?D" using cstate_header(1) [OF 2] by simp
    show ?thesis
      using copy_values_cstate [OF 2 a b] unfolding c d seg_upto_tail [OF assms(1,2) fk(2)] .
  qed
  have 4: "cstate old ?N L (rra_off old i + (?cur + 1) * ?D + (k - f) * ?D) (seg_before old i @ drop (f * ?D) (seg_upto old i)) (skip_rows (k - f) ?cs3)"
    using skip_rows_cstate [OF 3, of "k - f"] by simp
  let ?N' = "set_row_cnt i ?n (?N\<lparr>rra_ptr := (rra_ptr ?N)[i := ?cur - f]\<rparr>)"
  have 5: "cstate old ?N' L (rra_off old i + (?cur + 1) * ?D + (k - f) * ?D) (seg_before old i @ drop (f * ?D) (seg_upto old i)) (shrink_rra i k cs)"
    using cstate_upd_new [OF 4, of i ?n "?cur - f"] cstate_header(2,3) [OF 1] by (simp add: shrink_rra_alt Let_def flip: f_def)
  have cut: "take (L - length (seg_before old i @ drop (f * ?D) (seg_upto old i))) (drop (rra_off old i + (?cur + 1) * ?D + (k - f) * ?D) (rrd_value old))
      = drop ((k - f) * ?D) (seg_after old i) @ seg_rest old i"
  proof -
    have a: "(k - f) * ?D \<le> length (seg_after old i)" using fk(3) sl(3) by (simp add: mult_le_mono1)
    have "L - length (seg_before old i @ drop (f * ?D) (seg_upto old i))
        = rra_total ?D (rra_def old) - (rra_off old i + (?cur + 1) * ?D) - (k - f) * ?D"
      using cut_arith [OF len [unfolded length_append length_drop [of _ "seg_after old i"]] a bd(1)] bd(3)
      unfolding length_append sl L by simp
    then show ?thesis
      using arg_cong [OF seg_after_rest [OF assms(1,2)], of "drop ((k - f) * ?D)"] a by (simp add: drop_take add.commute)
  qed
  from copy_rest_cstate [OF 5] cut obtain q where 6: "cstate old ?N' L q (seg_before old i @ ?T @ seg_rest old i) (copy_rest (shrink_rra i k cs))"
    by (auto simp: append_assoc)
  have full: "length (seg_before old i @ ?T @ seg_rest old i) = L"
    unfolding length_append [of "seg_before old i"] length_append [of ?T] len sl(1,4) L using bd(1) by linarith
  have R: "resize_file b i False k old = set_row_cnt i ?n (?N'\<lparr>rrd_value := seg_before old i @ ?T @ seg_rest old i, pos := L\<rparr>)"
    using cstate_full [OF 6 full] by (simp add: resize_file_def Let_def cs_def L_def)
  show "resized old i ?n ?T (resize_file b i False k old)" unfolding R using len il by (simp add: resized_def set_row_cnt_def)
  show "rra_ptr (resize_file b i False k old) = (rra_ptr old)[i := ?cur - f]" unfolding R by (simp add: set_row_cnt_def)
qed

lemma rows_log:
  assumes "rra_rows s i = U @ A" and "length U = rra_ptr s ! i + 1"
  shows "rra_log s i = A @ U"
  using rotate_append [of U A] assms by (simp add: rra_log_def)

lemma grow_log:
  assumes "wf_rrd old" and "i < rracnt old" and "pos old = 0"
  shows "rra_log (resize_file b i True k old) i = replicate k (replicate (dscnt old) NaN) @ rra_log old i"
proof -
  let ?D = "dscnt old" and ?c = "rra_ptr old ! i + 1" and ?m = "row_cnt (rra_def old ! i) - (rra_ptr old ! i + 1)"
  note sl = seg_lengths [OF assms(1,2)] and g = resize_grow [OF assms, where b = b and k = k]
  have "row_cnt (rra_def old ! i) + k = ?c + (k + ?m)" using wf_rrdD(10) [OF assms(1,2)] by simp
  then have "rra_rows (resize_file b i True k old) i
      = rows_of ?D (?c + (k + ?m)) (seg_upto old i @ replicate (?D * k) NaN @ seg_after old i)"
    using resized_target_rows [OF assms(1,2) g(1)] by (simp only:)
  also have "\<dots> = rows_of ?D ?c (seg_upto old i) @ replicate k (replicate ?D NaN) @ rows_of ?D ?m (seg_after old i)"
    by (subst rows_of_append, rule sl, subst rows_of_append, simp add: mult.commute, simp only: rows_of_replicate)
  finally have "rra_log (resize_file b i True k old) i
      = (replicate k (replicate ?D NaN) @ rows_of ?D ?m (seg_after old i)) @ rows_of ?D ?c (seg_upto old i)"
    by (rule rows_log) (simp add: g(2))
  then show ?thesis by (simp only: old_log [OF assms(1,2)] append_assoc)
qed

lemma shrink_log:
  assumes "wf_rrd old" and "i < rracnt old" and "pos old = 0" and "0 < k" and "k < row_cnt (rra_def old ! i)"
  shows "rra_log (resize_file b i False k old) i = drop k (rra_log old i)"
proof -
  let ?D = "dscnt old" and ?c = "rra_ptr old ! i + 1" and ?m = "row_cnt (rra_def old ! i) - (rra_ptr old ! i + 1)"
  define f where "f = shrink_first (row_cnt (rra_def old ! i)) (rra_ptr old ! i) k"
  have cur: "rra_ptr old ! i < row_cnt (rra_def old ! i)" using wf_rrdD(10) [OF assms(1,2)] .
  note sl = seg_lengths [OF assms(1,2)] and g = resize_shrink [OF assms, of b, folded f_def]
    and fk = shrink_first [OF cur assms(4,5), folded f_def]
  let ?U = "rows_of ?D ?c (seg_upto old i)" and ?A = "rows_of ?D ?m (seg_after old i)"
  have n: "row_cnt (rra_def old ! i) - k = (?c - f) + (?m - (k - f))" using fk cur assms(4,5) by linarith
  have "rra_rows (resize_file b i False k old) i
      = rows_of ?D (?c - f + (?m - (k - f))) (drop (f * ?D) (seg_upto old i) @ drop ((k - f) * ?D) (seg_after old i))"
    using resized_target_rows [OF assms(1,2) g(1)] by (simp only: n)
  also have "\<dots> = rows_of ?D (?c - f) (drop (f * ?D) (seg_upto old i)) @ rows_of ?D (?m - (k - f)) (drop ((k - f) * ?D) (seg_after old i))"
    by (rule rows_of_append) (simp add: sl diff_mult_distrib)
  also have "\<dots> = drop f ?U @ drop (k - f) ?A"
    using rows_of_drop [OF sl(2), of f] rows_of_drop [OF sl(3), of "k - f"] fk by simp
  finally have "rra_log (resize_file b i False k old) i = drop (k - f) ?A @ drop f ?U"
    using g(2) fk(2) assms(2) wf_rrdD(4) [OF assms(1)] by (intro rows_log) auto
  also have "\<dots> = drop k (?A @ ?U)"
  proof (cases "f = 0")
    case False
    then have "k = ?m + f" using fk by linarith
    then show ?thesis by simp
  qed (use fk(3) in simp)
  finally show ?thesis by (simp only: old_log [OF assms(1,2)])
qed

lemma wf_resized:
  assumes wf: "wf_rrd old" and i: "i < rracnt old" and r: "resized old i m T t" and "rra_ptr t ! i < m"
  shows "wf_rrd t"
proof -
  have "row_cnt (rra_def t ! j) = (if j = i then m else row_cnt (rra_def old ! j))" "pdp_cnt (rra_def t ! j) = pdp_cnt (rra_def old ! j)"
      "cf_nam (rra_def t ! j) = cf_nam (rra_def old ! j)" if "j < rracnt old" for j
    using r i that wf_rrdD(3) [OF wf] by (auto simp: resized_def nth_list_update)
  then show ?thesis
    using assms resized_len [OF wf i r] wf_rrdD(8-12) [OF wf]
    by (auto simp: wf_rrd_def resized_def list_all_length list_all2_conv_all_nth)
qed

lemma resized_other_log:
  assumes "wf_rrd old" and "i < rracnt old" and "resized old i m T t" and "j < rracnt old" and "j \<noteq> i"
  shows "rra_log t j = rra_log old j"
  using resized_other_rows [OF assms] assms(3,5) by (simp add: rra_log_def resized_def)

lemma s64_le: "0 \<le> i \<Longrightarrow> s64 i \<le> i"
  using zmod_le_nonneg_dividend [of "i + 2 ^ 63" "2 ^ 64"] by (simp add: s64_def)

lemma rrd_resizeD:
  assumes "rrd_resize b [f, rra, verb, num] old = Inr new"
  shows "u64 (strtol0 rra) < rracnt old" "0 < nat (strtol0 num)"
    "new = resize_file b (u64 (strtol0 rra)) (verb = ''GROW'') (nat (strtol0 num)) (old\<lparr>pos := 0\<rparr>)"
    "verb \<noteq> ''GROW'' \<Longrightarrow> nat (strtol0 num) < row_cnt (rra_def old ! u64 (strtol0 rra))"
proof -
  show "u64 (strtol0 rra) < rracnt old" "0 < nat (strtol0 num)"
    "new = resize_file b (u64 (strtol0 rra)) (verb = ''GROW'') (nat (strtol0 num)) (old\<lparr>pos := 0\<rparr>)"
    using assms by (auto simp: rrd_resize_def Let_def split: if_splits)
  assume "verb \<noteq> ''GROW''"
  with assms have "strtol0 num < s64 (int (row_cnt (rra_def old ! u64 (strtol0 rra))))" "strtol0 num \<ge> 1"
    by (auto simp: rrd_resize_def Let_def split: if_splits)
  with s64_le [of "int (row_cnt (rra_def old ! u64 (strtol0 rra)))"]
  show "nat (strtol0 num) < row_cnt (rra_def old ! u64 (strtol0 rra))" by linarith
qed

lemma pos_irrelevant [simp]:
  "wf_rrd (s\<lparr>pos := n\<rparr>) = wf_rrd s" "rra_log (s\<lparr>pos := n\<rparr>) i = rra_log s i"
  by (simp_all add: wf_rrd_def rra_log_def rra_rows_def rra_cell_def rra_off_def cong: map_cong)

lemma resize_grow_ok:
  assumes "wf_rrd old" and "rrd_resize b [f, rra, ''GROW'', num] old = Inr new"
  shows "wf_rrd new" "rra_log new (u64 (strtol0 rra)) = replicate (nat (strtol0 num)) (replicate (dscnt old) NaN) @ rra_log old (u64 (strtol0 rra))"
    "j < rracnt old \<Longrightarrow> j \<noteq> u64 (strtol0 rra) \<Longrightarrow> rra_log new j = rra_log old j"
proof -
  let ?o = "old\<lparr>pos := 0\<rparr>" and ?i = "u64 (strtol0 rra)" and ?k = "nat (strtol0 num)"
  note d = rrd_resizeD [OF assms(2), simplified]
  have o: "wf_rrd ?o" "?i < rracnt ?o" "pos ?o = 0" using assms d by simp_all
  note g = resize_grow [OF o, where b = b and k = ?k, folded d(3)]
  show "wf_rrd new" using wf_resized [OF o(1,2) g(1)] g(2) wf_rrdD(10) [OF o(1,2)] by simp
  show "rra_log new ?i = replicate ?k (replicate (dscnt old) NaN) @ rra_log old ?i" using grow_log [OF o, where b = b and k = ?k] d(3) by simp
  show "j < rracnt old \<Longrightarrow> j \<noteq> ?i \<Longrightarrow> rra_log new j = rra_log old j" using resized_other_log [OF o(1,2) g(1)] by simp
qed

lemma resize_shrink_ok:
  assumes "wf_rrd old" and "rrd_resize b [f, rra, ''SHRINK'', num] old = Inr new"
  shows "wf_rrd new" "rra_log new (u64 (strtol0 rra)) = drop (nat (strtol0 num)) (rra_log old (u64 (strtol0 rra)))"
    "j < rracnt old \<Longrightarrow> j \<noteq> u64 (strtol0 rra) \<Longrightarrow> rra_log new j = rra_log old j"
proof -
  let ?o = "old\<lparr>pos := 0\<rparr>" and ?i = "u64 (strtol0 rra)" and ?k = "nat (strtol0 num)"
  note d = rrd_resizeD [OF assms(2), simplified]
  have o: "wf_rrd ?o" "?i < rracnt ?o" "pos ?o = 0" "0 < ?k" "?k < row_cnt (rra_def ?o ! ?i)" using assms d by simp_all
  have cur: "rra_ptr ?o ! ?i < row_cnt (rra_def ?o ! ?i)" using wf_rrdD(10) [OF o(1,2)] .
  note g = resize_shrink [OF o, where b = b, folded d(3)] and fk = shrink_first [OF cur o(4,5)]
  have "rra_ptr ?o ! ?i - shrink_first (row_cnt (rra_def ?o ! ?i)) (rra_ptr ?o ! ?i) ?k < row_cnt (rra_def ?o ! ?i) - ?k"
    using fk cur o(5) by linarith
  then show "wf_rrd new" using wf_resized [OF o(1,2) g(1)] g(2) o(2) wf_rrdD(4) [OF o(1)] by simp
  show "rra_log new ?i = drop ?k (rra_log old ?i)" using shrink_log [OF o, where b = b] d(3) by simp
  show "j < rracnt old \<Longrightarrow> j \<noteq> ?i \<Longrightarrow> rra_log new j = rra_log old j" using resized_other_log [OF o(1,2) g(1)] by simp
qed

lemma version_numbers [simp]: "atoi ''0003'' = 3" "atoi ''0004'' = 4"
  by code_simp+

lemma resize_file_version:
  assumes "version (stat_head old) \<in> {''0003'', ''0004''}"
  shows "version (stat_head (resize_file b i True k old)) = version (stat_head old)"
proof -
  have stat: "stat_head (cp_new (copy_rest cs)) = stat_head (cp_new cs)" for cs
    by (induction cs rule: copy_rest.induct)
      (subst copy_rest.simps, auto simp: rrd_read_1 put_value_def rrd_write_def Let_def split: list.splits prod.splits if_splits)
  have v: "stat_head (cp_new (put_value cs)) = stat_head (cp_new cs)" "stat_head (cp_new (copy_value cs)) = stat_head (cp_new cs)" for cs
    by (simp_all add: put_value_def copy_value_def rrd_write_def Let_def split: prod.split)
  have "stat_head (cp_new (put_values n cs)) = stat_head (cp_new cs)" "stat_head (cp_new (copy_values n cs)) = stat_head (cp_new cs)" for n cs
    by (induction n) (simp_all add: put_values_def copy_values_def v)
  with assms stat show ?thesis
    by (auto simp: resize_file_def grow_rra_def set_row_cnt_def new_header_def Let_def)
qed

section \<open>Examples\<close>

text \<open>The first archive of the sample database has three rows and stands at the second: removing two rows wraps.\<close>

lemma strtol0_examples [simp]: "strtol0 ''0'' = 0" "strtol0 ''2'' = 2" "strtol0 ''0x10'' = 16" "strtol0 ''-010'' = - 8"
  by code_simp+

lemma demo_resize:
  "verb \<in> {''GROW'', ''SHRINK''} \<Longrightarrow> rrd_resize NaN [''a.rrd'', ''0'', verb, ''2''] demo_rrd
     = Inr (resize_file NaN 0 (verb = ''GROW'') 2 (demo_rrd\<lparr>pos := 0\<rparr>))"
  by (auto simp: rrd_resize_def Let_def demo_rrd_def demo_rra_def)

section \<open>Claims\<close>

text \<open>
  C19: \<open>rrd_resize file i GROW k\<close> on a well-formed database gives a well-formed database. In the order of time the
  archive's rows are \<open>k\<close> unknown rows followed by all its old rows, wherever its current row stands, and the rows
  of every other archive are what they were.
\<close>

theorem rrd_resize_grow:
  assumes "wf_rrd old" and "rrd_resize b [f, rra, ''GROW'', num] old = Inr new"
  shows "wf_rrd new \<and>
    (\<forall>j < rracnt old. rra_log new j =
      (if j = u64 (strtol0 rra) then replicate (nat (strtol0 num)) (replicate (dscnt old) NaN) else []) @ rra_log old j)"
  using resize_grow_ok [OF assms] by auto

theorem rrd_resize_grow_witness:
  "rra_log (resize_file NaN 0 True 2 (demo_rrd\<lparr>pos := 0\<rparr>)) 0 = [[NaN, NaN], [NaN, NaN]] @ rra_log demo_rrd 0"
  using rrd_resize_grow [OF wf_demo_rrd demo_resize [of "''GROW''", simplified]] by (simp add: numeral_2_eq_2)

text \<open>
  C18: \<open>rrd_resize file i SHRINK k\<close> on a well-formed database gives a well-formed database, in which the oldest \<open>k\<close>
  rows of the archive are gone and the others are kept in order, also when the rows to remove wrap around the end
  of the archive; the rows of every other archive are what they were.
\<close>

theorem rrd_resize_shrink:
  assumes "wf_rrd old" and "rrd_resize b [f, rra, ''SHRINK'', num] old = Inr new"
  shows "wf_rrd new \<and>
    (\<forall>j < rracnt old. rra_log new j = drop (if j = u64 (strtol0 rra) then nat (strtol0 num) else 0) (rra_log old j))"
  using resize_shrink_ok [OF assms] by auto

theorem rrd_resize_shrink_witness:
  "rra_log (resize_file NaN 0 False 2 (demo_rrd\<lparr>pos := 0\<rparr>)) 0 = drop 2 (rra_log demo_rrd 0)"
  using rrd_resize_shrink [OF wf_demo_rrd demo_resize [of "''SHRINK''", simplified]] by simp

text \<open>
  a database that has been grown can be shrunk by the same number of rows, and then every archive has the rows it
  started with.
\<close>

theorem resize_grow_shrink:
  assumes "wf_rrd old" and "version (stat_head old) \<in> {''0003'', ''0004''}"
    and grow: "rrd_resize b [f, rra, ''GROW'', num] old = Inr new"
    and "int (row_cnt (rra_def old ! u64 (strtol0 rra))) + strtol0 num < 2 ^ 63" and "f \<noteq> ''resize.rrd''"
  shows "\<exists>new'. rrd_resize b' [f, rra, ''SHRINK'', num] new = Inr new' \<and> (\<forall>j < rracnt old. rra_log new' j = rra_log old j)"
proof -
  let ?o = "old\<lparr>pos := 0\<rparr>" and ?i = "u64 (strtol0 rra)" and ?k = "nat (strtol0 num)"
  note d = rrd_resizeD [OF grow, simplified] and g = resize_grow_ok [OF assms(1) grow]
  have o: "wf_rrd ?o" "?i < rracnt ?o" "pos ?o = 0" using assms d by simp_all
  note r = resize_grow(1) [OF o, where b = b and k = ?k, folded d(3)]
  have len: "?i < length (rra_def old)" using d(1) wf_rrdD(3) [OF assms(1)] by simp
  have hd: "rracnt new = rracnt old" "row_cnt (rra_def new ! ?i) = row_cnt (rra_def old ! ?i) + ?k" "0 < row_cnt (rra_def old ! ?i)"
    using r len wf_rrdD(8) [OF assms(1) d(1)] by (simp_all add: resized_def)
  have "version (stat_head new) = version (stat_head old)"
    using resize_file_version [of ?o b ?i ?k] assms(2) d(3) by simp
  then have "atoi (version (stat_head new)) \<in> {4, 3, 1}"
    using assms(2) by auto
  moreover have "s64 (int (row_cnt (rra_def new ! ?i))) > strtol0 num" using hd(2,3) assms(4) d(2) by simp
  ultimately obtain new' where s: "rrd_resize b' [f, rra, ''SHRINK'', num] new = Inr new'"
    using d(1,2) hd(1) assms(5) by (simp add: rrd_resize_def Let_def)
  have "rra_log new' j = rra_log old j" if "j < rracnt old" for j
    using resize_shrink_ok(2,3) [OF g(1) s] g(2,3) hd(1) that by (cases "j = ?i") simp_all
  with s show ?thesis by blast
qed

theorem resize_grow_shrink_witness:
  "\<exists>new'. rrd_resize NaN [''a.rrd'', ''0'', ''SHRINK'', ''2''] (resize_file NaN 0 True 2 (demo_rrd\<lparr>pos := 0\<rparr>)) = Inr new' \<and>
     rra_log new' 1 = rra_log demo_rrd 1"
  using resize_grow_shrink [OF wf_demo_rrd _ demo_resize [of "''GROW''", simplified], of NaN] by (auto simp: demo_rrd_def demo_rra_def)

end
