(* ===== verification/Cache_Queue.thy ===== *)
theory Cache_Queue
  imports C_Strings
begin

text \<open>
  The output queue of the caching daemon (\<open>rrd_daemon.c\<close>): cache items in a store, chained in both directions between
  \<open>cache_queue_head\<close> and \<open>cache_queue_tail\<close>, with the two operations \<open>remove_from_queue\<close> and \<open>enqueue_cache_item\<close>
  pointer by pointer. They implement a duplicate-free list of addresses.
\<close>

section \<open>Items and pointers\<close>

text \<open>\<open>struct cache_item_s\<close>; the two bits of \<open>flags\<close> are two fields.\<close>

record cache_item =
  ci_file :: string
  ci_values :: "string list"
  ci_last_flush_time :: int
  ci_last_update_stamp :: dbl
  ci_in_tree :: bool
  ci_in_queue :: bool
  ci_prev :: "nat option"
  ci_next :: "nat option"

type_synonym store = "nat \<Rightarrow> cache_item option"

record cache =
  items :: store
  queue_head :: "nat option"
  queue_tail :: "nat option"
  stats_queue_length :: nat

text \<open>
  Following a pointer to an item that is not (or no longer) allocated, and an assertion that fails, are the result
  \<open>None\<close>.
\<close>

definition upd_item :: "nat \<Rightarrow> (cache_item \<Rightarrow> cache_item) \<Rightarrow> cache \<Rightarrow> cache option" where
  "upd_item a f c = map_option (\<lambda>i. c\<lparr>items := (items c)(a \<mapsto> f i)\<rparr>) (items c a)"

definition remove_from_queue :: "nat \<Rightarrow> cache \<Rightarrow> cache option" where
  "remove_from_queue a c =
     Option.bind (items c a) (\<lambda>ci.
     if \<not> ci_in_queue ci then Some c
     else
       Option.bind (case ci_prev ci of
                      None \<Rightarrow> Some (c\<lparr>queue_head := ci_next ci\<rparr>)
                    | Some p \<Rightarrow> upd_item p (\<lambda>i. i\<lparr>ci_next := ci_next ci\<rparr>) c) (\<lambda>c.
       Option.bind (case ci_next ci of
                      None \<Rightarrow> Some (c\<lparr>queue_tail := ci_prev ci\<rparr>)
                    | Some n \<Rightarrow> upd_item n (\<lambda>i. i\<lparr>ci_prev := ci_prev ci\<rparr>) c) (\<lambda>c.
       Option.bind (upd_item a (\<lambda>i. i\<lparr>ci_prev := None, ci_next := None, ci_in_queue := False\<rparr>) c) (\<lambda>c.
       if stats_queue_length c = 0 then None
       else Some (c\<lparr>stats_queue_length := stats_queue_length c - 1\<rparr>)))))"

datatype queue_side = HEAD | TAIL

definition link_head :: "nat \<Rightarrow> cache \<Rightarrow> cache option" where
  "link_head a c =
     Option.bind (remove_from_queue a c) (\<lambda>c.
     Option.bind (upd_item a (\<lambda>i. i\<lparr>ci_prev := None, ci_next := queue_head c\<rparr>) c) (\<lambda>c.
     Option.bind (case queue_head c of
                    None \<Rightarrow> Some c
                  | Some n \<Rightarrow> upd_item n (\<lambda>i. i\<lparr>ci_prev := Some a\<rparr>) c) (\<lambda>c.
     let c = c\<lparr>queue_head := Some a\<rparr>
     in Some (if queue_tail c = None then c\<lparr>queue_tail := queue_head c\<rparr> else c))))"

definition link_tail :: "nat \<Rightarrow> cache \<Rightarrow> cache option" where
  "link_tail a c =
     Option.bind (items c a) (\<lambda>ci.
     if ci_next ci \<noteq> None \<or> ci_prev ci \<noteq> None then None
     else
       Option.bind (upd_item a (\<lambda>i. i\<lparr>ci_prev := queue_tail c\<rparr>) c) (\<lambda>c.
       Option.bind (case queue_tail c of
                      None \<Rightarrow> Some (c\<lparr>queue_head := Some a\<rparr>)
                    | Some t \<Rightarrow> upd_item t (\<lambda>i. i\<lparr>ci_next := Some a\<rparr>) c) (\<lambda>c.
       Some (c\<lparr>queue_tail := Some a\<rparr>))))"

definition enqueue_cache_item :: "nat \<Rightarrow> queue_side \<Rightarrow> cache \<Rightarrow> cache option" where
  "enqueue_cache_item a side c =
     Option.bind (items c a) (\<lambda>ci.
     if ci_values ci = [] then Some c
     else if side = HEAD \<and> queue_head c = Some a then Some c
     else if side = TAIL \<and> ci_in_queue ci then Some c
     else
       Option.bind (if side = HEAD then link_head a c else link_tail a c) (\<lambda>c.
       Option.bind (upd_item a (\<lambda>i. i\<lparr>ci_in_queue := True\<rparr>) c) (\<lambda>c.
       Some (c\<lparr>stats_queue_length := stats_queue_length c + 1\<rparr>))))"

text \<open>\<open>free_cache_item\<close>, which the tree calls for an entry that is removed.\<close>

definition free_cache_item :: "nat \<Rightarrow> cache \<Rightarrow> cache option" where
  "free_cache_item a c = map_option (\<lambda>c. c\<lparr>items := (items c)(a := None)\<rparr>) (remove_from_queue a c)"

text \<open>The walk of the QUEUE command along \<open>next\<close>: the number of values and the file of every item.\<close>

fun queue_listing :: "nat \<Rightarrow> nat option \<Rightarrow> cache \<Rightarrow> (nat \<times> string) list option" where
  "queue_listing _ None c = Some []"
| "queue_listing 0 (Some a) c = None"
| "queue_listing (Suc n) (Some a) c =
     Option.bind (items c a) (\<lambda>i. map_option (Cons (length (ci_values i), ci_file i)) (queue_listing n (ci_next i) c))"

section \<open>The list behind the pointers\<close>

text \<open>The items of a segment, entered from \<open>p\<close> and left to \<open>q\<close>.\<close>

fun chained :: "store \<Rightarrow> nat option \<Rightarrow> nat list \<Rightarrow> nat option \<Rightarrow> bool" where
  "chained h p [] q = True"
| "chained h p (a # as) q =
     (case h a of None \<Rightarrow> False
      | Some i \<Rightarrow> ci_in_queue i \<and> ci_prev i = p \<and> ci_next i = (case as of [] \<Rightarrow> q | b # _ \<Rightarrow> Some b) \<and> chained h (Some a) as q)"

definition first :: "nat list \<Rightarrow> nat option \<Rightarrow> nat option" where
  "first as q = (case as of [] \<Rightarrow> q | b # _ \<Rightarrow> Some b)"

definition final :: "nat option \<Rightarrow> nat list \<Rightarrow> nat option" where
  "final p as = (if as = [] then p else Some (last as))"

text \<open>The cache represents the list \<open>xs\<close>; items outside the queue are not linked.\<close>

definition queue_rep :: "cache \<Rightarrow> nat list \<Rightarrow> bool" where
  "queue_rep c xs \<longleftrightarrow>
     distinct xs \<and> chained (items c) None xs None \<and> queue_head c = first xs None \<and> queue_tail c = final None xs \<and>
     stats_queue_length c = length xs \<and>
     (\<forall>a i. items c a = Some i \<longrightarrow> a \<notin> set xs \<longrightarrow> \<not> ci_in_queue i \<and> ci_prev i = None \<and> ci_next i = None)"

lemma first_simps [simp]: "first [] q = q" "first (a # as) q = Some a" "first (as @ bs) q = first as (first bs q)"
  by (simp_all add: first_def split: list.split)

lemma final_simps [simp]: "final p [] = p" "final p (a # as) = final (Some a) as" "final p (as @ bs) = final (final p as) bs"
  by (simp_all add: final_def)

lemma chained_Cons:
  "chained h p (a # as) q \<longleftrightarrow> (\<exists>i. h a = Some i \<and> ci_in_queue i \<and> ci_prev i = p \<and> ci_next i = first as q \<and> chained h (Some a) as q)"
  by (simp add: first_def split: option.split)

declare chained.simps(2) [simp del]
declare chained_Cons [simp]

lemma chained_append [simp]:
  "chained h p (as @ bs) q \<longleftrightarrow> chained h p as (first bs q) \<and> chained h (final p as) bs q"
  by (induction as arbitrary: p) auto

lemma chained_cong:
  assumes "\<And>a. a \<in> set as \<Longrightarrow> h' a = h a"
  shows "chained h' p as q = chained h p as q"
  using assms by (induction as arbitrary: p) auto

lemma chained_upd_other [simp]: "a \<notin> set as \<Longrightarrow> chained (h(a := x)) p as q = chained h p as q"
  by (rule chained_cong) auto

lemma chained_in_queue: "chained h p as q \<Longrightarrow> a \<in> set as \<Longrightarrow> \<exists>i. h a = Some i \<and> ci_in_queue i"
  by (induction as arbitrary: p) auto

text \<open>Changing the way out of a segment, and the way in.\<close>

lemma chained_set_next:
  assumes "chained h p (as @ [c]) q" and "h c = Some i" and "c \<notin> set as"
  shows "chained (h(c \<mapsto> i\<lparr>ci_next := q'\<rparr>)) p (as @ [c]) q'"
  using assms by simp

lemma chained_set_prev:
  assumes "chained h p (c # as) q" and "h c = Some i" and "c \<notin> set as"
  shows "chained (h(c \<mapsto> i\<lparr>ci_prev := p'\<rparr>)) p' (c # as) q"
  using assms by simp

section \<open>Removing\<close>

lemma upd_item_Some: "items c a = Some i \<Longrightarrow> upd_item a f c = Some (c\<lparr>items := (items c)(a \<mapsto> f i)\<rparr>)"
  by (simp add: upd_item_def)

text \<open>The state after the first and after the second redirection, when the item between \<open>as\<close> and \<open>bs\<close> is taken out.\<close>

definition passed_over :: "cache \<Rightarrow> nat list \<Rightarrow> nat \<Rightarrow> nat list \<Rightarrow> nat option \<Rightarrow> nat option \<Rightarrow> cache \<Rightarrow> bool" where
  "passed_over c as a bs p t d \<longleftrightarrow>
     chained (items d) None as (first bs None) \<and> chained (items d) p bs None \<and> items d a = items c a \<and>
     queue_head d = first (as @ bs) None \<and> queue_tail d = t \<and> stats_queue_length d = stats_queue_length c \<and>
     (\<forall>x. x \<notin> set as \<union> set bs \<longrightarrow> items d x = items c x)"

lemma redirect_next:
  assumes rep: "queue_rep c (as @ a # bs)" and i: "items c a = Some i"
  shows "\<exists>d. (case ci_prev i of None \<Rightarrow> Some (c\<lparr>queue_head := ci_next i\<rparr>)
        | Some p \<Rightarrow> upd_item p (\<lambda>j. j\<lparr>ci_next := ci_next i\<rparr>) c) = Some d \<and> passed_over c as a bs (Some a) (queue_tail c) d"
proof (cases as rule: rev_cases)
  case Nil
  with rep i show ?thesis by (auto simp: queue_rep_def passed_over_def)
next
  case (snoc as' p)
  note r = rep [unfolded queue_rep_def]
  from snoc obtain j where j: "items c p = Some j" using r by auto
  let ?h = "(items c)(p \<mapsto> j\<lparr>ci_next := first bs None\<rparr>)"
  have "chained ?h None as (first bs None)"
    using r snoc chained_set_next [of "items c" None as' p "Some a" j] j by simp
  moreover have "chained ?h (Some a) bs None" "?h a = Some i" using r snoc i by auto
  ultimately show ?thesis
    using i j r snoc by (simp add: upd_item_def passed_over_def)
qed

lemma redirect_prev:
  assumes rep: "queue_rep c (as @ a # bs)" and i: "items c a = Some i" and d: "passed_over c as a bs (Some a) (queue_tail c) d"
  shows "\<exists>e. (case ci_next i of None \<Rightarrow> Some (d\<lparr>queue_tail := ci_prev i\<rparr>)
        | Some n \<Rightarrow> upd_item n (\<lambda>j. j\<lparr>ci_prev := ci_prev i\<rparr>) d) = Some e \<and>
      passed_over c as a bs (final None as) (final None (as @ bs)) e"
proof (cases bs)
  case Nil
  with rep i d show ?thesis by (auto simp: queue_rep_def passed_over_def)
next
  case (Cons n bs')
  note r = rep [unfolded queue_rep_def] and d' = d [unfolded passed_over_def]
  from Cons obtain j where j: "items d n = Some j" using d' by auto
  let ?h = "(items d)(n \<mapsto> j\<lparr>ci_prev := final None as\<rparr>)"
  have l: "chained (items d) (Some a) (n # bs') None" using d' Cons by simp
  have "chained ?h (final None as) bs None" using r Cons chained_set_prev [OF l j] by simp
  moreover have "chained ?h None as (first bs None)" "?h a = Some i" using r Cons d' i by auto
  ultimately show ?thesis
    using i j r Cons d' by (simp add: upd_item_def passed_over_def)
qed

lemma remove_between:
  assumes rep: "queue_rep c (as @ a # bs)"
  shows "\<exists>c' i. remove_from_queue a c = Some c' \<and> queue_rep c' (as @ bs) \<and> items c a = Some i \<and>
     items c' a = Some (i\<lparr>ci_prev := None, ci_next := None, ci_in_queue := False\<rparr>)"
proof -
  note r = rep [unfolded queue_rep_def]
  obtain i where i: "items c a = Some i" "ci_in_queue i" using r by auto
  obtain d where d: "(case ci_prev i of None \<Rightarrow> Some (c\<lparr>queue_head := ci_next i\<rparr>)
        | Some p \<Rightarrow> upd_item p (\<lambda>j. j\<lparr>ci_next := ci_next i\<rparr>) c) = Some d" "passed_over c as a bs (Some a) (queue_tail c) d"
    using redirect_next [OF rep i(1)] by blast
  obtain e where e: "(case ci_next i of None \<Rightarrow> Some (d\<lparr>queue_tail := ci_prev i\<rparr>)
        | Some n \<Rightarrow> upd_item n (\<lambda>j. j\<lparr>ci_prev := ci_prev i\<rparr>) d) = Some e" "passed_over c as a bs (final None as) (final None (as @ bs)) e"
    using redirect_prev [OF rep i(1) d(2)] by blast
  let ?h = "(items e)(a \<mapsto> i\<lparr>ci_prev := None, ci_next := None, ci_in_queue := False\<rparr>)"
  let ?c = "e\<lparr>items := ?h, stats_queue_length := stats_queue_length e - 1\<rparr>"
  have "remove_from_queue a c = Some ?c"
    using i d(1) e r by (simp add: remove_from_queue_def upd_item_def passed_over_def)
  moreover have "queue_rep ?c (as @ bs)"
    using r e(2) by (auto simp: queue_rep_def passed_over_def)
  ultimately show ?thesis using i(1) by auto
qed

lemma remove_outside:
  assumes "queue_rep c xs" and "a \<notin> set xs" and "items c a = Some i"
  shows "remove_from_queue a c = Some c"
  using assms by (simp add: queue_rep_def remove_from_queue_def)

lemma remove_from_queue_rep:
  assumes "queue_rep c xs" and "items c a = Some i"
  shows "\<exists>c'. remove_from_queue a c = Some c' \<and> queue_rep c' (remove1 a xs)"
proof (cases "a \<in> set xs")
  case True
  then obtain as bs where xs: "xs = as @ a # bs" "a \<notin> set as" by (meson split_list_first)
  with remove_between [of c as a bs] assms(1) show ?thesis by (auto simp: remove1_append)
next
  case False
  with remove_outside [OF assms(1) _ assms(2)] assms(1) show ?thesis by (simp add: remove1_idem)
qed

section \<open>Enqueueing\<close>

text \<open>The last steps of \<open>enqueue_cache_item\<close>: the flag and the statistics.\<close>

definition mark_queued :: "nat \<Rightarrow> cache \<Rightarrow> cache option" where
  "mark_queued a c = Option.bind (upd_item a (\<lambda>i. i\<lparr>ci_in_queue := True\<rparr>) c) (\<lambda>c. Some (c\<lparr>stats_queue_length := stats_queue_length c + 1\<rparr>))"

lemma final_Some [simp]: "final (Some a) xs \<noteq> None"
  by (simp add: final_def)

lemma link_head_new:
  assumes rep: "queue_rep c xs" and a: "a \<notin> set xs" "items c a = Some i"
  shows "\<exists>c'. Option.bind (link_head a c) (mark_queued a) = Some c' \<and> queue_rep c' (a # xs)"
proof (cases xs)
  case Nil
  with rep a show ?thesis
    by (auto simp: link_head_def remove_outside [OF rep a] upd_item_def queue_rep_def mark_queued_def Let_def)
next
  case (Cons n xs')
  then obtain j where j: "items c n = Some j" using rep by (auto simp: queue_rep_def)
  with rep a Cons show ?thesis
    by (auto simp: link_head_def remove_outside [OF rep a] upd_item_def queue_rep_def mark_queued_def Let_def)
qed

lemma link_tail_new:
  assumes rep: "queue_rep c xs" and a: "a \<notin> set xs" "items c a = Some i"
  shows "\<exists>c'. Option.bind (link_tail a c) (mark_queued a) = Some c' \<and> queue_rep c' (xs @ [a])"
proof (cases xs rule: rev_cases)
  case Nil
  with rep a show ?thesis by (auto simp: link_tail_def upd_item_def queue_rep_def mark_queued_def)
next
  case (snoc xs' n)
  then obtain j where j: "items c n = Some j" using rep by (auto simp: queue_rep_def)
  with rep a snoc show ?thesis
    by (auto simp: link_tail_def upd_item_def queue_rep_def mark_queued_def final_def)
qed

lemma link_head_rep:
  assumes rep: "queue_rep c xs" and a: "items c a = Some i"
  shows "\<exists>c'. Option.bind (link_head a c) (mark_queued a) = Some c' \<and> queue_rep c' (a # remove1 a xs)"
proof -
  obtain c1 where c1: "remove_from_queue a c = Some c1" "queue_rep c1 (remove1 a xs)" "items c1 a \<noteq> None"
  proof (cases "a \<in> set xs")
    case True
    then obtain as bs where xs: "xs = as @ a # bs" "a \<notin> set as" by (meson split_list_first)
    with remove_between [of c as a bs] rep that show ?thesis by (auto simp: remove1_append)
  next
    case False
    with that remove_outside [OF rep False a] rep a show ?thesis by (simp add: remove1_idem)
  qed
  then obtain i1 where i1: "items c1 a = Some i1" by auto
  have out: "a \<notin> set (remove1 a xs)" using rep by (simp add: queue_rep_def)
  have "link_head a c = link_head a c1"
    using c1(1) remove_outside [OF c1(2) out i1] by (simp add: link_head_def)
  with link_head_new [OF c1(2) out i1] show ?thesis by simp
qed

text \<open>What enqueueing does to the list: to the front from anywhere, to the end unless already queued.\<close>

fun enqueue_list :: "queue_side \<Rightarrow> nat \<Rightarrow> nat list \<Rightarrow> nat list" where
  "enqueue_list HEAD a xs = a # remove1 a xs"
| "enqueue_list TAIL a xs = (if a \<in> set xs then xs else xs @ [a])"

lemma enqueue_cache_item_rep:
  assumes rep: "queue_rep c xs" and a: "items c a = Some i"
  shows "\<exists>c'. enqueue_cache_item a side c = Some c' \<and>
     queue_rep c' (if ci_values i = [] then xs else enqueue_list side a xs)"
proof -
  have q: "ci_in_queue i \<longleftrightarrow> a \<in> set xs" using rep a chained_in_queue [of "items c" None xs None a] by (auto simp: queue_rep_def)
  have alt: "enqueue_cache_item a side c = (if ci_values i = [] then Some c
     else if side = HEAD \<and> queue_head c = Some a then Some c
     else if side = TAIL \<and> a \<in> set xs then Some c
     else Option.bind (if side = HEAD then link_head a c else link_tail a c) (mark_queued a))"
    using a q by (simp add: enqueue_cache_item_def mark_queued_def [abs_def])
  show ?thesis
  proof (cases side)
    case HEAD
    have "enqueue_list HEAD a xs = xs" if "queue_head c = Some a"
      using rep that by (cases xs) (auto simp: queue_rep_def)
    with HEAD rep link_head_rep [OF rep a] show ?thesis
      unfolding alt by (cases "queue_head c = Some a") auto
  next
    case TAIL
    with rep link_tail_new [OF rep _ a] show ?thesis unfolding alt by auto
  qed
qed

section \<open>What stays\<close>

text \<open>An item without its links. Neither operation changes anything else.\<close>

definition payload :: "cache_item \<Rightarrow> cache_item" where
  "payload i = i\<lparr>ci_prev := None, ci_next := None, ci_in_queue := False\<rparr>"

definition payloads :: "cache \<Rightarrow> nat \<Rightarrow> cache_item option" where
  "payloads c a = map_option payload (items c a)"

lemma payloads_upd_item:
  assumes "upd_item a f c = Some c'" and "\<And>i. payload (f i) = payload i"
  shows "payloads c' = payloads c"
  using assms by (auto simp: upd_item_def payloads_def)

lemma payload_links [simp]:
  "payload (i\<lparr>ci_next := x\<rparr>) = payload i" "payload (i\<lparr>ci_prev := y\<rparr>) = payload i" "payload (i\<lparr>ci_in_queue := b\<rparr>) = payload i"
  by (simp_all add: payload_def)

lemma payloads_fields [simp]:
  "payloads (c\<lparr>queue_head := x\<rparr>) = payloads c" "payloads (c\<lparr>queue_tail := x\<rparr>) = payloads c" "payloads (c\<lparr>stats_queue_length := n\<rparr>) = payloads c"
  by (simp_all add: payloads_def fun_eq_iff)

lemma payloads_remove: "remove_from_queue a c = Some c' \<Longrightarrow> payloads c' = payloads c"
  by (auto simp: remove_from_queue_def bind_eq_Some_conv dest!: payloads_upd_item split: if_splits option.splits)

lemma payloads_link:
  "link_head a c = Some c' \<Longrightarrow> payloads c' = payloads c" "link_tail a c = Some c' \<Longrightarrow> payloads c' = payloads c"
  by (auto simp: link_head_def link_tail_def bind_eq_Some_conv Let_def dest!: payloads_upd_item payloads_remove split: if_splits option.splits)

lemma payloads_enqueue: "enqueue_cache_item a side c = Some c' \<Longrightarrow> payloads c' = payloads c"
  by (auto simp: enqueue_cache_item_def bind_eq_Some_conv dest!: payloads_upd_item payloads_link split: if_splits)

lemma payloads_values: "payloads c a = Some p \<Longrightarrow> \<exists>i. items c a = Some i \<and> ci_values i = ci_values p"
  by (auto simp: payloads_def payload_def)

lemma free_cache_item_rep:
  assumes "queue_rep c xs" and "items c a = Some i"
  shows "\<exists>c'. free_cache_item a c = Some c' \<and> queue_rep c' (remove1 a xs) \<and> payloads c' = (payloads c)(a := None)"
proof -
  obtain c1 where c1: "remove_from_queue a c = Some c1" "queue_rep c1 (remove1 a xs)"
    using remove_from_queue_rep [OF assms] by blast
  have "a \<notin> set (remove1 a xs)" using assms(1) by (simp add: queue_rep_def)
  with c1 have "queue_rep (c1\<lparr>items := (items c1)(a := None)\<rparr>) (remove1 a xs)" by (auto simp: queue_rep_def)
  moreover have "payloads (c1\<lparr>items := (items c1)(a := None)\<rparr>) = (payloads c)(a := None)"
    unfolding payloads_remove [OF c1(1), symmetric] by (auto simp: payloads_def)
  ultimately show ?thesis using c1(1) by (simp add: free_cache_item_def)
qed

lemma queue_listing_chained:
  assumes "chained (items c) p xs None" and "length xs \<le> n"
  shows "queue_listing n (first xs None) c = Some (map (\<lambda>a. (length (ci_values (the (items c a))), ci_file (the (items c a)))) xs)"
  using assms
proof (induction xs arbitrary: p n)
  case (Cons a xs)
  then obtain m where "n = Suc m" by (cases n) auto
  with Cons show ?case by auto
qed simp

section \<open>Sequences of operations\<close>

text \<open>
  A data structure with partial operations that simulates total ones on its abstraction: then any sequence of
  operations goes through.
\<close>

primrec run_ops :: "('op \<Rightarrow> 's \<Rightarrow> 's option) \<Rightarrow> 'op list \<Rightarrow> 's \<Rightarrow> 's option" where
  "run_ops step [] s = Some s"
| "run_ops step (p # ps) s = Option.bind (step p s) (run_ops step ps)"

locale simulation =
  fixes rep :: "'s \<Rightarrow> 'a \<Rightarrow> bool" and step :: "'op \<Rightarrow> 's \<Rightarrow> 's option" and spec :: "'op \<Rightarrow> 'a \<Rightarrow> 'a" and allowed :: "'op \<Rightarrow> bool"
  assumes step_simulates: "rep s x \<Longrightarrow> allowed p \<Longrightarrow> \<exists>s'. step p s = Some s' \<and> rep s' (spec p x)"
begin

lemma run_simulates:
  assumes "rep s x" and "list_all allowed ps"
  shows "\<exists>s'. run_ops step ps s = Some s' \<and> rep s' (fold spec ps x)"
  using assms
proof (induction ps arbitrary: s x)
  case (Cons p ps)
  from step_simulates [OF Cons.prems(1)] Cons.prems(2) obtain s' where s': "step p s = Some s'" "rep s' (spec p x)" by auto
  with Cons.IH [OF s'(2)] Cons.prems(2) show ?case by simp
qed simp

end

datatype queue_op = Enqueue queue_side nat | Dequeue nat

fun queue_step :: "queue_op \<Rightarrow> cache \<Rightarrow> cache option" where
  "queue_step (Enqueue side a) = enqueue_cache_item a side"
| "queue_step (Dequeue a) = remove_from_queue a"

fun op_item :: "queue_op \<Rightarrow> nat" where
  "op_item (Enqueue side a) = a"
| "op_item (Dequeue a) = a"

text \<open>The operations on the list; only items that have values are queued.\<close>

fun queue_spec :: "(nat \<Rightarrow> cache_item option) \<Rightarrow> queue_op \<Rightarrow> nat list \<Rightarrow> nat list" where
  "queue_spec m (Enqueue side a) xs = (if ci_values (the (m a)) = [] then xs else enqueue_list side a xs)"
| "queue_spec m (Dequeue a) xs = remove1 a xs"

interpretation dll: simulation "\<lambda>c xs. queue_rep c xs \<and> payloads c = m" queue_step "queue_spec m" "\<lambda>p. m (op_item p) \<noteq> None"
  for m
proof
  fix c xs p
  assume c: "queue_rep c xs \<and> payloads c = m" and p: "m (op_item p) \<noteq> None"
  then obtain i where i: "items c (op_item p) = Some i" "ci_values (the (m (op_item p))) = ci_values i"
    by (auto simp: payloads_def payload_def)
  show "\<exists>c'. queue_step p c = Some c' \<and> queue_rep c' (queue_spec m p xs) \<and> payloads c' = m"
  proof (cases p)
    case (Enqueue side a)
    with c i enqueue_cache_item_rep [of c xs a i side] payloads_enqueue show ?thesis by auto
  next
    case (Dequeue a)
    with c i remove_from_queue_rep [of c xs a i] payloads_remove show ?thesis by auto
  qed
qed

section \<open>Claims\<close>

definition demo_item :: "string \<Rightarrow> string list \<Rightarrow> cache_item" where
  "demo_item f vs = \<lparr>ci_file = f, ci_values = vs, ci_last_flush_time = 0, ci_last_update_stamp = 0, ci_in_tree = True,
     ci_in_queue = False, ci_prev = None, ci_next = None\<rparr>"

definition demo_cache :: cache where
  "demo_cache = \<lparr>items = [0 \<mapsto> demo_item ''a.rrd'' [''1:2''], 1 \<mapsto> demo_item ''b.rrd'' [''1:3'', ''2:3''], 2 \<mapsto> demo_item ''c.rrd'' []],
     queue_head = None, queue_tail = None, stats_queue_length = 0\<rparr>"

lemma demo_cache_rep: "queue_rep demo_cache []"
  by (simp add: queue_rep_def demo_cache_def demo_item_def)

text \<open>
  C24: the doubly chained queue of the daemon implements a duplicate-free list. Any sequence of enqueue and remove
  operations on allocated items follows only valid pointers and passes all assertions; it moves items to the
  front, appends those that are not queued, and ignores items without values. The length kept in the statistics is
  right, the QUEUE command lists the items in this order, and no item changes but in its links.
\<close>

theorem queue_refines_list:
  assumes "queue_rep c xs" and "\<forall>p \<in> set ps. items c (op_item p) \<noteq> None"
  shows "\<exists>c'. run_ops queue_step ps c = Some c' \<and> payloads c' = payloads c \<and>
    (let ys = fold (queue_spec (payloads c)) ps xs in queue_rep c' ys \<and>
     queue_listing (length ys) (queue_head c') c' = Some (map (\<lambda>a. (length (ci_values (the (items c' a))), ci_file (the (items c' a)))) ys))"
proof -
  have "list_all (\<lambda>p. payloads c (op_item p) \<noteq> None) ps" using assms(2) by (auto simp: list_all_iff payloads_def)
  from dll.run_simulates [OF _ this] assms(1) obtain c' where
    c': "run_ops queue_step ps c = Some c'" "queue_rep c' (fold (queue_spec (payloads c)) ps xs)" "payloads c' = payloads c" by blast
  with queue_listing_chained [of c' None] show ?thesis by (auto simp: queue_rep_def Let_def)
qed

theorem queue_refines_list_witness:
  "\<exists>c'. run_ops queue_step [Enqueue TAIL 0, Enqueue TAIL 2, Enqueue TAIL 1, Enqueue HEAD 1, Enqueue TAIL 0] demo_cache = Some c' \<and> queue_rep c' [1, 0]"
  using queue_refines_list [OF demo_cache_rep, of "[Enqueue TAIL 0, Enqueue TAIL 2, Enqueue TAIL 1, Enqueue HEAD 1, Enqueue TAIL 0]"]
  by (auto simp: demo_cache_def demo_item_def payloads_def payload_def Let_def)

end
