(* ===== verification/Protocol.thy ===== *)
theory Protocol
  imports C_Strings
begin

text \<open>
  The text protocol between \<open>rrd_client.c\<close> and \<open>rrd_daemon.c\<close>: how the client builds a request, how the daemon finds
  the lines in what it reads and the fields in a line, how it collects and sends a response, and how the client
  reads it. Buffers have the sizes of the source; reading behind the end of one is the result \<open>None\<close>.
\<close>

section \<open>Characters\<close>

abbreviation NUL :: char where "NUL \<equiv> CHR 0x00"
abbreviation TAB :: char where "TAB \<equiv> CHR 0x09"
abbreviation NL :: char where "NL \<equiv> CHR 0x0A"
abbreviation CR :: char where "CR \<equiv> CHR 0x0D"
abbreviation SP :: char where "SP \<equiv> CHR 0x20"
abbreviation BS :: char where "BS \<equiv> CHR 0x5C"

section \<open>Requests of the client\<close>

text \<open>
  \<open>get_path\<close>: a daemon on a local socket gets the resolved path, any other one must not be given an absolute one.
  \<open>realpath\<close> is the library function; \<open>sd_path\<close> is the address of the connection.
\<close>

definition get_path :: "(string \<Rightarrow> string option) \<Rightarrow> string option \<Rightarrow> string \<Rightarrow> string option" where
  "get_path realpath sd_path path =
     (case sd_path of None \<Rightarrow> None
      | Some sd \<Rightarrow>
          if take 1 sd = ''/'' \<or> take 5 sd = ''unix:'' then realpath path
          else if take 1 path = ''/'' then None else Some path)"

text \<open>\<open>buffer_add_string\<close>: the escaped text with a separator behind it, when it fits into the free space.\<close>

fun buffer_add_string :: "string \<Rightarrow> nat \<Rightarrow> string option" where
  "buffer_add_string str 0 = None"
| "buffer_add_string [] (Suc n) = Some [SP]"
| "buffer_add_string (c # cs) (Suc n) =
     (if c = SP \<or> c = BS then
        (if n = 0 then None else map_option (\<lambda>t. BS # c # t) (buffer_add_string cs (n - 1)))
      else map_option (Cons c) (buffer_add_string cs n))"

definition value_text :: "nat \<Rightarrow> string \<Rightarrow> string" where
  "value_text now val = take 4095 (if take 2 val = ''N:'' then show_nat now @ '':'' @ drop 2 val else val)"

definition buffer_add_value :: "nat \<Rightarrow> string \<Rightarrow> nat \<Rightarrow> string option" where
  "buffer_add_value now val n = buffer_add_string (value_text now val) n"

text \<open>Several additions one behind the other.\<close>

fun add_all :: "(nat \<Rightarrow> string option) list \<Rightarrow> nat \<Rightarrow> string option" where
  "add_all [] n = Some []"
| "add_all (f # fs) n = Option.bind (f n) (\<lambda>t. map_option ((@) t) (add_all fs (n - length t)))"

text \<open>The last separator becomes the end of the line.\<close>

definition finish_request :: "string \<Rightarrow> string" where
  "finish_request t = butlast t @ [NL]"

datatype client_error = BadPath | ENOBUFS

definition rrdc_update_text :: "(string \<Rightarrow> string option) \<Rightarrow> string option \<Rightarrow> (nat \<Rightarrow> nat) \<Rightarrow> string \<Rightarrow> string list \<Rightarrow> client_error + string" where
  "rrdc_update_text realpath sd_path now file vals =
     (case buffer_add_string ''update'' 4096 of None \<Rightarrow> Inl ENOBUFS
      | Some t0 \<Rightarrow>
        (case get_path realpath sd_path file of None \<Rightarrow> Inl BadPath
         | Some path \<Rightarrow>
           (case add_all (buffer_add_string path # map (\<lambda>i. buffer_add_value (now i) (vals ! i)) [0 ..< length vals]) (4096 - length t0) of
              None \<Rightarrow> Inl ENOBUFS
            | Some t \<Rightarrow> Inr (finish_request (t0 @ t)))))"

definition rrdc_flush_text :: "(string \<Rightarrow> string option) \<Rightarrow> string option \<Rightarrow> string \<Rightarrow> client_error + string" where
  "rrdc_flush_text realpath sd_path file =
     (case buffer_add_string ''flush'' 4096 of None \<Rightarrow> Inl ENOBUFS
      | Some t0 \<Rightarrow>
        (case get_path realpath sd_path file of None \<Rightarrow> Inl BadPath
         | Some path \<Rightarrow>
           (case buffer_add_string path (4096 - length t0) of None \<Rightarrow> Inl ENOBUFS
            | Some t \<Rightarrow> Inr (finish_request (t0 @ t)))))"

section \<open>Lines and fields in the daemon\<close>

definition CMD_MAX :: nat where "CMD_MAX = 4096"
definition RBUF_SIZE :: nat where "RBUF_SIZE = CMD_MAX * 2"

text \<open>
  The connection: the bytes read so far (\<open>next_read\<close> is their number), the position of the next command, the state of a
  batch, the collected response, the permissions, and what has been sent to the client.
\<close>

record listen_socket =
  rbuf :: string
  cmd_pos :: nat
  batch_start :: int
  batch_cmd :: int
  wbuf :: "string option"
  permissions :: nat
  sent :: string

definition next_cmd :: "listen_socket \<Rightarrow> string option \<times> listen_socket" where
  "next_cmd sock =
     (let rest = drop (cmd_pos sock) (rbuf sock);
          n = length (takeWhile (\<lambda>c. c \<noteq> NL) rest)
      in if n = length rest then (None, sock\<lparr>rbuf := rest, cmd_pos := 0\<rparr>)
         else
           let eol = cmd_pos sock + n;
               buf = (rbuf sock)[eol := NUL];
               sock' = sock\<lparr>cmd_pos := eol + 1\<rparr>
           in if eol > 0 \<and> buf ! (eol - 1) = CR
              then (Some (take (eol - 1 - cmd_pos sock) (drop (cmd_pos sock) buf)), sock'\<lparr>rbuf := buf[eol - 1 := NUL]\<rparr>)
              else (Some (take (eol - cmd_pos sock) (drop (cmd_pos sock) buf)), sock'\<lparr>rbuf := buf\<rparr>))"

text \<open>The loop that takes the commands out of the buffer.\<close>

function next_cmds :: "listen_socket \<Rightarrow> string list \<times> listen_socket" where
  "next_cmds sock =
     (case next_cmd sock of
        (None, sock) \<Rightarrow> ([], sock)
      | (Some cmd, sock) \<Rightarrow> (case next_cmds sock of (cmds, sock) \<Rightarrow> (cmd # cmds, sock)))"
  by pat_completeness auto

termination
proof (relation "measure (\<lambda>sock. length (rbuf sock) - cmd_pos sock)", goal_cases)
  case (2 sock p sock' cmd)
  let ?n = "length (takeWhile (\<lambda>c. c \<noteq> NL) (drop (cmd_pos sock) (rbuf sock)))"
  from 2 have ne: "?n \<noteq> length (rbuf sock) - cmd_pos sock" and pos: "cmd_pos sock' = cmd_pos sock + ?n + 1"
      and len: "length (rbuf sock') = length (rbuf sock)"
    by (auto simp: next_cmd_def Let_def split: if_splits)
  with length_takeWhile_le [of "\<lambda>c. c \<noteq> NL" "drop (cmd_pos sock) (rbuf sock)"]
  show ?case by (simp add: pos len)
qed simp

declare next_cmds.simps [simp del]

text \<open>
  The rounds of \<open>connection_thread_main\<close>, over the pieces in which the bytes of the client arrive. A round reads as much of
  what has arrived as the buffer has room for and takes out the complete lines; what it did not read is there for the next
  round. When the buffer is full of a line that has not ended, a read of no bytes returns 0 and the connection is closed.
\<close>

function conn_rounds :: "string list \<Rightarrow> listen_socket \<Rightarrow> string list \<times> listen_socket" where
  "conn_rounds [] sock = ([], sock)"
| "conn_rounds (piece # pieces) sock =
     (let room = RBUF_SIZE - length (rbuf sock)
      in if piece = [] then conn_rounds pieces sock
         else if room = 0 then ([], sock)
         else case next_cmds (sock\<lparr>rbuf := rbuf sock @ take room piece\<rparr>) of (cmds, sock) \<Rightarrow>
           (case conn_rounds (drop room piece # pieces) sock of (cmds', sock) \<Rightarrow> (cmds @ cmds', sock)))"
  by pat_completeness auto

termination
  by (relation "measure (\<lambda>(pieces, sock). length pieces + length (concat pieces))") (auto simp: neq_Nil_conv)

declare conn_rounds.simps [simp del]

text \<open>\<open>buffer_get_field\<close>: the next field, without its escapes, and what is behind it.\<close>

fun scan_field :: "string \<Rightarrow> (string \<times> string) option" where
  "scan_field [] = None"
| "scan_field (c # cs) =
     (if c = SP \<or> c = NUL then Some ([], cs)
      else if c = BS then (case cs of [] \<Rightarrow> None | d # ds \<Rightarrow> map_option (\<lambda>(f, r). (d # f, r)) (scan_field ds))
      else map_option (\<lambda>(f, r). (c # f, r)) (scan_field cs))"

text \<open>The field is used as a C string.\<close>

definition buffer_get_field :: "string \<Rightarrow> (string \<times> string) option" where
  "buffer_get_field buffer = map_option (\<lambda>(f, r). (takeWhile (\<lambda>c. c \<noteq> NUL) f, r)) (scan_field buffer)"

lemma scan_field_shorter: "scan_field b = Some (f, r) \<Longrightarrow> length r < length b"
  by (induction b arbitrary: f r rule: scan_field.induct) (fastforce split: if_splits list.splits)+

text \<open>All fields of a buffer, as the handlers take them one after the other.\<close>

function get_fields :: "string \<Rightarrow> string list" where
  "get_fields b = (case buffer_get_field b of None \<Rightarrow> [] | Some (f, r) \<Rightarrow> f # get_fields r)"
  by pat_completeness auto

termination
  by (relation "measure length") (auto simp: buffer_get_field_def dest: scan_field_shorter)

declare get_fields.simps [simp del]

section \<open>Responses of the daemon\<close>

datatype response_code = RESP_ERR | RESP_OK

text \<open>A text printed into a buffer of \<open>CMD_MAX\<close> bytes behind \<open>start\<close>, and copied out with its full length: what was cut off is zeros.\<close>

definition printed :: "string \<Rightarrow> string \<Rightarrow> string" where
  "printed start msg =
     (let txt = start @ take (CMD_MAX - 1 - length start) msg
      in txt @ replicate (length start + length msg - length txt) NUL)"

definition add_to_wbuf :: "string \<Rightarrow> listen_socket \<Rightarrow> listen_socket" where
  "add_to_wbuf str sock = sock\<lparr>wbuf := Some ((case wbuf sock of None \<Rightarrow> [] | Some w \<Rightarrow> w) @ str)\<rparr>"

definition add_response_info :: "string \<Rightarrow> listen_socket \<Rightarrow> listen_socket" where
  "add_response_info txt sock = (if batch_start sock \<noteq> 0 then sock else add_to_wbuf (printed [] txt) sock)"

definition count_lines :: "string option \<Rightarrow> nat" where
  "count_lines w = (case w of None \<Rightarrow> 0 | Some w \<Rightarrow> length (filter (\<lambda>c. c = NL) (takeWhile (\<lambda>c. c \<noteq> NUL) w)))"

text \<open>
  \<open>send_response\<close> on a connection whose writes succeed. The status line is written with its full length, so a text that
  does not fit into the buffer is read behind its end. In a batch a success is silent and an error is noted with
  the number of its command.
\<close>

definition send_response :: "response_code \<Rightarrow> string \<Rightarrow> listen_socket \<Rightarrow> (int \<times> listen_socket) option" where
  "send_response rc msg sock =
     (if batch_start sock \<noteq> 0 then
        (if rc = RESP_OK then Some (0, sock)
         else Some (0, add_to_wbuf (printed (show_int (batch_cmd sock) @ '' '') msg) sock))
      else
        let lines = (if rc = RESP_OK then int (count_lines (wbuf sock)) else - 1);
            start = show_int lines @ '' ''
        in if length start + length msg > CMD_MAX then None
           else Some (0, sock\<lparr>sent := sent sock @ printed start msg @
                    (if rc = RESP_OK then (case wbuf sock of None \<Rightarrow> [] | Some w \<Rightarrow> w) else []), wbuf := None\<rparr>))"

definition handle_batch_start :: "int \<Rightarrow> listen_socket \<Rightarrow> (int \<times> listen_socket) option" where
  "handle_batch_start time sock =
     (if batch_start sock \<noteq> 0 then send_response RESP_ERR (''Already in BATCH'' @ [NL]) sock
      else map_option (\<lambda>(status, sock). (status, sock\<lparr>batch_start := time, batch_cmd := 0\<rparr>))
             (send_response RESP_OK (''Go ahead.  End with dot '' @ [CHR 0x27] @ ''.'' @ [CHR 0x27] @ '' on its own line.'' @ [NL]) sock))"

text \<open>The assertion that a batch is open is \<open>None\<close>.\<close>

definition batch_done :: "listen_socket \<Rightarrow> (int \<times> listen_socket) option" where
  "batch_done sock =
     (if batch_start sock = 0 then None
      else send_response RESP_OK (''errors'' @ [NL]) (sock\<lparr>batch_start := 0, batch_cmd := 0\<rparr>))"

section \<open>Responses in the client\<close>

definition fgets :: "nat \<Rightarrow> string \<Rightarrow> (string \<times> string) option" where
  "fgets n str =
     (if str = [] then None
      else let line = takeWhile (\<lambda>c. c \<noteq> NL) str @ take 1 (dropWhile (\<lambda>c. c \<noteq> NL) str);
               got = take (n - 1) line
           in Some (got, drop (length got) str))"

definition chomp :: "string \<Rightarrow> string" where
  "chomp str = rev (dropWhile (\<lambda>c. c = NL \<or> c = CR) (rev str))"

record rrdc_response =
  rs_status :: int
  rs_message :: string
  rs_lines :: "string list"

fun read_lines :: "nat \<Rightarrow> string \<Rightarrow> (string list \<times> string) option" where
  "read_lines 0 str = Some ([], str)"
| "read_lines (Suc n) str =
     (case fgets 4096 str of None \<Rightarrow> None
      | Some (line, str) \<Rightarrow> map_option (\<lambda>(ls, r). (chomp line # ls, r)) (read_lines n str))"

definition response_read :: "string \<Rightarrow> int + (rrdc_response \<times> string)" where
  "response_read str =
     (case fgets 4096 str of None \<Rightarrow> Inl (- 3)
      | Some (line, str) \<Rightarrow>
          let buffer = chomp line; (v, msg) = strtol_base0 buffer; status = s32 v; msg' = dropWhile (\<lambda>c. c = SP \<or> c = TAB) msg
          in if length msg = length buffer then Inl (- 4)
             else if status \<le> 0 then Inr (\<lparr>rs_status = status, rs_message = msg', rs_lines = []\<rparr>, str)
             else case read_lines (nat status) str of None \<Rightarrow> Inl (- 6)
               | Some (ls, str) \<Rightarrow> Inr (\<lparr>rs_status = status, rs_message = msg', rs_lines = ls\<rparr>, str))"

section \<open>Lines\<close>

text \<open>The complete lines of a text and what is behind the last one; a carriage return at the end of a line does not count.\<close>

fun split_lines :: "string \<Rightarrow> string list \<times> string" where
  "split_lines [] = ([], [])"
| "split_lines (c # cs) =
     (case split_lines cs of (ls, r) \<Rightarrow>
        if c = NL then ([] # ls, r) else (case ls of [] \<Rightarrow> ([], c # r) | l # ls' \<Rightarrow> ((c # l) # ls', r)))"

definition chop_cr :: "string \<Rightarrow> string" where
  "chop_cr l = (if l \<noteq> [] \<and> last l = CR then butlast l else l)"

lemma split_lines_none: "NL \<notin> set str \<Longrightarrow> split_lines str = ([], str)"
  by (induction str) auto

lemma split_lines_line: "NL \<notin> set l \<Longrightarrow> split_lines (l @ NL # r) = (l # fst (split_lines r), snd (split_lines r))"
  by (induction l) (auto split: prod.split)

lemma split_lines_rest: "NL \<notin> set (snd (split_lines str))"
  by (induction str) (auto split: prod.split list.split)

lemma split_first_line:
  assumes "NL \<in> set str"
  obtains l r where "str = l @ NL # r" "NL \<notin> set l"
  using split_list_first [OF assms] by blast

lemma split_lines_append:
  "split_lines (str @ piece) = (fst (split_lines str) @ fst (split_lines (snd (split_lines str) @ piece)), snd (split_lines (snd (split_lines str) @ piece)))"
proof (induction "length str" arbitrary: str rule: less_induct)
  case less
  show ?case
  proof (cases "NL \<in> set str")
    case True
    then obtain l r where lr: "str = l @ NL # r" "NL \<notin> set l" by (rule split_first_line)
    then have "length r < length str" by simp
    from less [OF this] lr show ?thesis by (simp add: split_lines_line)
  next
    case False
    then show ?thesis by (simp add: split_lines_none)
  qed
qed

lemma takeWhile_line: "NL \<notin> set l \<Longrightarrow> takeWhile (\<lambda>c. c \<noteq> NL) (l @ NL # r) = l"
  by (induction l) auto

lemma next_cmd_none:
  assumes "NL \<notin> set (drop (cmd_pos sock) (rbuf sock))"
  shows "next_cmd sock = (None, sock\<lparr>rbuf := drop (cmd_pos sock) (rbuf sock), cmd_pos := 0\<rparr>)"
proof -
  have "length (takeWhile (\<lambda>c. c \<noteq> NL) (drop (cmd_pos sock) (rbuf sock))) = length (drop (cmd_pos sock) (rbuf sock))"
    using assms by (subst takeWhile_eq_all_conv [THEN iffD2]) auto
  then show ?thesis by (simp add: next_cmd_def Let_def)
qed

lemma next_cmd_line:
  assumes rest: "drop (cmd_pos sock) (rbuf sock) = l @ NL # r" and l: "NL \<notin> set l"
    and cr: "cmd_pos sock = 0 \<or> rbuf sock ! (cmd_pos sock - 1) \<noteq> CR"
  shows "\<exists>buf. next_cmd sock = (Some (chop_cr l), sock\<lparr>cmd_pos := cmd_pos sock + length l + 1, rbuf := buf\<rparr>) \<and>
     drop (cmd_pos sock + length l + 1) buf = r \<and> buf ! (cmd_pos sock + length l) = NUL \<and> length buf = length (rbuf sock)"
proof -
  let ?p = "cmd_pos sock" and ?eol = "cmd_pos sock + length l"
  obtain pre where pre: "rbuf sock = pre @ l @ NL # r" "length pre = ?p"
  proof
    show "rbuf sock = take ?p (rbuf sock) @ l @ NL # r" using rest by (metis append_take_drop_id)
    have "?p < length (rbuf sock)" using rest by (metis append_is_Nil_conv drop_all list.distinct(1) not_less)
    then show "length (take ?p (rbuf sock)) = ?p" by simp
  qed
  let ?B = "pre @ l @ NUL # r"
  have buf: "(rbuf sock)[?eol := NUL] = ?B"
    using pre by (simp add: list_update_append)
  have n: "length (takeWhile (\<lambda>c. c \<noteq> NL) (drop ?p (rbuf sock))) = length l" using rest l by (simp add: takeWhile_line)
  have eq: "next_cmd sock = (if 0 < ?eol \<and> ?B ! (?eol - 1) = CR
      then (Some (take (?eol - 1 - ?p) (drop ?p ?B)), sock\<lparr>cmd_pos := ?eol + 1, rbuf := ?B[?eol - 1 := NUL]\<rparr>)
      else (Some (take (?eol - ?p) (drop ?p ?B)), sock\<lparr>cmd_pos := ?eol + 1, rbuf := ?B\<rparr>))"
    unfolding next_cmd_def Let_def n buf using rest by simp
  show ?thesis
  proof (cases l rule: rev_cases)
    case Nil
    have "\<not> (0 < ?eol \<and> ?B ! (?eol - 1) = CR)"
      using cr pre Nil by (cases "?p = 0") (auto simp: nth_append)
    then have "next_cmd sock = (Some (take (?eol - ?p) (drop ?p ?B)), sock\<lparr>cmd_pos := ?eol + 1, rbuf := ?B\<rparr>)"
      unfolding eq by (rule if_not_P)
    with pre Nil show ?thesis by (intro exI [of _ ?B]) (auto simp: chop_cr_def nth_append)
  next
    case (snoc l' x)
    have x: "?B ! (?eol - 1) = x" using pre(2) snoc by (simp add: nth_append)
    have upd: "?B[?eol - 1 := NUL] = pre @ l' @ NUL # NUL # r"
      using pre(2) snoc by (simp add: list_update_append)
    have "length (pre @ l' @ NUL # NUL # r) = length (rbuf sock)" using pre(1) snoc by simp
    with pre(2) snoc x upd show ?thesis
      by (auto simp: eq chop_cr_def pre(1) nth_append)
  qed
qed

lemma next_cmds_lines:
  assumes "cmd_pos sock = 0 \<or> rbuf sock ! (cmd_pos sock - 1) \<noteq> CR"
  shows "next_cmds sock = (map chop_cr (fst (split_lines (drop (cmd_pos sock) (rbuf sock)))),
     sock\<lparr>rbuf := snd (split_lines (drop (cmd_pos sock) (rbuf sock))), cmd_pos := 0\<rparr>)"
  using assms
proof (induction sock rule: next_cmds.induct)
  case (1 sock)
  let ?rest = "drop (cmd_pos sock) (rbuf sock)"
  show ?case
  proof (cases "NL \<in> set ?rest")
    case False
    then show ?thesis by (subst next_cmds.simps) (simp add: next_cmd_none split_lines_none)
  next
    case True
    then obtain l r where lr: "?rest = l @ NL # r" "NL \<notin> set l" by (rule split_first_line)
    obtain buf where n: "next_cmd sock = (Some (chop_cr l), sock\<lparr>cmd_pos := cmd_pos sock + length l + 1, rbuf := buf\<rparr>)"
      and b: "drop (cmd_pos sock + length l + 1) buf = r" "buf ! (cmd_pos sock + length l) = NUL"
      using next_cmd_line [OF lr "1.prems"] by blast
    from "1.IH" [OF n [symmetric] refl] b
    have "next_cmds (sock\<lparr>cmd_pos := cmd_pos sock + length l + 1, rbuf := buf\<rparr>)
        = (map chop_cr (fst (split_lines r)), sock\<lparr>cmd_pos := 0, rbuf := snd (split_lines r)\<rparr>)" by simp
    then show ?thesis
      by (subst next_cmds.simps) (simp add: n lr split_lines_line)
  qed
qed

text \<open>No line of a text, finished or not, fills the read buffer.\<close>

definition lines_fit :: "string \<Rightarrow> bool" where
  "lines_fit str \<longleftrightarrow> (let (ls, r) = split_lines str in list_all (\<lambda>l. length l < RBUF_SIZE) (r # ls))"

lemma lines_fit_short: "length str < RBUF_SIZE \<Longrightarrow> lines_fit str"
proof (induction "length str" arbitrary: str rule: less_induct)
  case less
  show ?case
  proof (cases "NL \<in> set str")
    case True
    then obtain l r where lr: "str = l @ NL # r" "NL \<notin> set l" by (rule split_first_line)
    with less have "lines_fit r" by simp
    with less.prems lr show ?thesis by (simp add: lines_fit_def split_lines_line split_beta)
  qed (use less.prems in \<open>simp add: lines_fit_def split_lines_none\<close>)
qed

lemma lines_fit_append:
  "lines_fit (str @ piece) \<longleftrightarrow> list_all (\<lambda>l. length l < RBUF_SIZE) (fst (split_lines str)) \<and> lines_fit (snd (split_lines str) @ piece)"
  unfolding lines_fit_def split_lines_append [of str piece] by (auto simp: split_beta)

lemma lines_fit_room:
  assumes "lines_fit (str @ piece)" and "NL \<notin> set str"
  shows "length str < RBUF_SIZE"
proof (cases "NL \<in> set piece")
  case True
  then obtain l r where lr: "piece = l @ NL # r" "NL \<notin> set l" by (rule split_first_line)
  then have "split_lines (str @ piece) = ((str @ l) # fst (split_lines r), snd (split_lines r))"
    using split_lines_line [of "str @ l" r] assms(2) by simp
  with assms(1) show ?thesis by (simp add: lines_fit_def)
next
  case False
  with assms show ?thesis by (simp add: lines_fit_def split_lines_none)
qed

lemma conn_rounds_lines:
  assumes "cmd_pos sock = 0" and "NL \<notin> set (rbuf sock)" and "lines_fit (rbuf sock @ concat pieces)"
  shows "conn_rounds pieces sock = (map chop_cr (fst (split_lines (rbuf sock @ concat pieces))),
     sock\<lparr>rbuf := snd (split_lines (rbuf sock @ concat pieces))\<rparr>)"
  using assms
proof (induction pieces sock rule: conn_rounds.induct)
  case (1 sock)
  then show ?case by (simp add: conn_rounds.simps split_lines_none)
next
  case (2 piece pieces sock)
  let ?room = "RBUF_SIZE - length (rbuf sock)"
  let ?t = "rbuf sock @ take ?room piece" and ?X = "drop ?room piece @ concat pieces"
  let ?s = "split_lines ?t"
  let ?sock = "sock\<lparr>rbuf := snd ?s, cmd_pos := 0\<rparr>"
  have t: "rbuf sock @ concat (piece # pieces) = ?t @ ?X"
    unfolding append_assoc append_assoc [symmetric, of "take ?room piece"] append_take_drop_id by simp
  show ?case
  proof (cases "piece = []")
    case True
    with 2 show ?thesis by (simp add: conn_rounds.simps)
  next
    case False
    have room: "?room \<noteq> 0" using lines_fit_room [OF "2.prems"(3,2)] by simp
    have n: "next_cmds (sock\<lparr>rbuf := ?t\<rparr>) = (map chop_cr (fst ?s), ?sock)"
      using next_cmds_lines [of "sock\<lparr>rbuf := ?t\<rparr>"] "2.prems"(1) by simp
    have "conn_rounds (drop ?room piece # pieces) ?sock
        = (map chop_cr (fst (split_lines (snd ?s @ ?X))), ?sock\<lparr>rbuf := snd (split_lines (snd ?s @ ?X))\<rparr>)"
      using "2.IH"(2) [OF refl False room n [symmetric]] split_lines_rest [of ?t] "2.prems"(3)
      unfolding t lines_fit_append [of ?t ?X] by simp
    with False room n have "conn_rounds (piece # pieces) sock
        = (map chop_cr (fst ?s @ fst (split_lines (snd ?s @ ?X))), ?sock\<lparr>rbuf := snd (split_lines (snd ?s @ ?X))\<rparr>)"
      by (subst conn_rounds.simps) (simp add: Let_def)
    with "2.prems"(1) show ?thesis unfolding t split_lines_append [of ?t ?X] by simp
  qed
qed

section \<open>Fields\<close>

text \<open>What the client does to a string, without the limit of the buffer.\<close>

fun escape :: "string \<Rightarrow> string" where
  "escape [] = []"
| "escape (c # cs) = (if c = SP \<or> c = BS then BS # c # escape cs else c # escape cs)"

lemma buffer_add_string_escape:
  "buffer_add_string str n = (if length (escape str) < n then Some (escape str @ [SP]) else None)"
  by (induction str n rule: buffer_add_string.induct) auto

lemma scan_field_escape: "NUL \<notin> set str \<Longrightarrow> x = SP \<or> x = NUL \<Longrightarrow> scan_field (escape str @ x # r) = Some (str, r)"
  by (induction str) auto

lemma set_escape: "set (escape str) \<subseteq> insert BS (set str)"
  by (induction str) auto

lemma last_escape: "str \<noteq> [] \<Longrightarrow> escape str \<noteq> [] \<and> last (escape str) = last str"
  by (induction str) auto

definition request_line :: "string list \<Rightarrow> string" where
  "request_line ss = concat (map (\<lambda>s. escape s @ [SP]) ss)"

lemma request_line_simps [simp]: "request_line [] = []" "request_line (s # ss) = escape s @ SP # request_line ss"
  by (simp_all add: request_line_def)

lemma add_all_strings:
  "add_all (map buffer_add_string ss) n = (if length (request_line ss) \<le> n then Some (request_line ss) else None)"
proof (induction ss arbitrary: n)
  case (Cons s ss)
  then show ?case by (auto simp: buffer_add_string_escape)
qed simp

lemma get_fields_line:
  assumes "ss \<noteq> []" and "list_all (\<lambda>s. NUL \<notin> set s) ss"
  shows "get_fields (butlast (request_line ss) @ [NUL]) = ss"
  using assms
proof (induction ss rule: induct_list012)
  case (2 s)
  then show ?case
    by (simp add: get_fields.simps [of "escape s @ [NUL]"] butlast_append buffer_get_field_def scan_field_escape takeWhile_eq_all_conv)
      (subst get_fields.simps, auto simp: buffer_get_field_def takeWhile_eq_all_conv)
next
  case (3 s s' ss)
  let ?t = "butlast (request_line (s' # ss)) @ [NUL]"
  have b: "butlast (request_line (s # s' # ss)) @ [NUL] = escape s @ SP # ?t" by (simp add: butlast_append)
  have "takeWhile (\<lambda>c. c \<noteq> NUL) s = s" using "3.prems" by (auto simp: takeWhile_eq_all_conv)
  then have "buffer_get_field (escape s @ SP # ?t) = Some (s, ?t)"
    using "3.prems" by (simp add: buffer_get_field_def scan_field_escape)
  then show ?case unfolding b using 3 by (subst get_fields.simps) simp
qed simp

text \<open>The fields of a request.\<close>

definition update_fields :: "string \<Rightarrow> (nat \<Rightarrow> nat) \<Rightarrow> string list \<Rightarrow> string list" where
  "update_fields path now vals = ''update'' # path # map (\<lambda>i. value_text (now i) (vals ! i)) [0 ..< length vals]"

lemma rrdc_update_text_eq:
  assumes "get_path realpath sd_path file = Some path"
  shows "rrdc_update_text realpath sd_path now file vals =
     (let line = request_line (update_fields path now vals) in if length line \<le> 4096 then Inr (finish_request line) else Inl ENOBUFS)"
proof -
  let ?vs = "map (\<lambda>i. value_text (now i) (vals ! i)) [0 ..< length vals]"
  have 0: "buffer_add_string ''update'' 4096 = Some ''update ''" by (simp add: buffer_add_string_escape)
  have 1: "buffer_add_string path # map (\<lambda>i. buffer_add_value (now i) (vals ! i)) [0 ..< length vals] = map buffer_add_string (path # ?vs)"
    by (simp add: buffer_add_value_def fun_eq_iff)
  have 2: "request_line (update_fields path now vals) = ''update '' @ request_line (path # ?vs)" by (simp add: update_fields_def)
  show ?thesis
    unfolding rrdc_update_text_def 0 1 option.case assms add_all_strings 2 by (simp add: Let_def del: request_line_simps)
qed

lemma request_line_snoc: "request_line (ss @ [s]) = request_line ss @ escape s @ [SP]"
  by (simp add: request_line_def)

lemma request_line_no_NL:
  assumes "list_all (\<lambda>s. NL \<notin> set s) ss"
  shows "NL \<notin> set (request_line ss)"
  using assms set_escape by (induction ss) fastforce+

lemma request_line_no_CR:
  assumes "ss \<noteq> []" and "s = [] \<or> last s \<noteq> CR"
  shows "chop_cr (butlast (request_line (ss @ [s]))) = butlast (request_line (ss @ [s]))"
proof -
  have "last (request_line ss) = SP" "request_line ss \<noteq> []"
    using assms(1) by (cases ss rule: rev_cases; simp add: request_line_snoc)+
  moreover have "butlast (request_line (ss @ [s])) = request_line ss @ escape s"
    by (simp add: request_line_snoc butlast_append)
  ultimately show ?thesis
    using assms(2) last_escape [of s] by (cases "s = []") (auto simp: chop_cr_def)
qed

lemma value_text_chars: "set (value_text now val) \<subseteq> set val \<union> {c. is_digit c} \<union> {CHR '':''}"
proof -
  have "set (show_nat now) \<subseteq> {c. is_digit c}" using show_nat_digits [of now] by (auto simp: list_all_iff)
  then show ?thesis
    by (auto simp: value_text_def dest!: in_set_takeD split: if_splits dest: in_set_dropD)
qed

lemma update_fields_clean:
  assumes "list_all (\<lambda>s. c \<notin> set s) (path # vals)" and "\<not> is_digit c" and "c \<noteq> CHR '':''" and "c \<notin> set ''update''"
  shows "list_all (\<lambda>s. c \<notin> set s) (update_fields path now vals)"
  using assms value_text_chars by (fastforce simp: update_fields_def list_all_iff)

lemma split_request:
  assumes "NL \<notin> set (request_line ss)"
  shows "split_lines (finish_request (request_line ss)) = ([butlast (request_line ss)], [])"
  using split_lines_line [of "butlast (request_line ss)" "[]"] assms
  by (auto simp: finish_request_def dest: in_set_butlastD)

section \<open>Lines of a response\<close>

text \<open>A line that the client reads back as it is, and several of them.\<close>

definition plain_line :: "string \<Rightarrow> bool" where
  "plain_line l \<longleftrightarrow> NL \<notin> set l \<and> NUL \<notin> set l \<and> length l < 4095 \<and> (l = [] \<or> last l \<noteq> CR)"

definition wire :: "string list \<Rightarrow> string" where
  "wire ls = concat (map (\<lambda>l. l @ [NL]) ls)"

lemma wire_simps [simp]: "wire [] = []" "wire (l # ls) = l @ NL # wire ls" "wire (ls @ ls') = wire ls @ wire ls'"
  by (simp_all add: wire_def)

lemma dropWhile_line: "NL \<notin> set l \<Longrightarrow> dropWhile (\<lambda>c. c \<noteq> NL) (l @ NL # r) = NL # r"
  by (induction l) auto

lemma fgets_line:
  assumes "plain_line l"
  shows "fgets 4096 (l @ NL # r) = Some (l @ [NL], r)"
proof -
  have l: "NL \<notin> set l" "length (l @ [NL]) \<le> 4096 - 1" using assms by (simp_all add: plain_line_def)
  show ?thesis
    unfolding fgets_def takeWhile_line [OF l(1)] dropWhile_line [OF l(1)] Let_def
    using take_all [OF l(2)] by simp
qed

lemma chomp_line: "plain_line l \<Longrightarrow> chomp (l @ [NL]) = l"
  by (cases l rule: rev_cases) (auto simp: chomp_def plain_line_def)

lemma read_lines_wire: "list_all plain_line ls \<Longrightarrow> read_lines (length ls) (wire ls @ r) = Some (ls, r)"
  by (induction ls) (simp_all add: fgets_line chomp_line)

lemma count_lines_wire:
  assumes "list_all plain_line ls"
  shows "count_lines (Some (wire ls)) = length ls"
proof -
  have "NUL \<notin> set (wire ls)" using assms by (induction ls) (auto simp: plain_line_def)
  then have "takeWhile (\<lambda>c. c \<noteq> NUL) (wire ls) = wire ls" by (auto simp: takeWhile_eq_all_conv)
  then have c: "count_lines (Some (wire ls)) = length (filter (\<lambda>c. c = NL) (wire ls))" by (simp only: count_lines_def option.case)
  have "filter (\<lambda>c. c = NL) l = []" if "plain_line l" for l using that by (auto simp: plain_line_def filter_empty_conv)
  with assms show ?thesis unfolding c by (induction ls) auto
qed

text \<open>The text of a message, in front of the end of its line.\<close>

definition plain_msg :: "string \<Rightarrow> bool" where
  "plain_msg m \<longleftrightarrow> NL \<notin> set m \<and> NUL \<notin> set m \<and> length m < 4000 \<and>
     (m \<noteq> [] \<longrightarrow> last m \<noteq> CR \<and> hd m \<noteq> SP \<and> hd m \<noteq> TAB)"

lemma show_int_chars: "c \<in> set (show_int i) \<Longrightarrow> is_digit c \<or> c = CHR ''-''"
  using show_nat_digits by (auto simp: show_int_def list_all_iff split: if_splits)

lemma length_show_int:
  assumes "\<bar>i\<bar> < 2 ^ 31"
  shows "length (show_int i) \<le> 11"
proof -
  have "nat \<bar>i\<bar> < 10 ^ Suc 9" using assms by (simp add: nat_less_iff)
  then have "length (show_nat (nat \<bar>i\<bar>)) \<le> Suc 9" by (rule length_show_nat)
  then show ?thesis by (auto simp: show_int_def)
qed

lemma printed_fits: "length start + length msg \<le> CMD_MAX - 1 \<Longrightarrow> printed start msg = start @ msg"
  by (simp add: printed_def Let_def)

text \<open>A status line, as it is sent and as it is read.\<close>

lemma status_line:
  assumes "plain_msg m" and "\<bar>i\<bar> < 2 ^ 31"
  shows "plain_line (show_int i @ '' '' @ m)" "printed (show_int i @ '' '') (m @ [NL]) = (show_int i @ '' '' @ m) @ [NL]"
    "length (show_int i @ '' '') + length (m @ [NL]) \<le> CMD_MAX"
    "strtol_base0 (show_int i @ '' '' @ m) = (i, '' '' @ m)" "dropWhile (\<lambda>c. c = SP \<or> c = TAB) ('' '' @ m) = m"
proof -
  note len = length_show_int [OF assms(2)]
  have "\<not> is_digit NL" "\<not> is_digit NUL" by (simp_all add: is_digit_def)
  then have "NL \<notin> set (show_int i)" "NUL \<notin> set (show_int i)" using show_int_chars by blast+
  then show "plain_line (show_int i @ '' '' @ m)"
    using assms(1) len by (auto simp: plain_line_def plain_msg_def)
  show "printed (show_int i @ '' '') (m @ [NL]) = (show_int i @ '' '' @ m) @ [NL]"
    using assms(1) len by (subst printed_fits) (simp_all add: plain_msg_def CMD_MAX_def)
  show "length (show_int i @ '' '') + length (m @ [NL]) \<le> CMD_MAX" using assms(1) len by (simp add: plain_msg_def CMD_MAX_def)
  show "strtol_base0 (show_int i @ '' '' @ m) = (i, '' '' @ m)"
    using assms(2) by (intro strtol_show_int) (simp_all add: is_digit_def lower_def isupper_def code_def)
  show "dropWhile (\<lambda>c. c = SP \<or> c = TAB) ('' '' @ m) = m" using assms(1) by (cases m) (auto simp: plain_msg_def)
qed

lemma response_read_status:
  assumes "plain_msg m" and "\<bar>i\<bar> < 2 ^ 31" and "list_all plain_line ls" and "i \<le> 0 \<longrightarrow> ls = []" and "0 < i \<longrightarrow> i = int (length ls)"
  shows "response_read ((show_int i @ '' '' @ m) @ NL # wire ls @ r) = Inr (\<lparr>rs_status = i, rs_message = m, rs_lines = ls\<rparr>, r)"
proof -
  note st = status_line [OF assms(1,2)]
  have s: "s32 i = i" using assms(2) by (intro s32_id) auto
  have ne: "show_int i \<noteq> []" by (simp add: show_int_def)
  show ?thesis
    unfolding response_read_def fgets_line [OF st(1)] option.case prod.case chomp_line [OF st(1)] st(4) Let_def st(5) s
    using ne assms(4,5) read_lines_wire [OF assms(3), of r] by (cases "i \<le> 0") auto
qed

lemma send_response_read:
  assumes "batch_start sock = 0" and "plain_msg m" and "list_all plain_line ls" and "length ls < 2 ^ 31"
    and "(case wbuf sock of None \<Rightarrow> [] | Some w \<Rightarrow> w) = wire ls"
  shows "\<exists>out. send_response rc (m @ [NL]) sock = Some (0, sock\<lparr>sent := sent sock @ out, wbuf := None\<rparr>) \<and>
    (\<forall>r. response_read (out @ r) = Inr (if rc = RESP_OK then \<lparr>rs_status = int (length ls), rs_message = m, rs_lines = ls\<rparr>
       else \<lparr>rs_status = - 1, rs_message = m, rs_lines = []\<rparr>, r))"
proof -
  define i where "i = (if rc = RESP_OK then int (length ls) else - 1)"
  have "wbuf sock = None \<Longrightarrow> ls = []" using assms(5) by (cases ls) auto
  then have "count_lines (wbuf sock) = length ls"
    using assms(5) count_lines_wire [OF assms(3)] by (cases "wbuf sock") (auto simp: count_lines_def)
  then have i: "(if rc = RESP_OK then int (count_lines (wbuf sock)) else - 1) = i" by (simp add: i_def)
  have bound: "\<bar>i\<bar> < 2 ^ 31" using assms(4) by (simp add: i_def)
  let ?out = "(show_int i @ '' '' @ m) @ NL # (if rc = RESP_OK then wire ls else [])"
  note st = status_line [OF assms(2) bound]
  have "send_response rc (m @ [NL]) sock = Some (0, sock\<lparr>sent := sent sock @ ?out, wbuf := None\<rparr>)"
    unfolding send_response_def i Let_def st(2) using assms(1,5) st(3) by (cases rc) (simp_all add: not_less)
  moreover have "response_read (?out @ r) = Inr (if rc = RESP_OK then \<lparr>rs_status = int (length ls), rs_message = m, rs_lines = ls\<rparr>
       else \<lparr>rs_status = - 1, rs_message = m, rs_lines = []\<rparr>, r)" for r
  proof (cases rc)
    case RESP_ERR
    then show ?thesis using response_read_status [OF assms(2) bound, of "[]" r] by (simp add: i_def)
  next
    case RESP_OK
    then show ?thesis using response_read_status [OF assms(2) bound assms(3), of r] by (simp add: i_def)
  qed
  ultimately show ?thesis by blast
qed

section \<open>Batches\<close>

text \<open>The replies to the commands of a batch, each counted by \<open>handle_request\<close> first.\<close>

fun batch_replies :: "(response_code \<times> string) list \<Rightarrow> listen_socket \<Rightarrow> listen_socket option" where
  "batch_replies [] sock = Some sock"
| "batch_replies ((rc, msg) # rs) sock =
     Option.bind (send_response rc msg (sock\<lparr>batch_cmd := batch_cmd sock + 1\<rparr>)) (\<lambda>(_, sock). batch_replies rs sock)"

text \<open>The lines a batch is to report: the number and the message of each command that failed.\<close>

fun error_lines :: "int \<Rightarrow> (response_code \<times> string) list \<Rightarrow> string list" where
  "error_lines k [] = []"
| "error_lines k ((rc, m) # rs) = (if rc = RESP_ERR then [show_int (k + 1) @ '' '' @ m] else []) @ error_lines (k + 1) rs"

definition wbuf_text :: "listen_socket \<Rightarrow> string" where
  "wbuf_text sock = (case wbuf sock of None \<Rightarrow> [] | Some w \<Rightarrow> w)"

lemma batch_replies_lines:
  assumes "batch_start sock \<noteq> 0" and "list_all (\<lambda>(rc, m). plain_msg m) rs" and "0 \<le> batch_cmd sock" and "batch_cmd sock + int (length rs) < 2 ^ 31"
  shows "\<exists>w. batch_replies (map (\<lambda>(rc, m). (rc, m @ [NL])) rs) sock = Some (sock\<lparr>batch_cmd := batch_cmd sock + int (length rs), wbuf := w\<rparr>) \<and>
     (case w of None \<Rightarrow> [] | Some w \<Rightarrow> w) = wbuf_text sock @ wire (error_lines (batch_cmd sock) rs)"
  using assms
proof (induction rs arbitrary: sock)
  case Nil
  then show ?case by (auto simp: wbuf_text_def intro!: exI [of _ "wbuf sock"])
next
  case (Cons r rs)
  obtain rc m where r: "r = (rc, m)" by (cases r)
  let ?k = "batch_cmd sock + 1"
  define w where "w = (if rc = RESP_ERR then Some (wbuf_text sock @ (show_int ?k @ '' '' @ m) @ [NL]) else wbuf sock)"
  have m: "plain_msg m" "\<bar>?k\<bar> < 2 ^ 31" using Cons.prems r by auto
  have s: "send_response rc (m @ [NL]) (sock\<lparr>batch_cmd := ?k\<rparr>) = Some (0, sock\<lparr>batch_cmd := ?k, wbuf := w\<rparr>)"
    using Cons.prems(1) status_line(2) [OF m]
    by (cases rc) (simp_all add: send_response_def w_def add_to_wbuf_def wbuf_text_def)
  have t: "wbuf_text (sock\<lparr>batch_cmd := ?k, wbuf := w\<rparr>) = wbuf_text sock @ (if rc = RESP_ERR then wire [show_int ?k @ '' '' @ m] else [])"
    by (simp add: w_def wbuf_text_def)
  from Cons.IH [of "sock\<lparr>batch_cmd := ?k, wbuf := w\<rparr>"] Cons.prems r s t show ?case
    by (auto simp: ac_simps)
qed

lemma error_lines_plain:
  assumes "list_all (\<lambda>(rc, m). plain_msg m) rs" and "0 \<le> k" and "k + int (length rs) < 2 ^ 31"
  shows "list_all plain_line (error_lines k rs) \<and> length (error_lines k rs) \<le> length rs"
  using assms
proof (induction rs arbitrary: k)
  case (Cons r rs)
  obtain rc m where r: "r = (rc, m)" by (cases r)
  have "plain_line (show_int (k + 1) @ '' '' @ m)" using Cons.prems r by (intro status_line(1)) auto
  with Cons.IH [of "k + 1"] Cons.prems r show ?case by auto
qed simp

section \<open>Claims\<close>

definition idle_socket :: listen_socket where
  "idle_socket = \<lparr>rbuf = [], cmd_pos = 0, batch_start = 0, batch_cmd = 0, wbuf = None, permissions = 0, sent = []\<rparr>"

text \<open>
  however the bytes of a connection are cut into reads, the daemon finds the same commands: the complete lines of
  everything received, without a carriage return at their end; what is left in the buffer is the unfinished line. This holds
  as long as no line fills the read buffer.
\<close>

theorem connection_lines:
  assumes "cmd_pos sock = 0" and "rbuf sock = []" and "lines_fit (concat pieces)"
  shows "conn_rounds pieces sock = (map chop_cr (fst (split_lines (concat pieces))), sock\<lparr>rbuf := snd (split_lines (concat pieces))\<rparr>)"
  using conn_rounds_lines [of sock pieces] assms by simp

theorem connection_lines_witness:
  "conn_rounds [''ST'', ''ATS'' @ [CR], [NL] @ ''QU'', ''EUE'' @ [NL] @ ''HE''] idle_socket = ([''STATS'', ''QUEUE''], idle_socket\<lparr>rbuf := ''HE''\<rparr>)"
  using connection_lines [of idle_socket "[''ST'', ''ATS'' @ [CR], [NL] @ ''QU'', ''EUE'' @ [NL] @ ''HE'']"]
  by (simp add: idle_socket_def chop_cr_def lines_fit_def RBUF_SIZE_def CMD_MAX_def)

text \<open>
  C31: the client and the daemon agree on requests. An update request is refused by the client exactly when its escaped
  text does not fit into 4096 bytes; otherwise the daemon, however the text is cut into reads, sees one command, whose
  fields are the word update, the path and the values, with the spaces and backslashes they had, provided that
  no string contains a newline or a zero byte and the last one does not end with a carriage return.
\<close>

theorem request_roundtrip:
  assumes "get_path realpath sd_path file = Some path"
    and "list_all (\<lambda>s. NL \<notin> set s \<and> NUL \<notin> set s) (path # vals)"
    and "let s = last (update_fields path now vals) in s = [] \<or> last s \<noteq> CR"
    and "cmd_pos sock = 0" and "rbuf sock = []"
  shows "case rrdc_update_text realpath sd_path now file vals of
     Inl e \<Rightarrow> e = ENOBUFS \<and> length (request_line (update_fields path now vals)) > 4096
   | Inr txt \<Rightarrow> length txt \<le> 4096 \<and>
       (\<forall>pieces. concat pieces = txt \<longrightarrow>
          (\<exists>cmd. conn_rounds pieces sock = ([cmd], sock) \<and> get_fields (cmd @ [NUL]) = update_fields path now vals))"
proof -
  let ?fs = "update_fields path now vals"
  let ?cmd = "butlast (request_line ?fs)"
  have "list_all (\<lambda>s. NL \<notin> set s) ?fs" and nul: "list_all (\<lambda>s. NUL \<notin> set s) ?fs"
    using assms(2) update_fields_clean [of NL path vals now] update_fields_clean [of NUL path vals now]
    by (auto simp: list_all_iff is_digit_def)
  then have nl: "NL \<notin> set (request_line ?fs)" by (intro request_line_no_NL)
  have fs: "?fs = butlast ?fs @ [last ?fs]" "butlast ?fs \<noteq> []" "?fs \<noteq> []" by (simp_all add: update_fields_def)
  have cr: "chop_cr ?cmd = ?cmd" using request_line_no_CR [OF fs(2), of "last ?fs"] assms(3) fs(1) by (simp add: Let_def)
  have "conn_rounds pieces sock = ([?cmd], sock)"
    if "concat pieces = finish_request (request_line ?fs)" "length (concat pieces) \<le> 4096" for pieces
    using conn_rounds_lines [of sock pieces] lines_fit_short [of "concat pieces"] assms(4,5) split_request [OF nl] that cr
    by (simp add: RBUF_SIZE_def CMD_MAX_def)
  moreover have "length (finish_request (request_line ?fs)) = length (request_line ?fs)"
    by (simp add: finish_request_def update_fields_def)
  ultimately show ?thesis
    using get_fields_line [OF fs(3) nul] rrdc_update_text_eq [OF assms(1), of now vals] by (auto simp: Let_def)
qed


lemma demo_request:
  "rrdc_update_text Some (Some ''unix:/var/sock'') (\<lambda>_. 10) ''/a b.rrd'' [''N:1'', ''20:2''] = Inr (''update /a'' @ BS # '' b.rrd 10:1 20:2'' @ [NL])"
  "update_fields ''/a b.rrd'' (\<lambda>_. 10) [''N:1'', ''20:2''] = [''update'', ''/a b.rrd'', ''10:1'', ''20:2'']"
  by code_simp+

theorem request_roundtrip_witness:
  "\<exists>cmd. conn_rounds [''update /a'' @ [BS], '' b.rrd 10:1 20:2'', [NL]] idle_socket = ([cmd], idle_socket) \<and>
     get_fields (cmd @ [NUL]) = [''update'', ''/a b.rrd'', ''10:1'', ''20:2'']"
  using request_roundtrip [of Some "Some ''unix:/var/sock''" "''/a b.rrd''" "''/a b.rrd''" "[''N:1'', ''20:2'']" "\<lambda>_. 10" idle_socket]
  unfolding demo_request
  by (auto simp: idle_socket_def get_path_def Let_def dest!: spec [of _ "[''update /a'' @ [BS], '' b.rrd 10:1 20:2'', [NL]]"])

text \<open>
  C32: what a batch reports. A batch that has just been started, with nothing collected yet, gets fewer than 2^31
  commands. While it runs nothing is sent; at its end the client reads the number of commands that failed and, for each of
  them, its number in the batch and its message, and the next response starts right behind. The messages are those that
  survive being printed and read back as a line: shorter than 4000 characters, without a newline or a zero byte inside, not
  beginning with a blank or a tab and not ending with a carriage return. A longer message breaks the report: it is copied
  out with its full length although only 4095 bytes were printed, so that zero bytes
  are sent in the place of the rest and the end of the line is lost.
\<close>

theorem batch_report:
  assumes "batch_start sock \<noteq> 0" and "batch_cmd sock = 0" and "wbuf sock = None"
    and "list_all (\<lambda>(rc, m). plain_msg m) rs" and "length rs < 2 ^ 31"
  shows "\<exists>s1 s2 out. batch_replies (map (\<lambda>(rc, m). (rc, m @ [NL])) rs) sock = Some s1 \<and> sent s1 = sent sock \<and>
     batch_done s1 = Some (0, s2) \<and> batch_start s2 = 0 \<and> wbuf s2 = None \<and> sent s2 = sent sock @ out \<and>
     (\<forall>r. response_read (out @ r) =
        Inr (\<lparr>rs_status = int (length (error_lines 0 rs)), rs_message = ''errors'', rs_lines = error_lines 0 rs\<rparr>, r))"
proof -
  have n: "int (length rs) < 2 ^ 31" using assms(5) by simp
  obtain w where w: "batch_replies (map (\<lambda>(rc, m). (rc, m @ [NL])) rs) sock = Some (sock\<lparr>batch_cmd := int (length rs), wbuf := w\<rparr>)"
      "(case w of None \<Rightarrow> [] | Some w \<Rightarrow> w) = wire (error_lines 0 rs)"
    using batch_replies_lines [OF assms(1,4)] assms(2,3) n by (auto simp: wbuf_text_def)
  let ?s = "sock\<lparr>batch_cmd := int (length rs), wbuf := w\<rparr>"
  have e: "list_all plain_line (error_lines 0 rs)" "length (error_lines 0 rs) < 2 ^ 31"
    using error_lines_plain [OF assms(4), of 0] n assms(5) by auto
  have "plain_msg ''errors''" by (simp add: plain_msg_def)
  then obtain out where out: "send_response RESP_OK (''errors'' @ [NL]) (?s\<lparr>batch_start := 0, batch_cmd := 0\<rparr>)
        = Some (0, ?s\<lparr>batch_start := 0, batch_cmd := 0, sent := sent sock @ out, wbuf := None\<rparr>)"
      "\<And>r. response_read (out @ r) = Inr (\<lparr>rs_status = int (length (error_lines 0 rs)), rs_message = ''errors'', rs_lines = error_lines 0 rs\<rparr>, r)"
    using send_response_read [of "?s\<lparr>batch_start := 0, batch_cmd := 0\<rparr>" "''errors''" "error_lines 0 rs" RESP_OK] e w(2) by auto
  have "batch_done ?s = Some (0, ?s\<lparr>batch_start := 0, batch_cmd := 0, sent := sent sock @ out, wbuf := None\<rparr>)"
    using assms(1) out(1) by (simp add: batch_done_def)
  with w(1) out(2) show ?thesis
    by (intro exI [of _ ?s] exI [of _ "?s\<lparr>batch_start := 0, batch_cmd := 0, sent := sent sock @ out, wbuf := None\<rparr>"] exI [of _ out] conjI) simp_all
qed

theorem batch_report_witness:
  "\<exists>s1 s2 out. batch_replies [(RESP_OK, ''Gone!'' @ [NL]), (RESP_ERR, ''No such file: a'' @ [NL])] (idle_socket\<lparr>batch_start := 1200000000\<rparr>) = Some s1 \<and>
     batch_done s1 = Some (0, s2) \<and> sent s2 = out \<and>
     response_read out = Inr (\<lparr>rs_status = 1, rs_message = ''errors'', rs_lines = [show_int 2 @ '' No such file: a'']\<rparr>, [])"
proof -
  let ?s = "idle_socket\<lparr>batch_start := 1200000000\<rparr>" and ?rs = "[(RESP_OK, ''Gone!''), (RESP_ERR, ''No such file: a'')]"
  have "list_all (\<lambda>(rc, m). plain_msg m) ?rs" by (simp add: plain_msg_def)
  from batch_report [of ?s ?rs] this obtain s1 s2 out where
    "batch_replies (map (\<lambda>(rc, m). (rc, m @ [NL])) ?rs) ?s = Some s1" "batch_done s1 = Some (0, s2)" "sent s2 = sent ?s @ out"
    "\<And>r. response_read (out @ r) = Inr (\<lparr>rs_status = int (length (error_lines 0 ?rs)), rs_message = ''errors'', rs_lines = error_lines 0 ?rs\<rparr>, r)"
    by (auto simp: idle_socket_def)
  note r = this(4) [of "[]"] and s = this(1-3)
  from r s show ?thesis by (intro exI conjI) (simp_all add: idle_socket_def)
qed

end
