(* ===== verification/Daemon_Cache.thy ===== *)
theory Daemon_Cache
  imports Cache_Queue Protocol "HOL-Library.RBT" "HOL-Library.List_Lexorder" "HOL-Library.Char_ord"
begin

text \<open>
  The cache of the daemon (\<open>rrd_daemon.c\<close>): the tree of cache items, the handlers that change it, the dispatch of requests and
  the journal. Every function here is one critical section under \<open>cache_lock\<close>; \<open>Daemon_Threads\<close> interleaves them.
\<close>

section \<open>The tree\<close>

text \<open>
  The tree is GLib's \<open>GTree\<close>, keyed by file name. Its operations are a parameter of the model; \<open>gtree_laws\<close> is their
  documented behaviour. \<open>gt_keys\<close> is the order in which \<open>g_tree_foreach\<close> visits the entries.
\<close>

record 't gtree =
  gt_lookup :: "'t \<Rightarrow> string \<Rightarrow> nat option"
  gt_replace :: "'t \<Rightarrow> string \<Rightarrow> nat \<Rightarrow> 't"
  gt_remove :: "'t \<Rightarrow> string \<Rightarrow> 't"
  gt_keys :: "'t \<Rightarrow> string list"

definition gtree_laws :: "'t gtree \<Rightarrow> bool" where
  "gtree_laws G \<longleftrightarrow>
     (\<forall>t k v. gt_lookup G (gt_replace G t k v) = (gt_lookup G t)(k \<mapsto> v)) \<and>
     (\<forall>t k. gt_lookup G (gt_remove G t k) = (gt_lookup G t)(k := None)) \<and>
     (\<forall>t. distinct (gt_keys G t) \<and> set (gt_keys G t) = dom (gt_lookup G t))"

section \<open>State\<close>

datatype dstate = RUNNING | FLUSHING | SHUTDOWN

record dconfig =
  write_interval :: int
  write_jitter :: int
  flush_interval :: int
  base_dir :: "string option"
  write_base_only :: bool

text \<open>
  \<open>next_addr\<close> is where the next item will be allocated. The journal is its lines: those of the current set of files and
  those of the set before it.
\<close>

record 't daemon =
  dcache :: cache
  dtree :: 't
  next_addr :: nat
  dstate :: dstate
  flush_at_shutdown :: bool
  journaling :: bool
  journal_cur :: "string list"
  journal_old :: "string list"
  updates_received :: nat
  flush_received :: nat
  updates_written :: nat
  data_sets_written :: nat
  journal_rotations :: nat

text \<open>What a handler answers; \<open>Status\<close> is a return value without an answer.\<close>

datatype message = Usage | AccessDenied | NoSuchFile string | StatFailed | NotRegular string | CannotAccess string
  | NoTimestamp string | IllegalTime dbl dbl | NoValues | EnqueuedValues nat | Flushed string | NothingToFlush string
  | StartedFlush | NotCached | Pending "string list" | Gone | InQueue "(nat \<times> string) list" | Help | Statistics
  | UnknownCommand string | PermissionDenied | WrongContext string

datatype answer = Reply response_code message | Status int

section \<open>Paths\<close>

text \<open>\<open>check_file_access\<close>, without the answer it sends; a journal is replayed without the check.\<close>

definition has_infix :: "string \<Rightarrow> string \<Rightarrow> bool" where
  "has_infix p str \<longleftrightarrow> list_ex (\<lambda>i. take (length p) (drop i str) = p) [0 ..< length str + 1]"

definition check_file_access :: "dconfig \<Rightarrow> bool \<Rightarrow> string \<Rightarrow> bool" where
  "check_file_access cfg replay file =
     (case base_dir cfg of None \<Rightarrow> True
      | Some base \<Rightarrow>
          if \<not> write_base_only cfg \<or> replay then True
          else if has_infix ''../'' file then False
          else if take 1 file \<noteq> ''/'' then True
          else length file \<ge> length base + 2 \<and> take (length base) file = base \<and> file ! length base = CHR ''/'')"

definition PATH_MAX :: nat where "PATH_MAX = 4096"

definition get_abs_path :: "dconfig \<Rightarrow> string \<Rightarrow> string" where
  "get_abs_path cfg file =
     (case base_dir cfg of None \<Rightarrow> file
      | Some base \<Rightarrow> if take 1 file = ''/'' then file else take (PATH_MAX - 1) (base @ ''/'' @ file))"

section \<open>Critical sections\<close>

text \<open>\<open>journal_write\<close>; the limit of a journal file only starts another one of the same set.\<close>

definition journal_write :: "string \<Rightarrow> string \<Rightarrow> 't daemon \<Rightarrow> 't daemon" where
  "journal_write cmd args d = (if journaling d then d\<lparr>journal_cur := journal_cur d @ [cmd @ '' '' @ args]\<rparr> else d)"

text \<open>\<open>wipe_ci_values\<close>; \<open>rnd\<close> is the value of \<open>rrd_random\<close>.\<close>

definition wipe_ci_values :: "dconfig \<Rightarrow> int \<Rightarrow> int \<Rightarrow> cache_item \<Rightarrow> cache_item" where
  "wipe_ci_values cfg rnd when i =
     i\<lparr>ci_values := [], ci_last_flush_time := when + (if write_jitter cfg > 0 then rnd mod write_jitter cfg else 0)\<rparr>"

text \<open>Removing a tree entry frees its item.\<close>

definition tree_remove :: "'t gtree \<Rightarrow> string \<Rightarrow> 't daemon \<Rightarrow> (bool \<times> 't daemon) option" where
  "tree_remove G file d =
     (case gt_lookup G (dtree d) file of
        None \<Rightarrow> Some (False, d\<lparr>dtree := gt_remove G (dtree d) file\<rparr>)
      | Some a \<Rightarrow> map_option (\<lambda>c. (True, d\<lparr>dcache := c, dtree := gt_remove G (dtree d) file\<rparr>)) (free_cache_item a (dcache d)))"

text \<open>The callback of \<open>flush_old_values\<close>, which queues an entry with old values and collects an idle one without any.\<close>

definition tree_callback_flush :: "'t gtree \<Rightarrow> dconfig \<Rightarrow> int \<Rightarrow> int \<Rightarrow> string \<Rightarrow> 't daemon \<times> string list \<Rightarrow> ('t daemon \<times> string list) option" where
  "tree_callback_flush G cfg now abs_timeout key dk =
     (case dk of (d, keys) \<Rightarrow>
       Option.bind (gt_lookup G (dtree d) key) (\<lambda>a.
       Option.bind (items (dcache d) a) (\<lambda>ci.
       if ci_in_queue ci then Some (d, keys)
       else if ci_values ci \<noteq> [] \<and> (ci_last_flush_time ci \<le> abs_timeout \<or> dstate d \<noteq> RUNNING)
       then map_option (\<lambda>c. (d\<lparr>dcache := c\<rparr>, keys)) (enqueue_cache_item a TAIL (dcache d))
       else if now - ci_last_flush_time ci \<ge> flush_interval cfg \<and> ci_values ci = [] then Some (d, keys @ [key])
       else Some (d, keys))))"

text \<open>A removal that does not find its key violates the assertion.\<close>

definition flush_old_values :: "'t gtree \<Rightarrow> dconfig \<Rightarrow> int \<Rightarrow> int \<Rightarrow> 't daemon \<Rightarrow> 't daemon option" where
  "flush_old_values G cfg now max_age d =
     (let abs_timeout = (if max_age > 0 then now - max_age else now + 2 * write_jitter cfg + 1)
      in Option.bind (run_ops (tree_callback_flush G cfg now abs_timeout) (gt_keys G (dtree d)) (d, [])) (\<lambda>(d, keys).
           run_ops (\<lambda>key d. Option.bind (tree_remove G key d) (\<lambda>(found, d). if found then Some d else None)) keys d))"

text \<open>\<open>journal_rotate\<close>: the set before the current one is removed from the disk.\<close>

definition journal_rotate :: "'t daemon \<Rightarrow> 't daemon" where
  "journal_rotate d =
     (if \<not> journaling d then d
      else d\<lparr>journal_rotations := journal_rotations d + 1, journal_old := journal_cur d, journal_cur := []\<rparr>)"

section \<open>Handlers\<close>

text \<open>The loop over the values of an UPDATE: an error leaves what was added before it.\<close>

fun take_values :: "string list \<Rightarrow> cache_item \<Rightarrow> nat \<Rightarrow> message option \<times> cache_item \<times> nat" where
  "take_values [] i n = (None, i, n)"
| "take_values (val # vals) i n =
     (let ((stamp, _), rest) = strtod val
      in if length rest = length val \<or> take 1 rest \<noteq> '':'' then (Some (NoTimestamp val), i, n)
         else if stamp \<le> ci_last_update_stamp i then (Some (IllegalTime stamp (ci_last_update_stamp i)), i, n)
         else take_values vals (i\<lparr>ci_last_update_stamp := stamp, ci_values := ci_values i @ [val]\<rparr>) (n + 1))"

text \<open>The part of \<open>handle_request_update\<close> that has the item.\<close>

definition update_item :: "dconfig \<Rightarrow> bool \<Rightarrow> int \<Rightarrow> string \<Rightarrow> string list \<Rightarrow> nat \<Rightarrow> 't daemon \<Rightarrow> (answer \<times> 't daemon) option" where
  "update_item cfg replay now orig_buf vals a d =
     (let d = (if replay then d else journal_write ''update'' orig_buf d)
      in Option.bind (items (dcache d) a) (\<lambda>ci.
         case take_values vals ci 0 of (err, ci, n) \<Rightarrow>
           Option.bind (upd_item a (\<lambda>_. ci) (dcache d)) (\<lambda>c.
           case err of
             Some msg \<Rightarrow> Some (Reply RESP_ERR msg, d\<lparr>dcache := c\<rparr>)
           | None \<Rightarrow>
               map_option (\<lambda>c. (if n < 1 then Reply RESP_ERR NoValues else Reply RESP_OK (EnqueuedValues n), d\<lparr>dcache := c\<rparr>))
                 (if now - ci_last_flush_time ci \<ge> write_interval cfg \<and> \<not> ci_in_queue ci \<and> ci_values ci \<noteq> []
                  then enqueue_cache_item a TAIL c else Some c))))"

text \<open>A new item, when the file has no entry at the second look either.\<close>

definition new_item :: "dconfig \<Rightarrow> int \<Rightarrow> int \<Rightarrow> string \<Rightarrow> cache_item" where
  "new_item cfg rnd now file =
     wipe_ci_values cfg rnd now \<lparr>ci_file = file, ci_values = [], ci_last_flush_time = 0, ci_last_update_stamp = 0,
       ci_in_tree = True, ci_in_queue = False, ci_prev = None, ci_next = None\<rparr>"

definition insert_item :: "'t gtree \<Rightarrow> dconfig \<Rightarrow> int \<Rightarrow> int \<Rightarrow> string \<Rightarrow> 't daemon \<Rightarrow> (nat \<times> 't daemon) option" where
  "insert_item G cfg rnd now file d =
     (let a = next_addr d;
          d = d\<lparr>next_addr := a + 1, dcache := (dcache d)\<lparr>items := (items (dcache d))(a \<mapsto> new_item cfg rnd now file)\<rparr>\<rparr>
      in case gt_lookup G (dtree d) file of
           None \<Rightarrow> Some (a, d\<lparr>dtree := gt_replace G (dtree d) file a\<rparr>)
         | Some b \<Rightarrow> map_option (\<lambda>c. (b, d\<lparr>dcache := c\<rparr>)) (free_cache_item a (dcache d)))"

datatype file_stat = StatOk | StatENOENT | StatError | StatNotRegular | StatNoAccess

text \<open>The second critical section of an UPDATE for a file that had no entry at the first look.\<close>

definition update_missing :: "'t gtree \<Rightarrow> dconfig \<Rightarrow> int \<Rightarrow> bool \<Rightarrow> int \<Rightarrow> string \<Rightarrow> string \<Rightarrow> string list \<Rightarrow> 't daemon \<Rightarrow> (answer \<times> 't daemon) option" where
  "update_missing G cfg rnd replay now orig_buf file vals d =
     Option.bind (insert_item G cfg rnd now file d) (\<lambda>(a, d).
       if dstate d = SHUTDOWN then Some (Status (- 1), d)
       else update_item cfg replay now orig_buf vals a d)"

text \<open>
  The line that is kept for the journal. A line that fills the buffer is not terminated, and printing it reads on behind
  the buffer: \<open>None\<close>.
\<close>

definition orig_text :: "string \<Rightarrow> string option" where
  "orig_text buffer = (let txt = takeWhile (\<lambda>c. c \<noteq> NUL) buffer in if length txt < CMD_MAX then Some txt else None)"

text \<open>
  The whole handler, when no other thread comes in between its two critical sections. \<open>fs\<close> is what \<open>stat\<close> and \<open>access\<close> say.
\<close>

definition handle_request_update :: "'t gtree \<Rightarrow> dconfig \<Rightarrow> (string \<Rightarrow> file_stat) \<Rightarrow> int \<Rightarrow> bool \<Rightarrow> int \<Rightarrow> string \<Rightarrow> 't daemon \<Rightarrow> (answer \<times> 't daemon) option" where
  "handle_request_update G cfg fs rnd replay now buffer d =
     (case buffer_get_field buffer of
        None \<Rightarrow> Some (Reply RESP_ERR Usage, d)
      | Some (file, rest) \<Rightarrow>
          let d = d\<lparr>updates_received := updates_received d + 1\<rparr>; file = get_abs_path cfg file
          in if \<not> check_file_access cfg replay file then Some (Reply RESP_ERR AccessDenied, d)
             else if \<not> replay \<and> journaling d \<and> orig_text buffer = None then None
             else let orig_buf = (case orig_text buffer of None \<Rightarrow> [] | Some txt \<Rightarrow> txt)
             in case gt_lookup G (dtree d) file of
                  Some a \<Rightarrow> update_item cfg replay now orig_buf (get_fields rest) a d
                | None \<Rightarrow>
                    (case fs file of
                       StatENOENT \<Rightarrow> Some (Reply RESP_ERR (NoSuchFile file), d)
                     | StatError \<Rightarrow> Some (Reply RESP_ERR StatFailed, d)
                     | StatNotRegular \<Rightarrow> Some (Reply RESP_ERR (NotRegular file), d)
                     | StatNoAccess \<Rightarrow> Some (Reply RESP_ERR (CannotAccess file), d)
                     | StatOk \<Rightarrow> update_missing G cfg rnd replay now orig_buf file (get_fields rest) d))"

text \<open>\<open>flush_file\<close> up to the wait for the item to be written; \<open>False\<close> is \<open>ENOENT\<close>.\<close>

definition flush_file :: "'t gtree \<Rightarrow> string \<Rightarrow> 't daemon \<Rightarrow> (bool \<times> 't daemon) option" where
  "flush_file G file d =
     (case gt_lookup G (dtree d) file of
        None \<Rightarrow> Some (False, d)
      | Some a \<Rightarrow>
          Option.bind (items (dcache d) a) (\<lambda>ci.
            if ci_values ci \<noteq> [] then map_option (\<lambda>c. (True, d\<lparr>dcache := c\<rparr>)) (enqueue_cache_item a HEAD (dcache d))
            else Some (True, d)))"

definition handle_request_flush :: "'t gtree \<Rightarrow> dconfig \<Rightarrow> (string \<Rightarrow> file_stat) \<Rightarrow> bool \<Rightarrow> string \<Rightarrow> 't daemon \<Rightarrow> (answer \<times> 't daemon) option" where
  "handle_request_flush G cfg fs replay buffer d =
     (case buffer_get_field buffer of
        None \<Rightarrow> Some (Reply RESP_ERR Usage, d)
      | Some (file, rest) \<Rightarrow>
          let d = d\<lparr>flush_received := flush_received d + 1\<rparr>; file = get_abs_path cfg file
          in if \<not> check_file_access cfg replay file then Some (Reply RESP_ERR AccessDenied, d)
             else map_option (\<lambda>(found, d).
                    (if found then Reply RESP_OK (Flushed file)
                     else if fs file \<in> {StatOk, StatNoAccess} then Reply RESP_OK (NothingToFlush file)
                     else Reply RESP_ERR (NoSuchFile file), d)) (flush_file G file d))"

definition handle_request_flushall :: "'t gtree \<Rightarrow> dconfig \<Rightarrow> int \<Rightarrow> 't daemon \<Rightarrow> (answer \<times> 't daemon) option" where
  "handle_request_flushall G cfg now d =
     map_option (\<lambda>d. (Reply RESP_OK StartedFlush, d)) (flush_old_values G cfg now (- 1) d)"

definition handle_request_pending :: "'t gtree \<Rightarrow> dconfig \<Rightarrow> string \<Rightarrow> 't daemon \<Rightarrow> (answer \<times> 't daemon) option" where
  "handle_request_pending G cfg buffer d =
     (case buffer_get_field buffer of
        None \<Rightarrow> Some (Reply RESP_ERR Usage, d)
      | Some (file, rest) \<Rightarrow>
          (case gt_lookup G (dtree d) (get_abs_path cfg file) of
             None \<Rightarrow> Some (Reply RESP_ERR NotCached, d)
           | Some a \<Rightarrow> map_option (\<lambda>ci. (Reply RESP_OK (Pending (ci_values ci)), d)) (items (dcache d) a)))"

text \<open>
  FORGET writes its line of the journal after it has released the cache lock; here both are one step, so an order in which
  another thread writes to the journal in between is not represented. The tree and the queue are not touched after the lock is
  released.
\<close>

definition handle_request_forget :: "'t gtree \<Rightarrow> dconfig \<Rightarrow> bool \<Rightarrow> string \<Rightarrow> 't daemon \<Rightarrow> (answer \<times> 't daemon) option" where
  "handle_request_forget G cfg replay buffer d =
     (case buffer_get_field buffer of
        None \<Rightarrow> Some (Reply RESP_ERR Usage, d)
      | Some (file, rest) \<Rightarrow>
          let file = get_abs_path cfg file
          in if \<not> check_file_access cfg replay file then Some (Reply RESP_ERR AccessDenied, d)
             else map_option (\<lambda>(found, d).
                    if found then (Reply RESP_OK Gone, if replay then d else journal_write ''forget'' file d)
                    else (Reply RESP_ERR NotCached, d)) (tree_remove G file d))"

definition handle_request_queue :: "'t daemon \<Rightarrow> (answer \<times> 't daemon) option" where
  "handle_request_queue d =
     map_option (\<lambda>ls. (Reply RESP_OK (InQueue ls), d)) (queue_listing (stats_queue_length (dcache d)) (queue_head (dcache d)) (dcache d))"

text \<open>WROTE takes the rest of the line as the file, without looking for escapes.\<close>

definition handle_request_wrote :: "'t gtree \<Rightarrow> dconfig \<Rightarrow> int \<Rightarrow> int \<Rightarrow> string \<Rightarrow> 't daemon \<Rightarrow> (answer \<times> 't daemon) option" where
  "handle_request_wrote G cfg rnd now buffer d =
     (case gt_lookup G (dtree d) (takeWhile (\<lambda>c. c \<noteq> NUL) buffer) of
        None \<Rightarrow> Some (Status 0, d)
      | Some a \<Rightarrow>
          Option.bind (upd_item a (wipe_ci_values cfg rnd now) (dcache d)) (\<lambda>c.
          map_option (\<lambda>c. (Status 0, d\<lparr>dcache := c\<rparr>)) (remove_from_queue a c)))"

section \<open>Dispatch\<close>

datatype command = UPDATE | WROTE | FLUSH | FLUSHALL | PENDING | FORGET | QUEUE | STATS | HELP | BATCH | DOT | QUIT

text \<open>Name, handler, and whether it may come from a client, in a batch, and from a journal.\<close>

definition list_of_commands :: "(string \<times> command \<times> bool \<times> bool \<times> bool) list" where
  "list_of_commands =
     [(''UPDATE'', UPDATE, True, True, True), (''WROTE'', WROTE, False, False, True), (''FLUSH'', FLUSH, True, True, False),
      (''FLUSHALL'', FLUSHALL, True, False, False), (''PENDING'', PENDING, True, False, False), (''FORGET'', FORGET, True, True, True),
      (''QUEUE'', QUEUE, True, False, False), (''STATS'', STATS, True, False, False), (''HELP'', HELP, True, False, False),
      (''BATCH'', BATCH, True, False, False), (''.'', DOT, False, True, False), (''QUIT'', QUIT, True, True, False)]"

definition strcasecmp_eq :: "string \<Rightarrow> string \<Rightarrow> bool" where
  "strcasecmp_eq s t \<longleftrightarrow> map lower s = map lower t"

definition find_command :: "string \<Rightarrow> (string \<times> command \<times> bool \<times> bool \<times> bool) option" where
  "find_command cmd = find (\<lambda>(name, _). strcasecmp_eq cmd name) list_of_commands"

definition find_command_index :: "string \<Rightarrow> nat option" where
  "find_command_index cmd = find (\<lambda>i. strcasecmp_eq cmd (fst (list_of_commands ! i))) [0 ..< length list_of_commands]"

definition socket_permission_check :: "listen_socket option \<Rightarrow> string \<Rightarrow> int" where
  "socket_permission_check sock cmd =
     (case sock of None \<Rightarrow> 1
      | Some s \<Rightarrow>
          if strcasecmp_eq ''QUIT'' cmd \<or> strcasecmp_eq ''HELP'' cmd then 1
          else case find_command_index (if cmd = ''.'' then ''BATCH'' else cmd) of
                 None \<Rightarrow> - 1
               | Some i \<Rightarrow> if odd (permissions s div 2 ^ i) then 1 else 0)"

definition socket_permission_add :: "string \<Rightarrow> listen_socket \<Rightarrow> (int \<times> listen_socket)" where
  "socket_permission_add cmd s =
     (case find_command_index cmd of
        None \<Rightarrow> (- 1, s)
      | Some i \<Rightarrow> (0, s\<lparr>permissions := (if odd (permissions s div 2 ^ i) then permissions s else permissions s + 2 ^ i)\<rparr>))"

definition socket_permission_set_all :: "listen_socket \<Rightarrow> listen_socket" where
  "socket_permission_set_all s = s\<lparr>permissions := (\<Sum>i < length list_of_commands. 2 ^ i)\<rparr>"

definition command_check_context :: "listen_socket option \<Rightarrow> bool \<times> bool \<times> bool \<Rightarrow> bool" where
  "command_check_context sock ctx =
     (case ctx of (client, batch, journal) \<Rightarrow>
        (case sock of None \<Rightarrow> journal | Some s \<Rightarrow> if batch_start s \<noteq> 0 then batch else client))"

text \<open>\<open>handle_request\<close> up to the call of the handler: what it answers itself, or the command and its arguments.\<close>

definition dispatch :: "listen_socket option \<Rightarrow> string \<Rightarrow> (answer + command \<times> string) \<times> listen_socket option" where
  "dispatch sock buffer =
     (case buffer_get_field buffer of
        None \<Rightarrow> (Inl (Status (- 1)), sock)
      | Some (cmd_str, rest) \<Rightarrow>
          let sock = map_option (\<lambda>s. if batch_start s \<noteq> 0 then s\<lparr>batch_cmd := batch_cmd s + 1\<rparr> else s) sock
          in case find_command cmd_str of
               None \<Rightarrow> (Inl (Reply RESP_ERR (UnknownCommand cmd_str)), sock)
             | Some (name, cmd, ctx) \<Rightarrow>
                 if socket_permission_check sock name = 0 then (Inl (Reply RESP_ERR PermissionDenied), sock)
                 else if \<not> command_check_context sock ctx then (Inl (Reply RESP_ERR (WrongContext cmd_str)), sock)
                 else (Inr (cmd, rest), sock))"

text \<open>The handlers that work on the cache, and the answers of the others. BATCH and its end are in \<open>Protocol\<close>.\<close>

definition run_handler :: "'t gtree \<Rightarrow> dconfig \<Rightarrow> (string \<Rightarrow> file_stat) \<Rightarrow> int \<Rightarrow> bool \<Rightarrow> int \<Rightarrow> command \<Rightarrow> string \<Rightarrow> 't daemon \<Rightarrow> (answer \<times> 't daemon) option" where
  "run_handler G cfg fs rnd replay now cmd buffer d =
     (case cmd of
        UPDATE \<Rightarrow> handle_request_update G cfg fs rnd replay now buffer d
      | WROTE \<Rightarrow> handle_request_wrote G cfg rnd now buffer d
      | FLUSH \<Rightarrow> handle_request_flush G cfg fs replay buffer d
      | FLUSHALL \<Rightarrow> handle_request_flushall G cfg now d
      | PENDING \<Rightarrow> handle_request_pending G cfg buffer d
      | FORGET \<Rightarrow> handle_request_forget G cfg replay buffer d
      | QUEUE \<Rightarrow> handle_request_queue d
      | STATS \<Rightarrow> Some (Reply RESP_OK Statistics, d)
      | HELP \<Rightarrow> Some (Reply RESP_OK Help, d)
      | _ \<Rightarrow> Some (Status (- 1), d))"

section \<open>Replaying a journal\<close>

text \<open>An answer counts as a success when the handler returns 0; without a connection an error answer returns -1.\<close>

definition answer_ok :: "answer \<Rightarrow> bool" where
  "answer_ok ans = (case ans of Reply rc _ \<Rightarrow> rc = RESP_OK | Status i \<Rightarrow> i = 0)"

text \<open>An entry is a C string: what is behind a zero byte in its line is not looked at, and a line cut short by one is malformed.\<close>

definition replay_entry :: "'t gtree \<Rightarrow> dconfig \<Rightarrow> (string \<Rightarrow> file_stat) \<Rightarrow> int \<Rightarrow> int \<Rightarrow> string \<Rightarrow> 't daemon \<Rightarrow> (bool \<times> 't daemon) option" where
  "replay_entry G cfg fs rnd now entry d =
     (let entry = takeWhile (\<lambda>c. c \<noteq> NUL) entry
      in if entry = [] \<or> last entry \<noteq> NL then Some (False, d)
      else case dispatch None (butlast entry @ [NUL]) of
             (Inl ans, _) \<Rightarrow> Some (answer_ok ans, d)
           | (Inr (cmd, rest), _) \<Rightarrow> map_option (\<lambda>(ans, d). (answer_ok ans, d)) (run_handler G cfg fs rnd True now cmd rest d))"

lemma fgets_shorter:
  assumes "fgets 4096 txt = Some (l, r)"
  shows "length r < length txt"
proof -
  define line where "line = takeWhile (\<lambda>c. c \<noteq> NL) txt @ take 1 (dropWhile (\<lambda>c. c \<noteq> NL) txt)"
  have ne: "txt \<noteq> []" using assms by (auto simp: fgets_def)
  then have "fgets 4096 txt = Some (take (4096 - 1) line, drop (length (take (4096 - 1) line)) txt)"
    unfolding fgets_def Let_def line_def by (rule if_not_P)
  then have "l = take (4096 - 1) line" "r = drop (length l) txt" using assms by simp_all
  moreover have "line \<noteq> []" using ne by (cases "txt") (auto simp: line_def)
  ultimately show ?thesis using ne by simp
qed

text \<open>The number of entries replayed and the daemon behind them, from the text of a journal file.\<close>

function journal_replay :: "'t gtree \<Rightarrow> dconfig \<Rightarrow> (string \<Rightarrow> file_stat) \<Rightarrow> int \<Rightarrow> int \<Rightarrow> string \<Rightarrow> 't daemon \<Rightarrow> (nat \<times> 't daemon) option" where
  "journal_replay G cfg fs rnd now txt d =
     (case fgets 4096 txt of
        None \<Rightarrow> Some (0, d)
      | Some (entry, txt) \<Rightarrow>
          Option.bind (replay_entry G cfg fs rnd now entry d) (\<lambda>(ok, d).
            map_option (\<lambda>(n, d). (if ok then n + 1 else n, d)) (journal_replay G cfg fs rnd now txt d)))"
  by pat_completeness auto

termination
  by (relation "measure (\<lambda>(G, cfg, fs, rnd, now, txt, d). length txt)") (auto dest: fgets_shorter)

declare journal_replay.simps [simp del]

section \<open>The invariant\<close>

text \<open>The values waiting in the cache for a file.\<close>

definition waiting :: "'t gtree \<Rightarrow> 't daemon \<Rightarrow> string \<Rightarrow> string list" where
  "waiting G d f =
     (case gt_lookup G (dtree d) f of None \<Rightarrow> []
      | Some a \<Rightarrow> (case items (dcache d) a of None \<Rightarrow> [] | Some i \<Rightarrow> ci_values i))"

text \<open>
  The queue is a proper list, the tree and the allocated items correspond to each other, and every queued item has values.
\<close>

definition tree_rep :: "'t gtree \<Rightarrow> 't daemon \<Rightarrow> nat list \<Rightarrow> bool" where
  "tree_rep G d xs \<longleftrightarrow>
     queue_rep (dcache d) xs \<and>
     (\<forall>f a. gt_lookup G (dtree d) f = Some a \<longrightarrow> (\<exists>i. items (dcache d) a = Some i \<and> ci_file i = f)) \<and>
     (\<forall>a i. items (dcache d) a = Some i \<longrightarrow> gt_lookup G (dtree d) (ci_file i) = Some a \<and> a < next_addr d)"

definition daemon_rep :: "'t gtree \<Rightarrow> 't daemon \<Rightarrow> nat list \<Rightarrow> bool" where
  "daemon_rep G d xs \<longleftrightarrow> tree_rep G d xs \<and> (\<forall>a i. a \<in> set xs \<longrightarrow> items (dcache d) a = Some i \<longrightarrow> ci_values i \<noteq> [])"

definition daemon_ok :: "'t gtree \<Rightarrow> 't daemon \<Rightarrow> bool" where
  "daemon_ok G d \<longleftrightarrow> (\<exists>xs. daemon_rep G d xs)"

text \<open>The file is in the queue.\<close>

definition in_line :: "'t gtree \<Rightarrow> 't daemon \<Rightarrow> string \<Rightarrow> bool" where
  "in_line G d f \<longleftrightarrow>
     (case gt_lookup G (dtree d) f of None \<Rightarrow> False
      | Some a \<Rightarrow> (case items (dcache d) a of None \<Rightarrow> False | Some i \<Rightarrow> ci_in_queue i))"

definition same_links :: "cache_item \<Rightarrow> cache_item \<Rightarrow> bool" where
  "same_links i j \<longleftrightarrow> ci_in_queue j = ci_in_queue i \<and> ci_prev j = ci_prev i \<and> ci_next j = ci_next i"

lemma chained_same_links:
  assumes "h a = Some i" and "same_links i j"
  shows "chained (h(a \<mapsto> j)) p as q = chained h p as q"
  using assms by (induction as arbitrary: p) (auto simp: same_links_def)

lemma queue_rep_same_links:
  assumes "queue_rep c xs" and "items c a = Some i" and "same_links i j"
  shows "queue_rep (c\<lparr>items := (items c)(a \<mapsto> j)\<rparr>) xs"
  using assms chained_same_links [of "items c" a i j] by (auto simp: queue_rep_def same_links_def)

lemma tree_rep_item:
  "tree_rep G d xs \<Longrightarrow> items (dcache d) a = Some i \<Longrightarrow> gt_lookup G (dtree d) (ci_file i) = Some a \<and> a < next_addr d"
  by (simp add: tree_rep_def)

lemma tree_rep_file:
  assumes "tree_rep G d xs" and "items (dcache d) a = Some i"
  shows "gt_lookup G (dtree d) f = Some a \<longleftrightarrow> f = ci_file i"
  using assms unfolding tree_rep_def by fastforce

text \<open>An item that keeps its links and its file.\<close>

lemma tree_rep_upd:
  assumes "tree_rep G d xs" and "items (dcache d) a = Some i" and "same_links i j" and "ci_file j = ci_file i"
  shows "tree_rep G (d\<lparr>dcache := (dcache d)\<lparr>items := (items (dcache d))(a \<mapsto> j)\<rparr>\<rparr>) xs"
proof -
  have "queue_rep ((dcache d)\<lparr>items := (items (dcache d))(a \<mapsto> j)\<rparr>) xs"
    using queue_rep_same_links [of "dcache d" xs a i j] assms(1-3) by (simp add: tree_rep_def)
  then show ?thesis using assms tree_rep_file [OF assms(1,2)] by (auto simp: tree_rep_def)
qed

lemma waiting_cong: "dcache d' = dcache d \<Longrightarrow> dtree d' = dtree d \<Longrightarrow> waiting G d' = waiting G d"
  by (auto simp: waiting_def fun_eq_iff split: option.split)

lemma waiting_upd:
  assumes "tree_rep G d xs" and "items (dcache d) a = Some i"
  shows "waiting G (d\<lparr>dcache := (dcache d)\<lparr>items := (items (dcache d))(a \<mapsto> j)\<rparr>\<rparr>) = (waiting G d)(ci_file i := ci_values j)"
proof
  fix f
  show "waiting G (d\<lparr>dcache := (dcache d)\<lparr>items := (items (dcache d))(a \<mapsto> j)\<rparr>\<rparr>) f = ((waiting G d)(ci_file i := ci_values j)) f"
    using tree_rep_file [OF assms, of f] by (cases "gt_lookup G (dtree d) f") (auto simp: waiting_def)
qed

lemma payload_fields [simp]:
  "ci_file (payload i) = ci_file i" "ci_values (payload i) = ci_values i"
  "ci_last_flush_time (payload i) = ci_last_flush_time i" "ci_last_update_stamp (payload i) = ci_last_update_stamp i"
  by (simp_all add: payload_def)

lemma payload_eqD: "payload i = payload j \<Longrightarrow> ci_file i = ci_file j \<and> ci_values i = ci_values j"
  by (metis payload_fields(1,2))

lemma payloads_Some:
  assumes "payloads c' = payloads c" and "items c' a = Some i"
  shows "\<exists>j. items c a = Some j \<and> ci_file j = ci_file i \<and> ci_values j = ci_values i"
proof -
  have "map_option payload (items c a) = Some (payload i)"
    using fun_cong [OF assms(1), of a] assms(2) by (simp add: payloads_def)
  then show ?thesis using payload_eqD by blast
qed

lemma payloads_None: "payloads c' = payloads c \<Longrightarrow> items c' a = None \<longleftrightarrow> items c a = None"
  by (metis payloads_def option.map_disc_iff)

lemma payloads_waiting:
  assumes "payloads c' = payloads (dcache d)"
  shows "waiting G (d\<lparr>dcache := c'\<rparr>) = waiting G d"
  using payloads_Some [OF assms] payloads_None [OF assms]
  by (fastforce simp: fun_eq_iff waiting_def split: option.split)

text \<open>Changing the links only.\<close>

lemma tree_rep_relink:
  assumes "tree_rep G d xs" and "queue_rep c' ys" and "payloads c' = payloads (dcache d)"
  shows "tree_rep G (d\<lparr>dcache := c'\<rparr>) ys"
proof -
  have 1: "\<exists>j. items (dcache d) a = Some j \<and> ci_file j = ci_file i" if "items c' a = Some i" for a i
    using payloads_Some [OF assms(3) that] by blast
  have 2: "\<exists>i. items c' a = Some i \<and> ci_file i = ci_file j" if "items (dcache d) a = Some j" for a j
    using payloads_Some [OF assms(3) [symmetric] that] by blast
  have "\<exists>i. items c' a = Some i \<and> ci_file i = f" if "gt_lookup G (dtree d) f = Some a" for f a
    using assms(1) that 2 by (fastforce simp: tree_rep_def)
  moreover have "gt_lookup G (dtree d) (ci_file i) = Some a \<and> a < next_addr d" if "items c' a = Some i" for a i
    using assms(1) 1 [OF that] by (fastforce simp: tree_rep_def)
  ultimately show ?thesis using assms(2) by (simp add: tree_rep_def)
qed

lemma daemon_ok_cong:
  assumes "dcache d' = dcache d" and "dtree d' = dtree d" and "next_addr d' = next_addr d"
  shows "daemon_ok G d' = daemon_ok G d" and "daemon_rep G d' xs = daemon_rep G d xs" and "in_line G d' = in_line G d"
  using assms by (auto simp: daemon_ok_def daemon_rep_def tree_rep_def in_line_def fun_eq_iff split: option.split)

lemma bookkeeping [simp]:
  "daemon_ok G (d\<lparr>updates_received := n\<rparr>) = daemon_ok G d" "waiting G (d\<lparr>updates_received := n\<rparr>) = waiting G d"
  "daemon_ok G (d\<lparr>flush_received := n\<rparr>) = daemon_ok G d" "waiting G (d\<lparr>flush_received := n\<rparr>) = waiting G d"
  "daemon_ok G (d\<lparr>dstate := st\<rparr>) = daemon_ok G d" "waiting G (d\<lparr>dstate := st\<rparr>) = waiting G d"
  "daemon_ok G (journal_write cmd args d) = daemon_ok G d" "waiting G (journal_write cmd args d) = waiting G d"
  "daemon_ok G (journal_rotate d) = daemon_ok G d" "waiting G (journal_rotate d) = waiting G d"
  by (intro daemon_ok_cong(1) waiting_cong; simp add: journal_write_def journal_rotate_def)+

lemma in_line_rep:
  assumes "daemon_rep G d xs"
  shows "in_line G d f \<longleftrightarrow> (\<exists>a \<in> set xs. gt_lookup G (dtree d) f = Some a)"
proof (cases "gt_lookup G (dtree d) f")
  case (Some a)
  have q: "queue_rep (dcache d) xs" using assms by (simp add: daemon_rep_def tree_rep_def)
  obtain i where i: "items (dcache d) a = Some i" using assms Some unfolding daemon_rep_def tree_rep_def by blast
  have "ci_in_queue i \<longleftrightarrow> a \<in> set xs" using q i chained_in_queue [of "items (dcache d)" None xs None a] by (auto simp: queue_rep_def)
  with Some i show ?thesis by (auto simp: in_line_def)
qed (auto simp: in_line_def)

lemma in_line_waiting:
  assumes "daemon_ok G d" and "in_line G d f"
  shows "waiting G d f \<noteq> []"
proof -
  obtain xs where xs: "daemon_rep G d xs" using assms(1) by (auto simp: daemon_ok_def)
  from iffD1 [OF in_line_rep [OF xs] assms(2)] obtain a where a: "a \<in> set xs" "gt_lookup G (dtree d) f = Some a" by blast
  then obtain i where "items (dcache d) a = Some i" "ci_values i \<noteq> []" using xs unfolding daemon_rep_def tree_rep_def by blast
  with a show ?thesis by (simp add: waiting_def)
qed

lemma daemon_okI:
  assumes "tree_rep G d ys" and "\<And>b k. b \<in> set ys \<Longrightarrow> items (dcache d) b = Some k \<Longrightarrow> ci_values k \<noteq> []"
  shows "daemon_ok G d"
  using assms unfolding daemon_ok_def daemon_rep_def by blast

lemma enqueue_ok:
  assumes "daemon_rep G d xs" and "items (dcache d) a = Some i"
  shows "\<exists>c ys. enqueue_cache_item a side (dcache d) = Some c \<and> payloads c = payloads (dcache d) \<and> daemon_rep G (d\<lparr>dcache := c\<rparr>) ys \<and>
     set ys = (if ci_values i = [] then set xs else insert a (set xs))"
proof -
  define ys where "ys = (if ci_values i = [] then xs else enqueue_list side a xs)"
  have t: "tree_rep G d xs" using assms(1) by (simp add: daemon_rep_def)
  then have "queue_rep (dcache d) xs" by (simp add: tree_rep_def)
  from enqueue_cache_item_rep [OF this assms(2), of side] obtain c
    where c: "enqueue_cache_item a side (dcache d) = Some c" "queue_rep c ys" unfolding ys_def by blast
  note p = payloads_enqueue [OF c(1)]
  have v: "ci_values k \<noteq> []" if b: "b \<in> set ys" and k: "items c b = Some k" for b k
  proof -
    obtain j where j: "items (dcache d) b = Some j" "ci_values j = ci_values k" using payloads_Some [OF p k] by blast
    have "b \<in> set xs \<or> (b = a \<and> ci_values i \<noteq> [])"
      using b notin_set_remove1 unfolding ys_def by (cases side) (auto split: if_splits)
    with j assms show ?thesis by (auto simp: daemon_rep_def)
  qed
  have "daemon_rep G (d\<lparr>dcache := c\<rparr>) ys" using tree_rep_relink [OF t c(2) p] v by (simp add: daemon_rep_def)
  moreover have "set ys = (if ci_values i = [] then set xs else insert a (set xs))"
    unfolding ys_def using \<open>queue_rep (dcache d) xs\<close> by (cases side) (auto simp: queue_rep_def)
  ultimately show ?thesis using c(1) p by blast
qed

text \<open>Values that are taken away: the item leaves the queue in the same critical section.\<close>

lemma wipe_and_remove:
  assumes "daemon_rep G d xs" and "items (dcache d) a = Some i"
  shows "\<exists>c1 c2. upd_item a (wipe_ci_values cfg rnd now) (dcache d) = Some c1 \<and> remove_from_queue a c1 = Some c2 \<and>
     daemon_rep G (d\<lparr>dcache := c2\<rparr>) (remove1 a xs) \<and> waiting G (d\<lparr>dcache := c2\<rparr>) = (waiting G d)(ci_file i := [])"
proof -
  let ?j = "wipe_ci_values cfg rnd now i"
  let ?c1 = "(dcache d)\<lparr>items := (items (dcache d))(a \<mapsto> ?j)\<rparr>"
  have t: "tree_rep G d xs" using assms(1) by (simp add: daemon_rep_def)
  have t1: "tree_rep G (d\<lparr>dcache := ?c1\<rparr>) xs"
    using tree_rep_upd [OF t assms(2)] by (simp add: same_links_def wipe_ci_values_def)
  then have q1: "queue_rep ?c1 xs" by (simp add: tree_rep_def)
  have i1: "items ?c1 a = Some ?j" by simp
  obtain c2 where c2: "remove_from_queue a ?c1 = Some c2" "queue_rep c2 (remove1 a xs)"
    using remove_from_queue_rep [OF q1 i1] by blast
  note p = payloads_remove [OF c2(1)]
  have "tree_rep G (d\<lparr>dcache := c2\<rparr>) (remove1 a xs)"
    using tree_rep_relink [OF t1 c2(2)] p by simp
  moreover have "ci_values k \<noteq> []" if "b \<in> set (remove1 a xs)" "items c2 b = Some k" for b k
  proof -
    have "b \<in> set xs" "b \<noteq> a" using that(1) t by (auto simp: tree_rep_def queue_rep_def)
    with payloads_Some [OF p that(2)] assms(1) show ?thesis by (auto simp: daemon_rep_def)
  qed
  ultimately have "daemon_rep G (d\<lparr>dcache := c2\<rparr>) (remove1 a xs)" by (auto simp: daemon_rep_def)
  moreover have "waiting G (d\<lparr>dcache := c2\<rparr>) = (waiting G d)(ci_file i := [])"
    using payloads_waiting [of c2 "d\<lparr>dcache := ?c1\<rparr>" G] p waiting_upd [OF t assms(2), of ?j] by (simp add: wipe_ci_values_def)
  ultimately show ?thesis using c2(1) assms(2) by (simp add: upd_item_def)
qed

text \<open>What a critical section leaves alone: everything but the items, the tree and the allocator.\<close>

definition cache_only :: "'t daemon \<Rightarrow> 't daemon \<Rightarrow> bool" where
  "cache_only d d' \<longleftrightarrow>
     dstate d' = dstate d \<and> flush_at_shutdown d' = flush_at_shutdown d \<and> journaling d' = journaling d \<and>
     journal_cur d' = journal_cur d \<and> journal_old d' = journal_old d \<and> journal_rotations d' = journal_rotations d \<and>
     updates_received d' = updates_received d \<and> flush_received d' = flush_received d \<and>
     updates_written d' = updates_written d \<and> data_sets_written d' = data_sets_written d"

lemma cache_only_refl [simp]: "cache_only d d" "cache_only d (d\<lparr>dcache := c\<rparr>)" "cache_only d (d\<lparr>dcache := c, dtree := t\<rparr>)"
  by (simp_all add: cache_only_def)

lemma cache_only_trans: "cache_only d d' \<Longrightarrow> cache_only d' d'' \<Longrightarrow> cache_only d d''"
  by (simp add: cache_only_def)

text \<open>The values that an UPDATE adds are the first ones of its list.\<close>

lemma take_values_prefix:
  assumes "take_values vals i n = (err, j, m)"
  shows "\<exists>k stamp. k \<le> length vals \<and> m = n + k \<and> j = i\<lparr>ci_last_update_stamp := stamp, ci_values := ci_values i @ take k vals\<rparr> \<and>
    (err = None \<longrightarrow> k = length vals)"
  using assms
proof (induction vals arbitrary: i n)
  case Nil
  then show ?case by (auto intro!: exI [of _ "ci_last_update_stamp i"])
next
  case (Cons val vals)
  obtain stamp e rest where s: "strtod val = ((stamp, e), rest)" by (metis surj_pair)
  show ?case
  proof (cases "length rest = length val \<or> take 1 rest \<noteq> '':'' \<or> stamp \<le> ci_last_update_stamp i")
    case True
    with Cons.prems s have "j = i" "m = n" "err \<noteq> None" by (auto simp: Let_def split: if_splits)
    then show ?thesis by (intro exI [of _ 0] exI [of _ "ci_last_update_stamp i"]) auto
  next
    case False
    let ?i = "i\<lparr>ci_last_update_stamp := stamp, ci_values := ci_values i @ [val]\<rparr>"
    from False Cons.prems s have r: "take_values vals ?i (n + 1) = (err, j, m)" by (simp add: Let_def split: if_splits)
    from Cons.IH [OF r] obtain k stamp' where
      "k \<le> length vals" "m = n + 1 + k" "j = ?i\<lparr>ci_last_update_stamp := stamp', ci_values := ci_values ?i @ take k vals\<rparr>" "err = None \<longrightarrow> k = length vals"
      by auto
    then show ?thesis by (intro exI [of _ "Suc k"] exI [of _ stamp']) auto
  qed
qed

text \<open>What the walk of \<open>flush_old_values\<close> has to queue.\<close>

definition due :: "'t gtree \<Rightarrow> 't daemon \<Rightarrow> int \<Rightarrow> string \<Rightarrow> bool" where
  "due G d tmo f \<longleftrightarrow> (\<exists>a i. gt_lookup G (dtree d) f = Some a \<and> items (dcache d) a = Some i \<and>
     ci_values i \<noteq> [] \<and> (ci_last_flush_time i \<le> tmo \<or> dstate d \<noteq> RUNNING))"

lemma due_payloads:
  assumes "payloads c = payloads (dcache d)" and "due G d tmo f"
  shows "due G (d\<lparr>dcache := c\<rparr>) tmo f"
proof -
  obtain a i where i: "gt_lookup G (dtree d) f = Some a" "items (dcache d) a = Some i" "ci_values i \<noteq> []"
      "ci_last_flush_time i \<le> tmo \<or> dstate d \<noteq> RUNNING" using assms(2) by (auto simp: due_def)
  have "map_option payload (items c a) = Some (payload i)"
    using fun_cong [OF assms(1), of a] i(2) by (simp add: payloads_def)
  then obtain j where j: "items c a = Some j" "payload j = payload i" by auto
  have "ci_values j = ci_values i" "ci_last_flush_time j = ci_last_flush_time i"
    using j(2) by (metis payload_fields(2), metis payload_fields(3))
  with i j(1) show ?thesis unfolding due_def by (intro exI [of _ a] exI [of _ j]) simp
qed

text \<open>The effect of an UPDATE: the first values of its list are appended, and all of them when it is answered with success.\<close>

definition gained :: "'t gtree \<Rightarrow> 't daemon \<Rightarrow> string \<Rightarrow> string list \<Rightarrow> answer \<Rightarrow> 't daemon \<Rightarrow> bool" where
  "gained G d f vals ans d' \<longleftrightarrow>
     daemon_ok G d' \<and>
     (\<exists>k \<le> length vals. waiting G d' = (waiting G d)(f := waiting G d f @ take k vals) \<and>
        (\<forall>n. ans = Reply RESP_OK (EnqueuedValues n) \<longrightarrow> n = k \<and> k = length vals))"

lemma gained_nothing:
  assumes "daemon_ok G d'" and "waiting G d' = waiting G d" and "\<And>n. ans \<noteq> Reply RESP_OK (EnqueuedValues n)"
  shows "gained G d f vals ans d'"
  unfolding gained_def using assms by (intro conjI exI [of _ 0]) simp_all

text \<open>A client cannot send WROTE.\<close>

lemma dispatch_client: "dispatch (Some sock) line = (Inr (cmd, rest), sock') \<Longrightarrow> cmd \<noteq> WROTE"
  by (auto simp: dispatch_def find_command_def list_of_commands_def command_check_context_def Let_def split: option.splits if_splits prod.splits)

locale glib_tree =
  fixes G :: "'t gtree"
  assumes laws: "gtree_laws G"
begin

lemma lookup_replace [simp]: "gt_lookup G (gt_replace G t k v) = (gt_lookup G t)(k \<mapsto> v)"
  using laws by (simp add: gtree_laws_def)

lemma lookup_remove [simp]: "gt_lookup G (gt_remove G t k) = (gt_lookup G t)(k := None)"
  using laws by (simp add: gtree_laws_def)

lemma keys: "distinct (gt_keys G t)" "set (gt_keys G t) = dom (gt_lookup G t)"
  using laws by (simp_all add: gtree_laws_def)

lemma tree_remove_ok:
  assumes "daemon_ok G d"
  shows "\<exists>d'. tree_remove G f d = Some (gt_lookup G (dtree d) f \<noteq> None, d') \<and> daemon_ok G d' \<and> cache_only d d' \<and>
     waiting G d' = (waiting G d)(f := []) \<and> gt_lookup G (dtree d') = (gt_lookup G (dtree d))(f := None) \<and>
     in_line G d' = (in_line G d)(f := False)"
proof (cases "gt_lookup G (dtree d) f")
  case None
  obtain xs where xs: "daemon_rep G d xs" using assms by (auto simp: daemon_ok_def)
  let ?d = "d\<lparr>dtree := gt_remove G (dtree d) f\<rparr>"
  have "gt_lookup G (dtree ?d) = gt_lookup G (dtree d)" using None by (auto simp: fun_eq_iff)
  then have "daemon_rep G ?d xs" "waiting G ?d = (waiting G d)(f := [])" "in_line G ?d = (in_line G d)(f := False)"
    using xs None by (auto simp: daemon_rep_def tree_rep_def waiting_def in_line_def fun_eq_iff split: option.split)
  with None show ?thesis by (auto simp: tree_remove_def daemon_ok_def cache_only_def)
next
  case (Some a)
  obtain xs where xs: "daemon_rep G d xs" using assms by (auto simp: daemon_ok_def)
  then have t: "tree_rep G d xs" by (simp add: daemon_rep_def)
  then obtain i where i: "items (dcache d) a = Some i" "ci_file i = f" using Some by (auto simp: tree_rep_def)
  obtain c where c: "free_cache_item a (dcache d) = Some c" "queue_rep c (remove1 a xs)" "payloads c = (payloads (dcache d))(a := None)"
    using free_cache_item_rep [OF _ i(1), of xs] t by (auto simp: tree_rep_def)
  let ?d = "d\<lparr>dcache := c, dtree := gt_remove G (dtree d) f\<rparr>"
  have a: "items c a = None" using fun_cong [OF c(3), of a] by (simp add: payloads_def)
  have 1: "\<exists>j. items (dcache d) b = Some j \<and> ci_file j = ci_file k \<and> ci_values j = ci_values k" if "items c b = Some k" for b k
  proof -
    from that a have "b \<noteq> a" by auto
    with fun_cong [OF c(3), of b] that have "map_option payload (items (dcache d) b) = Some (payload k)" by (simp add: payloads_def)
    then show ?thesis using payload_eqD by blast
  qed
  have 2: "\<exists>k. items c b = Some k \<and> ci_file k = ci_file j \<and> ci_values k = ci_values j" if "items (dcache d) b = Some j" "b \<noteq> a" for b j
  proof -
    from fun_cong [OF c(3), of b] that have "map_option payload (items c b) = Some (payload j)" by (simp add: payloads_def)
    then show ?thesis using payload_eqD by blast
  qed
  have "tree_rep G ?d (remove1 a xs)"
  proof -
    have "\<exists>k. items c b = Some k \<and> ci_file k = g" if g: "gt_lookup G (dtree d) g = Some b" "g \<noteq> f" for g b
    proof -
      from g(1) t obtain j where j: "items (dcache d) b = Some j" "ci_file j = g" by (auto simp: tree_rep_def)
      moreover have "b \<noteq> a" using j i g(2) by auto
      ultimately show ?thesis using 2 by fastforce
    qed
    moreover have "ci_file k \<noteq> f \<and> gt_lookup G (dtree d) (ci_file k) = Some b \<and> b < next_addr d" if k: "items c b = Some k" for b k
    proof -
      obtain j where j: "items (dcache d) b = Some j" "ci_file j = ci_file k" using 1 [OF k] by blast
      have "b \<noteq> a" using k a by auto
      with tree_rep_item [OF t j(1)] j(2) Some show ?thesis by auto
    qed
    ultimately show ?thesis using c(2) by (auto simp: tree_rep_def)
  qed
  moreover have "ci_values k \<noteq> []" if "b \<in> set (remove1 a xs)" "items c b = Some k" for b k
    using 1 [OF that(2)] set_remove1_subset [of a xs] that(1) xs by (fastforce simp: daemon_rep_def)
  ultimately have r: "daemon_rep G ?d (remove1 a xs)" by (simp add: daemon_rep_def)
  have "b \<noteq> a" if "gt_lookup G (dtree d) g = Some b" "g \<noteq> f" for g b
    using that tree_rep_file [OF t i(1)] i(2) by auto
  then have "in_line G ?d = (in_line G d)(f := False)"
    using in_line_rep [OF r] in_line_rep [OF xs] t by (auto simp: fun_eq_iff tree_rep_def queue_rep_def)
  moreover have "waiting G ?d = (waiting G d)(f := [])"
  proof
    fix g
    show "waiting G ?d g = ((waiting G d)(f := [])) g"
    proof (cases "g = f \<or> gt_lookup G (dtree d) g = None")
      case False
      then obtain b where b: "gt_lookup G (dtree d) g = Some b" "g \<noteq> f" by auto
      then obtain j where j: "items (dcache d) b = Some j" "ci_file j = g" using t by (auto simp: tree_rep_def)
      with b i have "b \<noteq> a" by auto
      with 2 [OF j(1)] j b show ?thesis by (auto simp: waiting_def)
    qed (auto simp: waiting_def)
  qed
  ultimately show ?thesis using Some c(1) r by (auto simp: tree_remove_def daemon_ok_def)
qed

lemma daemon_ok_lookup:
  assumes "daemon_ok G d" and "gt_lookup G (dtree d) f = Some a"
  obtains xs i where "daemon_rep G d xs" "items (dcache d) a = Some i" "ci_file i = f" "waiting G d f = ci_values i"
  using assms unfolding daemon_ok_def daemon_rep_def tree_rep_def waiting_def by fastforce

lemma lookup_inj:
  assumes "daemon_ok G d" and "gt_lookup G (dtree d) f = Some a" and "gt_lookup G (dtree d) g = Some a"
  shows "f = g"
  using daemon_ok_lookup [OF assms(1,2)] daemon_ok_lookup [OF assms(1,3)] by (metis option.inject)

lemma insert_item_ok:
  assumes "daemon_ok G d"
  shows "\<exists>a d'. insert_item G cfg rnd now f d = Some (a, d') \<and> daemon_ok G d' \<and> cache_only d d' \<and>
     waiting G d' = waiting G d \<and> gt_lookup G (dtree d') f = Some a"
proof -
  obtain xs where xs: "daemon_rep G d xs" using assms by (auto simp: daemon_ok_def)
  then have t: "tree_rep G d xs" by (simp add: daemon_rep_def)
  let ?a = "next_addr d" and ?new = "new_item cfg rnd now f"
  let ?c = "(dcache d)\<lparr>items := (items (dcache d))(?a \<mapsto> ?new)\<rparr>"
  have fresh: "items (dcache d) ?a = None" using tree_rep_item [OF t, of ?a] by (cases "items (dcache d) ?a") auto
  have new: "ci_file ?new = f" "ci_values ?new = []" "\<not> ci_in_queue ?new" "ci_prev ?new = None" "ci_next ?new = None"
    by (simp_all add: new_item_def wipe_ci_values_def)
  have notin: "?a \<notin> set xs" using t fresh chained_in_queue by (fastforce simp: tree_rep_def queue_rep_def)
  have q: "queue_rep ?c xs" using t notin new by (auto simp: tree_rep_def queue_rep_def)
  show ?thesis
  proof (cases "gt_lookup G (dtree d) f")
    case None
    let ?d = "d\<lparr>next_addr := ?a + 1, dcache := ?c, dtree := gt_replace G (dtree d) f ?a\<rparr>"
    have "tree_rep G ?d xs"
      using t q new None fresh unfolding tree_rep_def by (auto simp: less_Suc_eq)
    then have "daemon_ok G ?d" using xs notin by (intro daemon_okI) (auto simp: daemon_rep_def split: if_splits)
    moreover have "waiting G ?d = waiting G d"
      using None new fresh t by (fastforce simp: waiting_def fun_eq_iff tree_rep_def split: option.split)
    ultimately show ?thesis using None by (simp add: insert_item_def Let_def cache_only_def)
  next
    case (Some b)
    let ?d = "d\<lparr>next_addr := ?a + 1, dcache := (dcache d)\<lparr>items := (items (dcache d))(?a := None)\<rparr>\<rparr>"
    have "remove_from_queue ?a ?c = Some ?c" using remove_outside [OF q notin, of ?new] by simp
    then have "free_cache_item ?a ?c = Some ((dcache d)\<lparr>items := (items (dcache d))(?a := None)\<rparr>)" by (simp add: free_cache_item_def)
    moreover have same: "(items (dcache d))(?a := None) = items (dcache d)" using fresh by auto
    have "daemon_rep G ?d xs" using xs unfolding same by (auto simp: daemon_rep_def tree_rep_def less_Suc_eq)
    moreover have "waiting G ?d = waiting G d" by (rule waiting_cong) (simp_all add: same)
    ultimately show ?thesis using Some by (auto simp: insert_item_def Let_def cache_only_def daemon_ok_def)
  qed
qed

lemma update_item_ok:
  assumes "daemon_ok G d" and "gt_lookup G (dtree d) f = Some a"
  shows "\<exists>ans d' k. update_item cfg replay now orig vals a d = Some (ans, d') \<and> daemon_ok G d' \<and> k \<le> length vals \<and>
     waiting G d' = (waiting G d)(f := waiting G d f @ take k vals) \<and> dtree d' = dtree d \<and>
     cache_only (if replay then d else journal_write ''update'' orig d) d' \<and>
     (ans = Reply RESP_OK (EnqueuedValues k) \<longrightarrow> k = length vals) \<and> (\<forall>n. ans = Reply RESP_OK (EnqueuedValues n) \<longrightarrow> n = k)"
proof -
  define D where "D = (if replay then d else journal_write ''update'' orig d)"
  have jd: "dcache D = dcache d" "dtree D = dtree d" "next_addr D = next_addr d" by (simp_all add: D_def journal_write_def)
  obtain xs i where i: "daemon_rep G d xs" "items (dcache d) a = Some i" "ci_file i = f" "waiting G d f = ci_values i"
    using daemon_ok_lookup [OF assms] .
  obtain err j m where tv: "take_values vals i 0 = (err, j, m)" by (metis surj_pair)
  from take_values_prefix [OF tv] obtain k stamp where k: "k \<le> length vals" "m = k"
    "j = i\<lparr>ci_last_update_stamp := stamp, ci_values := ci_values i @ take k vals\<rparr>" "err = None \<longrightarrow> k = length vals" by auto
  let ?c = "(dcache d)\<lparr>items := (items (dcache d))(a \<mapsto> j)\<rparr>"
  have jj: "same_links i j" "ci_file j = ci_file i" using k(3) by (simp_all add: same_links_def)
  have t: "tree_rep G d xs" using i(1) by (simp add: daemon_rep_def)
  have rep: "tree_rep G e xs \<Longrightarrow> dcache e' = dcache e \<Longrightarrow> dtree e' = dtree e \<Longrightarrow> next_addr e' = next_addr e \<Longrightarrow> tree_rep G e' xs" for e e' :: "'t daemon"
    by (simp add: tree_rep_def)
  have t1: "tree_rep G (D\<lparr>dcache := ?c\<rparr>) xs" using tree_rep_upd [OF t i(2) jj] by (rule rep) (simp_all add: jd)
  have v1: "ci_values l \<noteq> []" if "b \<in> set xs" "items ?c b = Some l" for b l
    using that i(1,2) k(3) by (auto simp: daemon_rep_def split: if_splits)
  have ok1: "daemon_rep G (D\<lparr>dcache := ?c\<rparr>) xs" using t1 v1 unfolding daemon_rep_def by simp
  have "waiting G (D\<lparr>dcache := ?c\<rparr>) = waiting G (d\<lparr>dcache := ?c\<rparr>)" by (rule waiting_cong) (simp_all add: jd)
  then have w1: "waiting G (D\<lparr>dcache := ?c\<rparr>) = (waiting G d)(f := waiting G d f @ take k vals)"
    using waiting_upd [OF t i(2), of j] i(3,4) k(3) by simp
  define go where "go = (now - ci_last_flush_time j \<ge> write_interval cfg \<and> \<not> ci_in_queue j \<and> ci_values j \<noteq> [])"
  obtain c0 ys where c0: "enqueue_cache_item a TAIL ?c = Some c0" "payloads c0 = payloads ?c" "daemon_rep G (D\<lparr>dcache := c0\<rparr>) ys"
    using enqueue_ok [OF ok1, of a j TAIL] by auto
  then have "waiting G (D\<lparr>dcache := c0\<rparr>) = waiting G (D\<lparr>dcache := ?c\<rparr>)" using payloads_waiting [of c0 "D\<lparr>dcache := ?c\<rparr>" G] by simp
  then obtain c where c: "(if go then enqueue_cache_item a TAIL ?c else Some ?c) = Some c" "daemon_ok G (D\<lparr>dcache := c\<rparr>)"
      "waiting G (D\<lparr>dcache := c\<rparr>) = waiting G (D\<lparr>dcache := ?c\<rparr>)"
  proof (cases go)
    case True
    with c0 \<open>waiting G (D\<lparr>dcache := c0\<rparr>) = _\<close> show ?thesis by (intro that [of c0]) (auto simp only: daemon_ok_def if_True)
  next
    case False
    with ok1 show ?thesis by (intro that [of ?c]) (auto simp only: daemon_ok_def if_False)
  qed
  have eq: "update_item cfg replay now orig vals a d = (case err of Some msg \<Rightarrow> Some (Reply RESP_ERR msg, D\<lparr>dcache := ?c\<rparr>)
      | None \<Rightarrow> Some (if m < 1 then Reply RESP_ERR NoValues else Reply RESP_OK (EnqueuedValues m), D\<lparr>dcache := c\<rparr>))"
    using i(2) tv c(1) unfolding update_item_def Let_def D_def [symmetric] jd go_def [symmetric]
    by (cases go; cases err) (simp_all add: upd_item_def jd go_def)
  show ?thesis
  proof (cases err)
    case None
    with eq c(2,3) w1 k jd show ?thesis unfolding D_def [symmetric]
      by (intro exI [of _ "if m < 1 then Reply RESP_ERR NoValues else Reply RESP_OK (EnqueuedValues m)"] exI [of _ "D\<lparr>dcache := c\<rparr>"] exI [of _ k]) simp
  next
    case (Some msg)
    with eq ok1 w1 k jd show ?thesis unfolding D_def [symmetric]
      by (intro exI [of _ "Reply RESP_ERR msg"] exI [of _ "D\<lparr>dcache := ?c\<rparr>"] exI [of _ k]) (auto simp: daemon_ok_def)
  qed
qed

text \<open>One call of the callback: an entry with values that are due is queued, an idle one without values is collected.\<close>

lemma callback_ok:
  assumes "daemon_rep G d xs" and "gt_lookup G (dtree d) k = Some a"
  shows "\<exists>d' keys'. tree_callback_flush G cfg now tmo k (d, keys) = Some (d', keys') \<and> daemon_ok G d' \<and> cache_only d d' \<and>
     dtree d' = dtree d \<and> waiting G d' = waiting G d \<and> (keys' = keys \<or> keys' = keys @ [k] \<and> waiting G d k = []) \<and>
     (\<forall>f. in_line G d f \<longrightarrow> in_line G d' f) \<and> (\<forall>f. due G d tmo f \<longrightarrow> due G d' tmo f) \<and> (due G d tmo k \<longrightarrow> in_line G d' k)"
proof -
  obtain i where i: "items (dcache d) a = Some i" using assms unfolding daemon_rep_def tree_rep_def by blast
  then have w: "waiting G d k = ci_values i" using assms(2) by (simp add: waiting_def)
  obtain c ys where c: "enqueue_cache_item a TAIL (dcache d) = Some c" "payloads c = payloads (dcache d)"
      "daemon_rep G (d\<lparr>dcache := c\<rparr>) ys" "set ys = (if ci_values i = [] then set xs else insert a (set xs))"
    using enqueue_ok [OF assms(1) i] by blast
  note q = in_line_rep [OF c(3)] in_line_rep [OF assms(1)]
  have ok: "daemon_ok G d" "daemon_ok G (d\<lparr>dcache := c\<rparr>)" using assms(1) c(3) by (auto simp: daemon_ok_def)
  let ?s = "tree_callback_flush G cfg now tmo k (d, keys)"
  have "?s = Some (d\<lparr>dcache := c\<rparr>, keys) \<and> ci_values i \<noteq> [] \<or> ?s = Some (d, keys @ [k]) \<and> ci_values i = [] \<or>
      ?s = Some (d, keys) \<and> (in_line G d k \<or> \<not> due G d tmo k)"
    using assms(2) i c(1) by (auto simp: tree_callback_flush_def in_line_def due_def)
  then consider (queue) "?s = Some (d\<lparr>dcache := c\<rparr>, keys)" "ci_values i \<noteq> []" | (idle) "?s = Some (d, keys @ [k])" "ci_values i = []"
    | (stay) "?s = Some (d, keys)" "in_line G d k \<or> \<not> due G d tmo k" by blast
  then show ?thesis
  proof cases
    case queue
    with ok c(4) payloads_waiting [OF c(2)] due_payloads [OF c(2)] assms(2) show ?thesis by (auto simp: q)
  next
    case idle
    then have "\<not> due G d tmo k" using assms(2) i by (simp add: due_def)
    with ok idle w show ?thesis by simp
  next
    case stay
    with ok show ?thesis by auto
  qed
qed

text \<open>The walk collects keys that are in the tree and have nothing waiting, and leaves everything that is due in the queue.\<close>

lemma callback_walk_ok:
  assumes "daemon_ok G d" and "set ks \<subseteq> dom (gt_lookup G (dtree d))" and "distinct (keys @ ks)"
    and "\<forall>k \<in> set keys. k \<in> dom (gt_lookup G (dtree d)) \<and> waiting G d k = []"
  shows "\<exists>d' keys'. run_ops (tree_callback_flush G cfg now tmo) ks (d, keys) = Some (d', keys') \<and> daemon_ok G d' \<and> cache_only d d' \<and>
     dtree d' = dtree d \<and> waiting G d' = waiting G d \<and> distinct keys' \<and>
     (\<forall>k \<in> set keys'. k \<in> dom (gt_lookup G (dtree d)) \<and> waiting G d k = []) \<and>
     (\<forall>f. in_line G d f \<or> f \<in> set ks \<and> due G d tmo f \<longrightarrow> in_line G d' f)"
  using assms
proof (induction ks arbitrary: d keys)
  case Nil
  then show ?case by auto
next
  case (Cons k ks)
  obtain a xs where a: "gt_lookup G (dtree d) k = Some a" "daemon_rep G d xs"
    using Cons.prems(1,2) by (auto simp: daemon_ok_def)
  obtain d1 keys1 where s: "tree_callback_flush G cfg now tmo k (d, keys) = Some (d1, keys1)" "daemon_ok G d1" "cache_only d d1"
      "dtree d1 = dtree d" "waiting G d1 = waiting G d" "keys1 = keys \<or> keys1 = keys @ [k] \<and> waiting G d k = []"
      "\<forall>f. in_line G d f \<longrightarrow> in_line G d1 f" "\<forall>f. due G d tmo f \<longrightarrow> due G d1 tmo f" "due G d tmo k \<longrightarrow> in_line G d1 k"
    using callback_ok [OF a(2,1)] by blast
  have "distinct (keys1 @ ks)" "set ks \<subseteq> dom (gt_lookup G (dtree d1))"
    "\<forall>k \<in> set keys1. k \<in> dom (gt_lookup G (dtree d1)) \<and> waiting G d1 k = []"
    using s(4-6) Cons.prems(2-4) a by auto
  from Cons.IH [OF s(2) this(2,1,3)] obtain d2 keys2 where
    r: "run_ops (tree_callback_flush G cfg now tmo) ks (d1, keys1) = Some (d2, keys2)" "daemon_ok G d2" "cache_only d1 d2"
      "dtree d2 = dtree d1" "waiting G d2 = waiting G d1" "distinct keys2"
      "\<forall>k \<in> set keys2. k \<in> dom (gt_lookup G (dtree d1)) \<and> waiting G d1 k = []"
      "\<forall>f. in_line G d1 f \<or> f \<in> set ks \<and> due G d1 tmo f \<longrightarrow> in_line G d2 f" by blast
  then show ?case using s cache_only_trans [OF s(3) r(3)] by (intro exI [of _ d2] exI [of _ keys2]) auto
qed

lemma remove_keys_ok:
  assumes "daemon_ok G d" and "distinct ks" and "\<forall>k \<in> set ks. k \<in> dom (gt_lookup G (dtree d)) \<and> waiting G d k = []"
  shows "\<exists>d'. run_ops (\<lambda>key d. Option.bind (tree_remove G key d) (\<lambda>(found, d). if found then Some d else None)) ks d = Some d' \<and>
     daemon_ok G d' \<and> cache_only d d' \<and> waiting G d' = waiting G d \<and> (\<forall>f. f \<notin> set ks \<longrightarrow> in_line G d f \<longrightarrow> in_line G d' f)"
  using assms
proof (induction ks arbitrary: d)
  case (Cons k ks)
  from Cons.prems(3) have k: "gt_lookup G (dtree d) k \<noteq> None" "waiting G d k = []" by auto
  from tree_remove_ok [OF Cons.prems(1), of k] k obtain d1 where
    d1: "tree_remove G k d = Some (True, d1)" "daemon_ok G d1" "cache_only d d1" "waiting G d1 = (waiting G d)(k := [])"
      "gt_lookup G (dtree d1) = (gt_lookup G (dtree d))(k := None)" "in_line G d1 = (in_line G d)(k := False)" by auto
  have w: "waiting G d1 = waiting G d" using d1(4) k(2) by (simp add: fun_upd_idem)
  have "\<forall>j \<in> set ks. j \<in> dom (gt_lookup G (dtree d1)) \<and> waiting G d1 j = []"
    using Cons.prems(2,3) d1(5) w by auto
  from Cons.IH [OF d1(2) _ this] Cons.prems(2) obtain d2 where
    d2: "run_ops (\<lambda>key d. Option.bind (tree_remove G key d) (\<lambda>(found, d). if found then Some d else None)) ks d1 = Some d2"
      "daemon_ok G d2" "cache_only d1 d2" "waiting G d2 = waiting G d1" "\<forall>f. f \<notin> set ks \<longrightarrow> in_line G d1 f \<longrightarrow> in_line G d2 f" by auto
  show ?case
    by (rule exI [of _ d2], use d1(1,6) d2 w cache_only_trans [OF d1(3) d2(3)] in simp)
qed auto

lemma flush_old_values_ok:
  assumes "daemon_ok G d"
  shows "\<exists>d'. flush_old_values G cfg now age d = Some d' \<and> daemon_ok G d' \<and> cache_only d d' \<and> waiting G d' = waiting G d \<and>
     (\<forall>f. in_line G d f \<or> due G d (if age > 0 then now - age else now + 2 * write_jitter cfg + 1) f \<longrightarrow> in_line G d' f)"
proof -
  define tmo where "tmo = (if age > 0 then now - age else now + 2 * write_jitter cfg + 1)"
  from callback_walk_ok [OF assms, of "gt_keys G (dtree d)" "[]" cfg now tmo] keys [of "dtree d"] obtain d1 ks where
    w: "run_ops (tree_callback_flush G cfg now tmo) (gt_keys G (dtree d)) (d, []) = Some (d1, ks)" "daemon_ok G d1" "cache_only d d1"
      "dtree d1 = dtree d" "waiting G d1 = waiting G d" "distinct ks"
      "\<forall>k \<in> set ks. k \<in> dom (gt_lookup G (dtree d1)) \<and> waiting G d1 k = []"
      "\<forall>f. in_line G d f \<or> f \<in> dom (gt_lookup G (dtree d)) \<and> due G d tmo f \<longrightarrow> in_line G d1 f" by auto
  have no: "f \<notin> set ks" if "in_line G d1 f" for f
    using in_line_waiting [OF w(2) that] w(7) by auto
  from remove_keys_ok [OF w(2,6,7)] obtain d2 where
    r: "run_ops (\<lambda>key d. Option.bind (tree_remove G key d) (\<lambda>(found, d). if found then Some d else None)) ks d1 = Some d2"
      "daemon_ok G d2" "cache_only d1 d2" "waiting G d2 = waiting G d1" "\<forall>f. f \<notin> set ks \<longrightarrow> in_line G d1 f \<longrightarrow> in_line G d2 f" by blast
  have "in_line G d2 f" if "in_line G d f \<or> due G d tmo f" for f
  proof -
    from that have "in_line G d f \<or> f \<in> dom (gt_lookup G (dtree d)) \<and> due G d tmo f" by (auto simp: due_def)
    then show ?thesis using w(8) r(5) no by blast
  qed
  moreover have "flush_old_values G cfg now age d = Some d2"
    using w(1) r(1) unfolding flush_old_values_def Let_def tmo_def [symmetric] by simp
  ultimately show ?thesis using w r cache_only_trans [OF w(3) r(3)] unfolding tmo_def by auto
qed

lemma update_item_gained:
  assumes "daemon_ok G d" and "gt_lookup G (dtree d) f = Some a"
  shows "\<exists>ans d'. update_item cfg replay now orig vals a d = Some (ans, d') \<and> gained G d f vals ans d'"
  using update_item_ok [OF assms, of cfg replay now orig vals] unfolding gained_def by blast

lemma update_missing_gained:
  assumes "daemon_ok G d"
  shows "\<exists>ans d'. update_missing G cfg rnd replay now orig f vals d = Some (ans, d') \<and> gained G d f vals ans d'"
proof -
  obtain a d1 where d1: "insert_item G cfg rnd now f d = Some (a, d1)" "daemon_ok G d1" "waiting G d1 = waiting G d" "gt_lookup G (dtree d1) f = Some a"
    using insert_item_ok [OF assms] by blast
  show ?thesis
  proof (cases "dstate d1 = SHUTDOWN")
    case True
    with d1 gained_nothing [of G d1 d "Status (- 1)" f vals] show ?thesis by (simp add: update_missing_def)
  next
    case False
    from update_item_gained [OF d1(2,4), of cfg replay now orig vals] d1(3) False d1(1) show ?thesis by (simp add: update_missing_def gained_def)
  qed
qed

lemma handle_update_gained:
  assumes "daemon_ok G d" and "buffer_get_field buffer = Some (file, rest)"
  shows "handle_request_update G cfg fs rnd replay now buffer d = None \<and> \<not> replay \<and> journaling d \<and> orig_text buffer = None \<or>
    (\<exists>ans d'. handle_request_update G cfg fs rnd replay now buffer d = Some (ans, d') \<and> gained G d (get_abs_path cfg file) (get_fields rest) ans d')"
proof -
  let ?d = "d\<lparr>updates_received := updates_received d + 1\<rparr>" and ?f = "get_abs_path cfg file" and ?vals = "get_fields rest"
  let ?orig = "case orig_text buffer of None \<Rightarrow> [] | Some txt \<Rightarrow> txt"
  let ?h = "handle_request_update G cfg fs rnd replay now buffer d"
  have ok: "daemon_ok G ?d" "waiting G ?d = waiting G d" using assms(1) by simp_all
  have g: "gained G ?d f vals ans d' = gained G d f vals ans d'" for f vals ans d' by (simp add: gained_def ok)
  have no: "gained G d ?f ?vals (Reply RESP_ERR msg) ?d" for msg by (rule gained_nothing) (simp_all add: assms(1))
  have "?h = None \<and> \<not> replay \<and> journaling d \<and> orig_text buffer = None \<or> (\<exists>msg. ?h = Some (Reply RESP_ERR msg, ?d)) \<or>
      (\<exists>a. gt_lookup G (dtree ?d) ?f = Some a \<and> ?h = update_item cfg replay now ?orig ?vals a ?d) \<or>
      ?h = update_missing G cfg rnd replay now ?orig ?f ?vals ?d"
    using assms(2) by (auto simp: handle_request_update_def Let_def split: option.split file_stat.split)
  then consider (fault) "?h = None" "\<not> replay" "journaling d" "orig_text buffer = None" | (err) msg where "?h = Some (Reply RESP_ERR msg, ?d)"
    | (found) a where "gt_lookup G (dtree ?d) ?f = Some a" "?h = update_item cfg replay now ?orig ?vals a ?d"
    | (missing) "?h = update_missing G cfg rnd replay now ?orig ?f ?vals ?d" by (elim disjE exE conjE)
  then show ?thesis
  proof cases
    case fault
    then show ?thesis by simp
  next
    case err
    with no show ?thesis by blast
  next
    case found
    with update_item_gained [OF ok(1) found(1), unfolded g] show ?thesis by simp
  next
    case missing
    with update_missing_gained [OF ok(1), unfolded g] show ?thesis by simp
  qed
qed

lemma handle_flush_ok:
  assumes "daemon_ok G d"
  shows "\<exists>ans d'. handle_request_flush G cfg fs replay buffer d = Some (ans, d') \<and> daemon_ok G d' \<and> waiting G d' = waiting G d"
proof -
  have flush: "\<exists>found d'. flush_file G f e = Some (found, d') \<and> daemon_ok G d' \<and> waiting G d' = waiting G e" if e: "daemon_ok G e" for f e
  proof (cases "gt_lookup G (dtree e) f")
    case (Some a)
    obtain xs i where i: "daemon_rep G e xs" "items (dcache e) a = Some i" using daemon_ok_lookup [OF e Some] by metis
    from enqueue_ok [OF this, of HEAD] obtain c ys where "enqueue_cache_item a HEAD (dcache e) = Some c"
      "payloads c = payloads (dcache e)" "daemon_rep G (e\<lparr>dcache := c\<rparr>) ys" by blast
    with Some i e payloads_waiting [of c e G] show ?thesis by (auto simp: flush_file_def daemon_ok_def)
  qed (auto simp: flush_file_def e)
  let ?d = "d\<lparr>flush_received := flush_received d + 1\<rparr>"
  have ok: "daemon_ok G ?d" "waiting G ?d = waiting G d" using assms by simp_all
  show ?thesis
  proof (cases "buffer_get_field buffer")
    case (Some fr)
    obtain name rest where fr: "fr = (name, rest)" by (cases fr)
    obtain found d' where "flush_file G (get_abs_path cfg name) ?d = Some (found, d')" "daemon_ok G d'" "waiting G d' = waiting G ?d"
      using flush [OF ok(1)] by blast
    with ok Some fr show ?thesis by (auto simp: handle_request_flush_def Let_def)
  qed (use assms in \<open>simp add: handle_request_flush_def\<close>)
qed

lemma handle_forget_ok:
  assumes "daemon_ok G d" and "buffer_get_field buffer = Some (file, rest)"
  shows "\<exists>ans d'. handle_request_forget G cfg replay buffer d = Some (ans, d') \<and> daemon_ok G d' \<and>
     waiting G d' = (if answer_ok ans then (waiting G d)(get_abs_path cfg file := []) else waiting G d)"
proof -
  let ?f = "get_abs_path cfg file"
  obtain d1 where d1: "tree_remove G ?f d = Some (gt_lookup G (dtree d) ?f \<noteq> None, d1)" "daemon_ok G d1" "waiting G d1 = (waiting G d)(?f := [])"
    using tree_remove_ok [OF assms(1)] by blast
  let ?j = "journal_write ''forget'' ?f d1"
  have j: "daemon_ok G ?j" "waiting G ?j = waiting G d1" using d1(2) by simp_all
  have "waiting G d1 = waiting G d" if "gt_lookup G (dtree d) ?f = None"
    using that d1(3) by (simp add: fun_upd_idem waiting_def)
  with assms d1 j show ?thesis by (cases "gt_lookup G (dtree d) ?f") (auto simp: handle_request_forget_def Let_def answer_ok_def)
qed

lemma handle_queue_ok:
  assumes "daemon_ok G d"
  shows "\<exists>ls. handle_request_queue d = Some (Reply RESP_OK (InQueue ls), d)"
proof -
  obtain xs where "queue_rep (dcache d) xs" using assms by (auto simp: daemon_ok_def daemon_rep_def tree_rep_def)
  then show ?thesis using queue_listing_chained [of "dcache d" None xs "length xs"] by (auto simp: handle_request_queue_def queue_rep_def)
qed

lemma handle_wrote_ok:
  assumes "daemon_ok G d"
  shows "\<exists>d'. handle_request_wrote G cfg rnd now buffer d = Some (Status 0, d') \<and> daemon_ok G d' \<and>
     waiting G d' = (waiting G d)(takeWhile (\<lambda>c. c \<noteq> NUL) buffer := [])"
proof (cases "gt_lookup G (dtree d) (takeWhile (\<lambda>c. c \<noteq> NUL) buffer)")
  case None
  then show ?thesis using assms by (simp add: handle_request_wrote_def waiting_def fun_upd_idem)
next
  case (Some a)
  obtain xs i where i: "daemon_rep G d xs" "items (dcache d) a = Some i" "ci_file i = takeWhile (\<lambda>c. c \<noteq> NUL) buffer"
    using daemon_ok_lookup [OF assms Some] by metis
  with wipe_and_remove [OF i(1,2), of cfg rnd now] Some show ?thesis by (auto simp: handle_request_wrote_def daemon_ok_def)
qed

text \<open>What a request of a client does to the values that wait.\<close>

lemma run_handler_flow:
  assumes "daemon_ok G d" and "run_handler G cfg fs rnd replay now cmd buffer d = Some (ans, d')" and "cmd \<noteq> WROTE"
  shows "daemon_ok G d' \<and>
    (case buffer_get_field buffer of None \<Rightarrow> waiting G d' = waiting G d
     | Some (file, rest) \<Rightarrow>
         if cmd = UPDATE then gained G d (get_abs_path cfg file) (get_fields rest) ans d'
         else if cmd = FORGET \<and> answer_ok ans then waiting G d' = (waiting G d)(get_abs_path cfg file := [])
         else waiting G d' = waiting G d)"
proof (cases cmd)
  case UPDATE
  then show ?thesis
    using assms handle_update_gained [OF assms(1), of buffer _ _ cfg fs rnd replay now]
    by (cases "buffer_get_field buffer") (fastforce simp: run_handler_def handle_request_update_def gained_def)+
next
  case FORGET
  then show ?thesis
    using assms handle_forget_ok [OF assms(1), of buffer _ _ cfg replay]
    by (cases "buffer_get_field buffer") (fastforce simp: run_handler_def handle_request_forget_def)+
next
  case FLUSH
  with assms handle_flush_ok [OF assms(1), of cfg fs replay buffer] show ?thesis
    by (auto simp: run_handler_def split: option.split)
next
  case FLUSHALL
  with assms flush_old_values_ok [OF assms(1), of cfg now "- 1"] show ?thesis
    by (auto simp: run_handler_def handle_request_flushall_def split: option.split)
next
  case QUEUE
  with assms handle_queue_ok [OF assms(1)] show ?thesis by (auto simp: run_handler_def split: option.split)
next
  case PENDING
  with assms have "d' = d" by (auto simp: run_handler_def handle_request_pending_def split: option.splits)
  with assms(1) PENDING show ?thesis by (auto split: option.split)
qed (use assms in \<open>auto simp: run_handler_def split: option.split\<close>)

lemma run_handler_total:
  assumes "daemon_ok G d" and "cmd = UPDATE \<Longrightarrow> replay \<or> \<not> journaling d \<or> orig_text buffer \<noteq> None"
  shows "\<exists>ans d'. run_handler G cfg fs rnd replay now cmd buffer d = Some (ans, d') \<and> daemon_ok G d'"
proof (cases cmd)
  case UPDATE
  then show ?thesis
    using assms(2) handle_update_gained [OF assms(1), of buffer _ _ cfg fs rnd replay now] assms(1)
    by (cases "buffer_get_field buffer") (fastforce simp: run_handler_def handle_request_update_def gained_def)+
next
  case FORGET
  then show ?thesis
    using assms handle_forget_ok [OF assms(1), of buffer _ _ cfg replay]
    by (cases "buffer_get_field buffer") (fastforce simp: run_handler_def handle_request_forget_def)+
next
  case FLUSH
  with handle_flush_ok [OF assms(1), of cfg fs replay buffer] show ?thesis by (auto simp: run_handler_def)
next
  case FLUSHALL
  with flush_old_values_ok [OF assms(1), of cfg now "- 1"] show ?thesis by (auto simp: run_handler_def handle_request_flushall_def)
next
  case QUEUE
  with assms(1) handle_queue_ok [OF assms(1)] show ?thesis by (auto simp: run_handler_def)
next
  case PENDING
  have "\<exists>i. items (dcache d) a = Some i" if "gt_lookup G (dtree d) f = Some a" for f a
    using daemon_ok_lookup [OF assms(1) that] by blast
  with assms(1) PENDING show ?thesis
    by (fastforce simp: run_handler_def handle_request_pending_def split: option.split)
next
  case WROTE
  with handle_wrote_ok [OF assms(1), of cfg rnd now buffer] show ?thesis by (auto simp: run_handler_def)
qed (use assms(1) in \<open>simp_all add: run_handler_def\<close>)

lemma replay_entry_ok:
  assumes "daemon_ok G d"
  shows "\<exists>ok d'. replay_entry G cfg fs rnd now entry d = Some (ok, d') \<and> daemon_ok G d'"
proof -
  define line where "line = takeWhile (\<lambda>c. c \<noteq> NUL) entry"
  obtain r so where r: "dispatch None (butlast line @ [NUL]) = (r, so)" by (metis surj_pair)
  show ?thesis
  proof (cases "line = [] \<or> last line \<noteq> NL")
    case True
    with assms show ?thesis by (auto simp: replay_entry_def line_def)
  next
    case False
    show ?thesis
    proof (cases r)
      case (Inl ans)
      with False r assms show ?thesis by (simp add: replay_entry_def Let_def line_def [symmetric])
    next
      case (Inr cr)
      obtain cmd rest where cr: "cr = (cmd, rest)" by (cases cr)
      from run_handler_total [OF assms, of cmd True rest cfg fs rnd now] False r Inr cr show ?thesis
        by (auto simp: replay_entry_def Let_def line_def [symmetric])
    qed
  qed
qed

lemma journal_replay_ok:
  assumes "daemon_ok G d"
  shows "\<exists>n d'. journal_replay G cfg fs rnd now buf d = Some (n, d') \<and> daemon_ok G d'"
  using assms
proof (induction buf arbitrary: d rule: measure_induct_rule [of length])
  case (less buf)
  show ?case
  proof (cases "fgets 4096 buf")
    case (Some er)
    obtain entry r where er: "er = (entry, r)" by (cases er)
    obtain ok d1 where d1: "replay_entry G cfg fs rnd now entry d = Some (ok, d1)" "daemon_ok G d1"
      using replay_entry_ok [OF less.prems] by blast
    have "length r < length buf" using Some er fgets_shorter by blast
    then obtain n d2 where "journal_replay G cfg fs rnd now r d1 = Some (n, d2)" "daemon_ok G d2" using less.IH d1(2) by blast
    with Some er d1(1) show ?thesis by (subst journal_replay.simps) (cases ok; simp)
  qed (use less.prems in \<open>simp add: journal_replay.simps\<close>)
qed

end

section \<open>A balanced tree\<close>

text \<open>The red-black tree of the library, with the order of \<open>strcmp\<close> on the names.\<close>

definition rbt_gtree :: "(string, nat) rbt gtree" where
  "rbt_gtree = \<lparr>gt_lookup = RBT.lookup, gt_replace = (\<lambda>t k v. RBT.insert k v t), gt_remove = (\<lambda>t k. RBT.delete k t), gt_keys = RBT.keys\<rparr>"

interpretation rbt: glib_tree rbt_gtree
  by unfold_locales (simp add: gtree_laws_def rbt_gtree_def RBT.lookup_keys restrict_complement_singleton_eq)

section \<open>Examples\<close>

definition demo_config :: dconfig where
  "demo_config = \<lparr>write_interval = 300, write_jitter = 0, flush_interval = 3600, base_dir = Some ''/db'', write_base_only = True\<rparr>"

text \<open>The daemon without any entry.\<close>

definition empty_daemon :: "(string, nat) rbt daemon" where
  "empty_daemon =
     \<lparr>dcache = \<lparr>items = (\<lambda>_. None), queue_head = None, queue_tail = None, stats_queue_length = 0\<rparr>, dtree = RBT.empty, next_addr = 0,
       dstate = RUNNING, flush_at_shutdown = True, journaling = True, journal_cur = [], journal_old = [], updates_received = 0,
       flush_received = 0, updates_written = 0, data_sets_written = 0, journal_rotations = 0\<rparr>"

lemma empty_daemon_ok: "daemon_ok rbt_gtree empty_daemon" "waiting rbt_gtree empty_daemon = (\<lambda>_. [])"
  by (auto simp: daemon_ok_def daemon_rep_def tree_rep_def queue_rep_def empty_daemon_def rbt_gtree_def waiting_def intro!: exI [of _ "[]"])

text \<open>It takes \<open>update a.rrd 900:7\<close>.\<close>

definition demo_item1 :: cache_item where
  "demo_item1 = \<lparr>ci_file = ''/db/a.rrd'', ci_values = [''900:7''], ci_last_flush_time = 1000, ci_last_update_stamp = Fin 900,
     ci_in_tree = True, ci_in_queue = False, ci_prev = None, ci_next = None\<rparr>"

definition demo_updated :: "(string, nat) rbt daemon" where
  "demo_updated = empty_daemon\<lparr>dcache := (dcache empty_daemon)\<lparr>items := [0 \<mapsto> demo_item1]\<rparr>, dtree := RBT.insert ''/db/a.rrd'' 0 RBT.empty,
     next_addr := 1, journal_cur := [''update a.rrd 900:7'']\<rparr>"

lemma strtod_900: "strtod ''900:7'' = ((Fin 900, False), '':7'')"
  by code_simp

lemma demo_update: "update_missing rbt_gtree demo_config 0 False 1000 ''a.rrd 900:7'' ''/db/a.rrd'' [''900:7''] empty_daemon =
    Some (Reply RESP_OK (EnqueuedValues 1), demo_updated)"
  by (simp add: update_missing_def insert_item_def update_item_def new_item_def wipe_ci_values_def demo_updated_def demo_item1_def
    empty_daemon_def demo_config_def rbt_gtree_def upd_item_def strtod_900 journal_write_def Let_def zero_dbl_def)

section \<open>Properties\<close>

text \<open>
  Replaying a journal ends and fails no assertion, whatever text the files hold, and leaves the cache in a state from
  which the daemon can start.
\<close>

theorem journal_replay_total:
  assumes "gtree_laws G" and "daemon_ok G d"
  shows "\<exists>n d'. journal_replay G cfg fs rnd now journal d = Some (n, d') \<and> daemon_ok G d'"
  using glib_tree.journal_replay_ok [OF glib_tree.intro] assms by blast

theorem journal_replay_total_witness:
  "\<exists>n d'. journal_replay rbt_gtree demo_config (\<lambda>_. StatOk) 0 1000 (''update a.rrd 900:7'' @ [NL] @ ''nonsense'') empty_daemon = Some (n, d') \<and>
     daemon_ok rbt_gtree d'"
  by (rule journal_replay_total [OF rbt.laws empty_daemon_ok(1)])

end
