(* ===== verification/Daemon_Access.thy ===== *)
theory Daemon_Access
  imports Daemon_Cache "HOL-Library.Sublist"
begin

text \<open>Which files a client can reach when the daemon confines its writes to the base directory.\<close>

section \<open>Where a path leads\<close>

text \<open>The components of a path, and the directory it names when no symbolic link is on the way.\<close>

fun components :: "string \<Rightarrow> string list" where
  "components [] = [[]]"
| "components (c # cs) =
     (if c = CHR ''/'' then [] # components cs else case components cs of [] \<Rightarrow> [[c]] | p # ps \<Rightarrow> (c # p) # ps)"

fun resolve :: "string list \<Rightarrow> string list \<Rightarrow> string list" where
  "resolve acc [] = acc"
| "resolve acc (p # ps) =
     (if p = [] \<or> p = ''.'' then resolve acc ps else if p = ''..'' then resolve (butlast acc) ps else resolve (acc @ [p]) ps)"

section \<open>Confinement to the base directory\<close>

lemma components_not_Nil [simp]: "components s \<noteq> []"
  by (induction s) (auto split: list.split)

lemma components_append: "components (s @ CHR ''/'' # t) = components s @ components t"
  by (induction s) (auto simp: append_eq_Cons_conv split: list.split)

lemma has_infixI: "has_infix p (xs @ p @ ys)"
  unfolding has_infix_def list_ex_iff by (intro bexI [of _ "length xs"]) auto

text \<open>A component that is not the last one stands before a slash.\<close>

lemma first_component:
  assumes "components s = p # ps" and "ps \<noteq> []"
  shows "\<exists>ys. s = p @ CHR ''/'' # ys \<and> components ys = ps"
  using assms by (induction s arbitrary: p) (auto split: if_splits list.splits)

lemma component_before_slash:
  assumes "components s = as @ p # bs" and "bs \<noteq> []"
  shows "\<exists>xs ys. s = xs @ p @ CHR ''/'' # ys"
  using assms
proof (induction as arbitrary: s)
  case Nil
  then obtain ys where "s = [] @ p @ CHR ''/'' # ys" using first_component [of s p bs] by auto
  then show ?case by blast
next
  case (Cons q as)
  then obtain ys where ys: "s = q @ CHR ''/'' # ys" "components ys = as @ p # bs" using first_component [of s q "as @ p # bs"] by auto
  with Cons.IH [OF ys(2) Cons.prems(2)] obtain xs zs where "ys = xs @ p @ CHR ''/'' # zs" by blast
  with ys(1) have "s = (q @ CHR ''/'' # xs) @ p @ CHR ''/'' # zs" by simp
  then show ?case by blast
qed

lemma no_parent_components:
  assumes "\<not> has_infix ''../'' s" and "last (components s) \<noteq> ''..''"
  shows "''..'' \<notin> set (components s)"
proof
  assume "''..'' \<in> set (components s)"
  then obtain as bs where c: "components s = as @ ''..'' # bs" by (meson split_list)
  show False
  proof (cases "bs = []")
    case True
    with c assms(2) show False by simp
  next
    case False
    then obtain xs ys where "s = xs @ ''../'' @ ys" using component_before_slash [OF c] by auto
    with assms(1) has_infixI [of "''../''" xs ys] show False by simp
  qed
qed

lemma resolve_append: "resolve acc (ps @ qs) = resolve (resolve acc ps) qs"
  by (induction ps arbitrary: acc) auto

lemma resolve_downwards: "''..'' \<notin> set ps \<Longrightarrow> prefix acc (resolve acc ps)"
proof (induction ps arbitrary: acc)
  case (Cons p ps)
  have "prefix acc (resolve (acc @ [p]) ps)" using Cons.IH [of "acc @ [p]"] Cons.prems append_prefixD by simp
  with Cons show ?case by auto
qed simp

lemma checked_path:
  assumes "base_dir cfg = Some base" and "write_base_only cfg" and "take 1 f = ''/''" and "check_file_access cfg False f"
  shows "\<exists>r. r \<noteq> [] \<and> f = base @ CHR ''/'' # r \<and> \<not> has_infix ''../'' f"
proof -
  have c: "\<not> has_infix ''../'' f" "length f \<ge> length base + 2" "take (length base) f = base" "f ! length base = CHR ''/''"
    using assms by (auto simp: check_file_access_def split: if_splits)
  have "f = take (length base) f @ f ! length base # drop (Suc (length base)) f" using c(2) by (simp add: id_take_nth_drop)
  then have "f = base @ CHR ''/'' # drop (Suc (length base)) f" unfolding c(3,4) .
  moreover have "drop (Suc (length base)) f \<noteq> []" using c(2) by simp
  ultimately show ?thesis using c(1) by blast
qed

lemma get_abs_path_absolute:
  assumes "base_dir cfg = Some base" and "take 1 base = ''/''"
  shows "take 1 (get_abs_path cfg name) = ''/''"
  using assms by (cases base) (auto simp: get_abs_path_def PATH_MAX_def)

section \<open>Properties\<close>

text \<open>
  C30: With \<open>-B\<close> and an absolute base directory, a name that passes \<open>check_file_access\<close> after \<open>get_abs_path\<close> leads to a place
  at or below the base directory, unless its last component is \<open>..\<close> (such a name is a directory, which UPDATE refuses).
\<close>

theorem access_stays_below_base:
  assumes "base_dir cfg = Some base" and "write_base_only cfg" and "take 1 base = ''/''"
    and "check_file_access cfg False (get_abs_path cfg name)" and "last (components (get_abs_path cfg name)) \<noteq> ''..''"
  shows "prefix (resolve [] (components base)) (resolve [] (components (get_abs_path cfg name)))"
proof -
  obtain r where r: "get_abs_path cfg name = base @ CHR ''/'' # r" "\<not> has_infix ''../'' (get_abs_path cfg name)"
    using checked_path [OF assms(1,2) get_abs_path_absolute [OF assms(1,3)] assms(4)] by blast
  have "''..'' \<notin> set (components (get_abs_path cfg name))" by (rule no_parent_components [OF r(2) assms(5)])
  then have "''..'' \<notin> set (components r)" unfolding r(1) components_append by simp
  then show ?thesis unfolding r(1) components_append resolve_append by (rule resolve_downwards)
qed

theorem access_stays_below_base_witness:
  "prefix (resolve [] (components ''/db'')) (resolve [] (components (get_abs_path demo_config ''host/load.rrd'')))"
  by (rule access_stays_below_base [of _ "''/db''"]; code_simp)

end
