(* ===== verification/Daemon_Threads.thy ===== *)
theory Daemon_Threads
  imports Daemon_Cache "HOL-Library.Multiset" "HOL-Library.Sublist"
begin

text \<open>
  The threads of the daemon: the queue threads, the flush thread, the connections and the signals as interleaved steps over
  the cache, the flow of the values of each file through it, and the end of the daemon.
\<close>

section \<open>Threads\<close>

text \<open>
  A queue thread is between two turns, has taken the values of a file, or has handed them to \<open>rrd_update_r\<close> (with its
  status) and has to note it in the journal.
\<close>

datatype qthread = QIdle | QTaken string "string list" | QWritten string nat bool

text \<open>The first critical section of a turn: the first item of the queue loses its values and its place.\<close>

definition queue_take :: "dconfig \<Rightarrow> int \<Rightarrow> int \<Rightarrow> 't daemon \<Rightarrow> ((string \<times> string list) option \<times> 't daemon) option" where
  "queue_take cfg rnd now d =
     (case queue_head (dcache d) of
        None \<Rightarrow> Some (None, d)
      | Some a \<Rightarrow>
          Option.bind (items (dcache d) a) (\<lambda>ci.
          if ci_values ci = [] then None
          else Option.bind (upd_item a (wipe_ci_values cfg rnd now) (dcache d)) (\<lambda>c.
               map_option (\<lambda>c. (Some (ci_file ci, ci_values ci), d\<lparr>dcache := c\<rparr>)) (remove_from_queue a c))))"

text \<open>The loop of a queue thread goes on as long as the daemon runs or has to write what is left.\<close>

definition queue_thread_continues :: "'t daemon \<Rightarrow> bool" where
  "queue_thread_continues d \<longleftrightarrow> dstate d \<noteq> SHUTDOWN \<or> (queue_head (dcache d) \<noteq> None \<and> flush_at_shutdown d)"

definition count_written :: "bool \<Rightarrow> nat \<Rightarrow> 't daemon \<Rightarrow> 't daemon" where
  "count_written ok n d =
     (if ok then d\<lparr>updates_written := updates_written d + 1, data_sets_written := data_sets_written d + n\<rparr> else d)"

text \<open>
  The loop of a queue thread that runs alone: a turn for each clock reading, with the random value, the time and the status
  of \<open>rrd_update_r\<close>. The result lists what was handed to \<open>rrd_update_r\<close>.
\<close>

fun queue_turns :: "dconfig \<Rightarrow> (int \<times> int \<times> bool) list \<Rightarrow> 't daemon \<Rightarrow> ((string \<times> string list) list \<times> 't daemon) option" where
  "queue_turns cfg [] d = Some ([], d)"
| "queue_turns cfg ((rnd, now, ok) # ts) d =
     (if \<not> queue_thread_continues d then Some ([], d)
      else Option.bind (queue_take cfg rnd now d) (\<lambda>(w, d).
        case w of None \<Rightarrow> queue_turns cfg ts d
        | Some (f, vs) \<Rightarrow> map_option (\<lambda>(ws, d). ((f, vs) # ws, d))
            (queue_turns cfg ts (count_written ok (length vs) (journal_write ''wrote'' f d)))))"

text \<open>The flush thread: its work when the time has come, and its end.\<close>

definition flush_thread_turn :: "'t gtree \<Rightarrow> dconfig \<Rightarrow> int \<Rightarrow> 't daemon \<Rightarrow> 't daemon option" where
  "flush_thread_turn G cfg now d = (if dstate d = RUNNING then flush_old_values G cfg now (write_interval cfg) d else Some d)"

definition flush_thread_end :: "'t gtree \<Rightarrow> dconfig \<Rightarrow> int \<Rightarrow> 't daemon \<Rightarrow> 't daemon option" where
  "flush_thread_end G cfg now d =
     (if dstate d = RUNNING then Some d
      else map_option (\<lambda>d. d\<lparr>dstate := SHUTDOWN\<rparr>) (if flush_at_shutdown d then flush_old_values G cfg now (- 1) d else Some d))"

text \<open>\<open>sig_common\<close>, with what SIGUSR1 and SIGUSR2 set first.\<close>

definition signal_received :: "bool option \<Rightarrow> 't daemon \<Rightarrow> 't daemon" where
  "signal_received flush d =
     (case flush of None \<Rightarrow> d | Some b \<Rightarrow> d\<lparr>flush_at_shutdown := b\<rparr>)\<lparr>dstate := FLUSHING\<rparr>"

lemma thread_bookkeeping [simp]:
  "daemon_ok G (count_written ok m d) = daemon_ok G d" "waiting G (count_written ok m d) = waiting G d"
  "daemon_ok G (signal_received fl d) = daemon_ok G d" "waiting G (signal_received fl d) = waiting G d"
  by (intro daemon_ok_cong(1) waiting_cong; simp add: count_written_def signal_received_def split: option.split)+

section \<open>The daemon and its threads\<close>

text \<open>
  The queue threads beside the cache, and what has gone through it so far for each file: the values offered by UPDATE
  requests, those whose request was answered with success, those handed to \<open>rrd_update_r\<close>, and those dropped by FORGET.
\<close>

record 't system =
  sd :: "'t daemon"
  sthreads :: "qthread list"
  offered :: "string \<Rightarrow> string list"
  acked :: "string \<Rightarrow> string list"
  written :: "string \<Rightarrow> string list"
  forgotten :: "string \<Rightarrow> string list"

definition add_at :: "string \<Rightarrow> string list \<Rightarrow> (string \<Rightarrow> string list) \<Rightarrow> string \<Rightarrow> string list" where
  "add_at f vs m = m(f := m f @ vs)"

text \<open>The values that a thread has taken and not yet handed on.\<close>

fun held_by :: "string \<Rightarrow> qthread \<Rightarrow> string list" where
  "held_by f (QTaken g vs) = (if g = f then vs else [])"
| "held_by f _ = []"

definition in_flight :: "'t system \<Rightarrow> string \<Rightarrow> string list" where
  "in_flight s f = concat (map (held_by f) (sthreads s))"

definition note_update :: "string \<Rightarrow> string list \<Rightarrow> answer \<Rightarrow> 't system \<Rightarrow> 't system" where
  "note_update f vals ans s =
     s\<lparr>offered := add_at f vals (offered s),
       acked := (case ans of Reply RESP_OK (EnqueuedValues _) \<Rightarrow> add_at f vals (acked s) | _ \<Rightarrow> acked s)\<rparr>"

definition note_request :: "'t gtree \<Rightarrow> dconfig \<Rightarrow> command \<Rightarrow> string \<Rightarrow> answer \<Rightarrow> 't system \<Rightarrow> 't system" where
  "note_request G cfg cmd buffer ans s =
     (case buffer_get_field buffer of
        None \<Rightarrow> s
      | Some (file, rest) \<Rightarrow>
          let f = get_abs_path cfg file
          in if cmd = UPDATE then note_update f (get_fields rest) ans s
             else if cmd = FORGET \<and> answer_ok ans then s\<lparr>forgotten := add_at f (waiting G (sd s) f) (forgotten s)\<rparr>
             else s)"

text \<open>
  A step is a critical section of one thread: a request on a connection; the second half of an UPDATE that found no entry
  in its first half; the three parts of a turn of a queue thread; the flush thread, the rotation of the journal, a signal.
\<close>

inductive sys_step :: "'t gtree \<Rightarrow> dconfig \<Rightarrow> 't system \<Rightarrow> 't system \<Rightarrow> bool" for G cfg where
  request: "dispatch (Some sock) line = (Inr (cmd, rest), sock') \<Longrightarrow> run_handler G cfg fs rnd False now cmd rest (sd s) = Some (ans, d) \<Longrightarrow>
     sys_step G cfg s ((note_request G cfg cmd rest ans s)\<lparr>sd := d\<rparr>)"
| late_update: "update_missing G cfg rnd False now orig f vals (sd s) = Some (ans, d) \<Longrightarrow> sys_step G cfg s ((note_update f vals ans s)\<lparr>sd := d\<rparr>)"
| taken: "t < length (sthreads s) \<Longrightarrow> sthreads s ! t = QIdle \<Longrightarrow> queue_thread_continues (sd s) \<Longrightarrow>
     queue_take cfg rnd now (sd s) = Some (Some (f, vs), d) \<Longrightarrow> sys_step G cfg s (s\<lparr>sd := d, sthreads := (sthreads s)[t := QTaken f vs]\<rparr>)"
| handed: "t < length (sthreads s) \<Longrightarrow> sthreads s ! t = QTaken f vs \<Longrightarrow>
     sys_step G cfg s (s\<lparr>written := add_at f vs (written s), sthreads := (sthreads s)[t := QWritten f (length vs) ok]\<rparr>)"
| journaled: "t < length (sthreads s) \<Longrightarrow> sthreads s ! t = QWritten f n ok \<Longrightarrow>
     sys_step G cfg s (s\<lparr>sd := count_written ok n (journal_write ''wrote'' f (sd s)), sthreads := (sthreads s)[t := QIdle]\<rparr>)"
| flush_turn: "flush_thread_turn G cfg now (sd s) = Some d \<Longrightarrow> sys_step G cfg s (s\<lparr>sd := d\<rparr>)"
| rotated: "sys_step G cfg s (s\<lparr>sd := journal_rotate (sd s)\<rparr>)"
| flush_end: "flush_thread_end G cfg now (sd s) = Some d \<Longrightarrow> sys_step G cfg s (s\<lparr>sd := d\<rparr>)"
| signalled: "sys_step G cfg s (s\<lparr>sd := signal_received flush (sd s)\<rparr>)"

text \<open>The daemon when it starts to listen: what a journal left waiting counts as offered.\<close>

definition sys_start :: "'t gtree \<Rightarrow> nat \<Rightarrow> 't daemon \<Rightarrow> 't system" where
  "sys_start G n d = \<lparr>sd = d, sthreads = replicate n QIdle, offered = waiting G d, acked = (\<lambda>_. []), written = (\<lambda>_. []), forgotten = (\<lambda>_. [])\<rparr>"

text \<open>
  The daemon as one file sees it: what has been written, what each queue thread holds, what waits, what was forgotten, what
  was offered and what was acknowledged.
\<close>

type_synonym file_view = "string list \<times> string list list \<times> string list \<times> string list \<times> string list \<times> string list"

definition view_of :: "'t gtree \<Rightarrow> 't system \<Rightarrow> string \<Rightarrow> file_view" where
  "view_of G s f = (written s f, map (held_by f) (sthreads s), waiting G (sd s) f, forgotten s f, offered s f, acked s f)"

text \<open>The abstract daemon.\<close>

inductive flow :: "file_view \<Rightarrow> file_view \<Rightarrow> bool" where
  flow_stay: "flow v v"
| flow_gain: "k \<le> length vals \<Longrightarrow> b = [] \<or> b = vals \<and> k = length vals \<Longrightarrow> flow (w, h, q, x, ofr, a) (w, h, q @ take k vals, x, ofr @ vals, a @ b)"
| flow_forget: "flow (w, h, q, x, ofr, a) (w, h, [], x @ q, ofr, a)"
| flow_take: "t < length h \<Longrightarrow> h ! t = [] \<Longrightarrow> flow (w, h, q, x, ofr, a) (w, h[t := q], [], x, ofr, a)"
| flow_hand: "t < length h \<Longrightarrow> flow (w, h, q, x, ofr, a) (w @ h ! t, h[t := []], q, x, ofr, a)"

section \<open>The flow of the values\<close>

text \<open>Nothing that was acknowledged is lost, and nothing is there that was not offered.\<close>

fun conserved :: "file_view \<Rightarrow> bool" where
  "conserved (w, h, q, x, ofr, a) \<longleftrightarrow> mset a \<subseteq># mset w + mset (concat h) + mset q + mset x \<and> mset w + mset (concat h) + mset q + mset x \<subseteq># mset ofr"

fun ordered :: "file_view \<Rightarrow> bool" where
  "ordered (w, h, q, x, ofr, a) \<longleftrightarrow> (length h \<le> 1 \<longrightarrow> subseq (w @ concat h @ q) ofr)"

lemma mset_concat_update:
  assumes "t < length h"
  shows "mset (concat (h[t := z])) + mset (h ! t) = mset (concat h) + mset z"
proof -
  have "mset (concat h) = mset (concat (take t h)) + mset (h ! t) + mset (concat (drop (Suc t) h))"
    by (subst id_take_nth_drop [OF assms]) simp
  then show ?thesis by (simp add: upd_conv_take_nth_drop [OF assms])
qed

lemma flow_conserved: "flow v v' \<Longrightarrow> conserved v \<Longrightarrow> conserved v'"
proof (induction rule: flow.induct)
  case (flow_gain k vals b w h q x ofr a)
  have "mset (take k vals) \<subseteq># mset vals" by (metis append_take_drop_id mset_append mset_subset_eq_add_left)
  moreover have "mset b \<subseteq># mset (take k vals)" using flow_gain.hyps by auto
  moreover let ?t = "mset w + mset (concat h) + mset q + mset x"
  have "mset a \<subseteq># ?t" "?t \<subseteq># mset ofr" using flow_gain.prems by simp_all
  ultimately have "mset a + mset b \<subseteq># ?t + mset (take k vals)" "?t + mset (take k vals) \<subseteq># mset ofr + mset vals"
    by (auto intro: subset_mset.add_mono)
  then show ?case by (simp add: ac_simps)
next
  case (flow_take t h w q x ofr a)
  then show ?case using mset_concat_update [of t h q] by (simp add: ac_simps)
next
  case (flow_hand t h w q x ofr a)
  have "mset w + mset (h ! t) + mset (concat (h[t := []])) = mset w + mset (concat h)"
    using mset_concat_update [OF flow_hand.hyps, of "[]"] by (simp add: ac_simps)
  with flow_hand.prems show ?case by (simp add: ac_simps)
qed (simp_all add: ac_simps)

lemma flow_threads: "flow v v' \<Longrightarrow> length (fst (snd v')) = length (fst (snd v))"
  by (induction rule: flow.induct) simp_all

lemma one_thread:
  assumes "length h \<le> 1" and "t < length h"
  obtains z where "h = [z]" and "t = 0"
  using assms by (cases h) auto

lemma flow_ordered: "flow v v' \<Longrightarrow> ordered v \<Longrightarrow> ordered v'"
proof (induction rule: flow.induct)
  case (flow_gain k vals b w h q x ofr a)
  have "subseq (take k vals) vals" by (simp add: prefix_imp_subseq take_is_prefix)
  then have "subseq ((w @ concat h @ q) @ take k vals) (ofr @ vals)" if "length h \<le> 1"
    using flow_gain.prems that by (intro list_emb_append_mono) auto
  then show ?case by simp
next
  case (flow_forget w h q x ofr a)
  have "subseq (w @ concat h @ []) (w @ concat h @ q)" by (intro list_emb_append_mono) auto
  with flow_forget show ?case by (auto elim: subseq_order.order_trans)
next
  case (flow_take t h w q x ofr a)
  then have "subseq (w @ concat (h[t := q]) @ []) ofr" if "length h \<le> 1" using one_thread [OF that] that by (metis append.assoc append_Nil append_Nil2 concat.simps list_update_code(2) nth_Cons_0 ordered.simps)
  then show ?case by simp
next
  case (flow_hand t h w q x ofr a)
  then have "subseq ((w @ h ! t) @ concat (h[t := []]) @ q) ofr" if "length h \<le> 1" using one_thread [OF that] that by (metis append.assoc append_Nil append_Nil2 concat.simps list_update_code(2) nth_Cons_0 ordered.simps)
  then show ?case by simp
qed simp

lemma flow_invariants:
  assumes "flow\<^sup>*\<^sup>* v v'" and "conserved v" and "ordered v"
  shows "conserved v' \<and> ordered v' \<and> length (fst (snd v')) = length (fst (snd v))"
  using assms by (induction rule: rtranclp_induct) (auto dest: flow_conserved flow_ordered flow_threads)

lemma view_of_same:
  assumes "waiting G d = waiting G (sd s)"
  shows "view_of G (s\<lparr>sd := d\<rparr>) f = view_of G s f"
  using assms by (simp add: view_of_def)

lemma gained_flow:
  assumes "gained G (sd s) f vals ans d"
  shows "flow (view_of G s g) (view_of G ((note_update f vals ans s)\<lparr>sd := d\<rparr>) g)"
proof -
  obtain k where k: "k \<le> length vals" "waiting G d = (waiting G (sd s))(f := waiting G (sd s) f @ take k vals)"
      "\<forall>n. ans = Reply RESP_OK (EnqueuedValues n) \<longrightarrow> n = k \<and> k = length vals" using assms by (auto simp: gained_def)
  define b where "b = (if \<exists>n. ans = Reply RESP_OK (EnqueuedValues n) then vals else [])"
  have b: "(case ans of Reply RESP_OK (EnqueuedValues _) \<Rightarrow> add_at f vals (acked s) | _ \<Rightarrow> acked s) = add_at f b (acked s)"
    unfolding b_def by (auto simp: add_at_def split: answer.split response_code.split message.split)
  have "b = [] \<or> b = vals \<and> k = length vals" using k(3) by (auto simp: b_def)
  with k flow_gain [OF k(1), of b] show ?thesis
    by (cases "g = f") (simp_all add: view_of_def note_update_def b add_at_def flow_stay)
qed

context glib_tree begin

lemma queue_take_ok:
  assumes "daemon_rep G d (a # xs)"
  shows "\<exists>f d'. gt_lookup G (dtree d) f = Some a \<and> queue_take cfg rnd now d = Some (Some (f, waiting G d f), d') \<and> waiting G d f \<noteq> [] \<and>
     daemon_rep G d' xs \<and> cache_only d d' \<and> dtree d' = dtree d \<and> waiting G d' = (waiting G d)(f := [])"
proof -
  have t: "tree_rep G d (a # xs)" using assms by (simp add: daemon_rep_def)
  then obtain i where i: "items (dcache d) a = Some i" and h: "queue_head (dcache d) = Some a"
    by (auto simp: tree_rep_def queue_rep_def chained_Cons)
  have v: "ci_values i \<noteq> []" using assms i by (simp add: daemon_rep_def)
  have w: "waiting G d (ci_file i) = ci_values i" using tree_rep_item [OF t i] i by (simp add: waiting_def)
  from wipe_and_remove [OF assms i, of cfg rnd now] obtain c1 c2 where
    c: "upd_item a (wipe_ci_values cfg rnd now) (dcache d) = Some c1" "remove_from_queue a c1 = Some c2"
      "daemon_rep G (d\<lparr>dcache := c2\<rparr>) xs" "waiting G (d\<lparr>dcache := c2\<rparr>) = (waiting G d)(ci_file i := [])" by auto
  then have "queue_take cfg rnd now d = Some (Some (ci_file i, ci_values i), d\<lparr>dcache := c2\<rparr>)"
    using h i v by (simp add: queue_take_def)
  with c v w tree_rep_item [OF t i] show ?thesis by (intro exI [of _ "ci_file i"] exI [of _ "d\<lparr>dcache := c2\<rparr>"]) simp
qed

lemma queue_take_none:
  assumes "daemon_rep G d []"
  shows "queue_take cfg rnd now d = Some (None, d)"
  using assms by (simp add: daemon_rep_def tree_rep_def queue_rep_def queue_take_def)

lemma request_flow:
  assumes "daemon_ok G (sd s)" and "cmd \<noteq> WROTE" and "run_handler G cfg fs rnd False now cmd rest (sd s) = Some (ans, d)"
  shows "daemon_ok G d \<and> flow (view_of G s g) (view_of G ((note_request G cfg cmd rest ans s)\<lparr>sd := d\<rparr>) g)"
proof (cases "buffer_get_field rest")
  case None
  with run_handler_flow [OF assms(1,3,2)] show ?thesis by (simp add: note_request_def view_of_same flow_stay)
next
  case (Some nr)
  obtain name r where nr: "nr = (name, r)" by (cases nr)
  let ?f = "get_abs_path cfg name"
  note h = run_handler_flow [OF assms(1,3,2), unfolded Some nr option.case prod.case]
  show ?thesis
  proof (cases "cmd = UPDATE")
    case True
    with h gained_flow [of G s ?f "get_fields r" ans d g] Some nr show ?thesis by (simp add: note_request_def Let_def)
  next
    case no: False
    show ?thesis
    proof (cases "cmd = FORGET \<and> answer_ok ans")
      case True
      with h no have "waiting G d = (waiting G (sd s))(?f := [])" by simp
      with True no Some nr h flow_forget show ?thesis
        by (cases "g = ?f") (simp_all add: note_request_def Let_def view_of_def add_at_def flow_stay)
    next
      case False
      with h no Some nr show ?thesis by (auto simp: note_request_def Let_def view_of_same flow_stay)
    qed
  qed
qed

lemma sys_step_flow:
  assumes "sys_step G cfg s s'" and "daemon_ok G (sd s)"
  shows "daemon_ok G (sd s') \<and> flow (view_of G s f) (view_of G s' f)"
  using assms
proof (cases rule: sys_step.cases)
  case (request sock line cmd rest sock' fs rnd now ans d)
  with request_flow [OF assms(2) dispatch_client [OF request(2)] request(3)] show ?thesis by simp
next
  case (late_update rnd now orig g vals ans d)
  with update_missing_gained [OF assms(2), of cfg rnd False now orig g vals] have "gained G (sd s) g vals ans d" by simp
  with gained_flow [OF this] late_update(1) show ?thesis by (simp add: gained_def)
next
  case (taken t rnd now g vs d)
  obtain xs where xs: "daemon_rep G (sd s) xs" using assms(2) by (auto simp: daemon_ok_def)
  obtain a as where "xs = a # as" using taken(5) queue_take_none xs by (cases xs) auto
  with queue_take_ok [of "sd s" a as cfg rnd now] xs taken(5) have
    d: "vs = waiting G (sd s) g" "daemon_ok G d" "waiting G d = (waiting G (sd s))(g := [])" by (auto simp: daemon_ok_def)
  have "map (held_by f) ((sthreads s)[t := QTaken g vs]) = (map (held_by f) (sthreads s))[t := if g = f then vs else []]"
    by (simp add: map_update)
  moreover have "(map (held_by f) (sthreads s))[t := []] = map (held_by f) (sthreads s)"
    using taken(2,3) by (simp add: list_update_same_conv)
  ultimately show ?thesis using taken d flow_take [of t "map (held_by f) (sthreads s)"] by (auto simp: view_of_def flow_stay)
next
  case (handed t g vs ok)
  have "map (held_by f) ((sthreads s)[t := QWritten g (length vs) ok]) = (map (held_by f) (sthreads s))[t := []]"
    by (simp add: map_update)
  moreover have "(map (held_by f) (sthreads s))[t := []] = map (held_by f) (sthreads s)" if "g \<noteq> f"
    using handed that by (simp add: list_update_same_conv)
  ultimately show ?thesis using handed assms(2) flow_hand [of t "map (held_by f) (sthreads s)"]
    by (cases "g = f") (auto simp: view_of_def flow_stay add_at_def)
next
  case (journaled t g n ok)
  have "map (held_by f) ((sthreads s)[t := QIdle]) = map (held_by f) (sthreads s)"
    using journaled by (simp add: map_update list_update_same_conv)
  with journaled assms(2) show ?thesis by (simp add: view_of_def flow_stay)
next
  case (flush_turn now d)
  with flush_old_values_ok [OF assms(2), of cfg now "write_interval cfg"] assms(2) show ?thesis
    by (auto simp: flush_thread_turn_def view_of_same flow_stay split: if_splits)
next
  case (flush_end now d)
  with flush_old_values_ok [OF assms(2), of cfg now "- 1"] assms(2) show ?thesis
    by (auto simp: flush_thread_end_def view_of_same flow_stay split: if_splits)
qed (use assms(2) in \<open>simp_all add: view_of_same flow_stay\<close>)

lemma sys_run_flow:
  assumes "(sys_step G cfg)\<^sup>*\<^sup>* s s'" and "daemon_ok G (sd s)"
  shows "daemon_ok G (sd s') \<and> flow\<^sup>*\<^sup>* (view_of G s f) (view_of G s' f)"
  using assms by (induction rule: rtranclp_induct) (auto dest: sys_step_flow [of _ _ _ f] intro: rtranclp.rtrancl_into_rtrancl)

text \<open>At the end, a queue thread takes every queued file once and stops.\<close>

lemma queue_turns_drain:
  assumes "daemon_rep G d xs" and "dstate d = SHUTDOWN" and "flush_at_shutdown d" and "length xs \<le> length ts"
  shows "\<exists>ws d'. queue_turns cfg ts d = Some (ws, d') \<and> \<not> queue_thread_continues d' \<and>
     map (gt_lookup G (dtree d) \<circ> fst) ws = map Some xs \<and> (\<forall>f v. (f, v) \<in> set ws \<longrightarrow> v = waiting G d f \<and> v \<noteq> []) \<and>
     waiting G d' = (\<lambda>f. if f \<in> fst ` set ws then [] else waiting G d f)"
  using assms
proof (induction xs arbitrary: d ts)
  case Nil
  then have "queue_head (dcache d) = None" by (simp add: daemon_rep_def tree_rep_def queue_rep_def)
  with Nil have "\<not> queue_thread_continues d" by (simp add: queue_thread_continues_def)
  then have "queue_turns cfg ts d = Some ([], d)" by (cases ts) auto
  with \<open>\<not> queue_thread_continues d\<close> show ?case by simp
next
  case (Cons a xs)
  then obtain rnd now ok ts' where ts: "ts = (rnd, now, ok) # ts'" by (cases ts) auto
  obtain f d1 where d1: "gt_lookup G (dtree d) f = Some a" "queue_take cfg rnd now d = Some (Some (f, waiting G d f), d1)"
      "waiting G d f \<noteq> []" "daemon_rep G d1 xs" "cache_only d d1" "dtree d1 = dtree d" "waiting G d1 = (waiting G d)(f := [])"
    using queue_take_ok [OF Cons.prems(1)] by blast
  let ?d2 = "count_written ok (length (waiting G d f)) (journal_write ''wrote'' f d1)"
  have d2: "dcache ?d2 = dcache d1" "dtree ?d2 = dtree d1" "next_addr ?d2 = next_addr d1" "dstate ?d2 = dstate d1"
      "flush_at_shutdown ?d2 = flush_at_shutdown d1"
    by (simp_all add: count_written_def journal_write_def)
  have st: "dstate ?d2 = SHUTDOWN" "flush_at_shutdown ?d2" using d2 d1(5) Cons.prems(2,3) by (simp_all add: cache_only_def)
  have rep: "daemon_rep G ?d2 xs" using d1(4) daemon_ok_cong(2) [OF d2(1-3)] by simp
  have "length xs \<le> length ts'" using Cons.prems(4) ts by simp
  from Cons.IH [OF rep st this] obtain ws d3 where
    r: "queue_turns cfg ts' ?d2 = Some (ws, d3)" "\<not> queue_thread_continues d3" "map (gt_lookup G (dtree d) \<circ> fst) ws = map Some xs"
      "\<forall>g v. (g, v) \<in> set ws \<longrightarrow> v = waiting G d1 g \<and> v \<noteq> []" "waiting G d3 = (\<lambda>g. if g \<in> fst ` set ws then [] else waiting G d1 g)"
    unfolding thread_bookkeeping bookkeeping d2(2) d1(6) by blast
  have "queue_thread_continues d"
    using Cons.prems by (auto simp: queue_thread_continues_def daemon_rep_def tree_rep_def queue_rep_def)
  then have "queue_turns cfg ts d = Some ((f, waiting G d f) # ws, d3)" using ts d1(2) r(1) by simp
  moreover have "v = waiting G d g \<and> v \<noteq> []" if "(g, v) \<in> set ws" for g v
    using r(4) that d1(7) by (metis fun_upd_apply)
  moreover have "waiting G d3 = (\<lambda>g. if g \<in> fst ` set ((f, waiting G d f) # ws) then [] else waiting G d g)"
    using r(5) d1(7) by auto
  ultimately show ?case using r(2,3) d1(1,3) by (intro exI [of _ "(f, waiting G d f) # ws"] exI [of _ d3]) (auto simp: comp_def)
qed

lemma flush_thread_end_ok:
  assumes "daemon_ok G d" and "dstate d \<noteq> RUNNING" and "flush_at_shutdown d"
  shows "\<exists>d'. flush_thread_end G cfg now d = Some d' \<and> daemon_ok G d' \<and> dstate d' = SHUTDOWN \<and> flush_at_shutdown d' \<and>
     waiting G d' = waiting G d \<and> (\<forall>f. waiting G d f \<noteq> [] \<longrightarrow> in_line G d' f)"
proof -
  obtain d1 where d1: "flush_old_values G cfg now (- 1) d = Some d1" "daemon_ok G d1" "cache_only d d1" "waiting G d1 = waiting G d"
      "\<forall>f. in_line G d f \<or> due G d (now + 2 * write_jitter cfg + 1) f \<longrightarrow> in_line G d1 f"
    using flush_old_values_ok [OF assms(1), of cfg now "- 1"] by auto
  have "due G d tmo f" if "waiting G d f \<noteq> []" for f tmo
    using that assms(2) by (auto simp: due_def waiting_def split: option.splits)
  moreover have "in_line G (d1\<lparr>dstate := SHUTDOWN\<rparr>) = in_line G d1" by (rule daemon_ok_cong(3)) simp_all
  ultimately show ?thesis using d1 assms(2,3) by (simp add: flush_thread_end_def cache_only_def)
qed

end

lemma sys_run_invariants:
  assumes "gtree_laws G" and "daemon_ok G d" and "(sys_step G cfg)\<^sup>*\<^sup>* (sys_start G n d) s"
  shows "daemon_ok G (sd s)" and "conserved (view_of G s f)" and "ordered (view_of G s f)" and "length (sthreads s) = n"
proof -
  have start: "sd (sys_start G n d) = d" "view_of G (sys_start G n d) f = ([], replicate n [], waiting G d f, [], waiting G d f, [])"
    by (simp_all add: sys_start_def view_of_def)
  have r: "daemon_ok G (sd s) \<and> flow\<^sup>*\<^sup>* (view_of G (sys_start G n d) f) (view_of G s f)"
    using glib_tree.sys_run_flow [OF glib_tree.intro [OF assms(1)] assms(3)] assms(2) start(1) by simp
  then have v: "conserved (view_of G s f) \<and> ordered (view_of G s f) \<and> length (fst (snd (view_of G s f))) = n"
    using flow_invariants [of "view_of G (sys_start G n d) f" "view_of G s f"] start(2) by simp
  show "daemon_ok G (sd s)" "conserved (view_of G s f)" "ordered (view_of G s f)" using r v by simp_all
  show "length (sthreads s) = n" using v by (simp add: view_of_def)
qed

section \<open>Examples\<close>

definition demo_system :: "(string, nat) rbt system" where
  "demo_system = (note_update ''/db/a.rrd'' [''900:7''] (Reply RESP_OK (EnqueuedValues 1)) (sys_start rbt_gtree 1 empty_daemon))\<lparr>sd := demo_updated\<rparr>"

lemma demo_run: "(sys_step rbt_gtree demo_config)\<^sup>*\<^sup>* (sys_start rbt_gtree 1 empty_daemon) demo_system"
proof -
  have "update_missing rbt_gtree demo_config 0 False 1000 ''a.rrd 900:7'' ''/db/a.rrd'' [''900:7''] (sd (sys_start rbt_gtree 1 empty_daemon)) =
      Some (Reply RESP_OK (EnqueuedValues 1), demo_updated)" using demo_update by (simp add: sys_start_def)
  from late_update [OF this] show ?thesis unfolding demo_system_def by blast
qed

lemma demo_system_acked: "acked demo_system ''/db/a.rrd'' = [''900:7'']"
  by (simp add: demo_system_def note_update_def sys_start_def add_at_def)

lemma demo_updated_ok: "daemon_ok rbt_gtree demo_updated" "flush_at_shutdown demo_updated"
  using sys_run_invariants(1) [OF rbt.laws empty_daemon_ok(1) demo_run] by (simp_all add: demo_system_def demo_updated_def empty_daemon_def)

section \<open>Properties\<close>

text \<open>
  C26: For every file, each step of the daemon with all its threads is a step of the abstract flow of values: an UPDATE
  appends a prefix of its values (all of them when it is answered with success), FORGET moves what waits to the forgotten
  values, a queue thread takes everything that waits and hands it on, and every other step leaves the file alone.
\<close>

theorem sys_step_refines_flow:
  assumes "gtree_laws G" and "daemon_ok G (sd s)" and "sys_step G cfg s s'"
  shows "daemon_ok G (sd s') \<and> flow (view_of G s f) (view_of G s' f)"
  using glib_tree.sys_step_flow [OF glib_tree.intro] assms by blast

theorem sys_step_refines_flow_witness:
  "flow (view_of rbt_gtree (sys_start rbt_gtree 2 empty_daemon) ''/db/a.rrd'')
     (view_of rbt_gtree ((note_update ''/db/a.rrd'' [''900:7''] (Reply RESP_OK (EnqueuedValues 1)) (sys_start rbt_gtree 2 empty_daemon))\<lparr>sd := demo_updated\<rparr>) ''/db/a.rrd'')"
  using sys_step_refines_flow [OF rbt.laws _ late_update [OF _, where s = "sys_start rbt_gtree 2 empty_daemon"]] demo_update empty_daemon_ok(1)
  by (simp add: sys_start_def)

text \<open>
  C25: Whatever the interleaving of clients, queue threads, the flush thread, rotations and signals: the values of a file
  whose UPDATE was answered with success are all, with their multiplicities, among those handed to \<open>rrd_update_r\<close>, held by a
  queue thread, waiting in the cache, or dropped by a FORGET; and all of these together are among the values offered.
\<close>

theorem no_value_lost:
  assumes "gtree_laws G" and "daemon_ok G d" and "(sys_step G cfg)\<^sup>*\<^sup>* (sys_start G n d) s"
  shows "mset (acked s f) \<subseteq># mset (written s f) + mset (in_flight s f) + mset (waiting G (sd s) f) + mset (forgotten s f) \<and>
    mset (written s f) + mset (in_flight s f) + mset (waiting G (sd s) f) + mset (forgotten s f) \<subseteq># mset (offered s f)"
  using sys_run_invariants(2) [OF assms, of f] by (simp add: view_of_def in_flight_def)

theorem no_value_lost_witness:
  "mset (acked demo_system ''/db/a.rrd'') \<subseteq>#
     mset (written demo_system ''/db/a.rrd'') + mset (in_flight demo_system ''/db/a.rrd'') + mset (waiting rbt_gtree (sd demo_system) ''/db/a.rrd'') + mset (forgotten demo_system ''/db/a.rrd'') \<and>
   acked demo_system ''/db/a.rrd'' = [''900:7'']"
  using no_value_lost [OF rbt.laws empty_daemon_ok(1) demo_run] demo_system_acked by blast

text \<open>
  C29: With a single queue thread the values of a file reach \<open>rrd_update_r\<close> in the order in which they were offered: what is
  written, then what the thread holds, then what waits, is a subsequence of the offered values.
\<close>

theorem single_writer_in_order:
  assumes "gtree_laws G" and "daemon_ok G d" and "(sys_step G cfg)\<^sup>*\<^sup>* (sys_start G 1 d) s"
  shows "subseq (written s f @ in_flight s f @ waiting G (sd s) f) (offered s f)"
  using sys_run_invariants(3) [OF assms, of f] sys_run_invariants(4) [OF assms] by (simp add: view_of_def in_flight_def)

theorem single_writer_in_order_witness:
  "subseq (written demo_system ''/db/a.rrd'' @ in_flight demo_system ''/db/a.rrd'' @ waiting rbt_gtree (sd demo_system) ''/db/a.rrd'') (offered demo_system ''/db/a.rrd'')"
  using single_writer_in_order [OF rbt.laws empty_daemon_ok(1) demo_run] by blast

text \<open>
  C28: In every reachable state, no critical section follows a dangling pointer or fails an assertion: neither a request
  (if the line it keeps for the journal is terminated), nor the second half of an UPDATE, nor the turn of a queue thread,
  nor the flush of old values.
\<close>

theorem critical_sections_succeed:
  assumes "gtree_laws G" and "daemon_ok G d" and "(sys_step G cfg)\<^sup>*\<^sup>* (sys_start G n d) s"
  shows "((cmd = UPDATE \<longrightarrow> orig_text buffer \<noteq> None) \<longrightarrow> (\<exists>ans e. run_handler G cfg fs rnd False now cmd buffer (sd s) = Some (ans, e))) \<and>
    (\<exists>ans e. update_missing G cfg rnd False now orig f vals (sd s) = Some (ans, e)) \<and>
    (\<exists>w e. queue_take cfg rnd now (sd s) = Some (w, e)) \<and>
    (\<exists>e. flush_old_values G cfg now age (sd s) = Some e)"
proof -
  note g = glib_tree.intro [OF assms(1)] and ok = sys_run_invariants(1) [OF assms]
  obtain xs where xs: "daemon_rep G (sd s) xs" using ok by (auto simp: daemon_ok_def)
  have "\<exists>w e. queue_take cfg rnd now (sd s) = Some (w, e)"
    using xs glib_tree.queue_take_none [OF g] glib_tree.queue_take_ok [OF g, of "sd s"] by (cases xs) blast+
  moreover have "\<exists>ans e. run_handler G cfg fs rnd False now cmd buffer (sd s) = Some (ans, e)"
    if "cmd = UPDATE \<longrightarrow> orig_text buffer \<noteq> None"
    using glib_tree.run_handler_total [OF g ok, of cmd False buffer cfg fs rnd now] that by blast
  moreover note glib_tree.update_missing_gained [OF g ok, of cfg rnd False now orig f vals] glib_tree.flush_old_values_ok [OF g ok, of cfg now age]
  ultimately show ?thesis by blast
qed

theorem critical_sections_succeed_witness:
  "(\<exists>ans e. run_handler rbt_gtree demo_config (\<lambda>_. StatOk) 0 False 1000 FLUSH (''a.rrd'' @ [NUL]) (sd demo_system) = Some (ans, e)) \<and>
   (\<exists>w e. queue_take demo_config 0 1000 (sd demo_system) = Some (w, e))"
  using critical_sections_succeed [OF rbt.laws empty_daemon_ok(1) demo_run, of FLUSH "''a.rrd'' @ [NUL]" "\<lambda>_. StatOk" 0 1000] by blast

text \<open>
  C27: When the daemon stops with flushing at shutdown, the flush thread succeeds and leaves every file with waiting values
  in the queue; a queue thread then needs no more turns than the queue is long until it ends, nothing waits any more, and
  each file that had values was handed to \<open>rrd_update_r\<close> exactly once, with all of them.
\<close>

theorem shutdown_writes_everything:
  assumes "gtree_laws G" and "daemon_ok G d" and "dstate d \<noteq> RUNNING" and "flush_at_shutdown d"
  shows "\<exists>d1. flush_thread_end G cfg now d = Some d1 \<and>
     (\<forall>ts. stats_queue_length (dcache d1) \<le> length ts \<longrightarrow>
        (\<exists>ws d2. queue_turns cfg ts d1 = Some (ws, d2) \<and> \<not> queue_thread_continues d2 \<and> waiting G d2 = (\<lambda>_. []) \<and>
           distinct (map fst ws) \<and> set ws = {(f, waiting G d f) |f. waiting G d f \<noteq> []}))"
proof -
  note g = glib_tree.intro [OF assms(1)]
  obtain d1 where d1: "flush_thread_end G cfg now d = Some d1" "daemon_ok G d1" "dstate d1 = SHUTDOWN" "flush_at_shutdown d1"
      "waiting G d1 = waiting G d" "\<forall>f. waiting G d f \<noteq> [] \<longrightarrow> in_line G d1 f"
    using glib_tree.flush_thread_end_ok [OF g assms(2-4)] by blast
  obtain xs where xs: "daemon_rep G d1 xs" using d1(2) by (auto simp: daemon_ok_def)
  then have len: "stats_queue_length (dcache d1) = length xs" "distinct xs" by (simp_all add: daemon_rep_def tree_rep_def queue_rep_def)
  have "\<exists>ws d2. queue_turns cfg ts d1 = Some (ws, d2) \<and> \<not> queue_thread_continues d2 \<and> waiting G d2 = (\<lambda>_. []) \<and>
           distinct (map fst ws) \<and> set ws = {(f, waiting G d f) |f. waiting G d f \<noteq> []}"
    if ts: "length xs \<le> length ts" for ts
  proof -
    obtain ws d2 where w: "queue_turns cfg ts d1 = Some (ws, d2)" "\<not> queue_thread_continues d2"
        "map (gt_lookup G (dtree d1) \<circ> fst) ws = map Some xs" "\<forall>f v. (f, v) \<in> set ws \<longrightarrow> v = waiting G d1 f \<and> v \<noteq> []"
        "waiting G d2 = (\<lambda>f. if f \<in> fst ` set ws then [] else waiting G d1 f)"
      using glib_tree.queue_turns_drain [OF g xs d1(3,4) ts] by blast
    have "distinct (map (gt_lookup G (dtree d1)) (map fst ws))" using w(3) len(2) by (simp add: distinct_map inj_on_def)
    then have dist: "distinct (map fst ws)" unfolding distinct_map [of _ "map fst ws"] by blast
    have all: "f \<in> fst ` set ws" if v: "waiting G d f \<noteq> []" for f
    proof -
      obtain a where a: "a \<in> set xs" "gt_lookup G (dtree d1) f = Some a" using iffD1 [OF in_line_rep [OF xs]] d1(6) v by blast
      then have "Some a \<in> set (map (gt_lookup G (dtree d1) \<circ> fst) ws)" unfolding w(3) by simp
      then obtain h where h: "h \<in> set ws" "gt_lookup G (dtree d1) (fst h) = Some a" by auto
      have "fst h = f" using glib_tree.lookup_inj [OF g d1(2) h(2) a(2)] .
      with h(1) show ?thesis by force
    qed
    then have "waiting G d2 = (\<lambda>_. [])" using w(5) d1(5) by fastforce
    moreover have "set ws = {(f, waiting G d f) |f. waiting G d f \<noteq> []}" using w(4) all d1(5) by force
    ultimately show ?thesis using w(1,2) dist by blast
  qed
  with d1(1) len(1) show ?thesis by auto
qed

theorem shutdown_writes_everything_witness:
  "\<exists>d1. flush_thread_end rbt_gtree demo_config 2000 (signal_received None demo_updated) = Some d1 \<and>
     (\<forall>ts. stats_queue_length (dcache d1) \<le> length ts \<longrightarrow>
        (\<exists>ws d2. queue_turns demo_config ts d1 = Some (ws, d2) \<and> waiting rbt_gtree d2 = (\<lambda>_. []) \<and> set ws = {(''/db/a.rrd'', [''900:7''])}))"
proof -
  have w: "{(f, waiting rbt_gtree demo_updated f) |f. waiting rbt_gtree demo_updated f \<noteq> []} = {(''/db/a.rrd'', [''900:7''])}"
    by (auto simp: waiting_def demo_updated_def rbt_gtree_def empty_daemon_def demo_item1_def split: if_splits)
  have h: "daemon_ok rbt_gtree (signal_received None demo_updated)" "dstate (signal_received None demo_updated) \<noteq> RUNNING"
      "flush_at_shutdown (signal_received None demo_updated)"
    using demo_updated_ok by (simp_all, simp_all add: signal_received_def)
  show ?thesis using shutdown_writes_everything [OF rbt.laws h, of demo_config 2000, unfolded thread_bookkeeping w] by metis
qed

end
