(* ===== verification/Graph_Reduce.thy ===== *)
theory Graph_Reduce
  imports Cdp
begin

text \<open>
  The reduction of fetched data to a larger step (\<open>reduce_data\<close> of \<open>rrd_graph.c\<close>). The code works in place: the rows it
  writes are in the buffer it reads from.
\<close>

section \<open>Model\<close>

datatype reduce_error = ReduceExit | ReduceDivision | ReduceOutOfBounds

text \<open>A value of the row that is made, with the number of known values in it so far.\<close>

definition sums_up :: "cf_en \<Rightarrow> bool" where
  "sums_up cf \<longleftrightarrow> cf \<in> {CF_HWPREDICT, CF_MHWPREDICT, CF_DEVSEASONAL, CF_DEVPREDICT, CF_SEASONAL, CF_AVERAGE}"

definition combine_value :: "cf_en \<Rightarrow> dbl \<Rightarrow> dbl \<times> nat \<Rightarrow> dbl \<times> nat" where
  "combine_value cf x nv =
     (case nv of (newval, validval) \<Rightarrow>
        if isnan x then (newval, validval)
        else (if isnan newval then x
              else if sums_up cf then newval + x
              else if cf = CF_MINIMUM then (if newval < x then newval else x)
              else if cf = CF_FAILURES \<or> cf = CF_MAXIMUM then (if x < newval then newval else x)
              else x, validval + 1))"

definition combine :: "cf_en \<Rightarrow> dbl list \<Rightarrow> dbl" where
  "combine cf xs =
     (case fold (combine_value cf) xs (NaN, 0) of (newval, validval) \<Rightarrow>
        if validval = 0 then NaN else if sums_up cf then newval / d_of_nat validval else newval)"

text \<open>A row of the destination: one column after the other, read at \<open>src\<close> and written at \<open>dpos\<close>.\<close>

fun reduce_cols :: "cf_en \<Rightarrow> nat \<Rightarrow> nat \<Rightarrow> nat list \<Rightarrow> nat \<Rightarrow> dbl list \<times> nat \<Rightarrow> reduce_error + (dbl list \<times> nat)" where
  "reduce_cols cf factor dsn [] src bd = Inr bd"
| "reduce_cols cf factor dsn (col # cols) src bd =
     (case bd of (buf, dpos) \<Rightarrow>
        if length buf \<le> src + (factor - 1) * dsn + col \<or> length buf \<le> dpos then Inl ReduceOutOfBounds
        else reduce_cols cf factor dsn cols src
               (buf[dpos := combine cf (map (\<lambda>i. buf ! (src + i * dsn + col)) [0 ..< factor])], dpos + 1))"

fun reduce_rows :: "cf_en \<Rightarrow> nat \<Rightarrow> nat \<Rightarrow> nat \<Rightarrow> nat \<Rightarrow> dbl list \<times> nat \<Rightarrow> reduce_error + (dbl list \<times> nat)" where
  "reduce_rows cf factor dsn 0 src bd = Inr bd"
| "reduce_rows cf factor dsn (Suc n) src bd =
     (case reduce_cols cf factor dsn [0 ..< dsn] src bd of
        Inl e \<Rightarrow> Inl e
      | Inr bd \<Rightarrow> reduce_rows cf factor dsn n (src + dsn * factor) bd)"

text \<open>A row of unknown values.\<close>

fun unknown_row :: "nat \<Rightarrow> dbl list \<times> nat \<Rightarrow> reduce_error + (dbl list \<times> nat)" where
  "unknown_row 0 bd = Inr bd"
| "unknown_row (Suc n) bd =
     (case bd of (buf, dpos) \<Rightarrow> if length buf \<le> dpos then Inl ReduceOutOfBounds else unknown_row n (buf[dpos := NaN], dpos + 1))"

definition reduce_factor :: "nat \<Rightarrow> nat \<Rightarrow> int" where
  "reduce_factor cur_step step = d_to_int (dceil (d_of_nat step / d_of_nat cur_step))"

text \<open>
  The new start, end, step and data. The counters are unsigned and wrap; the loop compares \<open>row_cnt\<close> as a signed number.
\<close>

definition reduce_data :: "cf_en \<Rightarrow> nat \<Rightarrow> int \<Rightarrow> int \<Rightarrow> nat \<Rightarrow> nat \<Rightarrow> dbl list \<Rightarrow> reduce_error + (int \<times> int \<times> nat \<times> dbl list)" where
  "reduce_data cf cur_step start end' step dsn buf =
     (let factor = reduce_factor cur_step step;
          step = u64 (int cur_step * factor)
      in if cur_step = 0 \<or> step = 0 then Inl ReduceDivision
         else
           let row_cnt = u64 (end' - start) div cur_step;
               end_offset = u64 end' mod step;
               start_offset = u64 start mod step;
               skip = (if start_offset \<noteq> 0 then u64 (factor - int (start_offset div cur_step)) else 0);
               start' = (if start_offset \<noteq> 0 then s64 (start - int start_offset) else start);
               row_cnt = u64 (int row_cnt - int skip);
               row_cnt = (if end_offset \<noteq> 0 then u64 (int row_cnt - int (end_offset div cur_step)) else row_cnt);
               end'' = (if end_offset \<noteq> 0 then s64 (end' - int end_offset + int step) else end')
           in if row_cnt mod u64 factor \<noteq> 0 then Inl ReduceExit
              else case (if start_offset \<noteq> 0 then unknown_row dsn (buf, 0) else Inr (buf, 0)) of
                     Inl e \<Rightarrow> Inl e
                   | Inr bd \<Rightarrow>
                       (case reduce_rows cf (nat factor) dsn (if factor \<le> s64 (int row_cnt) then row_cnt div nat factor else 0) (skip * dsn) bd of
                          Inl e \<Rightarrow> Inl e
                        | Inr bd \<Rightarrow>
                            (case (if end_offset \<noteq> 0 then unknown_row dsn bd else Inr bd) of
                               Inl e \<Rightarrow> Inl e
                             | Inr (buf, _) \<Rightarrow> Inr (start', end'', step, buf))))"

section \<open>The factor\<close>

text \<open>A quotient of small integers is rounded to a number in the same unit interval.\<close>

lemma rnd64_quotient:
  assumes "0 < cur" and "cur < step" and "step < (2 :: int) ^ 31" and "n = \<lceil>of_int step / of_int cur :: rat\<rceil>"
  shows "of_int n - 1 < rnd64 (of_int step / of_int cur)" and "rnd64 (of_int step / of_int cur) \<le> of_int n"
proof -
  define q :: rat where "q = of_int step / of_int cur"
  define e where "e = ulp_exp q"
  have q1: "1 < q" using assms(1,2) by (simp add: q_def)
  have "q \<le> of_int step" using assms(1,2) by (simp add: q_def divide_le_eq mult_le_cancel_left1)
  then have q31: "q < 2 powi 31" using assms(3) by (simp add: q_def le_less_trans)
  have f: "0 \<le> flog2 q" "flog2 q < 31" using flog2_ge [of q 0] flog2_less [of q 31] q1 q31 by simp_all
  then have e: "e = flog2 q - 52" using q1 by (simp add: e_def ulp_exp_def)
  have p: "(0::rat) < 2 powi e" by simp
  have r: "rnd64 q = of_int (rne (q / 2 powi e)) * 2 powi e" using q1 by (simp add: rnd64_def pow2_def e_def)
  have n: "of_int n - 1 < q" "q \<le> of_int n" using assms(4) unfolding q_def [symmetric] by linarith+
  show "rnd64 (of_int step / of_int cur) \<le> of_int n"
  proof -
    have "of_int n / 2 powi e = (of_int (n * 2 ^ nat (- e)) :: rat)" using e f by (simp add: power_int_def field_simps)
    then have "q / 2 powi e \<le> of_int (n * 2 ^ nat (- e))" using n(2) p by (metis divide_right_mono less_imp_le)
    then have "rne (q / 2 powi e) \<le> n * 2 ^ nat (- e)" by (rule rne_le)
    then have "of_int (rne (q / 2 powi e)) \<le> (of_int (n * 2 ^ nat (- e)) :: rat)" unfolding of_int_le_iff .
    also have "\<dots> = of_int n / 2 powi e" using e f by (simp add: power_int_def field_simps)
    finally show ?thesis unfolding q_def [symmetric] r using p by (simp add: pos_le_divide_eq)
  qed
  show "of_int n - 1 < rnd64 (of_int step / of_int cur)"
  proof -
    have "of_int (rne (q / 2 powi e)) \<ge> q / 2 powi e - 1 / 2" using rne_near [of "q / 2 powi e"] by linarith
    then have "(q / 2 powi e - 1 / 2) * 2 powi e \<le> rnd64 q" unfolding r by (intro mult_right_mono) simp_all
    then have lo: "q - 2 powi e / 2 \<le> rnd64 q" using p by (simp add: left_diff_distrib)
    have "2 powi flog2 q \<le> q" using flog2_bounds [of q] q1 by simp
    then have "2 powi e \<le> q / 2 ^ 52" by (simp add: e power_int_diff divide_right_mono)
    also have "q / 2 ^ 52 < 2 / of_int cur" using assms(1,3) by (simp add: q_def divide_less_eq field_simps)
    finally have small: "2 powi e / 2 < (1 :: rat) / of_int cur" by simp
    have "(of_int (step - (n - 1) * cur) :: rat) / of_int cur = q - (of_int n - 1)" using assms(1) by (simp add: q_def field_simps)
    moreover have "0 < step - (n - 1) * cur"
    proof -
      have "(of_int n - 1) * of_int cur < (of_int step :: rat)" using n(1) assms(1) by (simp add: q_def pos_less_divide_eq)
      then have "(of_int ((n - 1) * cur) :: rat) < of_int step" by simp
      then show ?thesis unfolding of_int_less_iff by simp
    qed
    then have "(of_int 1 :: rat) \<le> of_int (step - (n - 1) * cur)" unfolding of_int_le_iff by simp
    then have "of_int 1 / of_int cur \<le> (of_int (step - (n - 1) * cur) :: rat) / of_int cur" using assms(1) by (intro divide_right_mono) simp_all
    then have "(1 :: rat) / of_int cur \<le> of_int (step - (n - 1) * cur) / of_int cur" unfolding of_int_1 .
    ultimately show ?thesis using lo small unfolding q_def [symmetric] by linarith
  qed
qed

lemma ceiling_quotient:
  assumes "0 < cur"
  shows "\<lceil>of_int (int step) / of_int (int cur) :: rat\<rceil> = int ((step + cur - 1) div cur)"
proof (rule ceiling_unique)
  define n where "n = (step + cur - 1) div cur"
  have "(step + cur - 1) mod cur < cur" using assms by simp
  moreover have "n * cur + (step + cur - 1) mod cur = step + cur - 1" by (simp add: n_def)
  ultimately have "n * cur < step + cur" "step \<le> n * cur" using assms by linarith+
  then have "(of_nat (n * cur) :: rat) < of_nat (step + cur)" "(of_nat step :: rat) \<le> of_nat (n * cur)" by (simp_all only: of_nat_less_iff of_nat_le_iff)
  then show "of_int (int n) - 1 < (of_int (int step) / of_int (int cur) :: rat)" "of_int (int step) / of_int (int cur) \<le> (of_int (int n) :: rat)"
    using assms by (simp_all add: field_simps)
qed

lemma reduce_factor_eq:
  assumes "0 < cur" and "cur < step" and "step < 2 ^ 31"
  shows "reduce_factor cur step = int ((step + cur - 1) div cur)"
proof -
  define n where "n = int ((step + cur - 1) div cur)"
  define q :: rat where "q = of_int (int step) / of_int (int cur)"
  have i: "0 < int cur" "int cur < int step" "int step < 2 ^ 31" using assms by simp_all
  have c: "n = \<lceil>q\<rceil>" using ceiling_quotient [OF assms(1), of step] by (simp add: n_def q_def)
  note y = rnd64_quotient [OF i, of n, folded q_def, OF c]
  have "1 < q" using assms by (simp add: q_def)
  moreover have "q \<le> of_int (int step)" using assms(1,2) by (simp add: q_def divide_le_eq mult_le_cancel_left1)
  ultimately have n: "1 < n" "n \<le> int step" unfolding c by (simp_all add: less_ceiling_iff ceiling_le_iff)
  then have n53: "\<bar>n\<bar> \<le> 2 ^ 53" "n < 2 ^ 31" using i(3) by simp_all
  have y0: "0 < rnd64 q" using y(1) n(1) by (simp add: le_less_trans [of 0 "of_int n - 1"])
  have "(of_int n :: rat) < 2 ^ 1024"
  proof -
    have "(of_int n :: rat) < of_int (2 ^ 31)" using n53(2) unfolding of_int_less_iff .
    also have "\<dots> = 2 ^ 31" by simp
    also have "\<dots> < 2 ^ 1024" by (rule power_strict_increasing) simp_all
    finally show ?thesis .
  qed
  then have "rnd64 q < 2 ^ 1024" using y(2) by (rule le_less_trans [rotated])
  then have "\<not> 2 ^ 1024 \<le> rnd64 q" by (simp only: not_le)
  moreover have "\<not> rnd64 q \<le> - (2 ^ 1024)"
  proof -
    have "- (2 ^ 1024) < (0 :: rat)" unfolding neg_less_0_iff_less by (rule zero_less_power) simp
    from this y0 have "- (2 ^ 1024) < rnd64 q" by (rule order.strict_trans)
    then show ?thesis by (simp only: not_le)
  qed
  ultimately have "dround q = Fin (rnd64 q)" using y0 by (simp only: dround_def' Let_def if_False) simp
  moreover have "d_of_nat step / d_of_nat cur = dround q"
    using assms by (simp add: d_of_int_small q_def)
  moreover have "\<lceil>rnd64 q\<rceil> = n" using y by (intro ceiling_unique) auto
  ultimately show ?thesis using n n53 y0 unfolding reduce_factor_def n_def [symmetric]
    by (simp add: d_of_int_small d_to_int_def rtrunc_def)
qed

section \<open>The loops\<close>

lemma unknown_row_ok:
  assumes "dpos + n \<le> length buf"
  shows "\<exists>buf'. unknown_row n (buf, dpos) = Inr (buf', dpos + n) \<and> length buf' = length buf \<and>
     (\<forall>p < length buf. buf' ! p = (if dpos \<le> p \<and> p < dpos + n then NaN else buf ! p))"
  using assms
proof (induction n arbitrary: buf dpos)
  case (Suc n)
  then have d: "dpos + 1 + n \<le> length (buf[dpos := NaN])" "dpos < length buf" by simp_all
  from Suc.IH [OF d(1)] obtain buf' where b: "unknown_row n (buf[dpos := NaN], dpos + 1) = Inr (buf', dpos + 1 + n)" "length buf' = length buf"
      "\<forall>p < length buf. buf' ! p = (if dpos + 1 \<le> p \<and> p < dpos + 1 + n then NaN else buf[dpos := NaN] ! p)" by auto
  have "buf' ! p = (if dpos \<le> p \<and> p < dpos + Suc n then NaN else buf ! p)" if "p < length buf" for p
    using b(3) that d(2) by (cases "p = dpos") auto
  with b(1,2) d(2) show ?case by simp
qed auto

text \<open>The columns of a row: what is written never stands where a later column is read.\<close>

lemma reduce_cols_ok:
  assumes "dpos \<le> src + c" and "c + m = ds" and "0 < k" and "src + k * ds \<le> length buf"
  shows "\<exists>buf'. reduce_cols cf k ds [c ..< ds] src (buf, dpos) = Inr (buf', dpos + m) \<and> length buf' = length buf \<and>
     (\<forall>p < length buf. buf' ! p =
        (if dpos \<le> p \<and> p < dpos + m then combine cf (map (\<lambda>i. buf ! (src + i * ds + (c + (p - dpos)))) [0 ..< k]) else buf ! p))"
  using assms
proof (induction m arbitrary: c dpos buf)
  case 0
  then show ?case by auto
next
  case (Suc m)
  define v where "v = combine cf (map (\<lambda>i. buf ! (src + i * ds + c)) [0 ..< k])"
  let ?b = "buf[dpos := v]"
  have "src + (k - 1) * ds + c < src + k * ds" using Suc.prems(2,3) by (cases k) auto
  then have fits: "src + (k - 1) * ds + c < length buf" using Suc.prems(4) by simp
  then have "dpos < length buf" using Suc.prems(1) by simp
  then have step: "reduce_cols cf k ds [c ..< ds] src (buf, dpos) = reduce_cols cf k ds [Suc c ..< ds] src (?b, dpos + 1)"
    using fits Suc.prems(2) by (simp add: upt_conv_Cons v_def)
  obtain buf' where b: "reduce_cols cf k ds [Suc c ..< ds] src (?b, dpos + 1) = Inr (buf', dpos + 1 + m)" "length buf' = length buf"
      "\<forall>p < length buf. buf' ! p = (if dpos + 1 \<le> p \<and> p < dpos + 1 + m
         then combine cf (map (\<lambda>i. ?b ! (src + i * ds + (Suc c + (p - (dpos + 1))))) [0 ..< k]) else ?b ! p)"
    using Suc.IH [of "dpos + 1" "Suc c" ?b] Suc.prems by auto
  have keep: "?b ! (src + i * ds + (Suc c + q)) = buf ! (src + i * ds + (Suc c + q))" for i q
    using Suc.prems(1) by (subst nth_list_update_neq) auto
  have "buf' ! p = (if dpos \<le> p \<and> p < dpos + Suc m then combine cf (map (\<lambda>i. buf ! (src + i * ds + (c + (p - dpos)))) [0 ..< k]) else buf ! p)"
    if p: "p < length buf" for p
  proof (cases "dpos < p \<and> p < dpos + Suc m")
    case True
    then have "Suc c + (p - (dpos + 1)) = c + (p - dpos)" by linarith
    note col = this
    have "buf' ! p = combine cf (map (\<lambda>i. ?b ! (src + i * ds + (Suc c + (p - (dpos + 1))))) [0 ..< k])" using True b(3) p by simp
    then show ?thesis unfolding keep unfolding col using True by simp
  next
    case False
    with b(3) p show ?thesis by (cases "p = dpos") (auto simp: v_def)
  qed
  with step b(1,2) show ?case by simp
qed

lemma reduce_rows_ok:
  assumes "dpos \<le> src" and "0 < k" and "src + n * (k * ds) \<le> length buf"
  shows "\<exists>buf'. reduce_rows cf k ds n src (buf, dpos) = Inr (buf', dpos + n * ds) \<and> length buf' = length buf \<and>
     (\<forall>p < dpos. buf' ! p = buf ! p) \<and>
     (\<forall>j < n. \<forall>c < ds. buf' ! (dpos + j * ds + c) = combine cf (map (\<lambda>i. buf ! (src + (j * k + i) * ds + c)) [0 ..< k]))"
  using assms
proof (induction n arbitrary: src dpos buf)
  case 0
  then show ?case by simp
next
  case (Suc n)
  have len: "src + k * ds \<le> length buf" using Suc.prems(3) by simp
  from reduce_cols_ok [of dpos src 0 ds ds k buf cf] Suc.prems len obtain buf1 where
    b1: "reduce_cols cf k ds [0 ..< ds] src (buf, dpos) = Inr (buf1, dpos + ds)" "length buf1 = length buf"
      "\<forall>p < length buf. buf1 ! p = (if dpos \<le> p \<and> p < dpos + ds then combine cf (map (\<lambda>i. buf ! (src + i * ds + (p - dpos))) [0 ..< k]) else buf ! p)"
    by auto
  have "1 * ds \<le> k * ds" using Suc.prems(2) by (intro mult_le_mono1) simp
  then have d2: "dpos + ds \<le> src + ds * k" using Suc.prems(1) by (metis add_mono mult.commute mult_1)
  from Suc.IH [OF this Suc.prems(2), of buf1] Suc.prems(3) b1(2) obtain buf2 where
    b2: "reduce_rows cf k ds n (src + ds * k) (buf1, dpos + ds) = Inr (buf2, dpos + ds + n * ds)" "length buf2 = length buf"
      "\<forall>p < dpos + ds. buf2 ! p = buf1 ! p"
      "\<forall>j < n. \<forall>c < ds. buf2 ! (dpos + ds + j * ds + c) = combine cf (map (\<lambda>i. buf1 ! (src + ds * k + (j * k + i) * ds + c)) [0 ..< k])"
    by (auto simp: algebra_simps)
  have far: "buf1 ! p = buf ! p" if "src + ds * k \<le> p" "p < length buf" for p
    using b1(3) that d2 by auto
  have "buf2 ! (dpos + j * ds + c) = combine cf (map (\<lambda>i. buf ! (src + (j * k + i) * ds + c)) [0 ..< k])" if j: "j < Suc n" and c: "c < ds" for j c
  proof (cases j)
    case 0
    have "dpos + c < length buf" using c d2 len by (simp add: mult.commute)
    with 0 c b2(3) b1(3) show ?thesis by simp
  next
    case (Suc j')
    have "src + (j * k + i) * ds + c < length buf" if "i < k" for i
    proof -
      have "j * k + i + 1 \<le> Suc n * k"
      proof -
        have "j * k + i + 1 \<le> Suc j * k" using that by simp
        also have "\<dots> \<le> Suc n * k" using j by (intro mult_le_mono1) simp
        finally show ?thesis .
      qed
      then have "(j * k + i + 1) * ds \<le> Suc n * k * ds" by (rule mult_le_mono1)
      then show ?thesis using Suc.prems(3) c by (simp add: algebra_simps)
    qed
    then have "map (\<lambda>i. buf1 ! (src + ds * k + (j' * k + i) * ds + c)) [0 ..< k] = map (\<lambda>i. buf ! (src + (j * k + i) * ds + c)) [0 ..< k]"
      using Suc by (intro map_cong refl) (auto simp: far algebra_simps)
    moreover have "buf2 ! (dpos + ds + j' * ds + c) = combine cf (map (\<lambda>i. buf1 ! (src + ds * k + (j' * k + i) * ds + c)) [0 ..< k])"
      using b2(4) Suc j c by simp
    moreover have "dpos + j * ds + c = dpos + ds + j' * ds + c" by (simp add: Suc)
    ultimately show ?thesis by (simp only:)
  qed
  moreover have "buf2 ! p = buf ! p" if "p < dpos" for p
    using that b2(3) b1(3) Suc.prems(1) len by simp
  ultimately show ?case using b1(1) b2(1,2) by (auto simp: algebra_simps)
qed

section \<open>The whole reduction\<close>

lemma s64_of_nat: "n < 2 ^ 62 \<Longrightarrow> s64 (int n) = int n"
  by (rule s64_id) auto

text \<open>
  In units of the current step the window runs from \<open>x\<close> to \<open>y\<close>; \<open>P\<close> is the first boundary of the new step in it and \<open>q\<close> the last.
\<close>

lemma reduce_data_loops:
  assumes k: "reduce_factor cur step = int k" "1 < k" and c: "0 < cur" "cur * k * (q + 2) < 2 ^ 62"
    and x: "x = k * p + X" "X < k" and y: "y = k * q + Y" "Y < k" and P: "P = (if X = 0 then p else p + 1)" "P \<le> q"
  shows "reduce_data cf cur (int (cur * x)) (int (cur * y)) step ds buf =
    (case (if X \<noteq> 0 then unknown_row ds (buf, 0) else Inr (buf, 0)) of Inl e \<Rightarrow> Inl e
     | Inr bd \<Rightarrow>
        (case reduce_rows cf k ds (q - P) ((P * k - x) * ds) bd of Inl e \<Rightarrow> Inl e
         | Inr bd \<Rightarrow>
            (case (if Y \<noteq> 0 then unknown_row ds bd else Inr bd) of Inl e \<Rightarrow> Inl e
             | Inr (buf, _) \<Rightarrow> Inr (int (cur * k * p), int (cur * k * (if Y = 0 then q else q + 1)), cur * k, buf))))"
proof -
  define st where "st = cur * k"
  define skip where "skip = P * k - x"
  have skip: "P * k = x + skip" "skip = (if X = 0 then 0 else k - X)" "skip < k"
    using x P k(2) by (auto simp: skip_def algebra_simps)
  have "P * k \<le> q * k" using P(2) by (rule mult_le_mono1)
  then have rows: "y - x - skip = (q - P) * k + Y" "x + skip \<le> y" "x \<le> y" "Y \<le> y - x - skip" "skip \<le> y - x"
    using skip(1) y(1) by (simp_all add: diff_mult_distrib algebra_simps)
  have "y \<le> k * (q + 2)" using y by simp
  then have "cur * y \<le> cur * (k * (q + 2))" by (rule mult_le_mono2)
  then have small: "cur * y < 2 ^ 62" using c(2) by (metis le_less_trans mult.assoc)
  have "cur * x \<le> cur * y" using rows(3) by simp
  from this small have small': "cur * x < 2 ^ 62" by (rule le_less_trans)
  have st: "st * (q + 2) < 2 ^ 62" "0 < st" using c k(2) by (simp_all add: st_def)
  have "st * 1 \<le> st * (q + 2)" by (rule mult_le_mono2) simp
  then have st62: "st < 2 ^ 62" using st(1) unfolding mult_1_right by (rule le_less_trans)
  have ux: "u64 (int (cur * x)) mod st = cur * X"
  proof -
    have "cur * x = st * p + cur * X" by (simp add: x st_def algebra_simps)
    moreover have "cur * X < st" using x(2) c(1) by (simp add: st_def)
    ultimately have "(cur * x) mod st = cur * X" by simp
    with small' show ?thesis by (subst u64_of_nat) simp_all
  qed
  have uy: "u64 (int (cur * y)) mod st = cur * Y"
  proof -
    have "cur * y = st * q + cur * Y" by (simp add: y st_def algebra_simps)
    moreover have "cur * Y < st" using y(2) c(1) by (simp add: st_def)
    ultimately have "(cur * y) mod st = cur * Y" by simp
    with small show ?thesis by (subst u64_of_nat) simp_all
  qed
  have urows: "u64 (int (cur * y) - int (cur * x)) div cur = y - x"
  proof -
    have "int (cur * y) - int (cur * x) = int (cur * (y - x))" using rows(3) by (simp add: of_nat_diff right_diff_distrib)
    moreover have "cur * (y - x) < 2 ^ 64" using small by (simp add: diff_mult_distrib2)
    ultimately show ?thesis using c(1) by (simp only: u64_of_nat) simp
  qed
  have "y \<le> cur * y" using c(1) by simp
  from this small have y62: "y < 2 ^ 62" by (rule le_less_trans)
  have kst: "k \<le> st" using c(1) by (simp add: st_def)
  have uskip: "u64 (int k - int (cur * X div cur)) = skip" if "X \<noteq> 0"
    using that skip x(2) kst st62 c(1) by (simp add: of_nat_diff [symmetric] del: of_nat_diff)
  have u1: "u64 (int (y - x) - int skip) = y - x - skip"
    using rows(5) y62 by (simp only: of_nat_diff [symmetric]) (subst u64_of_nat; simp)
  have u2: "u64 (int (y - x - skip) - int (cur * Y div cur)) = (q - P) * k"
  proof -
    have "int (y - x - skip) - int (cur * Y div cur) = int ((q - P) * k)" using rows(1) c(1) by simp
    moreover have "(q - P) * k < 2 ^ 64" using rows(1) y62 by simp
    ultimately show ?thesis by (simp only: u64_of_nat)
  qed
  have start: "s64 (int (cur * x) - int (cur * X)) = int (st * p)"
  proof -
    have "int (cur * x) - int (cur * X) = int (st * p)" by (simp add: x st_def algebra_simps)
    moreover have "st * p \<le> cur * x" by (simp add: x st_def algebra_simps)
    ultimately show ?thesis using small' by (simp only: s64_of_nat [OF le_less_trans])
  qed
  have fin: "s64 (int (cur * y) - int (cur * Y) + int st) = int (st * (q + 1))"
  proof -
    have "int (cur * y) - int (cur * Y) + int st = int (st * (q + 1))" by (simp add: y st_def algebra_simps)
    moreover have "st * (q + 1) \<le> st * (q + 2)" by (rule mult_le_mono2) simp
    ultimately show ?thesis using st(1) by (simp only: s64_of_nat [OF le_less_trans])
  qed
  have n62: "(q - P) * k < 2 ^ 62" using rows(1) y62 by simp
  have cnt: "(if int k \<le> s64 (int ((q - P) * k)) then (q - P) * k div k else 0) = q - P"
    using n62 k(2) by (subst s64_of_nat) (auto simp: not_le)
  have ust: "u64 (int cur * int k) = st" using st62 by (simp only: st_def of_nat_mult [symmetric]) (subst u64_of_nat; simp)
  have uk: "u64 (int k) = k" using kst st62 by simp
  have cX: "cur * X \<noteq> 0 \<longleftrightarrow> X \<noteq> 0" "cur * Y \<noteq> 0 \<longleftrightarrow> Y \<noteq> 0" using c(1) by simp_all
  have sk: "(if X \<noteq> 0 then u64 (int k - int (cur * X div cur)) else 0) = skip" using uskip skip(2) by auto
  have s': "(if X \<noteq> 0 then s64 (int (cur * x) - int (cur * X)) else int (cur * x)) = int (st * p)"
    unfolding start by (simp add: x st_def algebra_simps)
  have e': "(if Y \<noteq> 0 then s64 (int (cur * y) - int (cur * Y) + int st) else int (cur * y)) = int (st * (if Y = 0 then q else q + 1))"
    unfolding fin by (simp add: y st_def algebra_simps)
  have r': "(if Y \<noteq> 0 then u64 (int (y - x - skip) - int (cur * Y div cur)) else y - x - skip) = (q - P) * k"
    unfolding u2 using rows(1) by simp
  have c0: "cur \<noteq> 0" "st \<noteq> 0" using c(1) st(2) by simp_all
  show ?thesis
    unfolding reduce_data_def Let_def k(1) ust ux uy cX urows sk u1 r' s' e' uk nat_int cnt st_def [symmetric] skip_def [symmetric]
    using c0 by (simp only: mod_mult_self2_is_0 simp_thms if_False)
qed

lemma factor_gt_1:
  assumes "0 < cur" and "cur < (step :: nat)"
  shows "1 < (step + cur - 1) div cur"
proof -
  have "2 * cur \<le> step + cur - 1" using assms by simp
  then have "2 * cur div cur \<le> (step + cur - 1) div cur" by (rule div_le_mono)
  then show ?thesis using assms(1) by simp
qed

lemma ceil_div:
  assumes "0 < (k :: nat)"
  shows "(y + k - 1) div k = (if y mod k = 0 then y div k else y div k + 1)"
proof -
  define q r where "q = y div k" and "r = y mod k"
  have y: "y = q * k + r" "r < k" using assms by (simp_all add: q_def r_def)
  have e: "y + k - 1 = (if r = 0 then (k - 1) + q * k else (r - 1) + (q + 1) * k)" using y assms by auto
  have d: "((k - 1) + q * k) div k = q" "((r - 1) + (q + 1) * k) div k = q + 1"
    using y(2) assms by (simp_all only: div_mult_self1) simp_all
  show ?thesis unfolding e q_def [symmetric] r_def [symmetric] using d by (cases "r = 0") (simp_all only: if_True if_False refl)
qed

section \<open>What a reduced value is\<close>

lemma combine_count: "snd (fold (combine_value cf) xs (v, n)) = n + length (known xs)"
  by (induction xs arbitrary: v n) (auto simp: combine_value_def known_def)

lemma combine_alt:
  "combine cf xs = (if known xs = [] then NaN else
     (let v = fst (fold (combine_value cf) xs (NaN, 0)) in if sums_up cf then v / d_of_nat (length (known xs)) else v))"
  using combine_count [of cf xs NaN 0] by (cases "fold (combine_value cf) xs (NaN, 0)") (auto simp: combine_def)

lemma combine_last: "combine CF_LAST xs = (if known xs = [] then NaN else last (known xs))"
proof -
  have "fst (fold (combine_value CF_LAST) xs (v, n)) = (if known xs = [] then v else last (known xs))" for v n
    by (induction xs arbitrary: v n) (auto simp: combine_value_def known_def sums_up_def)
  then show ?thesis by (simp add: combine_alt sums_up_def)
qed

text \<open>A function that selects one of two values, the larger in the sense of \<open>R\<close>.\<close>

lemma combine_select:
  assumes cv: "\<And>v x n. \<not> isnan x \<Longrightarrow> combine_value cf x (v, n) = (if isnan v then x else sel v x, n + 1)"
    and sel: "\<And>v x. \<not> isnan v \<Longrightarrow> \<not> isnan x \<Longrightarrow> sel v x \<in> {v, x} \<and> R v (sel v x) \<and> R x (sel v x)"
    and refl: "\<And>v. \<not> isnan v \<Longrightarrow> R v v" and trans: "\<And>u v w. R u v \<Longrightarrow> R v w \<Longrightarrow> R u w"
    and ne: "known xs \<noteq> []" and r: "r = fst (fold (combine_value cf) xs (NaN, 0))"
  shows "r \<in> set (known xs) \<and> (\<forall>y \<in> set (known xs). R y r)"
proof -
  have inner: "fst (fold (combine_value cf) ys (v, n)) \<in> insert v (set (known ys)) \<and>
      (\<forall>y \<in> insert v (set (known ys)). R y (fst (fold (combine_value cf) ys (v, n))))" if "\<not> isnan v" for ys v n
    using that
  proof (induction ys arbitrary: v n)
    case Nil
    then show ?case by (simp add: known_def refl)
  next
    case (Cons y ys)
    show ?case
    proof (cases "isnan y")
      case True
      with Cons show ?thesis by (simp add: combine_value_def known_def)
    next
      case False
      let ?w = "sel v y"
      have w: "?w \<in> {v, y}" "R v ?w" "R y ?w" using sel [OF Cons.prems False] by auto
      then have "\<not> isnan ?w" using Cons.prems False by auto
      note ih = Cons.IH [OF this, of "n + 1"]
      have step: "fold (combine_value cf) (y # ys) (v, n) = fold (combine_value cf) ys (?w, n + 1)" using Cons.prems False by (simp add: cv)
      let ?r = "fst (fold (combine_value cf) ys (?w, n + 1))"
      have k: "set (known (y # ys)) = insert y (set (known ys))" using False by (simp add: known_def)
      have "R ?w ?r" using ih by blast
      then have "R v ?r" "R y ?r" using trans [OF w(2)] trans [OF w(3)] by blast+
      moreover have "?r \<in> insert v (insert y (set (known ys)))" using ih w(1) by (metis insert_iff singletonD)
      ultimately show ?thesis unfolding step k using ih by (metis insert_iff)
    qed
  qed
  have "fst (fold (combine_value cf) ys (NaN, n)) \<in> set (known ys) \<and> (\<forall>y \<in> set (known ys). R y (fst (fold (combine_value cf) ys (NaN, n))))"
    if "known ys \<noteq> []" for ys n
    using that
  proof (induction ys arbitrary: n)
    case (Cons y ys)
    show ?case
    proof (cases "isnan y")
      case True
      with Cons show ?thesis by (simp add: combine_value_def known_def)
    next
      case False
      with inner [OF False, of ys "n + 1"] show ?thesis by (simp add: cv known_def)
    qed
  qed (simp add: known_def)
  from this [OF ne, of 0] r show ?thesis by simp
qed

lemma combine_maximum:
  assumes "cf = CF_MAXIMUM \<or> cf = CF_FAILURES" and "known xs \<noteq> []"
  shows "combine cf xs \<in> set (known xs) \<and> (\<forall>y \<in> set (known xs). y \<le> combine cf xs)"
proof -
  let ?sel = "\<lambda>v x :: dbl. if x < v then v else x"
  have "combine cf xs = fst (fold (combine_value cf) xs (NaN, 0))" using assms by (auto simp: combine_alt sums_up_def)
  then show ?thesis
    by (rule combine_select [where sel = ?sel and R = "(\<le>)", rotated -1])
      (use assms dbl_le_trans in \<open>auto simp: combine_value_def sums_up_def isnan_def dbl_not_less dbl_less_imp_le\<close>)
qed

lemma combine_minimum:
  assumes "known xs \<noteq> []"
  shows "combine CF_MINIMUM xs \<in> set (known xs) \<and> (\<forall>y \<in> set (known xs). combine CF_MINIMUM xs \<le> y)"
proof -
  let ?sel = "\<lambda>v x :: dbl. if v < x then v else x"
  have "combine CF_MINIMUM xs = fst (fold (combine_value CF_MINIMUM) xs (NaN, 0))" using assms by (auto simp: combine_alt sums_up_def)
  then show ?thesis
    by (rule combine_select [where sel = ?sel and R = "\<lambda>a b. b \<le> a", rotated -1])
      (use assms dbl_le_trans in \<open>auto simp: combine_value_def sums_up_def isnan_def dbl_not_less dbl_less_imp_le\<close>)
qed

lemma combine_average:
  assumes "list_all (small_int n) xs" and "length xs \<le> n" and "known xs \<noteq> []"
  shows "combine CF_AVERAGE xs = average_value xs"
proof -
  have "fst (fold (combine_value CF_AVERAGE) ys (v, m)) = Fin (of_int (known_sum (zs @ ys)))"
    if "v = (if known zs = [] then NaN else Fin (of_int (known_sum zs)))" "list_all (small_int n) (zs @ ys)" "length (zs @ ys) \<le> n" "known (zs @ ys) \<noteq> []" for ys zs v m
    using that
  proof (induction ys arbitrary: zs v m)
    case Nil
    then show ?case by simp
  next
    case (Cons y ys)
    define w where "w = (if isnan y then v else if isnan v then y else v + y)"
    have s: "\<bar>known_sum (zs @ [y])\<bar> \<le> 2 ^ 53" using Cons.prems(2,3) by (intro known_sum_bound [of n]) auto
    have y: "isnan y \<or> y = Fin (of_int (int_of y))" using Cons.prems(2) by (auto simp: small_int_def)
    have w: "w = (if known (zs @ [y]) = [] then NaN else Fin (of_int (known_sum (zs @ [y]))))"
    proof (cases "isnan y")
      case True
      then show ?thesis using Cons.prems(1) by (simp add: w_def known_def known_sum_def)
    next
      case False
      with y obtain i where i: "y = Fin (of_int i)" "int_of y = i" by (auto simp: int_of_def)
      have "known_sum (zs @ [y]) = known_sum zs + i" using False i(2) by (simp add: known_sum_def known_def)
      with dround_int [OF s] have "dround (of_int (known_sum zs) + of_int i) = Fin (of_int (known_sum (zs @ [y])))" by simp
      with False i Cons.prems(1) show ?thesis by (cases "known zs = []") (simp_all add: w_def known_sum_def known_def isnan_def)
    qed
    define m' where "m' = (if isnan y then m else m + 1)"
    have "combine_value CF_AVERAGE y (v, m) = (w, m')" by (simp add: combine_value_def w_def m'_def sums_up_def)
    with Cons.IH [OF w, of m'] Cons.prems(2-4) show ?case by simp
  qed
  from this [of NaN "[]" xs 0] assms have "fst (fold (combine_value CF_AVERAGE) xs (NaN, 0)) = Fin (of_int (known_sum xs))"
    by (simp add: known_def)
  moreover have len: "d_of_nat (length (known xs)) = Fin (of_nat (length (known xs)))"
  proof -
    have "int n \<le> 2 ^ 53" using assms(1,3) by (cases xs) (auto simp: small_int_def known_def)
    moreover have "length (known xs) \<le> n" using assms(2) by (simp add: known_length)
    ultimately show ?thesis using d_of_int_small [of "int (length (known xs))"] by simp
  qed
  ultimately have "combine CF_AVERAGE xs = Fin (of_int (known_sum xs)) / Fin (of_nat (length (known xs)))"
    using assms(3) by (simp add: combine_alt sums_up_def)
  then show ?thesis using assms(3)
    by (cases "known_sum xs = 0") (simp_all add: average_value_def divide_dbl_def isnan_def isinf_def)
qed

section \<open>The rows of the result\<close>

text \<open>
  The window in units of the old step, cut at the boundaries of the new step: \<open>k * p\<close> is the last one at or before \<open>x\<close>, \<open>k * P\<close> the
  first at or behind it, \<open>k * q\<close> the last one at or before \<open>y\<close>.
\<close>

definition cut_window :: "nat \<Rightarrow> nat \<Rightarrow> nat \<Rightarrow> nat \<Rightarrow> nat \<Rightarrow> nat \<Rightarrow> nat \<Rightarrow> nat \<Rightarrow> bool" where
  "cut_window k x y p X q Y P \<longleftrightarrow>
     1 < k \<and> x = k * p + X \<and> X < k \<and> y = k * q + Y \<and> Y < k \<and> P = (if X = 0 then p else p + 1) \<and> P \<le> q"

lemma cut_window_rows:
  assumes "cut_window k x y p X q Y P"
  shows "P * k = x + (P * k - x)" and "P - p = (if X = 0 then 0 else 1)" and "P - p \<le> P * k - x" and "y - x = (P * k - x) + (q - P) * k + Y"
    and "P - p + (q - P) = q - p" and "P - p + (q - P) + (if Y = 0 then 0 else 1) \<le> y - x" and "(if Y = 0 then q - p else q + 1 - p) \<le> y - x"
    and "q - p \<le> (if Y = 0 then q - p else q + 1 - p)"
proof -
  note c = assms [unfolded cut_window_def]
  show s: "P * k = x + (P * k - x)" "P - p = (if X = 0 then 0 else 1)" "P - p \<le> P * k - x" using c by (auto simp: algebra_simps)
  have "P * k + (q - P) * k = q * k" using c by (simp flip: distrib_right)
  moreover have "y = q * k + Y" using c by (simp add: mult.commute)
  ultimately have "y = x + ((P * k - x) + (q - P) * k + Y)" using s(1) by linarith
  then show rows: "y - x = (P * k - x) + (q - P) * k + Y" by (metis add_diff_cancel_left')
  show pq: "P - p + (q - P) = q - p" using c by auto
  have "(q - P) * 1 \<le> (q - P) * k" using c by (intro mult_le_mono2) simp
  then have "P - p + (q - P) \<le> P * k - x + (q - P) * k" using s(3) unfolding mult_1_right by (rule add_mono [rotated])
  moreover have "a + (if Y = 0 then 0 else 1) \<le> b + Y" if "a \<le> b" for a b using that by auto
  ultimately show need: "P - p + (q - P) + (if Y = 0 then 0 else 1) \<le> y - x" unfolding rows by blast
  have "p \<le> q" using c by (auto split: if_splits)
  then show "(if Y = 0 then q - p else q + 1 - p) \<le> y - x" "q - p \<le> (if Y = 0 then q - p else q + 1 - p)"
    using need pq by (auto simp: Suc_diff_le split: if_splits)
qed

text \<open>The unknown row in front, if there is one.\<close>

lemma unknown_front:
  assumes "(if z then ds else 0) \<le> length buf"
  shows "\<exists>buf'. (if z then unknown_row ds (buf, 0) else Inr (buf, 0)) = Inr (buf', if z then ds else 0) \<and> length buf' = length buf \<and>
     (\<forall>i < length buf. buf' ! i = (if i < (if z then ds else 0) then NaN else buf ! i))"
  using unknown_row_ok [of 0 ds buf] assms by (cases z) auto

lemma unknown_back:
  assumes "dp + (if z then ds else 0) \<le> length buf"
  shows "\<exists>buf'. (if z then unknown_row ds (buf, dp) else Inr (buf, dp)) = Inr (buf', dp + (if z then ds else 0)) \<and> length buf' = length buf \<and>
     (\<forall>i < length buf. buf' ! i = (if dp \<le> i \<and> i < dp + ds \<and> z then NaN else buf ! i))"
  using unknown_row_ok [of dp ds buf] assms by (cases z) auto

lemma reduced_value:
  assumes w: "cut_window k x y p X q Y P" and len: "(y - x) * ds \<le> length buf" and m: "m < q - P" and c: "c < ds"
    and same: "\<forall>i < length buf. (P * k - x) * ds \<le> i \<longrightarrow> buf1 ! i = buf ! i"
  shows "map (\<lambda>i. buf1 ! ((P * k - x) * ds + (m * k + i) * ds + c)) [0 ..< k] = map (\<lambda>i. buf ! (((P + m) * k + i - x) * ds + c)) [0 ..< k]"
proof (intro map_cong refl)
  fix i assume "i \<in> set [0 ..< k]"
  then have "m * k + i + 1 \<le> Suc m * k" by simp
  also have "\<dots> \<le> (q - P) * k" using m by (intro mult_le_mono1) simp
  finally have "(m * k + i + 1) * ds \<le> (q - P) * k * ds" by (rule mult_le_mono1)
  then have "(P * k - x) * ds + (m * k + i) * ds + c < ((P * k - x) + (q - P) * k + Y) * ds" using c by (simp add: algebra_simps)
  then have "(P * k - x) * ds + (m * k + i) * ds + c < length buf" using len unfolding cut_window_rows(4) [OF w] by (rule less_le_trans)
  moreover have "(P * k - x) * ds + (m * k + i) * ds + c = ((P + m) * k + i - x) * ds + c"
  proof -
    have "(P + m) * k + i - x = (P * k - x) + (m * k + i)" using cut_window_rows(1) [OF w] by (simp add: distrib_right)
    then show ?thesis by (simp add: distrib_right)
  qed
  ultimately show "buf1 ! ((P * k - x) * ds + (m * k + i) * ds + c) = buf ! (((P + m) * k + i - x) * ds + c)" using same by simp
qed

lemma reduce_rows_stages:
  assumes w: "cut_window k x y p X q Y P" and len: "(y - x) * ds \<le> length buf"
  shows "\<exists>buf1 buf2 buf3. (if X \<noteq> 0 then unknown_row ds (buf, 0) else Inr (buf, 0)) = Inr (buf1, (P - p) * ds) \<and>
     reduce_rows cf k ds (q - P) ((P * k - x) * ds) (buf1, (P - p) * ds) = Inr (buf2, (q - p) * ds) \<and>
     (if Y \<noteq> 0 then unknown_row ds (buf2, (q - p) * ds) else Inr (buf2, (q - p) * ds)) = Inr (buf3, (q - p) * ds + (if Y \<noteq> 0 then ds else 0)) \<and>
     length buf3 = length buf \<and> (if Y = 0 then q - p else q + 1 - p) * ds \<le> length buf \<and>
     (\<forall>c < ds. X \<noteq> 0 \<longrightarrow> buf3 ! c = NaN) \<and> (\<forall>c < ds. Y \<noteq> 0 \<longrightarrow> buf3 ! ((q - p) * ds + c) = NaN) \<and>
     (\<forall>m < q - P. \<forall>c < ds. buf3 ! ((P - p + m) * ds + c) = combine cf (map (\<lambda>i. buf ! (((P + m) * k + i - x) * ds + c)) [0 ..< k]))"
proof -
  note r = cut_window_rows [OF w]
  have all: "(if Y = 0 then q - p else q + 1 - p) * ds \<le> length buf" using mult_le_mono1 [OF r(7), of ds] len by (rule order_trans)
  have some: "(q - p) * ds \<le> length buf" using mult_le_mono1 [OF r(8), of ds] all by (rule order_trans)
  have rear: "(q - p) * ds + (if Y \<noteq> 0 then ds else 0) \<le> length buf"
    using all r(5) w by (cases "Y = 0") (auto simp: cut_window_def Suc_diff_le split: if_splits)
  have front: "(if X \<noteq> 0 then ds else 0) = (P - p) * ds" using r(2) by simp
  have pos: "(P - p) * ds + (q - P) * ds = (q - p) * ds" by (simp add: r(5) [symmetric] distrib_right)
  then have "(P - p) * ds \<le> length buf" using some by linarith
  from unknown_front [of "X \<noteq> 0" ds buf, unfolded front, OF this] obtain buf1 where
    b1: "(if X \<noteq> 0 then unknown_row ds (buf, 0) else Inr (buf, 0)) = Inr (buf1, (P - p) * ds)" "length buf1 = length buf"
      "\<forall>i < length buf. buf1 ! i = (if i < (P - p) * ds then NaN else buf ! i)" by blast
  have src: "(P - p) * ds \<le> (P * k - x) * ds" using r(3) by (rule mult_le_mono1)
  have "(P * k - x) * ds + (q - P) * (k * ds) \<le> (y - x) * ds" by (simp add: r(4) algebra_simps)
  then have fit: "(P * k - x) * ds + (q - P) * (k * ds) \<le> length buf1" using len b1(2) by simp
  from reduce_rows_ok [OF src _ fit, of cf] w obtain buf2 where
    b2: "reduce_rows cf k ds (q - P) ((P * k - x) * ds) (buf1, (P - p) * ds) = Inr (buf2, (q - p) * ds)" "length buf2 = length buf1"
      "\<forall>i < (P - p) * ds. buf2 ! i = buf1 ! i"
      "\<forall>j < q - P. \<forall>c < ds. buf2 ! ((P - p) * ds + j * ds + c) = combine cf (map (\<lambda>i. buf1 ! ((P * k - x) * ds + (j * k + i) * ds + c)) [0 ..< k])"
    unfolding pos by (auto simp: cut_window_def)
  from unknown_back [of "(q - p) * ds" "Y \<noteq> 0" ds buf2] rear b1(2) b2(2) obtain buf3 where
    b3: "(if Y \<noteq> 0 then unknown_row ds (buf2, (q - p) * ds) else Inr (buf2, (q - p) * ds)) = Inr (buf3, (q - p) * ds + (if Y \<noteq> 0 then ds else 0))"
      "length buf3 = length buf" "\<forall>i < length buf. buf3 ! i = (if (q - p) * ds \<le> i \<and> i < (q - p) * ds + ds \<and> Y \<noteq> 0 then NaN else buf2 ! i)"
    by auto
  have before: "buf3 ! i = buf2 ! i" if "i < (q - p) * ds" for i using b3(3) that some by simp
  have mid: "buf3 ! ((P - p + m) * ds + c) = combine cf (map (\<lambda>i. buf ! (((P + m) * k + i - x) * ds + c)) [0 ..< k])"
    if m: "m < q - P" and c: "c < ds" for m c
  proof -
    have "(P - p + m) * ds + c < Suc (P - p + m) * ds" using c by simp
    also have "\<dots> \<le> (q - p) * ds" using m r(5) by (intro mult_le_mono1) simp
    finally have "buf3 ! ((P - p + m) * ds + c) = buf2 ! ((P - p) * ds + m * ds + c)" using before by (simp add: distrib_right)
    moreover have "\<forall>i < length buf. (P * k - x) * ds \<le> i \<longrightarrow> buf1 ! i = buf ! i" using b1(3) src by (metis le_trans not_le)
    ultimately show ?thesis using b2(4) m c reduced_value [OF w len m c] by simp
  qed
  have first: "buf3 ! c = NaN" if "c < ds" "X \<noteq> 0" for c
  proof -
    have c: "c < (P - p) * ds" "c < (q - p) * ds" using that r(2) pos by simp_all
    then show ?thesis using before b2(3) b1(3) some by simp
  qed
  have "buf3 ! ((q - p) * ds + c) = NaN" if "c < ds" "Y \<noteq> 0" for c using that rear b3(3) by simp
  with b1(1) b2(1) b3(1,2) all first mid show ?thesis by blast
qed

section \<open>A window inside one new step\<close>

lemma reduce_data_inside:
  assumes k: "reduce_factor cur step = int k" "1 < k" and c: "0 < cur" "cur * k * (p + 2) < 2 ^ 62"
    and x: "x = k * p + X" "0 < X" and y: "y = k * p + Y" "X \<le> Y" "Y < k" and no: "\<not> k dvd 2 ^ 64"
  shows "reduce_data cf cur (int (cur * x)) (int (cur * y)) step ds buf = Inl ReduceExit"
proof -
  define st where "st = cur * k"
  have bound: "cur * y < 2 ^ 62" "cur * x < 2 ^ 62" "st < 2 ^ 62"
  proof -
    have "y \<le> k * (p + 2)" using y by simp
    then have "cur * y \<le> cur * k * (p + 2)" by (metis mult_le_mono2 mult.assoc)
    then show "cur * y < 2 ^ 62" using c(2) by (rule le_less_trans)
    moreover have "cur * x \<le> cur * y" using x y by simp
    ultimately show "cur * x < 2 ^ 62" by (metis le_less_trans)
    have "st * 1 \<le> st * (p + 2)" by (rule mult_le_mono2) simp
    then show "st < 2 ^ 62" using c(2) unfolding mult_1_right st_def by (rule le_less_trans)
  qed
  have off: "u64 (int (cur * x)) mod st = cur * X" "u64 (int (cur * y)) mod st = cur * Y"
  proof -
    have "cur * x = st * p + cur * X" "cur * y = st * p + cur * Y" by (simp_all add: x y st_def algebra_simps)
    moreover have "cur * X < st" "cur * Y < st" using y c(1) by (simp_all add: st_def)
    ultimately have "(cur * x) mod st = cur * X" "(cur * y) mod st = cur * Y" by simp_all
    then show "u64 (int (cur * x)) mod st = cur * X" "u64 (int (cur * y)) mod st = cur * Y"
      using bound(1,2) by (subst u64_of_nat; simp)+
  qed
  have rows: "u64 (int (cur * y) - int (cur * x)) div cur = Y - X"
  proof -
    have "int (cur * y) - int (cur * x) = int (cur * (Y - X))" using y(2) by (simp add: x y algebra_simps of_nat_diff)
    moreover have "cur * (Y - X) \<le> cur * y" by (intro mult_le_mono2) (simp add: y le_diff_conv)
    then have "cur * (Y - X) < 2 ^ 62" using bound(1) by (rule le_less_trans)
    then have "cur * (Y - X) < 2 ^ 64" by simp
    ultimately show ?thesis using c(1) by (simp only: u64_of_nat) simp
  qed
  have kst: "k \<le> st" using c(1) by (simp add: st_def)
  then have k62: "k < 2 ^ 62" using bound(3) by (rule le_less_trans)
  have skip: "u64 (int k - int (cur * X div cur)) = k - X"
    using y k62 c(1) by (simp add: of_nat_diff [symmetric] del: of_nat_diff)
  have r1: "u64 (int (Y - X) - int (k - X)) = 2 ^ 64 - (k - Y)"
  proof -
    have "int (Y - X) - int (k - X) = int (2 ^ 64 - (k - Y)) - 2 ^ 64" using y k62 by (simp add: of_nat_diff)
    then have "(int (Y - X) - int (k - X)) mod 2 ^ 64 = int (2 ^ 64 - (k - Y)) mod 2 ^ 64" by (simp only: minus_mod_self2)
    also have "\<dots> = int (2 ^ 64 - (k - Y))" using y(3) by (intro mod_pos_pos_trivial) auto
    finally show ?thesis by (simp only: u64_def nat_int)
  qed
  have r2: "u64 (int (2 ^ 64 - (k - Y)) - int (cur * Y div cur)) = 2 ^ 64 - k"
  proof -
    have "int (2 ^ 64 - (k - Y)) - int (cur * Y div cur) = int (2 ^ 64 - k)" using y k62 c(1) by (simp add: of_nat_diff)
    moreover have "(2 :: nat) ^ 64 - k < 2 ^ 64" using k(2) by simp
    ultimately show ?thesis by (simp only: u64_of_nat)
  qed
  have "(2 ^ 64 - k) mod k \<noteq> 0"
  proof
    assume "(2 ^ 64 - k) mod k = 0"
    then have "k dvd 2 ^ 64 - k + k" by (metis dvd_add dvd_refl mod_0_imp_dvd)
    moreover have "(2 :: nat) ^ 64 - k + k = 2 ^ 64" using k62 by (intro le_add_diff_inverse2) simp
    ultimately show False using no by (simp only:)
  qed
  moreover have "u64 (int k) = k" using k62 by simp
  moreover have "cur * X \<noteq> 0" "cur * Y \<noteq> 0" "cur \<noteq> 0" "st \<noteq> 0" using x y c k(2) by (simp_all add: st_def)
  moreover have "u64 (int cur * int k) = st" using bound(3) by (simp only: st_def of_nat_mult [symmetric]) (subst u64_of_nat; simp)
  ultimately show ?thesis
    unfolding reduce_data_def Let_def k(1) by (simp only: off rows skip r1 r2 if_True if_False simp_thms)
qed

section \<open>Properties\<close>

text \<open>
  C20: A reduction to a larger step, in place, of a window that contains a boundary of the new step: the new window is the old
  one extended to boundaries of the new step, its rows fit into the buffer, and each of them is the combination of the
  old rows of its interval, or unknown where the old window covers the interval only in part. The window
  starts and ends at multiples of the old step, the wanted step is larger than the old one and below 2^31, the buffer holds the window,
  and times stay below 2^62.
\<close>

theorem reduce_data_rows:
  assumes "0 < cur" and "cur < step" and "step < 2 ^ 31" and "k = (step + cur - 1) div cur" and "cur * k * (y div k + 2) < 2 ^ 62"
    and "x \<le> y" and "k * ((x + k - 1) div k) \<le> y" and "(y - x) * ds \<le> length buf"
  shows "\<exists>buf'. reduce_data cf cur (int (cur * x)) (int (cur * y)) step ds buf =
      Inr (int (cur * k * (x div k)), int (cur * k * ((y + k - 1) div k)), cur * k, buf') \<and>
    ((y + k - 1) div k - x div k) * ds \<le> length buf' \<and>
    (\<forall>j < (y + k - 1) div k - x div k. \<forall>c < ds. buf' ! (j * ds + c) =
       (let r = (x div k + j) * k
        in if x \<le> r \<and> r + k \<le> y then combine cf (map (\<lambda>i. buf ! ((r + i - x) * ds + c)) [0 ..< k]) else NaN))"
proof -
  define p X q Y P where "p = x div k" and "X = x mod k" and "q = y div k" and "Y = y mod k" and "P = (if X = 0 then p else p + 1)"
  have k: "1 < k" using assms(1,2,4) factor_gt_1 by simp
  have x: "x = k * p + X" "X < k" and y: "y = k * q + Y" "Y < k" using k by (simp_all add: p_def X_def q_def Y_def)
  have up: "(x + k - 1) div k = P" "(y + k - 1) div k = (if Y = 0 then q else q + 1)"
    using ceil_div [of k] k by (simp_all add: P_def X_def p_def Y_def q_def)
  have Pq: "P \<le> q" using assms(7) k unfolding up(1) q_def by (simp add: less_eq_div_iff_mult_less_eq mult.commute)
  have f: "reduce_factor cur step = int k" using reduce_factor_eq [OF assms(1-3)] assms(4) by simp
  have w: "cut_window k x y p X q Y P" using k x y Pq by (simp add: cut_window_def P_def)
  from reduce_rows_stages [OF w assms(8), of cf] obtain buf1 buf2 buf3 where
    b: "(if X \<noteq> 0 then unknown_row ds (buf, 0) else Inr (buf, 0)) = Inr (buf1, (P - p) * ds)"
      "reduce_rows cf k ds (q - P) ((P * k - x) * ds) (buf1, (P - p) * ds) = Inr (buf2, (q - p) * ds)"
      "(if Y \<noteq> 0 then unknown_row ds (buf2, (q - p) * ds) else Inr (buf2, (q - p) * ds)) = Inr (buf3, (q - p) * ds + (if Y \<noteq> 0 then ds else 0))"
      "length buf3 = length buf" "(if Y = 0 then q - p else q + 1 - p) * ds \<le> length buf"
    and rows: "\<forall>c < ds. X \<noteq> 0 \<longrightarrow> buf3 ! c = NaN" "\<forall>c < ds. Y \<noteq> 0 \<longrightarrow> buf3 ! ((q - p) * ds + c) = NaN"
      "\<forall>m < q - P. \<forall>c < ds. buf3 ! ((P - p + m) * ds + c) = combine cf (map (\<lambda>i. buf ! (((P + m) * k + i - x) * ds + c)) [0 ..< k])"
    by blast
  have "reduce_data cf cur (int (cur * x)) (int (cur * y)) step ds buf =
      Inr (int (cur * k * p), int (cur * k * (if Y = 0 then q else q + 1)), cur * k, buf3)"
    unfolding reduce_data_loops [OF f k assms(1) assms(5) [folded q_def] x y P_def Pq] b(1) sum.case b(2) b(3) by simp
  moreover have "buf3 ! (j * ds + c) = (let r = (p + j) * k in if x \<le> r \<and> r + k \<le> y
      then combine cf (map (\<lambda>i. buf ! ((r + i - x) * ds + c)) [0 ..< k]) else NaN)"
    if j: "j < (if Y = 0 then q else q + 1) - p" and c: "c < ds" for j c
  proof -
    consider (first) "j < P - p" | (last) "q - p \<le> j" | (mid) m where "j = P - p + m" "m < q - P"
    proof (cases "j < P - p \<or> q - p \<le> j")
      case False
      then have "j = P - p + (j - (P - p))" "j - (P - p) < q - P" by (auto simp: P_def split: if_splits)
      then show thesis by (rule that(3))
    qed (use that in blast)
    then show ?thesis
    proof cases
      case first
      then have "X \<noteq> 0" "j = 0" "p * k < x" using x by (auto simp: P_def split: if_splits)
      with rows(1) c show ?thesis by simp
    next
      case last
      then have "Y \<noteq> 0" "j = q - p" using j by (auto split: if_splits)
      moreover have "p + j = q" using j last Pq \<open>j = q - p\<close> by (auto simp: P_def split: if_splits)
      then have "y < (p + j) * k + k" using y by simp
      ultimately show ?thesis using rows(2) c by (simp add: Let_def)
    next
      case mid
      have "(p + j) = P + m" using mid(1) by (auto simp: P_def)
      moreover have "x \<le> (P + m) * k"
      proof -
        have "x \<le> P * k" using x by (auto simp: P_def algebra_simps)
        also have "\<dots> \<le> (P + m) * k" by (rule mult_le_mono1) simp
        finally show ?thesis .
      qed
      moreover have "(P + m) * k + k \<le> y"
      proof -
        have "Suc (P + m) * k \<le> q * k" using mid(2) by (intro mult_le_mono1) simp
        then show ?thesis using y(1) by (simp add: mult.commute)
      qed
      ultimately show ?thesis using rows(3) mid c by simp
    qed
  qed
  ultimately show ?thesis using b(4,5) unfolding up p_def [symmetric] by (intro exI [of _ buf3]) (auto split: if_splits)
qed

theorem reduce_data_rows_witness:
  "\<exists>buf'. reduce_data CF_AVERAGE 300 (int (300 * 1)) (int (300 * 5)) 500 1 [Fin 2, Fin 4, Fin 6, NaN] =
      Inr (int (300 * 2 * 0), int (300 * 2 * 3), 600, buf') \<and> buf' ! 1 = combine CF_AVERAGE [Fin 4, Fin 6]"
proof -
  let ?b = "[Fin 2, Fin 4, Fin 6, NaN]"
  have h: "0 < (300 :: nat)" "300 < (500 :: nat)" "(500 :: nat) < 2 ^ 31" "(2 :: nat) = (500 + 300 - 1) div 300" "300 * 2 * (5 div 2 + 2) < (2 :: nat) ^ 62"
      "1 \<le> (5 :: nat)" "2 * ((1 + 2 - 1) div 2) \<le> (5 :: nat)" "(5 - 1) * 1 \<le> length ?b" by simp_all
  obtain buf' where b: "reduce_data CF_AVERAGE 300 (int (300 * 1)) (int (300 * 5)) 500 1 ?b =
        Inr (int (300 * 2 * (1 div 2)), int (300 * 2 * ((5 + 2 - 1) div 2)), 300 * 2, buf')"
    and r: "\<forall>j < (5 + 2 - 1) div 2 - 1 div 2. \<forall>c < 1. buf' ! (j * 1 + c) = (let r = (1 div 2 + j) * 2
        in if 1 \<le> r \<and> r + 2 \<le> 5 then combine CF_AVERAGE (map (\<lambda>i. ?b ! ((r + i - 1) * 1 + c)) [0 ..< 2]) else NaN)"
    using reduce_data_rows [OF h, of CF_AVERAGE] by blast
  have "1 < ((5 :: nat) + 2 - 1) div 2 - 1 div 2" by simp
  from r [rule_format, OF this, of 0] have "buf' ! 1 = combine CF_AVERAGE [Fin 4, Fin 6]" by (simp add: Let_def numeral_2_eq_2)
  with b show ?thesis by simp
qed

text \<open>
  A reduction of a window that lies inside one interval of the new step ends the process with \<open>exit(1)\<close>, unless the
  reduction factor is a power of two: the unsigned row counter wraps.
\<close>

theorem reduce_data_exits:
  assumes "0 < cur" and "cur < step" and "step < 2 ^ 31" and "k = (step + cur - 1) div cur" and "cur * k * (y div k + 2) < 2 ^ 62"
    and "x \<le> y" and "x mod k \<noteq> 0" and "x div k = y div k" and "\<not> k dvd 2 ^ 64"
  shows "reduce_data cf cur (int (cur * x)) (int (cur * y)) step ds buf = Inl ReduceExit"
proof -
  have k: "1 < k" using assms(1,2,4) factor_gt_1 by simp
  have f: "reduce_factor cur step = int k" using reduce_factor_eq [OF assms(1-3)] assms(4) by simp
  have x: "x = k * (y div k) + x mod k" and y: "y = k * (y div k) + y mod k" using assms(8) by (metis mult_div_mod_eq)+
  then have "x mod k \<le> y mod k" using assms(6) by linarith
  with reduce_data_inside [OF f k assms(1,5) x _ y _ _ assms(9)] k assms(7) show ?thesis by simp
qed

text \<open>
  Five minute values of an hour cannot be reduced to a day's step if the hour does not contain midnight.
\<close>

theorem reduce_data_exits_witness:
  "reduce_data CF_AVERAGE 300 (int (300 * 290)) (int (300 * 302)) 86400 1 (replicate 12 (Fin 1)) = Inl ReduceExit"
  by (rule reduce_data_exits [of 300 86400 288 302 290]) simp_all

end
