(* ===== verification/Graph_Data.thy ===== *)
theory Graph_Data
  imports Graph_Reduce Fetch Rpn "HOL-Library.Multiset"
begin

text \<open>
  The data of a graph or an export (\<open>rrd_graph.c\<close>, \<open>rrd_xport.c\<close>): fetching and reducing the DEFs, evaluating VDEFs, CDEFs and
  SHIFTs in their order, and the table of an export. The fields that only concern drawing are left out.
\<close>

section \<open>Elements of a graph\<close>

datatype gf_en = GF_PRINT | GF_GPRINT | GF_COMMENT | GF_HRULE | GF_VRULE | GF_LINE | GF_AREA | GF_STACK | GF_TICK | GF_TEXTALIGN
  | GF_DEF | GF_CDEF | GF_VDEF | GF_SHIFT | GF_XPORT

datatype vdef_op_en = VDEF_MAXIMUM | VDEF_MINIMUM | VDEF_AVERAGE | VDEF_STDEV | VDEF_PERCENT | VDEF_TOTAL | VDEF_FIRST | VDEF_LAST
  | VDEF_LSLSLOPE | VDEF_LSLINT | VDEF_LSLCORREL | VDEF_PERCENTNAN

record vdef_t =
  vop :: vdef_op_en
  vparam :: dbl
  vval :: dbl
  vwhen :: int

text \<open>\<open>g_data\<close> is what the pointer \<open>data\<close> of the source points to.\<close>

record graph_desc_t =
  g_gf :: gf_en
  g_vname :: string
  g_vidx :: nat
  g_rrd :: string
  g_ds_nam :: string
  g_ds :: int
  g_cf :: cf_en
  g_cf_reduce :: cf_en
  g_legend :: string
  g_vf :: vdef_t
  g_rpnp :: "rpnp_t list"
  g_shidx :: int
  g_shval :: int
  g_shift :: int
  g_start :: int
  g_end :: int
  g_start_orig :: int
  g_end_orig :: int
  g_step :: nat
  g_step_orig :: nat
  g_ds_cnt :: nat
  g_ds_namv :: "string list"
  g_data :: "dbl list"

record image_desc_t =
  im_start :: int
  im_end :: int
  im_step :: nat
  im_gdes :: "graph_desc_t list"

datatype graph_error = GraphFlush string int | GraphFetch fetch_error | GraphReduce reduce_error | GraphNoDS string string
  | GraphRpn rpn_error | GraphNoVariables | GraphMalloc | GraphDivision | GraphOutOfBounds | GraphNoXport
  | VdefUnknown | VdefNeedsParameter | VdefRange | VdefNoParameter | VdefUndefined

definition gf_conv :: "string \<Rightarrow> gf_en option" where
  "gf_conv str = map_of
     [(''PRINT'', GF_PRINT), (''GPRINT'', GF_GPRINT), (''COMMENT'', GF_COMMENT), (''HRULE'', GF_HRULE), (''VRULE'', GF_VRULE),
      (''LINE'', GF_LINE), (''AREA'', GF_AREA), (''STACK'', GF_STACK), (''TICK'', GF_TICK), (''TEXTALIGN'', GF_TEXTALIGN),
      (''DEF'', GF_DEF), (''CDEF'', GF_CDEF), (''VDEF'', GF_VDEF), (''XPORT'', GF_XPORT), (''SHIFT'', GF_SHIFT)] str"

text \<open>The last element is the one that is being parsed.\<close>

definition find_var :: "graph_desc_t list \<Rightarrow> string \<Rightarrow> int" where
  "find_var gdes key =
     (case find (\<lambda>ii. (g_gf (gdes ! ii) = GF_DEF \<or> g_gf (gdes ! ii) = GF_VDEF \<or> g_gf (gdes ! ii) = GF_CDEF) \<and> g_vname (gdes ! ii) = key)
             [0 ..< length gdes - 1] of
        None \<Rightarrow> - 1 | Some ii \<Rightarrow> int ii)"

text \<open>\<open>lcd\<close> works on an array that ends with a zero.\<close>

fun lcd_pair :: "nat \<Rightarrow> nat \<Rightarrow> nat" where
  "lcd_pair a b = (if b = 0 then a else if a mod b = 0 then b else lcd_pair b (a mod b))"

declare lcd_pair.simps [simp del]

fun lcd :: "nat list \<Rightarrow> nat" where
  "lcd [] = 0"
| "lcd [a] = a"
| "lcd (a # b # num) = (if b = 0 then a else lcd (lcd_pair a b # num))"

section \<open>Fetching\<close>

text \<open>The other side: the files with \<open>rrd_fetch_fn\<close>, whether a daemon is connected, and its answer to a flush.\<close>

record graph_files =
  gf_fetch :: "string \<Rightarrow> cf_en \<Rightarrow> int \<Rightarrow> int \<Rightarrow> nat \<Rightarrow> fetch_error + fetched"
  gf_connected :: bool
  gf_flush :: "string \<Rightarrow> int"

definition same_def :: "graph_desc_t \<Rightarrow> graph_desc_t \<Rightarrow> bool" where
  "same_def g h \<longleftrightarrow> g_gf h = GF_DEF \<and> g_rrd g = g_rrd h \<and> g_cf g = g_cf h \<and> g_cf_reduce g = g_cf_reduce h \<and>
     g_start_orig g = g_start_orig h \<and> g_end_orig g = g_end_orig h \<and> g_step_orig g = g_step_orig h"

text \<open>The data of a DEF that is not there yet.\<close>

definition fetch_def :: "graph_files \<Rightarrow> nat \<Rightarrow> graph_desc_t \<Rightarrow> graph_error + graph_desc_t" where
  "fetch_def fs imstep g =
     (case gf_fetch fs (g_rrd g) (g_cf g) (g_start g) (g_end g) (g_step g) of
        Inl e \<Rightarrow> Inl (GraphFetch e)
      | Inr ft \<Rightarrow>
          let g = g\<lparr>g_start := ft_start ft, g_end := ft_end ft, g_ds_cnt := length (ft_ds_namv ft), g_ds_namv := ft_ds_namv ft,
                    g_data := concat (ft_data ft)\<rparr>;
              stp = max (g_step g) imstep
          in if ft_step ft < stp
             then (case reduce_data (g_cf_reduce g) (ft_step ft) (g_start g) (g_end g) stp (g_ds_cnt g) (g_data g) of
                     Inl e \<Rightarrow> Inl (GraphReduce e)
                   | Inr (start, end', stp, buf) \<Rightarrow> Inr (g\<lparr>g_start := start, g_end := end', g_step := stp, g_data := buf\<rparr>))
             else Inr (g\<lparr>g_step := ft_step ft\<rparr>))"

text \<open>The index of the data source; the loop does not stop at the first one.\<close>

definition find_ds :: "graph_desc_t \<Rightarrow> graph_error + graph_desc_t" where
  "find_ds g =
     (let g = fold (\<lambda>ii g. if g_ds_namv g ! ii = g_ds_nam g then g\<lparr>g_ds := int ii\<rparr> else g) [0 ..< g_ds_cnt g] g
      in if g_ds g = - 1 then Inl (GraphNoDS (g_ds_nam g) (g_rrd g)) else Inr g)"

definition fetch_element :: "graph_files \<Rightarrow> nat \<Rightarrow> graph_desc_t list \<Rightarrow> graph_desc_t \<Rightarrow> graph_error + graph_desc_t" where
  "fetch_element fs imstep before g =
     (if g_gf g \<noteq> GF_DEF then Inr g
      else case find (same_def g) before of
             Some h \<Rightarrow> find_ds (g\<lparr>g_start := g_start h, g_end := g_end h, g_step := g_step h, g_ds_cnt := g_ds_cnt h,
                               g_ds_namv := g_ds_namv h, g_data := g_data h\<rparr>)
           | None \<Rightarrow>
               if gf_connected fs \<and> \<not> list_ex (\<lambda>h. g_rrd g = g_rrd h) before \<and> gf_flush fs (g_rrd g) \<noteq> 0
               then Inl (GraphFlush (g_rrd g) (gf_flush fs (g_rrd g)))
               else case fetch_def fs imstep g of Inl e \<Rightarrow> Inl e | Inr g \<Rightarrow> find_ds g)"

fun data_fetch_from :: "graph_files \<Rightarrow> nat \<Rightarrow> graph_desc_t list \<Rightarrow> graph_desc_t list \<Rightarrow> graph_error + graph_desc_t list" where
  "data_fetch_from fs imstep before [] = Inr before"
| "data_fetch_from fs imstep before (g # gs) =
     (case fetch_element fs imstep before g of Inl e \<Rightarrow> Inl e | Inr g \<Rightarrow> data_fetch_from fs imstep (before @ [g]) gs)"

definition data_fetch :: "graph_files \<Rightarrow> image_desc_t \<Rightarrow> graph_error + image_desc_t" where
  "data_fetch fs im = map_sum id (\<lambda>gs. im\<lparr>im_gdes := gs\<rparr>) (data_fetch_from fs (im_step im) [] (im_gdes im))"

section \<open>VDEF\<close>

text \<open>\<open>sscanf\<close> with \<open>%29[A-Z]%n\<close>: the word, if it reaches to the end.\<close>

definition scan_word :: "string \<Rightarrow> string option" where
  "scan_word str =
     (if str \<noteq> [] \<and> list_all isupper str \<and> length str \<le> 29 then Some str else None)"

definition vdef_funcs :: "(string \<times> vdef_op_en) list" where
  "vdef_funcs =
     [(''PERCENT'', VDEF_PERCENT), (''PERCENTNAN'', VDEF_PERCENTNAN), (''MAXIMUM'', VDEF_MAXIMUM), (''AVERAGE'', VDEF_AVERAGE),
      (''STDEV'', VDEF_STDEV), (''MINIMUM'', VDEF_MINIMUM), (''TOTAL'', VDEF_TOTAL), (''FIRST'', VDEF_FIRST), (''LAST'', VDEF_LAST),
      (''LSLSLOPE'', VDEF_LSLSLOPE), (''LSLINT'', VDEF_LSLINT), (''LSLCORREL'', VDEF_LSLCORREL)]"

text \<open>On an empty string the first \<open>sscanf\<close> sets nothing and yet counts as a match.\<close>

definition vdef_split :: "string \<Rightarrow> graph_error + (dbl \<times> string)" where
  "vdef_split str =
     (if str = [] then Inl VdefUndefined
      else
        let ((param, _), rest) = strtod str;
            first = (if length rest < length str \<and> take 1 rest = '','' then scan_word (drop 1 rest) else None)
        in case first of
             Some func \<Rightarrow> Inr (param, func)
           | None \<Rightarrow> (case scan_word str of Some func \<Rightarrow> Inr (NaN, func) | None \<Rightarrow> Inl VdefUnknown))"

definition vdef_parse :: "string \<Rightarrow> graph_error + vdef_t" where
  "vdef_parse str =
     (case vdef_split str of
        Inl e \<Rightarrow> Inl e
      | Inr (param, func) \<Rightarrow>
          (case map_of vdef_funcs func of
             None \<Rightarrow> Inl VdefUnknown
           | Some vo \<Rightarrow>
               if vo = VDEF_PERCENT \<or> vo = VDEF_PERCENTNAN
               then if isnan param then Inl VdefNeedsParameter
                    else if 0 \<le> param \<and> param \<le> Fin 100 then Inr \<lparr>vop = vo, vparam = param, vval = NaN, vwhen = 0\<rparr>
                    else Inl VdefRange
               else if isnan param then Inr \<lparr>vop = vo, vparam = NaN, vval = NaN, vwhen = 0\<rparr>
                    else Inl VdefNoParameter))"

text \<open>\<open>isinf\<close> has the sign of the infinity.\<close>

definition isinf_sign :: "dbl \<Rightarrow> int" where
  "isinf_sign x = (if x = PInf then 1 else if x = NInf then - 1 else 0)"

definition vdef_percent_compar :: "dbl \<Rightarrow> dbl \<Rightarrow> int" where
  "vdef_percent_compar a b =
     (if isnan a then - 1
      else if isnan b then 1
      else if isinf_sign a \<noteq> 0 then isinf_sign a
      else if isinf_sign b \<noteq> 0 then isinf_sign b
      else if a < b then - 1 else 1)"

text \<open>The merge sort of the C library.\<close>

fun merge_by :: "('a \<Rightarrow> 'a \<Rightarrow> int) \<Rightarrow> 'a list \<Rightarrow> 'a list \<Rightarrow> 'a list" where
  "merge_by cmp [] ys = ys"
| "merge_by cmp xs [] = xs"
| "merge_by cmp (x # xs) (y # ys) = (if cmp x y \<le> 0 then x # merge_by cmp xs (y # ys) else y # merge_by cmp (x # xs) ys)"

fun qsort_by :: "('a \<Rightarrow> 'a \<Rightarrow> int) \<Rightarrow> 'a list \<Rightarrow> 'a list" where
  "qsort_by cmp xs =
     (if length xs \<le> 1 then xs
      else merge_by cmp (qsort_by cmp (take (length xs div 2) xs)) (qsort_by cmp (drop (length xs div 2) xs)))"

declare qsort_by.simps [simp del]

text \<open>\<open>round\<close> rounds halves away from zero.\<close>

fun dround_half :: "dbl \<Rightarrow> dbl" where
  "dround_half (Fin q) = (if q < 0 then - d_of_int \<lfloor>- q + 1 / 2\<rfloor> else d_of_int \<lfloor>q + 1 / 2\<rfloor>)"
| "dround_half x = x"

text \<open>The index into the sorted values; with no values at all the code reads outside of the array.\<close>

definition percent_field :: "dbl \<Rightarrow> nat \<Rightarrow> int" where
  "percent_field param n = d_to_int (dround_half (param * d_of_int (int n - 1) / Fin 100))"

definition vdef_percent :: "dbl \<Rightarrow> dbl list \<Rightarrow> graph_error + dbl" where
  "vdef_percent param array =
     (let field = percent_field param (length array)
      in if 0 \<le> field \<and> nat field < length array then Inr (qsort_by vdef_percent_compar array ! nat field)
         else Inl GraphOutOfBounds)"

text \<open>The position of the first known value, and of the last.\<close>

definition first_known :: "dbl list \<Rightarrow> nat option" where
  "first_known xs = find (\<lambda>i. \<not> isnan (xs ! i)) [0 ..< length xs]"

definition last_known :: "dbl list \<Rightarrow> nat option" where
  "last_known xs = find (\<lambda>i. \<not> isnan (xs ! i)) (rev [0 ..< length xs])"

text \<open>\<open>MAXIMUM\<close> and \<open>MINIMUM\<close>: from the first known value on, every finite value that is better.\<close>

definition vdef_extreme :: "(dbl \<Rightarrow> dbl \<Rightarrow> bool) \<Rightarrow> dbl list \<Rightarrow> (dbl \<times> nat) option" where
  "vdef_extreme better xs =
     map_option (\<lambda>i. fold (\<lambda>j (v, k). if dfinite (xs ! j) \<and> better (xs ! j) v then (xs ! j, j) else (v, k)) [i ..< length xs] (xs ! i, i))
       (first_known xs)"

definition finite_values :: "dbl list \<Rightarrow> dbl list" where
  "finite_values xs = filter dfinite xs"

definition fsum :: "dbl list \<Rightarrow> dbl" where
  "fsum xs = foldl (+) 0 xs"

text \<open>The sums of the least squares line: the number of values and the sums of x, y, xy, xx and yy.\<close>

definition lsl_sums :: "dbl list \<Rightarrow> nat \<times> dbl \<times> dbl \<times> dbl \<times> dbl \<times> dbl" where
  "lsl_sums xs =
     fold (\<lambda>i (cnt, sx, sy, sxy, sxx, syy).
         let v = xs ! i in
         if dfinite v then (cnt + 1, sx + d_of_nat i, sy + v, sxy + d_of_nat i * v, sxx + d_of_nat (i * i), syy + v * v)
         else (cnt, sx, sy, sxy, sxx, syy))
       [0 ..< length xs] (0, 0, 0, 0, 0, 0)"

definition vdef_lsl :: "(dbl \<Rightarrow> dbl) \<Rightarrow> vdef_op_en \<Rightarrow> dbl list \<Rightarrow> dbl" where
  "vdef_lsl rootfn vo xs =
     (case lsl_sums xs of (cnt, sx, sy, sxy, sxx, syy) \<Rightarrow>
        let n = d_of_nat cnt;
            slope = (sx * sy - n * sxy) / (sx * sx - n * sxx);
            y_intercept = (sy - slope * sx) / n;
            correl = (sxy - (sx * sy) / n) / rootfn ((sxx - (sx * sx) / n) * (syy - (sy * sy) / n))
        in if cnt = 0 then NaN
           else if vo = VDEF_LSLSLOPE then slope else if vo = VDEF_LSLINT then y_intercept else correl)"

text \<open>The values of an element: \<open>data[step * ds_cnt]\<close>, behind the offset of its data source.\<close>

definition column :: "graph_desc_t \<Rightarrow> graph_error + dbl list" where
  "column g =
     (if g_step g = 0 then Inl GraphDivision
      else
        let steps = u64 (g_end g - g_start g) div g_step g
        in if steps \<noteq> 0 \<and> (g_ds g < 0 \<or> length (g_data g) \<le> nat (g_ds g) + (steps - 1) * g_ds_cnt g) then Inl GraphOutOfBounds
           else Inr (map (\<lambda>i. g_data g ! (nat (g_ds g) + i * g_ds_cnt g)) [0 ..< steps]))"

record graph_libm =
  gl_env :: rpn_env
  gl_pow :: "dbl \<Rightarrow> dbl \<Rightarrow> dbl"

definition vdef_calc :: "graph_libm \<Rightarrow> graph_desc_t \<Rightarrow> graph_desc_t \<Rightarrow> graph_error + vdef_t" where
  "vdef_calc lm src d =
     (case column src of
        Inl e \<Rightarrow> Inl e
      | Inr xs \<Rightarrow>
          let vf = g_vf d;
              result = (\<lambda>v w. vf\<lparr>vval := v, vwhen := w\<rparr>);
              time = (\<lambda>i. g_start src + int i * int (g_step src));
              fs = finite_values xs; n = d_of_nat (length fs)
          in case vop vf of
               VDEF_PERCENT \<Rightarrow> map_sum id (\<lambda>v. result v 0) (vdef_percent (vparam vf) xs)
             | VDEF_PERCENTNAN \<Rightarrow> map_sum id (\<lambda>v. result v 0) (vdef_percent (vparam vf) (known xs))
             | VDEF_MAXIMUM \<Rightarrow> Inr (case vdef_extreme (\<lambda>x v. v < x) xs of None \<Rightarrow> result NaN 0 | Some (v, k) \<Rightarrow> result v (time (k + 1)))
             | VDEF_MINIMUM \<Rightarrow> Inr (case vdef_extreme (\<lambda>x v. x < v) xs of None \<Rightarrow> result NaN 0 | Some (v, k) \<Rightarrow> result v (time (k + 1)))
             | VDEF_TOTAL \<Rightarrow> Inr (if fs = [] then result NaN 0 else result (fsum fs * d_of_nat (g_step src)) 0)
             | VDEF_AVERAGE \<Rightarrow> Inr (if fs = [] then result NaN 0 else result (fsum fs / n) 0)
             | VDEF_STDEV \<Rightarrow> Inr (if fs = [] then result NaN 0
                 else let average = fsum fs / n
                      in result (gl_pow lm (fsum (map (\<lambda>v. gl_pow lm (v - average) (Fin 2)) fs) / n) (Fin (1 / 2))) 0)
             | VDEF_FIRST \<Rightarrow> Inr (case first_known xs of None \<Rightarrow> result NaN 0 | Some i \<Rightarrow> result (xs ! i) (time i))
             | VDEF_LAST \<Rightarrow> Inr (case last_known xs of None \<Rightarrow> result NaN 0 | Some i \<Rightarrow> result (xs ! i) (time (i + 1)))
             | _ \<Rightarrow> Inr (result (vdef_lsl (sqrt_fn (gl_env lm)) (vop vf) xs) 0))"

section \<open>CDEF and SHIFT\<close>

definition is_var :: "rpnp_t \<Rightarrow> bool" where
  "is_var n \<longleftrightarrow> op n = OP_VARIABLE \<or> op n = OP_PREV_OTHER"

text \<open>The first loop over an expression: VDEFs become constants, the others are bound to the data of their element.\<close>

definition bind_node :: "graph_desc_t list \<Rightarrow> rpnp_t \<Rightarrow> rpnp_t" where
  "bind_node gdes n =
     (if is_var n
      then let g = gdes ! nat (ptr n)
           in if g_ds_cnt g = 0 then n\<lparr>val := vval (g_vf g), op := OP_NUMBER\<rparr>
              else n\<lparr>data := g_data g, data_pos := g_ds g, node_step := int (g_step g), node_ds_cnt := int (g_ds_cnt g)\<rparr>
      else n)"

text \<open>The elements whose data is used, in the order of the expression.\<close>

definition cdef_sources :: "graph_desc_t list \<Rightarrow> rpnp_t list \<Rightarrow> graph_desc_t list" where
  "cdef_sources gdes nodes =
     filter (\<lambda>g. g_ds_cnt g \<noteq> 0) (map (\<lambda>n. gdes ! nat (ptr n)) (filter is_var nodes))"

definition cdef_start :: "graph_desc_t list \<Rightarrow> int" where
  "cdef_start srcs = fold (\<lambda>g s. if s < g_start g then g_start g else s) srcs 0"

definition cdef_end :: "graph_desc_t list \<Rightarrow> int" where
  "cdef_end srcs = fold (\<lambda>g e. if e = 0 \<or> e > g_end g then g_end g else e) srcs 0"

text \<open>The second loop moves the pointers to the common start.\<close>

definition move_node :: "graph_desc_t list \<Rightarrow> int \<Rightarrow> rpnp_t \<Rightarrow> rpnp_t" where
  "move_node gdes start n =
     (if is_var n
      then let g = gdes ! nat (ptr n); diff = start - g_start g
           in if diff > 0 then n\<lparr>data_pos := data_pos n + diff div int (g_step g) * int (g_ds_cnt g)\<rparr> else n
      else n)"

text \<open>The loop over the time steps: \<open>n\<close> values are left, the last one was for time \<open>now\<close>.\<close>

fun cdef_values :: "rpn_env \<Rightarrow> nat \<Rightarrow> int \<Rightarrow> nat \<Rightarrow> rpnp_t list \<times> dbl list \<Rightarrow> rpn_error + (rpnp_t list \<times> dbl list)" where
  "cdef_values env stp now 0 nd = Inr nd"
| "cdef_values env stp now (Suc n) nd =
     (case nd of (nodes, out) \<Rightarrow>
        (case rpn_calc env nodes (now + int stp) out (int (length out)) of
           Inl e \<Rightarrow> Inl e
         | Inr (nodes, v) \<Rightarrow> cdef_values env stp (now + int stp) n (nodes, out @ [v])))"

definition cdef_calc :: "rpn_env \<Rightarrow> graph_desc_t list \<Rightarrow> graph_desc_t \<Rightarrow> graph_error + graph_desc_t" where
  "cdef_calc env gdes g =
     (let srcs = cdef_sources gdes (g_rpnp g);
          start = cdef_start srcs; end' = cdef_end srcs;
          nodes = map (move_node gdes start) (map (bind_node gdes) (g_rpnp g));
          stp = lcd (map g_step srcs)
      in if srcs = [] then Inl GraphNoVariables
         else if stp = 0 \<or> list_ex (\<lambda>h. g_step h = 0 \<and> g_start h < start) srcs then Inl GraphDivision
         else if end' < start then Inl GraphMalloc
         else case cdef_values env stp start (nat (end' - start) div stp) (nodes, []) of
                Inl e \<Rightarrow> Inl (GraphRpn e)
              | Inr (nodes, out) \<Rightarrow>
                  Inr (g\<lparr>g_ds_cnt := 1, g_ds := 0, g_start := start, g_end := end', g_step := stp, g_rpnp := nodes, g_data := out\<rparr>))"

definition shift_element :: "graph_desc_t list \<Rightarrow> graph_desc_t \<Rightarrow> graph_desc_t \<Rightarrow> graph_desc_t" where
  "shift_element gdes g vdp =
     (let sh = (if g_shidx g \<ge> 0 then d_to_long (vval (g_vf (gdes ! nat (g_shidx g)))) else g_shval g);
          sh = cdiv sh (int (g_step vdp)) * int (g_step vdp)
      in vdp\<lparr>g_start := g_start vdp - g_shift vdp + sh, g_end := g_end vdp - g_shift vdp + sh, g_shift := sh\<rparr>)"

definition calc_element :: "graph_libm \<Rightarrow> nat \<Rightarrow> graph_desc_t list \<Rightarrow> graph_error + graph_desc_t list" where
  "calc_element lm gdi gdes =
     (let g = gdes ! gdi in
      case g_gf g of
        GF_SHIFT \<Rightarrow> (if g_step (gdes ! g_vidx g) = 0 then Inl GraphDivision
                    else Inr (gdes[g_vidx g := shift_element gdes g (gdes ! g_vidx g)]))
      | GF_VDEF \<Rightarrow> map_sum id (\<lambda>vf. gdes[gdi := g\<lparr>g_ds_cnt := 0, g_vf := vf\<rparr>]) (vdef_calc lm (gdes ! g_vidx g) g)
      | GF_CDEF \<Rightarrow> map_sum id (\<lambda>g. gdes[gdi := g]) (cdef_calc (gl_env lm) gdes g)
      | _ \<Rightarrow> Inr gdes)"

fun data_calc_from :: "graph_libm \<Rightarrow> nat list \<Rightarrow> graph_desc_t list \<Rightarrow> graph_error + graph_desc_t list" where
  "data_calc_from lm [] gdes = Inr gdes"
| "data_calc_from lm (gdi # gdis) gdes =
     (case calc_element lm gdi gdes of Inl e \<Rightarrow> Inl e | Inr gdes \<Rightarrow> data_calc_from lm gdis gdes)"

definition data_calc :: "graph_libm \<Rightarrow> image_desc_t \<Rightarrow> graph_error + image_desc_t" where
  "data_calc lm im = map_sum id (\<lambda>gs. im\<lparr>im_gdes := gs\<rparr>) (data_calc_from lm [0 ..< length (im_gdes im)] (im_gdes im))"

section \<open>The common step\<close>

lemma lcd_pair_gcd: "0 < b \<Longrightarrow> lcd_pair a b = gcd a b"
proof (induction a b rule: lcd_pair.induct)
  case (1 a b)
  show ?case
  proof (cases "a mod b = 0")
    case True
    with 1 show ?thesis by (subst lcd_pair.simps) (simp add: gcd_nat.absorb2 mod_0_imp_dvd)
  next
    case False
    with 1 show ?thesis by (subst lcd_pair.simps) (simp add: gcd_red_nat [of a b] gcd.commute)
  qed
qed

lemma lcd_Gcd: "xs \<noteq> [] \<Longrightarrow> list_all (\<lambda>x. 0 < x) xs \<Longrightarrow> lcd xs = Gcd (set xs)"
proof (induction xs rule: lcd.induct)
  case (3 a b num)
  then have ab: "0 < a" "0 < b" "list_all (\<lambda>x. 0 < x) num" by simp_all
  have "lcd (gcd a b # num) = Gcd (set (gcd a b # num))" using 3(1) ab by (simp add: lcd_pair_gcd)
  with ab show ?case by (simp add: lcd_pair_gcd gcd.assoc)
qed simp_all

section \<open>Percentiles\<close>

text \<open>The order that the comparison means: unknown values first.\<close>

definition percent_le :: "dbl \<Rightarrow> dbl \<Rightarrow> bool" where
  "percent_le a b \<longleftrightarrow> isnan a \<or> (\<not> isnan b \<and> a \<le> b)"

lemma percent_le_refl: "percent_le a a"
  by (auto simp: percent_le_def isnan_def)

lemma percent_le_trans: "percent_le a b \<Longrightarrow> percent_le b c \<Longrightarrow> percent_le a c"
  by (auto simp: percent_le_def intro: dbl_le_trans)

lemma percent_le_total: "\<not> percent_le a b \<Longrightarrow> percent_le b a"
  unfolding percent_le_def isnan_def by (metis dbl_less_imp_le dbl_not_less)

lemma compar_le:
  assumes "\<not> isinf a" and "\<not> isinf b"
  shows "vdef_percent_compar a b \<le> 0 \<Longrightarrow> percent_le a b" and "\<not> vdef_percent_compar a b \<le> 0 \<Longrightarrow> percent_le b a"
  using assms by (auto simp: vdef_percent_compar_def percent_le_def isinf_sign_def isinf_def isnan_def dbl_less_imp_le dbl_not_less split: if_splits)

lemma mset_merge_by [simp]: "mset (merge_by cmp xs ys) = mset xs + mset ys"
  by (induction cmp xs ys rule: merge_by.induct) auto

lemma mset_qsort_by [simp]: "mset (qsort_by cmp xs) = mset xs"
proof (induction cmp xs rule: qsort_by.induct)
  case (1 cmp xs)
  show ?case
  proof (cases "length xs \<le> 1")
    case True
    then show ?thesis by (subst qsort_by.simps) simp
  next
    case False
    with 1 have "mset (qsort_by cmp xs) = mset (take (length xs div 2) xs) + mset (drop (length xs div 2) xs)"
      by (subst qsort_by.simps) simp
    then show ?thesis by (simp flip: mset_append)
  qed
qed

text \<open>A comparison that agrees with a preorder sorts by it.\<close>

locale comparison =
  fixes cmp :: "'a \<Rightarrow> 'a \<Rightarrow> int" and le :: "'a \<Rightarrow> 'a \<Rightarrow> bool" and ok :: "'a \<Rightarrow> bool"
  assumes before: "ok a \<Longrightarrow> ok b \<Longrightarrow> cmp a b \<le> 0 \<Longrightarrow> le a b"
    and behind: "ok a \<Longrightarrow> ok b \<Longrightarrow> \<not> cmp a b \<le> 0 \<Longrightarrow> le b a"
    and trans: "le a b \<Longrightarrow> le b c \<Longrightarrow> le a c"
begin

lemma sorted_merge_by:
  assumes "sorted_wrt le xs" and "sorted_wrt le ys" and "list_all ok xs" and "list_all ok ys"
  shows "sorted_wrt le (merge_by cmp xs ys)"
  using assms
proof (induction xs arbitrary: ys)
  case (Cons x xs)
  note outer = Cons.IH
  have set: "set (merge_by cmp us vs) = set us \<union> set vs" for us vs
    by (metis mset_merge_by set_mset_mset set_mset_union)
  from Cons.prems show ?case
  proof (induction ys)
    case (Cons y ys)
    show ?case
    proof (cases "cmp x y \<le> 0")
      case True
      with Cons.prems have "le x y" by (auto intro: before)
      moreover have "\<forall>z \<in> set ys. le x z" using Cons.prems(2) \<open>le x y\<close> trans by auto
      ultimately show ?thesis using True Cons.prems outer [OF _ Cons.prems(2) _ Cons.prems(4)] by (auto simp: set)
    next
      case False
      with Cons.prems have "le y x" by (auto intro: behind)
      moreover have "\<forall>z \<in> set xs. le y z" using Cons.prems(1) \<open>le y x\<close> trans by auto
      ultimately show ?thesis using False Cons.prems Cons.IH by (auto simp: set)
    qed
  qed simp
qed simp

lemma sorted_qsort_by: "list_all ok xs \<Longrightarrow> sorted_wrt le (qsort_by cmp xs)"
proof (induction "length xs" arbitrary: xs rule: less_induct)
  case less
  have ok: "list_all ok (qsort_by cmp ys)" if "list_all ok ys" for ys
    using that by (metis list.pred_set mset_qsort_by set_mset_mset)
  show ?case
  proof (cases "length xs \<le> 1")
    case True
    then show ?thesis by (subst qsort_by.simps) (cases xs; auto)
  next
    case False
    then have "list_all ok (take (length xs div 2) xs)" "list_all ok (drop (length xs div 2) xs)"
      using less(2) by (auto simp: list.pred_set dest: in_set_takeD in_set_dropD)
    with False less(1) ok show ?thesis by (subst qsort_by.simps) (auto intro!: sorted_merge_by)
  qed
qed

end

interpretation pc: comparison vdef_percent_compar percent_le "\<lambda>x. \<not> isinf x"
  by unfold_locales (use compar_le percent_le_trans in blast)+

text \<open>Rounding does not cross the half of an integer, so that a hundredth is rounded to the right integer afterwards.\<close>

lemma floor_half_rnd64:
  assumes "0 \<le> m" and "m < (2 :: int) ^ 40"
  shows "\<lfloor>rnd64 (of_int m / 100) + 1 / 2\<rfloor> = (m + 50) div 100"
proof (cases "m = 0")
  case False
  define n where "n = (m + 50) div 100"
  let ?x = "of_int m / 100 :: rat"
  have x: "0 < ?x" using False assms(1) by simp
  define r where "r = (m + 50) mod 100"
  have d: "100 * n + r = m + 50" "0 \<le> r" "r < 100" unfolding n_def r_def by simp_all
  have n: "100 * n \<le> m + 50" "m + 50 \<le> 100 * n + 99" using d by simp_all
  have "0 \<le> n" "n < 2 ^ 40" using d assms by simp_all
  note n = n this
  from n(1,2) have "(of_int (100 * n) :: rat) \<le> of_int (m + 50)" "(of_int (m + 50) :: rat) \<le> of_int (100 * n + 99)" unfolding of_int_le_iff .
  then have b: "of_int n - 1 / 2 \<le> ?x" "?x \<le> of_int n + 1 / 2 - 1 / 100" by (simp_all add: field_simps)
  have up: "rnd64 ?x \<le> of_int n + 63 / 128"
  proof (rule rnd64_mono_representable(1) [OF x, of _ "128 * n + 63" "- 7"])
    show "?x \<le> of_int n + 63 / 128" using b(2) by simp
  qed (use n in \<open>simp_all add: power_int_def field_simps\<close>)
  have low: "of_int n - 1 / 2 \<le> rnd64 ?x"
  proof (cases "n = 0")
    case True
    then show ?thesis using rnd64_nonneg [of ?x] x by simp
  next
    case False
    show ?thesis
      by (rule rnd64_mono_representable(2) [OF x, of _ "2 * n - 1" "- 1"]) (use n b False in \<open>simp_all add: power_int_def field_simps\<close>)
  qed
  show ?thesis unfolding n_def [symmetric] using up low by (intro floor_unique) simp_all
qed (simp add: rnd64_def floor_eq_iff)

lemma d_to_int_round_half:
  assumes "0 \<le> z" and "\<lfloor>z + 1 / 2\<rfloor> < 2 ^ 31"
  shows "d_to_int (dround_half (Fin z)) = \<lfloor>z + 1 / 2\<rfloor>"
proof -
  define f where "f = \<lfloor>z + 1 / 2\<rfloor>"
  have f: "0 \<le> f" "f < 2 ^ 31" using assms by (simp_all add: f_def)
  have "dround_half (Fin z) = d_of_int f" using assms(1) by (simp add: f_def)
  then show ?thesis using f unfolding f_def [symmetric] by (simp add: d_of_int_small d_to_int_def rtrunc_def)
qed

lemma percent_field_eq:
  assumes "0 \<le> p" and "p \<le> 100" and "0 < n" and "n < 2 ^ 31"
  shows "percent_field (Fin p) n = \<lfloor>rnd64 (rnd64 (p * of_int (int n - 1)) / 100) + 1 / 2\<rfloor>"
    and "0 \<le> percent_field (Fin p) n" and "percent_field (Fin p) n \<le> int n - 1"
proof -
  let ?m = "int n - 1" and ?y = "rnd64 (p * of_int (int n - 1))"
  have m: "0 \<le> ?m" "?m < 2 ^ 31" using assms(3,4) by simp_all
  have "p * of_int ?m \<le> 100 * of_int ?m" using assms(2) m(1) by (intro mult_right_mono) simp_all
  then have pm: "0 \<le> p * of_int ?m" "p * of_int ?m \<le> of_int (100 * ?m)" using assms(1) m(1) by simp_all
  have y: "0 \<le> ?y" "?y \<le> of_int (100 * ?m)" using rnd64_nonneg [OF pm(1)] rnd64_le_int [OF pm] m(2) by simp_all
  have q: "0 \<le> ?y / 100" "?y / 100 \<le> of_int ?m" using y by simp_all
  have r: "0 \<le> rnd64 (?y / 100)" "rnd64 (?y / 100) \<le> of_int ?m" using rnd64_nonneg [OF q(1)] rnd64_le_int [OF q] m(2) by simp_all
  define f where "f = \<lfloor>rnd64 (?y / 100) + 1 / 2\<rfloor>"
  have f: "0 \<le> f" "f \<le> ?m"
  proof -
    show "0 \<le> f" unfolding f_def using r(1) by simp
    have "rnd64 (?y / 100) + 1 / 2 < of_int (?m + 1)" using r(2) by simp
    then show "f \<le> ?m" unfolding f_def by (metis add.commute floor_less_iff zless_add1_eq le_less)
  qed
  have "percent_field (Fin p) n = d_to_int (dround_half (Fin (rnd64 (?y / 100))))"
    using m times_nonneg [OF assms(1) _ pm(2)] divide_nonneg [OF y(1) _ q(2)] by (simp add: percent_field_def d_of_int_small)
  also have "\<dots> = f" using r(1) le_less_trans [OF f(2) m(2)] unfolding f_def by (rule d_to_int_round_half)
  finally show "percent_field (Fin p) n = \<lfloor>rnd64 (?y / 100) + 1 / 2\<rfloor>" "0 \<le> percent_field (Fin p) n" "percent_field (Fin p) n \<le> ?m"
    using f by (simp_all add: f_def)
qed


text \<open>A percentage that is an integer is rounded once only.\<close>

lemma percent_field_int:
  assumes "0 \<le> p" and "p \<le> 100" and "0 < n" and "n < 2 ^ 31"
  shows "percent_field (Fin (of_int p)) n = (p * (int n - 1) + 50) div 100"
proof -
  have m: "0 \<le> p * (int n - 1)" "p * (int n - 1) \<le> 100 * (2 ^ 31 - 1)"
    using assms by (simp, intro mult_mono) simp_all
  have "rnd64 (of_int (p * (int n - 1)) * 2 powi 0) = of_int (p * (int n - 1))"
    using m by (intro trans [OF rnd64_exact [OF refl]]) simp_all
  moreover have "p * (int n - 1) < 2 ^ 40" using m(2) by (rule le_less_trans) simp
  ultimately show ?thesis
    using percent_field_eq(1) [of "of_int p" n] assms floor_half_rnd64 [OF m(1)] by simp
qed

text \<open>The value at a position of a sorted list, by counting.\<close>

lemma sorted_nth_counts:
  assumes "sorted_wrt le xs" and "f < length xs" and "\<And>a. le a a"
  shows "length (filter (\<lambda>x. \<not> le (xs ! f) x) xs) \<le> f" and "f < length (filter (\<lambda>x. le x (xs ! f)) xs)"
proof -
  obtain us v vs where xs: "xs = us @ v # vs" "length us = f" using assms(2) by (metis id_take_nth_drop length_take min.absorb4)
  then have v: "xs ! f = v" by (metis nth_append_length)
  have "filter (\<lambda>x. \<not> le v x) (v # vs) = []" using assms(1,3) xs by (auto simp: sorted_wrt_append filter_empty_conv)
  then have "filter (\<lambda>x. \<not> le v x) xs = filter (\<lambda>x. \<not> le v x) us" using xs(1) by simp
  then show "length (filter (\<lambda>x. \<not> le (xs ! f) x) xs) \<le> f" using xs(2) length_filter_le [of _ us] by (metis v)
  have "filter (\<lambda>x. le x v) us = us" using assms(1) xs by (auto simp: sorted_wrt_append intro!: filter_True)
  then show "f < length (filter (\<lambda>x. le x (xs ! f)) xs)" unfolding v using xs assms(3) by simp
qed

lemma length_filter_mset: "mset xs = mset ys \<Longrightarrow> length (filter P xs) = length (filter P ys)"
  by (metis mset_filter size_mset)


text \<open>
  C22: The percentile of a column without infinities: for a percentage \<open>p\<close> between 0 and 100 the index of \<open>vdef_percent\<close> is one of the
  array (for an integer \<open>p\<close> it is the exact \<open>p (n - 1) / 100\<close>, halves rounded up), and its result is one of the values such that at
  most that many values are strictly below it and more than that many are not above it, where unknown values count as the lowest. The
  column has at least one and fewer than 2^31 values.
\<close>

theorem vdef_percentile:
  assumes "0 \<le> p" and "p \<le> 100" and "xs \<noteq> []" and "length xs < 2 ^ 31" and "list_all (\<lambda>x. \<not> isinf x) xs"
  shows "\<exists>v f. vdef_percent (Fin p) xs = Inr v \<and> v \<in> set xs \<and> f < length xs \<and>
    (\<forall>i. p = of_int i \<longrightarrow> int f = (i * (int (length xs) - 1) + 50) div 100) \<and>
    length (filter (\<lambda>x. \<not> percent_le v x) xs) \<le> f \<and> f < length (filter (\<lambda>x. percent_le x v) xs)"
proof -
  define ys where "ys = qsort_by vdef_percent_compar xs"
  define f where "f = percent_field (Fin p) (length xs)"
  have n: "0 < length xs" using assms(3) by simp
  have f: "0 \<le> f" "f < int (length xs)" unfolding f_def using percent_field_eq(2,3) [OF assms(1,2) n assms(4)] by simp_all
  have ms: "mset ys = mset xs" unfolding ys_def by simp
  note ys = ms mset_eq_length [OF ms] mset_eq_setD [OF ms]
  have fl: "nat f < length ys" using f ys(2) by simp
  have "sorted_wrt percent_le ys" unfolding ys_def using assms(5) by (rule pc.sorted_qsort_by)
  from sorted_nth_counts [OF this fl percent_le_refl]
  have c: "length (filter (\<lambda>x. \<not> percent_le (ys ! nat f) x) xs) \<le> nat f" "nat f < length (filter (\<lambda>x. percent_le x (ys ! nat f)) xs)"
    by (simp_all only: length_filter_mset [OF ys(1)])
  have int: "int (nat f) = (i * (int (length xs) - 1) + 50) div 100" if "p = of_int i" for i
    using percent_field_int [of i "length xs"] that assms(1,2,4) n f(1) unfolding f_def by simp
  have "vdef_percent (Fin p) xs = Inr (ys ! nat f)" using f unfolding vdef_percent_def Let_def f_def [symmetric] ys_def by simp
  with c fl ys int nth_mem [OF fl] show ?thesis by (intro exI [of _ "ys ! nat f"] exI [of _ "nat f"]) simp
qed

theorem vdef_percentile_witness:
  "vdef_percent (Fin 95) [Fin 3, NaN, Fin 1, Fin 2] = Inr (Fin 3) \<and>
   (\<exists>v f. vdef_percent (Fin 95) [Fin 3, NaN, Fin 1, Fin 2] = Inr v \<and> f = (3 :: nat) \<and>
      f < length (filter (\<lambda>x. percent_le x v) [Fin 3, NaN, Fin 1, Fin 2]))"
proof
  let ?xs = "[Fin 3, NaN, Fin 1, Fin 2]"
  have "list_all (\<lambda>x. \<not> isinf x) ?xs" by simp
  from vdef_percentile [OF _ _ _ _ this, of 95] obtain v f where
    v: "vdef_percent (Fin 95) ?xs = Inr v" "f < length (filter (\<lambda>x. percent_le x v) ?xs)"
      "\<forall>i. (95 :: rat) = of_int i \<longrightarrow> int f = (i * (int (length ?xs) - 1) + 50) div 100" by auto
  then have "f = 3" using spec [OF v(3), of 95] by simp
  with v show "\<exists>v f. vdef_percent (Fin 95) ?xs = Inr v \<and> f = (3 :: nat) \<and> f < length (filter (\<lambda>x. percent_le x v) ?xs)" by blast
  show "vdef_percent (Fin 95) ?xs = Inr (Fin 3)" by code_simp
qed


section \<open>Evaluation of a CDEF at a point in time\<close>

text \<open>The operators that look at other rows of a variable than the current one.\<close>

definition looks_back :: "op_en \<Rightarrow> bool" where
  "looks_back o' \<longleftrightarrow> o' \<in> {OP_TREND, OP_TRENDNAN, OP_PREDICT, OP_PREDICTSIGMA, OP_PREV_OTHER}"

text \<open>
  The specification: the value of an element for a time is the row of the interval that ends at or behind this time, and an
  expression is evaluated with the variables replaced by such values.
\<close>

definition value_at :: "graph_desc_t \<Rightarrow> int \<Rightarrow> dbl" where
  "value_at g t = g_data g ! nat (g_ds g + int (g_ds_cnt g) * ((t - 1 - g_start g) div int (g_step g)))"

definition at_time :: "graph_desc_t list \<Rightarrow> int \<Rightarrow> rpnp_t \<Rightarrow> rpnp_t" where
  "at_time gdes t n =
     (if op n = OP_VARIABLE
      then let g = gdes ! nat (ptr n) in n\<lparr>op := OP_NUMBER, val := if g_ds_cnt g = 0 then vval (g_vf g) else value_at g t\<rparr>
      else n)"

fun cdef_spec :: "rpn_env \<Rightarrow> graph_desc_t list \<Rightarrow> rpnp_t list \<Rightarrow> int \<Rightarrow> int \<Rightarrow> nat \<Rightarrow> dbl list \<Rightarrow> rpn_error + dbl list" where
  "cdef_spec env gdes e stp t 0 out = Inr out"
| "cdef_spec env gdes e stp t (Suc n) out =
     (case rpn_calc env (map (at_time gdes t) e) t out (int (length out)) of
        Inl e \<Rightarrow> Inl e
      | Inr (_, v) \<Rightarrow> cdef_spec env gdes e stp (t + stp) n (out @ [v]))"

text \<open>An element with data: at least one row, aligned to its step, and all rows there.\<close>

definition data_ok :: "graph_desc_t \<Rightarrow> bool" where
  "data_ok g \<longleftrightarrow> 0 < g_step g \<and> 0 < g_start g \<and> g_start g \<le> g_end g \<and> int (g_step g) dvd g_start g \<and> int (g_step g) dvd g_end g \<and>
     0 \<le> g_ds g \<and> g_ds g < int (g_ds_cnt g) \<and> int (g_ds_cnt g) * ((g_end g - g_start g) div int (g_step g)) \<le> int (length (g_data g))"

text \<open>The node of a variable after the time \<open>t\<close> has been dealt with.\<close>

definition bound_at :: "graph_desc_t list \<Rightarrow> int \<Rightarrow> rpnp_t \<Rightarrow> rpnp_t" where
  "bound_at gdes t n =
     (let g = gdes ! nat (ptr n); n' = bind_node gdes n
      in if op n = OP_VARIABLE \<and> g_ds_cnt g \<noteq> 0
         then n'\<lparr>data_pos := g_ds g + int (g_ds_cnt g) * ((t - g_start g) div int (g_step g))\<rparr> else n')"

lemma rpn_step_local:
  assumes "\<not> looks_back (op n)" and "op n \<noteq> OP_VARIABLE"
  shows "\<exists>r. \<forall>ns. ns ! k = n \<longrightarrow> rpn_step env t out oi k (ns, st) = map_sum id (Pair ns) r"
proof -
  consider "op n = OP_SORT \<or> op n = OP_REV \<or> op n = OP_AVG"
    | v where "\<not> (op n = OP_SORT \<or> op n = OP_REV \<or> op n = OP_AVG)" "rpn_push env t out oi n = Some v"
    | f where "\<not> (op n = OP_SORT \<or> op n = OP_REV \<or> op n = OP_AVG)" "rpn_push env t out oi n = None" "rpn_unary env (op n) = Some f"
    | f where "\<not> (op n = OP_SORT \<or> op n = OP_REV \<or> op n = OP_AVG)" "rpn_push env t out oi n = None" "rpn_unary env (op n) = None"
        "rpn_binary env (op n) = Some f"
    | f where "\<not> (op n = OP_SORT \<or> op n = OP_REV \<or> op n = OP_AVG)" "rpn_push env t out oi n = None" "rpn_unary env (op n) = None"
        "rpn_binary env (op n) = None" "rpn_ternary (op n) = Some f"
    | "\<not> (op n = OP_SORT \<or> op n = OP_REV \<or> op n = OP_AVG)" "rpn_push env t out oi n = None" "rpn_unary env (op n) = None"
        "rpn_binary env (op n) = None" "rpn_ternary (op n) = None"
    by (metis not_None_eq)
  then show ?thesis
  proof cases
    case 1
    with assms show ?thesis by (intro exI [of _ "rpn_counted (op n) st"]) (auto simp: looks_back_def rpn_step_def Let_def)
  next
    case (2 v)
    with assms show ?thesis by (intro exI [of _ "Inr (v # st)"]) (auto simp: looks_back_def rpn_step_def Let_def)
  next
    case (3 f)
    with assms show ?thesis
      by (intro exI [of _ "case st of x # r \<Rightarrow> Inr (f x # r) | _ \<Rightarrow> Inl RpnStackUnderflow"])
        (auto simp: looks_back_def rpn_step_def Let_def split: list.splits)
  next
    case (4 f)
    with assms show ?thesis
      by (intro exI [of _ "case st of y # x # r \<Rightarrow> Inr (f x y # r) | _ \<Rightarrow> Inl RpnStackUnderflow"])
        (auto simp: looks_back_def rpn_step_def Let_def split: list.splits)
  next
    case (5 f)
    with assms show ?thesis
      by (intro exI [of _ "case st of z # y # x # r \<Rightarrow> Inr (f x y z # r) | _ \<Rightarrow> Inl RpnStackUnderflow"])
        (auto simp: looks_back_def rpn_step_def Let_def split: list.splits)
  next
    case 6
    with assms show ?thesis by (intro exI [of _ "rpn_stack_op (op n) st"]) (auto simp: looks_back_def rpn_step_def Let_def)
  qed
qed

text \<open>Nodes that are bound (\<open>as\<close>, behind them \<open>cs\<close>) and nodes with constants (\<open>bs\<close>) compute the same.\<close>

lemma rpn_run_sim:
  assumes len: "length bs = length as" "length cs = length as"
    and sim: "\<And>k. k < length as \<Longrightarrow>
      (\<not> looks_back (op (as ! k)) \<and> op (as ! k) \<noteq> OP_VARIABLE \<and> bs ! k = as ! k \<and> cs ! k = as ! k) \<or>
      (op (as ! k) = OP_VARIABLE \<and> op (bs ! k) = OP_NUMBER \<and> rpn_variable t oi (as ! k) = Inr (val (bs ! k), cs ! k))"
  shows "k \<le> length as \<Longrightarrow> rpn_run env t out oi [k ..< length as] (take k cs @ drop k as, st) =
    map_sum id (\<lambda>(_, st). (cs, st)) (rpn_run env t out oi [k ..< length as] (bs, st))"
proof (induction "length as - k" arbitrary: k st)
  case 0
  then show ?case using len by simp
next
  case (Suc m)
  then have k: "k < length as" and IH: "rpn_run env t out oi [Suc k ..< length as] (take (Suc k) cs @ drop (Suc k) as, st) =
    map_sum id (\<lambda>(_, st). (cs, st)) (rpn_run env t out oi [Suc k ..< length as] (bs, st))" for st by simp_all
  let ?ns = "take k cs @ drop k as"
  have ns: "?ns ! k = as ! k" "?ns[k := cs ! k] = take (Suc k) cs @ drop (Suc k) as"
    using k len by (simp_all add: nth_append list_update_append take_Suc_conv_app_nth min_def flip: Cons_nth_drop_Suc)
  have up: "[k ..< length as] = k # [Suc k ..< length as]" using k by (rule upt_conv_Cons)
  from sim [OF k] show ?case
  proof
    assume a: "\<not> looks_back (op (as ! k)) \<and> op (as ! k) \<noteq> OP_VARIABLE \<and> bs ! k = as ! k \<and> cs ! k = as ! k"
    then have keep: "?ns = take (Suc k) cs @ drop (Suc k) as" using ns by (metis list_update_id)
    obtain r where r: "\<forall>ns. ns ! k = as ! k \<longrightarrow> rpn_step env t out oi k (ns, st) = map_sum id (Pair ns) r"
      using a rpn_step_local by metis
    show ?thesis using r a ns(1) keep IH by (cases r) (simp_all add: up)
  next
    assume v: "op (as ! k) = OP_VARIABLE \<and> op (bs ! k) = OP_NUMBER \<and> rpn_variable t oi (as ! k) = Inr (val (bs ! k), cs ! k)"
    then have "rpn_step env t out oi k (?ns, st) = Inr (?ns[k := cs ! k], val (bs ! k) # st)" using ns(1) by (simp add: rpn_step_def)
    moreover have "rpn_step env t out oi k (bs, st) = Inr (bs, val (bs ! k) # st)" using v by (simp add: rpn_step_def rpn_push_def)
    ultimately show ?thesis using ns(2) IH by (simp add: up)
  qed
qed


text \<open>The index of the row for the next time, and where the pointer goes behind it.\<close>

lemma div_plus_1: "(a + 1) div b = a div b + (if b dvd a + 1 then 1 else 0)" if "0 < b" for a b :: int
proof (cases "b dvd a + 1")
  case True
  then obtain q where "a = b * q - 1" by (metis add_diff_cancel_right' dvdE)
  moreover have "(b * q - 1) div b = q - 1"
    using that by (intro int_div_pos_eq [of _ _ _ "b - 1"]) (simp_all add: algebra_simps)
  ultimately show ?thesis using that by simp
next
  case False
  have "(a + 1) mod b \<noteq> 0" using False by (simp add: dvd_eq_mod_eq_0)
  then have "a mod b + 1 < b" using that
    by (metis add_diff_cancel_right' linorder_not_less mod_add_left_eq mod_self order.antisym pos_mod_bound zle_add1_eq_le zless_imp_add1_zle)
  then have "(a + 1) div b = a div b" using that
    by (intro int_div_pos_eq [of _ _ _ "a mod b + 1"]) (simp_all add: algebra_simps)
  then show ?thesis using False by simp
qed

lemma row_of_time:
  fixes stp S gs t :: int
  assumes "0 < stp" and "stp dvd S" and "0 < S" and "S dvd gs" and "stp dvd t"
  shows "(t + stp - 1 - gs) div S = (t - gs) div S"
    and "(t + stp - gs) div S = (t - gs) div S + (if S dvd t + stp then 1 else 0)"
proof -
  obtain b where S: "S = stp * b" using assms(2) by auto
  have "stp dvd t - gs" using assms(2,4,5) by (meson dvd_diff dvd_trans)
  then obtain a where a: "t - gs = stp * a" by auto
  have b: "0 < b" using assms(1,3) S by (simp add: zero_less_mult_iff)
  have "(t + stp - 1 - gs) div stp = a" using a assms(1) by (intro int_div_pos_eq [of _ _ _ "stp - 1"]) simp_all
  then show "(t + stp - 1 - gs) div S = (t - gs) div S" unfolding S using assms(1) a b by (simp add: zdiv_zmult2_eq)
  have "S dvd t + stp \<longleftrightarrow> S dvd t + stp - gs" using assms(4) by (metis diff_add_cancel dvd_add_left_iff)
  also have "t + stp - gs = stp * (a + 1)" using a by (simp add: algebra_simps)
  finally have d: "S dvd t + stp \<longleftrightarrow> b dvd a + 1" unfolding S using assms(1) by simp
  have "t + stp - gs = stp * (a + 1)" using a by (simp add: algebra_simps)
  then show "(t + stp - gs) div S = (t - gs) div S + (if S dvd t + stp then 1 else 0)"
    unfolding d a using assms(1) div_plus_1 [OF b, of a] by (simp add: S)
qed

lemma data_ok_index:
  assumes ok: "data_ok g" and t: "g_start g \<le> t" "t < g_end g" and j: "j = (t - g_start g) div int (g_step g)"
  shows "0 \<le> j" and "0 \<le> g_ds g + int (g_ds_cnt g) * j" and "g_ds g + int (g_ds_cnt g) * j < int (length (g_data g))"
proof -
  let ?S = "int (g_step g)" and ?c = "int (g_ds_cnt g)"
  note ok = ok [unfolded data_ok_def]
  show j0: "0 \<le> j" unfolding j using ok t(1) by (simp add: pos_imp_zdiv_nonneg_iff)
  then show "0 \<le> g_ds g + ?c * j" using ok by simp
  have "?S dvd g_end g - g_start g" using ok by (simp add: dvd_diff)
  then obtain r where r: "g_end g - g_start g = ?S * r" by auto
  have "?S * j \<le> t - g_start g" unfolding j using ok by (simp add: minus_mod_eq_mult_div [symmetric])
  then have "?S * j < ?S * r" using t(2) r by linarith
  then have "j < r" using ok by simp
  then have "?c * (j + 1) \<le> ?c * r" by (intro mult_left_mono) simp_all
  also have "\<dots> \<le> int (length (g_data g))" using ok r by auto
  finally show "g_ds g + ?c * j < int (length (g_data g))" using ok by (simp add: algebra_simps)
qed

lemma rpn_variable_bound:
  assumes ok: "data_ok g" and g: "g = gdes ! nat (ptr n)" and v: "op n = OP_VARIABLE"
    and t: "0 < stp" "stp dvd int (g_step g)" "stp dvd t" "g_start g \<le> t" "t + stp \<le> g_end g"
  shows "rpn_variable (t + stp) oi (bound_at gdes t n) = Inr (value_at g (t + stp), bound_at gdes (t + stp) n)"
proof -
  let ?S = "int (g_step g)" and ?c = "int (g_ds_cnt g)"
  define j where "j = (t - g_start g) div ?S"
  note ok = ok [unfolded data_ok_def]
  have c: "0 < ?c" using ok by simp
  have "t < g_end g" using t(1,5) by linarith
  note idx = data_ok_index [OF assms(1) t(4) this j_def]
  then have len: "nat (g_ds g + ?c * j) < length (g_data g)" by linarith
  have rows: "(t + stp - 1 - g_start g) div ?S = j" "(t + stp - g_start g) div ?S = j + (if ?S dvd t + stp then 1 else 0)"
    unfolding j_def using row_of_time [OF t(1,2) _ _ t(3)] ok by simp_all
  have "bound_at gdes t n = n\<lparr>data := g_data g, data_pos := g_ds g + ?c * j, node_step := ?S, node_ds_cnt := ?c\<rparr>"
    "bound_at gdes (t + stp) n =
       n\<lparr>data := g_data g, data_pos := g_ds g + ?c * (j + (if ?S dvd t + stp then 1 else 0)), node_step := ?S, node_ds_cnt := ?c\<rparr>"
    using v c unfolding bound_at_def bind_node_def is_var_def Let_def g [symmetric] rows(2) j_def [symmetric] by simp_all
  then show ?thesis using v c idx(2) len ok rows(1)
    by (simp add: rpn_variable_def data_at_def value_at_def Let_def algebra_simps)
qed


text \<open>An expression whose elements have their data and that looks at the current rows only.\<close>

definition cdef_ok :: "graph_desc_t list \<Rightarrow> rpnp_t list \<Rightarrow> bool" where
  "cdef_ok gdes e \<longleftrightarrow>
     list_all (\<lambda>n. \<not> looks_back (op n) \<and> (op n = OP_VARIABLE \<and> g_ds_cnt (gdes ! nat (ptr n)) \<noteq> 0 \<longrightarrow> data_ok (gdes ! nat (ptr n)))) e"

lemma mem_cdef_sources:
  assumes "cdef_ok gdes e"
  shows "g \<in> set (cdef_sources gdes e) \<longleftrightarrow> (\<exists>n \<in> set e. op n = OP_VARIABLE \<and> g = gdes ! nat (ptr n) \<and> g_ds_cnt g \<noteq> 0)"
  using assms by (auto simp: cdef_ok_def cdef_sources_def is_var_def list.pred_set looks_back_def)

lemma sources_data_ok: "cdef_ok gdes e \<Longrightarrow> g \<in> set (cdef_sources gdes e) \<Longrightarrow> data_ok g"
  using mem_cdef_sources by (fastforce simp: cdef_ok_def list.pred_set)

lemma rpn_calc_bound:
  assumes ok: "cdef_ok gdes e" and stp: "0 < stp" "stp dvd t"
    and src: "\<And>g. g \<in> set (cdef_sources gdes e) \<Longrightarrow> stp dvd int (g_step g) \<and> g_start g \<le> t \<and> t + stp \<le> g_end g"
  shows "rpn_calc env (map (bound_at gdes t) e) (t + stp) out oi =
    map_sum id (\<lambda>(_, v). (map (bound_at gdes (t + stp)) e, v)) (rpn_calc env (map (at_time gdes (t + stp)) e) (t + stp) out oi)"
proof -
  let ?as = "map (bound_at gdes t) e" and ?bs = "map (at_time gdes (t + stp)) e" and ?cs = "map (bound_at gdes (t + stp)) e"
  have "(\<not> looks_back (op (?as ! k)) \<and> op (?as ! k) \<noteq> OP_VARIABLE \<and> ?bs ! k = ?as ! k \<and> ?cs ! k = ?as ! k) \<or>
      (op (?as ! k) = OP_VARIABLE \<and> op (?bs ! k) = OP_NUMBER \<and> rpn_variable (t + stp) oi (?as ! k) = Inr (val (?bs ! k), ?cs ! k))"
    if "k < length ?as" for k
  proof -
    define n g where "n = e ! k" and "g = gdes ! nat (ptr n)"
    have k: "k < length e" and n: "n \<in> set e" using that by (simp_all add: n_def)
    have nl: "\<not> looks_back (op n)" using ok n by (auto simp: cdef_ok_def list.pred_set)
    show ?thesis
    proof (cases "op n = OP_VARIABLE \<and> g_ds_cnt g \<noteq> 0")
      case True
      then have s: "g \<in> set (cdef_sources gdes e)" using mem_cdef_sources [OF ok] n g_def by blast
      note v = rpn_variable_bound [OF sources_data_ok [OF ok s] g_def conjunct1 [OF True] stp(1) _ stp(2)]
      have "op (bound_at gdes t n) = OP_VARIABLE" "at_time gdes (t + stp) n = n\<lparr>op := OP_NUMBER, val := value_at g (t + stp)\<rparr>"
        using True by (simp_all add: bound_at_def bind_node_def is_var_def at_time_def g_def Let_def)
      then show ?thesis using v src [OF s] k by (simp add: n_def)
    next
      case False
      then have "bound_at gdes t' n = at_time gdes (t + stp) n" for t'
        using nl by (auto simp: bound_at_def bind_node_def is_var_def at_time_def g_def Let_def looks_back_def)
      moreover have "\<not> looks_back (op (at_time gdes (t + stp) n))" "op (at_time gdes (t + stp) n) \<noteq> OP_VARIABLE"
        using nl by (auto simp: at_time_def Let_def looks_back_def)
      ultimately show ?thesis using k by (simp add: n_def)
    qed
  qed
  from rpn_run_sim [of ?bs ?as ?cs "t + stp" oi 0 env out "[]", OF _ _ this]
  have "rpn_run env (t + stp) out oi [0 ..< length ?as] (?as, []) =
      map_sum id (\<lambda>(_, st). (?cs, st)) (rpn_run env (t + stp) out oi [0 ..< length ?bs] (?bs, []))" by simp
  then show ?thesis unfolding rpn_calc_def by (auto simp: map_sum_def split: sum.splits list.splits)
qed

lemma cdef_values_spec:
  assumes "cdef_ok gdes e" and "0 < stp" and "int stp dvd t"
    and "\<And>g. g \<in> set (cdef_sources gdes e) \<Longrightarrow> int stp dvd int (g_step g) \<and> g_start g \<le> t \<and> t + int n * int stp \<le> g_end g"
  shows "cdef_values env stp t n (map (bound_at gdes t) e, out) =
    map_sum id (\<lambda>out. (map (bound_at gdes (t + int n * int stp)) e, out)) (cdef_spec env gdes e (int stp) (t + int stp) n out)"
  using assms(3,4)
proof (induction n arbitrary: t out)
  case (Suc n)
  have "t + int stp \<le> t + int (Suc n) * int stp" by (simp add: algebra_simps)
  then have "stp dvd g_step g \<and> g_start g \<le> t \<and> t + int stp \<le> g_end g" if "g \<in> set (cdef_sources gdes e)" for g
    using Suc.prems(2) [OF that] by (auto intro: order_trans)
  then have calc: "rpn_calc env (map (bound_at gdes t) e) (t + int stp) out (int (length out)) =
      map_sum id (\<lambda>(_, v). (map (bound_at gdes (t + int stp)) e, v)) (rpn_calc env (map (at_time gdes (t + int stp)) e) (t + int stp) out (int (length out)))"
    using assms(1,2) Suc.prems(1) by (intro rpn_calc_bound) auto
  have IH: "cdef_values env stp (t + int stp) n (map (bound_at gdes (t + int stp)) e, out) =
      map_sum id (\<lambda>out. (map (bound_at gdes (t + int stp + int n * int stp)) e, out)) (cdef_spec env gdes e (int stp) (t + int stp + int stp) n out)" for out
  proof (intro Suc.IH)
    show "int stp dvd t + int stp" using Suc.prems(1) by simp
    show "int stp dvd int (g_step g) \<and> g_start g \<le> t + int stp \<and> t + int stp + int n * int stp \<le> g_end g"
      if "g \<in> set (cdef_sources gdes e)" for g using Suc.prems(2) [OF that] by (simp add: algebra_simps)
  qed
  show ?case unfolding cdef_values.simps cdef_spec.simps prod.case calc
    by (auto simp: map_sum_def IH algebra_simps split: sum.splits)
qed simp


text \<open>The window and the step of the result.\<close>

lemma cdef_start_Max:
  assumes "srcs \<noteq> []" and "\<And>g. g \<in> set srcs \<Longrightarrow> 0 < g_start g"
  shows "cdef_start srcs = Max (g_start ` set srcs)"
proof -
  have "fold (\<lambda>g s. if s < g_start g then g_start g else s) gs s = fold max (map g_start gs) s" for gs s
    by (induction gs arbitrary: s) (simp_all add: max_def not_less)
  then have "cdef_start srcs = Max (set (0 # map g_start srcs))" unfolding cdef_start_def Max.set_eq_fold by blast
  moreover obtain g where "g \<in> set srcs" using assms(1) by (cases srcs) auto
  then have "0 \<le> Max (g_start ` set srcs)" using assms(2) by (intro Max_ge_iff [THEN iffD2]) (auto intro: less_imp_le)
  ultimately show ?thesis using assms(1) by (simp add: max_absorb2)
qed

lemma cdef_end_Min:
  assumes "srcs \<noteq> []" and "\<And>g. g \<in> set srcs \<Longrightarrow> 0 < g_end g"
  shows "cdef_end srcs = Min (g_end ` set srcs)"
proof -
  have f: "fold (\<lambda>g e. if e = 0 \<or> g_end g < e then g_end g else e) gs e = fold min (map g_end gs) e"
    if "0 < e" "\<And>g. g \<in> set gs \<Longrightarrow> 0 < g_end g" for gs e
    using that by (induction gs arbitrary: e) (simp_all add: min_def)
  obtain g gs where gs: "srcs = g # gs" using assms(1) by (cases srcs) auto
  then have "cdef_end srcs = fold min (map g_end gs) (g_end g)" using f [of "g_end g" gs] assms(2) by (simp add: cdef_end_def)
  then show ?thesis using gs by (simp flip: Min.set_eq_fold)
qed

lemma move_bind_node:
  assumes "cdef_ok gdes e" and "n \<in> set e" and "\<And>g. g \<in> set (cdef_sources gdes e) \<Longrightarrow> g_start g \<le> t"
  shows "move_node gdes t (bind_node gdes n) = bound_at gdes t n"
proof (cases "op n = OP_VARIABLE \<and> g_ds_cnt (gdes ! nat (ptr n)) \<noteq> 0")
  case True
  then have "gdes ! nat (ptr n) \<in> set (cdef_sources gdes e)" using mem_cdef_sources [OF assms(1)] assms(2) by blast
  from assms(3) [OF this] show ?thesis using True
    by (cases "g_start (gdes ! nat (ptr n)) = t") (simp_all add: move_node_def bind_node_def bound_at_def is_var_def Let_def algebra_simps)
next
  case False
  have "\<not> looks_back (op n)" using assms(1,2) by (auto simp: cdef_ok_def list.pred_set)
  with False show ?thesis by (auto simp: move_node_def bind_node_def bound_at_def is_var_def Let_def looks_back_def)
qed

text \<open>
  C21: A CDEF whose elements have their data, at any steps, covers the common window of its elements at the greatest common divisor of
  their steps, and for every time in it its value (or its error) is that of the expression in which each variable is replaced by
  the value its element has for the interval around this time. The elements are ready (\<open>cdef_ok\<close>): each has a positive step, a window
  after time 0 aligned to it and as many rows as the window has; at least one variable has data and the common window is not
  empty. The operators that look at other times of an element (TREND, TRENDNAN, PREDICT, PREDICTSIGMA, PREV of a name) are
  left out of this theorem.
\<close>

theorem cdef_pointwise:
  assumes ok: "cdef_ok gdes (g_rpnp g)" and srcs: "srcs = cdef_sources gdes (g_rpnp g)" "srcs \<noteq> []"
    and win: "start = Max (g_start ` set srcs)" "end' = Min (g_end ` set srcs)" "stp = Gcd (g_step ` set srcs)" and le: "start \<le> end'"
  shows "\<exists>nodes. cdef_calc env gdes g =
    map_sum GraphRpn (\<lambda>out. g\<lparr>g_ds_cnt := 1, g_ds := 0, g_start := start, g_end := end', g_step := stp, g_rpnp := nodes, g_data := out\<rparr>)
      (cdef_spec env gdes (g_rpnp g) (int stp) (start + int stp) (nat (end' - start) div stp) [])"
proof -
  let ?e = "g_rpnp g" and ?n = "nat (end' - start) div stp"
  have d: "data_ok h" if "h \<in> set srcs" for h using sources_data_ok [OF ok] that srcs(1) by simp
  have fin: "finite (g_start ` set srcs)" "g_start ` set srcs \<noteq> {}" "finite (g_end ` set srcs)" using srcs(2) by simp_all
  have "0 < g_start h \<and> 0 < g_end h" if "h \<in> set srcs" for h using d [OF that] by (simp add: data_ok_def)
  then have s: "cdef_start srcs = start" "cdef_end srcs = end'" unfolding win using srcs(2) by (simp_all add: cdef_start_Max cdef_end_Min)
  have stp: "lcd (map g_step srcs) = stp" unfolding win using lcd_Gcd [of "map g_step srcs"] srcs(2) d by (auto simp: data_ok_def list.pred_set)
  have dvd: "int stp dvd int (g_step h)" if "h \<in> set srcs" for h using that by (simp add: win)
  obtain h where h: "h \<in> set srcs" "start = g_start h" using Max_in [OF fin(1,2)] win(1) by auto
  have pos: "0 < stp" using dvd [OF h(1)] d [OF h(1)] by (auto simp: data_ok_def intro!: Nat.gr0I)
  have t: "int stp dvd start" using dvd [OF h(1)] d [OF h(1)] h(2) by (auto simp: data_ok_def intro: dvd_trans)
  have "int ?n * int stp \<le> end' - start" 
  proof -
    have "int (?n * stp) \<le> int (nat (end' - start))" unfolding of_nat_le_iff by (rule div_times_less_eq_dividend)
    then show ?thesis using le by simp
  qed
  moreover have "g_start h \<le> start" "end' \<le> g_end h" if "h \<in> set srcs" for h
    unfolding win(1,2) using that fin by (auto intro: Max_ge Min_le)
  ultimately have src: "int stp dvd int (g_step h) \<and> g_start h \<le> start \<and> start + int ?n * int stp \<le> g_end h"
    if "h \<in> set (cdef_sources gdes ?e)" for h using that dvd unfolding srcs(1) [symmetric] by (auto simp: algebra_simps intro: order_trans)
  have nodes: "map (move_node gdes start) (map (bind_node gdes) ?e) = map (bound_at gdes start) ?e"
    using move_bind_node [OF ok] src by simp
  have nz: "\<not> list_ex (\<lambda>h. g_step h = 0 \<and> g_start h < start) srcs" using d by (auto simp: list_ex_iff data_ok_def)
  have spec: "cdef_values env stp start ?n (map (bound_at gdes start) ?e, []) =
      map_sum id (\<lambda>out. (map (bound_at gdes (start + int ?n * int stp)) ?e, out)) (cdef_spec env gdes ?e (int stp) (start + int stp) ?n [])"
    by (rule cdef_values_spec [OF ok pos t src])
  have "cdef_calc env gdes g = (case cdef_values env stp start ?n (map (bound_at gdes start) ?e, []) of
      Inl e \<Rightarrow> Inl (GraphRpn e)
    | Inr (nodes, out) \<Rightarrow> Inr (g\<lparr>g_ds_cnt := 1, g_ds := 0, g_start := start, g_end := end', g_step := stp, g_rpnp := nodes, g_data := out\<rparr>))"
    using srcs(2) pos le nz unfolding cdef_calc_def Let_def srcs(1) [symmetric] s stp nodes by simp
  then show ?thesis unfolding spec
    by (intro exI [of _ "map (bound_at gdes (start + int ?n * int stp)) ?e"])
      (cases "cdef_spec env gdes ?e (int stp) (start + int stp) ?n []"; simp only: map_sum.simps sum.case prod.case id_apply)
qed


text \<open>Two elements with steps of 300 and 600 seconds, and their sum.\<close>

definition demo_element :: "gf_en \<Rightarrow> nat \<Rightarrow> int \<Rightarrow> int \<Rightarrow> dbl list \<Rightarrow> rpnp_t list \<Rightarrow> graph_desc_t" where
  "demo_element gf stp start end' values e =
     \<lparr>g_gf = gf, g_vname = [], g_vidx = 0, g_rrd = [], g_ds_nam = [], g_ds = 0, g_cf = CF_AVERAGE, g_cf_reduce = CF_AVERAGE, g_legend = [],
      g_vf = \<lparr>vop = VDEF_MAXIMUM, vparam = NaN, vval = NaN, vwhen = 0\<rparr>, g_rpnp = e, g_shidx = - 1, g_shval = 0, g_shift = 0,
      g_start = start, g_end = end', g_start_orig = start, g_end_orig = end', g_step = stp, g_step_orig = stp, g_ds_cnt = 1, g_ds_namv = [''x''],
      g_data = values\<rparr>"

definition demo_gdes :: "graph_desc_t list" where
  "demo_gdes = [demo_element GF_DEF 300 600 1500 [Fin 1, Fin 2, Fin 3] [], demo_element GF_DEF 600 600 1200 [Fin 10] []]"

definition demo_cdef :: graph_desc_t where
  "demo_cdef = demo_element GF_CDEF 0 0 0 [] [rpn_node OP_VARIABLE, (rpn_node OP_VARIABLE)\<lparr>ptr := 1\<rparr>, rpn_node OP_ADD]"

lemma demo_sources: "cdef_sources demo_gdes (g_rpnp demo_cdef) = demo_gdes"
  by (simp add: cdef_sources_def demo_gdes_def demo_cdef_def demo_element_def is_var_def rpn_node_def)

theorem cdef_pointwise_witness:
  "\<exists>nodes. cdef_calc demo_env demo_gdes demo_cdef = Inr (demo_cdef\<lparr>g_ds_cnt := 1, g_ds := 0, g_start := 600, g_end := 1200, g_step := 300,
     g_rpnp := nodes, g_data := [Fin 11, Fin 12]\<rparr>)"
proof -
  have ok: "cdef_ok demo_gdes (g_rpnp demo_cdef)" by code_simp
  have w: "demo_gdes \<noteq> []" "600 = Max (g_start ` set demo_gdes)" "1200 = Min (g_end ` set demo_gdes)" "300 = Gcd (g_step ` set demo_gdes)"
    by (simp_all add: demo_gdes_def demo_element_def gcd_nat.absorb1)
  have "cdef_spec demo_env demo_gdes (g_rpnp demo_cdef) (int 300) (600 + int 300) (nat (1200 - 600) div 300) [] = Inr [Fin 11, Fin 12]" by code_simp
  with cdef_pointwise [OF ok demo_sources [symmetric] w, of demo_env] show ?thesis by simp
qed

end
