(* ===== verification/Graph_Export.thy ===== *)
theory Graph_Export
  imports Graph_Data
begin

text \<open>
  The table of an export (\<open>rrd_xport_fn\<close> of \<open>rrd_xport.c\<close>), on the elements that \<open>Graph_Data\<close> fetches and computes, and the check of
  format strings (\<open>bad_format\<close> of \<open>rrd_graph.c\<close>).
\<close>

section \<open>Model\<close>

record xported =
  x_start :: int
  x_end :: int
  x_step :: nat
  x_legend :: "string list"
  x_data :: "dbl list"

text \<open>\<open>(unsigned long) floor((double) (now - start) / step)\<close>\<close>

definition xport_row :: "graph_desc_t \<Rightarrow> int \<Rightarrow> nat" where
  "xport_row g now = d_to_ulong (dfloor (d_of_int (now - g_start g) / d_of_nat (g_step g)))"

definition xport_cell :: "graph_desc_t \<Rightarrow> int \<Rightarrow> graph_error + dbl" where
  "xport_cell g now =
     (let i = u64 (int (xport_row g now) * int (g_ds_cnt g) + g_ds g)
      in if i < length (g_data g) then Inr (g_data g ! i) else Inl GraphOutOfBounds)"

fun xport_cells :: "graph_desc_t list \<Rightarrow> int \<Rightarrow> dbl list \<Rightarrow> graph_error + dbl list" where
  "xport_cells [] now out = Inr out"
| "xport_cells (g # gs) now out =
     (case xport_cell g now of Inl e \<Rightarrow> Inl e | Inr v \<Rightarrow> xport_cells gs now (out @ [v]))"

fun xport_rows :: "graph_desc_t list \<Rightarrow> int \<Rightarrow> nat \<Rightarrow> nat list \<Rightarrow> dbl list \<Rightarrow> graph_error + dbl list" where
  "xport_rows gs start stp [] out = Inr out"
| "xport_rows gs start stp (r # rs) out =
     (case xport_cells gs (start + int r * int stp) out of Inl e \<Rightarrow> Inl e | Inr out \<Rightarrow> xport_rows gs start stp rs out)"

text \<open>The table of the elements as they are behind \<open>data_calc\<close>. The loop compares its counters as \<open>int\<close>.\<close>

definition xport_table :: "image_desc_t \<Rightarrow> graph_error + xported" where
  "xport_table im =
     (let xs = filter (\<lambda>g. g_gf g = GF_XPORT) (im_gdes im);
          gs = map (\<lambda>g. im_gdes im ! g_vidx g) xs;
          stp = lcd (map g_step gs)
      in if xs = [] then Inl GraphNoXport
         else if stp = 0 then Inl GraphDivision
         else
           let start = s64 (im_start im - int (u64 (im_start im) mod stp));
               end' = s64 (im_end im - int (u64 (im_end im) mod stp) + int stp);
               row_cnt = u64 (end' - start) div stp
           in map_sum id (\<lambda>out. \<lparr>x_start = start, x_end = end', x_step = stp, x_legend = map g_legend xs, x_data = out\<rparr>)
                (xport_rows gs start stp [0 ..< nat (s32 (int row_cnt))] []))"

definition rrd_xport_fn :: "graph_files \<Rightarrow> graph_libm \<Rightarrow> image_desc_t \<Rightarrow> graph_error + xported" where
  "rrd_xport_fn fs lm im =
     (case data_fetch fs im of
        Inl e \<Rightarrow> Inl e
      | Inr im \<Rightarrow> (case data_calc lm im of Inl e \<Rightarrow> Inl e | Inr im \<Rightarrow> xport_table im))"

text \<open>The check of a format string, with the number \<open>n\<close> of directives for the value so far.\<close>

fun skip_sign :: "string \<Rightarrow> string" where
  "skip_sign (c # s) = (if c = CHR '' '' \<or> c = CHR ''+'' \<or> c = CHR ''-'' then s else c # s)"
| "skip_sign [] = []"

fun skip_dot :: "string \<Rightarrow> string" where
  "skip_dot (c # s) = (if c = CHR ''.'' then s else c # s)"
| "skip_dot [] = []"

definition skip_width :: "string \<Rightarrow> string" where
  "skip_width s = dropWhile is_digit (skip_dot (dropWhile is_digit (skip_sign s)))"

lemma skip_width_length: "length (skip_width s) \<le> length s"
proof -
  have "length (skip_sign s) \<le> length s" and "length (skip_dot t) \<le> length t" for t
    by (cases s; simp) (cases t; simp)
  then show ?thesis unfolding skip_width_def by (meson length_dropWhile_le order_trans)
qed

lemma skip_width_Cons: "skip_width s = l # e # u \<Longrightarrow> length u < length s"
  using skip_width_length [of s] by simp

function bad_format_from :: "string \<Rightarrow> nat \<Rightarrow> bool" where
  "bad_format_from [] n = (n \<noteq> 1)"
| "bad_format_from (c # s) n =
     (if c \<noteq> CHR ''%'' then bad_format_from s n
      else case s of
             [] \<Rightarrow> True
           | d # t \<Rightarrow>
               if d = CHR ''s'' \<or> d = CHR ''S'' \<or> d = CHR ''%'' then bad_format_from t n
               else if d = CHR ''c'' then bad_format_from t 1
               else (case skip_width s of
                       l # e # u \<Rightarrow>
                         if l = CHR ''l'' \<and> (e = CHR ''e'' \<or> e = CHR ''f'' \<or> e = CHR ''g'') then bad_format_from u (n + 1) else True
                     | _ \<Rightarrow> True))"
  by pat_completeness auto

termination
  by (relation "measure (\<lambda>(s, _). length s)") (auto dest: skip_width_Cons)

definition bad_format :: "string \<Rightarrow> bool" where
  "bad_format fmt = bad_format_from fmt 0"

text \<open>A format with two values passes when a \<open>%c\<close> follows, which resets the count.\<close>

lemma bad_format_reset: "\<not> bad_format ''%lf%lf%c''"
  by code_simp

section \<open>Rows\<close>

text \<open>The floor of a quotient survives the rounding of the division.\<close>

lemma floor_rnd64_quotient:
  assumes "0 \<le> n" and "0 < S" and "n + S \<le> (2 :: int) ^ 52"
  shows "\<lfloor>rnd64 (of_int n / of_int S)\<rfloor> = n div S"
proof (cases "n = 0 \<or> S = 1")
  case False
  define k where "k = n div S"
  let ?x = "of_int n / of_int S :: rat"
  have x: "0 < ?x" using False assms by simp
  have k: "0 \<le> k" using assms by (simp add: k_def pos_imp_zdiv_nonneg_iff)
  have n: "S * k \<le> n" "n \<le> S * k + S - 1" using assms(2) pos_mod_bound [of S n] pos_mod_sign [of S n] mult_div_mod_eq [of S n] unfolding k_def by linarith+
  have S: "2 \<le> nat S" using False assms(2) by linarith
  obtain i where "2 ^ i < nat S" "nat S \<le> 2 ^ (i + 1)" using ex_power_ivl2 [OF order_refl S] by blast
  then have i: "int (2 ^ i) < S" "S \<le> int (2 ^ (i + 1))" by linarith+
  define P :: int where "P = 2 ^ (i + 1)"
  have P: "S \<le> P" "P < 2 * S" using i by (simp_all add: P_def)
  have "1 * P \<le> (k + 1) * P" using k P assms(2) by (intro mult_right_mono) simp_all
  then have pos: "P \<le> (k + 1) * P" by simp
  have "(k + 1) * P < (k + 1) * (2 * S)" using P(2) k by (intro mult_strict_left_mono) simp_all
  also have "\<dots> \<le> 2 * (n + S)" using n(1) by (simp add: algebra_simps)
  also have "\<dots> \<le> 2 * 2 ^ 52" using assms(3) by simp
  finally have big: "(k + 1) * P < 2 ^ 53" by simp
  have "P < 2 ^ 53" using big pos by linarith
  then have "(2 :: int) ^ (i + 1) < 2 ^ 53" by (simp only: P_def)
  then have j: "i + 1 < 53" by (rule power_less_imp_less_exp [rotated]) simp
  have up: "rnd64 ?x \<le> of_int (k + 1) - 1 / of_int P"
  proof (rule rnd64_mono_representable(1) [OF x, of _ "(k + 1) * P - 1" "- int (i + 1)"])
    show "of_int (k + 1) - 1 / of_int P = of_int ((k + 1) * P - 1) * (2 powi - int (i + 1) :: rat)"
    proof -
      have "(2 :: rat) powi - int (i + 1) = 1 / 2 ^ (i + 1)" by (simp only: power_int_minus power_int_of_nat inverse_eq_divide)
      also have "\<dots> = 1 / of_int P" by (simp add: P_def)
      finally have p: "(2 :: rat) powi - int (i + 1) = 1 / of_int P" .
      have "(of_int P :: rat) \<noteq> 0" using P S by simp
      then show ?thesis unfolding p by (simp add: field_simps)
    qed
    have "?x \<le> (of_int (S * k + S - 1)) / of_int S" using n(2) assms(2) by (intro divide_right_mono) (simp_all only: of_int_le_iff of_int_0_le_iff)
    also have "\<dots> = of_int (k + 1) - 1 / of_int S" using assms(2) by (simp add: field_simps)
    also have "\<dots> \<le> of_int (k + 1) - 1 / of_int P" using P(1) assms(2) by (simp add: frac_le)
    finally show "?x \<le> of_int (k + 1) - 1 / of_int P" .
  qed (use pos big j P S in linarith)+
  have low: "of_int k \<le> rnd64 ?x"
  proof (cases "k = 0")
    case True
    then show ?thesis using rnd64_nonneg [of ?x] x by simp
  next
    case False
    have "of_int (S * k) / of_int S \<le> ?x" using n(1) assms(2) by (intro divide_right_mono) (simp_all only: of_int_le_iff of_int_0_le_iff)
    moreover have "(k + 1) * 1 \<le> (k + 1) * P" using k P S by (intro mult_left_mono) linarith+
    then have "k + 1 \<le> (k + 1) * P" by simp
    then have "k + 1 < 2 ^ 53" using big by (rule le_less_trans)
    then have "k < 2 ^ 53" by simp
    ultimately show ?thesis using False k assms(2) by (intro rnd64_mono_representable(2) [OF x, of _ k 0]) simp_all
  qed
  have "0 < (1 :: rat) / of_int P" using P S by simp
  moreover have "rnd64 ?x \<le> of_int k + 1 - 1 / of_int P" using up by simp
  ultimately have "rnd64 ?x < of_int k + 1" by linarith
  with low show ?thesis unfolding k_def [symmetric] by (intro floor_unique)
next
  case True
  then show ?thesis using assms rnd64_exact [of "of_int n" n 0] by (auto simp: rnd64_def)
qed


text \<open>The value that an export looks up is the one of the interval that begins at \<open>now\<close>.\<close>

lemma xport_cell_value:
  assumes ok: "data_ok g" and stp: "0 < stp" "stp dvd int (g_step g)" "stp dvd now"
    and now: "g_start g \<le> now" "now + stp \<le> g_end g" and small: "g_end g < 2 ^ 51" "length (g_data g) < 2 ^ 62"
  shows "xport_cell g now = Inr (value_at g (now + stp))"
proof -
  let ?S = "int (g_step g)" and ?c = "int (g_ds_cnt g)"
  define j where "j = (now - g_start g) div ?S"
  note ok = ok [unfolded data_ok_def]
  have S: "0 < ?S" "?S \<le> g_end g" using ok by (auto intro: zdvd_imp_le)
  have "0 < g_start g" and "(2 :: int) ^ 52 = 2 * 2 ^ 51" using ok by simp_all
  then have n: "0 \<le> now - g_start g" "now - g_start g + ?S \<le> 2 ^ 52" using now S stp(1) small(1) by linarith+
  then have q: "of_int (now - g_start g) / of_int ?S \<le> (of_int (now - g_start g) :: rat)" using S
    by (simp add: divide_le_eq mult_le_cancel_left1 del: of_int_of_nat_eq)
  have "now < g_end g" using stp(1) now(2) by linarith
  note idx = data_ok_index [OF assms(1) now(1) this j_def]
  have j: "0 \<le> j" "j \<le> now - g_start g" using idx(1) n(1) S unfolding j_def
    by (simp_all add: zdiv_mono2 [of _ 1 "int (g_step g)", simplified])
  have "d_of_int (now - g_start g) / d_of_nat (g_step g) = Fin (rnd64 (of_int (now - g_start g) / of_int ?S))"
    using n S q divide_nonneg [of "of_int (now - g_start g)" "of_int ?S" "now - g_start g"] by (simp add: d_of_int_small)
  then have "xport_row g now = d_to_ulong (d_of_int j)"
    using floor_rnd64_quotient [OF n(1) S(1) n(2)] by (simp add: xport_row_def j_def)
  also have "\<dots> = nat j" using j n by (simp add: d_of_int_small d_to_ulong_def d_to_long_def rtrunc_def u64_def nat_mod_as_int)
  finally have row: "int (xport_row g now) = j" using j by simp
  have "(now + stp - 1 - g_start g) div ?S = j" unfolding j_def using row_of_time(1) [OF stp(1,2) S(1) _ stp(3)] ok by simp
  then have v: "value_at g (now + stp) = g_data g ! nat (g_ds g + ?c * j)" by (simp add: value_at_def)
  have "u64 (j * ?c + g_ds g) = nat (g_ds g + ?c * j)" using idx(2,3) small(2) by (simp add: u64_def algebra_simps)
  then show ?thesis unfolding xport_cell_def row v Let_def using idx(2,3) by simp
qed


lemma xport_cells_map:
  assumes "\<And>g. g \<in> set gs \<Longrightarrow> xport_cell g now = Inr (f g)"
  shows "xport_cells gs now out = Inr (out @ map f gs)"
  using assms by (induction gs arbitrary: out) simp_all

lemma xport_rows_map:
  assumes "\<And>g r. g \<in> set gs \<Longrightarrow> r \<in> set rs \<Longrightarrow> xport_cell g (start + int r * int stp) = Inr (f r g)"
  shows "xport_rows gs start stp rs out = Inr (out @ concat (map (\<lambda>r. map (f r) gs) rs))"
  using assms
proof (induction rs arbitrary: out)
  case (Cons r rs)
  then have "xport_cells gs (start + int r * int stp) out = Inr (out @ map (f r) gs)" by (intro xport_cells_map) simp
  with Cons show ?case by simp
qed simp

section \<open>Properties\<close>

text \<open>
  C23: The table of an export whose columns have data and cover the window: its step is the greatest common divisor of the steps
  of the columns, its window is the wanted one rounded to this step (the end always behind the wanted end), and its rows are,
  interval after interval, the values that the columns have for the end of the interval. At least one column is exported, its data
  is aligned and complete (\<open>data_ok\<close>), every column covers the rounded window, and rows, values and times stay below 2^31, 2^62
  and 2^51. A column that does not cover the window is read outside of its array by the code.
\<close>

theorem xport_table_values:
  assumes xs: "xs = filter (\<lambda>g. g_gf g = GF_XPORT) (im_gdes im)" "xs \<noteq> []" and gs: "gs = map (\<lambda>g. im_gdes im ! g_vidx g) xs"
    and stp: "stp = Gcd (g_step ` set gs)" and win: "start = im_start im - im_start im mod int stp" "end' = im_end im - im_end im mod int stp + int stp"
    and ok: "list_all (\<lambda>g. data_ok g \<and> g_start g \<le> start \<and> end' \<le> g_end g \<and> g_end g < 2 ^ 51 \<and> length (g_data g) < 2 ^ 62) gs"
    and im: "im_start im \<le> im_end im" and n: "n = nat ((end' - start) div int stp)" "n < 2 ^ 31"
  shows "xport_table im = Inr \<lparr>x_start = start, x_end = end', x_step = stp, x_legend = map g_legend xs,
    x_data = concat (map (\<lambda>r. map (\<lambda>g. value_at g (start + int (r + 1) * int stp)) gs) [0 ..< n])\<rparr>"
proof -
  have ok': "data_ok g" "g_start g \<le> start" "end' \<le> g_end g" "g_end g < 2 ^ 51" "length (g_data g) < 2 ^ 62" if "g \<in> set gs" for g
    using ok that by (auto simp: list.pred_set)
  obtain h where h: "h \<in> set gs" using gs xs(2) by (cases xs) auto
  have dvd: "int stp dvd int (g_step g)" if "g \<in> set gs" for g using that by (simp add: stp)
  have pos: "0 < stp" using dvd [OF h] ok'(1) [OF h] by (auto simp: data_ok_def intro!: Nat.gr0I)
  have lcd: "lcd (map g_step gs) = stp" unfolding stp using lcd_Gcd [of "map g_step gs"] h ok'(1) by (cases gs) (auto simp: data_ok_def list.pred_set)
  have t: "int stp dvd start" "int stp dvd end'" unfolding win by (simp_all add: minus_mod_eq_mult_div dvd_add)
  have "0 < g_start h" using ok'(1) [OF h] by (simp add: data_ok_def)
  moreover have md: "0 \<le> im_start im mod int stp" "im_end im mod int stp < int stp" "0 \<le> im_end im mod int stp" using pos by simp_all
  ultimately have b: "0 \<le> im_start im" "0 \<le> im_end im" "im_end im < end'" "0 < start" "start \<le> end'" "end' < 2 ^ 51"
    using ok'(2-4) [OF h] im unfolding win by linarith+
  have big: "(2 :: int) ^ 51 < 2 ^ 63" "(2 :: int) ^ 63 < 2 ^ 64" by simp_all
  have u: "int (u64 (im_start im) mod stp) = im_start im mod int stp" "int (u64 (im_end im) mod stp) = im_end im mod int stp"
    using b im big by (simp_all add: u64_def zmod_int)
  have w: "s64 (im_start im - int (u64 (im_start im) mod stp)) = start" "s64 (im_end im - int (u64 (im_end im) mod stp) + int stp) = end'"
    unfolding u win [symmetric] using b big by (simp_all add: s64_def)
  have "u64 (end' - start) = nat (end' - start)" using b big by (simp add: u64_def)
  then have rows: "u64 (end' - start) div stp = n" unfolding n(1) using b(5) by (simp add: nat_div_distrib)
  have s: "nat (s32 (int n)) = n" using n(2) by (simp add: s32_def)
  have cell: "xport_cell g (start + int r * int stp) = Inr (value_at g (start + int (r + 1) * int stp))"
    if g: "g \<in> set gs" and r: "r \<in> set [0 ..< n]" for g r
  proof -
    have "int (r + 1) * int stp \<le> int n * int stp" using r by (intro mult_right_mono) simp_all
    also have "\<dots> \<le> end' - start" unfolding n(1) using b(5) pos by (simp add: pos_imp_zdiv_nonneg_iff minus_mod_eq_div_mult [symmetric])
    finally have "start + int r * int stp + int stp \<le> g_end g" using ok'(3) [OF g] by (simp add: algebra_simps)
    moreover have "g_start g \<le> start + int r * int stp" using ok'(2) [OF g] by (rule order_trans) simp
    ultimately show ?thesis using xport_cell_value [OF ok'(1) [OF g] _ dvd [OF g], of "start + int r * int stp"] pos t(1) ok' [OF g]
      by (simp add: algebra_simps)
  qed
  show ?thesis unfolding xport_table_def Let_def xs(1) [symmetric] gs [symmetric] lcd w rows s
    using xs(2) pos xport_rows_map [of gs "[0 ..< n]", OF cell] by simp
qed


definition demo_image :: image_desc_t where
  "demo_image = \<lparr>im_start = 610, im_end = 1100, im_step = 1, im_gdes = demo_gdes @
     [(demo_element GF_XPORT 0 0 0 [] [])\<lparr>g_legend := ''a''\<rparr>, (demo_element GF_XPORT 0 0 0 [] [])\<lparr>g_vidx := 1, g_legend := ''b''\<rparr>]\<rparr>"

theorem xport_table_values_witness:
  "xport_table demo_image = Inr \<lparr>x_start = 600, x_end = 1200, x_step = 300, x_legend = [''a'', ''b''], x_data = [Fin 1, Fin 10, Fin 2, Fin 10]\<rparr>"
proof -
  let ?xs = "filter (\<lambda>g. g_gf g = GF_XPORT) (im_gdes demo_image)"
  have gs: "demo_gdes = map (\<lambda>g. im_gdes demo_image ! g_vidx g) ?xs" and l: "map g_legend ?xs = [''a'', ''b'']" and ne: "?xs \<noteq> []"
    by (simp_all add: demo_image_def demo_gdes_def demo_element_def)
  have stp: "300 = Gcd (g_step ` set demo_gdes)" by (simp add: demo_gdes_def demo_element_def gcd_nat.absorb1)
  have w: "600 = im_start demo_image - im_start demo_image mod int 300" "1200 = im_end demo_image - im_end demo_image mod int 300 + int 300"
    "im_start demo_image \<le> im_end demo_image" "2 = nat ((1200 - 600) div int 300)" "2 < (2 :: nat) ^ 31" by (simp_all add: demo_image_def)
  have ok: "list_all (\<lambda>g. data_ok g \<and> g_start g \<le> 600 \<and> 1200 \<le> g_end g \<and> g_end g < 2 ^ 51 \<and> length (g_data g) < 2 ^ 62) demo_gdes"
    by (simp add: demo_gdes_def demo_element_def data_ok_def)
  have "concat (map (\<lambda>r. map (\<lambda>g. value_at g (600 + int (r + 1) * int 300)) demo_gdes) [0 ..< 2]) = [Fin 1, Fin 10, Fin 2, Fin 10]"
    by code_simp
  with xport_table_values [OF refl ne gs stp w(1,2) ok w(3-5)] l show ?thesis by simp
qed

end
