(* ===== verification/File_Image.thy ===== *)
theory File_Image
  imports RRD_Format C_Strings
begin

text \<open>
  The file as a sequence of bytes, and how \<open>rrd_open\<close> (\<open>rrd_open.c\<close>) finds the structures in it. The layout is that of a little
  endian LP64 machine with IEEE doubles: \<open>stat_head_t\<close> has 128 bytes, \<open>ds_def_t\<close> and \<open>rra_def_t\<close> 120, \<open>live_head_t\<close> 16,
  \<open>pdp_prep_t\<close> 112, \<open>cdp_prep_t\<close> 80, \<open>rra_ptr_t\<close> and a value 8. As in the program, opening gives pointers into the mapped
  file; the database is what is seen through them.
\<close>

section \<open>Numbers, strings and doubles\<close>

type_synonym bytes = "nat list"

primrec le :: "nat \<Rightarrow> nat \<Rightarrow> bytes" where
  "le 0 n = []"
| "le (Suc k) n = n mod 256 # le k (n div 256)"

primrec unle :: "bytes \<Rightarrow> nat" where
  "unle [] = 0"
| "unle (b # bs) = b + 256 * unle bs"

definition sub :: "nat \<Rightarrow> nat \<Rightarrow> bytes \<Rightarrow> bytes" where
  "sub off n f = take n (drop off f)"

definition enc_str :: "nat \<Rightarrow> string \<Rightarrow> bytes" where
  "enc_str n str = map of_char str @ replicate (n - length str) 0"

definition dec_str :: "bytes \<Rightarrow> string" where
  "dec_str bs = map char_of (takeWhile (\<lambda>b. b \<noteq> 0) bs)"

text \<open>The binary format of doubles; a NaN is written as the quiet NaN without payload.\<close>

definition bits_of :: "dbl \<Rightarrow> nat" where
  "bits_of x =
     (case x of
        NaN \<Rightarrow> 2047 * 2 ^ 52 + 2 ^ 51 | PInf \<Rightarrow> 2047 * 2 ^ 52 | NInf \<Rightarrow> 2 ^ 63 + 2047 * 2 ^ 52 | NZero \<Rightarrow> 2 ^ 63
      | Fin q \<Rightarrow>
          if q = 0 then 0
          else let e = ulp_exp q; n = nat \<lfloor>\<bar>q\<bar> / pow2 e\<rfloor>
               in (if q < 0 then 2 ^ 63 else 0) + (if n < 2 ^ 52 then n else nat (e + 1075) * 2 ^ 52 + (n - 2 ^ 52)))"

definition of_bits :: "nat \<Rightarrow> dbl" where
  "of_bits b =
     (let e = b div 2 ^ 52 mod 2 ^ 11; m = b mod 2 ^ 52; neg = 2 ^ 63 \<le> b
      in if e = 2047 then (if m \<noteq> 0 then NaN else if neg then NInf else PInf)
         else let q = (if e = 0 then of_nat m * pow2 (- 1074) else of_nat (2 ^ 52 + m) * pow2 (int e - 1075))
              in if q = 0 then (if neg then NZero else Fin 0) else Fin (if neg then - q else q))"

definition enc_dbl :: "dbl \<Rightarrow> bytes" where
  "enc_dbl x = le 8 (bits_of x)"

definition dec_dbl :: "bytes \<Rightarrow> dbl" where
  "dec_dbl bs = of_bits (unle bs)"

definition enc_u64 :: "nat \<Rightarrow> bytes" where
  "enc_u64 n = le 8 n"

definition enc_s64 :: "int \<Rightarrow> bytes" where
  "enc_s64 i = le 8 (u64 i)"

definition dec_s64 :: "bytes \<Rightarrow> int" where
  "dec_s64 bs = s64 (int (unle bs))"

section \<open>Structures\<close>

definition RRD_COOKIE :: string where
  "RRD_COOKIE = ''RRD''"

definition FLOAT_COOKIE :: dbl where
  "FLOAT_COOKIE = d_of_int (8642135 * 10 ^ 124)"

definition enc_stat_head :: "stat_head_t \<Rightarrow> bytes" where
  "enc_stat_head h =
     enc_str 4 RRD_COOKIE @ enc_str 5 (version h) @ replicate 7 0 @ enc_dbl FLOAT_COOKIE @
     enc_u64 (ds_cnt h) @ enc_u64 (rra_cnt h) @ enc_u64 (pdp_step h) @ replicate 80 0"

definition dec_stat_head :: "bytes \<Rightarrow> stat_head_t" where
  "dec_stat_head bs =
     \<lparr>version = dec_str (sub 4 5 bs), ds_cnt = unle (sub 24 8 bs), rra_cnt = unle (sub 32 8 bs), pdp_step = unle (sub 40 8 bs)\<rparr>"

text \<open>The operators by number; \<open>OP_END\<close> terminates an expression.\<close>

definition op_list :: "op_en list" where
  "op_list = [OP_NUMBER, OP_VARIABLE, OP_INF, OP_PREV, OP_NEGINF, OP_UNKN, OP_NOW, OP_TIME, OP_ADD, OP_MOD, OP_SUB, OP_MUL,
     OP_DIV, OP_SIN, OP_DUP, OP_EXC, OP_POP, OP_COS, OP_LOG, OP_EXP, OP_LT, OP_LE, OP_GT, OP_GE, OP_EQ, OP_IF,
     OP_MIN, OP_MAX, OP_LIMIT, OP_FLOOR, OP_CEIL, OP_UN, OP_END, OP_LTIME, OP_NE, OP_ISINF, OP_PREV_OTHER, OP_COUNT,
     OP_ATAN, OP_SQRT, OP_SORT, OP_REV, OP_TREND, OP_TRENDNAN, OP_ATAN2, OP_RAD2DEG, OP_DEG2RAD,
     OP_PREDICT, OP_PREDICTSIGMA, OP_AVG, OP_ABS, OP_ADDNAN]"

definition op_num :: "op_en \<Rightarrow> nat" where
  "op_num o' = length (takeWhile (\<lambda>x. x \<noteq> o') op_list)"

definition enc_node :: "rpn_cdefds_t \<Rightarrow> bytes" where
  "enc_node c = [op_num (cop c), 0] @ le 2 (nat (cval c mod 2 ^ 16))"

definition dec_node :: "bytes \<Rightarrow> rpn_cdefds_t" where
  "dec_node bs = \<lparr>cop = op_list ! (bs ! 0 mod length op_list), cval = s16 (int (unle (sub 2 2 bs)))\<rparr>"

text \<open>The area \<open>par\<close> of a data source is a list of nodes for a computed one, and holds heartbeat and limits otherwise.\<close>

definition enc_nodes :: "rpn_cdefds_t list \<Rightarrow> bytes" where
  "enc_nodes cs = concat (map enc_node (cs @ [\<lparr>cop = OP_END, cval = 0\<rparr>])) @ replicate (80 - 4 * (length cs + 1)) 0"

definition dec_nodes :: "bytes \<Rightarrow> rpn_cdefds_t list" where
  "dec_nodes bs = takeWhile (\<lambda>c. cop c \<noteq> OP_END) (map (\<lambda>i. dec_node (sub (4 * i) 4 bs)) [0 ..< 20])"

definition computed :: "string \<Rightarrow> bool" where
  "computed nam \<longleftrightarrow> dst_conv nam = Some DST_CDEF"

definition enc_ds_def :: "ds_def_t \<Rightarrow> bytes" where
  "enc_ds_def d =
     enc_str 20 (ds_nam d) @ enc_str 20 (dst d) @
     (if computed (dst d) then enc_nodes (cdef d)
      else enc_u64 (mrhb_cnt d) @ enc_dbl (min_val d) @ enc_dbl (max_val d) @ replicate 56 0)"

definition dec_ds_def :: "bytes \<Rightarrow> ds_def_t" where
  "dec_ds_def bs =
     (let ty = dec_str (sub 20 20 bs); par = sub 40 80 bs; cp = computed ty
      in \<lparr>ds_nam = dec_str (sub 0 20 bs), dst = ty,
          mrhb_cnt = (if cp then 0 else unle (sub 0 8 par)), min_val = (if cp then 0 else dec_dbl (sub 8 8 par)),
          max_val = (if cp then 0 else dec_dbl (sub 16 8 par)), cdef = (if cp then dec_nodes par else [])\<rparr>)"

definition enc_rra_def :: "rra_def_t \<Rightarrow> bytes" where
  "enc_rra_def r =
     enc_str 20 (cf_nam r) @ replicate 4 0 @ enc_u64 (row_cnt r) @ enc_u64 (pdp_cnt r) @
     enc_dbl (cdp_xff_val r) @ enc_dbl (par1 r) @ enc_dbl (par2 r) @ enc_u64 (dependent_rra_idx r) @ enc_u64 (par4 r) @
     enc_u64 (failure_threshold r) @ replicate 32 0"

definition dec_rra_def :: "bytes \<Rightarrow> rra_def_t" where
  "dec_rra_def bs =
     \<lparr>cf_nam = dec_str (sub 0 20 bs), row_cnt = unle (sub 24 8 bs), pdp_cnt = unle (sub 32 8 bs),
      cdp_xff_val = dec_dbl (sub 40 8 bs), par1 = dec_dbl (sub 48 8 bs), par2 = dec_dbl (sub 56 8 bs),
      dependent_rra_idx = unle (sub 64 8 bs), par4 = unle (sub 72 8 bs), failure_threshold = unle (sub 80 8 bs)\<rparr>"

definition enc_live_head :: "live_head_t \<Rightarrow> bytes" where
  "enc_live_head l = enc_s64 (last_up l) @ enc_s64 (last_up_usec l)"

definition dec_live_head :: "bytes \<Rightarrow> live_head_t" where
  "dec_live_head bs = \<lparr>last_up = dec_s64 (sub 0 8 bs), last_up_usec = dec_s64 (sub 8 8 bs)\<rparr>"

definition enc_pdp_prep :: "pdp_prep_t \<Rightarrow> bytes" where
  "enc_pdp_prep p = enc_str 30 (last_ds p) @ replicate 2 0 @ enc_u64 (unkn_sec_cnt p) @ enc_dbl (pdp_val p) @ replicate 64 0"

definition dec_pdp_prep :: "bytes \<Rightarrow> pdp_prep_t" where
  "dec_pdp_prep bs = \<lparr>last_ds = dec_str (sub 0 30 bs), unkn_sec_cnt = unle (sub 32 8 bs), pdp_val = dec_dbl (sub 40 8 bs)\<rparr>"

text \<open>The preparation area of a FAILURES archive begins with the violations, as 28 characters.\<close>

definition enc_cdp_prep :: "bool \<Rightarrow> cdp_prep_t \<Rightarrow> bytes" where
  "enc_cdp_prep fl c =
     (if fl then map nat (violations c) @ replicate 4 0
      else enc_dbl (cdp_val c) @ enc_u64 (unkn_pdp_cnt c) @ enc_dbl (hw_intercept c) @ enc_dbl (hw_last_intercept c)) @
     enc_dbl (hw_slope c) @ enc_dbl (hw_last_slope c) @ enc_u64 (null_count c) @ enc_u64 (last_null_count c) @
     enc_dbl (primary_val c) @ enc_dbl (secondary_val c)"

definition dec_cdp_prep :: "bool \<Rightarrow> bytes \<Rightarrow> cdp_prep_t" where
  "dec_cdp_prep fl bs =
     \<lparr>cdp_val = (if fl then 0 else dec_dbl (sub 0 8 bs)), unkn_pdp_cnt = (if fl then 0 else unle (sub 8 8 bs)),
      hw_intercept = (if fl then 0 else dec_dbl (sub 16 8 bs)), hw_last_intercept = (if fl then 0 else dec_dbl (sub 24 8 bs)),
      hw_slope = dec_dbl (sub 32 8 bs), hw_last_slope = dec_dbl (sub 40 8 bs), null_count = unle (sub 48 8 bs),
      last_null_count = unle (sub 56 8 bs), primary_val = dec_dbl (sub 64 8 bs), secondary_val = dec_dbl (sub 72 8 bs),
      violations = (if fl then map int (sub 0 28 bs) else replicate 28 0)\<rparr>"

definition failures :: "rra_def_t \<Rightarrow> bool" where
  "failures r \<longleftrightarrow> cf_conv (cf_nam r) = Some CF_FAILURES"

section \<open>Writing\<close>

text \<open>The bytes that \<open>write_file\<close> of \<open>rrd_restore.c\<close> and \<open>rrd_create_fn\<close> write, structure by structure; the
legacy branch of the live header is what releases before version 3 wrote.\<close>

definition enc_cdps :: "rrd \<Rightarrow> bytes list" where
  "enc_cdps s = map (\<lambda>k. enc_cdp_prep (failures (rra_def s ! (k div dscnt s))) (cdp_prep s ! k)) [0 ..< rracnt s * dscnt s]"

definition file_blocks :: "rrd \<Rightarrow> bytes list" where
  "file_blocks s =
     [enc_stat_head (stat_head s), concat (map enc_ds_def (ds_def s)), concat (map enc_rra_def (rra_def s)),
      (if atoi (version (stat_head s)) < 3 then enc_s64 (last_up (live_head s)) else enc_live_head (live_head s)),
      concat (map enc_pdp_prep (pdp_prep s)), concat (enc_cdps s), concat (map enc_u64 (rra_ptr s)), concat (map enc_dbl (rrd_value s))]"

definition file_image :: "rrd \<Rightarrow> bytes" where
  "file_image s = concat (file_blocks s)"

section \<open>Opening\<close>

datatype open_error = OpenEOF string | OpenNotRRD | OpenArchitecture | OpenVersion string | OpenTooSmall nat

text \<open>\<open>__rrd_read\<close>: the pointer and the next offset; all sums are modulo \<open>2 ^ 64\<close>.\<close>

definition rrd_read_at :: "string \<Rightarrow> nat \<Rightarrow> nat \<Rightarrow> bytes \<Rightarrow> nat \<Rightarrow> open_error + (nat \<times> nat)" where
  "rrd_read_at what sz cnt f off =
     (let wanted = u64 (int sz * int cnt); next' = u64 (int off + int wanted)
      in if length f < next' then Inl (OpenEOF what) else Inr (off, next'))"

record mapped =
  m_stat_head :: nat
  m_ds_def :: nat
  m_rra_def :: nat
  m_live_head :: nat
  m_legacy :: bool
  m_pdp_prep :: nat
  m_cdp_prep :: nat
  m_rra_ptr :: nat
  m_header_len :: nat

abbreviation bindE :: "'e + 'a \<Rightarrow> ('a \<Rightarrow> 'e + 'b) \<Rightarrow> 'e + 'b" where
  "bindE r f \<equiv> (case r of Inl e \<Rightarrow> Inl e | Inr x \<Rightarrow> f x)"

text \<open>The checks on the first structure.\<close>

definition check_stat_head :: "bytes \<Rightarrow> open_error + stat_head_t" where
  "check_stat_head f =
     (let h = dec_stat_head (sub 0 128 f)
      in if sub 0 4 f \<noteq> enc_str 4 RRD_COOKIE then Inl OpenNotRRD
         else if \<not> deq (dec_dbl (sub 16 8 f)) FLOAT_COOKIE then Inl OpenArchitecture
         else if atoi (version h) > atoi ''0004'' then Inl (OpenVersion (version h))
         else Inr h)"

text \<open>\<open>correct_len\<close>\<close>

definition correct_len :: "bytes \<Rightarrow> nat \<Rightarrow> nat \<Rightarrow> nat \<Rightarrow> nat \<Rightarrow> nat" where
  "correct_len f dsn rran rras header_len =
     (let rows = fold (\<lambda>ui n. u64 (int n + int (row_cnt (dec_rra_def (sub (rras + 120 * ui) 120 f))))) [0 ..< rran] 0
      in u64 (int header_len + int (u64 (8 * int rows * int dsn))))"

definition rrd_open :: "bytes \<Rightarrow> open_error + mapped" where
  "rrd_open f =
     bindE (rrd_read_at ''rrd->stat_head'' 128 1 f 0) (\<lambda>(p_head, off).
     bindE (check_stat_head f) (\<lambda>h.
     bindE (rrd_read_at ''rrd->ds_def'' 120 (ds_cnt h) f off) (\<lambda>(p_ds, off).
     bindE (rrd_read_at ''rrd->rra_def'' 120 (rra_cnt h) f off) (\<lambda>(p_rra, off).
     let legacy = atoi (version h) < 3 in
     bindE (if legacy then rrd_read_at ''rrd->legacy_last_up'' 8 1 f off else rrd_read_at ''rrd->live_head'' 16 1 f off) (\<lambda>(p_live, off).
     bindE (rrd_read_at ''rrd->pdp_prep'' 112 (ds_cnt h) f off) (\<lambda>(p_pdp, off).
     bindE (rrd_read_at ''rrd->cdp_prep'' 80 (u64 (int (rra_cnt h) * int (ds_cnt h))) f off) (\<lambda>(p_cdp, off).
     bindE (rrd_read_at ''rrd->rra_ptr'' 8 (rra_cnt h) f off) (\<lambda>(p_ptr, off).
     let len = correct_len f (ds_cnt h) (rra_cnt h) p_rra off in
     if length f < len then Inl (OpenTooSmall len)
     else Inr \<lparr>m_stat_head = p_head, m_ds_def = p_ds, m_rra_def = p_rra, m_live_head = p_live, m_legacy = legacy,
               m_pdp_prep = p_pdp, m_cdp_prep = p_cdp, m_rra_ptr = p_ptr, m_header_len = off\<rparr>))))))))"

text \<open>The structures seen through the pointers, and the values behind the header.\<close>

definition array_at :: "(bytes \<Rightarrow> 'a) \<Rightarrow> nat \<Rightarrow> nat \<Rightarrow> bytes \<Rightarrow> nat \<Rightarrow> 'a list" where
  "array_at dec sz cnt f off = map (\<lambda>i. dec (sub (off + sz * i) sz f)) [0 ..< cnt]"

definition view :: "bytes \<Rightarrow> mapped \<Rightarrow> rrd" where
  "view f m =
     (let h = dec_stat_head (sub (m_stat_head m) 128 f);
          rras = array_at dec_rra_def 120 (rra_cnt h) f (m_rra_def m);
          lu = dec_s64 (sub (m_live_head m) 8 f)
      in \<lparr>stat_head = h, ds_def = array_at dec_ds_def 120 (ds_cnt h) f (m_ds_def m), rra_def = rras,
          live_head = (if m_legacy m then \<lparr>last_up = lu, last_up_usec = 0\<rparr> else dec_live_head (sub (m_live_head m) 16 f)),
          legacy_last_up = (if m_legacy m then Some lu else None),
          pdp_prep = array_at dec_pdp_prep 112 (ds_cnt h) f (m_pdp_prep m),
          cdp_prep = map (\<lambda>k. dec_cdp_prep (failures (rras ! (k div ds_cnt h))) (sub (m_cdp_prep m + 80 * k) 80 f)) [0 ..< rra_cnt h * ds_cnt h],
          rra_ptr = array_at unle 8 (rra_cnt h) f (m_rra_ptr m),
          rrd_value = array_at dec_dbl 8 (ds_cnt h * sum_list (map row_cnt rras)) f (m_header_len m), pos = 0, pcdp_summary = None\<rparr>)"

section \<open>Reading back what was written\<close>

text \<open>A codec of a structure of fixed size.\<close>

locale codec =
  fixes enc :: "'a \<Rightarrow> bytes" and dec :: "bytes \<Rightarrow> 'a" and sz :: nat and ok :: "'a \<Rightarrow> bool"
  assumes length_enc: "ok x \<Longrightarrow> length (enc x) = sz"
    and dec_enc: "ok x \<Longrightarrow> dec (enc x) = x"
begin

lemma length_array: "list_all ok xs \<Longrightarrow> length (concat (map enc xs)) = sz * length xs"
  by (induction xs) (simp_all add: length_enc)

end

lemma length_le [simp]: "length (le k n) = k"
  by (induction k arbitrary: n) simp_all

lemma unle_le [simp]: "unle (le k n) = n mod 256 ^ k"
proof (induction k arbitrary: n)
  case (Suc k)
  have "n mod (256 * 256 ^ k) = 256 * (n div 256 mod 256 ^ k) + n mod 256" by (rule mod_mult2_eq)
  with Suc show ?case by simp
qed simp

lemma sub_skip [simp]: "length a \<le> off \<Longrightarrow> sub off n (a @ b) = sub (off - length a) n b"
  by (simp add: sub_def)

lemma sub_hit [simp]: "length a = n \<Longrightarrow> sub 0 n (a @ b) = a" "length a = n \<Longrightarrow> sub 0 n a = a"
  by (simp_all add: sub_def)

lemma length_sub: "off + n \<le> length f \<Longrightarrow> length (sub off n f) = n"
  by (simp add: sub_def)

lemma sub_take: "off + n \<le> k \<Longrightarrow> sub off n (take k f) = sub off n f"
  by (simp add: sub_def drop_take min_def)

text \<open>Blocks of equal size, one behind the other.\<close>

lemma sub_concat:
  assumes "\<And>b. b \<in> set bs \<Longrightarrow> length b = sz" and "i < length bs"
  shows "sub (length pre + sz * i) sz (pre @ concat bs @ post) = bs ! i"
  using assms
proof (induction bs arbitrary: pre i)
  case (Cons b bs)
  show ?case
  proof (cases i)
    case 0
    with Cons.prems show ?thesis by simp
  next
    case (Suc j)
    have "sub (length (pre @ b) + sz * j) sz ((pre @ b) @ concat bs @ post) = bs ! j" using Cons.prems Suc by (intro Cons.IH) simp_all
    moreover have "length (pre @ b) + sz * j = length pre + sz * i" using Cons.prems(1) Suc by simp
    ultimately show ?thesis using Suc by simp
  qed
qed simp

context codec
begin

lemma array_read:
  assumes "list_all ok xs" and "n = length xs" and "off = length pre"
  shows "array_at dec sz n (pre @ concat (map enc xs) @ post) off = xs"
proof -
  have "dec (sub (off + sz * i) sz (pre @ concat (map enc xs) @ post)) = xs ! i" if "i < n" for i
  proof -
    have "sub (off + sz * i) sz (pre @ concat (map enc xs) @ post) = map enc xs ! i"
      unfolding assms(3) using assms that length_enc by (intro sub_concat) (auto simp: list.pred_set)
    then show ?thesis using assms that dec_enc by (simp add: list.pred_set)
  qed
  then show ?thesis unfolding array_at_def using assms(2) by (intro nth_equalityI) simp_all
qed

end

definition str_ok :: "nat \<Rightarrow> string \<Rightarrow> bool" where
  "str_ok n str \<longleftrightarrow> length str < n \<and> list_all (\<lambda>c. c \<noteq> CHR 0x00) str"

lemma of_char_eq_0 [simp]: "(of_char c :: nat) = 0 \<longleftrightarrow> c = CHR 0x00"
proof -
  have "(of_char (CHR 0x00) :: nat) = 0" by simp
  then show ?thesis by (metis of_char_eq_iff)
qed

lemma length_enc_str: "str_ok n str \<Longrightarrow> length (enc_str n str) = n"
  by (simp add: enc_str_def str_ok_def)

lemma dec_enc_str:
  assumes "str_ok n str"
  shows "dec_str (enc_str n str) = str"
proof -
  have "takeWhile (\<lambda>b. b \<noteq> 0) (map of_char cs @ replicate k (0 :: nat)) = map of_char cs" if "\<forall>c \<in> set cs. c \<noteq> CHR 0x00" for cs k
    using that by (induction cs) (cases k; simp)+
  then show ?thesis using assms by (simp add: dec_str_def enc_str_def str_ok_def list.pred_set comp_def)
qed

text \<open>A double that the format can represent.\<close>

fun dbl_ok :: "dbl \<Rightarrow> bool" where
  "dbl_ok (Fin q) \<longleftrightarrow> rnd64 q = q \<and> \<bar>q\<bar> < 2 ^ 1024"
| "dbl_ok x \<longleftrightarrow> True"

lemma significand:
  assumes "rnd64 q = q" and "0 < q" and "q < 2 ^ 1024" and e: "e = ulp_exp q" and n: "n = nat \<lfloor>q / pow2 e\<rfloor>"
  shows "q = of_nat n * 2 powi e" and "0 < n" and "n < 2 ^ 53" and "- 1074 \<le> e" and "e \<le> 971" and "n < 2 ^ 52 \<Longrightarrow> e = - 1074"
proof -
  have p: "(0 :: rat) < 2 powi e" by simp
  define z where "z = rne (q / 2 powi e)"
  have q: "q = of_int z * 2 powi e" using assms(1,2) by (simp add: rnd64_def pow2_def e z_def)
  then have "q / pow2 e = of_int z" by (simp add: pow2_def)
  then have nz: "n = nat z" using n by simp
  have z: "0 < z" using assms(2) p unfolding q by (simp add: zero_less_mult_iff)
  show qn: "q = of_nat n * 2 powi e" using q nz z by simp
  show "0 < n" using nz z by simp
  show lo: "- 1074 \<le> e" by (simp add: e ulp_exp_def)
  have f: "2 powi flog2 q \<le> q" "q < 2 powi (flog2 q + 1)" using flog2_bounds [OF assms(2)] by simp_all
  have "flog2 q \<le> e + 52" using assms(2) by (simp add: e ulp_exp_def)
  then have "(2 :: rat) powi (flog2 q + 1) \<le> 2 powi (53 + e)" by (intro power_int_increasing) simp_all
  with f(2) have "q < 2 powi (53 + e)" by (rule less_le_trans)
  also have "(2 :: rat) powi (53 + e) = 2 ^ 53 * 2 powi e" by (simp add: power_int_add)
  finally have "of_nat n * 2 powi e < (2 :: rat) ^ 53 * 2 powi e" unfolding qn [symmetric] .
  then have "(of_nat n :: rat) < 2 ^ 53" using p by simp
  then have "(of_nat n :: rat) < of_nat (2 ^ 53)" by simp
  then show "n < 2 ^ 53" unfolding of_nat_less_iff .
  have "flog2 q < 1024" using assms(2,3) by (intro flog2_less) (simp_all add: power_int_def)
  then show "e \<le> 971" using assms(2) by (simp add: e ulp_exp_def)
  show "e = - 1074" if "n < 2 ^ 52"
  proof (rule ccontr)
    assume "e \<noteq> - 1074"
    then have "flog2 q = e + 52" using assms(2) by (simp add: e ulp_exp_def)
    then have "(2 :: rat) powi flog2 q = 2 ^ 52 * 2 powi e" by (simp add: power_int_add)
    with f(1) have "(2 :: rat) ^ 52 * 2 powi e \<le> of_nat n * 2 powi e" unfolding qn [symmetric] by simp
    then have "(2 :: rat) ^ 52 \<le> of_nat n" using p by simp
    then have "(of_nat (2 ^ 52) :: rat) \<le> of_nat n" by simp
    with that show False unfolding of_nat_le_iff by simp
  qed
qed


lemma of_bits_fin:
  assumes "e < 2047" and "m < 2 ^ 52" and "b = (if neg then 2 ^ 63 else 0) + e * 2 ^ 52 + m"
  shows "of_bits b = (let q = (if e = 0 then of_nat m * pow2 (- 1074) else of_nat (2 ^ 52 + m) * pow2 (int e - 1075))
    in if q = 0 then (if neg then NZero else Fin 0) else Fin (if neg then - q else q))" and "b < 2 ^ 64"
proof -
  define c :: nat where "c = (if neg then 2 ^ 11 else 0) + e"
  have b: "b = c * 2 ^ 52 + m" using assms(3) by (simp add: c_def)
  have div: "b div 2 ^ 52 = c" "b mod 2 ^ 52 = m" unfolding b using assms(2) by simp_all
  have "c mod 2 ^ 11 = e" unfolding c_def using assms(1) by simp
  moreover have "2 ^ 63 \<le> b \<longleftrightarrow> neg" using assms by auto
  ultimately show "of_bits b = (let q = (if e = 0 then of_nat m * pow2 (- 1074) else of_nat (2 ^ 52 + m) * pow2 (int e - 1075))
    in if q = 0 then (if neg then NZero else Fin 0) else Fin (if neg then - q else q))"
    using assms(1) unfolding of_bits_def div Let_def by simp
  show "b < 2 ^ 64" using assms by auto
qed

lemma bits_roundtrip:
  assumes "dbl_ok x"
  shows "of_bits (bits_of x) = x" and "bits_of x < 2 ^ 64"
proof -
  have "of_bits (bits_of x) = x \<and> bits_of x < 2 ^ 64"
  proof (cases x)
    case (Fin q)
    show ?thesis
    proof (cases "q = 0")
      case True
      then show ?thesis using Fin of_bits_fin(1) [of 0 0 0 False] by (simp add: bits_of_def)
    next
      case False
      define e n where "e = ulp_exp q" and "n = nat \<lfloor>\<bar>q\<bar> / pow2 e\<rfloor>"
      have q: "rnd64 q = q" "\<bar>q\<bar> < 2 ^ 1024" using assms unfolding Fin dbl_ok.simps by blast+
      have r: "rnd64 \<bar>q\<bar> = \<bar>q\<bar>" using q(1) rnd64_uminus [of q] by (simp add: abs_if)
      have pos: "0 < \<bar>q\<bar>" using False by simp
      have e: "e = ulp_exp \<bar>q\<bar>" unfolding e_def ulp_exp_def by simp
      note g = significand [OF r pos q(2) e n_def]
      have b: "bits_of x = (if q < 0 then 2 ^ 63 else 0) + (if n < 2 ^ 52 then n else nat (e + 1075) * 2 ^ 52 + (n - 2 ^ 52))"
        using Fin False by (simp add: bits_of_def e_def n_def Let_def)
      show ?thesis
      proof (cases "n < 2 ^ 52")
        case True
        then have "bits_of x = (if q < 0 then 2 ^ 63 else 0) + 0 * 2 ^ 52 + n" using b by simp
        from of_bits_fin [OF _ True this] g(1,2) g(6) [OF True] Fin False show ?thesis by (auto simp: pow2_def abs_if split: if_splits)
      next
        case big: False
        define E m where "E = nat (e + 1075)" and "m = n - 2 ^ 52"
        have E: "E < 2047" "E \<noteq> 0" "int E - 1075 = e" and m: "m < 2 ^ 52" "2 ^ 52 + m = n" using g big by (simp_all add: E_def m_def)
        have "bits_of x = (if q < 0 then 2 ^ 63 else 0) + E * 2 ^ 52 + m" using b big by (simp add: E_def m_def)
        from of_bits_fin [OF E(1) m(1) this] E g(1,2) m(2) Fin False show ?thesis by (auto simp: pow2_def abs_if split: if_splits)
      qed
    qed
  qed (simp_all add: bits_of_def of_bits_def Let_def)
  then show "of_bits (bits_of x) = x" and "bits_of x < 2 ^ 64" by simp_all
qed


subsection \<open>The structures\<close>

lemma length_scalars [simp]: "length (enc_dbl x) = 8" "length (enc_u64 n) = 8" "length (enc_s64 i) = 8"
  by (simp_all add: enc_dbl_def enc_u64_def enc_s64_def)

lemma dec_enc_dbl [simp]: "dbl_ok x \<Longrightarrow> dec_dbl (enc_dbl x) = x"
  using bits_roundtrip [of x] by (simp add: dec_dbl_def enc_dbl_def)

lemma dec_enc_u64 [simp]: "n < 2 ^ 64 \<Longrightarrow> unle (enc_u64 n) = n"
  by (simp add: enc_u64_def)

lemma dec_enc_s64 [simp]: "- (2 ^ 63) \<le> i \<Longrightarrow> i < 2 ^ 63 \<Longrightarrow> dec_s64 (enc_s64 i) = i"
proof -
  assume i: "- (2 ^ 63) \<le> i" "i < 2 ^ 63"
  have "u64 i mod 256 ^ 8 = u64 i" using u64_bound [of i] by simp
  then show ?thesis using i by (simp add: dec_s64_def enc_s64_def u64_def s64_def mod_add_left_eq)
qed

definition stat_head_ok :: "stat_head_t \<Rightarrow> bool" where
  "stat_head_ok h \<longleftrightarrow> str_ok 5 (version h) \<and> ds_cnt h < 2 ^ 64 \<and> rra_cnt h < 2 ^ 64 \<and> pdp_step h < 2 ^ 64"

definition node_ok :: "rpn_cdefds_t \<Rightarrow> bool" where
  "node_ok c \<longleftrightarrow> cop c \<noteq> OP_END \<and> - (2 ^ 15) \<le> cval c \<and> cval c < 2 ^ 15"

definition ds_def_ok :: "ds_def_t \<Rightarrow> bool" where
  "ds_def_ok d \<longleftrightarrow> str_ok 20 (ds_nam d) \<and> str_ok 20 (dst d) \<and>
     (if computed (dst d) then mrhb_cnt d = 0 \<and> min_val d = 0 \<and> max_val d = 0 \<and> length (cdef d) < 20 \<and> list_all node_ok (cdef d)
      else mrhb_cnt d < 2 ^ 64 \<and> dbl_ok (min_val d) \<and> dbl_ok (max_val d) \<and> cdef d = [])"

definition rra_def_ok :: "rra_def_t \<Rightarrow> bool" where
  "rra_def_ok r \<longleftrightarrow> str_ok 20 (cf_nam r) \<and> row_cnt r < 2 ^ 64 \<and> pdp_cnt r < 2 ^ 64 \<and> dbl_ok (cdp_xff_val r) \<and> dbl_ok (par1 r) \<and>
     dbl_ok (par2 r) \<and> dependent_rra_idx r < 2 ^ 64 \<and> par4 r < 2 ^ 64 \<and> failure_threshold r < 2 ^ 64"

definition s64_ok :: "int \<Rightarrow> bool" where
  "s64_ok i \<longleftrightarrow> - (2 ^ 63) \<le> i \<and> i < 2 ^ 63"

definition live_head_ok :: "live_head_t \<Rightarrow> bool" where
  "live_head_ok l \<longleftrightarrow> s64_ok (last_up l) \<and> s64_ok (last_up_usec l)"

definition pdp_prep_ok :: "pdp_prep_t \<Rightarrow> bool" where
  "pdp_prep_ok p \<longleftrightarrow> str_ok 30 (last_ds p) \<and> unkn_sec_cnt p < 2 ^ 64 \<and> dbl_ok (pdp_val p)"

definition cdp_prep_ok :: "bool \<Rightarrow> cdp_prep_t \<Rightarrow> bool" where
  "cdp_prep_ok fl c \<longleftrightarrow>
     (if fl then cdp_val c = 0 \<and> unkn_pdp_cnt c = 0 \<and> hw_intercept c = 0 \<and> hw_last_intercept c = 0 \<and>
                 length (violations c) = 28 \<and> list_all (\<lambda>v. 0 \<le> v \<and> v < 128) (violations c)
      else dbl_ok (cdp_val c) \<and> unkn_pdp_cnt c < 2 ^ 64 \<and> dbl_ok (hw_intercept c) \<and> dbl_ok (hw_last_intercept c) \<and>
           violations c = replicate 28 0) \<and>
     dbl_ok (hw_slope c) \<and> dbl_ok (hw_last_slope c) \<and> null_count c < 2 ^ 64 \<and> last_null_count c < 2 ^ 64 \<and>
     dbl_ok (primary_val c) \<and> dbl_ok (secondary_val c)"

lemmas struct_oks = stat_head_ok_def rra_def_ok_def live_head_ok_def pdp_prep_ok_def cdp_prep_ok_def s64_ok_def

lemmas struct_defs = enc_stat_head_def dec_stat_head_def enc_rra_def_def dec_rra_def_def enc_live_head_def dec_live_head_def
  enc_pdp_prep_def dec_pdp_prep_def enc_cdp_prep_def dec_cdp_prep_def

lemmas str_codec = length_enc_str dec_enc_str

lemma cookie_ok: "str_ok 4 RRD_COOKIE"
  by (simp add: str_ok_def RRD_COOKIE_def)

interpretation stat_head: codec enc_stat_head dec_stat_head 128 stat_head_ok
  by unfold_locales (auto simp: struct_defs struct_oks str_codec cookie_ok)

interpretation rra_def: codec enc_rra_def dec_rra_def 120 rra_def_ok
  by unfold_locales (auto simp: struct_defs struct_oks str_codec)

interpretation live_head: codec enc_live_head dec_live_head 16 live_head_ok
  by unfold_locales (auto simp: struct_defs struct_oks)

interpretation pdp_prep: codec enc_pdp_prep dec_pdp_prep 112 pdp_prep_ok
  by unfold_locales (auto simp: struct_defs struct_oks str_codec)

interpretation cur_row: codec enc_u64 unle 8 "\<lambda>n. n < 2 ^ 64"
  by unfold_locales simp_all

interpretation val: codec enc_dbl dec_dbl 8 dbl_ok
  by unfold_locales simp_all


interpretation cdp_prep: codec "enc_cdp_prep fl" "dec_cdp_prep fl" 80 "cdp_prep_ok fl" for fl
proof unfold_locales
  fix c :: cdp_prep_t
  assume ok: "cdp_prep_ok fl c"
  have "map (\<lambda>v. int (nat v)) vs = vs" if "list_all (\<lambda>v. 0 \<le> v \<and> v < 128) vs" for vs :: "int list"
    using that by (induction vs) auto
  with ok show "length (enc_cdp_prep fl c) = 80" and "dec_cdp_prep fl (enc_cdp_prep fl c) = c"
    by (cases fl; simp add: struct_defs struct_oks comp_def)+
qed

lemma op_list_num: "op_list ! (op_num o' mod length op_list) = o'"
  by (cases o') (simp_all add: op_num_def op_list_def)

interpretation node: codec enc_node dec_node 4 "\<lambda>c. - (2 ^ 15) \<le> cval c \<and> cval c < 2 ^ 15"
proof unfold_locales
  fix c :: rpn_cdefds_t
  assume c: "- (2 ^ 15) \<le> cval c \<and> cval c < 2 ^ 15"
  have "s16 (int (nat (cval c mod 2 ^ 16) mod 256 ^ 2)) = cval c" using c by (simp add: s16_def nat_mod_as_int mod_add_left_eq)
  then show "dec_node (enc_node c) = c"
    by (simp add: dec_node_def enc_node_def op_list_num sub_def)
qed (simp add: enc_node_def)

lemma dec_enc_nodes:
  assumes "length cs < 20" and "list_all node_ok cs"
  shows "length (enc_nodes cs) = 80" and "dec_nodes (enc_nodes cs) = cs"
proof -
  let ?ns = "cs @ [\<lparr>cop = OP_END, cval = 0\<rparr>]"
  have ok: "list_all (\<lambda>c. - (2 ^ 15) \<le> cval c \<and> cval c < 2 ^ 15) ?ns" using assms(2) by (auto simp: node_ok_def list.pred_set)
  show "length (enc_nodes cs) = 80" using node.length_array [OF ok] assms(1) by (simp add: enc_nodes_def)
  define rest where "rest = map (\<lambda>i. dec_node (sub (4 * i) 4 (enc_nodes cs))) [Suc (length cs) ..< 20]"
  have "array_at dec_node 4 (Suc (length cs)) ([] @ concat (map enc_node ?ns) @ replicate (80 - 4 * (length cs + 1)) 0) 0 = ?ns"
    by (rule node.array_read [OF ok]) simp_all
  then have "map (\<lambda>i. dec_node (sub (4 * i) 4 (enc_nodes cs))) [0 ..< Suc (length cs)] = ?ns"
    by (simp add: array_at_def enc_nodes_def)
  moreover have "[0 ..< 20] = [0 ..< Suc (length cs)] @ [Suc (length cs) ..< 20]" using upt_add_eq_append [of 0 "Suc (length cs)" "19 - length cs"] assms(1) by simp
  ultimately have "map (\<lambda>i. dec_node (sub (4 * i) 4 (enc_nodes cs))) [0 ..< 20] = ?ns @ rest" unfolding rest_def by (simp only: map_append)
  moreover have "takeWhile (\<lambda>c. cop c \<noteq> OP_END) (cs @ ys) = cs @ takeWhile (\<lambda>c. cop c \<noteq> OP_END) ys" for ys
    using assms(2) by (intro takeWhile_append2) (auto simp: node_ok_def list.pred_set)
  ultimately show "dec_nodes (enc_nodes cs) = cs" by (simp add: dec_nodes_def)
qed

interpretation ds_def: codec enc_ds_def dec_ds_def 120 ds_def_ok
proof unfold_locales
  fix d :: ds_def_t
  assume ok: "ds_def_ok d"
  show "length (enc_ds_def d) = 120" using ok by (auto simp: ds_def_ok_def enc_ds_def_def length_enc_str dec_enc_nodes)
  show "dec_ds_def (enc_ds_def d) = d"
    using ok by (cases "computed (dst d)") (simp_all add: ds_def_ok_def enc_ds_def_def dec_ds_def_def str_codec dec_enc_nodes Let_def)
qed


section \<open>Opening a file\<close>

text \<open>The pointers for given numbers of data sources and archives.\<close>

definition layout :: "nat \<Rightarrow> nat \<Rightarrow> bool \<Rightarrow> mapped" where
  "layout dsn rran legacy =
     (let p_rra = 128 + 120 * dsn; p_live = p_rra + 120 * rran; p_pdp = p_live + (if legacy then 8 else 16);
          p_cdp = p_pdp + 112 * dsn; p_ptr = p_cdp + 80 * (rran * dsn)
      in \<lparr>m_stat_head = 0, m_ds_def = 128, m_rra_def = p_rra, m_live_head = p_live, m_legacy = legacy,
          m_pdp_prep = p_pdp, m_cdp_prep = p_cdp, m_rra_ptr = p_ptr, m_header_len = p_ptr + 8 * rran\<rparr>)"

lemma rrd_read_at_small:
  "off + sz * cnt < 2 ^ 64 \<Longrightarrow>
   rrd_read_at what sz cnt f off = (if length f < off + sz * cnt then Inl (OpenEOF what) else Inr (off, off + sz * cnt))"
proof -
  assume a: "off + sz * cnt < 2 ^ 64"
  then have "sz * cnt < 2 ^ 64" by simp
  then have "u64 (int sz * int cnt) = sz * cnt" using u64_of_nat [of "sz * cnt"] by simp
  moreover have "u64 (int off + int (sz * cnt)) = off + sz * cnt" using u64_of_nat [OF a] by simp
  ultimately show ?thesis by (simp add: rrd_read_at_def)
qed

lemma fold_u64_sum:
  assumes "acc + sum_list ns < 2 ^ 64"
  shows "fold (\<lambda>n acc. u64 (int acc + int n)) ns acc = acc + sum_list ns"
  using assms
proof (induction ns arbitrary: acc)
  case (Cons n ns)
  then have "u64 (int acc + int n) = acc + n" using u64_of_nat [of "acc + n"] by simp
  with Cons show ?case by simp
qed simp

definition rows_at :: "bytes \<Rightarrow> nat \<Rightarrow> nat \<Rightarrow> nat" where
  "rows_at f dsn rran = sum_list (map row_cnt (array_at dec_rra_def 120 rran f (128 + 120 * dsn)))"

lemma correct_len_small:
  assumes "rows = rows_at f dsn rran" and "rows < 2 ^ 56" and "rows * dsn < 2 ^ 56" and "header < 2 ^ 60"
  shows "correct_len f dsn rran (128 + 120 * dsn) header = header + 8 * (rows * dsn)"
proof -
  let ?r = "\<lambda>ui. row_cnt (dec_rra_def (sub (128 + 120 * dsn + 120 * ui) 120 f))"
  have "rows = sum_list (map ?r [0 ..< rran])" using assms(1) by (simp add: rows_at_def array_at_def comp_def)
  then have f: "fold (\<lambda>ui n. u64 (int n + int (?r ui))) [0 ..< rran] 0 = rows"
    using fold_u64_sum [of 0 "map ?r [0 ..< rran]"] assms(2) by (simp add: fold_map comp_def)
  have "8 * p < 2 ^ 64 \<and> header + 8 * p < 2 ^ 64" if "p < 2 ^ 56" for p using that assms(4) by simp
  from this [OF assms(3)] have v: "8 * (rows * dsn) < 2 ^ 64" "header + 8 * (rows * dsn) < 2 ^ 64" by blast+
  have "u64 (8 * int rows * int dsn) = 8 * (rows * dsn)" using u64_of_nat [OF v(1)] by (simp add: mult.assoc)
  then show ?thesis unfolding correct_len_def f Let_def using u64_of_nat [OF v(2)] by simp
qed

lemma layout_small:
  assumes "dsn < 2 ^ 24" and "rran < 2 ^ 24"
  shows "m_header_len (layout dsn rran legacy) < 2 ^ 60"
proof -
  have "rran * dsn \<le> 2 ^ 24 * 2 ^ 24" using assms by (intro mult_le_mono) simp_all
  then show ?thesis using assms by (simp add: layout_def Let_def)
qed

lemma rrd_open_small:
  assumes h: "h = dec_stat_head (sub 0 128 f)" and small: "ds_cnt h < 2 ^ 24" "rra_cnt h < 2 ^ 24"
    and l: "l = layout (ds_cnt h) (rra_cnt h) (atoi (version h) < 3)"
  shows "rrd_open f = Inr m \<longleftrightarrow> check_stat_head f = Inr h \<and> m = l \<and> m_header_len l \<le> length f \<and>
    correct_len f (ds_cnt h) (rra_cnt h) (m_rra_def l) (m_header_len l) \<le> length f"
proof -
  have "rra_cnt h * ds_cnt h \<le> 2 ^ 24 * 2 ^ 24" using small by (intro mult_le_mono) simp_all
  then have cd: "rra_cnt h * ds_cnt h < 2 ^ 49" by (rule le_less_trans) simp
  then have u: "u64 (int (rra_cnt h) * int (ds_cnt h)) = rra_cnt h * ds_cnt h" using u64_of_nat [of "rra_cnt h * ds_cnt h"] by simp
  have head: "check_stat_head f = Inr h' \<Longrightarrow> h' = h" for h' using h by (auto simp: check_stat_head_def Let_def split: if_splits)
  have hl: "m_header_len l < 2 ^ 60" unfolding l by (rule layout_small [OF small])
  define dsn rran legacy where "dsn = ds_cnt h" and "rran = rra_cnt h" and "legacy = (atoi (version h) < 3)"
  define o2 o3 o4 o5 o6 o7 where "o2 = 128 + 120 * dsn" and "o3 = o2 + 120 * rran" and "o4 = o3 + (if legacy then 8 else 16)"
    and "o5 = o4 + 112 * dsn" and "o6 = o5 + 80 * (rran * dsn)" and "o7 = o6 + 8 * rran"
  have l': "l = \<lparr>m_stat_head = 0, m_ds_def = 128, m_rra_def = o2, m_live_head = o3, m_legacy = legacy,
      m_pdp_prep = o4, m_cdp_prep = o5, m_rra_ptr = o6, m_header_len = o7\<rparr>"
    unfolding l layout_def Let_def o7_def o6_def o5_def o4_def o3_def o2_def dsn_def rran_def legacy_def by (rule refl)
  have "o7 < 2 ^ 60" using hl l' by simp
  moreover have mono: "128 \<le> o2" "o2 \<le> o3" "o3 \<le> o4" "o4 \<le> o5" "o5 \<le> o6" "o6 \<le> o7"
    by (simp_all add: o2_def o3_def o4_def o5_def o6_def o7_def)
  ultimately have lt: "o2 < 2 ^ 64" "o3 < 2 ^ 64" "o4 < 2 ^ 64" "o5 < 2 ^ 64" "o6 < 2 ^ 64" "o7 < 2 ^ 64" by simp_all
  have rd: "rrd_read_at w 128 1 f 0 = (if length f < 128 then Inl (OpenEOF w) else Inr (0, 128))"
    "rrd_read_at w 120 dsn f 128 = (if length f < o2 then Inl (OpenEOF w) else Inr (128, o2))"
    "rrd_read_at w 120 rran f o2 = (if length f < o3 then Inl (OpenEOF w) else Inr (o2, o3))"
    "(if legacy then rrd_read_at w 8 1 f o3 else rrd_read_at w' 16 1 f o3) =
       (if length f < o4 then Inl (OpenEOF (if legacy then w else w')) else Inr (o3, o4))"
    "rrd_read_at w 112 dsn f o4 = (if length f < o5 then Inl (OpenEOF w) else Inr (o4, o5))"
    "rrd_read_at w 80 (rran * dsn) f o5 = (if length f < o6 then Inl (OpenEOF w) else Inr (o5, o6))"
    "rrd_read_at w 8 rran f o6 = (if length f < o7 then Inl (OpenEOF w) else Inr (o6, o7))" for w w'
    using lt rrd_read_at_small [of 0 128 1] rrd_read_at_small [of 128 120 dsn] rrd_read_at_small [of o2 120 rran]
      rrd_read_at_small [of o3 8 1] rrd_read_at_small [of o3 16 1] rrd_read_at_small [of o4 112 dsn]
      rrd_read_at_small [of o5 80 "rran * dsn"] rrd_read_at_small [of o6 8 rran]
    by (simp_all add: o2_def o3_def o4_def o5_def o6_def o7_def)
  show ?thesis
  proof (cases "check_stat_head f")
    case (Inl e)
    then show ?thesis unfolding rrd_open_def rd(1) by (simp split: if_split)
  next
    case (Inr h')
    then have c: "check_stat_head f = Inr h" using head by simp
    have "rrd_open f = Inr m \<longleftrightarrow> m = l \<and> o7 \<le> length f \<and> correct_len f dsn rran o2 o7 \<le> length f"
      unfolding rrd_open_def rd(1) c sum.case Let_def
      using mono by (auto simp: rd u [folded dsn_def rran_def] dsn_def [symmetric] rran_def [symmetric] legacy_def [symmetric] l' split: if_splits)
    with c show ?thesis by (simp add: l' dsn_def rran_def)
  qed
qed


lemma rrd_open_iff:
  assumes h: "h = dec_stat_head (sub 0 128 f)" and small: "ds_cnt h < 2 ^ 24" "rra_cnt h < 2 ^ 24"
    and rows: "rows = rows_at f (ds_cnt h) (rra_cnt h)" "rows < 2 ^ 56" "rows * ds_cnt h < 2 ^ 56"
    and l: "l = layout (ds_cnt h) (rra_cnt h) (atoi (version h) < 3)"
  shows "rrd_open f = Inr m \<longleftrightarrow> check_stat_head f = Inr h \<and> m = l \<and> m_header_len l + 8 * (rows * ds_cnt h) \<le> length f"
proof -
  have "correct_len f (ds_cnt h) (rra_cnt h) (m_rra_def l) (m_header_len l) = m_header_len l + 8 * (rows * ds_cnt h)"
    using correct_len_small [OF rows layout_small [OF small]] by (simp add: l layout_def Let_def)
  with rrd_open_small [OF h small l] show ?thesis by auto
qed

text \<open>The result of a rounding can be represented.\<close>

lemma rnd64_idem: "rnd64 (rnd64 x) = rnd64 x"
proof -
  have pos: "rnd64 (rnd64 x) = rnd64 x" if x: "0 < x" for x
  proof -
    define e z where "e = ulp_exp x" and "z = rne (x / 2 powi e)"
    have r: "rnd64 x = of_int z * 2 powi e" using x by (simp add: rnd64_def pow2_def e_def z_def)
    have "flog2 x \<le> e + 52" using x by (simp add: e_def ulp_exp_def)
    then have "(2 :: rat) powi (flog2 x + 1) \<le> 2 powi (53 + e)" by (intro power_int_increasing) simp_all
    then have "x \<le> 2 powi (53 + e)" using flog2_bounds [OF x] by linarith
    also have "(2 :: rat) powi (53 + e) = of_int (2 ^ 53) * 2 powi e" by (simp add: power_int_add)
    finally have "x / 2 powi e \<le> of_int (2 ^ 53)" by (simp add: pos_divide_le_eq)
    then have z: "z \<le> 2 ^ 53" unfolding z_def by (rule rne_le)
    have z0: "0 \<le> z" unfolding z_def using x by (intro rne_nonneg) simp
    have e: "- 1074 \<le> e" by (simp add: e_def ulp_exp_def)
    show ?thesis
    proof (cases "z = 2 ^ 53")
      case True
      have "rnd64 x = of_int 1 * 2 powi (53 + e)" unfolding r True by (simp add: power_int_add)
      then show ?thesis using e rnd64_exact [of "rnd64 x" 1 "53 + e"] by simp
    next
      case False
      then show ?thesis using z z0 e r rnd64_exact [of "rnd64 x" z e] by simp
    qed
  qed
  consider "x = 0" | "0 < x" | "0 < - x" by linarith
  then show ?thesis
  proof cases
    case 1
    then show ?thesis by (simp add: rnd64_def)
  next
    case 2
    then show ?thesis by (rule pos)
  next
    case 3
    then show ?thesis using pos [of "- x"] by (simp add: rnd64_uminus)
  qed
qed

lemma dbl_ok_dround: "dbl_ok (dround x)"
proof -
  have "\<not> 2 ^ 1024 \<le> y \<Longrightarrow> \<not> y \<le> - (2 ^ 1024) \<Longrightarrow> \<bar>y\<bar> < 2 ^ 1024" for y :: rat by (auto simp only: abs_less_iff not_le)
  then show ?thesis unfolding dround_def' Let_def by (auto simp only: dbl_ok.simps rnd64_idem split: if_split)
qed

lemma cookie_head:
  assumes "stat_head_ok h" and "atoi (version h) \<le> 4"
  shows "check_stat_head (enc_stat_head h @ rest) = Inr h"
proof -
  have l: "length (enc_stat_head h) = 128" using assms(1) by (rule stat_head.length_enc)
  have "dec_stat_head (sub 0 128 (enc_stat_head h @ rest)) = h" using l stat_head.dec_enc [OF assms(1)] by simp
  moreover have "sub 0 4 (enc_stat_head h @ rest) = enc_str 4 RRD_COOKIE"
    using length_enc_str [OF cookie_ok] by (simp add: enc_stat_head_def)
  moreover have "sub 16 8 (enc_stat_head h @ rest) = enc_dbl FLOAT_COOKIE"
    using length_enc_str [OF cookie_ok] assms(1) by (simp add: enc_stat_head_def stat_head_ok_def length_enc_str)
  moreover have "deq (dec_dbl (enc_dbl FLOAT_COOKIE)) FLOAT_COOKIE"
    using dec_enc_dbl [OF dbl_ok_dround] by (simp add: FLOAT_COOKIE_def d_of_int_def deq_def)
  moreover have "atoi ''0004'' = 4" by code_simp
  ultimately show ?thesis using assms(2) by (simp add: check_stat_head_def)
qed


text \<open>A database that the file format can hold.\<close>

definition cdps_ok :: "rrd \<Rightarrow> bool" where
  "cdps_ok s \<longleftrightarrow> length (cdp_prep s) = rracnt s * dscnt s \<and>
     list_all (\<lambda>k. cdp_prep_ok (failures (rra_def s ! (k div dscnt s))) (cdp_prep s ! k)) [0 ..< rracnt s * dscnt s]"

definition image_ok :: "rrd \<Rightarrow> bool" where
  "image_ok s \<longleftrightarrow>
     stat_head_ok (stat_head s) \<and> atoi (version (stat_head s)) \<le> 4 \<and> dscnt s < 2 ^ 24 \<and> rracnt s < 2 ^ 24 \<and>
     length (ds_def s) = dscnt s \<and> list_all ds_def_ok (ds_def s) \<and> length (rra_def s) = rracnt s \<and> list_all rra_def_ok (rra_def s) \<and>
     live_head_ok (live_head s) \<and> (if atoi (version (stat_head s)) < 3 then last_up_usec (live_head s) = 0 \<and> legacy_last_up s = Some (last_up (live_head s))
                                   else legacy_last_up s = None) \<and>
     length (pdp_prep s) = dscnt s \<and> list_all pdp_prep_ok (pdp_prep s) \<and> cdps_ok s \<and>
     length (rra_ptr s) = rracnt s \<and> list_all (\<lambda>n. n < 2 ^ 64) (rra_ptr s) \<and>
     length (rrd_value s) = dscnt s * sum_list (map row_cnt (rra_def s)) \<and> list_all dbl_ok (rrd_value s) \<and>
     sum_list (map row_cnt (rra_def s)) < 2 ^ 56 \<and> length (rrd_value s) < 2 ^ 56"

lemma length_enc_cdps:
  assumes "cdps_ok s"
  shows "b \<in> set (enc_cdps s) \<Longrightarrow> length b = 80" and "length (concat (enc_cdps s)) = 80 * (rracnt s * dscnt s)"
proof -
  show len: "length b = 80" if "b \<in> set (enc_cdps s)" for b
    using that assms by (auto simp: enc_cdps_def cdps_ok_def list.pred_set cdp_prep.length_enc)
  have "length (concat bs) = 80 * length bs" if "\<forall>b \<in> set bs. length b = 80" for bs :: "bytes list"
    using that by (induction bs) simp_all
  with len show "length (concat (enc_cdps s)) = 80 * (rracnt s * dscnt s)" by (simp add: enc_cdps_def)
qed

text \<open>The blocks of an image, and where they are.\<close>

lemma image_blocks:
  assumes ok: "image_ok s" and l: "l = layout (dscnt s) (rracnt s) (atoi (version (stat_head s)) < 3)"
  obtains A B C D E F G V where "file_image s = A @ B @ C @ D @ E @ F @ G @ V"
    and "A = enc_stat_head (stat_head s)" "B = concat (map enc_ds_def (ds_def s))" "C = concat (map enc_rra_def (rra_def s))"
      "D = (if m_legacy l then enc_s64 (last_up (live_head s)) else enc_live_head (live_head s))"
      "E = concat (map enc_pdp_prep (pdp_prep s))" "F = concat (enc_cdps s)" "G = concat (map enc_u64 (rra_ptr s))"
      "V = concat (map enc_dbl (rrd_value s))"
    and "length A = m_ds_def l" "length (A @ B) = m_rra_def l" "length (A @ B @ C) = m_live_head l" "length (A @ B @ C @ D) = m_pdp_prep l"
      "length (A @ B @ C @ D @ E) = m_cdp_prep l" "length (A @ B @ C @ D @ E @ F) = m_rra_ptr l"
      "length (A @ B @ C @ D @ E @ F @ G) = m_header_len l" "length V = 8 * length (rrd_value s)"
proof -
  note ok = ok [unfolded image_ok_def]
  define legacy where "legacy = (atoi (version (stat_head s)) < 3)"
  define A B C D E F G V where "A = enc_stat_head (stat_head s)" and "B = concat (map enc_ds_def (ds_def s))" and "C = concat (map enc_rra_def (rra_def s))"
    and "D = (if legacy then enc_s64 (last_up (live_head s)) else enc_live_head (live_head s))"
    and "E = concat (map enc_pdp_prep (pdp_prep s))" and "F = concat (enc_cdps s)" and "G = concat (map enc_u64 (rra_ptr s))"
    and "V = concat (map enc_dbl (rrd_value s))"
  have len: "length A = 128" "length B = 120 * dscnt s" "length C = 120 * rracnt s" "length D = (if legacy then 8 else 16)"
    "length E = 112 * dscnt s" "length F = 80 * (rracnt s * dscnt s)" "length G = 8 * rracnt s" "length V = 8 * length (rrd_value s)"
    using ok unfolding A_def B_def C_def D_def E_def F_def G_def V_def
    by (simp_all add: stat_head.length_enc ds_def.length_array rra_def.length_array live_head.length_enc pdp_prep.length_array
        length_enc_cdps cur_row.length_array val.length_array)
  have "file_image s = A @ B @ C @ D @ E @ F @ G @ V"
    by (simp add: file_image_def file_blocks_def A_def B_def C_def D_def E_def F_def G_def V_def legacy_def)
  then show thesis
    using len by (intro that [OF _ A_def B_def C_def _ E_def F_def G_def V_def, of D]) (simp_all add: l layout_def Let_def legacy_def D_def)
qed


lemma rows_at_image:
  assumes ok: "image_ok s"
  shows "dec_stat_head (sub 0 128 (file_image s)) = stat_head s" and "check_stat_head (file_image s) = Inr (stat_head s)"
    and "array_at dec_rra_def 120 (rracnt s) (file_image s) (128 + 120 * dscnt s) = rra_def s"
    and "rows_at (file_image s) (dscnt s) (rracnt s) = sum_list (map row_cnt (rra_def s))"
proof -
  define l where "l = layout (dscnt s) (rracnt s) (atoi (version (stat_head s)) < 3)"
  from image_blocks [OF ok l_def] obtain A B C D E F G V where f: "file_image s = A @ B @ C @ D @ E @ F @ G @ V"
    and A: "A = enc_stat_head (stat_head s)" and C: "C = concat (map enc_rra_def (rra_def s))" and l: "length A = m_ds_def l" "length (A @ B) = m_rra_def l"
    by metis
  note ok = ok [unfolded image_ok_def]
  show "dec_stat_head (sub 0 128 (file_image s)) = stat_head s" unfolding f using ok l A by (simp add: l_def layout_def Let_def stat_head.dec_enc)
  show "check_stat_head (file_image s) = Inr (stat_head s)" unfolding f A using ok by (intro cookie_head) simp_all
  have "array_at dec_rra_def 120 (rracnt s) ((A @ B) @ C @ (D @ E @ F @ G @ V)) (128 + 120 * dscnt s) = rra_def s"
    unfolding C using ok l by (intro rra_def.array_read) (simp_all add: l_def layout_def Let_def)
  then show "array_at dec_rra_def 120 (rracnt s) (file_image s) (128 + 120 * dscnt s) = rra_def s" unfolding f by simp
  then show "rows_at (file_image s) (dscnt s) (rracnt s) = sum_list (map row_cnt (rra_def s))" by (simp add: rows_at_def)
qed

lemma length_image:
  assumes ok: "image_ok s"
  shows "length (file_image s) = m_header_len (layout (dscnt s) (rracnt s) (atoi (version (stat_head s)) < 3)) +
    8 * (sum_list (map row_cnt (rra_def s)) * dscnt s)"
proof (rule image_blocks [OF ok refl])
  fix A B C D E F G V :: bytes
  let ?l = "layout (dscnt s) (rracnt s) (atoi (version (stat_head s)) < 3)"
  assume "file_image s = A @ B @ C @ D @ E @ F @ G @ V" "length (A @ B @ C @ D @ E @ F @ G) = m_header_len ?l" "length V = 8 * length (rrd_value s)"
  then show ?thesis using ok by (simp add: image_ok_def algebra_simps)
qed

lemma view_image:
  assumes ok: "image_ok s" and l: "l = layout (dscnt s) (rracnt s) (atoi (version (stat_head s)) < 3)"
  shows "view (file_image s) l = s\<lparr>pos := 0, pcdp_summary := None\<rparr>"
proof -
  obtain A B C D E F G V where f: "file_image s = A @ B @ C @ D @ E @ F @ G @ V"
    and blk: "A = enc_stat_head (stat_head s)" "B = concat (map enc_ds_def (ds_def s))" "C = concat (map enc_rra_def (rra_def s))"
      "D = (if m_legacy l then enc_s64 (last_up (live_head s)) else enc_live_head (live_head s))"
      "E = concat (map enc_pdp_prep (pdp_prep s))" "F = concat (enc_cdps s)" "G = concat (map enc_u64 (rra_ptr s))"
      "V = concat (map enc_dbl (rrd_value s))"
    and at: "length A = m_ds_def l" "length (A @ B) = m_rra_def l" "length (A @ B @ C) = m_live_head l" "length (A @ B @ C @ D) = m_pdp_prep l"
      "length (A @ B @ C @ D @ E) = m_cdp_prep l" "length (A @ B @ C @ D @ E @ F) = m_rra_ptr l"
      "length (A @ B @ C @ D @ E @ F @ G) = m_header_len l" "length V = 8 * length (rrd_value s)"
    by (rule image_blocks [OF ok l])
  note rd = rows_at_image [OF ok]
  have lay: "m_stat_head l = 0" "m_rra_def l = 128 + 120 * dscnt s" "m_legacy l \<longleftrightarrow> atoi (version (stat_head s)) < 3" by (simp_all add: l layout_def Let_def)
  note ok' = ok [unfolded image_ok_def]
  have ds: "array_at dec_ds_def 120 (dscnt s) (file_image s) (m_ds_def l) = ds_def s"
    using ds_def.array_read [of "ds_def s" "dscnt s" "m_ds_def l" A "C @ D @ E @ F @ G @ V"] ok' at blk by (simp add: f)
  have pdp: "array_at dec_pdp_prep 112 (dscnt s) (file_image s) (m_pdp_prep l) = pdp_prep s"
    using pdp_prep.array_read [of "pdp_prep s" "dscnt s" "m_pdp_prep l" "A @ B @ C @ D" "F @ G @ V"] ok' at blk by (simp add: f)
  have ptr: "array_at unle 8 (rracnt s) (file_image s) (m_rra_ptr l) = rra_ptr s"
    using cur_row.array_read [of "rra_ptr s" "rracnt s" "m_rra_ptr l" "A @ B @ C @ D @ E @ F" V] ok' at blk by (simp add: f)
  have vals: "array_at dec_dbl 8 (dscnt s * sum_list (map row_cnt (rra_def s))) (file_image s) (m_header_len l) = rrd_value s"
    using val.array_read [of "rrd_value s" "length (rrd_value s)" "m_header_len l" "A @ B @ C @ D @ E @ F @ G" "[]"] ok' at blk by (simp add: f)
  have live: "sub (m_live_head l) (length D) (file_image s) = D" unfolding f using at(3) sub_skip [of "A @ B @ C" "m_live_head l" "length D" "D @ E @ F @ G @ V"] by simp
  have cdp: "map (\<lambda>k. dec_cdp_prep (failures (rra_def s ! (k div dscnt s))) (sub (m_cdp_prep l + 80 * k) 80 (file_image s))) [0 ..< rracnt s * dscnt s] = cdp_prep s"
  proof (rule nth_equalityI)
    show "length (map (\<lambda>k. dec_cdp_prep (failures (rra_def s ! (k div dscnt s))) (sub (m_cdp_prep l + 80 * k) 80 (file_image s))) [0 ..< rracnt s * dscnt s]) = length (cdp_prep s)"
      using ok' by (simp add: cdps_ok_def)
    fix k
    assume "k < length (map (\<lambda>k. dec_cdp_prep (failures (rra_def s ! (k div dscnt s))) (sub (m_cdp_prep l + 80 * k) 80 (file_image s))) [0 ..< rracnt s * dscnt s])"
    then have k: "k < rracnt s * dscnt s" by simp
    have "sub (length (A @ B @ C @ D @ E) + 80 * k) 80 ((A @ B @ C @ D @ E) @ concat (enc_cdps s) @ (G @ V)) = enc_cdps s ! k"
    proof (rule sub_concat)
      have "cdps_ok s" using ok' by simp
      then show "length b = 80" if "b \<in> set (enc_cdps s)" for b using that by (rule length_enc_cdps)
      show "k < length (enc_cdps s)" using k by (simp add: enc_cdps_def)
    qed
    then have "sub (m_cdp_prep l + 80 * k) 80 (file_image s) = enc_cdps s ! k" unfolding f blk(6) [symmetric] at(5) by (simp only: append_assoc)
    also have "\<dots> = enc_cdp_prep (failures (rra_def s ! (k div dscnt s))) (cdp_prep s ! k)" using k by (simp add: enc_cdps_def)
    finally have "sub (m_cdp_prep l + 80 * k) 80 (file_image s) = enc_cdp_prep (failures (rra_def s ! (k div dscnt s))) (cdp_prep s ! k)" .
    then show "map (\<lambda>k. dec_cdp_prep (failures (rra_def s ! (k div dscnt s))) (sub (m_cdp_prep l + 80 * k) 80 (file_image s))) [0 ..< rracnt s * dscnt s] ! k = cdp_prep s ! k"
      using k ok' by (simp add: cdps_ok_def list.pred_set cdp_prep.dec_enc)
  qed
  have lh: "(if m_legacy l then \<lparr>last_up = dec_s64 (sub (m_live_head l) 8 (file_image s)), last_up_usec = 0\<rparr>
      else dec_live_head (sub (m_live_head l) 16 (file_image s))) = live_head s"
    "(if m_legacy l then Some (dec_s64 (sub (m_live_head l) 8 (file_image s))) else None) = legacy_last_up s"
    using live ok' blk(4) live_head.length_enc [of "live_head s"] live_head.dec_enc [of "live_head s"] lay(3)
    by (auto simp: live_head_ok_def s64_ok_def split: if_splits)
  show ?thesis unfolding view_def Let_def lay(1,2) rd(1,3) ds pdp ptr vals cdp lh by simp
qed


lemma case_sum_Inr: "(case r of Inl e \<Rightarrow> Inl e | Inr x \<Rightarrow> f x) = Inr y \<longleftrightarrow> (\<exists>x. r = Inr x \<and> f x = Inr y)"
  by (cases r) simp_all

lemma if_Inr: "(if c then Inl e else Inr x) = Inr y \<longleftrightarrow> \<not> c \<and> y = x"
  by auto

lemma rrd_open_stat_head:
  assumes "rrd_open f = Inr m"
  shows "m_stat_head m = 0"
proof -
  obtain x where x: "rrd_read_at ''rrd->stat_head'' 128 1 f 0 = Inr x" "m_stat_head m = fst x"
    using assms unfolding rrd_open_def case_sum_Inr Let_def split_beta if_Inr by (elim exE conjE) simp
  then show ?thesis by (auto simp: rrd_read_at_def Let_def split: if_splits)
qed

text \<open>The sample database as a file.\<close>

definition demo_file :: rrd where
  "demo_file = demo_rrd\<lparr>cdp_prep := map (\<lambda>c. c\<lparr>violations := replicate 28 0\<rparr>) (cdp_prep demo_rrd), pcdp_summary := None\<rparr>"

lemma dbl_ok_int: "\<bar>n\<bar> \<le> 2 ^ 53 \<Longrightarrow> dbl_ok (Fin (of_int n))"
  using dbl_ok_dround [of "of_int n"] dround_int [of n] by simp

lemma dbl_ok_values [simp]: "dbl_ok (Fin 0)" "dbl_ok (Fin 1)" "(numeral w :: int) \<le> 2 ^ 53 \<Longrightarrow> dbl_ok (Fin (numeral w))" "dbl_ok (Fin (1 / 2))" "dbl_ok 0"
proof -
  show "dbl_ok (Fin 0)" "dbl_ok (Fin 1)" "(numeral w :: int) \<le> 2 ^ 53 \<Longrightarrow> dbl_ok (Fin (numeral w))"
    using dbl_ok_int [of 0] dbl_ok_int [of 1] dbl_ok_int [of "numeral w"] by (simp_all only: of_int_0 of_int_1 of_int_numeral abs_numeral abs_0 abs_1) simp_all
  then show "dbl_ok 0" by (simp add: zero_dbl_def)
  have "rnd64 (1 / 2) = 1 / 2" by (rule rnd64_exact [of _ 1 "- 1"]) (simp_all add: power_int_minus)
  moreover have "\<bar>1 / 2 :: rat\<bar> < 2 ^ 1024" by (rule less_trans [of _ 1]) simp_all
  ultimately show "dbl_ok (Fin (1 / 2))" by simp
qed

lemma image_ok_demo: "image_ok demo_file"
proof -
  have v: "atoi ''0003'' = 3" by code_simp
  show ?thesis
    by (simp add: image_ok_def cdps_ok_def demo_file_def demo_rrd_def demo_rra_def demo_cdp_def struct_oks ds_def_ok_def str_ok_def v
        computed_def dst_conv_def failures_def cf_conv_def upt_rec del: dbl_ok.simps(1))
qed

lemma open_image_layout:
  assumes "image_ok s"
  shows "rrd_open (file_image s) = Inr (layout (dscnt s) (rracnt s) (atoi (version (stat_head s)) < 3))"
proof -
  note ok = assms [unfolded image_ok_def] and rd = rows_at_image [OF assms]
  show ?thesis
    using ok rrd_open_iff [of "stat_head s" "file_image s", OF rd(1) [symmetric] _ _ rd(4) [symmetric] _ _ refl] rd(2) length_image [OF assms]
    by (simp add: mult.commute)
qed

section \<open>Properties\<close>

text \<open>
  C9: A file that was written is opened and shows the database that was written, in every version of the format: all structures
  and all values are read back, through pointers that follow each other in the file. The database is one the format can hold
  (\<open>image_ok\<close>): a version up to 4, strings shorter than their fields, integers that fit 64 bits, numbers that are doubles, arrays
  as long as the counts say, fewer than 2^24 data sources and archives and fewer than 2^56 rows and values. The position and the
  notes of an update in progress are not part of a file.
\<close>

theorem rrd_open_image:
  assumes "image_ok s"
  shows "\<exists>m. rrd_open (file_image s) = Inr m \<and> view (file_image s) m = s\<lparr>pos := 0, pcdp_summary := None\<rparr>"
  using open_image_layout [OF assms] view_image [OF assms refl] by blast

theorem rrd_open_image_witness: "\<exists>m. rrd_open (file_image demo_file) = Inr m \<and> rrd_value (view (file_image demo_file) m) = rrd_value demo_rrd"
  using rrd_open_image [OF image_ok_demo] by (auto simp: demo_file_def)

text \<open>
  C10: A file that is opened is long enough: the structures lie one behind the other within it, and so do all rows of all archives.
  The counts in its header are not absurd: fewer than 2^24 data sources and archives and fewer than 2^56 rows and values. With larger
  ones the sizes wrap around and the check passes on a short file (\<open>rrd_open_overflow\<close>).
\<close>

theorem rrd_open_bounds:
  assumes "rrd_open f = Inr m" and s: "s = view f m" and small: "dscnt s < 2 ^ 24" "rracnt s < 2 ^ 24"
    and "rows = sum_list (map row_cnt (rra_def s))" and rows: "rows < 2 ^ 56" "rows * dscnt s < 2 ^ 56"
  shows "m = layout (dscnt s) (rracnt s) (atoi (version (stat_head s)) < 3) \<and> m_header_len m + 8 * (rows * dscnt s) \<le> length f"
proof -
  note sh = rrd_open_stat_head [OF assms(1)]
  have h: "stat_head s = dec_stat_head (sub 0 128 f)" using sh by (simp add: s view_def Let_def)
  from rrd_open_small [OF h small refl, of m] assms(1) have "m_rra_def m = 128 + 120 * dscnt s" by (simp add: layout_def Let_def)
  then have "rra_def s = array_at dec_rra_def 120 (rracnt s) f (128 + 120 * dscnt s)" using h sh by (simp add: s view_def Let_def)
  then have "rows = rows_at f (dscnt s) (rracnt s)" using assms(5) by (simp add: rows_at_def)
  from rrd_open_iff [OF h small this rows refl, of m] assms(1) show ?thesis by auto
qed

theorem rrd_open_bounds_witness:
  "\<exists>m. rrd_open (file_image demo_file) = Inr m \<and> m = layout 2 2 False \<and> m_header_len m + 8 * (5 * 2) \<le> length (file_image demo_file)"
proof -
  obtain m where m: "rrd_open (file_image demo_file) = Inr m" "view (file_image demo_file) m = demo_file\<lparr>pos := 0, pcdp_summary := None\<rparr>"
    using open_image_layout [OF image_ok_demo] view_image [OF image_ok_demo refl] by blast
  have "5 = sum_list (map row_cnt (rra_def (view (file_image demo_file) m)))" "dscnt (view (file_image demo_file) m) = 2"
    "rracnt (view (file_image demo_file) m) = 2" "version (stat_head (view (file_image demo_file) m)) = ''0003''"
    using m(2) by (simp_all add: demo_file_def demo_rrd_def demo_rra_def)
  moreover have "\<not> atoi ''0003'' < 3" by code_simp
  ultimately show ?thesis using rrd_open_bounds [OF m(1) refl, of 5] m(1) by auto
qed

text \<open>
  C11: No part of a written file is accepted: a file that was cut off anywhere is refused. The file was written
  from a database that the format can hold (\<open>image_ok\<close>, see above).
\<close>

theorem rrd_open_truncated:
  assumes "image_ok s" and "k < length (file_image s)"
  shows "\<exists>e. rrd_open (take k (file_image s)) = Inl e"
proof (rule ccontr)
  let ?f = "take k (file_image s)" and ?rows = "sum_list (map row_cnt (rra_def s))"
  define l where "l = layout (dscnt s) (rracnt s) (atoi (version (stat_head s)) < 3)"
  note ok = assms(1) [unfolded image_ok_def] and rd = rows_at_image [OF assms(1)]
  assume "\<not> (\<exists>e. rrd_open ?f = Inl e)"
  then obtain m where m: "rrd_open ?f = Inr m" by (metis sum.exhaust)
  have "128 \<le> k" using m assms(2) by (auto simp: rrd_open_def rrd_read_at_small split: if_splits)
  then have h: "stat_head s = dec_stat_head (sub 0 128 ?f)" using rd(1) by (simp add: sub_take)
  have small: "dscnt s < 2 ^ 24" "rracnt s < 2 ^ 24" and rows: "?rows < 2 ^ 56" "?rows * dscnt s < 2 ^ 56"
    using ok by (simp_all add: mult.commute)
  from rrd_open_small [OF h small l_def, of m] m have "m_header_len l \<le> k" using assms(2) by simp
  then have "128 + 120 * dscnt s + 120 * rracnt s \<le> k" by (simp add: l_def layout_def Let_def)
  moreover have "120 * Suc i \<le> 120 * rracnt s" if "i < rracnt s" for i using that by simp
  ultimately have "sub (128 + 120 * dscnt s + 120 * i) 120 ?f = sub (128 + 120 * dscnt s + 120 * i) 120 (file_image s)" if "i < rracnt s" for i
    using that by (intro sub_take) fastforce
  then have "array_at dec_rra_def 120 (rracnt s) ?f (128 + 120 * dscnt s) = rra_def s" unfolding rd(3) [symmetric] array_at_def by simp
  then have "?rows = rows_at ?f (dscnt s) (rracnt s)" by (simp add: rows_at_def)
  from rrd_open_iff [OF h small this rows l_def, of m] m have "m_header_len l + 8 * (?rows * dscnt s) \<le> k" using assms(2) by simp
  then show False using assms(2) length_image [OF assms(1)] by (simp add: l_def)
qed

theorem rrd_open_truncated_witness: "\<exists>e. rrd_open (take 1000 (file_image demo_file)) = Inl e"
proof (rule rrd_open_truncated [OF image_ok_demo])
  show "1000 < length (file_image demo_file)"
    unfolding length_image [OF image_ok_demo] by (simp add: demo_file_def demo_rrd_def demo_rra_def layout_def Let_def)
qed

text \<open>
  The bound on the numbers is needed: the sizes are multiplied without a check. A file of 144 bytes that claims \<open>2 ^ 61\<close> data
  sources is opened.
\<close>

lemma rrd_open_overflow:
  assumes "h = \<lparr>version = ''0003'', ds_cnt = 2 ^ 61, rra_cnt = 0, pdp_step = 300\<rparr>"
  shows "\<exists>m. rrd_open (enc_stat_head h @ replicate 16 0) = Inr m"
proof -
  have v: "atoi ''0003'' = 3" by code_simp
  have ok: "stat_head_ok h" by (simp add: assms stat_head_ok_def str_ok_def)
  have "length (enc_stat_head h) = 128" using ok by (rule stat_head.length_enc)
  then show ?thesis using cookie_head [OF ok, of "replicate 16 0"]
    by (simp add: assms v rrd_open_def rrd_read_at_def correct_len_def u64_def Let_def)
qed

end
