(* ===== verification/Tune.thy ===== *)
theory Tune
  imports Create Hw_Smoother Fetch File_Image
begin

text \<open>
  Changing a database in place (\<open>rrd_tune.c\<close>) and the small queries (\<open>rrd_first.c\<close>, \<open>rrd_last.c\<close>, \<open>rrd_lastupdate.c\<close>). The
  options are what \<open>getopt_long\<close> has recognised, in order. The header is mapped, so every change is in the file at once, also
  when a later option fails; the writes at the end of \<open>rrd_tune\<close> copy the mapped structures onto themselves. A reset of the
  aberrant coefficients is that of the smoother; the times of the queries are related to the rows that fetching delivers.
\<close>

section \<open>Data sources\<close>

datatype tune_error =
    InvalidHeartbeat | InvalidMinimum | InvalidMaximum | InvalidTuneType | InvalidRename | InvalidReset | NoSuchDs | NoSuchDst
  | HwParamRange | NoHwRra | DeltaTooSmall | NoFailuresRra | WindowParamRange | ResetFailed hw_error | UnknownOption | RraIndexWrapped

text \<open>\<open>sscanf\<close> with \<open>DS_NAM_FMT\<close> and a colon: the name, and what stands behind the colon, if the input goes on with one.\<close>

definition scan_name :: "string \<Rightarrow> (string \<times> string option) option" where
  "scan_name arg =
     (case scan_set 19 ds_nam_char arg of
        None \<Rightarrow> None
      | Some (nam, r) \<Rightarrow> Some (nam, (case r of [] \<Rightarrow> None | c # r \<Rightarrow> if c = CHR '':'' then Some r else None)))"

definition scan_ld :: "string \<Rightarrow> int option" where
  "scan_ld str = (case strtol str of (v, r) \<Rightarrow> if r = str then None else Some v)"

text \<open>
  The parameters of a data source lie over the nodes of a computed one. A store through the other member of the union, or a
  change of the type, therefore reads the same bytes in another way.
\<close>

definition over_par :: "nat \<Rightarrow> bytes \<Rightarrow> ds_def_t \<Rightarrow> ds_def_t" where
  "over_par off bs d = (let b = enc_ds_def d in dec_ds_def (take (40 + off) b @ bs @ drop (40 + off + length bs) b))"

definition set_mrhb :: "nat \<Rightarrow> ds_def_t \<Rightarrow> ds_def_t" where
  "set_mrhb h d = (if computed (dst d) then over_par 0 (enc_u64 h) d else d\<lparr>mrhb_cnt := h\<rparr>)"

definition set_min :: "dbl \<Rightarrow> ds_def_t \<Rightarrow> ds_def_t" where
  "set_min v d = (if computed (dst d) then over_par 8 (enc_dbl v) d else d\<lparr>min_val := v\<rparr>)"

definition set_max :: "dbl \<Rightarrow> ds_def_t \<Rightarrow> ds_def_t" where
  "set_max v d = (if computed (dst d) then over_par 16 (enc_dbl v) d else d\<lparr>max_val := v\<rparr>)"

definition set_dst :: "string \<Rightarrow> ds_def_t \<Rightarrow> ds_def_t" where
  "set_dst ty d =
     (if computed ty = computed (dst d) then d\<lparr>dst := ty\<rparr>
      else let b = enc_ds_def d in dec_ds_def (take 20 b @ enc_str 20 ty @ drop 40 b))"

definition upd_ds :: "nat \<Rightarrow> (ds_def_t \<Rightarrow> ds_def_t) \<Rightarrow> rrd \<Rightarrow> rrd" where
  "upd_ds i f s = s\<lparr>ds_def := (ds_def s)[i := f (ds_def s ! i)]\<rparr>"

definition with_ds :: "string \<Rightarrow> rrd \<Rightarrow> (nat \<Rightarrow> (tune_error, rrd) outcome) \<Rightarrow> (tune_error, rrd) outcome" where
  "with_ds nam s f = (let ds = ds_match s nam in if ds = - 1 then (Some NoSuchDs, s) else f (nat ds))"

definition tune_heartbeat :: "string \<Rightarrow> rrd \<Rightarrow> (tune_error, rrd) outcome" where
  "tune_heartbeat arg s =
     (case scan_name arg of
        Some (nam, Some r) \<Rightarrow>
          (case scan_ld r of
             Some hb \<Rightarrow> with_ds nam s (\<lambda>ds. (None, upd_ds ds (set_mrhb (u64 hb)) s))
           | None \<Rightarrow> (Some InvalidHeartbeat, s))
      | _ \<Rightarrow> (Some InvalidHeartbeat, s))"

text \<open>The limit is unknown when only the name could be read.\<close>

definition scan_limit :: "string option \<Rightarrow> dbl" where
  "scan_limit r = (case Option.bind r scan_lf of Some v \<Rightarrow> v | None \<Rightarrow> NaN)"

definition tune_minimum :: "string \<Rightarrow> rrd \<Rightarrow> (tune_error, rrd) outcome" where
  "tune_minimum arg s =
     (case scan_name arg of
        Some (nam, r) \<Rightarrow> with_ds nam s (\<lambda>ds. (None, upd_ds ds (set_min (scan_limit r)) s))
      | None \<Rightarrow> (Some InvalidMinimum, s))"

definition tune_maximum :: "string \<Rightarrow> rrd \<Rightarrow> (tune_error, rrd) outcome" where
  "tune_maximum arg s =
     (case scan_name arg of
        Some (nam, r) \<Rightarrow> with_ds nam s (\<lambda>ds. (None, upd_ds ds (set_max (scan_limit r)) s))
      | None \<Rightarrow> (Some InvalidMaximum, s))"

definition tune_type :: "string \<Rightarrow> rrd \<Rightarrow> (tune_error, rrd) outcome" where
  "tune_type arg s =
     (case scan_name arg of
        Some (nam, Some r) \<Rightarrow>
          (case scan_set 19 isupper r of
             Some (ty, _) \<Rightarrow>
               with_ds nam s (\<lambda>ds.
                 if dst_conv ty = None then (Some NoSuchDst, s)
                 else if dst (ds_def s ! ds) \<noteq> ty
                 then (None, (upd_ds ds (set_dst ty) s)\<lparr>pdp_prep := (pdp_prep s)[ds := (pdp_prep s ! ds)\<lparr>last_ds := ''UNKN''\<rparr>]\<rparr>)
                 else (None, s))
           | None \<Rightarrow> (Some InvalidTuneType, s))
      | _ \<Rightarrow> (Some InvalidTuneType, s))"

definition tune_rename :: "string \<Rightarrow> rrd \<Rightarrow> (tune_error, rrd) outcome" where
  "tune_rename arg s =
     (case scan_name arg of
        Some (nam, Some r) \<Rightarrow>
          (case scan_set 19 ds_nam_char r of
             Some (new, _) \<Rightarrow> with_ds nam s (\<lambda>ds. (None, upd_ds ds (\<lambda>d. d\<lparr>ds_nam := strncpy_field 20 new\<rparr>) s))
           | None \<Rightarrow> (Some InvalidRename, s))
      | _ \<Rightarrow> (Some InvalidRename, s))"

section \<open>Parameters of aberrant behaviour detection\<close>

text \<open>
  The first archive with a consolidation function. The index is a \<open>signed short\<close>; one that wraps to a negative number other
  than \<open>-1\<close> makes the store that follows go outside the array.
\<close>

definition find_cf :: "cf_en \<Rightarrow> rrd \<Rightarrow> int" where
  "find_cf cf s =
     (case find (\<lambda>i. cf_conv (cf_nam (rra_def s ! i)) = Some cf) [0 ..< rracnt s] of
        None \<Rightarrow> - 1 | Some i \<Rightarrow> s16 (int i))"

definition set_first :: "cf_en \<Rightarrow> tune_error \<Rightarrow> (rra_def_t \<Rightarrow> rra_def_t) \<Rightarrow> rrd \<Rightarrow> (tune_error, rrd) outcome" where
  "set_first cf err f s =
     (let rra_idx = find_cf cf s in
      if rra_idx = - 1 then (Some err, s)
      else if rra_idx < 0 then (Some RraIndexWrapped, s)
      else (None, s\<lparr>rra_def := (rra_def s)[nat rra_idx := f (rra_def s ! nat rra_idx)]\<rparr>))"

definition set_hwarg :: "cf_en \<Rightarrow> (dbl \<Rightarrow> rra_def_t \<Rightarrow> rra_def_t) \<Rightarrow> string \<Rightarrow> rrd \<Rightarrow> (tune_error, rrd) outcome" where
  "set_hwarg cf f arg s =
     (let param = atof arg in
      if param \<le> 0 \<or> param \<ge> 1 then (Some HwParamRange, s) else set_first cf NoHwRra (f param) s)"

definition set_hwsmootharg :: "cf_en \<Rightarrow> string \<Rightarrow> rrd \<Rightarrow> (tune_error, rrd) outcome" where
  "set_hwsmootharg cf arg s =
     (let param = atof arg in
      if param < 0 \<or> param > 1 then (Some HwParamRange, s) else set_first cf NoHwRra (\<lambda>r. r\<lparr>par2 := param\<rparr>) s)"

definition set_deltaarg :: "(dbl \<Rightarrow> rra_def_t \<Rightarrow> rra_def_t) \<Rightarrow> string \<Rightarrow> rrd \<Rightarrow> (tune_error, rrd) outcome" where
  "set_deltaarg f arg s =
     (let param = atof arg in
      if param < d_const 1 1 then (Some DeltaTooSmall, s) else set_first CF_FAILURES NoFailuresRra (f param) s)"

definition set_windowarg :: "(nat \<Rightarrow> rra_def_t \<Rightarrow> rra_def_t) \<Rightarrow> string \<Rightarrow> rrd \<Rightarrow> (tune_error, rrd) outcome" where
  "set_windowarg f arg s =
     (let param = u64 (atoi arg) in
      if param < 1 \<or> int param > MAX_FAILURES_WINDOW_LEN then (Some WindowParamRange, s)
      else andThen (set_first CF_FAILURES NoFailuresRra (f param) s)
             (\<lambda>t. (None, fold (\<lambda>i t. erase_violations (nat (find_cf CF_FAILURES s) * dscnt s + i) (nat (find_cf CF_FAILURES s)) t)
                            [0 ..< dscnt s] t)))"

definition tune_predict :: "(dbl \<Rightarrow> rra_def_t \<Rightarrow> rra_def_t) \<Rightarrow> string \<Rightarrow> rrd \<Rightarrow> (tune_error, rrd) outcome" where
  "tune_predict f arg s =
     (case set_hwarg CF_HWPREDICT f arg s of
        (None, t) \<Rightarrow> (None, t)
      | (Some _, t) \<Rightarrow> set_hwarg CF_MHWPREDICT f arg t)"

definition tune_reset :: "string \<Rightarrow> rrd \<Rightarrow> (tune_error, rrd) outcome" where
  "tune_reset arg s =
     (case scan_set 19 ds_nam_char arg of
        Some (nam, _) \<Rightarrow> with_ds nam s (\<lambda>ds. map_err ResetFailed (reset_aberrant_coefficients ds s))
      | None \<Rightarrow> (Some InvalidReset, s))"

definition tune_smooth :: "cf_en \<Rightarrow> string \<Rightarrow> rrd \<Rightarrow> (tune_error, rrd) outcome" where
  "tune_smooth cf arg s = set_hwsmootharg cf arg (s\<lparr>stat_head := (stat_head s)\<lparr>version := ''0004''\<rparr>\<rparr>)"

section \<open>The command\<close>

definition tune_opt :: "char \<times> string \<Rightarrow> rrd \<Rightarrow> (tune_error, rrd) outcome" where
  "tune_opt oa s =
     (case oa of (opt, arg) \<Rightarrow>
      if opt = CHR ''h'' then tune_heartbeat arg s
      else if opt = CHR ''i'' then tune_minimum arg s
      else if opt = CHR ''a'' then tune_maximum arg s
      else if opt = CHR ''d'' then tune_type arg s
      else if opt = CHR ''r'' then tune_rename arg s
      else if opt = CHR ''p'' then set_deltaarg (\<lambda>v r. r\<lparr>par1 := v\<rparr>) arg s
      else if opt = CHR ''n'' then set_deltaarg (\<lambda>v r. r\<lparr>par2 := v\<rparr>) arg s
      else if opt = CHR ''f'' then set_windowarg (\<lambda>n r. r\<lparr>failure_threshold := n\<rparr>) arg s
      else if opt = CHR ''w'' then set_windowarg (\<lambda>n r. r\<lparr>par4 := n\<rparr>) arg s
      else if opt = CHR ''x'' then tune_predict (\<lambda>v r. r\<lparr>par1 := v\<rparr>) arg s
      else if opt = CHR ''y'' then tune_predict (\<lambda>v r. r\<lparr>par2 := v\<rparr>) arg s
      else if opt = CHR ''z'' then set_hwarg CF_SEASONAL (\<lambda>v r. r\<lparr>par1 := v\<rparr>) arg s
      else if opt = CHR ''v'' then set_hwarg CF_DEVSEASONAL (\<lambda>v r. r\<lparr>par1 := v\<rparr>) arg s
      else if opt = CHR ''b'' then tune_reset arg s
      else if opt = CHR ''s'' then tune_smooth CF_SEASONAL arg s
      else if opt = CHR ''S'' then tune_smooth CF_DEVSEASONAL arg s
      else if opt = CHR ''?'' then (Some UnknownOption, s)
      else (None, s))"

text \<open>Without options the command lists the data sources; the values are those that \<open>printf\<close> is given.\<close>

datatype tune_line = PlainLine string string int dbl dbl | ComputedLine string string string

definition tune_list :: "rrd \<Rightarrow> tune_line list" where
  "tune_list s =
     map (\<lambda>i. let d = ds_def s ! i in
              if dst_conv (dst d) \<noteq> Some DST_CDEF
              then PlainLine (ds_nam d) (dst d) (s64 (int (mrhb_cnt d))) (min_val d) (max_val d)
              else ComputedLine (ds_nam d) (dst d) (rpn_compact2str (ds_def s) (cdef d)))
       [0 ..< nat (s32 (int (dscnt s)))]"

definition rrd_tune :: "(char \<times> string) list \<Rightarrow> rrd \<Rightarrow> (tune_error, rrd) outcome \<times> tune_line list" where
  "rrd_tune opts s =
     (let r = loopM tune_opt opts s in (r, if opts = [] then tune_list s else []))"

section \<open>First and last times\<close>

text \<open>\<open>None\<close> is the result \<open>-1\<close> with an error; the factors are \<open>unsigned long\<close> and so is the sum before it becomes a time.\<close>

definition rrd_first_r :: "int \<Rightarrow> rrd \<Rightarrow> int option" where
  "rrd_first_r rraindex s =
     (if rraindex < 0 \<or> rraindex \<ge> s32 (int (rracnt s)) then None
      else let r = rra_def s ! nat rraindex;
               timer = - s64 (int (row_cnt r) - 1);
               w = u64 (int (pdp_cnt r) * int (pdpstep s));
               lu = last_up (live_head s)
           in Some (s64 (int (u64 lu) - int (u64 lu mod w) + timer * int (pdp_cnt r) * int (pdpstep s))))"

definition rrd_first :: "string option \<Rightarrow> rrd \<Rightarrow> int option" where
  "rrd_first rraindex s =
     (let target = (case rraindex of None \<Rightarrow> 0 | Some arg \<Rightarrow> s32 (fst (strtol_base0 arg))) in
      if target < 0 then None else rrd_first_r target s)"

definition rrd_last_r :: "rrd \<Rightarrow> int" where
  "rrd_last_r s = last_up (live_head s)"

record last_update =
  lu_time :: int
  lu_names :: "string list"
  lu_values :: "string list"

definition rrd_lastupdate_r :: "rrd \<Rightarrow> last_update" where
  "rrd_lastupdate_r s =
     \<lparr>lu_time = last_up (live_head s), lu_names = map (\<lambda>i. ds_nam (ds_def s ! i)) [0 ..< dscnt s],
      lu_values = map (\<lambda>i. last_ds (pdp_prep s ! i)) [0 ..< dscnt s]\<rparr>"

section \<open>What tuning keeps\<close>

definition rra_frame :: "rra_def_t \<Rightarrow> string \<times> nat \<times> nat \<times> dbl \<times> nat" where
  "rra_frame r = (cf_nam r, row_cnt r, pdp_cnt r, cdp_xff_val r, dependent_rra_idx r)"

definition frame_kept :: "rrd \<Rightarrow> rrd \<Rightarrow> bool" where
  "frame_kept s t \<longleftrightarrow>
     dscnt t = dscnt s \<and> rracnt t = rracnt s \<and> pdpstep t = pdpstep s \<and> live_head t = live_head s \<and> rra_ptr t = rra_ptr s \<and>
     length (ds_def t) = length (ds_def s) \<and> length (pdp_prep t) = length (pdp_prep s) \<and>
     length (cdp_prep t) = length (cdp_prep s) \<and> length (rrd_value t) = length (rrd_value s) \<and>
     map rra_frame (rra_def t) = map rra_frame (rra_def s)"

text \<open>The ranges that the parameters have; a NaN is inside every range, because no comparison with it holds.\<close>

definition inside :: "dbl \<Rightarrow> bool" where
  "inside x \<longleftrightarrow> \<not> x \<le> 0 \<and> \<not> x \<ge> 1"

definition rra_params_ok :: "rra_def_t \<Rightarrow> bool" where
  "rra_params_ok r =
     (case cf_conv (cf_nam r) of
        Some CF_HWPREDICT \<Rightarrow> inside (hw_alpha r) \<and> inside (hw_beta r)
      | Some CF_MHWPREDICT \<Rightarrow> inside (hw_alpha r) \<and> inside (hw_beta r)
      | Some CF_SEASONAL \<Rightarrow> inside (seasonal_gamma r) \<and> \<not> par2 r < 0 \<and> \<not> par2 r > 1
      | Some CF_DEVSEASONAL \<Rightarrow> inside (seasonal_gamma r) \<and> \<not> par2 r < 0 \<and> \<not> par2 r > 1
      | Some CF_FAILURES \<Rightarrow>
          \<not> delta_pos r < d_const 1 1 \<and> \<not> delta_neg r < d_const 1 1 \<and>
          1 \<le> window_len r \<and> window_len r \<le> 28 \<and> 1 \<le> failure_threshold r \<and> failure_threshold r \<le> 28
      | _ \<Rightarrow> True)"

definition tune_inv :: "rrd \<Rightarrow> bool" where
  "tune_inv s \<longleftrightarrow>
     wf_rrd s \<and> list_all (\<lambda>d. str_ok 20 (ds_nam d)) (ds_def s) \<and> list_all rra_params_ok (rra_def s) \<and> rracnt s < 2 ^ 15"

text \<open>A step: the invariant afterwards, the frame, and the stored values when the flag is set.\<close>

definition tuned :: "bool \<Rightarrow> rrd \<Rightarrow> rrd \<Rightarrow> bool" where
  "tuned v s t \<longleftrightarrow> tune_inv t \<and> frame_kept s t \<and> (v \<longrightarrow> rrd_value t = rrd_value s)"

lemma tuned_refl [simp]: "tune_inv s \<Longrightarrow> tuned v s s"
  by (simp add: tuned_def frame_kept_def)

lemma tuned_trans: "tuned v s t \<Longrightarrow> tuned v t u \<Longrightarrow> tuned v s u"
  by (auto simp: tuned_def frame_kept_def)

lemma rra_total_frame: "rra_total w rs = sum_list (map (\<lambda>(_, n, _). n * w) (map rra_frame rs))"
  by (simp add: rra_total_def rra_frame_def comp_def)

lemma frame_nth:
  assumes "map rra_frame rs = map rra_frame qs" and "i < length qs"
  shows "cf_nam (rs ! i) = cf_nam (qs ! i)" "row_cnt (rs ! i) = row_cnt (qs ! i)" "pdp_cnt (rs ! i) = pdp_cnt (qs ! i)"
proof -
  have "map rra_frame rs ! i = map rra_frame qs ! i" "length rs = length qs"
    using assms(1) map_eq_imp_length_eq by simp_all
  with assms(2) show "cf_nam (rs ! i) = cf_nam (qs ! i)" "row_cnt (rs ! i) = row_cnt (qs ! i)" "pdp_cnt (rs ! i) = pdp_cnt (qs ! i)"
    by (simp_all add: rra_frame_def)
qed

lemma frame_kept_wf:
  assumes wf: "wf_rrd s" and k: "frame_kept s t" and d: "list_all (\<lambda>d. dst_conv (dst d) \<noteq> None) (ds_def t)"
  shows "wf_rrd t"
proof -
  have fr: "map rra_frame (rra_def t) = map rra_frame (rra_def s)" and n: "length (rra_def t) = length (rra_def s)"
    using k map_eq_imp_length_eq by (auto simp: frame_kept_def)
  have "rra_total (dscnt t) (rra_def t) = rra_total (dscnt s) (rra_def s)"
    unfolding rra_total_frame fr using k by (simp add: frame_kept_def)
  moreover have "list_all (\<lambda>r. 0 < row_cnt r \<and> 0 < pdp_cnt r \<and> cf_conv (cf_nam r) \<noteq> None) (rra_def t)"
    using wf frame_nth [OF fr] n by (simp add: wf_rrd_def list_all_length)
  moreover have "list_all2 (\<lambda>c r. c < row_cnt r) (rra_ptr t) (rra_def t)"
    using wf k frame_nth [OF fr] n by (simp add: wf_rrd_def list_all2_conv_all_nth frame_kept_def)
  ultimately show ?thesis using wf k d n by (simp add: wf_rrd_def frame_kept_def)
qed

lemma tune_invI:
  "tune_inv s \<Longrightarrow> frame_kept s t \<Longrightarrow> list_all (\<lambda>d. dst_conv (dst d) \<noteq> None \<and> str_ok 20 (ds_nam d)) (ds_def t) \<Longrightarrow>
   list_all rra_params_ok (rra_def t) \<Longrightarrow> tune_inv t"
  using frame_kept_wf [of s t] by (simp add: tune_inv_def list_all_iff) (simp add: frame_kept_def)

section \<open>Changing data sources\<close>

lemma list_all_update: "list_all P xs \<Longrightarrow> P x \<Longrightarrow> list_all P (xs[i := x])"
  by (auto simp: list_all_iff dest!: set_update_subset_insert [THEN subsetD])

lemma dst_conv_str_ok: "dst_conv ty \<noteq> None \<Longrightarrow> str_ok 20 ty"
  by (auto simp: dst_conv_def str_ok_def split: if_splits)

lemma tune_inv_ds:
  assumes "tune_inv s" and "i < dscnt s"
  shows "str_ok 20 (ds_nam (ds_def s ! i))" "dst_conv (dst (ds_def s ! i)) \<noteq> None" "i < length (ds_def s)"
  using assms by (auto simp: tune_inv_def wf_rrd_def list_all_length)

lemma upd_ds_tuned:
  assumes inv: "tune_inv s" and i: "i < dscnt s"
    and f: "str_ok 20 (ds_nam (f (ds_def s ! i)))" "dst_conv (dst (f (ds_def s ! i))) \<noteq> None"
  shows "tuned True s (upd_ds i f s)"
proof -
  have "frame_kept s (upd_ds i f s)" by (simp add: frame_kept_def upd_ds_def)
  moreover have "list_all (\<lambda>d. dst_conv (dst d) \<noteq> None \<and> str_ok 20 (ds_nam d)) (ds_def (upd_ds i f s))"
  proof -
    have "list_all (\<lambda>d. dst_conv (dst d) \<noteq> None \<and> str_ok 20 (ds_nam d)) (ds_def s)"
      using inv by (simp add: tune_inv_def wf_rrd_def list_all_iff)
    from list_all_update [OF this] show ?thesis using f by (simp add: upd_ds_def)
  qed
  moreover have "list_all rra_params_ok (rra_def (upd_ds i f s))" using inv by (simp add: upd_ds_def tune_inv_def)
  ultimately show ?thesis using tune_invI [OF inv] by (simp add: tuned_def) (simp add: upd_ds_def)
qed

lemma enc_ds_def_split:
  obtains r where "enc_ds_def d = enc_str 20 (ds_nam d) @ enc_str 20 (dst d) @ r"
  unfolding enc_ds_def_def by blast

lemma dec_ds_def_head:
  assumes "str_ok 20 nam" and "str_ok 20 ty"
  shows "ds_nam (dec_ds_def (enc_str 20 nam @ enc_str 20 ty @ r)) = nam" "dst (dec_ds_def (enc_str 20 nam @ enc_str 20 ty @ r)) = ty"
  using assms by (simp_all add: dec_ds_def_def Let_def sub_def length_enc_str dec_enc_str)

lemma over_par_head:
  assumes "str_ok 20 (ds_nam d)" and "dst_conv (dst d) \<noteq> None"
  shows "ds_nam (over_par off bs d) = ds_nam d" "dst (over_par off bs d) = dst d"
proof -
  note ok = assms(1) dst_conv_str_ok [OF assms(2)]
  obtain r where r: "enc_ds_def d = enc_str 20 (ds_nam d) @ enc_str 20 (dst d) @ r" using enc_ds_def_split .
  have "over_par off bs d = dec_ds_def (enc_str 20 (ds_nam d) @ enc_str 20 (dst d) @ (take off r @ bs @ drop (off + length bs) r))"
    unfolding over_par_def Let_def r using ok by (simp add: length_enc_str)
  then show "ds_nam (over_par off bs d) = ds_nam d" "dst (over_par off bs d) = dst d"
    using dec_ds_def_head [OF ok] by simp_all
qed

lemma set_dst_head:
  assumes "str_ok 20 (ds_nam d)" and "dst_conv (dst d) \<noteq> None" and "dst_conv ty \<noteq> None"
  shows "ds_nam (set_dst ty d) = ds_nam d" "dst (set_dst ty d) = ty"
proof -
  note ok = assms(1) dst_conv_str_ok [OF assms(2)] dst_conv_str_ok [OF assms(3)]
  obtain r where r: "enc_ds_def d = enc_str 20 (ds_nam d) @ enc_str 20 (dst d) @ r" using enc_ds_def_split .
  have "take 20 (enc_ds_def d) @ enc_str 20 ty @ drop 40 (enc_ds_def d) = enc_str 20 (ds_nam d) @ enc_str 20 ty @ r"
    unfolding r using ok by (simp add: length_enc_str)
  then show "ds_nam (set_dst ty d) = ds_nam d" "dst (set_dst ty d) = ty"
    using dec_ds_def_head [OF ok(1,3)] by (simp_all add: set_dst_def Let_def)
qed

lemma with_ds_tuned:
  assumes "tune_inv s" and "\<And>i. i < dscnt s \<Longrightarrow> tuned v s (snd (f i))"
  shows "tuned v s (snd (with_ds nam s f))"
proof -
  have "ds_match s nam = - 1 \<or> (\<exists>k < dscnt s. ds_match s nam = int k)"
    using ds_match_from_cases [of 0 "take (dscnt s) (ds_def s)" nam] assms(1)
    by (auto simp: ds_match_def tune_inv_def wf_rrd_def)
  then show ?thesis using assms by (auto simp: with_ds_def Let_def)
qed

lemma scan_set_ok:
  assumes "scan_set n P str = Some (v, r)"
  shows "length v \<le> n" "list_all P v"
  using assms set_takeWhileD [of _ P str]
  by (auto simp: scan_set_def Let_def list_all_iff split: if_splits dest!: in_set_takeD)

lemma scan_set_name_ok:
  assumes "scan_set 19 ds_nam_char str = Some (v, r)"
  shows "str_ok 20 (strncpy_field 20 v)"
proof -
  have "\<not> ds_nam_char (CHR 0x00)" by (simp add: ds_nam_char_def isalnum_def isalpha_def isupper_def islower_def code_def is_digit_def)
  then show ?thesis using scan_set_ok [OF assms] by (auto simp: str_ok_def strncpy_field_def list_all_iff dest: in_set_takeD)
qed

lemma tune_ds_options:
  assumes inv: "tune_inv s"
  shows "tuned True s (snd (tune_heartbeat arg s))" "tuned True s (snd (tune_minimum arg s))" "tuned True s (snd (tune_maximum arg s))"
    "tuned True s (snd (tune_rename arg s))"
proof -
  note d = tune_inv_ds [OF inv]
  have h: "tuned True s (upd_ds i (set_mrhb h) s)" "tuned True s (upd_ds i (set_min v) s)" "tuned True s (upd_ds i (set_max v) s)"
    if "i < dscnt s" for i h v
    using d [OF that] over_par_head by (auto intro!: upd_ds_tuned inv that simp: set_mrhb_def set_min_def set_max_def)
  then show "tuned True s (snd (tune_heartbeat arg s))" "tuned True s (snd (tune_minimum arg s))" "tuned True s (snd (tune_maximum arg s))"
    using inv by (auto simp: tune_heartbeat_def tune_minimum_def tune_maximum_def split: option.splits intro!: with_ds_tuned)
  show "tuned True s (snd (tune_rename arg s))"
    using inv d scan_set_name_ok by (auto simp: tune_rename_def split: option.splits intro!: with_ds_tuned upd_ds_tuned)
qed

lemma tune_type_tuned:
  assumes inv: "tune_inv s"
  shows "tuned True s (snd (tune_type arg s))"
proof -
  have "tuned True s ((upd_ds i (set_dst ty) s)\<lparr>pdp_prep := (pdp_prep s)[i := p]\<rparr>)"
    if "i < dscnt s" "dst_conv ty \<noteq> None" for i ty p
  proof -
    note d = tune_inv_ds [OF inv that(1)]
    have "tuned True s (upd_ds i (set_dst ty) s)"
      using d set_dst_head [OF d(1,2) that(2)] that by (intro upd_ds_tuned inv) simp_all
    then show ?thesis by (simp add: tuned_def frame_kept_def tune_inv_def wf_rrd_def upd_ds_def)
  qed
  then show ?thesis using inv by (auto simp: tune_type_def split: option.splits intro!: with_ds_tuned)
qed

section \<open>Parameters\<close>

lemma find_cf_cases:
  assumes "tune_inv s"
  shows "find_cf cf s = - 1 \<or> (\<exists>k < rracnt s. find_cf cf s = int k \<and> cf_conv (cf_nam (rra_def s ! k)) = Some cf)"
proof (cases "find (\<lambda>i. cf_conv (cf_nam (rra_def s ! i)) = Some cf) [0 ..< rracnt s]")
  case None
  then show ?thesis by (simp add: find_cf_def)
next
  case (Some k)
  then have "k < rracnt s" "cf_conv (cf_nam (rra_def s ! k)) = Some cf" by (auto simp: find_Some_iff)
  moreover from this have "s16 (int k) = int k" using assms by (intro s16_id) (simp_all add: tune_inv_def)
  ultimately show ?thesis using Some by (simp add: find_cf_def)
qed

definition good_param :: "cf_en \<Rightarrow> (rra_def_t \<Rightarrow> rra_def_t) \<Rightarrow> bool" where
  "good_param cf f \<longleftrightarrow>
     (\<forall>r. cf_conv (cf_nam r) = Some cf \<longrightarrow> rra_params_ok r \<longrightarrow> rra_frame (f r) = rra_frame r \<and> rra_params_ok (f r))"

lemma set_first_tuned:
  assumes inv: "tune_inv s" and f: "good_param cf f"
  shows "tuned True s (snd (set_first cf err f s))"
proof -
  consider "find_cf cf s = - 1" | k where "k < rracnt s" "find_cf cf s = int k" "cf_conv (cf_nam (rra_def s ! k)) = Some cf"
    using find_cf_cases [OF inv, of cf] by blast
  then show ?thesis
  proof cases
    case 1
    then show ?thesis using inv by (simp add: set_first_def)
  next
    case 2
    let ?t = "s\<lparr>rra_def := (rra_def s)[k := f (rra_def s ! k)]\<rparr>"
    have k: "k < length (rra_def s)" using 2(1) inv by (simp add: tune_inv_def wf_rrd_def)
    have "rra_params_ok (rra_def s ! k)" using inv k by (simp add: tune_inv_def list_all_length)
    then have g: "rra_frame (f (rra_def s ! k)) = rra_frame (rra_def s ! k)" "rra_params_ok (f (rra_def s ! k))"
      using f 2(3) by (simp_all add: good_param_def)
    have "map rra_frame ((rra_def s)[k := f (rra_def s ! k)]) = map rra_frame (rra_def s)"
      using g(1) k by (simp add: map_update list_update_same_conv)
    then have kp: "frame_kept s ?t" by (simp add: frame_kept_def)
    have "tune_inv ?t"
      using inv g(2) by (intro tune_invI [OF inv kp]) (simp_all add: tune_inv_def wf_rrd_def list_all_update, simp add: list_all_iff)
    then show ?thesis using kp 2(2) by (simp add: set_first_def tuned_def)
  qed
qed

lemma set_hwarg_tuned:
  assumes "tune_inv s" and "\<And>v. inside v \<Longrightarrow> good_param cf (f v)"
  shows "tuned True s (snd (set_hwarg cf f arg s))"
  using assms set_first_tuned [OF assms(1)] by (auto simp: set_hwarg_def Let_def inside_def)

lemma inside_cases:
  "inside v \<Longrightarrow> cf = CF_HWPREDICT \<or> cf = CF_MHWPREDICT \<Longrightarrow> good_param cf (\<lambda>r. r\<lparr>par1 := v\<rparr>)"
  "inside v \<Longrightarrow> cf = CF_HWPREDICT \<or> cf = CF_MHWPREDICT \<Longrightarrow> good_param cf (\<lambda>r. r\<lparr>par2 := v\<rparr>)"
  "inside v \<Longrightarrow> cf = CF_SEASONAL \<or> cf = CF_DEVSEASONAL \<Longrightarrow> good_param cf (\<lambda>r. r\<lparr>par1 := v\<rparr>)"
  by (auto simp: good_param_def rra_params_ok_def rra_frame_def)

lemma set_deltaarg_tuned:
  assumes "tune_inv s"
  shows "tuned True s (snd (set_deltaarg (\<lambda>v r. r\<lparr>par1 := v\<rparr>) arg s))" "tuned True s (snd (set_deltaarg (\<lambda>v r. r\<lparr>par2 := v\<rparr>) arg s))"
  using assms by (auto simp: set_deltaarg_def Let_def good_param_def rra_params_ok_def rra_frame_def intro!: set_first_tuned)

lemma smooth_tuned:
  assumes "tune_inv s" and "cf = CF_SEASONAL \<or> cf = CF_DEVSEASONAL"
  shows "tuned True s (snd (tune_smooth cf arg s))"
proof -
  let ?t = "s\<lparr>stat_head := (stat_head s)\<lparr>version := ''0004''\<rparr>\<rparr>"
  have t: "tuned True s ?t" using assms(1) by (simp add: tuned_def frame_kept_def tune_inv_def wf_rrd_def)
  then have "tune_inv ?t" by (simp add: tuned_def)
  then have "tuned True ?t (snd (set_hwsmootharg cf arg ?t))"
    using assms(2) by (auto simp: set_hwsmootharg_def Let_def good_param_def rra_params_ok_def rra_frame_def intro!: set_first_tuned)
  with t show ?thesis unfolding tune_smooth_def by (rule tuned_trans)
qed

lemma upd_cdp_tuned: "tune_inv s \<Longrightarrow> tuned True s (upd_cdp k g s)"
  by (simp add: tuned_def frame_kept_def tune_inv_def wf_rrd_def upd_cdp_def)

lemma erase_tuned:
  assumes "tune_inv s"
  shows "tuned True s (fold (\<lambda>i t. erase_violations (c i) r t) is s)"
  using assms
proof (induction "is" arbitrary: s)
  case Nil
  then show ?case by simp
next
  case (Cons i "is")
  have "tuned True s (erase_violations (c i) r s)" using Cons.prems upd_cdp_tuned by (simp add: erase_violations_def)
  moreover from this have "tune_inv (erase_violations (c i) r s)" by (simp add: tuned_def)
  then have "tuned True (erase_violations (c i) r s) (fold (\<lambda>i t. erase_violations (c i) r t) is (erase_violations (c i) r s))"
    by (rule Cons.IH)
  ultimately have "tuned True s (fold (\<lambda>i t. erase_violations (c i) r t) is (erase_violations (c i) r s))" by (rule tuned_trans)
  then show ?case by simp
qed

lemma set_windowarg_tuned:
  assumes inv: "tune_inv s" and f: "\<And>n. 1 \<le> n \<Longrightarrow> n \<le> 28 \<Longrightarrow> good_param CF_FAILURES (f n)"
  shows "tuned True s (snd (set_windowarg f arg s))"
proof (cases "u64 (atoi arg) < 1 \<or> int (u64 (atoi arg)) > MAX_FAILURES_WINDOW_LEN")
  case True
  then show ?thesis using inv by (simp add: set_windowarg_def Let_def)
next
  case False
  then have "good_param CF_FAILURES (f (u64 (atoi arg)))" by (intro f) (simp_all add: MAX_FAILURES_WINDOW_LEN_def)
  then have t: "tuned True s (snd (set_first CF_FAILURES NoFailuresRra (f (u64 (atoi arg))) s))" by (rule set_first_tuned [OF inv])
  then have "tune_inv (snd (set_first CF_FAILURES NoFailuresRra (f (u64 (atoi arg))) s))" by (simp add: tuned_def)
  note e = erase_tuned [OF this]
  show ?thesis
    using False t tuned_trans [OF t e] by (auto simp: set_windowarg_def Let_def andThen_def split: prod.splits option.splits)
qed

lemma window_params:
  "1 \<le> n \<Longrightarrow> n \<le> 28 \<Longrightarrow> good_param CF_FAILURES (\<lambda>r. r\<lparr>failure_threshold := n\<rparr>)"
  "1 \<le> n \<Longrightarrow> n \<le> 28 \<Longrightarrow> good_param CF_FAILURES (\<lambda>r. r\<lparr>par4 := n\<rparr>)"
  by (simp_all add: good_param_def rra_params_ok_def rra_frame_def)

lemma tune_predict_tuned:
  assumes inv: "tune_inv s" and f: "\<And>v cf. inside v \<Longrightarrow> cf = CF_HWPREDICT \<or> cf = CF_MHWPREDICT \<Longrightarrow> good_param cf (f v)"
  shows "tuned True s (snd (tune_predict f arg s))"
proof -
  have t: "tuned True s (snd (set_hwarg CF_HWPREDICT f arg s))" using f by (intro set_hwarg_tuned inv) simp
  then have "tune_inv (snd (set_hwarg CF_HWPREDICT f arg s))" by (simp add: tuned_def)
  then have "tuned True (snd (set_hwarg CF_HWPREDICT f arg s)) (snd (set_hwarg CF_MHWPREDICT f arg (snd (set_hwarg CF_HWPREDICT f arg s))))"
    using f by (intro set_hwarg_tuned) simp_all
  with t show ?thesis using tuned_trans by (auto simp: tune_predict_def split: prod.splits option.splits)
qed

subsection \<open>Resetting\<close>

lemma reset_live:
  "live_head (snd (reset_rras_from ris k d s)) = live_head s"
proof -
  have col: "live_head (snd (reset_column n s)) = live_head s" for n s
  proof (induction n arbitrary: s)
    case (Suc n)
    have "live_head (snd (rrd_write [NaN] s)) = live_head s" "live_head (snd (rrd_seek z w t)) = live_head t" for z w t
      by (simp_all add: rrd_write_def rrd_seek_def Let_def split: whence.splits)
    then show ?case using Suc by (cases "rrd_write [NaN] s") (auto simp: andThen_def map_err_def split: option.splits)
  qed simp
  have seek: "live_head (snd (rrd_seek z w t)) = live_head t" for z w t by (simp add: rrd_seek_def Let_def split: whence.splits)
  have one: "live_head (snd (reset_rra i k d s)) = live_head s" for i k s
    by (simp add: reset_rra_def Let_def col seek erase_violations_def split: option.splits cf_en.splits)
  show ?thesis
  proof (induction ris arbitrary: k s)
    case (Cons i ris)
    then show ?case using one [of i k s] by (cases "reset_rra i k d s") (auto simp: andThen_def split: option.splits)
  qed simp
qed

lemma tune_reset_tuned:
  assumes inv: "tune_inv s"
  shows "tuned False s (snd (tune_reset arg s))"
proof -
  have "tuned False s (snd (reset_aberrant_coefficients d s))" if d: "d < dscnt s" for d
  proof -
    have wf: "wf_rrd s" using inv by (simp add: tune_inv_def)
    have "rra_off s 0 = 0" by (simp add: rra_off_def rra_total_def)
    then obtain t where t: "reset_aberrant_coefficients d s = (None, t)" "same_layout s t" "rra_ptr t = rra_ptr s"
      using reset_rras_from_post [OF wf _ d, of 0] by (auto simp: reset_aberrant_coefficients_def)
    have "live_head t = live_head s" using reset_live [of "[0 ..< rracnt s]" 0 d s] t(1) by (simp add: reset_aberrant_coefficients_def)
    then have "frame_kept s t" using t by (simp add: frame_kept_def same_layout_def)
    moreover have "tune_inv t" using inv wf_same_ptr [OF wf t(2,3)] t(2) by (simp add: tune_inv_def same_layout_def)
    ultimately show ?thesis using t(1) by (simp add: tuned_def)
  qed
  then show ?thesis using inv by (auto simp: tune_reset_def split: option.splits intro!: with_ds_tuned)
qed

lemma tuned_weaken: "tuned True s t \<Longrightarrow> tuned v s t"
  by (simp add: tuned_def)

lemma tune_opt_tuned:
  assumes "tune_inv s"
  shows "tuned (fst oa \<noteq> CHR ''b'') s (snd (tune_opt oa s))"
proof -
  obtain opt arg where oa: "oa = (opt, arg)" by fastforce
  note facts = tune_ds_options [OF assms] tune_type_tuned [OF assms] set_deltaarg_tuned [OF assms]
    set_windowarg_tuned [OF assms window_params(1)] set_windowarg_tuned [OF assms window_params(2)]
    tune_predict_tuned [OF assms inside_cases(1)] tune_predict_tuned [OF assms inside_cases(2)]
    smooth_tuned [OF assms] tune_reset_tuned [OF assms]
  have hw: "tuned True s (snd (set_hwarg CF_SEASONAL (\<lambda>v r. r\<lparr>par1 := v\<rparr>) arg s))"
    "tuned True s (snd (set_hwarg CF_DEVSEASONAL (\<lambda>v r. r\<lparr>par1 := v\<rparr>) arg s))"
    by (rule set_hwarg_tuned [OF assms]; rule inside_cases(3); simp)+
  have "tuned True s (snd (tune_opt oa s))" if "opt \<noteq> CHR ''b''"
    using that assms unfolding oa tune_opt_def by (simp add: facts hw)
  moreover have "tuned False s (snd (tune_opt oa s))" if "opt = CHR ''b''"
    using that facts unfolding oa tune_opt_def by simp
  ultimately show ?thesis unfolding oa by (cases "opt = CHR ''b''") (simp_all add: tuned_weaken)
qed

section \<open>The oldest row\<close>

lemma rrd_first_eq:
  assumes wf: "wf_rrd s" and i: "i < rracnt s" and n: "rracnt s < 2 ^ 31" and rng: "fetch_in_range s i 0 0"
  shows "rrd_first_r (int i) s = Some (log_end s i - (int (row_cnt (rra_def s ! i)) - 1) * int (rra_step s i))"
proof -
  define w rows lu where "w = rra_step s i" and "rows = row_cnt (rra_def s ! i)" and "lu = last_up (live_head s)"
  have r0: "0 < rows" using wf_rrdD(8) [OF wf i] by (simp add: rows_def)
  note st = rra_step_id [OF rng, folded rows_def, folded w_def, OF r0]
  have lu: "0 \<le> lu" "lu < 2 ^ 60" and rows: "rows < 2 ^ 31" using rng by (simp_all add: fetch_in_range_def lu_def rows_def)
  have w: "u64 (int (pdp_cnt (rra_def s ! i)) * int (pdpstep s)) = w"
  proof -
    have e: "int (pdp_cnt (rra_def s ! i)) * int (pdpstep s) = int w" unfolding st(1) by (simp add: mult.commute)
    show ?thesis unfolding e using st(3) by (intro u64_of_nat) simp
  qed
  have t: "s64 (int rows - 1) = int rows - 1" using rows r0 by (intro s64_id) simp_all
  have p: "int (pdp_cnt (rra_def s ! i)) * int (pdpstep s) = int w" unfolding st(1) by (simp add: mult.commute)
  have u: "int (u64 lu) = lu" using lu by simp
  have m: "int (u64 lu mod w) = lu mod int w" using u by (simp add: zmod_int)
  define x where "x = lu - lu mod int w - (int rows - 1) * int w"
  have "0 \<le> (int rows - 1) * int w" using r0 by simp
  moreover have "(int rows - 1) * int w < 2 ^ 60" using st(2) r0 by (intro le_less_trans [OF _ st(2)]) (simp add: algebra_simps)
  moreover have "0 \<le> lu mod int w" "lu mod int w \<le> lu"
    using lu(1) by (simp_all add: zmod_le_nonneg_dividend) (cases "w = 0"; simp)
  ultimately have "- (2 ^ 60) < x" "x < 2 ^ 60" using lu unfolding x_def by linarith+
  then have "s64 x = x" by (intro s64_id) simp_all
  moreover have "s32 (int (rracnt s)) = int (rracnt s)" using n by simp
  moreover have "- (int rows - 1) * int (pdp_cnt (rra_def s ! i)) * int (pdpstep s) = - ((int rows - 1) * int w)"
    unfolding p [symmetric] by (simp add: algebra_simps)
  ultimately show ?thesis
    using i unfolding rrd_first_r_def Let_def nat_int rows_def [symmetric] lu_def [symmetric] w t m u
    by (simp add: x_def log_end_def flip: rows_def lu_def w_def)
qed

section \<open>Old files\<close>

text \<open>
  The file after the option \<open>--smoothing-window\<close>: the version in the header is new, the rest is as it was. A file of version 1 or 2
  has a shorter time of the last update, so from then on it is too short for its header and cannot be opened any more.
\<close>

lemma tune_smooth_legacy:
  assumes ok: "image_ok s" and old: "atoi (version (stat_head s)) < 3"
    and f: "f = enc_stat_head (stat_head (snd (tune_smooth cf arg s))) @ drop 128 (file_image s)"
  shows "rrd_open f \<noteq> Inr m"
proof
  assume m: "rrd_open f = Inr m"
  define h where "h = (stat_head s)\<lparr>version := ''0004''\<rparr>"
  let ?rows = "sum_list (map row_cnt (rra_def s))"
  note ok' = ok [unfolded image_ok_def] and rd = rows_at_image [OF ok]
  have "stat_head (snd (tune_smooth cf arg s)) = h"
    by (simp add: tune_smooth_def set_hwsmootharg_def set_first_def Let_def h_def)
  then have f: "f = enc_stat_head h @ drop 128 (file_image s)" using f by simp
  have hok: "stat_head_ok h" using ok' by (simp add: h_def stat_head_ok_def str_ok_def)
  have l128: "length (enc_stat_head h) = 128" using hok by (rule stat_head.length_enc)
  have h: "h = dec_stat_head (sub 0 128 f)" unfolding f using l128 stat_head.dec_enc [OF hok] by simp
  have "sub (128 + k) n f = sub (128 + k) n (file_image s)" for k n unfolding f sub_def using l128 by (simp add: add.commute)
  then have rows: "?rows = rows_at f (ds_cnt h) (rra_cnt h)"
    unfolding rd(4) [symmetric] rows_at_def array_at_def by (simp add: h_def add.assoc)
  have cnt: "ds_cnt h = dscnt s" "rra_cnt h = rracnt s" "version h = ''0004''" by (simp_all add: h_def)
  have lt: "?rows < 2 ^ 56" "?rows * ds_cnt h < 2 ^ 56" "ds_cnt h < 2 ^ 24" "rra_cnt h < 2 ^ 24"
    using ok' cnt by (simp_all add: mult.commute)
  have "atoi ''0004'' = 4" by code_simp
  with rrd_open_iff [OF h lt(3,4) rows lt(1,2) refl, of m] m cnt
  have "m_header_len (layout (dscnt s) (rracnt s) False) + 8 * (?rows * dscnt s) \<le> length f" by simp
  moreover have "length f = length (file_image s)" unfolding f using l128 length_image [OF ok] by (simp add: layout_def Let_def)
  ultimately show False using length_image [OF ok] old by (simp add: layout_def Let_def)
qed

lemma tune_inv_demo_hw: "tune_inv demo_hw"
proof -
  have "d_const 1 1 \<le> 1" by code_simp
  then have "\<not> Fin 2 < d_const 1 1" by (simp add: not_less) code_simp
  then have "list_all rra_params_ok (rra_def demo_hw)"
    by (simp add: demo_hw_def demo_rra_def rra_params_ok_def cf_conv_def inside_def zero_dbl_def one_dbl_def)
  moreover have "list_all (\<lambda>d. str_ok 20 (ds_nam d)) (ds_def demo_hw)" "rracnt demo_hw < 2 ^ 15"
    by (simp_all add: demo_hw_def demo_rrd_def str_ok_def)
  ultimately show ?thesis by (simp add: tune_inv_def)
qed

section \<open>Properties\<close>



text \<open>
  C13: the first time that is reported for an archive is the time of its oldest row. It is a multiple of the length of a row, the
  rows that fetching delivers from it on are all rows of the archive in chronological order, and every time at least one row
  earlier lies outside the archive. The database is well-formed with fewer than 2^31 archives, the archive has fewer than 2^31 rows,
  and the time of last update and the time that the archive covers are below 2^60 (\<open>fetch_in_range\<close>), so that no integer wraps.
\<close>

theorem rrd_first_oldest:
  assumes "wf_rrd s" and "i < rracnt s" and "rracnt s < 2 ^ 31" and "fetch_in_range s i 0 0"
  shows "case rrd_first_r (int i) s of
           Some t \<Rightarrow> int (rra_step s i) dvd t \<and>
             (\<forall>k < row_cnt (rra_def s ! i). rra_row_at s i (t + int k * int (rra_step s i)) = rra_log s i ! k) \<and>
             (\<forall>u \<le> t - int (rra_step s i). rra_row_at s i u = replicate (dscnt s) NaN)
         | None \<Rightarrow> False"
proof -
  define w n where "w = int (rra_step s i)" and "n = int (row_cnt (rra_def s ! i))"
  have n: "0 < n" using wf_rrdD(8) [OF assms(1,2)] by (simp add: n_def)
  have w: "0 < w"
    using rra_step_id(1) [OF assms(4)] wf_rrdD(6) [OF assms(1)] wf_rrdD(8,9) [OF assms(1,2)] by (simp add: w_def)
  define t where "t = log_end s i - (n - 1) * w"
  have first: "rrd_first_r (int i) s = Some t" using rrd_first_eq [OF assms] by (simp add: t_def n_def w_def)
  have idx: "log_index s i u = n - 1 - ((n - 1) * w + t - u) div w" for u
    by (simp add: log_index_def t_def n_def w_def)
  have row: "rra_row_at s i (t + int k * w) = rra_log s i ! k" if "int k < n" for k
  proof -
    have "(n - 1) * w + t - (t + int k * w) = (n - 1 - int k) * w" by (simp add: algebra_simps)
    then have "log_index s i (t + int k * w) = int k" unfolding idx using w by simp
    then show ?thesis using that by (simp add: rra_row_at_def row_at_def n_def)
  qed
  have dv: "w dvd t" unfolding t_def log_end_def w_def [symmetric] 
    by (metis dvd_diff dvd_triv_left dvd_triv_right minus_mod_eq_mult_div)
  have old: "rra_row_at s i u = replicate (dscnt s) NaN" if "u \<le> t - w" for u
  proof -
    have "(n - 1) * w + t - u = (t - u) + (n - 1) * w" by simp
    then have "((n - 1) * w + t - u) div w = n - 1 + (t - u) div w" using w by (metis add.commute div_mult_self1 less_irrefl)
    moreover have "1 * w \<le> t - u" using that by simp
    then have "1 \<le> (t - u) div w" using w by (metis zdiv_mono1 nonzero_mult_div_cancel_right less_irrefl)
    ultimately have "log_index s i u < 0" unfolding idx by linarith
    then show ?thesis by (simp add: rra_row_at_def row_at_def)
  qed
  show ?thesis using first dv row [of 0] row old n by (simp add: w_def n_def)
qed


theorem rrd_first_oldest_witness: "rrd_first_r 1 demo_rrd = Some 1199999400 \<and> rra_row_at demo_rrd 1 1199999400 = [Fin 13, Fin 23]"
proof -
  have rng: "fetch_in_range demo_rrd 1 0 0" by (simp add: fetch_in_range_def demo_rrd_def demo_rra_def)
  have "rra_step demo_rrd 1 = 600" using rra_step_id(1) [OF rng] by (simp add: demo_rrd_def demo_rra_def)
  then have r: "rrd_first_r 1 demo_rrd = Some 1199999400"
    using rrd_first_eq [OF wf_demo_rrd _ _ rng] by (simp add: log_end_def) (simp add: demo_rrd_def demo_rra_def)
  have n: "row_cnt (rra_def demo_rrd ! 1) = 2" by (simp add: demo_rrd_def demo_rra_def)
  have "\<forall>k < row_cnt (rra_def demo_rrd ! 1). rra_row_at demo_rrd 1 (1199999400 + int k * int (rra_step demo_rrd 1)) = rra_log demo_rrd 1 ! k"
    using rrd_first_oldest [of demo_rrd 1] rng r by simp
  from this [rule_format, of 0] n have "rra_row_at demo_rrd 1 1199999400 = rra_log demo_rrd 1 ! 0" by simp
  moreover have "rra_log demo_rrd 1 ! 0 = [Fin 13, Fin 23]"
    by (simp add: rra_log_def rra_rows_def rra_cell_def rra_off_def rra_total_def demo_rrd_def demo_rra_def upt_rec)
  ultimately show ?thesis using r by simp
qed

end
