(* ===== verification/Print_Double.thy ===== *)
theory Print_Double
  imports C_Strings
begin

text \<open>
  Doubles as text: the conversion \<open>%0.10e\<close> of \<open>printf\<close>, which \<open>rrd_dump.c\<close> uses for every value, and what \<open>strtod\<close> makes of its
  output. Eleven significant digits are correctly rounded, so that a value comes back changed by at most one part in \<open>10 ^ 10\<close>.
\<close>

section \<open>Printing\<close>

text \<open>The exponent \<open>e\<close> with \<open>10 ^ e \<le> x < 10 ^ (e + 1)\<close>, for positive \<open>x\<close>.\<close>

definition flog10 :: "rat \<Rightarrow> int" where
  "flog10 x =
     (if 1 \<le> x then int (length (show_nat (nat \<lfloor>x\<rfloor>))) - 1 else - int (length (show_nat (nat (\<lceil>1 / x\<rceil> - 1)))))"

text \<open>Significand, as an integer of eleven digits, and exponent of a positive number.\<close>

definition e10_parts :: "rat \<Rightarrow> int \<times> int" where
  "e10_parts x =
     (let e = flog10 x; m = rne (x / 10 powi (e - 10))
      in if m = 10 ^ 11 then (10 ^ 10, e + 1) else (m, e))"

definition show_exp :: "int \<Rightarrow> string" where
  "show_exp e = (if e < 0 then CHR ''-'' else CHR ''+'') # (let d = show_nat (nat \<bar>e\<bar>) in if length d < 2 then CHR ''0'' # d else d)"

definition e10_text :: "bool \<Rightarrow> string \<Rightarrow> int \<Rightarrow> string" where
  "e10_text neg ds e = (if neg then ''-'' else []) @ hd ds # CHR ''.'' # tl ds @ CHR ''e'' # show_exp e"

definition printf_e10 :: "dbl \<Rightarrow> string" where
  "printf_e10 x =
     (case x of
        NaN \<Rightarrow> ''nan'' | PInf \<Rightarrow> ''inf'' | NInf \<Rightarrow> ''-inf''
      | NZero \<Rightarrow> e10_text True ''00000000000'' 0
      | Fin q \<Rightarrow>
          if q = 0 then e10_text False ''00000000000'' 0
          else case e10_parts \<bar>q\<bar> of (m, e) \<Rightarrow> e10_text (q < 0) (show_nat (nat m)) e)"

section \<open>The decimal exponent\<close>

lemma show_nat_length:
  assumes "0 < n"
  shows "10 ^ (length (show_nat n) - 1) \<le> n" and "n < 10 ^ length (show_nat n)"
  using assms
proof (induction n rule: show_nat.induct)
  case (1 n)
  {
    case 1
    show ?case
    proof (cases "n < 10")
      case False
      have "10 ^ length (show_nat (n div 10)) = 10 * 10 ^ (length (show_nat (n div 10)) - 1)"
        by (cases "show_nat (n div 10)") simp_all
      also have "\<dots> \<le> 10 * (n div 10)" using "1.IH"(1) [OF False] False by (intro mult_left_mono) simp_all
      also have "\<dots> \<le> n" by simp
      finally show ?thesis using False by (simp add: show_nat.simps [of n])
    qed (use 1 in \<open>simp add: show_nat.simps [of n]\<close>)
  next
    case 2
    show ?case
    proof (cases "n < 10")
      case False
      have "n div 10 < 10 ^ length (show_nat (n div 10))" using "1.IH"(2) [OF False] False by simp
      then have "n < 10 * 10 ^ length (show_nat (n div 10))" by (simp add: div_less_iff_less_mult mult.commute)
      then show ?thesis using False by (simp add: show_nat.simps [of n])
    qed (simp add: show_nat.simps [of n])
  }
qed

lemma length_show_nat_pos: "0 < length (show_nat n)"
  by simp

lemma flog10_bounds:
  assumes "0 < x"
  shows "10 powi flog10 x \<le> x" and "x < 10 powi (flog10 x + 1)"
proof -
  have "10 powi flog10 x \<le> x \<and> x < 10 powi (flog10 x + 1)"
  proof (cases "1 \<le> x")
    case True
    define n where "n = nat \<lfloor>x\<rfloor>"
    define l where "l = length (show_nat n)"
    have n: "0 < n" "of_nat n \<le> x" "x < of_nat n + 1" using True by (simp_all add: n_def) linarith+
    have l: "0 < l" "10 ^ (l - 1) \<le> n" "n < 10 ^ l" using show_nat_length [OF n(1)] by (simp_all add: l_def)
    have e: "flog10 x = int (l - 1)" using True l(1) unfolding flog10_def l_def n_def [symmetric] by (simp add: of_nat_diff Suc_le_eq)
    have "(of_nat (10 ^ (l - 1)) :: rat) \<le> of_nat n" using l(2) by (simp only: of_nat_le_iff)
    also note n(2)
    finally have "10 ^ (l - 1) \<le> x" by simp
    moreover have "n + 1 \<le> 10 ^ l" using l(3) by simp
    then have "(of_nat (n + 1) :: rat) \<le> of_nat (10 ^ l)" by (simp only: of_nat_le_iff)
    moreover have "int (l - 1) + 1 = int l" using l(1) by simp
    ultimately show ?thesis unfolding e using n by (simp only: power_int_of_nat) simp
  next
    case False
    define n where "n = nat (\<lceil>1 / x\<rceil> - 1)"
    define l where "l = length (show_nat n)"
    have "1 < 1 / x" using False assms by simp
    then have n: "0 < n" "of_nat n < 1 / x" "1 / x \<le> of_nat n + 1" by (simp_all add: n_def) linarith+
    have l: "0 < l" "10 ^ (l - 1) \<le> n" "n < 10 ^ l" using show_nat_length [OF n(1)] by (simp_all add: l_def)
    have e: "flog10 x = - int l" using False by (simp add: flog10_def l_def n_def)
    have "n + 1 \<le> 10 ^ l" using l(3) by simp
    then have "(of_nat (n + 1) :: rat) \<le> of_nat (10 ^ l)" by (simp only: of_nat_le_iff)
    with n(3) have "1 / x \<le> 10 ^ l" by simp
    then have hi: "10 powi (- int l) \<le> x" using assms by (simp add: power_int_minus field_simps)
    have "(of_nat (10 ^ (l - 1)) :: rat) \<le> of_nat n" using l(2) by (simp only: of_nat_le_iff)
    also note n(2)
    finally have "10 ^ (l - 1) < 1 / x" by simp
    then have "x < 10 powi (- int (l - 1))" using assms by (simp add: power_int_minus field_simps)
    moreover have "- int (l - 1) = - int l + 1" using l(1) by simp
    ultimately show ?thesis unfolding e using hi by simp
  qed
  then show "10 powi flog10 x \<le> x" and "x < 10 powi (flog10 x + 1)" by simp_all
qed

text \<open>The number that the eleven digits denote.\<close>

definition dec10 :: "rat \<Rightarrow> rat" where
  "dec10 x = (case e10_parts x of (m, e) \<Rightarrow> of_int m * 10 powi (e - 10))"

lemma e10_parts_digits:
  assumes "0 < x" and "e10_parts x = (m, e)"
  shows "10 ^ 10 \<le> m" "m < 10 ^ 11" "\<bar>dec10 x - x\<bar> \<le> x / 10 ^ 10 / 2"
proof -
  define k where "k = flog10 x"
  define r where "r = rne (x / 10 powi (k - 10))"
  note b = flog10_bounds [OF assms(1), folded k_def]
  have p: "(0 :: rat) < 10 powi (k - 10)" by simp
  have "(10 :: rat) powi k = 10 ^ 10 * 10 powi (k - 10)" "(10 :: rat) powi (k + 1) = 10 ^ 11 * 10 powi (k - 10)"
    using power_int_add [of "10 :: rat" 10 "k - 10"] power_int_add [of "10 :: rat" 11 "k - 10"] by (simp_all add: add.commute)
  with b have q: "of_int (10 ^ 10) \<le> x / 10 powi (k - 10)" "x / 10 powi (k - 10) \<le> of_int (10 ^ 11)"
    using p by (simp_all add: pos_le_divide_eq pos_divide_le_eq)
  have r: "10 ^ 10 \<le> r" "r \<le> 10 ^ 11" unfolding r_def using rne_ge [OF q(1)] rne_le [OF q(2)] by simp_all
  have parts: "e10_parts x = (if r = 10 ^ 11 then (10 ^ 10, k + 1) else (r, k))" by (simp add: e10_parts_def k_def r_def Let_def)
  show "10 ^ 10 \<le> m" "m < 10 ^ 11" using assms(2) r parts by (auto split: if_splits)
  have "(10 :: rat) ^ 10 * 10 powi (k + 1 - 10) = 10 ^ 11 * 10 powi (k - 10)"
    using power_int_add [of "10 :: rat" 1 "k - 10"] by (simp add: algebra_simps)
  then have d: "dec10 x = of_int r * 10 powi (k - 10)" by (simp add: dec10_def parts)
  have "\<bar>of_int r - x / 10 powi (k - 10)\<bar> \<le> 1 / 2" unfolding r_def by (rule rne_near)
  then have "\<bar>of_int r - x / 10 powi (k - 10)\<bar> * 10 powi (k - 10) \<le> 1 / 2 * 10 powi (k - 10)" using p by (intro mult_right_mono) simp_all
  also have "\<bar>of_int r - x / 10 powi (k - 10)\<bar> * 10 powi (k - 10) = \<bar>(of_int r - x / 10 powi (k - 10)) * 10 powi (k - 10)\<bar>"
    using p by (simp add: abs_mult)
  also have "(of_int r - x / 10 powi (k - 10)) * 10 powi (k - 10) = dec10 x - x" using p by (simp add: d algebra_simps)
  finally have "\<bar>dec10 x - x\<bar> \<le> 10 powi (k - 10) / 2" by simp
  also have "10 powi (k - 10) \<le> x / 10 ^ 10" using q(1) p by (simp add: pos_le_divide_eq)
  then have "10 powi (k - 10) / 2 \<le> x / 10 ^ 10 / 2" by simp
  finally show "\<bar>dec10 x - x\<bar> \<le> x / 10 ^ 10 / 2" .
qed

section \<open>Reading back\<close>

lemma dec_val_zero_digit: "dec_val (CHR ''0'' # ds) = dec_val ds"
  by (simp add: dec_val_def digit_val_def)

lemma zero_is_digit: "is_digit (CHR ''0'')"
  by (simp add: is_digit_def)

lemma parse_exp_show: "parse_exp (CHR ''e'') (CHR ''e'' # show_exp e) = (e, [])"
proof -
  define d where "d = (let d = show_nat (nat \<bar>e\<bar>) in if length d < 2 then CHR ''0'' # d else d)"
  have d: "list_all is_digit d" "d \<noteq> []" "dec_val d = \<bar>e\<bar>"
    using show_nat_digits [of "nat \<bar>e\<bar>"] dec_val_show_nat [of "nat \<bar>e\<bar>"]
    by (auto simp: d_def Let_def zero_is_digit dec_val_zero_digit)
  have "strip_sign (show_exp e) = (e < 0, d)" by (simp add: strip_sign_def show_exp_def d_def)
  moreover have "lower (CHR ''e'') = CHR ''e''" by code_simp
  ultimately show ?thesis using d by (simp add: parse_exp_def takeWhile_all dropWhile_all)
qed

lemma strtod_e10_text:
  assumes "list_all is_digit ds" and "length ds = 11"
  shows "strtod (e10_text neg ds e) = (signed_result neg (of_int (dec_val ds) * 10 powi (e - 10)), [])"
proof -
  obtain d ds' where ds: "ds = d # ds'" and d: "is_digit d" and ds': "list_all is_digit ds'" "length ds' = 10"
    using assms by (cases ds) auto
  note c = is_digit_chars [OF d] is_digit_lower [OF d] is_digit_not_space [OF d]
  define r where "r = d # CHR ''.'' # ds' @ CHR ''e'' # show_exp e"
  have str: "strip_sign (dropWhile isspace (e10_text neg ds e)) = (neg, r)"
  proof -
    have "\<not> isspace (CHR ''-'')" by code_simp
    then show ?thesis using c by (simp add: e10_text_def ds r_def strip_sign_def)
  qed
  have "\<not> is_digit (CHR ''.'')" "\<not> is_digit (CHR ''e'')" "lower (CHR ''.'') = CHR ''.''" by code_simp+
  note x = this
  have "parse_frac is_digit (CHR ''.'' # ds' @ CHR ''e'' # show_exp e) = (ds', CHR ''e'' # show_exp e)"
    using ds'(1) x by (simp add: parse_frac_def takeWhile_append dropWhile_append takeWhile_all dropWhile_all list_all_iff)
  then have "parse_dec neg r = Some (signed_result neg (of_int (dec_val ds) * 10 powi (e - 10)), [])"
    using d x ds'(2) by (simp add: parse_dec_def r_def parse_exp_show ds)
  moreover have "strip_prefix_ci ''infinity'' r = None" "strip_prefix_ci ''inf'' r = None" "strip_prefix_ci ''nan'' r = None"
    "strip_prefix_ci ''0x'' r = None"
    using c x by (simp_all add: r_def)
  ultimately show ?thesis using str by (simp add: strtod_def)
qed

text \<open>The value that comes back.\<close>

definition reread :: "dbl \<Rightarrow> dbl" where
  "reread x = (case x of Fin q \<Rightarrow> if q = 0 then Fin 0 else dround (if q < 0 then - dec10 \<bar>q\<bar> else dec10 \<bar>q\<bar>) | _ \<Rightarrow> x)"

text \<open>Values whose text is inside the range of the format.\<close>

fun printable :: "dbl \<Rightarrow> bool" where
  "printable (Fin q) \<longleftrightarrow> q = 0 \<or> 2 powi (- 1000) \<le> \<bar>q\<bar> \<and> \<bar>q\<bar> < 2 powi 1000"
| "printable _ \<longleftrightarrow> True"

lemma dec10_range:
  assumes "2 powi (- 1000) \<le> x" and "x < 2 powi 1000"
  shows "2 powi (- 1001) \<le> dec10 x" and "dec10 x \<le> 2 powi 1001"
proof -
  have pos: "0 < x" using assms(1) by (rule less_le_trans [rotated]) simp
  have n: "\<bar>dec10 x - x\<bar> \<le> x / 10 ^ 10 / 2" using e10_parts_digits(3) [OF pos] by (metis surj_pair)
  then have "\<bar>dec10 x - x\<bar> \<le> x / 2" using pos by simp
  moreover have "(2 :: rat) powi (- 1000) = 2 * 2 powi (- 1001)" "(2 :: rat) powi 1001 = 2 * 2 powi 1000"
  proof -
    have "(2 :: rat) powi (1 + - 1001) = 2 powi 1 * 2 powi (- 1001)" "(2 :: rat) powi (1 + 1000) = 2 powi 1 * 2 powi 1000"
      by (rule power_int_add, simp)+
    then show "(2 :: rat) powi (- 1000) = 2 * 2 powi (- 1001)" "(2 :: rat) powi 1001 = 2 * 2 powi 1000" by simp_all
  qed
  ultimately show "2 powi (- 1001) \<le> dec10 x" and "dec10 x \<le> 2 powi 1001"
    using assms unfolding abs_le_iff by linarith+
qed

lemma rnd64_normal:
  assumes "2 powi (- 1001) \<le> y" and "y \<le> 2 powi 1001"
  shows "rnd64 y \<le> 2 powi 1001" and "\<bar>rnd64 y - y\<bar> \<le> y / 2 ^ 53" and "\<not> tiny_inexact y"
proof -
  have pos: "0 < y" using assms(1) by (rule less_le_trans [rotated]) simp
  have f: "- 1001 \<le> flog2 y" using flog2_ge [OF pos assms(1)] .
  define u where "u = flog2 y - 52"
  have e: "ulp_exp y = u" using f pos by (simp add: ulp_exp_def u_def)
  have p: "(0 :: rat) < 2 powi u" by simp
  have rd: "rnd64 y = of_int (rne (y / 2 powi u)) * 2 powi u" using pos by (simp add: rnd64_def pow2_def e)
  show "rnd64 y \<le> 2 powi 1001" using rnd64_mono_representable(1) [OF pos, of "2 powi 1001" 1 1001] assms(2) by simp
  have "\<bar>of_int (rne (y / 2 powi u)) - y / 2 powi u\<bar> \<le> 1 / 2" by (rule rne_near)
  then have "\<bar>of_int (rne (y / 2 powi u)) - y / 2 powi u\<bar> * 2 powi u \<le> 1 / 2 * 2 powi u" using p by (intro mult_right_mono) simp_all
  also have "\<bar>of_int (rne (y / 2 powi u)) - y / 2 powi u\<bar> * 2 powi u = \<bar>(of_int (rne (y / 2 powi u)) - y / 2 powi u) * 2 powi u\<bar>"
    using p by (simp add: abs_mult)
  also have "(of_int (rne (y / 2 powi u)) - y / 2 powi u) * 2 powi u = rnd64 y - y" using p by (simp add: rd algebra_simps)
  also have "(2 :: rat) powi u = 2 powi flog2 y / 2 ^ 52" by (simp add: u_def power_int_diff)
  finally have "\<bar>rnd64 y - y\<bar> \<le> 2 powi flog2 y / 2 ^ 53" by simp
  moreover have "2 powi flog2 y / 2 ^ 53 \<le> y / 2 ^ 53" using flog2_bounds [OF pos] by (simp add: divide_right_mono)
  ultimately show "\<bar>rnd64 y - y\<bar> \<le> y / 2 ^ 53" by linarith
  have "2 powi flog2 y \<le> rnd64 y" using rnd64_ge_pow2 [OF pos] f by simp
  moreover have "(2 :: rat) powi (- 1022) \<le> 2 powi flog2 y" using f by (intro power_int_increasing) simp_all
  ultimately have "\<not> \<bar>rnd64 y\<bar> < 2 powi (- 1022)" by linarith
  then show "\<not> tiny_inexact y" using pos by (simp add: tiny_inexact_def pow2_def rd u_def Let_def)
qed

lemma signed_normal:
  assumes "2 powi (- 1001) \<le> y" and "y \<le> 2 powi 1001"
  shows "signed_result neg y = (Fin (if neg then - rnd64 y else rnd64 y), False)"
    and "dround (if neg then - y else y) = Fin (if neg then - rnd64 y else rnd64 y)"
proof -
  note n = rnd64_normal [OF assms]
  have pos: "0 < y" using assms(1) by (rule less_le_trans [rotated]) simp
  have "2 powi (- 1001) \<le> rnd64 y" using rnd64_mono_representable(2) [OF pos, of "2 powi (- 1001)" 1 "- 1001"] assms(1) by simp
  then have lo: "0 < rnd64 y" by (rule less_le_trans [rotated]) simp
  have "(2 :: rat) powi 1001 < 2 powi 1024" by (rule power_int_strict_increasing) simp_all
  then have hi: "rnd64 y < 2 ^ 1024" using n(1) by (simp add: power_int_def)
  have "- rnd64 y < 0" using lo by simp
  also have "(0 :: rat) < 2 ^ 1024" by simp
  finally have "- rnd64 y < 2 ^ 1024" .
  then have big: "\<not> 2 ^ 1024 \<le> rnd64 y" "\<not> 2 ^ 1024 \<le> - rnd64 y" "\<not> rnd64 y \<le> - (2 ^ 1024)" "\<not> - rnd64 y \<le> - (2 ^ 1024)"
    using hi by (simp_all only: not_le neg_less_iff_less minus_less_iff)
  show r: "dround (if neg then - y else y) = Fin (if neg then - rnd64 y else rnd64 y)"
    using lo big by (cases neg) (simp_all only: dround_def' Let_def rnd64_uminus if_True if_False neg_equal_0_iff_equal, simp_all)
  show "signed_result neg y = (Fin (if neg then - rnd64 y else rnd64 y), False)"
    unfolding signed_result_def r Let_def using pos n(3) by simp
qed

lemma strtod_printf_e10:
  assumes "printable x" and "dfinite x"
  shows "strtod (printf_e10 x) = ((reread x, False), [])"
proof -
  have zero: "signed_result False 0 = (Fin 0, False)" "signed_result True 0 = (NZero, False)"
    by (simp_all add: signed_result_def tiny_inexact_def)
  have digs: "list_all is_digit ''00000000000''" "dec_val ''00000000000'' = 0" by (simp_all add: is_digit_def dec_val_def digit_val_def)
  show ?thesis
  proof (cases x)
    case (Fin q)
    show ?thesis
    proof (cases "q = 0")
      case True
      then show ?thesis using Fin zero strtod_e10_text [OF digs(1)] by (simp add: printf_e10_def reread_def digs)
    next
      case False
      obtain m e where me: "e10_parts \<bar>q\<bar> = (m, e)" by fastforce
      have rng: "2 powi (- 1000) \<le> \<bar>q\<bar>" "\<bar>q\<bar> < 2 powi 1000" using assms(1) Fin False by simp_all
      have pos: "0 < \<bar>q\<bar>" using False by simp
      note m = e10_parts_digits [OF pos me]
      have "nat m < 10 ^ Suc 10" using m(1,2) by (simp add: nat_less_iff)
      then have l1: "length (show_nat (nat m)) \<le> 11" using length_show_nat [of "nat m" 10] by simp
      have "\<not> length (show_nat (nat m)) \<le> 10"
      proof
        assume "length (show_nat (nat m)) \<le> 10"
        then have "(10 :: nat) ^ length (show_nat (nat m)) \<le> 10 ^ 10" by (intro power_increasing) simp_all
        moreover have "nat m < 10 ^ length (show_nat (nat m))" using m(1) by (intro show_nat_length(2)) simp
        ultimately have "nat m < 10 ^ 10" by (rule less_le_trans [rotated])
        with m(1) show False by (simp add: nat_less_iff)
      qed
      with l1 have l: "length (show_nat (nat m)) = 11" by simp
      have v: "of_int (dec_val (show_nat (nat m))) * 10 powi (e - 10) = dec10 \<bar>q\<bar>"
        using m(1) by (simp add: dec_val_show_nat dec10_def me)
      have "strtod (printf_e10 x) = (signed_result (q < 0) (dec10 \<bar>q\<bar>), [])"
        using strtod_e10_text [OF show_nat_digits l, of "q < 0" e] Fin False me v by (simp add: printf_e10_def)
      then show ?thesis
        using signed_normal [OF dec10_range [OF rng], of "q < 0"] Fin False by (simp add: reread_def)
    qed
  next
    case NZero
    then show ?thesis using zero strtod_e10_text [OF digs(1)] by (simp add: printf_e10_def reread_def digs)
  qed (use assms(2) in simp_all)
qed

text \<open>What comes back differs by less than one part in \<open>10 ^ 10\<close>, and keeps the kind of the value.\<close>

lemma reread_close:
  assumes "printable (Fin q)"
  shows "\<exists>r. reread (Fin q) = Fin r \<and> \<bar>r - q\<bar> \<le> \<bar>q\<bar> / 10 ^ 10"
proof (cases "q = 0")
  case False
  have rng: "2 powi (- 1000) \<le> \<bar>q\<bar>" "\<bar>q\<bar> < 2 powi 1000" using assms False by simp_all
  have pos: "0 < \<bar>q\<bar>" using False by simp
  define y where "y = dec10 \<bar>q\<bar>"
  note y = dec10_range [OF rng, folded y_def]
  have a: "\<bar>y - \<bar>q\<bar>\<bar> \<le> \<bar>q\<bar> / 10 ^ 10 / 2" using e10_parts_digits(3) [OF pos] unfolding y_def by (metis surj_pair)
  have b: "\<bar>rnd64 y - y\<bar> \<le> y / 2 ^ 53" using rnd64_normal(2) [OF y] .
  have "y \<le> 2 * \<bar>q\<bar>" using a pos unfolding abs_le_iff by (simp add: field_simps)
  then have "y / 2 ^ 53 \<le> 2 * \<bar>q\<bar> / 2 ^ 53" by (intro divide_right_mono) simp_all
  also have "\<dots> \<le> \<bar>q\<bar> / 10 ^ 10 / 2" using pos by (simp add: field_simps)
  finally have "\<bar>rnd64 y - \<bar>q\<bar>\<bar> \<le> \<bar>q\<bar> / 10 ^ 10" using a b unfolding abs_le_iff by linarith
  moreover have "reread (Fin q) = Fin (if q < 0 then - rnd64 y else rnd64 y)"
    using signed_normal(2) [OF y, of "q < 0"] False unfolding reread_def y_def by (simp split del: if_split)
  ultimately show ?thesis by (auto simp: abs_if split: if_splits)
qed (simp add: reread_def)

text \<open>Whole numbers of at most eleven digits are not changed.\<close>

lemma dec10_int:
  assumes "0 < n" and "n < 10 ^ 11"
  shows "dec10 (of_int n) = of_int n"
proof -
  define e where "e = flog10 (of_int n)"
  have pos: "(0 :: rat) < of_int n" using assms(1) by simp
  have "(of_int n :: rat) < of_int (10 ^ 11)" using assms(2) by (simp only: of_int_less_iff)
  then have "10 powi e < (10 :: rat) powi 11" using flog10_bounds(1) [OF pos] unfolding e_def by (simp add: power_int_def)
  then have "e < 11" by (metis linorder_not_less power_int_increasing one_le_numeral)
  then have k: "e - 10 = - int (nat (10 - e))" by simp
  have p: "(10 :: rat) powi (e - 10) = 1 / 10 ^ nat (10 - e)" unfolding k power_int_minus power_int_of_nat by (simp add: divide_inverse)
  have "of_int n / 10 powi (e - 10) = (of_int (n * 10 ^ nat (10 - e)) :: rat)" by (simp add: p)
  then have r: "rne (of_int n / 10 powi (e - 10)) = n * 10 ^ nat (10 - e)" by (metis rne_of_int)
  have shift: "(10 :: rat) ^ 10 * 10 powi (e + 1 - 10) = 10 ^ 11 * 10 powi (e - 10)"
    using power_int_add [of "10 :: rat" 1 "e - 10"] by (simp add: algebra_simps)
  define m where "m = n * 10 ^ nat (10 - e)"
  have "e10_parts (of_int n) = (if m = 10 ^ 11 then (10 ^ 10, e + 1) else (m, e))"
    by (simp only: e10_parts_def Let_def r m_def flip: e_def)
  then have "dec10 (of_int n) = of_int m * 10 powi (e - 10)" using shift by (simp add: dec10_def)
  then show ?thesis by (simp add: p m_def)
qed

lemma reread_int:
  assumes "\<bar>n\<bar> < 10 ^ 11"
  shows "reread (Fin (of_int n)) = Fin (of_int n)"
proof (cases "n = 0")
  case False
  then have "dec10 \<bar>of_int n\<bar> = of_int \<bar>n\<bar>" using dec10_int [of "\<bar>n\<bar>"] assms by simp
  moreover have "dround (of_int n) = Fin (of_int n)" using assms by (intro dround_int) simp
  ultimately show ?thesis using False by (cases "n < 0") (simp_all add: reread_def)
qed (simp add: reread_def)


lemma printable_int: "\<bar>n\<bar> \<le> 2 ^ 53 \<Longrightarrow> printable (Fin (of_int n))"
proof (cases "n = 0")
  case False
  assume n: "\<bar>n\<bar> \<le> 2 ^ 53"
  have "(2 :: rat) powi (- 1000) \<le> 2 powi 0" by (rule power_int_increasing) simp_all
  also have "\<dots> \<le> of_int \<bar>n\<bar>" using False by simp
  finally have lo: "(2 :: rat) powi (- 1000) \<le> of_int \<bar>n\<bar>" .
  have "(of_int \<bar>n\<bar> :: rat) \<le> of_int (2 ^ 53)" using n by (simp only: of_int_le_iff)
  also have "\<dots> = 2 powi 53" by (simp add: power_int_def)
  also have "\<dots> < 2 powi 1000" by (rule power_int_strict_increasing) simp_all
  finally show ?thesis using lo by simp
qed simp


end
