(* ===== verification/Dump.thy ===== *)
theory Dump
  imports Print_Double Rpn Fetch
begin

text \<open>
  The XML form of a database (\<open>rrd_dump.c\<close>). The output is a sequence of nodes, as an XML reader reports them: start and end of
  elements, text, and everything else (white space, comments, the declarations at the top); \<open>dump_text\<close> is what is written.
  Local times in comments are a parameter, \<open>strftime\<close> of \<open>localtime\<close>. Numbers of rows are below \<open>2 ^ 32\<close>, so that the counters
  of type \<open>unsigned int\<close> do not wrap, and a FAILURES archive has a window of at most 28 observations, as creation and tuning ensure.
\<close>

section \<open>Nodes\<close>

datatype xml_node = Element string string | EndElement string | Text string | Other string

fun node_text :: "xml_node \<Rightarrow> string" where
  "node_text (Element nam attrs) = ''<'' @ nam @ attrs @ ''>''"
| "node_text (EndElement nam) = ''</'' @ nam @ ''>''"
| "node_text (Text t) = t"
| "node_text (Other t) = t"

text \<open>Text between tags: there is no node for none, and white space alone is not text.\<close>

definition text_node :: "string \<Rightarrow> xml_node list" where
  "text_node t = (if t = [] then [] else if list_all isspace t then [Other t] else [Text t])"

definition elem :: "string \<Rightarrow> string \<Rightarrow> xml_node list" where
  "elem tag t = Element tag [] # text_node t @ [EndElement tag]"

definition nl :: xml_node where
  "nl = Other [CHR 0x0A]"

definition tabs :: "nat \<Rightarrow> xml_node" where
  "tabs n = Other (replicate n (CHR 0x09))"

definition field :: "nat \<Rightarrow> string \<times> string \<Rightarrow> xml_node list" where
  "field n f = tabs n # elem (fst f) (snd f) @ [nl]"

definition xml_fields :: "nat \<Rightarrow> (string \<times> string) list \<Rightarrow> xml_node list" where
  "xml_fields n fs = concat (map (field n) fs)"

definition dump_double :: "dbl \<Rightarrow> string" where
  "dump_double x = (if isnan x then ''NaN'' else printf_e10 x)"

definition spaced :: "string \<Rightarrow> string" where
  "spaced t = '' '' @ t @ '' ''"

section \<open>Header\<close>

definition dump_opening :: "int \<Rightarrow> xml_node list" where
  "dump_opening opt_header =
     (let decl = Other ''<?xml version=\"1.0\" encoding=\"utf-8\"?>''; title = Other ''<!-- Round Robin Database Dump -->''
      in if opt_header = 1
         then [decl, nl, Other ''<!DOCTYPE rrd SYSTEM \"http://oss.oetiker.ch/rrdtool/rrdtool.dtd\">'', nl, title, nl, Element ''rrd'' [], nl]
         else if opt_header = 2
         then [decl, nl, title, nl,
               Element ''rrd'' ('' xmlns=\"http://oss.oetiker.ch/rrdtool/rrdtool-dump.xml\" xmlns:xsi=\"http://www.w3.org/2001/XMLSchema-instance\"'' @
                 [CHR 0x0A, CHR 0x09] @
                 ''xsi:schemaLocation=\"http://oss.oetiker.ch/rrdtool/rrdtool-dump.xml http://oss.oetiker.ch/rrdtool/rrdtool-dump.xsd\"''), nl]
         else [title, nl, Element ''rrd'' [], nl])"

definition dump_version :: "rrd \<Rightarrow> string" where
  "dump_version s = (if atoi (version (stat_head s)) \<le> 3 then ''0003'' else ''0004'')"

definition dump_head :: "(int \<Rightarrow> string) \<Rightarrow> rrd \<Rightarrow> xml_node list" where
  "dump_head fmt s =
     field 1 (''version'', dump_version s) @
     tabs 1 # elem ''step'' (show_nat (pdpstep s)) @ [Other '' '', Other ''<!-- Seconds -->'', nl] @
     tabs 1 # elem ''lastupdate'' (show_int (last_up (live_head s))) @
       [Other '' '', Other (''<!-- '' @ fmt (last_up (live_head s)) @ '' -->''), nl, nl]"

definition ds_fields :: "rrd \<Rightarrow> ds_def_t \<Rightarrow> (string \<times> string) list" where
  "ds_fields s d =
     [(''name'', spaced (ds_nam d)), (''type'', spaced (dst d))] @
     (if dst_conv (dst d) \<noteq> Some DST_CDEF
      then [(''minimal_heartbeat'', show_nat (mrhb_cnt d)), (''min'', dump_double (min_val d)), (''max'', dump_double (max_val d))]
      else [(''cdef'', spaced (rpn_compact2str (ds_def s) (cdef d)))])"

definition pdp_fields :: "pdp_prep_t \<Rightarrow> (string \<times> string) list" where
  "pdp_fields p =
     [(''last_ds'', last_ds p), (''value'', dump_double (pdp_val p)), (''unknown_sec'', spaced (show_nat (unkn_sec_cnt p)))]"

definition dump_ds :: "rrd \<Rightarrow> nat \<Rightarrow> xml_node list" where
  "dump_ds s i =
     [tabs 1, Element ''ds'' [], nl] @ xml_fields 2 (ds_fields s (ds_def s ! i)) @
     [nl, tabs 2, Other ''<!-- PDP Status -->'', nl] @ xml_fields 2 (pdp_fields (pdp_prep s ! i)) @
     [tabs 1, EndElement ''ds'', nl, nl]"

section \<open>Archives\<close>

definition param_fields :: "rrd \<Rightarrow> rra_def_t \<Rightarrow> (string \<times> string) list" where
  "param_fields s r =
     (let dep = (''dependent_rra_idx'', show_nat (dependent_rra_idx r));
          hw = [(''hw_alpha'', printf_e10 (hw_alpha r)), (''hw_beta'', printf_e10 (hw_beta r)), dep];
          sea = [(''seasonal_gamma'', printf_e10 (seasonal_gamma r)), (''seasonal_smooth_idx'', show_nat (seasonal_smooth_idx r))] @
            (if atoi (version (stat_head s)) \<ge> 4 then [(''smoothing_window'', printf_e10 (seasonal_smoothing_window r))] else []) @ [dep]
      in case cf_conv (cf_nam r) of
           Some CF_HWPREDICT \<Rightarrow> hw
         | Some CF_MHWPREDICT \<Rightarrow> hw
         | Some CF_SEASONAL \<Rightarrow> sea
         | Some CF_DEVSEASONAL \<Rightarrow> sea
         | Some CF_FAILURES \<Rightarrow>
             [(''delta_pos'', printf_e10 (delta_pos r)), (''delta_neg'', printf_e10 (delta_neg r)),
              (''window_len'', show_nat (window_len r)), (''failure_threshold'', show_nat (failure_threshold r)), dep]
         | Some CF_DEVPREDICT \<Rightarrow> [dep]
         | _ \<Rightarrow> [(''xff'', printf_e10 (cdp_xff_val r))])"

definition cdp_fields :: "rra_def_t \<Rightarrow> cdp_prep_t \<Rightarrow> (string \<times> string) list" where
  "cdp_fields r c =
     (let hw = [(''intercept'', dump_double (hw_intercept c)), (''last_intercept'', dump_double (hw_last_intercept c)),
                (''slope'', dump_double (hw_slope c)), (''last_slope'', dump_double (hw_last_slope c)),
                (''nan_count'', show_nat (null_count c)), (''last_nan_count'', show_nat (last_null_count c))];
          sea = [(''seasonal'', dump_double (hw_seasonal c)), (''last_seasonal'', dump_double (hw_last_seasonal c)),
                 (''init_flag'', show_nat (init_seasonal c))]
      in [(''primary_value'', dump_double (primary_val c)), (''secondary_value'', dump_double (secondary_val c))] @
         (case cf_conv (cf_nam r) of
            Some CF_HWPREDICT \<Rightarrow> hw
          | Some CF_MHWPREDICT \<Rightarrow> hw
          | Some CF_SEASONAL \<Rightarrow> sea
          | Some CF_DEVSEASONAL \<Rightarrow> sea
          | Some CF_DEVPREDICT \<Rightarrow> []
          | Some CF_FAILURES \<Rightarrow> [(''history'', concat (map (\<lambda>vidx. show_int (violations c ! vidx)) [0 ..< window_len r]))]
          | _ \<Rightarrow> [(''value'', dump_double (cdp_val c)), (''unknown_datapoints'', show_nat (unkn_pdp_cnt c))]))"

definition dump_cdp :: "rra_def_t \<Rightarrow> cdp_prep_t \<Rightarrow> xml_node list" where
  "dump_cdp r c = [tabs 3, Element ''ds'' [], nl] @ xml_fields 3 (cdp_fields r c) @ [tabs 3, EndElement ''ds'', nl]"

text \<open>One row, value by value, and the loop over the rows of an archive from the one behind the current row.\<close>

fun read_values :: "nat \<Rightarrow> rrd \<Rightarrow> dbl list \<times> rrd" where
  "read_values 0 s = ([], s)"
| "read_values (Suc n) s = (case rrd_read 1 s of (v, s) \<Rightarrow> case read_values n s of (vs, s) \<Rightarrow> (v @ vs, s))"

fun dump_rows :: "nat \<Rightarrow> nat \<Rightarrow> nat \<Rightarrow> nat \<Rightarrow> rrd \<Rightarrow> dbl list list \<times> rrd" where
  "dump_rows rra_start rows 0 ii s = ([], s)"
| "dump_rows rra_start rows (Suc n) ii s =
     (case (if Suc ii \<ge> rows then (0, snd (rrd_seek (int rra_start) SEEK_SET s)) else (Suc ii, s)) of
        (ii, s) \<Rightarrow>
          (case read_values (dscnt s) s of
             (vs, s) \<Rightarrow> case dump_rows rra_start rows n ii s of (rs, s) \<Rightarrow> (vs # rs, s)))"

definition row_time :: "rrd \<Rightarrow> rra_def_t \<Rightarrow> nat \<Rightarrow> int" where
  "row_time s r ix =
     (let lu = last_up (live_head s); w = u64 (int (pdp_cnt r) * int (pdpstep s)); timer = - s64 (int (row_cnt r) - 1) + int ix
      in s64 (int (u64 lu) - int (u64 lu mod w) + timer * int (pdp_cnt r) * int (pdpstep s)))"

definition dump_row :: "(int \<Rightarrow> string) \<Rightarrow> int \<Rightarrow> dbl list \<Rightarrow> xml_node list" where
  "dump_row fmt now vs =
     [tabs 3, Other (''<!-- '' @ fmt now @ '' / '' @ show_int now @ '' -->''), Other '' '', Element ''row'' []] @
     concat (map (\<lambda>v. elem ''v'' (dump_double v)) vs) @ [EndElement ''row'', nl]"

definition dump_rra :: "(int \<Rightarrow> string) \<Rightarrow> nat \<Rightarrow> nat \<Rightarrow> rrd \<Rightarrow> xml_node list \<times> rrd" where
  "dump_rra fmt i rra_start s =
     (let r = rra_def s ! i; cur = rra_ptr s ! i;
          s1 = snd (rrd_seek (int (rra_start + (cur + 1) * dscnt s)) SEEK_SET s)
      in case dump_rows rra_start (row_cnt r) (row_cnt r) cur s1 of
           (rs, s2) \<Rightarrow>
             ([tabs 1, Element ''rra'' [], nl] @
              field 2 (''cf'', cf_nam r) @
              tabs 2 # elem ''pdp_per_row'' (show_nat (pdp_cnt r)) @
                [Other '' '', Other (''<!-- '' @ show_nat (u64 (int (pdp_cnt r) * int (pdpstep s))) @ '' seconds -->''), nl, nl] @
              [tabs 2, Element ''params'' [], nl] @ xml_fields 2 (param_fields s r) @ [tabs 2, EndElement ''params'', nl] @
              [tabs 2, Element ''cdp_prep'' [], nl] @
              concat (map (\<lambda>ii. dump_cdp r (cdp_prep s ! (i * dscnt s + ii))) [0 ..< dscnt s]) @ [tabs 2, EndElement ''cdp_prep'', nl] @
              [tabs 2, Element ''database'' [], nl] @
              concat (map (\<lambda>(ix, vs). dump_row fmt (row_time s r ix) vs) (enumerate 0 rs)) @
              [tabs 2, EndElement ''database'', nl, tabs 1, EndElement ''rra'', nl], s2))"

fun dump_rras :: "(int \<Rightarrow> string) \<Rightarrow> nat list \<Rightarrow> nat \<Rightarrow> rrd \<Rightarrow> xml_node list \<times> rrd" where
  "dump_rras fmt [] rra_next s = ([], s)"
| "dump_rras fmt (i # is) rra_next s =
     (case dump_rra fmt i rra_next s of
        (ns, s1) \<Rightarrow> case dump_rras fmt is (rra_next + dscnt s * row_cnt (rra_def s ! i)) s1 of (ms, s2) \<Rightarrow> (ns @ ms, s2))"

definition rrd_dump_cb_r :: "(int \<Rightarrow> string) \<Rightarrow> int \<Rightarrow> rrd \<Rightarrow> xml_node list" where
  "rrd_dump_cb_r fmt opt_header s =
     dump_opening opt_header @ dump_head fmt s @ concat (map (dump_ds s) [0 ..< dscnt s]) @
     [tabs 1, Other ''<!-- Round Robin Archives -->'', nl] @ fst (dump_rras fmt [0 ..< rracnt s] 0 s) @ [EndElement ''rrd'', nl]"

definition dump_text :: "xml_node list \<Rightarrow> string" where
  "dump_text ns = concat (map node_text ns)"

section \<open>The rows that are read\<close>

lemma read_values_eq:
  "pos s + n \<le> length (rrd_value s) \<Longrightarrow> read_values n s = (take n (drop (pos s) (rrd_value s)), s\<lparr>pos := pos s + n\<rparr>)"
proof (induction n arbitrary: s)
  case (Suc n)
  have "rrd_read 1 s = ([rrd_value s ! pos s], s\<lparr>pos := pos s + 1\<rparr>)"
    using Suc.prems by (simp add: rrd_read_def Let_def take_Suc hd_drop_conv_nth)
  moreover have "take (Suc n) (drop (pos s) (rrd_value s)) = rrd_value s ! pos s # take n (drop (Suc (pos s)) (rrd_value s))"
    using Suc.prems by (simp add: Cons_nth_drop_Suc [symmetric])
  ultimately show ?case using Suc.IH [of "s\<lparr>pos := pos s + 1\<rparr>"] Suc.prems by simp
qed simp

lemma read_values_row:
  assumes "wf_rrd s" and "i < rracnt s" and "p < row_cnt (rra_def s ! i)" and "pos s = rra_off s i + p * dscnt s"
  shows "read_values (dscnt s) s = (rra_rows s i ! p, s\<lparr>pos := rra_off s i + Suc p * dscnt s\<rparr>)"
proof -
  have "Suc p * dscnt s \<le> row_cnt (rra_def s ! i) * dscnt s" using assms(3) by (intro mult_le_mono1) simp
  then have le: "pos s + dscnt s \<le> length (rrd_value s)" using rra_off_end [OF assms(1,2)] assms(4) by simp
  have "rrd_read (dscnt s) s = (take (dscnt s) (drop (pos s) (rrd_value s)), s\<lparr>pos := pos s + dscnt s\<rparr>)"
    using le by (cases "dscnt s = 0") (simp_all add: rrd_read_def Let_def)
  with rrd_read_row [OF assms] read_values_eq [OF le] show ?thesis by simp
qed

text \<open>The loop delivers the rows in the order of the ring.\<close>

lemma dump_rows_eq:
  assumes wf: "wf_rrd s" and i: "i < rracnt s" and "c < row_cnt (rra_def s ! i)" and "q = rra_off s i + Suc c * dscnt s"
  shows "\<exists>q'. dump_rows (rra_off s i) (row_cnt (rra_def s ! i)) n c (s\<lparr>pos := q\<rparr>) =
    (map (\<lambda>k. rra_rows s i ! ((Suc c + k) mod row_cnt (rra_def s ! i))) [0 ..< n], s\<lparr>pos := q'\<rparr>)"
  using assms(3,4)
proof (induction n arbitrary: c q)
  case 0
  then show ?case by auto
next
  case (Suc n)
  define rows where "rows = row_cnt (rra_def s ! i)"
  define c' where "c' = Suc c mod rows"
  define t where "t = s\<lparr>pos := rra_off s i + c' * dscnt s\<rparr>"
  have c: "c < rows" using Suc.prems by (simp add: rows_def)
  then have c': "c' < rows" by (simp add: c'_def)
  have wft: "wf_rrd t" using wf by (simp add: t_def wf_rrd_def)
  have start: "(if Suc c \<ge> rows then (0, snd (rrd_seek (int (rra_off s i)) SEEK_SET (s\<lparr>pos := q\<rparr>))) else (Suc c, s\<lparr>pos := q\<rparr>)) = (c', t)"
  proof (cases "Suc c \<ge> rows")
    case True
    then have "Suc c = rows" using c by simp
    then have "c' = 0" by (simp add: c'_def)
    then show ?thesis using True by (simp add: rrd_seek_def t_def)
  next
    case False
    then show ?thesis using Suc.prems(2) by (simp add: c'_def t_def)
  qed
  have read: "read_values (dscnt t) t = (rra_rows s i ! c', s\<lparr>pos := rra_off s i + Suc c' * dscnt s\<rparr>)"
    using read_values_row [OF wft, of i c'] i c' by (simp add: t_def rows_def)
  have "c' < row_cnt (rra_def s ! i)" using c' by (simp add: rows_def)
  from Suc.IH [OF this refl] obtain q' where
    IH: "dump_rows (rra_off s i) rows n c' (s\<lparr>pos := rra_off s i + Suc c' * dscnt s\<rparr>) =
      (map (\<lambda>k. rra_rows s i ! ((Suc c' + k) mod rows)) [0 ..< n], s\<lparr>pos := q'\<rparr>)" by (auto simp: rows_def)
  have idx: "(Suc c' + k) mod rows = (Suc c + Suc k) mod rows" for k
    unfolding c'_def by (metis add_Suc add_Suc_shift mod_Suc_eq mod_add_left_eq)
  have "map (\<lambda>k. rra_rows s i ! ((Suc c + k) mod rows)) [0 ..< Suc n] =
      rra_rows s i ! c' # map (\<lambda>k. rra_rows s i ! ((Suc c' + k) mod rows)) [0 ..< n]"
    unfolding idx by (subst upt_conv_Cons) (simp_all add: c'_def map_Suc_upt [symmetric] del: upt_Suc map_Suc_upt)
  then show ?case
    using start read IH by (intro exI [of _ q']) (simp add: rows_def [symmetric] del: upt_Suc)
qed

lemma dump_rows_log:
  assumes "wf_rrd s" and "i < rracnt s"
  shows "\<exists>q'. dump_rows (rra_off s i) (row_cnt (rra_def s ! i)) (row_cnt (rra_def s ! i)) (rra_ptr s ! i)
      (s\<lparr>pos := rra_off s i + Suc (rra_ptr s ! i) * dscnt s\<rparr>) = (rra_log s i, s\<lparr>pos := q'\<rparr>)"
proof -
  let ?n = "row_cnt (rra_def s ! i)"
  have "rra_log s i = map (\<lambda>k. rra_rows s i ! ((Suc (rra_ptr s ! i) + k) mod ?n)) [0 ..< ?n]"
    unfolding rra_log_def by (rule nth_equalityI) (simp_all add: rra_rows_def nth_rotate del: rotate_Suc)
  then show ?thesis using dump_rows_eq [OF assms wf_rrdD(10) [OF assms] refl, of ?n] by simp
qed

text \<open>The dump of an archive does not change the database, but for the file position.\<close>

definition rra_nodes :: "(int \<Rightarrow> string) \<Rightarrow> rrd \<Rightarrow> nat \<Rightarrow> xml_node list" where
  "rra_nodes fmt s i =
     (let r = rra_def s ! i in
      [tabs 1, Element ''rra'' [], nl] @
      field 2 (''cf'', cf_nam r) @
      tabs 2 # elem ''pdp_per_row'' (show_nat (pdp_cnt r)) @
        [Other '' '', Other (''<!-- '' @ show_nat (u64 (int (pdp_cnt r) * int (pdpstep s))) @ '' seconds -->''), nl, nl] @
      [tabs 2, Element ''params'' [], nl] @ xml_fields 2 (param_fields s r) @ [tabs 2, EndElement ''params'', nl] @
      [tabs 2, Element ''cdp_prep'' [], nl] @
      concat (map (\<lambda>ii. dump_cdp r (cdp_prep s ! (i * dscnt s + ii))) [0 ..< dscnt s]) @ [tabs 2, EndElement ''cdp_prep'', nl] @
      [tabs 2, Element ''database'' [], nl] @
      concat (map (\<lambda>(ix, vs). dump_row fmt (row_time s r ix) vs) (enumerate 0 (rra_log s i))) @
      [tabs 2, EndElement ''database'', nl, tabs 1, EndElement ''rra'', nl])"

lemma rra_nodes_pos [simp]: "rra_nodes fmt (s\<lparr>pos := q\<rparr>) i = rra_nodes fmt s i"
  by (simp add: rra_nodes_def param_fields_def row_time_def)

lemma dump_rra_eq:
  assumes "wf_rrd s" and "i < rracnt s"
  shows "\<exists>q. dump_rra fmt i (rra_off s i) s = (rra_nodes fmt s i, s\<lparr>pos := q\<rparr>)"
proof -
  have seek: "snd (rrd_seek (int (rra_off s i + (rra_ptr s ! i + 1) * dscnt s)) SEEK_SET s) =
      s\<lparr>pos := rra_off s i + Suc (rra_ptr s ! i) * dscnt s\<rparr>" by (simp add: rrd_seek_def nat_add_distrib nat_mult_distrib)
  from dump_rows_log [OF assms] show ?thesis unfolding dump_rra_def Let_def seek by (auto simp: rra_nodes_def Let_def)
qed

lemma dump_rras_eq:
  assumes "wf_rrd s" and "k \<le> rracnt s"
  shows "\<exists>q. dump_rras fmt [k ..< rracnt s] (rra_off s k) s = (concat (map (rra_nodes fmt s) [k ..< rracnt s]), s\<lparr>pos := q\<rparr>)"
  using assms
proof (induction "rracnt s - k" arbitrary: k s)
  case 0
  have "s = s\<lparr>pos := pos s\<rparr>" by simp
  with 0 show ?case by (intro exI [of _ "pos s"]) simp
next
  case (Suc m)
  then have k: "k < rracnt s" by simp
  obtain q where q: "dump_rra fmt k (rra_off s k) s = (rra_nodes fmt s k, s\<lparr>pos := q\<rparr>)"
    using dump_rra_eq [OF Suc.prems(1) k] by blast
  have off: "rra_off s k + dscnt s * row_cnt (rra_def s ! k) = rra_off (s\<lparr>pos := q\<rparr>) (Suc k)"
    using rra_off_Suc [of k s] k wf_rrdD(3) [OF Suc.prems(1)] by (simp add: mult.commute)
  have "wf_rrd (s\<lparr>pos := q\<rparr>)" using Suc.prems(1) by (simp add: wf_rrd_def)
  moreover have "rra_nodes fmt (s\<lparr>pos := q\<rparr>) = rra_nodes fmt s" by (rule ext) simp
  ultimately obtain q' where
    "dump_rras fmt [Suc k ..< rracnt s] (rra_off (s\<lparr>pos := q\<rparr>) (Suc k)) (s\<lparr>pos := q\<rparr>) =
      (concat (map (rra_nodes fmt s) [Suc k ..< rracnt s]), s\<lparr>pos := q'\<rparr>)"
  proof -
    assume wf: "wf_rrd (s\<lparr>pos := q\<rparr>)" and eq: "rra_nodes fmt (s\<lparr>pos := q\<rparr>) = rra_nodes fmt s"
    have "m = rracnt (s\<lparr>pos := q\<rparr>) - Suc k" "Suc k \<le> rracnt (s\<lparr>pos := q\<rparr>)" using Suc.hyps(2) k by simp_all
    from Suc.hyps(1) [OF this(1) wf this(2)] that show thesis unfolding eq by auto
  qed
  then show ?case using q off k by (intro exI [of _ q']) (simp add: upt_conv_Cons)
qed

lemma dump_nodes:
  assumes "wf_rrd s"
  shows "rrd_dump_cb_r fmt opt s =
    dump_opening opt @ dump_head fmt s @ concat (map (dump_ds s) [0 ..< dscnt s]) @
    [tabs 1, Other ''<!-- Round Robin Archives -->'', nl] @ concat (map (rra_nodes fmt s) [0 ..< rracnt s]) @ [EndElement ''rrd'', nl]"
proof -
  have "rra_off s 0 = 0" by (simp add: rra_off_def rra_total_def)
  then show ?thesis using dump_rras_eq [OF assms, of 0 fmt] by (auto simp: rrd_dump_cb_r_def)
qed

end
