(* ===== verification/Restore.thy ===== *)
theory Restore
  imports Dump Create File_Image
begin

text \<open>
  Restoring a database from XML (\<open>rrd_restore.c\<close>). The reader of libxml2 is represented by what it delivers: the node it stands on
  and the nodes that follow, in the order of a well-formed document. All parsing loops have the same shape, \<open>tag_loop\<close>: take the next
  tag, let a handler read what belongs to it, expect the end tag. As in the source a loop that does not find a tag ends with the
  status of the round before. The definition of a COMPUTE data source is a field of its own, as in \<open>RRD_Format\<close>.
  The error state of the library is that of the last conversion: an error of an earlier element that did not stop the parser is not
  remembered for the test behind \<open>parseCDEF_DS\<close>.
\<close>

section \<open>The reader\<close>

datatype restore_error =
    XmlTextFound | XmlElementFound | XmlEnded | XmlMismatch | XmlEmptyBlock | XmlUnknownTag | XmlRange | XmlUnknownCF | XmlUnknownDst
  | XmlCdef rpn_error | XmlOrder | XmlHistoryLong | XmlTooManyValues | XmlNoRows | XmlStuck

type_synonym reader = "xml_node option \<times> xml_node list"
type_synonym 'a parsed = "(restore_error + 'a) \<times> reader"

definition left :: "reader \<Rightarrow> nat" where
  "left rd = length (snd rd)"

fun next_element :: "xml_node list \<Rightarrow> string parsed" where
  "next_element [] = (Inl XmlEnded, None, [])"
| "next_element (Text t # ns) = (Inl XmlTextFound, Some (Text t), ns)"
| "next_element (Other t # ns) = next_element ns"
| "next_element (EndElement nam # ns) = (Inr (CHR ''/'' # nam), Some (EndElement nam), ns)"
| "next_element (Element nam a # ns) = (Inr nam, Some (Element nam a), ns)"

definition get_xml_element :: "reader \<Rightarrow> string parsed" where
  "get_xml_element rd = next_element (snd rd)"

text \<open>\<open>xmlStrcasecmp\<close>\<close>

definition eq_ci :: "string \<Rightarrow> string \<Rightarrow> bool" where
  "eq_ci a b \<longleftrightarrow> map lower a = map lower b"

definition expect_element :: "string \<Rightarrow> reader \<Rightarrow> unit parsed" where
  "expect_element exp_name rd =
     (case get_xml_element rd of
        (Inl e, rd) \<Rightarrow> (Inl e, rd)
      | (Inr nam, rd) \<Rightarrow> (if eq_ci nam exp_name then Inr () else Inl XmlMismatch, rd))"

definition expect_element_end :: "string \<Rightarrow> reader \<Rightarrow> unit parsed" where
  "expect_element_end exp_name rd =
     (case (case fst rd of Some (EndElement nam) \<Rightarrow> (Inr (CHR ''/'' # nam), rd) | _ \<Rightarrow> get_xml_element rd) of
        (Inl e, rd) \<Rightarrow> (Inl e, rd)
      | (Inr nam, rd) \<Rightarrow> (if nam \<noteq> [] \<and> eq_ci (tl nam) exp_name \<and> hd nam = CHR ''/'' then Inr () else Inl XmlMismatch, rd))"

text \<open>The first word of a text; an element without text has the empty one.\<close>

definition first_word :: "string \<Rightarrow> string" where
  "first_word t = takeWhile (\<lambda>c. \<not> isspace c) (dropWhile isspace t)"

fun next_text :: "xml_node list \<Rightarrow> string parsed" where
  "next_text [] = (Inl XmlEnded, None, [])"
| "next_text (Element nam a # ns) = (Inl XmlElementFound, Some (Element nam a), ns)"
| "next_text (EndElement nam # ns) = (Inr [], Some (EndElement nam), ns)"
| "next_text (Other t # ns) = next_text ns"
| "next_text (Text t # ns) = (Inr (first_word t), Some (Text t), ns)"

definition get_xml_text :: "reader \<Rightarrow> string parsed" where
  "get_xml_text rd = next_text (snd rd)"

definition convert :: "(string \<Rightarrow> restore_error + 'a) \<Rightarrow> reader \<Rightarrow> 'a parsed" where
  "convert f rd = (case get_xml_text rd of (Inl e, rd) \<Rightarrow> (Inl e, rd) | (Inr t, rd) \<Rightarrow> (f t, rd))"

text \<open>\<open>strncpy\<close> without a terminating zero of its own: as much as the field holds.\<close>

definition get_xml_string :: "nat \<Rightarrow> reader \<Rightarrow> string parsed" where
  "get_xml_string max_len rd = convert (\<lambda>t. Inr (take max_len t)) rd"

text \<open>Sign and magnitude that \<open>strtol\<close> and its relatives read with base 0.\<close>

definition base0_num :: "string \<Rightarrow> bool \<times> int" where
  "base0_num str =
     (let (neg, r) = strip_sign (dropWhile isspace str)
      in case strip_prefix_ci ''0x'' r of
           Some h \<Rightarrow> (neg, hex_num (takeWhile is_hex h))
         | None \<Rightarrow>
             if r \<noteq> [] \<and> hd r = CHR ''0'' then (neg, oct_num (takeWhile is_oct r)) else (neg, dec_val (takeWhile is_digit r)))"

definition text_time_t :: "string \<Rightarrow> restore_error + int" where
  "text_time_t t =
     (case base0_num t of (neg, v) \<Rightarrow>
      let i = (if neg then - v else v) in if i < - (2 ^ 63) \<or> i \<ge> 2 ^ 63 then Inl XmlRange else Inr i)"

definition text_ulong :: "string \<Rightarrow> restore_error + nat" where
  "text_ulong t = (case base0_num t of (neg, v) \<Rightarrow> if v \<ge> 2 ^ 64 then Inl XmlRange else Inr (u64 (if neg then - v else v)))"

text \<open>\<open>xmlStrcasestr\<close>\<close>

definition contains_ci :: "string \<Rightarrow> string \<Rightarrow> bool" where
  "contains_ci t w \<longleftrightarrow> list_ex (\<lambda>i. map lower (take (length w) (drop i t)) = map lower w) [0 ..< Suc (length t)]"

definition text_double :: "string \<Rightarrow> restore_error + dbl" where
  "text_double t =
     (if contains_ci t ''nan'' then Inr NaN
      else if contains_ci t ''-inf'' then Inr NInf
      else if contains_ci t ''+inf'' \<or> contains_ci t ''inf'' then Inr PInf
      else case strtod t of ((v, erange), _) \<Rightarrow> if erange then Inl XmlRange else Inr v)"

definition get_xml_time_t :: "reader \<Rightarrow> int parsed" where
  "get_xml_time_t rd = convert text_time_t rd"

definition get_xml_ulong :: "reader \<Rightarrow> nat parsed" where
  "get_xml_ulong rd = convert text_ulong rd"

definition get_xml_double :: "reader \<Rightarrow> dbl parsed" where
  "get_xml_double rd = convert text_double rd"

section \<open>The loop over tags\<close>

text \<open>
  What a handler has done: it has met the end tag of the block, or read the value of a field, with an error and the state that
  is left, or a whole block with its end tag.
\<close>

datatype 's tag_step = EndTag | FieldDone "restore_error option" 's | BlockDone "restore_error + 's"

text \<open>
  \<open>strict\<close>: an error in a field ends the loop. \<open>ok\<close>: the status is 0, which at the beginning is not so in all loops. The result has the
  state and whether the end tag was found. Each round consumes a node, whatever the handler is; for the handlers below the
  error \<open>XmlStuck\<close> never occurs.
\<close>

function tag_loop :: "bool \<Rightarrow> (string \<Rightarrow> 's \<Rightarrow> reader \<Rightarrow> 's tag_step \<times> reader) \<Rightarrow> bool \<Rightarrow> 's \<Rightarrow> reader \<Rightarrow> ('s \<times> bool) parsed" where
  "tag_loop strict h ok s rd =
     (case get_xml_element rd of
        (Inl e, rd1) \<Rightarrow> (if ok then Inr (s, False) else Inl e, rd1)
      | (Inr el, rd1) \<Rightarrow>
          (case h el s rd1 of
             (EndTag, rd2) \<Rightarrow> (if ok then Inr (s, True) else Inl XmlEmptyBlock, rd2)
           | (BlockDone (Inl e), rd2) \<Rightarrow> (Inl e, rd2)
           | (BlockDone (Inr s'), rd2) \<Rightarrow> if left rd2 < left rd then tag_loop strict h True s' rd2 else (Inl XmlStuck, rd2)
           | (FieldDone err s', rd2) \<Rightarrow>
               if strict \<and> err \<noteq> None then (Inl (the err), rd2)
               else (case expect_element_end el rd2 of
                       (Inl e, rd3) \<Rightarrow> (Inl e, rd3)
                     | (Inr _, rd3) \<Rightarrow> if left rd3 < left rd then tag_loop strict h True s' rd3 else (Inl XmlStuck, rd3))))"
  by pat_completeness auto

termination
  by (relation "measure (\<lambda>(_, _, _, _, rd). left rd)") auto

declare tag_loop.simps [simp del]

text \<open>A field: its value goes into the state.\<close>

definition store :: "(reader \<Rightarrow> 'a parsed) \<Rightarrow> ('a \<Rightarrow> 's \<Rightarrow> 's) \<Rightarrow> 's \<Rightarrow> reader \<Rightarrow> 's tag_step \<times> reader" where
  "store get put s rd = (case get rd of (Inl e, rd) \<Rightarrow> (FieldDone (Some e) s, rd) | (Inr v, rd) \<Rightarrow> (FieldDone None (put v s), rd))"

definition unknown_tag :: "'s \<Rightarrow> reader \<Rightarrow> 's tag_step \<times> reader" where
  "unknown_tag s rd = (FieldDone (Some XmlUnknownTag) s, rd)"

definition block :: "'s parsed \<Rightarrow> 's tag_step \<times> reader" where
  "block r = (case r of (x, rd) \<Rightarrow> (BlockDone x, rd))"

section \<open>Rows\<close>

text \<open>The bytes of the limits; those of a COMPUTE data source are its nodes.\<close>

definition limit_bytes :: "nat \<Rightarrow> dbl \<Rightarrow> ds_def_t \<Rightarrow> dbl" where
  "limit_bytes off v d = (if computed (dst d) then dec_dbl (sub (40 + off) 8 (enc_ds_def d)) else v)"

definition value_check_range :: "bool \<Rightarrow> ds_def_t \<Rightarrow> dbl \<Rightarrow> dbl" where
  "value_check_range opt_range_check d v =
     (if \<not> opt_range_check then v
      else let mi = limit_bytes 8 (min_val d) d; ma = limit_bytes 16 (max_val d) d
           in if \<not> isnan mi \<and> v < mi \<or> \<not> isnan ma \<and> v > ma then NaN else v)"

fun parse_tag_rra_database_row :: "bool \<Rightarrow> ds_def_t list \<Rightarrow> reader \<Rightarrow> dbl list parsed" where
  "parse_tag_rra_database_row rc [] rd = (Inr [], rd)"
| "parse_tag_rra_database_row rc (d # ds) rd =
     (case expect_element ''v'' rd of
        (Inl e, rd) \<Rightarrow> (Inl e, rd)
      | (Inr _, rd) \<Rightarrow>
          (case get_xml_double rd of
             (Inl e, rd) \<Rightarrow> (Inl e, rd)
           | (Inr v, rd) \<Rightarrow>
               (case expect_element ''/v'' rd of
                  (Inl e, rd) \<Rightarrow> (Inl e, rd)
                | (Inr _, rd) \<Rightarrow>
                    (case parse_tag_rra_database_row rc ds rd of
                       (Inl e, rd) \<Rightarrow> (Inl e, rd)
                     | (Inr vs, rd) \<Rightarrow> (Inr (value_check_range rc d v # vs), rd)))))"

text \<open>The archive that is being read is the last one.\<close>

definition cur_rra :: "rrd \<Rightarrow> nat" where
  "cur_rra s = rracnt s - 1"

definition upd_rra :: "(rra_def_t \<Rightarrow> rra_def_t) \<Rightarrow> rrd \<Rightarrow> rrd" where
  "upd_rra f s = s\<lparr>rra_def := (rra_def s)[cur_rra s := f (rra_def s ! cur_rra s)]\<rparr>"

text \<open>The size of the value area is kept in an \<open>unsigned int\<close>.\<close>

definition database_tag :: "bool \<Rightarrow> string \<Rightarrow> nat \<times> rrd \<Rightarrow> reader \<Rightarrow> (nat \<times> rrd) tag_step \<times> reader" where
  "database_tag rc el ts rd =
     (case ts of (total_row_cnt, s) \<Rightarrow>
      if eq_ci el ''row'' then
        (if dscnt s * (total_row_cnt + 1) \<ge> 2 ^ 32 then (BlockDone (Inl XmlTooManyValues), rd)
         else case parse_tag_rra_database_row rc (take (dscnt s) (ds_def s)) rd of
                (Inl e, rd) \<Rightarrow> (BlockDone (Inl e), rd)
              | (Inr vs, rd) \<Rightarrow>
                  (case expect_element ''/row'' rd of
                     (Inl e, rd) \<Rightarrow> (BlockDone (Inl e), rd)
                   | (Inr _, rd) \<Rightarrow>
                       (BlockDone (Inr (total_row_cnt + 1, upd_rra (\<lambda>r. r\<lparr>row_cnt := row_cnt r + 1\<rparr>)
                          (s\<lparr>rrd_value := take (dscnt s * total_row_cnt) (rrd_value s) @ vs\<rparr>))), rd)))
      else if eq_ci el ''/database'' then (EndTag, rd)
      else unknown_tag ts rd)"

definition parse_tag_rra_database :: "bool \<Rightarrow> rrd \<Rightarrow> reader \<Rightarrow> rrd parsed" where
  "parse_tag_rra_database rc s rd =
     (let total_row_cnt = sum_list (map row_cnt (take (cur_rra s) (rra_def s)))
      in case tag_loop True (database_tag rc) True (total_row_cnt, s) rd of (Inl e, rd) \<Rightarrow> (Inl e, rd) | (Inr ((_, s), _), rd) \<Rightarrow> (Inr s, rd))"

section \<open>Preparation areas\<close>

text \<open>
  The characters of a history are stored one by one from the start of the area of 80 bytes, without a check of their number. What
  lies behind the 28th falls on fields that a FAILURES archive does not use.
\<close>

definition history_bits :: "string \<Rightarrow> int list" where
  "history_bits t = map (\<lambda>c. if c = CHR ''1'' then 1 else 0) t"

definition text_history :: "string \<Rightarrow> restore_error + int list" where
  "text_history t = (if length t > 80 then Inl XmlHistoryLong else Inr (history_bits t))"

definition cdp_ds_tag :: "string \<Rightarrow> cdp_prep_t \<Rightarrow> reader \<Rightarrow> cdp_prep_t tag_step \<times> reader" where
  "cdp_ds_tag el c rd =
     (if eq_ci el ''primary_value'' then store get_xml_double (\<lambda>v c. c\<lparr>primary_val := v\<rparr>) c rd
      else if eq_ci el ''secondary_value'' then store get_xml_double (\<lambda>v c. c\<lparr>secondary_val := v\<rparr>) c rd
      else if eq_ci el ''intercept'' then store get_xml_double (\<lambda>v c. c\<lparr>hw_intercept := v\<rparr>) c rd
      else if eq_ci el ''last_intercept'' then store get_xml_double (\<lambda>v c. c\<lparr>hw_last_intercept := v\<rparr>) c rd
      else if eq_ci el ''slope'' then store get_xml_double (\<lambda>v c. c\<lparr>hw_slope := v\<rparr>) c rd
      else if eq_ci el ''last_slope'' then store get_xml_double (\<lambda>v c. c\<lparr>hw_last_slope := v\<rparr>) c rd
      else if eq_ci el ''nan_count'' then store get_xml_ulong (\<lambda>n c. c\<lparr>null_count := n\<rparr>) c rd
      else if eq_ci el ''last_nan_count'' then store get_xml_ulong (\<lambda>n c. c\<lparr>last_null_count := n\<rparr>) c rd
      else if eq_ci el ''seasonal'' then store get_xml_double (\<lambda>v c. c\<lparr>hw_intercept := v\<rparr>) c rd
      else if eq_ci el ''last_seasonal'' then store get_xml_double (\<lambda>v c. c\<lparr>hw_last_intercept := v\<rparr>) c rd
      else if eq_ci el ''init_flag'' then store get_xml_ulong (\<lambda>n c. c\<lparr>null_count := n\<rparr>) c rd
      else if eq_ci el ''history''
      then store (convert text_history) (\<lambda>b c. c\<lparr>violations := take 28 (b @ drop (length b) (violations c))\<rparr>) c rd
      else if eq_ci el ''value'' then store get_xml_double (\<lambda>v c. c\<lparr>cdp_val := v\<rparr>) c rd
      else if eq_ci el ''unknown_datapoints'' then store get_xml_ulong (\<lambda>n c. c\<lparr>unkn_pdp_cnt := n\<rparr>) c rd
      else if eq_ci el ''/ds'' then (EndTag, rd)
      else unknown_tag c rd)"

definition cdp_cleared :: cdp_prep_t where
  "cdp_cleared = \<lparr>cdp_val = 0, unkn_pdp_cnt = 0, hw_intercept = 0, hw_last_intercept = 0, hw_slope = 0, hw_last_slope = 0,
     null_count = 0, last_null_count = 0, primary_val = 0, secondary_val = 0, violations = replicate 28 0\<rparr>"

definition parse_tag_rra_cdp_prep_ds :: "reader \<Rightarrow> cdp_prep_t parsed" where
  "parse_tag_rra_cdp_prep_ds rd =
     (case tag_loop True cdp_ds_tag False cdp_cleared rd of (Inl e, rd) \<Rightarrow> (Inl e, rd) | (Inr (c, _), rd) \<Rightarrow> (Inr c, rd))"

fun cdp_prep_blocks :: "nat list \<Rightarrow> rrd \<Rightarrow> reader \<Rightarrow> rrd parsed" where
  "cdp_prep_blocks [] s rd = (Inr s, rd)"
| "cdp_prep_blocks (i # is) s rd =
     (case expect_element ''ds'' rd of
        (Inl e, rd) \<Rightarrow> (Inl e, rd)
      | (Inr _, rd) \<Rightarrow>
          (case parse_tag_rra_cdp_prep_ds rd of
             (Inl e, rd) \<Rightarrow> (Inl e, rd)
           | (Inr c, rd) \<Rightarrow> cdp_prep_blocks is (s\<lparr>cdp_prep := (cdp_prep s)[dscnt s * cur_rra s + i := c]\<rparr>) rd))"

definition parse_tag_rra_cdp_prep :: "rrd \<Rightarrow> reader \<Rightarrow> rrd parsed" where
  "parse_tag_rra_cdp_prep s rd =
     (case cdp_prep_blocks [0 ..< dscnt s] s rd of
        (Inl e, rd) \<Rightarrow> (Inl e, rd)
      | (Inr s, rd) \<Rightarrow> (case expect_element ''/cdp_prep'' rd of (Inl e, rd) \<Rightarrow> (Inl e, rd) | (Inr _, rd) \<Rightarrow> (Inr s, rd)))"

section \<open>Parameters of an archive\<close>

definition set_par_dbl :: "nat \<Rightarrow> dbl \<Rightarrow> rra_def_t \<Rightarrow> rra_def_t" where
  "set_par_dbl i v r = (if i = 0 then r\<lparr>cdp_xff_val := v\<rparr> else if i = 1 then r\<lparr>par1 := v\<rparr> else if i = 2 then r\<lparr>par2 := v\<rparr> else r)"

definition set_par_cnt :: "nat \<Rightarrow> nat \<Rightarrow> rra_def_t \<Rightarrow> rra_def_t" where
  "set_par_cnt i n r = (if i = 3 then r\<lparr>dependent_rra_idx := n\<rparr> else if i = 4 then r\<lparr>par4 := n\<rparr> else r\<lparr>failure_threshold := n\<rparr>)"

text \<open>
  The numbers of release 1.0.49, without names. The index is unsigned, so that the condition \<open>i - 1 < ARRAY_LENGTH(par)\<close> is false in
  the first round.
\<close>

fun compat_values :: "nat list \<Rightarrow> rra_def_t \<Rightarrow> reader \<Rightarrow> rra_def_t tag_step \<times> reader" where
  "compat_values [] r rd = (FieldDone None r, rd)"
| "compat_values (i # is) r rd =
     (case (if i = 3 \<or> i = 4 \<or> i = 5 then store get_xml_ulong (set_par_cnt i) r rd else store get_xml_double (set_par_dbl i) r rd) of
        (FieldDone None r, rd) \<Rightarrow>
          if 1 \<le> i
          then (case expect_element ''/value'' rd of
                  (Inl e, rd) \<Rightarrow> (FieldDone (Some e) r, rd)
                | (Inr _, rd) \<Rightarrow>
                    (case expect_element ''value'' rd of (Inl e, rd) \<Rightarrow> (FieldDone (Some e) r, rd) | (Inr _, rd) \<Rightarrow> compat_values is r rd))
          else compat_values is r rd
      | (st, rd) \<Rightarrow> (st, rd))"

definition params_tag :: "string \<Rightarrow> rra_def_t \<Rightarrow> reader \<Rightarrow> rra_def_t tag_step \<times> reader" where
  "params_tag el r rd =
     (if eq_ci el ''hw_alpha'' then store get_xml_double (\<lambda>v r. r\<lparr>par1 := v\<rparr>) r rd
      else if eq_ci el ''hw_beta'' then store get_xml_double (\<lambda>v r. r\<lparr>par2 := v\<rparr>) r rd
      else if eq_ci el ''dependent_rra_idx'' then store get_xml_ulong (\<lambda>n r. r\<lparr>dependent_rra_idx := n\<rparr>) r rd
      else if eq_ci el ''seasonal_gamma'' then store get_xml_double (\<lambda>v r. r\<lparr>par1 := v\<rparr>) r rd
      else if eq_ci el ''seasonal_smooth_idx'' then store get_xml_ulong (\<lambda>n r. r\<lparr>par4 := n\<rparr>) r rd
      else if eq_ci el ''smoothing_window'' then store get_xml_double (\<lambda>v r. r\<lparr>par2 := v\<rparr>) r rd
      else if eq_ci el ''delta_pos'' then store get_xml_double (\<lambda>v r. r\<lparr>par1 := v\<rparr>) r rd
      else if eq_ci el ''delta_neg'' then store get_xml_double (\<lambda>v r. r\<lparr>par2 := v\<rparr>) r rd
      else if eq_ci el ''window_len'' then store get_xml_ulong (\<lambda>n r. r\<lparr>par4 := n\<rparr>) r rd
      else if eq_ci el ''failure_threshold'' then store get_xml_ulong (\<lambda>n r. r\<lparr>failure_threshold := n\<rparr>) r rd
      else if eq_ci el ''xff'' then store get_xml_double (\<lambda>v r. r\<lparr>cdp_xff_val := v\<rparr>) r rd
      else if eq_ci el ''value'' then compat_values [0 ..< 10] r rd
      else if eq_ci el ''/params'' then (EndTag, rd)
      else unknown_tag r rd)"

text \<open>The status of a field is overwritten by that of its end tag.\<close>

definition parse_tag_rra_params :: "rrd \<Rightarrow> reader \<Rightarrow> rrd parsed" where
  "parse_tag_rra_params s rd =
     (case tag_loop False params_tag False (rra_def s ! cur_rra s) rd of
        (Inl e, rd) \<Rightarrow> (Inl e, rd)
      | (Inr (r, _), rd) \<Rightarrow> (Inr (upd_rra (\<lambda>_. r) s), rd))"

section \<open>Archives\<close>

definition parse_tag_rra_cf :: "reader \<Rightarrow> string parsed" where
  "parse_tag_rra_cf rd =
     (case get_xml_string 20 rd of
        (Inl e, rd) \<Rightarrow> (Inl e, rd)
      | (Inr nam, rd) \<Rightarrow> (if cf_conv nam = None then Inl XmlUnknownCF else Inr nam, rd))"

definition rra_tag :: "bool \<Rightarrow> string \<Rightarrow> rrd \<Rightarrow> reader \<Rightarrow> rrd tag_step \<times> reader" where
  "rra_tag rc el s rd =
     (let v = atoi (version (stat_head s)) in
      if eq_ci el ''cf'' then store parse_tag_rra_cf (\<lambda>nam. upd_rra (\<lambda>r. r\<lparr>cf_nam := nam\<rparr>)) s rd
      else if eq_ci el ''pdp_per_row'' then store get_xml_ulong (\<lambda>n. upd_rra (\<lambda>r. r\<lparr>pdp_cnt := n\<rparr>)) s rd
      else if v = 1 \<and> eq_ci el ''xff'' then store get_xml_double (\<lambda>x. upd_rra (\<lambda>r. r\<lparr>cdp_xff_val := x\<rparr>)) s rd
      else if v \<ge> 2 \<and> eq_ci el ''params'' then block (parse_tag_rra_params s rd)
      else if eq_ci el ''cdp_prep'' then block (parse_tag_rra_cdp_prep s rd)
      else if eq_ci el ''database'' then block (parse_tag_rra_database rc s rd)
      else if eq_ci el ''/rra'' then (EndTag, rd)
      else unknown_tag s rd)"

definition rra_cleared :: rra_def_t where
  "rra_cleared = \<lparr>cf_nam = [], row_cnt = 0, pdp_cnt = 0, cdp_xff_val = 0, par1 = 0, par2 = 0, dependent_rra_idx = 0, par4 = 0, failure_threshold = 0\<rparr>"

definition add_rra :: "rrd \<Rightarrow> rrd" where
  "add_rra s =
     s\<lparr>rra_def := take (rracnt s) (rra_def s) @ [rra_cleared],
       cdp_prep := take (dscnt s * rracnt s) (cdp_prep s) @ replicate (dscnt s) cdp_cleared,
       rra_ptr := take (rracnt s) (rra_ptr s) @ [0],
       stat_head := (stat_head s)\<lparr>rra_cnt := rracnt s + 1\<rparr>\<rparr>"

text \<open>The current row is drawn only when the archive has no end tag; at the end tag the function returns before that.\<close>

definition parse_tag_rra :: "bool \<Rightarrow> (nat \<Rightarrow> nat) \<Rightarrow> rrd \<Rightarrow> reader \<Rightarrow> rrd parsed" where
  "parse_tag_rra rc rrd_random s rd =
     (case tag_loop True (rra_tag rc) True (add_rra s) rd of
        (Inl e, rd) \<Rightarrow> (Inl e, rd)
      | (Inr (s, True), rd) \<Rightarrow> (Inr s, rd)
      | (Inr (s, False), rd) \<Rightarrow>
          (let n = row_cnt (rra_def s ! cur_rra s)
           in if n = 0 then (Inl XmlNoRows, rd)
              else (Inr (s\<lparr>rra_ptr := (rra_ptr s)[cur_rra s := rrd_random (cur_rra s) mod n]\<rparr>), rd)))"

section \<open>Data sources\<close>

definition cur_ds :: "rrd \<Rightarrow> nat" where
  "cur_ds s = dscnt s - 1"

definition upd_cur_ds :: "(ds_def_t \<Rightarrow> ds_def_t) \<Rightarrow> rrd \<Rightarrow> rrd" where
  "upd_cur_ds f s = s\<lparr>ds_def := (ds_def s)[cur_ds s := f (ds_def s ! cur_ds s)]\<rparr>"

definition upd_cur_pdp :: "(pdp_prep_t \<Rightarrow> pdp_prep_t) \<Rightarrow> rrd \<Rightarrow> rrd" where
  "upd_cur_pdp f s = s\<lparr>pdp_prep := (pdp_prep s)[cur_ds s := f (pdp_prep s ! cur_ds s)]\<rparr>"

definition parse_tag_ds_cdef :: "rrd \<Rightarrow> reader \<Rightarrow> rrd tag_step \<times> reader" where
  "parse_tag_ds_cdef s rd =
     (case get_xml_text rd of
        (Inl e, rd) \<Rightarrow> (FieldDone (Some e) s, rd)
      | (Inr t, rd) \<Rightarrow> (case parseCDEF_DS t (cur_ds s) s of (e, s) \<Rightarrow> (FieldDone (map_option XmlCdef e) s, rd)))"

definition parse_tag_ds_type :: "reader \<Rightarrow> string parsed" where
  "parse_tag_ds_type rd = convert (\<lambda>t. if dst_conv t = None then Inl XmlUnknownDst else Inr (strncpy_field 20 t)) rd"

definition ds_tag :: "string \<Rightarrow> rrd \<Rightarrow> reader \<Rightarrow> rrd tag_step \<times> reader" where
  "ds_tag el s rd =
     (if eq_ci el ''name'' then store (get_xml_string 20) (\<lambda>nam. upd_cur_ds (\<lambda>d. d\<lparr>ds_nam := nam\<rparr>)) s rd
      else if eq_ci el ''type'' then store parse_tag_ds_type (\<lambda>ty. upd_cur_ds (\<lambda>d. d\<lparr>dst := ty\<rparr>)) s rd
      else if eq_ci el ''minimal_heartbeat'' then store get_xml_ulong (\<lambda>n. upd_cur_ds (\<lambda>d. d\<lparr>mrhb_cnt := n\<rparr>)) s rd
      else if eq_ci el ''min'' then store get_xml_double (\<lambda>v. upd_cur_ds (\<lambda>d. d\<lparr>min_val := v\<rparr>)) s rd
      else if eq_ci el ''max'' then store get_xml_double (\<lambda>v. upd_cur_ds (\<lambda>d. d\<lparr>max_val := v\<rparr>)) s rd
      else if eq_ci el ''cdef'' then parse_tag_ds_cdef s rd
      else if eq_ci el ''last_ds'' then store (get_xml_string 30) (\<lambda>t. upd_cur_pdp (\<lambda>p. p\<lparr>last_ds := t\<rparr>)) s rd
      else if eq_ci el ''value'' then store get_xml_double (\<lambda>v. upd_cur_pdp (\<lambda>p. p\<lparr>pdp_val := v\<rparr>)) s rd
      else if eq_ci el ''unknown_sec'' then store get_xml_ulong (\<lambda>n. upd_cur_pdp (\<lambda>p. p\<lparr>unkn_sec_cnt := n\<rparr>)) s rd
      else if eq_ci el ''/ds'' then (EndTag, rd)
      else unknown_tag s rd)"

definition add_ds :: "rrd \<Rightarrow> rrd" where
  "add_ds s =
     s\<lparr>ds_def := take (dscnt s) (ds_def s) @ [\<lparr>ds_nam = [], dst = [], mrhb_cnt = 0, min_val = 0, max_val = 0, cdef = []\<rparr>],
       pdp_prep := take (dscnt s) (pdp_prep s) @ [\<lparr>last_ds = [], unkn_sec_cnt = 0, pdp_val = 0\<rparr>],
       stat_head := (stat_head s)\<lparr>ds_cnt := dscnt s + 1\<rparr>\<rparr>"

definition parse_tag_ds :: "rrd \<Rightarrow> reader \<Rightarrow> rrd parsed" where
  "parse_tag_ds s rd =
     (if rracnt s > 0 then (Inl XmlOrder, rd)
      else case tag_loop True ds_tag True (add_ds s) rd of (Inl e, rd) \<Rightarrow> (Inl e, rd) | (Inr (s, _), rd) \<Rightarrow> (Inr s, rd))"

section \<open>The file\<close>

definition rrd_tag :: "bool \<Rightarrow> (nat \<Rightarrow> nat) \<Rightarrow> string \<Rightarrow> rrd \<Rightarrow> reader \<Rightarrow> rrd tag_step \<times> reader" where
  "rrd_tag rc rrd_random el s rd =
     (if eq_ci el ''version'' then store (get_xml_string 5) (\<lambda>t s. s\<lparr>stat_head := (stat_head s)\<lparr>version := t\<rparr>\<rparr>) s rd
      else if eq_ci el ''step'' then store get_xml_ulong (\<lambda>n s. s\<lparr>stat_head := (stat_head s)\<lparr>pdp_step := n\<rparr>\<rparr>) s rd
      else if eq_ci el ''lastupdate'' then store get_xml_time_t (\<lambda>t s. s\<lparr>live_head := (live_head s)\<lparr>last_up := t\<rparr>\<rparr>) s rd
      else if eq_ci el ''ds'' then block (parse_tag_ds s rd)
      else if eq_ci el ''rra'' then block (parse_tag_rra rc rrd_random s rd)
      else if eq_ci el ''/rrd'' then (EndTag, rd)
      else unknown_tag s rd)"

definition rrd_cleared :: rrd where
  "rrd_cleared = \<lparr>stat_head = \<lparr>version = [], ds_cnt = 0, rra_cnt = 0, pdp_step = 0\<rparr>, ds_def = [], rra_def = [],
     live_head = \<lparr>last_up = 0, last_up_usec = 0\<rparr>, legacy_last_up = None, pdp_prep = [], cdp_prep = [], rra_ptr = [], rrd_value = [],
     pos = 0, pcdp_summary = None\<rparr>"

definition parse_tag_rrd :: "bool \<Rightarrow> (nat \<Rightarrow> nat) \<Rightarrow> rrd \<Rightarrow> reader \<Rightarrow> rrd parsed" where
  "parse_tag_rrd rc rrd_random s rd =
     (case tag_loop True (rrd_tag rc rrd_random) True s rd of (Inl e, rd) \<Rightarrow> (Inl e, rd) | (Inr (s, _), rd) \<Rightarrow> (Inr s, rd))"

definition parse_file :: "bool \<Rightarrow> (nat \<Rightarrow> nat) \<Rightarrow> xml_node list \<Rightarrow> restore_error + rrd" where
  "parse_file rc rrd_random ns =
     (case expect_element ''rrd'' (None, ns) of
        (Inl e, _) \<Rightarrow> Inl e
      | (Inr _, rd) \<Rightarrow> fst (parse_tag_rrd rc rrd_random rrd_cleared rd))"

text \<open>The rows of each archive, which were read in the order of time, go into the ring with the last one at the current row.\<close>

fun rotated_values :: "nat \<Rightarrow> (nat \<times> nat) list \<Rightarrow> dbl list \<Rightarrow> nat \<Rightarrow> dbl list" where
  "rotated_values w [] vs rra_offset = []"
| "rotated_values w ((num_rows, cur_row) # rs) vs rra_offset =
     (if num_rows > 0
      then take ((cur_row + 1) * w) (drop ((rra_offset + num_rows - 1 - cur_row) * w) vs) @
           take ((num_rows - 1 - cur_row) * w) (drop (rra_offset * w) vs) @ rotated_values w rs vs (rra_offset + num_rows)
      else rotated_values w rs vs rra_offset)"

definition write_file :: "rrd \<Rightarrow> rrd" where
  "write_file s =
     s\<lparr>stat_head := (if atoi (version (stat_head s)) < 3 then (stat_head s)\<lparr>version := ''0003''\<rparr> else stat_head s),
       rrd_value := rotated_values (dscnt s) (zip (map row_cnt (rra_def s)) (rra_ptr s)) (rrd_value s) 0\<rparr>"

definition rrd_restore :: "bool \<Rightarrow> (nat \<Rightarrow> nat) \<Rightarrow> xml_node list \<Rightarrow> restore_error + rrd" where
  "rrd_restore rc rrd_random ns = (case parse_file rc rrd_random ns of Inl e \<Rightarrow> Inl e | Inr s \<Rightarrow> Inr (write_file s))"

section \<open>Every loop ends\<close>

text \<open>
  What the loop relies on: a handler goes forward in the document, if it moves at all, and does not report a standstill. Then
  a loop consumes at least one node in each round, and does not report one either.
\<close>

definition forward :: "(reader \<Rightarrow> 'a parsed) \<Rightarrow> bool" where
  "forward f \<longleftrightarrow> (\<forall>rd. left (snd (f rd)) \<le> left rd \<and> fst (f rd) \<noteq> Inl XmlStuck)"

fun step_ok :: "'s tag_step \<Rightarrow> bool" where
  "step_ok (FieldDone e s) \<longleftrightarrow> e \<noteq> Some XmlStuck"
| "step_ok (BlockDone r) \<longleftrightarrow> r \<noteq> Inl XmlStuck"
| "step_ok EndTag \<longleftrightarrow> True"

lemma forwardD: "forward f \<Longrightarrow> f rd = (r, rd') \<Longrightarrow> left rd' \<le> left rd \<and> r \<noteq> Inl XmlStuck"
  unfolding forward_def by (metis fst_conv snd_conv)

lemma forwardI: "(\<And>rd r rd'. f rd = (r, rd') \<Longrightarrow> left rd' \<le> left rd \<and> r \<noteq> Inl XmlStuck) \<Longrightarrow> forward f"
  unfolding forward_def by (metis prod.collapse)

lemma next_element_shorter:
  "length (snd (snd (next_element ns))) \<le> length ns" "fst (next_element ns) \<noteq> Inl XmlStuck"
  "fst (next_element ns) = Inr el \<Longrightarrow> length (snd (snd (next_element ns))) < length ns"
  by (induction ns rule: next_element.induct) auto

lemma next_text_shorter: "length (snd (snd (next_text ns))) \<le> length ns" "fst (next_text ns) \<noteq> Inl XmlStuck"
  by (induction ns rule: next_text.induct) auto

lemma forward_element: "forward get_xml_element"
  using next_element_shorter by (simp add: forward_def get_xml_element_def left_def)

lemma element_shorter: "get_xml_element rd = (Inr el, rd') \<Longrightarrow> left rd' < left rd"
  using next_element_shorter(3) [of "snd rd" el] by (simp add: get_xml_element_def left_def)

lemma forward_expect: "forward (expect_element nam)"
proof (rule forwardI)
  fix rd r rd'
  assume "expect_element nam rd = (r, rd')"
  then show "left rd' \<le> left rd \<and> r \<noteq> Inl XmlStuck"
    using forwardD [OF forward_element, of rd] by (auto simp: expect_element_def split: prod.splits sum.splits if_splits)
qed

lemma forward_expect_end: "forward (expect_element_end nam)"
proof (rule forwardI)
  fix rd r rd'
  assume "expect_element_end nam rd = (r, rd')"
  then show "left rd' \<le> left rd \<and> r \<noteq> Inl XmlStuck"
    using forwardD [OF forward_element, of rd]
    by (auto simp: expect_element_end_def split: prod.splits sum.splits if_splits option.splits xml_node.splits)
qed

lemma forward_bind:
  assumes "forward f" and "\<And>v. forward (g v)"
  shows "forward (\<lambda>rd. case f rd of (Inl e, rd) \<Rightarrow> (Inl e, rd) | (Inr v, rd) \<Rightarrow> g v rd)"
proof (rule forwardI)
  fix rd r rd'
  assume eq: "(case f rd of (Inl e, rd) \<Rightarrow> (Inl e, rd) | (Inr v, rd) \<Rightarrow> g v rd) = (r, rd')"
  obtain x rd1 where x: "f rd = (x, rd1)" by (rule prod.exhaust)
  show "left rd' \<le> left rd \<and> r \<noteq> Inl XmlStuck"
    using eq x forwardD [OF assms(1) x] forwardD [OF assms(2), of _ rd1 r rd'] by (cases x) fastforce+
qed

lemma forward_return [simp]: "forward (\<lambda>rd. (Inr v, rd))" "e \<noteq> XmlStuck \<Longrightarrow> forward (\<lambda>rd. (Inl e, rd))"
  by (simp_all add: forward_def)

lemma forward_convert: "(\<And>t. f t \<noteq> Inl XmlStuck) \<Longrightarrow> forward (convert f)"
proof (rule forwardI)
  fix rd r rd'
  assume "\<And>t. f t \<noteq> Inl XmlStuck" and "convert f rd = (r, rd')"
  then show "left rd' \<le> left rd \<and> r \<noteq> Inl XmlStuck"
    using next_text_shorter [of "snd rd"] by (auto simp: convert_def get_xml_text_def left_def split: prod.splits sum.splits)
qed

locale tag_handler =
  fixes h :: "string \<Rightarrow> 's \<Rightarrow> reader \<Rightarrow> 's tag_step \<times> reader"
  assumes handler_forward: "left (snd (h el s rd)) \<le> left rd"
    and handler_step: "step_ok (fst (h el s rd))"
begin

lemma loop_forward: "left (snd (tag_loop strict h ok s rd)) \<le> left rd \<and> fst (tag_loop strict h ok s rd) \<noteq> Inl XmlStuck"
proof (induction "left rd" arbitrary: ok s rd rule: less_induct)
  case less
  show ?case
  proof -
    obtain r rd1 where Pair: "get_xml_element rd = (r, rd1)" by (rule prod.exhaust)
    show ?thesis
    proof (cases r)
      case (Inl e)
      then show ?thesis using Pair forwardD [OF forward_element Pair] by (simp add: tag_loop.simps)
    next
      case (Inr el)
      have lt: "left rd1 < left rd" using element_shorter Pair Inr by simp
      obtain st rd2 where h: "h el s rd1 = (st, rd2)" by (rule prod.exhaust)
      have rd2: "left rd2 \<le> left rd1" and st: "step_ok st" using handler_forward [of el s rd1] handler_step [of el s rd1] h by simp_all
      have IH: "left (snd (tag_loop strict h ok' s' rd')) \<le> left rd \<and> fst (tag_loop strict h ok' s' rd') \<noteq> Inl XmlStuck"
        if "left rd' < left rd" for ok' s' rd'
        using less.hyps [OF that, of ok' s'] that by simp
      show ?thesis
      proof (cases st)
        case EndTag
        then show ?thesis using Pair Inr h rd2 lt by (simp add: tag_loop.simps [of _ _ _ _ rd])
      next
        case (BlockDone b)
        then show ?thesis using Pair Inr h rd2 lt st IH [of rd2] by (cases b) (simp_all add: tag_loop.simps [of _ _ _ _ rd])
      next
        case (FieldDone e s')
        obtain x rd3 where x: "expect_element_end el rd2 = (x, rd3)" by (rule prod.exhaust)
        have "left rd3 \<le> left rd2 \<and> x \<noteq> Inl XmlStuck" using forwardD [OF forward_expect_end x] .
        then show ?thesis
          using Pair Inr h rd2 lt st FieldDone x IH [of rd3]
          by (cases x; cases e) (auto simp: tag_loop.simps [of _ _ _ _ rd])
      qed
    qed
  qed
qed

lemma loop_result: "tag_loop strict h ok s rd = (r, rd') \<Longrightarrow> left rd' \<le> left rd \<and> r \<noteq> Inl XmlStuck"
  using loop_forward [of strict ok s rd] by simp

end

lemma forward_values: "forward get_xml_double" "forward get_xml_ulong" "forward get_xml_time_t" "forward (get_xml_string n)"
  "forward parse_tag_ds_type" "forward (convert text_history)"
proof -
  have "(if dst_conv t = None then Inl XmlUnknownDst else Inr (strncpy_field 20 t)) \<noteq> Inl XmlStuck" for t by simp
  moreover have "text_double t \<noteq> Inl XmlStuck" "text_ulong t \<noteq> Inl XmlStuck" "text_time_t t \<noteq> Inl XmlStuck" "text_history t \<noteq> Inl XmlStuck" for t
    by (simp_all add: text_double_def text_ulong_def text_time_t_def text_history_def Let_def split: prod.splits)
  ultimately show "forward get_xml_double" "forward get_xml_ulong" "forward get_xml_time_t" "forward (get_xml_string n)"
    "forward parse_tag_ds_type" "forward (convert text_history)"
    unfolding get_xml_double_def [abs_def] get_xml_ulong_def [abs_def] get_xml_time_t_def [abs_def] get_xml_string_def [abs_def]
      parse_tag_ds_type_def [abs_def]
    by (auto intro!: forward_convert)
qed

lemma forward_cf: "forward parse_tag_rra_cf"
proof (rule forwardI)
  fix rd r rd'
  assume "parse_tag_rra_cf rd = (r, rd')"
  then show "left rd' \<le> left rd \<and> r \<noteq> Inl XmlStuck"
    using forwardD [OF forward_values(4), of 20 rd] by (auto simp: parse_tag_rra_cf_def split: prod.splits sum.splits if_splits)
qed

text \<open>What a step of a handler does, for the three kinds of handlers.\<close>

definition good_step :: "reader \<Rightarrow> 's tag_step \<times> reader \<Rightarrow> bool" where
  "good_step rd r \<longleftrightarrow> left (snd r) \<le> left rd \<and> step_ok (fst r)"

lemma good_steps [simp]:
  "forward get \<Longrightarrow> good_step rd (store get put s rd)" "good_step rd (unknown_tag s rd)" "good_step rd (EndTag, rd)"
  "forward f \<Longrightarrow> good_step rd (block (f rd))"
proof -
  show "good_step rd (unknown_tag s rd)" "good_step rd (EndTag, rd)" by (simp_all add: good_step_def unknown_tag_def)
  show "good_step rd (store get put s rd)" if "forward get"
    using forwardD [OF that, of rd] by (auto simp: good_step_def store_def split: prod.splits sum.splits)
  show "good_step rd (block (f rd))" if "forward f"
    using forwardD [OF that, of rd] by (auto simp: good_step_def block_def split: prod.splits)
qed

lemma tag_handlerI: "(\<And>el s rd. good_step rd (h el s rd)) \<Longrightarrow> tag_handler h"
  by (simp add: tag_handler_def good_step_def)

lemma good_compat: "good_step rd (compat_values is r rd)"
proof (induction "is" arbitrary: r rd)
  case (Cons i "is")
  let ?st = "if i = 3 \<or> i = 4 \<or> i = 5 then store get_xml_ulong (set_par_cnt i) r rd else store get_xml_double (set_par_dbl i) r rd"
  have g: "good_step rd ?st" using forward_values by simp
  obtain st rd1 where st: "?st = (st, rd1)" by (rule prod.exhaust)
  have rd1: "left rd1 \<le> left rd" "step_ok st" using g st by (simp_all add: good_step_def)
  have mono: "good_step rd1 x \<Longrightarrow> good_step rd x" for x :: "rra_def_t tag_step \<times> reader" using rd1(1) by (simp add: good_step_def)
  show ?case
  proof (cases st)
    case (FieldDone e r')
    show ?thesis
    proof (cases "e = None \<and> 1 \<le> i")
      case True
      obtain x rd2 where x: "expect_element ''/value'' rd1 = (x, rd2)" by (rule prod.exhaust)
      have x2: "left rd2 \<le> left rd1" "x \<noteq> Inl XmlStuck" using forwardD [OF forward_expect x] by simp_all
      obtain y rd3 where y: "expect_element ''value'' rd2 = (y, rd3)" by (rule prod.exhaust)
      have y2: "left rd3 \<le> left rd2" "y \<noteq> Inl XmlStuck" using forwardD [OF forward_expect y] by simp_all
      have "good_step rd (compat_values is r' rd3)" using Cons [of rd3 r'] rd1 x2 y2 by (simp add: good_step_def)
      then show ?thesis using True st FieldDone x y x2 y2 rd1 by (cases x; cases y) (simp_all add: good_step_def)
    next
      case False
      then show ?thesis using st FieldDone rd1 mono [OF Cons] by (cases e) (auto simp: good_step_def)
    qed
  next
    case EndTag
    then show ?thesis using st rd1 by (simp add: good_step_def)
  next
    case (BlockDone b)
    then show ?thesis using st rd1 by (simp add: good_step_def)
  qed
qed (simp add: good_step_def)

interpretation params: tag_handler params_tag
  by (rule tag_handlerI) (simp add: params_tag_def forward_values good_compat)

interpretation cdp_ds: tag_handler cdp_ds_tag
  by (rule tag_handlerI) (simp add: cdp_ds_tag_def forward_values)

lemma forward_row: "forward (parse_tag_rra_database_row rc ds)"
proof (induction ds)
  case Nil
  have "parse_tag_rra_database_row rc [] = (\<lambda>rd. (Inr [], rd))" by (rule ext) simp
  then show ?case by simp
next
  case (Cons d ds)
  show ?case
    unfolding parse_tag_rra_database_row.simps(2) [abs_def]
    by (intro forward_bind forward_expect forward_values Cons forward_return)
qed

lemma good_database: "good_step rd (database_tag rc el ts rd)"
proof -
  obtain n s where ts: "ts = (n, s)" by fastforce
  obtain x rd1 where x: "parse_tag_rra_database_row rc (take (dscnt s) (ds_def s)) rd = (x, rd1)" by (rule prod.exhaust)
  obtain y rd2 where y: "expect_element ''/row'' rd1 = (y, rd2)" by (rule prod.exhaust)
  show ?thesis
    using x y forwardD [OF forward_row x] forwardD [OF forward_expect y]
    by (cases x; cases y) (auto simp: database_tag_def ts good_step_def unknown_tag_def)
qed

interpretation database: tag_handler "database_tag rc"
  by (rule tag_handlerI) (rule good_database)

lemma forward_cdp_ds: "forward parse_tag_rra_cdp_prep_ds"
proof (rule forwardI)
  fix rd r rd'
  assume "parse_tag_rra_cdp_prep_ds rd = (r, rd')"
  then show "left rd' \<le> left rd \<and> r \<noteq> Inl XmlStuck"
    using cdp_ds.loop_result [of True False cdp_cleared rd] by (auto simp: parse_tag_rra_cdp_prep_ds_def split: prod.splits sum.splits)
qed

lemma forward_cdp_blocks: "forward (cdp_prep_blocks is s)"
proof (induction "is" arbitrary: s)
  case Nil
  have "cdp_prep_blocks [] s = (\<lambda>rd. (Inr s, rd))" by (rule ext) simp
  then show ?case by simp
next
  case (Cons i "is")
  show ?case
    unfolding cdp_prep_blocks.simps(2) [abs_def] by (intro forward_bind forward_expect forward_cdp_ds Cons)
qed

lemma forward_blocks:
  "forward (parse_tag_rra_params s)" "forward (parse_tag_rra_cdp_prep s)" "forward (parse_tag_rra_database rc s)"
proof -
  show "forward (parse_tag_rra_params s)"
  proof (rule forwardI)
    fix rd r rd'
    assume "parse_tag_rra_params s rd = (r, rd')"
    then show "left rd' \<le> left rd \<and> r \<noteq> Inl XmlStuck"
      using params.loop_result [of False False "rra_def s ! cur_rra s" rd] by (auto simp: parse_tag_rra_params_def split: prod.splits sum.splits)
  qed
  show "forward (parse_tag_rra_cdp_prep s)"
    unfolding parse_tag_rra_cdp_prep_def [abs_def] by (intro forward_bind forward_expect forward_cdp_blocks forward_return)
  show "forward (parse_tag_rra_database rc s)"
  proof (rule forwardI)
    fix rd r rd'
    assume "parse_tag_rra_database rc s rd = (r, rd')"
    then show "left rd' \<le> left rd \<and> r \<noteq> Inl XmlStuck"
      using database.loop_result [of True rc True "(sum_list (map row_cnt (take (cur_rra s) (rra_def s))), s)" rd]
      by (auto simp: parse_tag_rra_database_def split: prod.splits sum.splits)
  qed
qed

interpretation rra: tag_handler "rra_tag rc"
  by (rule tag_handlerI) (simp add: rra_tag_def Let_def forward_values forward_cf forward_blocks)

lemma forward_rra: "forward (parse_tag_rra rc rnd s)"
proof (rule forwardI)
  fix rd r rd'
  assume "parse_tag_rra rc rnd s rd = (r, rd')"
  then show "left rd' \<le> left rd \<and> r \<noteq> Inl XmlStuck"
    using rra.loop_result [of True rc True "add_rra s" rd]
    by (auto simp: parse_tag_rra_def Let_def split: prod.splits sum.splits bool.splits if_splits)
qed

interpretation ds: tag_handler ds_tag
proof (rule tag_handlerI)
  fix el s rd
  have "good_step rd (parse_tag_ds_cdef s rd)"
    using next_text_shorter [of "snd rd"]
    by (auto simp: parse_tag_ds_cdef_def good_step_def get_xml_text_def left_def split: prod.splits sum.splits)
  then show "good_step rd (ds_tag el s rd)" by (simp add: ds_tag_def forward_values)
qed

lemma forward_ds: "forward (parse_tag_ds s)"
proof (rule forwardI)
  fix rd r rd'
  assume "parse_tag_ds s rd = (r, rd')"
  then show "left rd' \<le> left rd \<and> r \<noteq> Inl XmlStuck"
    using ds.loop_result [of True True "add_ds s" rd] by (auto simp: parse_tag_ds_def split: prod.splits sum.splits if_splits)
qed

interpretation top: tag_handler "rrd_tag rc rnd"
  by (rule tag_handlerI) (simp add: rrd_tag_def forward_values forward_ds forward_rra)

text \<open>
  C15: restoring ends for every sequence of nodes that the reader delivers, which is what it makes of a well-formed document. The
  loops of the parser have no bound of their own: \<open>tag_loop\<close> gives \<open>XmlStuck\<close> where a round has not consumed a node, at which the loop of the
  program would be in the same place again. No handler of the parser ever gets there: each round of each loop, with whatever the
  blocks inside it read or refuse, leaves fewer nodes. (When the document breaks off with an error of the reader, the program itself
  does not end; this is outside of the sequences of nodes.)
\<close>

theorem rrd_restore_terminates: "rrd_restore rc rnd ns \<noteq> Inl XmlStuck"
proof -
  obtain r rd where r: "parse_tag_rrd rc rnd rrd_cleared (snd (expect_element ''rrd'' (None, ns))) = (r, rd)" by (rule prod.exhaust)
  then have "r \<noteq> Inl XmlStuck"
    using top.loop_result [of True rc rnd True rrd_cleared "snd (expect_element ''rrd'' (None, ns))"]
    by (auto simp: parse_tag_rrd_def split: prod.splits sum.splits)
  then show ?thesis
    using r forwardD [OF forward_expect, of "''rrd''" "(None, ns)"]
    by (cases "expect_element ''rrd'' (None, ns)") (auto simp: rrd_restore_def parse_file_def split: sum.splits)
qed

end
