(* ===== verification/Dump_Restore.thy ===== *)
theory Dump_Restore
  imports Restore
begin

text \<open>
  A database that is dumped and restored: the parser of \<open>rrd_restore.c\<close> applied to the nodes that \<open>rrd_dump.c\<close> writes. The result has
  the same data sources and archives, and its archives hold the same rows in the order of time; numbers have gone
  through their decimal form. What the XML form does not have (the microseconds of the last update, the fields of a preparation
  area that its consolidation function does not use, the current rows) is cleared.
\<close>

section \<open>Texts\<close>

definition word :: "string \<Rightarrow> bool" where
  "word t \<longleftrightarrow> list_all (\<lambda>c. \<not> isspace c) t"

lemma first_word_id: "word t \<Longrightarrow> first_word t = t"
proof -
  assume w: "word t"
  then have "dropWhile isspace t = t" by (cases t) (simp_all add: word_def)
  with w show ?thesis by (simp add: first_word_def word_def takeWhile_all)
qed

lemma space_isspace: "isspace (CHR '' '')"
  by code_simp

lemma first_word_spaced: "word t \<Longrightarrow> first_word (spaced t) = t"
proof -
  assume w: "word t"
  show ?thesis
  proof (cases t)
    case Nil
    then show ?thesis by (simp add: first_word_def spaced_def space_isspace)
  next
    case (Cons c cs)
    then have "dropWhile isspace (spaced t) = t @ '' ''" using w by (simp add: spaced_def space_isspace word_def)
    then show ?thesis using w by (simp add: first_word_def word_def takeWhile_append space_isspace list_all_iff)
  qed
qed

lemma word_show_nat: "word (show_nat n)"
  using show_nat_digits [of n] is_digit_not_space by (auto simp: word_def list_all_iff)

lemma word_show_int: "word (show_int i)"
proof -
  have "\<not> isspace (CHR ''-'')" by code_simp
  then show ?thesis using word_show_nat by (simp add: show_int_def word_def)
qed

text \<open>Whole numbers.\<close>

lemma base0_show_nat: "base0_num (show_nat n) = (False, int n)"
proof -
  obtain d ds where d: "show_nat n = d # ds" by (cases "show_nat n") auto
  have dig: "list_all is_digit (d # ds)" using show_nat_digits [of n] d by simp
  then have sign: "strip_sign (dropWhile isspace (show_nat n)) = (False, show_nat n)"
    using is_digit_not_space [of d] is_digit_chars [of d] by (simp add: d strip_sign_def)
  have "strip_prefix_ci ''0x'' (show_nat n) = None"
  proof (cases ds)
    case (Cons e es)
    then have "is_digit e" using dig by simp
    then show ?thesis using is_digit_chars is_digit_lower by (simp add: d Cons)
  qed (simp add: d)
  moreover have "oct_num (takeWhile is_oct (show_nat n)) = int n" if "hd (show_nat n) = CHR ''0''"
  proof -
    have n0: "n = 0" using that show_nat_head [of n] by auto
    have "char_of (48 :: nat) = CHR ''0''" by code_simp
    then have "show_nat n = ''0''" by (simp add: n0 show_nat.simps [of 0])
    then show ?thesis by (simp add: n0 is_oct_def code_def oct_num_def digit_val_def)
  qed
  moreover have "dec_val (takeWhile is_digit (show_nat n)) = int n"
    unfolding takeWhile_all [OF show_nat_digits] by (rule dec_val_show_nat)
  ultimately show ?thesis using sign by (simp add: base0_num_def)
qed

lemma base0_minus: "base0_num (CHR ''-'' # show_nat n) = (True, int n)"
proof -
  have s: "\<not> isspace (CHR ''-'')" by code_simp
  obtain d ds where d: "show_nat n = d # ds" by (cases "show_nat n") auto
  have dig: "is_digit d" using show_nat_digits [of n] d by simp
  have "strip_sign (dropWhile isspace (show_nat n)) = (False, show_nat n)"
    using dig is_digit_not_space [of d] is_digit_chars [of d] by (simp add: d strip_sign_def)
  moreover have "strip_sign (dropWhile isspace (CHR ''-'' # show_nat n)) = (True, show_nat n)" using s by (simp add: strip_sign_def)
  ultimately show ?thesis using base0_show_nat [of n] by (simp add: base0_num_def split: option.splits if_splits)
qed

lemma text_ulong_show: "n < 2 ^ 64 \<Longrightarrow> text_ulong (show_nat n) = Inr n"
  by (simp add: text_ulong_def base0_show_nat)

lemma text_time_show:
  assumes "- (2 ^ 63) \<le> i" and "i < 2 ^ 63"
  shows "text_time_t (show_int i) = Inr i"
  using assms base0_show_nat [of "nat i"] base0_minus [of "nat (- i)"] by (simp add: text_time_t_def show_int_def)

text \<open>Doubles: none of the characters of a number is in the words that the parser looks for first.\<close>

lemma contains_ci_char:
  assumes "contains_ci t w" and "c \<in> set (map lower w)"
  shows "c \<in> set (map lower t)"
proof -
  obtain i where i: "map lower (take (length w) (drop i t)) = map lower w" using assms(1) by (auto simp: contains_ci_def list_ex_iff)
  have "c \<in> set (map lower (take (length w) (drop i t)))" using assms(2) unfolding i .
  then show ?thesis by (auto dest: in_set_takeD in_set_dropD)
qed

definition num_char :: "char \<Rightarrow> bool" where
  "num_char c \<longleftrightarrow> is_digit c \<or> c = CHR ''-'' \<or> c = CHR ''+'' \<or> c = CHR ''.'' \<or> c = CHR ''e''"

lemma num_char_lower: "num_char c \<Longrightarrow> lower c = c \<and> \<not> isspace c \<and> c \<noteq> CHR ''n''"
proof -
  have "lower (CHR ''-'') = CHR ''-''" "lower (CHR ''+'') = CHR ''+''" "lower (CHR ''.'') = CHR ''.''" "lower (CHR ''e'') = CHR ''e''"
    "\<not> isspace (CHR ''-'')" "\<not> isspace (CHR ''+'')" "\<not> isspace (CHR ''.'')" "\<not> isspace (CHR ''e'')" "\<not> is_digit (CHR ''n'')" by code_simp+
  then show "num_char c \<Longrightarrow> lower c = c \<and> \<not> isspace c \<and> c \<noteq> CHR ''n''"
    using is_digit_lower [of c] is_digit_not_space [of c] by (auto simp: num_char_def)
qed

lemma e10_chars:
  assumes "list_all is_digit ds" and "ds \<noteq> []"
  shows "list_all num_char (e10_text neg ds e)"
proof -
  have "list_all num_char ds" using assms(1) by (simp add: list_all_iff num_char_def)
  moreover have "list_all num_char (show_nat n)" for n using show_nat_digits [of n] by (simp add: list_all_iff num_char_def)
  moreover have "is_digit (CHR ''0'')" by code_simp
  ultimately show ?thesis
    using assms(2) by (cases ds) (auto simp: e10_text_def show_exp_def Let_def num_char_def)
qed

lemma printf_chars: "dfinite x \<Longrightarrow> list_all num_char (printf_e10 x)"
proof -
  assume f: "dfinite x"
  have "list_all is_digit ''00000000000''" by (simp add: is_digit_def)
  then show ?thesis
    using f e10_chars show_nat_digits by (cases x) (auto simp: printf_e10_def split: prod.splits)
qed

lemma text_double_printf:
  assumes "printable x"
  shows "text_double (printf_e10 x) = Inr (reread x)" and "word (printf_e10 x)" and "printf_e10 x \<noteq> []"
proof -
  have low: "lower (CHR ''n'') = CHR ''n''" by code_simp
  have "text_double (printf_e10 x) = Inr (reread x) \<and> word (printf_e10 x)"
  proof (cases "dfinite x")
    case True
    note ch = printf_chars [OF True]
    have "CHR ''n'' \<notin> set (map lower (printf_e10 x))" using ch num_char_lower by (fastforce simp: list_all_iff)
    then have no: "\<not> contains_ci (printf_e10 x) w" if "CHR ''n'' \<in> set w" for w
      using contains_ci_char [of "printf_e10 x" w "CHR ''n''"] that low by (metis image_eqI list.set_map)
    have "text_double (printf_e10 x) = Inr (reread x)"
      using strtod_printf_e10 [OF assms True] no [of "''nan''"] no [of "''-inf''"] no [of "''+inf''"] no [of "''inf''"]
      by (simp add: text_double_def)
    then show ?thesis using ch num_char_lower by (auto simp: word_def list_all_iff)
  next
    case False
    have "text_double ''nan'' = Inr NaN" "text_double ''inf'' = Inr PInf" "text_double ''-inf'' = Inr NInf" by code_simp+
    moreover have "word ''nan''" "word ''inf''" "word ''-inf''" by code_simp+
    ultimately show ?thesis using False by (cases x) (simp_all add: printf_e10_def reread_def)
  qed
  then show "text_double (printf_e10 x) = Inr (reread x)" and "word (printf_e10 x)" by simp_all
  show "printf_e10 x \<noteq> []" by (simp add: printf_e10_def e10_text_def split: dbl.splits prod.splits)
qed

lemma text_double_dump:
  assumes "printable x"
  shows "text_double (dump_double x) = Inr (reread x)" and "word (dump_double x)" and "dump_double x \<noteq> []"
proof -
  have "text_double ''NaN'' = Inr NaN" "word ''NaN''" by code_simp+
  then show "text_double (dump_double x) = Inr (reread x)" and "word (dump_double x)" and "dump_double x \<noteq> []"
    using text_double_printf [OF assms] by (auto simp: dump_double_def isnan_def reread_def)
qed

section \<open>One step of the loop\<close>

definition blanks :: "xml_node list \<Rightarrow> bool" where
  "blanks os \<longleftrightarrow> list_all (\<lambda>n. \<exists>t. n = Other t) os"

lemma blanks_simps [simp]: "blanks []" "blanks (Other t # os) = blanks os" "blanks (nl # os) = blanks os" "blanks (tabs k # os) = blanks os"
  "blanks (os @ os') \<longleftrightarrow> blanks os \<and> blanks os'"
  by (auto simp: blanks_def nl_def tabs_def)

lemma next_element_blanks: "blanks os \<Longrightarrow> next_element (os @ ns) = next_element ns"
  by (induction os) (auto simp: blanks_def)

lemma next_text_blanks: "blanks os \<Longrightarrow> next_text (os @ ns) = next_text ns"
  by (induction os) (auto simp: blanks_def)

text \<open>The loop looks only at the nodes that follow.\<close>

lemma tag_loop_cur: "tag_loop strict h ok s (c, ns) = tag_loop strict h ok s (None, ns)"
proof -
  have e: "get_xml_element (c, ns) = get_xml_element (None, ns)" "left (c, ns) = left (None, ns)"
    by (simp_all add: get_xml_element_def left_def)
  show ?thesis unfolding tag_loop.simps [of strict h ok s "(c, ns)"] tag_loop.simps [of strict h ok s "(None, ns)"] e by (rule refl)
qed

text \<open>A handler that takes the text of an element into the state and leaves the end tag.\<close>

definition takes :: "(string \<Rightarrow> 's \<Rightarrow> reader \<Rightarrow> 's tag_step \<times> reader) \<Rightarrow> string \<Rightarrow> string \<Rightarrow> 's \<Rightarrow> 's \<Rightarrow> bool" where
  "takes h tag t s s' \<longleftrightarrow>
     (\<forall>c ns. \<exists>c' ns'. h tag s (c, text_node t @ EndElement tag # ns) = (FieldDone None s', c', ns') \<and>
        expect_element_end tag (c', ns') = (Inr (), Some (EndElement tag), ns))"

lemma convert_elem:
  "\<exists>c' ns'. convert f (c, text_node t @ EndElement tag # ns) = (f (first_word t), c', ns') \<and>
     expect_element_end tag (c', ns') = (Inr (), Some (EndElement tag), ns)"
proof (cases "t = [] \<or> list_all isspace t")
  case True
  then have d: "dropWhile isspace t = []" by (auto simp: list_all_iff)
  have "first_word t = []" unfolding first_word_def d by simp
  then show ?thesis
    using True by (auto simp: convert_def get_xml_text_def text_node_def expect_element_end_def eq_ci_def)
next
  case False
  then show ?thesis
    by (auto simp: convert_def get_xml_text_def text_node_def expect_element_end_def eq_ci_def get_xml_element_def)
qed

lemma takes_store:
  assumes "\<And>s rd. h tag s rd = store (convert f) put s rd" and "f (first_word t) = Inr v"
  shows "takes h tag t s (put v s)"
  unfolding takes_def
proof (intro allI)
  fix c ns
  obtain c' ns' where c: "convert f (c, text_node t @ EndElement tag # ns) = (f (first_word t), c', ns')"
    "expect_element_end tag (c', ns') = (Inr (), Some (EndElement tag), ns)" using convert_elem by blast
  then show "\<exists>c' ns'. h tag s (c, text_node t @ EndElement tag # ns) = (FieldDone None (put v s), c', ns') \<and>
      expect_element_end tag (c', ns') = (Inr (), Some (EndElement tag), ns)"
    using assms by (auto simp: store_def)
qed

lemma loop_elem:
  assumes t: "takes h tag t s s'" and os: "blanks os"
  shows "tag_loop strict h ok s (c, os @ elem tag t @ ns) = tag_loop strict h True s' (None, ns)"
proof -
  obtain c' ns' where
    h: "h tag s (Some (Element tag []), text_node t @ EndElement tag # ns) = (FieldDone None s', c', ns')"
      "expect_element_end tag (c', ns') = (Inr (), Some (EndElement tag), ns)"
    using t unfolding takes_def by blast
  have "get_xml_element (c, os @ elem tag t @ ns) = (Inr tag, Some (Element tag []), text_node t @ EndElement tag # ns)"
    using os by (simp add: get_xml_element_def next_element_blanks elem_def)
  moreover have "left (Some (EndElement tag), ns) < left (c, os @ elem tag t @ ns)" by (simp add: left_def elem_def)
  ultimately show ?thesis
    using h by (simp add: tag_loop.simps [of strict h ok s "(c, os @ elem tag t @ ns)"] tag_loop_cur [of strict h True s' "Some (EndElement tag)" ns])
qed

fun takes_all :: "(string \<Rightarrow> 's \<Rightarrow> reader \<Rightarrow> 's tag_step \<times> reader) \<Rightarrow> (string \<times> string) list \<Rightarrow> 's \<Rightarrow> 's \<Rightarrow> bool" where
  "takes_all h [] s s' \<longleftrightarrow> s' = s"
| "takes_all h ((tag, t) # fs) s s' \<longleftrightarrow> (\<exists>u. takes h tag t s u \<and> takes_all h fs u s')"

lemma takes_all_Cons: "takes h tag t s u \<Longrightarrow> takes_all h fs u s' \<Longrightarrow> takes_all h ((tag, t) # fs) s s'"
  by auto

lemma takes_all_append: "takes_all h fs s u \<Longrightarrow> takes_all h gs u s' \<Longrightarrow> takes_all h (fs @ gs) s s'"
  by (induction fs arbitrary: s) (auto, blast)

lemma loop_fields:
  assumes "takes_all h fs s s'" and "fs \<noteq> []" and "blanks os"
  shows "tag_loop strict h ok s (c, os @ xml_fields n fs @ ns) = tag_loop strict h True s' (None, nl # ns)"
  using assms
proof (induction fs arbitrary: s os ok c)
  case (Cons f fs)
  obtain tag t where f: "f = (tag, t)" by fastforce
  obtain u where u: "takes h tag t s u" "takes_all h fs u s'" using Cons.prems(1) f by auto
  have "os @ xml_fields n (f # fs) @ ns = (os @ [tabs n]) @ elem tag t @ (nl # xml_fields n fs @ ns)" by (simp add: xml_fields_def field_def f)
  then have step: "tag_loop strict h ok s (c, os @ xml_fields n (f # fs) @ ns) = tag_loop strict h True u (None, nl # xml_fields n fs @ ns)"
    using loop_elem [OF u(1), of "os @ [tabs n]"] Cons.prems(3) by simp
  show ?case
  proof (cases "fs = []")
    case True
    then show ?thesis using step u(2) by (simp add: xml_fields_def)
  next
    case False
    then show ?thesis using step Cons.IH [OF u(2) False, of "[nl]" True None] by simp
  qed
qed simp

lemma loop_end:
  assumes "blanks os" and "\<And>rd. h (CHR ''/'' # tag) s rd = (EndTag, rd)"
  shows "tag_loop strict h True s (c, os @ EndElement tag # ns) = (Inr (s, True), Some (EndElement tag), ns)"
  using assms by (simp add: tag_loop.simps get_xml_element_def next_element_blanks)

lemma loop_block:
  assumes "blanks os" and "h tag s (Some (Element tag a), ns) = (BlockDone (Inr s'), c', ns')" and "length ns' \<le> length ns"
  shows "tag_loop strict h ok s (c, os @ Element tag a # ns) = tag_loop strict h True s' (None, ns')"
proof -
  have "get_xml_element (c, os @ Element tag a # ns) = (Inr tag, Some (Element tag a), ns)"
    using assms(1) by (simp add: get_xml_element_def next_element_blanks)
  then show ?thesis
    using assms(2,3) by (simp add: tag_loop.simps [of strict h ok s "(c, os @ Element tag a # ns)"] left_def tag_loop_cur [of strict h True s' c' ns'])
qed

lemma expect_elem:
  "blanks os \<Longrightarrow> expect_element tag (c, os @ Element tag a # ns) = (Inr (), Some (Element tag a), ns)"
  "blanks os \<Longrightarrow> expect_element (CHR ''/'' # tag) (c, os @ EndElement tag # ns) = (Inr (), Some (EndElement tag), ns)"
  by (simp_all add: expect_element_def get_xml_element_def next_element_blanks eq_ci_def)

text \<open>The tags are in lower case, and compared letter by letter.\<close>

lemma lower_letters [simp]:
  "lower CHR ''a'' = CHR ''a''" "lower CHR ''b'' = CHR ''b''" "lower CHR ''c'' = CHR ''c''" "lower CHR ''d'' = CHR ''d''"
  "lower CHR ''e'' = CHR ''e''" "lower CHR ''f'' = CHR ''f''" "lower CHR ''g'' = CHR ''g''" "lower CHR ''h'' = CHR ''h''"
  "lower CHR ''i'' = CHR ''i''" "lower CHR ''k'' = CHR ''k''" "lower CHR ''l'' = CHR ''l''" "lower CHR ''m'' = CHR ''m''"
  "lower CHR ''n'' = CHR ''n''" "lower CHR ''o'' = CHR ''o''" "lower CHR ''p'' = CHR ''p''" "lower CHR ''r'' = CHR ''r''"
  "lower CHR ''s'' = CHR ''s''" "lower CHR ''t'' = CHR ''t''" "lower CHR ''u'' = CHR ''u''" "lower CHR ''v'' = CHR ''v''"
  "lower CHR ''w'' = CHR ''w''" "lower CHR ''x'' = CHR ''x''" "lower CHR ''y'' = CHR ''y''" "lower CHR ''_'' = CHR ''_''"
  "lower CHR ''/'' = CHR ''/''"
  by (simp_all add: lower_def isupper_def code_def)


section \<open>The handlers take what the dump writes\<close>

lemma takes_value:
  "(\<And>s rd. h tag s rd = store get_xml_double put s rd) \<Longrightarrow> printable v \<Longrightarrow> takes h tag (dump_double v) s (put (reread v) s)"
  "(\<And>s rd. h tag s rd = store get_xml_double put s rd) \<Longrightarrow> printable v \<Longrightarrow> takes h tag (printf_e10 v) s (put (reread v) s)"
  "(\<And>s rd. h tag s rd = store get_xml_ulong cput s rd) \<Longrightarrow> n < 2 ^ 64 \<Longrightarrow> takes h tag (show_nat n) s (cput n s)"
  "(\<And>s rd. h tag s rd = store get_xml_ulong cput s rd) \<Longrightarrow> n < 2 ^ 64 \<Longrightarrow> takes h tag (spaced (show_nat n)) s (cput n s)"
  "(\<And>s rd. h tag s rd = store (get_xml_string len) sput s rd) \<Longrightarrow> word t \<Longrightarrow> length t \<le> len \<Longrightarrow> takes h tag t s (sput t s)"
  "(\<And>s rd. h tag s rd = store (get_xml_string len) sput s rd) \<Longrightarrow> word t \<Longrightarrow> length t \<le> len \<Longrightarrow> takes h tag (spaced t) s (sput t s)"
proof -
  have u: "get_xml_double = convert text_double" "get_xml_ulong = convert text_ulong" "get_xml_string len = convert (\<lambda>t. Inr (take len t))"
    by (simp_all add: get_xml_double_def get_xml_ulong_def get_xml_string_def fun_eq_iff)
  show "takes h tag (dump_double v) s (put (reread v) s)" if "\<And>s rd. h tag s rd = store get_xml_double put s rd" "printable v"
    using that text_double_dump [OF that(2)] by (intro takes_store [where f = text_double]) (simp_all add: u first_word_id)
  show "takes h tag (printf_e10 v) s (put (reread v) s)" if "\<And>s rd. h tag s rd = store get_xml_double put s rd" "printable v"
    using that text_double_printf [OF that(2)] by (intro takes_store [where f = text_double]) (simp_all add: u first_word_id)
  show "takes h tag (show_nat n) s (cput n s)" "takes h tag (spaced (show_nat n)) s (cput n s)"
    if "\<And>s rd. h tag s rd = store get_xml_ulong cput s rd" "n < 2 ^ 64"
    using that text_ulong_show [OF that(2)] word_show_nat [of n]
    by (auto intro!: takes_store [where f = text_ulong] simp: u first_word_id first_word_spaced)
  show "takes h tag t s (sput t s)" "takes h tag (spaced t) s (sput t s)"
    if "\<And>s rd. h tag s rd = store (get_xml_string len) sput s rd" "word t" "length t \<le> len"
    using that by (auto intro!: takes_store [where f = "\<lambda>t. Inr (take len t)"] simp: u first_word_id first_word_spaced)
qed

lemma cdp_takes:
  "printable v \<Longrightarrow> takes cdp_ds_tag ''primary_value'' (dump_double v) c (c\<lparr>primary_val := reread v\<rparr>)"
  "printable v \<Longrightarrow> takes cdp_ds_tag ''secondary_value'' (dump_double v) c (c\<lparr>secondary_val := reread v\<rparr>)"
  "printable v \<Longrightarrow> takes cdp_ds_tag ''intercept'' (dump_double v) c (c\<lparr>hw_intercept := reread v\<rparr>)"
  "printable v \<Longrightarrow> takes cdp_ds_tag ''last_intercept'' (dump_double v) c (c\<lparr>hw_last_intercept := reread v\<rparr>)"
  "printable v \<Longrightarrow> takes cdp_ds_tag ''slope'' (dump_double v) c (c\<lparr>hw_slope := reread v\<rparr>)"
  "printable v \<Longrightarrow> takes cdp_ds_tag ''last_slope'' (dump_double v) c (c\<lparr>hw_last_slope := reread v\<rparr>)"
  "printable v \<Longrightarrow> takes cdp_ds_tag ''seasonal'' (dump_double v) c (c\<lparr>hw_intercept := reread v\<rparr>)"
  "printable v \<Longrightarrow> takes cdp_ds_tag ''last_seasonal'' (dump_double v) c (c\<lparr>hw_last_intercept := reread v\<rparr>)"
  "printable v \<Longrightarrow> takes cdp_ds_tag ''value'' (dump_double v) c (c\<lparr>cdp_val := reread v\<rparr>)"
  "n < 2 ^ 64 \<Longrightarrow> takes cdp_ds_tag ''nan_count'' (show_nat n) c (c\<lparr>null_count := n\<rparr>)"
  "n < 2 ^ 64 \<Longrightarrow> takes cdp_ds_tag ''last_nan_count'' (show_nat n) c (c\<lparr>last_null_count := n\<rparr>)"
  "n < 2 ^ 64 \<Longrightarrow> takes cdp_ds_tag ''init_flag'' (show_nat n) c (c\<lparr>null_count := n\<rparr>)"
  "n < 2 ^ 64 \<Longrightarrow> takes cdp_ds_tag ''unknown_datapoints'' (show_nat n) c (c\<lparr>unkn_pdp_cnt := n\<rparr>)"
  using takes_value(1) [of cdp_ds_tag "''primary_value''" "\<lambda>v x. x\<lparr>primary_val := v\<rparr>"]
    takes_value(1) [of cdp_ds_tag "''secondary_value''" "\<lambda>v x. x\<lparr>secondary_val := v\<rparr>"]
    takes_value(1) [of cdp_ds_tag "''intercept''" "\<lambda>v x. x\<lparr>hw_intercept := v\<rparr>"]
    takes_value(1) [of cdp_ds_tag "''last_intercept''" "\<lambda>v x. x\<lparr>hw_last_intercept := v\<rparr>"]
    takes_value(1) [of cdp_ds_tag "''slope''" "\<lambda>v x. x\<lparr>hw_slope := v\<rparr>"]
    takes_value(1) [of cdp_ds_tag "''last_slope''" "\<lambda>v x. x\<lparr>hw_last_slope := v\<rparr>"]
    takes_value(1) [of cdp_ds_tag "''seasonal''" "\<lambda>v x. x\<lparr>hw_intercept := v\<rparr>"]
    takes_value(1) [of cdp_ds_tag "''last_seasonal''" "\<lambda>v x. x\<lparr>hw_last_intercept := v\<rparr>"]
    takes_value(1) [of cdp_ds_tag "''value''" "\<lambda>v x. x\<lparr>cdp_val := v\<rparr>"]
    takes_value(3) [of cdp_ds_tag "''nan_count''" "\<lambda>n x. x\<lparr>null_count := n\<rparr>"]
    takes_value(3) [of cdp_ds_tag "''last_nan_count''" "\<lambda>n x. x\<lparr>last_null_count := n\<rparr>"]
    takes_value(3) [of cdp_ds_tag "''init_flag''" "\<lambda>n x. x\<lparr>null_count := n\<rparr>"]
    takes_value(3) [of cdp_ds_tag "''unknown_datapoints''" "\<lambda>n x. x\<lparr>unkn_pdp_cnt := n\<rparr>"]
  by (simp_all add: cdp_ds_tag_def eq_ci_def)

lemma param_takes:
  "printable v \<Longrightarrow> takes params_tag ''hw_alpha'' (printf_e10 v) r (r\<lparr>par1 := reread v\<rparr>)"
  "printable v \<Longrightarrow> takes params_tag ''hw_beta'' (printf_e10 v) r (r\<lparr>par2 := reread v\<rparr>)"
  "printable v \<Longrightarrow> takes params_tag ''seasonal_gamma'' (printf_e10 v) r (r\<lparr>par1 := reread v\<rparr>)"
  "printable v \<Longrightarrow> takes params_tag ''smoothing_window'' (printf_e10 v) r (r\<lparr>par2 := reread v\<rparr>)"
  "printable v \<Longrightarrow> takes params_tag ''delta_pos'' (printf_e10 v) r (r\<lparr>par1 := reread v\<rparr>)"
  "printable v \<Longrightarrow> takes params_tag ''delta_neg'' (printf_e10 v) r (r\<lparr>par2 := reread v\<rparr>)"
  "printable v \<Longrightarrow> takes params_tag ''xff'' (printf_e10 v) r (r\<lparr>cdp_xff_val := reread v\<rparr>)"
  "n < 2 ^ 64 \<Longrightarrow> takes params_tag ''dependent_rra_idx'' (show_nat n) r (r\<lparr>dependent_rra_idx := n\<rparr>)"
  "n < 2 ^ 64 \<Longrightarrow> takes params_tag ''seasonal_smooth_idx'' (show_nat n) r (r\<lparr>par4 := n\<rparr>)"
  "n < 2 ^ 64 \<Longrightarrow> takes params_tag ''window_len'' (show_nat n) r (r\<lparr>par4 := n\<rparr>)"
  "n < 2 ^ 64 \<Longrightarrow> takes params_tag ''failure_threshold'' (show_nat n) r (r\<lparr>failure_threshold := n\<rparr>)"
  using takes_value(2) [of params_tag "''hw_alpha''" "\<lambda>v x. x\<lparr>par1 := v\<rparr>"]
    takes_value(2) [of params_tag "''hw_beta''" "\<lambda>v x. x\<lparr>par2 := v\<rparr>"]
    takes_value(2) [of params_tag "''seasonal_gamma''" "\<lambda>v x. x\<lparr>par1 := v\<rparr>"]
    takes_value(2) [of params_tag "''smoothing_window''" "\<lambda>v x. x\<lparr>par2 := v\<rparr>"]
    takes_value(2) [of params_tag "''delta_pos''" "\<lambda>v x. x\<lparr>par1 := v\<rparr>"]
    takes_value(2) [of params_tag "''delta_neg''" "\<lambda>v x. x\<lparr>par2 := v\<rparr>"]
    takes_value(2) [of params_tag "''xff''" "\<lambda>v x. x\<lparr>cdp_xff_val := v\<rparr>"]
    takes_value(3) [of params_tag "''dependent_rra_idx''" "\<lambda>n x. x\<lparr>dependent_rra_idx := n\<rparr>"]
    takes_value(3) [of params_tag "''seasonal_smooth_idx''" "\<lambda>n x. x\<lparr>par4 := n\<rparr>"]
    takes_value(3) [of params_tag "''window_len''" "\<lambda>n x. x\<lparr>par4 := n\<rparr>"]
    takes_value(3) [of params_tag "''failure_threshold''" "\<lambda>n x. x\<lparr>failure_threshold := n\<rparr>"]
  by (simp_all add: params_tag_def eq_ci_def)

section \<open>What comes back\<close>

definition restored_ds :: "ds_def_t \<Rightarrow> ds_def_t" where
  "restored_ds d =
     (if computed (dst d) then \<lparr>ds_nam = ds_nam d, dst = dst d, mrhb_cnt = 0, min_val = 0, max_val = 0, cdef = cdef d\<rparr>
      else \<lparr>ds_nam = ds_nam d, dst = dst d, mrhb_cnt = mrhb_cnt d, min_val = reread (min_val d), max_val = reread (max_val d), cdef = []\<rparr>)"

definition restored_pdp :: "pdp_prep_t \<Rightarrow> pdp_prep_t" where
  "restored_pdp p = p\<lparr>pdp_val := reread (pdp_val p)\<rparr>"

definition restored_params :: "rrd \<Rightarrow> rra_def_t \<Rightarrow> rra_def_t \<Rightarrow> rra_def_t" where
  "restored_params s r q =
     (let hw = q\<lparr>par1 := reread (par1 r), par2 := reread (par2 r), dependent_rra_idx := dependent_rra_idx r\<rparr>;
          sea = (if atoi (version (stat_head s)) \<ge> 4
            then q\<lparr>par1 := reread (par1 r), par4 := par4 r, par2 := reread (par2 r), dependent_rra_idx := dependent_rra_idx r\<rparr>
            else q\<lparr>par1 := reread (par1 r), par4 := par4 r, dependent_rra_idx := dependent_rra_idx r\<rparr>)
      in case cf_conv (cf_nam r) of
           Some CF_HWPREDICT \<Rightarrow> hw
         | Some CF_MHWPREDICT \<Rightarrow> hw
         | Some CF_SEASONAL \<Rightarrow> sea
         | Some CF_DEVSEASONAL \<Rightarrow> sea
         | Some CF_FAILURES \<Rightarrow>
             q\<lparr>par1 := reread (par1 r), par2 := reread (par2 r), par4 := par4 r, failure_threshold := failure_threshold r,
               dependent_rra_idx := dependent_rra_idx r\<rparr>
         | Some CF_DEVPREDICT \<Rightarrow> q\<lparr>dependent_rra_idx := dependent_rra_idx r\<rparr>
         | _ \<Rightarrow> q\<lparr>cdp_xff_val := reread (cdp_xff_val r)\<rparr>)"

definition restored_rra :: "rrd \<Rightarrow> rra_def_t \<Rightarrow> rra_def_t" where
  "restored_rra s r = restored_params s r (rra_cleared\<lparr>cf_nam := cf_nam r, pdp_cnt := pdp_cnt r\<rparr>)\<lparr>row_cnt := row_cnt r\<rparr>"

definition restored_cdp :: "rra_def_t \<Rightarrow> cdp_prep_t \<Rightarrow> cdp_prep_t" where
  "restored_cdp r c =
     (let q = cdp_cleared\<lparr>primary_val := reread (primary_val c), secondary_val := reread (secondary_val c)\<rparr>;
          hw = q\<lparr>hw_intercept := reread (hw_intercept c), hw_last_intercept := reread (hw_last_intercept c), hw_slope := reread (hw_slope c),
            hw_last_slope := reread (hw_last_slope c), null_count := null_count c, last_null_count := last_null_count c\<rparr>;
          sea = q\<lparr>hw_intercept := reread (hw_intercept c), hw_last_intercept := reread (hw_last_intercept c), null_count := null_count c\<rparr>
      in case cf_conv (cf_nam r) of
           Some CF_HWPREDICT \<Rightarrow> hw
         | Some CF_MHWPREDICT \<Rightarrow> hw
         | Some CF_SEASONAL \<Rightarrow> sea
         | Some CF_DEVSEASONAL \<Rightarrow> sea
         | Some CF_DEVPREDICT \<Rightarrow> q
         | Some CF_FAILURES \<Rightarrow> q\<lparr>violations := take (window_len r) (violations c) @ replicate (28 - window_len r) 0\<rparr>
         | _ \<Rightarrow> q\<lparr>cdp_val := reread (cdp_val c), unkn_pdp_cnt := unkn_pdp_cnt c\<rparr>)"

text \<open>
  Which values the text form can carry. Names and readings are written without escapes, so that they come back only if they
  consist of printable characters that mean nothing in XML.
\<close>

definition xml_plain :: "string \<Rightarrow> bool" where
  "xml_plain t \<longleftrightarrow> list_all (\<lambda>c. 32 < code c \<and> code c < 127 \<and> c \<noteq> CHR ''<'' \<and> c \<noteq> CHR ''>'' \<and> c \<noteq> CHR ''&'') t"

definition ds_dumpable :: "ds_def_t \<Rightarrow> bool" where
  "ds_dumpable d \<longleftrightarrow> word (ds_nam d) \<and> xml_plain (ds_nam d) \<and> length (ds_nam d) < 20 \<and> mrhb_cnt d < 2 ^ 64 \<and> printable (min_val d) \<and> printable (max_val d)"

definition pdp_dumpable :: "pdp_prep_t \<Rightarrow> bool" where
  "pdp_dumpable p \<longleftrightarrow> word (last_ds p) \<and> xml_plain (last_ds p) \<and> length (last_ds p) < 30 \<and> unkn_sec_cnt p < 2 ^ 64 \<and> printable (pdp_val p)"

definition rra_dumpable :: "rra_def_t \<Rightarrow> bool" where
  "rra_dumpable r \<longleftrightarrow>
     pdp_cnt r < 2 ^ 64 \<and> printable (cdp_xff_val r) \<and> printable (par1 r) \<and> printable (par2 r) \<and> dependent_rra_idx r < 2 ^ 64 \<and>
     par4 r < 2 ^ 64 \<and> failure_threshold r < 2 ^ 64 \<and> (cf_conv (cf_nam r) = Some CF_FAILURES \<longrightarrow> window_len r \<le> 28)"

definition cdp_dumpable :: "cdp_prep_t \<Rightarrow> bool" where
  "cdp_dumpable c \<longleftrightarrow>
     printable (cdp_val c) \<and> unkn_pdp_cnt c < 2 ^ 64 \<and> printable (hw_intercept c) \<and> printable (hw_last_intercept c) \<and>
     printable (hw_slope c) \<and> printable (hw_last_slope c) \<and> null_count c < 2 ^ 64 \<and> last_null_count c < 2 ^ 64 \<and>
     printable (primary_val c) \<and> printable (secondary_val c) \<and> length (violations c) = 28 \<and> list_all (\<lambda>b. b = 0 \<or> b = 1) (violations c)"

text \<open>The expression of a COMPUTE data source is read back from its text, with the names of the data sources up to this one.\<close>

definition cdef_readable :: "rrd \<Rightarrow> nat \<Rightarrow> bool" where
  "cdef_readable s k =
     (let t = rpn_compact2str (ds_def s) (cdef (ds_def s ! k)) in
      word t \<and> xml_plain t \<and>
      (case rpn_parse (lookup_DS_from 0 (take (Suc k) (ds_def s))) t of
         Inl _ \<Rightarrow> False
       | Inr ns \<Rightarrow> \<not> list_ex (\<lambda>n. op_not_permitted (op n)) ns \<and> rpn_compact ns = Inr (cdef (ds_def s ! k))))"

definition dumpable :: "rrd \<Rightarrow> bool" where
  "dumpable s \<longleftrightarrow>
     wf_rrd s \<and> pdpstep s < 2 ^ 64 \<and> - (2 ^ 63) \<le> last_up (live_head s) \<and> last_up (live_head s) < 2 ^ 63 \<and>
     list_all ds_dumpable (ds_def s) \<and> list_all pdp_dumpable (pdp_prep s) \<and> list_all rra_dumpable (rra_def s) \<and>
     list_all cdp_dumpable (cdp_prep s) \<and> list_all printable (rrd_value s) \<and>
     list_all (\<lambda>k. computed (dst (ds_def s ! k)) \<longrightarrow> cdef_readable s k) [0 ..< dscnt s] \<and>
     dscnt s * sum_list (map row_cnt (rra_def s)) < 2 ^ 32"

section \<open>Preparation areas\<close>

lemma history_show: "list_all (\<lambda>b. b = 0 \<or> b = 1) bs \<Longrightarrow> history_bits (concat (map show_int bs)) = bs"
proof (induction bs)
  case (Cons b bs)
  have "show_int 0 = ''0''" "show_int 1 = ''1''" by code_simp+
  then have "history_bits (show_int b) = [b]" using Cons.prems by (auto simp: history_bits_def)
  then show ?case using Cons by (simp add: history_bits_def)
qed (simp add: history_bits_def)

lemma length_history: "list_all (\<lambda>b. b = 0 \<or> b = 1) bs \<Longrightarrow> length (concat (map show_int bs)) = length bs"
  using history_show [of bs] by (metis history_bits_def length_map)

lemma word_history: "word (concat (map show_int bs))"
  using word_show_int by (induction bs) (auto simp: word_def)

lemma cdp_takes_history:
  assumes "list_all (\<lambda>b. b = 0 \<or> b = 1) bs" and "length bs \<le> 28"
  shows "takes cdp_ds_tag ''history'' (concat (map show_int bs)) c (c\<lparr>violations := take 28 (bs @ drop (length bs) (violations c))\<rparr>)"
proof -
  have "cdp_ds_tag ''history'' s rd = store (convert text_history) (\<lambda>b c. c\<lparr>violations := take 28 (b @ drop (length b) (violations c))\<rparr>) s rd" for s rd
    by (simp add: cdp_ds_tag_def eq_ci_def)
  moreover have "text_history (first_word (concat (map show_int bs))) = Inr bs"
    using assms length_history [OF assms(1)] history_show [OF assms(1)] by (simp add: first_word_id [OF word_history] text_history_def)
  ultimately show ?thesis by (rule takes_store)
qed

lemma takes_cdp_fields:
  assumes c: "cdp_dumpable c" and r: "rra_dumpable r"
  shows "takes_all cdp_ds_tag (cdp_fields r c) cdp_cleared (restored_cdp r c)"
proof -
  note d = c [unfolded cdp_dumpable_def]
  let ?q = "cdp_cleared\<lparr>primary_val := reread (primary_val c), secondary_val := reread (secondary_val c)\<rparr>"
  have head: "takes_all cdp_ds_tag [(''primary_value'', dump_double (primary_val c)), (''secondary_value'', dump_double (secondary_val c))] cdp_cleared ?q"
    using d cdp_takes(1) [of "primary_val c" cdp_cleared] cdp_takes(2) [of "secondary_val c" "cdp_cleared\<lparr>primary_val := reread (primary_val c)\<rparr>"]
    by (auto simp only: takes_all.simps)
  have hw: "takes_all cdp_ds_tag [(''intercept'', dump_double (hw_intercept c)), (''last_intercept'', dump_double (hw_last_intercept c)),
       (''slope'', dump_double (hw_slope c)), (''last_slope'', dump_double (hw_last_slope c)),
       (''nan_count'', show_nat (null_count c)), (''last_nan_count'', show_nat (last_null_count c))] q
     (q\<lparr>hw_intercept := reread (hw_intercept c), hw_last_intercept := reread (hw_last_intercept c), hw_slope := reread (hw_slope c),
       hw_last_slope := reread (hw_last_slope c), null_count := null_count c, last_null_count := last_null_count c\<rparr>)" for q
    by (rule takes_all_Cons, rule cdp_takes, use d in blast)+ simp
  have sea: "takes_all cdp_ds_tag [(''seasonal'', dump_double (hw_intercept c)), (''last_seasonal'', dump_double (hw_last_intercept c)),
       (''init_flag'', show_nat (null_count c))] q
     (q\<lparr>hw_intercept := reread (hw_intercept c), hw_last_intercept := reread (hw_last_intercept c), null_count := null_count c\<rparr>)" for q
    by (rule takes_all_Cons, rule cdp_takes, use d in blast)+ simp
  have plain: "takes_all cdp_ds_tag [(''value'', dump_double (cdp_val c)), (''unknown_datapoints'', show_nat (unkn_pdp_cnt c))] q
     (q\<lparr>cdp_val := reread (cdp_val c), unkn_pdp_cnt := unkn_pdp_cnt c\<rparr>)" for q
    by (rule takes_all_Cons, rule cdp_takes, use d in blast)+ simp
  have fail: "takes_all cdp_ds_tag [(''history'', concat (map (\<lambda>vidx. show_int (violations c ! vidx)) [0 ..< window_len r]))] ?q
     (?q\<lparr>violations := take (window_len r) (violations c) @ replicate (28 - window_len r) 0\<rparr>)" if "cf_conv (cf_nam r) = Some CF_FAILURES"
  proof -
    let ?bs = "take (window_len r) (violations c)"
    have w: "window_len r \<le> 28" using r that by (simp add: rra_dumpable_def)
    have bs: "list_all (\<lambda>b. b = 0 \<or> b = 1) ?bs" "length ?bs = window_len r" using d w by (auto simp: list_all_iff dest: in_set_takeD)
    have "map (\<lambda>vidx. show_int (violations c ! vidx)) [0 ..< window_len r] = map show_int ?bs"
      using d w by (intro nth_equalityI) simp_all
    then show ?thesis
      using cdp_takes_history [OF bs(1), of ?q] bs(2) w by (simp add: cdp_cleared_def)
  qed
  show ?thesis
  proof (cases "cf_conv (cf_nam r)")
    case None
    then show ?thesis using takes_all_append [OF head plain] by (simp add: cdp_fields_def restored_cdp_def Let_def)
  next
    case (Some cf)
    then show ?thesis
      using takes_all_append [OF head plain] takes_all_append [OF head hw] takes_all_append [OF head sea] takes_all_append [OF head fail] head
      by (cases cf) (simp_all add: cdp_fields_def restored_cdp_def Let_def del: takes_all.simps)
  qed
qed

lemma cdp_fields_not_Nil: "cdp_fields r c \<noteq> []"
  by (simp add: cdp_fields_def Let_def)

lemma parse_cdp_ds:
  assumes "cdp_dumpable c" and "rra_dumpable r"
  shows "parse_tag_rra_cdp_prep_ds (c0, nl # xml_fields 3 (cdp_fields r c) @ tabs 3 # EndElement ''ds'' # ns) =
    (Inr (restored_cdp r c), Some (EndElement ''ds''), ns)"
proof -
  have "tag_loop True cdp_ds_tag False cdp_cleared (c0, [nl] @ xml_fields 3 (cdp_fields r c) @ tabs 3 # EndElement ''ds'' # ns) =
      tag_loop True cdp_ds_tag True (restored_cdp r c) (None, nl # tabs 3 # EndElement ''ds'' # ns)"
    by (rule loop_fields [OF takes_cdp_fields [OF assms] cdp_fields_not_Nil]) simp
  also have "\<dots> = (Inr (restored_cdp r c, True), Some (EndElement ''ds''), ns)"
    using loop_end [of "[nl, tabs 3]" cdp_ds_tag "''ds''"] by (simp add: cdp_ds_tag_def eq_ci_def)
  finally show ?thesis by (simp add: parse_tag_rra_cdp_prep_ds_def)
qed

definition put_cdp :: "(nat \<Rightarrow> cdp_prep_t) \<Rightarrow> nat \<Rightarrow> rrd \<Rightarrow> rrd" where
  "put_cdp f i s = s\<lparr>cdp_prep := (cdp_prep s)[dscnt s * cur_rra s + i := f i]\<rparr>"

lemma parse_cdp_blocks:
  assumes "\<And>i. i \<in> set is \<Longrightarrow> cdp_dumpable (g i)" and "rra_dumpable r" and "blanks os"
  shows "\<exists>c' os'. blanks os' \<and> cdp_prep_blocks is s (c, os @ concat (map (\<lambda>i. dump_cdp r (g i)) is) @ ns) =
    (Inr (fold (put_cdp (\<lambda>i. restored_cdp r (g i))) is s), c', os' @ ns)"
  using assms(1,3)
proof (induction "is" arbitrary: s c os)
  case Nil
  then show ?case by auto
next
  case (Cons i "is")
  have e: "expect_element ''ds'' (c, os @ concat (map (\<lambda>i. dump_cdp r (g i)) (i # is)) @ ns) =
    (Inr (), Some (Element ''ds'' []), nl # xml_fields 3 (cdp_fields r (g i)) @ tabs 3 # EndElement ''ds'' # (nl # concat (map (\<lambda>i. dump_cdp r (g i)) is) @ ns))"
    using expect_elem(1) [of "os @ [tabs 3]" "''ds''"] Cons.prems(2) by (simp add: dump_cdp_def)
  have d: "cdp_dumpable (g i)" using Cons.prems(1) by simp
  obtain c' os' where IH: "blanks os'"
    "cdp_prep_blocks is (put_cdp (\<lambda>i. restored_cdp r (g i)) i s) (Some (EndElement ''ds''), [nl] @ concat (map (\<lambda>i. dump_cdp r (g i)) is) @ ns) =
      (Inr (fold (put_cdp (\<lambda>i. restored_cdp r (g i))) is (put_cdp (\<lambda>i. restored_cdp r (g i)) i s)), c', os' @ ns)"
    using Cons.IH [of "[nl]"] Cons.prems(1) by (metis blanks_simps(1,3) list.set_intros(2))
  have "cdp_prep_blocks (i # is) s (c, os @ concat (map (\<lambda>i. dump_cdp r (g i)) (i # is)) @ ns) =
      cdp_prep_blocks is (put_cdp (\<lambda>i. restored_cdp r (g i)) i s) (Some (EndElement ''ds''), [nl] @ concat (map (\<lambda>i. dump_cdp r (g i)) is) @ ns)"
    unfolding cdp_prep_blocks.simps e prod.case sum.case parse_cdp_ds [OF d assms(2)] by (simp add: put_cdp_def)
  then show ?case using IH by auto
qed

lemma fold_put_cdp:
  assumes "length (cdp_prep s) = dscnt s * cur_rra s + n"
  shows "fold (put_cdp f) [0 ..< n] s = s\<lparr>cdp_prep := take (dscnt s * cur_rra s) (cdp_prep s) @ map f [0 ..< n]\<rparr>"
proof -
  let ?b = "dscnt s * cur_rra s"
  have "fold (put_cdp f) [0 ..< k] s = s\<lparr>cdp_prep := take ?b (cdp_prep s) @ map f [0 ..< k] @ drop (?b + k) (cdp_prep s)\<rparr>" if "k \<le> n" for k
    using that
  proof (induction k)
    case (Suc k)
    let ?xs = "take ?b (cdp_prep s) @ map f [0 ..< k]"
    have l: "length ?xs = ?b + k" using assms Suc.prems by simp
    have d: "drop (?b + k) (cdp_prep s) = cdp_prep s ! (?b + k) # drop (Suc (?b + k)) (cdp_prep s)"
      using assms Suc.prems by (intro Cons_nth_drop_Suc [symmetric]) simp
    have "(?xs @ drop (?b + k) (cdp_prep s))[?b + k := f k] = ?xs @ f k # drop (Suc (?b + k)) (cdp_prep s)"
      using l by (simp add: list_update_append d)
    then show ?case using Suc by (simp add: put_cdp_def cur_rra_def)
  qed simp
  from this [of n] show ?thesis using assms by simp
qed

lemma parse_cdp_prep:
  assumes "\<And>i. i < dscnt s \<Longrightarrow> cdp_dumpable (g i)" and "rra_dumpable r" and "length (cdp_prep s) = dscnt s * cur_rra s + dscnt s"
  shows "parse_tag_rra_cdp_prep s (c, nl # concat (map (\<lambda>i. dump_cdp r (g i)) [0 ..< dscnt s]) @ tabs 2 # EndElement ''cdp_prep'' # ns) =
    (Inr (s\<lparr>cdp_prep := take (dscnt s * cur_rra s) (cdp_prep s) @ map (\<lambda>i. restored_cdp r (g i)) [0 ..< dscnt s]\<rparr>),
     Some (EndElement ''cdp_prep''), ns)"
proof -
  obtain c' os' where b: "blanks os'"
    "cdp_prep_blocks [0 ..< dscnt s] s (c, [nl] @ concat (map (\<lambda>i. dump_cdp r (g i)) [0 ..< dscnt s]) @ tabs 2 # EndElement ''cdp_prep'' # ns) =
      (Inr (fold (put_cdp (\<lambda>i. restored_cdp r (g i))) [0 ..< dscnt s] s), c', os' @ tabs 2 # EndElement ''cdp_prep'' # ns)"
    using parse_cdp_blocks [of "[0 ..< dscnt s]" g r "[nl]"] assms(1,2) by (metis atLeastLessThan_iff blanks_simps(1,3) set_upt)
  have "expect_element ''/cdp_prep'' (c', os' @ tabs 2 # EndElement ''cdp_prep'' # ns) = (Inr (), Some (EndElement ''cdp_prep''), ns)"
    using expect_elem(2) [of "os' @ [tabs 2]" "''cdp_prep''"] b(1) by simp
  then show ?thesis using b(2) by (simp add: parse_tag_rra_cdp_prep_def fold_put_cdp [OF assms(3)])
qed

section \<open>Parameters\<close>

lemma takes_param_fields:
  assumes "rra_dumpable r"
  shows "takes_all params_tag (param_fields s r) q (restored_params s r q)"
proof -
  note d = assms [unfolded rra_dumpable_def]
  have dep: "takes_all params_tag [(''dependent_rra_idx'', show_nat (dependent_rra_idx r))] q (q\<lparr>dependent_rra_idx := dependent_rra_idx r\<rparr>)" for q
    by (rule takes_all_Cons, rule param_takes, use d in blast)+ simp
  have hw: "takes_all params_tag [(''hw_alpha'', printf_e10 (par1 r)), (''hw_beta'', printf_e10 (par2 r))] q
      (q\<lparr>par1 := reread (par1 r), par2 := reread (par2 r)\<rparr>)"
    by (rule takes_all_Cons, rule param_takes, use d in blast)+ simp
  have sea: "takes_all params_tag [(''seasonal_gamma'', printf_e10 (par1 r)), (''seasonal_smooth_idx'', show_nat (par4 r))] q
      (q\<lparr>par1 := reread (par1 r), par4 := par4 r\<rparr>)"
    by (rule takes_all_Cons, rule param_takes, use d in blast)+ simp
  have win: "takes_all params_tag [(''smoothing_window'', printf_e10 (par2 r))] p (p\<lparr>par2 := reread (par2 r)\<rparr>)" for p
    by (rule takes_all_Cons, rule param_takes, use d in blast)+ simp
  have fail: "takes_all params_tag [(''delta_pos'', printf_e10 (par1 r)), (''delta_neg'', printf_e10 (par2 r)),
      (''window_len'', show_nat (par4 r)), (''failure_threshold'', show_nat (failure_threshold r))] q
      (q\<lparr>par1 := reread (par1 r), par2 := reread (par2 r), par4 := par4 r, failure_threshold := failure_threshold r\<rparr>)"
    by (rule takes_all_Cons, rule param_takes, use d in blast)+ simp
  have xff: "takes_all params_tag [(''xff'', printf_e10 (cdp_xff_val r))] q (q\<lparr>cdp_xff_val := reread (cdp_xff_val r)\<rparr>)"
    by (rule takes_all_Cons, rule param_takes, use d in blast)+ simp
  note facts = takes_all_append [OF hw dep] takes_all_append [OF sea dep] takes_all_append [OF fail dep]
    takes_all_append [OF takes_all_append [OF sea win] dep]
  show ?thesis
  proof (cases "cf_conv (cf_nam r)")
    case None
    then show ?thesis using xff by (simp add: param_fields_def restored_params_def Let_def)
  next
    case (Some cf)
    show ?thesis
      using facts dep [of q] xff unfolding param_fields_def restored_params_def Let_def Some
      by (cases cf) (simp_all del: takes_all.simps)
  qed
qed

lemma param_fields_not_Nil: "param_fields s r \<noteq> []"
  by (simp add: param_fields_def Let_def split: option.splits cf_en.splits)

lemma parse_params:
  assumes "rra_dumpable r"
  shows "parse_tag_rra_params t (c, nl # xml_fields 2 (param_fields s r) @ tabs 2 # EndElement ''params'' # ns) =
    (Inr (upd_rra (\<lambda>_. restored_params s r (rra_def t ! cur_rra t)) t), Some (EndElement ''params''), ns)"
proof -
  let ?q = "rra_def t ! cur_rra t"
  have "tag_loop False params_tag False ?q (c, [nl] @ xml_fields 2 (param_fields s r) @ tabs 2 # EndElement ''params'' # ns) =
      tag_loop False params_tag True (restored_params s r ?q) (None, nl # tabs 2 # EndElement ''params'' # ns)"
    by (rule loop_fields [OF takes_param_fields [OF assms] param_fields_not_Nil]) simp
  also have "\<dots> = (Inr (restored_params s r ?q, True), Some (EndElement ''params''), ns)"
    using loop_end [of "[nl, tabs 2]" params_tag "''params''"] by (simp add: params_tag_def eq_ci_def)
  finally show ?thesis by (simp add: parse_tag_rra_params_def)
qed

section \<open>Rows\<close>

definition conv_row :: "bool \<Rightarrow> ds_def_t list \<Rightarrow> dbl list \<Rightarrow> dbl list" where
  "conv_row rc ds vs = map2 (\<lambda>d v. value_check_range rc d (reread v)) ds vs"

lemma double_text_node: "printable v \<Longrightarrow> text_node (dump_double v) = [Text (dump_double v)]"
  using text_double_dump(2,3) [of v] by (cases "dump_double v") (auto simp: text_node_def word_def)

lemma parse_row:
  assumes "length vs = length ds" and "list_all printable vs"
  shows "\<exists>c'. parse_tag_rra_database_row rc ds (c, concat (map (\<lambda>v. elem ''v'' (dump_double v)) vs) @ ns) = (Inr (conv_row rc ds vs), c', ns)"
  using assms
proof (induction ds arbitrary: vs c)
  case Nil
  then show ?case by (simp add: conv_row_def)
next
  case (Cons d ds)
  then obtain v ws where vs: "vs = v # ws" and ws: "length ws = length ds" "list_all printable ws" and v: "printable v" by (cases vs) auto
  let ?rest = "concat (map (\<lambda>v. elem ''v'' (dump_double v)) ws) @ ns"
  have n: "concat (map (\<lambda>v. elem ''v'' (dump_double v)) vs) @ ns = Element ''v'' [] # Text (dump_double v) # EndElement ''v'' # ?rest"
    using v by (simp add: vs elem_def double_text_node)
  have e: "expect_element ''v'' (c, Element ''v'' [] # Text (dump_double v) # EndElement ''v'' # ?rest) =
      (Inr (), Some (Element ''v'' []), Text (dump_double v) # EndElement ''v'' # ?rest)"
    using expect_elem(1) [of "[]" "''v''"] by simp
  have g: "get_xml_double (Some (Element ''v'' []), Text (dump_double v) # EndElement ''v'' # ?rest) =
      (Inr (reread v), Some (Text (dump_double v)), EndElement ''v'' # ?rest)"
    using text_double_dump [OF v] by (simp add: get_xml_double_def convert_def get_xml_text_def first_word_id)
  have f: "expect_element ''/v'' (Some (Text (dump_double v)), EndElement ''v'' # ?rest) = (Inr (), Some (EndElement ''v''), ?rest)"
    using expect_elem(2) [of "[]" "''v''"] by simp
  obtain c' where IH: "parse_tag_rra_database_row rc ds (Some (EndElement ''v''), ?rest) = (Inr (conv_row rc ds ws), c', ns)"
    using Cons.IH [OF ws] by blast
  show ?case unfolding n parse_tag_rra_database_row.simps e prod.case sum.case g f IH by (simp add: vs conv_row_def)
qed

lemma upd_rra_fields [simp]:
  "stat_head (upd_rra f s) = stat_head s" "ds_def (upd_rra f s) = ds_def s" "rrd_value (upd_rra f s) = rrd_value s"
  "cur_rra (upd_rra f s) = cur_rra s" "rra_def (upd_rra f s) = (rra_def s)[cur_rra s := f (rra_def s ! cur_rra s)]"
  by (simp_all add: upd_rra_def cur_rra_def)

lemma upd_rra_upd_rra: "cur_rra s < length (rra_def s) \<Longrightarrow> upd_rra g (upd_rra f s) = upd_rra (\<lambda>r. g (f r)) s"
  by (simp add: upd_rra_def cur_rra_def)

definition add_rows :: "nat \<Rightarrow> dbl list \<Rightarrow> rrd \<Rightarrow> rrd" where
  "add_rows n vs s = upd_rra (\<lambda>r. r\<lparr>row_cnt := row_cnt r + n\<rparr>) (s\<lparr>rrd_value := rrd_value s @ vs\<rparr>)"

lemma add_rows_add: "cur_rra s < length (rra_def s) \<Longrightarrow> add_rows m ws (add_rows n vs s) = add_rows (n + m) (vs @ ws) s"
  by (simp add: add_rows_def upd_rra_def cur_rra_def add.assoc)

lemma loop_rows:
  assumes "list_all (\<lambda>vs. length vs = dscnt s \<and> list_all printable vs) rows" and "dscnt s * (k + length rows) < 2 ^ 32" and "blanks os"
    and "length (ds_def s) = dscnt s" and "length (rrd_value s) = dscnt s * k" and "cur_rra s < length (rra_def s)"
  shows "tag_loop True (database_tag rc) True (k, s)
      (c, os @ concat (map (\<lambda>(ix, vs). dump_row fmt (f ix) vs) (enumerate j rows)) @ tabs 2 # EndElement ''database'' # ns) =
    (Inr ((k + length rows, add_rows (length rows) (concat (map (conv_row rc (ds_def s)) rows)) s), True), Some (EndElement ''database''), ns)"
  using assms
proof (induction rows arbitrary: k s c os j)
  case Nil
  have "add_rows 0 [] s = s" using Nil.prems(6) by (simp add: add_rows_def upd_rra_def cur_rra_def)
  moreover have "database_tag rc (CHR ''/'' # ''database'') (k, s) rd = (EndTag, rd)" for rd by (simp add: database_tag_def eq_ci_def)
  ultimately show ?case using loop_end [of "os @ [tabs 2]" "database_tag rc" "''database''" "(k, s)"] Nil.prems(3) by simp
next
  case (Cons vs rows)
  let ?tail = "concat (map (\<lambda>(ix, vs). dump_row fmt (f ix) vs) (enumerate (Suc j) rows)) @ tabs 2 # EndElement ''database'' # ns"
  let ?pre = "os @ [tabs 3, Other (''<!-- '' @ fmt (f j) @ '' / '' @ show_int (f j) @ '' -->''), Other '' '']"
  let ?inner = "concat (map (\<lambda>v. elem ''v'' (dump_double v)) vs) @ EndElement ''row'' # nl # ?tail"
  have vs: "length vs = dscnt s" "list_all printable vs" using Cons.prems(1) by simp_all
  obtain c' where row: "parse_tag_rra_database_row rc (ds_def s) (Some (Element ''row'' []), ?inner) =
      (Inr (conv_row rc (ds_def s) vs), c', EndElement ''row'' # nl # ?tail)"
    using parse_row [of vs "ds_def s"] vs Cons.prems(4) by (metis append_assoc append_Cons)
  have e: "expect_element ''/row'' (c', EndElement ''row'' # nl # ?tail) = (Inr (), Some (EndElement ''row''), nl # ?tail)"
    using expect_elem(2) [of "[]" "''row''"] by simp
  have "dscnt s * (k + 1) \<le> dscnt s * (k + length (vs # rows))" by (intro mult_le_mono2) simp
  with Cons.prems(2) have small: "\<not> dscnt s * (k + 1) \<ge> 2 ^ 32" by linarith
  have tk: "take (dscnt s) (ds_def s) = ds_def s" "take (dscnt s * k) (rrd_value s) = rrd_value s" using Cons.prems(4,5) by simp_all
  let ?s1 = "add_rows 1 (conv_row rc (ds_def s) vs) s"
  have h: "database_tag rc ''row'' (k, s) (Some (Element ''row'' []), ?inner) = (BlockDone (Inr (k + 1, ?s1)), Some (EndElement ''row''), nl # ?tail)"
    unfolding database_tag_def prod.case tk row sum.case e using small by (simp add: eq_ci_def add_rows_def)
  have nodes: "os @ concat (map (\<lambda>(ix, vs). dump_row fmt (f ix) vs) (enumerate j (vs # rows))) @ tabs 2 # EndElement ''database'' # ns =
      ?pre @ Element ''row'' [] # ?inner" by (simp add: dump_row_def)
  have step: "tag_loop True (database_tag rc) True (k, s) (c, ?pre @ Element ''row'' [] # ?inner) =
      tag_loop True (database_tag rc) True (k + 1, ?s1) (None, nl # ?tail)"
    using Cons.prems(3) h by (intro loop_block [where h = "database_tag rc"]) simp_all
  have "length (rrd_value ?s1) = dscnt ?s1 * (k + 1)"
    using Cons.prems(4,5) vs by (simp add: add_rows_def conv_row_def algebra_simps)
  then have rest: "tag_loop True (database_tag rc) True (k + 1, ?s1) (None, [nl] @ ?tail) =
      (Inr ((k + 1 + length rows, add_rows (length rows) (concat (map (conv_row rc (ds_def ?s1)) rows)) ?s1), True), Some (EndElement ''database''), ns)"
    using Cons.prems by (intro Cons.IH) (simp_all add: add_rows_def cur_rra_def)
  have ds1: "ds_def ?s1 = ds_def s" by (simp add: add_rows_def)
  show ?case
    unfolding nodes step rest [unfolded append.simps ds1] add_rows_add [OF Cons.prems(6)] by simp
qed

section \<open>The database while it is read\<close>

definition conv_rows :: "bool \<Rightarrow> rrd \<Rightarrow> nat \<Rightarrow> dbl list list" where
  "conv_rows rc s i = map (conv_row rc (map restored_ds (ds_def s))) (rra_log s i)"

definition vals :: "bool \<Rightarrow> rrd \<Rightarrow> nat \<Rightarrow> dbl list" where
  "vals rc s m = concat (map (\<lambda>i. concat (conv_rows rc s i)) [0 ..< m])"

definition cdps :: "rrd \<Rightarrow> nat \<Rightarrow> cdp_prep_t list" where
  "cdps s m = concat (map (\<lambda>i. map (\<lambda>j. restored_cdp (rra_def s ! i) (cdp_prep s ! (i * dscnt s + j))) [0 ..< dscnt s]) [0 ..< m])"

text \<open>After \<open>n\<close> data sources and \<open>m\<close> archives.\<close>

definition built :: "bool \<Rightarrow> rrd \<Rightarrow> nat \<Rightarrow> nat \<Rightarrow> rrd" where
  "built rc s n m =
     \<lparr>stat_head = \<lparr>version = dump_version s, ds_cnt = n, rra_cnt = m, pdp_step = pdpstep s\<rparr>,
      ds_def = map restored_ds (take n (ds_def s)), rra_def = map (restored_rra s) (take m (rra_def s)),
      live_head = \<lparr>last_up = last_up (live_head s), last_up_usec = 0\<rparr>, legacy_last_up = None,
      pdp_prep = map restored_pdp (take n (pdp_prep s)), cdp_prep = cdps s m, rra_ptr = replicate m 0, rrd_value = vals rc s m,
      pos = 0, pcdp_summary = None\<rparr>"

text \<open>Within the archive behind the first \<open>m\<close>, and within the data source behind the first \<open>k\<close>.\<close>

definition arch :: "bool \<Rightarrow> rrd \<Rightarrow> nat \<Rightarrow> rra_def_t \<Rightarrow> cdp_prep_t list \<Rightarrow> dbl list \<Rightarrow> rrd" where
  "arch rc s m r cs vs =
     (built rc s (dscnt s) m)\<lparr>stat_head := \<lparr>version = dump_version s, ds_cnt = dscnt s, rra_cnt = m + 1, pdp_step = pdpstep s\<rparr>,
       rra_def := map (restored_rra s) (take m (rra_def s)) @ [r], cdp_prep := cdps s m @ cs, rra_ptr := replicate m 0 @ [0], rrd_value := vs\<rparr>"

definition source :: "bool \<Rightarrow> rrd \<Rightarrow> nat \<Rightarrow> ds_def_t \<Rightarrow> pdp_prep_t \<Rightarrow> rrd" where
  "source rc s k d p =
     (built rc s k 0)\<lparr>stat_head := \<lparr>version = dump_version s, ds_cnt = k + 1, rra_cnt = 0, pdp_step = pdpstep s\<rparr>,
       ds_def := map restored_ds (take k (ds_def s)) @ [d], pdp_prep := map restored_pdp (take k (pdp_prep s)) @ [p]\<rparr>"

lemma dumpableD:
  assumes "dumpable s"
  shows "wf_rrd s" "i < rracnt s \<Longrightarrow> rra_dumpable (rra_def s ! i)" "k < dscnt s \<Longrightarrow> ds_dumpable (ds_def s ! k)"
    "k < dscnt s \<Longrightarrow> pdp_dumpable (pdp_prep s ! k)" "i < rracnt s \<Longrightarrow> k < dscnt s \<Longrightarrow> cdp_dumpable (cdp_prep s ! (i * dscnt s + k))"
    "k < dscnt s \<Longrightarrow> computed (dst (ds_def s ! k)) \<Longrightarrow> cdef_readable s k" "list_all printable (rrd_value s)"
    "dscnt s * sum_list (map row_cnt (rra_def s)) < 2 ^ 32"
proof -
  note d = assms [unfolded dumpable_def]
  show wf: "wf_rrd s" and "list_all printable (rrd_value s)" "dscnt s * sum_list (map row_cnt (rra_def s)) < 2 ^ 32" using d by blast+
  show "rra_dumpable (rra_def s ! i)" if "i < rracnt s" using d that wf_rrdD(3) [OF wf] by (simp add: list_all_length)
  show "ds_dumpable (ds_def s ! k)" "pdp_dumpable (pdp_prep s ! k)" if "k < dscnt s"
    using d that wf_rrdD(1,2) [OF wf] by (simp_all add: list_all_length)
  show "cdp_dumpable (cdp_prep s ! (i * dscnt s + k))" if "i < rracnt s" "k < dscnt s"
    using d block_index_less [OF that] wf_rrdD(5) [OF wf] by (simp add: list_all_length)
  show "cdef_readable s k" if "k < dscnt s" "computed (dst (ds_def s ! k))" using d that by (auto simp: list_all_iff)
qed

lemma length_cdps: "length (cdps s m) = m * dscnt s"
  unfolding cdps_def by (subst length_concat_blocks [where w = "dscnt s"]) auto

lemma length_log [simp]: "length (rra_log s i) = row_cnt (rra_def s ! i)"
  by (simp add: rra_log_def)

lemma rra_log_rows:
  assumes "dumpable s" and "i < rracnt s" and "vs \<in> set (rra_log s i)"
  shows "length vs = dscnt s" "list_all printable vs"
proof -
  have "vs \<in> set (rra_rows s i)" using assms(3) by (simp add: rra_log_def)
  then obtain r where r: "r < row_cnt (rra_def s ! i)" "vs = map (rra_cell s i r) [0 ..< dscnt s]" by (auto simp: rra_rows_def)
  show "length vs = dscnt s" using r by simp
  have "printable (rra_cell s i r d)" if "d < dscnt s" for d
  proof -
    have "rra_off s i + r * dscnt s + d < length (rrd_value s)"
      using cell_index_bounds(2) [OF r(1) that] rra_off_end [OF dumpableD(1) [OF assms(1)] assms(2)] by simp
    then show ?thesis using dumpableD(7) [OF assms(1)] by (simp add: rra_cell_def list_all_length)
  qed
  then show "list_all printable vs" using r by (simp add: list_all_iff)
qed

lemma conv_rows_shape:
  assumes "dumpable s" and "i < rracnt s"
  shows "length (conv_rows rc s i) = row_cnt (rra_def s ! i)" "vs \<in> set (conv_rows rc s i) \<Longrightarrow> length vs = dscnt s"
  using assms rra_log_rows [OF assms] wf_rrdD(1) [OF dumpableD(1) [OF assms(1)]] by (auto simp: conv_rows_def conv_row_def)

lemma length_vals:
  assumes "dumpable s" and "m \<le> rracnt s"
  shows "length (vals rc s m) = dscnt s * sum_list (map row_cnt (take m (rra_def s)))"
  using assms(2)
proof (induction m)
  case (Suc m)
  have m: "m < rracnt s" "m < length (rra_def s)" using Suc.prems wf_rrdD(3) [OF dumpableD(1) [OF assms(1)]] by simp_all
  have "length (concat (conv_rows rc s m)) = row_cnt (rra_def s ! m) * dscnt s"
    using length_concat_blocks [of "conv_rows rc s m" "dscnt s"] conv_rows_shape [OF assms(1) m(1)] by simp
  then show ?case using Suc m by (simp add: vals_def take_Suc_conv_app_nth algebra_simps)
qed (simp add: vals_def)

section \<open>One archive\<close>

lemma arch_simps [simp]:
  "stat_head (arch rc s m r cs vs) = \<lparr>version = dump_version s, ds_cnt = dscnt s, rra_cnt = m + 1, pdp_step = pdpstep s\<rparr>"
  "ds_def (arch rc s m r cs vs) = map restored_ds (take (dscnt s) (ds_def s))"
  "rra_def (arch rc s m r cs vs) = map (restored_rra s) (take m (rra_def s)) @ [r]"
  "cdp_prep (arch rc s m r cs vs) = cdps s m @ cs" "rrd_value (arch rc s m r cs vs) = vs" "cur_rra (arch rc s m r cs vs) = m"
  by (simp_all add: arch_def built_def cur_rra_def)

lemma arch_upd:
  assumes "m \<le> length (rra_def s)"
  shows "upd_rra f (arch rc s m r cs vs) = arch rc s m (f r) cs vs"
    and "arch rc s m r cs vs\<lparr>cdp_prep := cdps s m @ cs'\<rparr> = arch rc s m r cs' vs"
    and "arch rc s m r cs vs\<lparr>rrd_value := vs'\<rparr> = arch rc s m r cs vs'"
    and "rra_def (arch rc s m r cs vs) ! m = r"
proof -
  have "length (map (restored_rra s) (take m (rra_def s))) = m" using assms by simp
  then have *: "(map (restored_rra s) (take m (rra_def s)) @ [r])[m := f r] = map (restored_rra s) (take m (rra_def s)) @ [f r]"
    "(map (restored_rra s) (take m (rra_def s)) @ [r]) ! m = r"
    by (metis list_update_length) (metis \<open>length (map (restored_rra s) (take m (rra_def s))) = m\<close> nth_append_length)
  then show "rra_def (arch rc s m r cs vs) ! m = r" by simp
  show "upd_rra f (arch rc s m r cs vs) = arch rc s m (f r) cs vs" using * by (simp add: upd_rra_def) (simp add: arch_def built_def)
qed (simp_all add: arch_def built_def)

lemma rra_takes:
  assumes "m \<le> length (rra_def s)" and "cf_conv nam \<noteq> None"
  shows "takes (rra_tag rc) ''cf'' nam (arch rc s m r cs vs) (arch rc s m (r\<lparr>cf_nam := nam\<rparr>) cs vs)"
    and "n < 2 ^ 64 \<Longrightarrow> takes (rra_tag rc) ''pdp_per_row'' (show_nat n) (arch rc s m r cs vs) (arch rc s m (r\<lparr>pdp_cnt := n\<rparr>) cs vs)"
proof -
  let ?f = "\<lambda>t. let n = take 20 t in if cf_conv n = None then Inl XmlUnknownCF else Inr n"
  have u: "parse_tag_rra_cf = convert ?f"
    by (rule ext) (auto simp: parse_tag_rra_cf_def get_xml_string_def convert_def Let_def split: prod.splits sum.splits)
  have w: "word nam" "length nam \<le> 20" using assms(2) by (auto simp: cf_conv_def word_def isspace_def code_def split: if_splits)
  have "takes (rra_tag rc) ''cf'' nam (arch rc s m r cs vs) (upd_rra (\<lambda>r. r\<lparr>cf_nam := nam\<rparr>) (arch rc s m r cs vs))"
    by (rule takes_store [where f = ?f and put = "\<lambda>nam. upd_rra (\<lambda>r. r\<lparr>cf_nam := nam\<rparr>)"])
      (use assms(2) w in \<open>simp_all add: rra_tag_def eq_ci_def u first_word_id Let_def\<close>)
  then show "takes (rra_tag rc) ''cf'' nam (arch rc s m r cs vs) (arch rc s m (r\<lparr>cf_nam := nam\<rparr>) cs vs)" by (simp add: arch_upd [OF assms(1)])
  have "takes (rra_tag rc) ''pdp_per_row'' (show_nat n) (arch rc s m r cs vs) (upd_rra (\<lambda>r. r\<lparr>pdp_cnt := n\<rparr>) (arch rc s m r cs vs))" if "n < 2 ^ 64"
    by (rule takes_value(3) [where cput = "\<lambda>n. upd_rra (\<lambda>r. r\<lparr>pdp_cnt := n\<rparr>)"]) (use that in \<open>simp_all add: rra_tag_def eq_ci_def\<close>)
  then show "takes (rra_tag rc) ''pdp_per_row'' (show_nat n) (arch rc s m r cs vs) (arch rc s m (r\<lparr>pdp_cnt := n\<rparr>) cs vs)" if "n < 2 ^ 64"
    using that by (simp add: arch_upd [OF assms(1)])
qed

lemma atoi_dump_version: "atoi (dump_version s) \<ge> 3"
proof -
  have "atoi ''0003'' = 3" "atoi ''0004'' = 4" by code_simp+
  then show ?thesis by (simp add: dump_version_def)
qed

lemma rra_blocks:
  assumes v: "atoi (version (stat_head t)) \<ge> 2"
  shows "rra_tag rc ''params'' t rd = block (parse_tag_rra_params t rd)" "rra_tag rc ''cdp_prep'' t rd = block (parse_tag_rra_cdp_prep t rd)"
    "rra_tag rc ''database'' t rd = block (parse_tag_rra_database rc t rd)" "rra_tag rc ''/rra'' t rd = (EndTag, rd)"
  using v by (simp_all add: rra_tag_def eq_ci_def Let_def)

lemma restored_params_row_cnt [simp]: "row_cnt (restored_params s r q) = row_cnt q"
  by (simp add: restored_params_def Let_def split: option.splits cf_en.splits)

lemma restored_rra_row_cnt [simp]: "row_cnt (restored_rra s r) = row_cnt r"
  by (simp add: restored_rra_def)

lemma parse_database:
  assumes d: "dumpable s" and m: "m < rracnt s" and r: "row_cnt r = 0"
  shows "parse_tag_rra_database rc (arch rc s m r cs (vals rc s m))
      (c, nl # concat (map (\<lambda>(ix, vs). dump_row fmt (f ix) vs) (enumerate 0 (rra_log s m))) @ tabs 2 # EndElement ''database'' # ns) =
    (Inr (arch rc s m (r\<lparr>row_cnt := row_cnt (rra_def s ! m)\<rparr>) cs (vals rc s (Suc m))), Some (EndElement ''database''), ns)"
proof -
  note wf = dumpableD(1) [OF d]
  let ?t = "arch rc s m r cs (vals rc s m)" and ?k = "sum_list (map row_cnt (take m (rra_def s)))"
  have L: "length (rra_def s) = rracnt s" "length (ds_def s) = dscnt s" using wf_rrdD [OF wf] by simp_all
  have "?k + row_cnt (rra_def s ! m) = sum_list (map row_cnt (take (Suc m) (rra_def s)))" using m L by (simp add: take_Suc_conv_app_nth)
  also have "\<dots> \<le> sum_list (map row_cnt (rra_def s))"
    by (metis append_take_drop_id le_add1 map_append sum_list_append)
  finally have small: "dscnt s * (?k + row_cnt (rra_def s ! m)) < 2 ^ 32" using dumpableD(8) [OF d] by (metis le_less_trans mult_le_mono2)
  have rows: "list_all (\<lambda>vs. length vs = dscnt s \<and> list_all printable vs) (rra_log s m)" using rra_log_rows [OF d m] by (simp add: list_all_iff)
  have "tag_loop True (database_tag rc) True (?k, ?t)
      (c, [nl] @ concat (map (\<lambda>(ix, vs). dump_row fmt (f ix) vs) (enumerate 0 (rra_log s m))) @ tabs 2 # EndElement ''database'' # ns) =
    (Inr ((?k + length (rra_log s m), add_rows (length (rra_log s m)) (concat (map (conv_row rc (ds_def ?t)) (rra_log s m))) ?t), True),
     Some (EndElement ''database''), ns)"
    using rows small L m length_vals [OF d, of m] by (intro loop_rows) simp_all
  moreover have "add_rows (length (rra_log s m)) (concat (map (conv_row rc (ds_def ?t)) (rra_log s m))) ?t =
      arch rc s m (r\<lparr>row_cnt := row_cnt (rra_def s ! m)\<rparr>) cs (vals rc s (Suc m))"
    using m L r by (simp add: add_rows_def arch_upd vals_def conv_rows_def)
  moreover have "map row_cnt (take (cur_rra ?t) (rra_def ?t)) = map row_cnt (take m (rra_def s))"
    using L m by (intro nth_equalityI) simp_all
  ultimately show ?thesis by (simp add: parse_tag_rra_database_def Let_def)
qed

lemma add_rra_built:
  assumes "dumpable s" and "m < rracnt s"
  shows "add_rra (built rc s (dscnt s) m) = arch rc s m rra_cleared (replicate (dscnt s) cdp_cleared) (vals rc s m)"
  using assms wf_rrdD(3) [OF dumpableD(1) [OF assms(1)]] length_cdps [of s m]
  by (simp add: add_rra_def arch_def built_def mult.commute)

lemma built_Suc:
  assumes "dumpable s" and "m < rracnt s"
  shows "arch rc s m (restored_rra s (rra_def s ! m)) (map (\<lambda>j. restored_cdp (rra_def s ! m) (cdp_prep s ! (m * dscnt s + j))) [0 ..< dscnt s])
      (vals rc s (Suc m)) = built rc s (dscnt s) (Suc m)"
  using assms wf_rrdD(3) [OF dumpableD(1) [OF assms(1)]]
  by (simp add: arch_def built_def cdps_def take_Suc_conv_app_nth replicate_append_same)

lemma parse_rra:
  assumes d: "dumpable s" and m: "m < rracnt s" and nodes: "rra_nodes fmt s m = tabs 1 # Element ''rra'' [] # body @ [nl]"
  shows "parse_tag_rra rc rnd (built rc s (dscnt s) m) (c, body @ ns) = (Inr (built rc s (dscnt s) (Suc m)), Some (EndElement ''rra''), ns)"
proof -
  note wf = dumpableD(1) [OF d]
  define r where "r = rra_def s ! m"
  have L: "m \<le> length (rra_def s)" "length (rra_def s) = rracnt s" "length (ds_def s) = dscnt s" using wf_rrdD [OF wf] m by simp_all
  have rd: "rra_dumpable r" using dumpableD(2) [OF d m] by (simp add: r_def)
  obtain cf where cf: "cf_conv (cf_nam r) = Some cf" using wf_rrdD(11) [OF wf m] by (auto simp: r_def)
  have v: "atoi (version (stat_head (arch rc s m q cs vs))) \<ge> 2" for q cs vs using atoi_dump_version [of s] by simp
  let ?q1 = "rra_cleared\<lparr>cf_nam := cf_nam r\<rparr>" let ?q2 = "?q1\<lparr>pdp_cnt := pdp_cnt r\<rparr>" let ?q3 = "restored_params s r ?q2"
  let ?q4 = "?q3\<lparr>row_cnt := row_cnt r\<rparr>"
  let ?z = "replicate (dscnt s) cdp_cleared" and ?cs = "map (\<lambda>j. restored_cdp r (cdp_prep s ! (m * dscnt s + j))) [0 ..< dscnt s]"
  let ?e1 = "[tabs 2, EndElement ''database'', nl, tabs 1, EndElement ''rra'']"
  let ?rows = "concat (map (\<lambda>(ix, vs). dump_row fmt (row_time s r ix) vs) (enumerate 0 (rra_log s m)))"
  let ?db = "nl # ?rows @ tabs 2 # EndElement ''database'' # [nl, tabs 1, EndElement ''rra''] @ ns"
  let ?cdp = "nl # concat (map (\<lambda>ii. dump_cdp r (cdp_prep s ! (m * dscnt s + ii))) [0 ..< dscnt s]) @ tabs 2 # EndElement ''cdp_prep'' #
    [nl, tabs 2] @ Element ''database'' [] # ?db"
  let ?par = "nl # xml_fields 2 (param_fields s r) @ tabs 2 # EndElement ''params'' # [nl, tabs 2] @ Element ''cdp_prep'' [] # ?cdp"
  let ?com = "[Other '' '', Other (''<!-- '' @ show_nat (u64 (int (pdp_cnt r) * int (pdpstep s))) @ '' seconds -->''), nl, nl, tabs 2]"
  have body: "body @ ns = [nl, tabs 2] @ elem ''cf'' (cf_nam r) @ [nl, tabs 2] @ elem ''pdp_per_row'' (show_nat (pdp_cnt r)) @ ?com @ Element ''params'' [] # ?par"
    using nodes by (simp add: rra_nodes_def Let_def field_def flip: r_def)
  have s1: "tag_loop True (rra_tag rc) True (arch rc s m rra_cleared ?z (vals rc s m)) (c, body @ ns) =
      tag_loop True (rra_tag rc) True (arch rc s m ?q1 ?z (vals rc s m))
        (None, [nl, tabs 2] @ elem ''pdp_per_row'' (show_nat (pdp_cnt r)) @ ?com @ Element ''params'' [] # ?par)"
    unfolding body by (rule loop_elem [OF rra_takes(1) [OF L(1)]]) (use cf in simp_all)
  have s2: "tag_loop True (rra_tag rc) True (arch rc s m ?q1 ?z (vals rc s m))
        (None, [nl, tabs 2] @ elem ''pdp_per_row'' (show_nat (pdp_cnt r)) @ ?com @ Element ''params'' [] # ?par) =
      tag_loop True (rra_tag rc) True (arch rc s m ?q2 ?z (vals rc s m)) (None, ?com @ Element ''params'' [] # ?par)"
    by (rule loop_elem [OF rra_takes(2) [OF L(1)]]) (use cf rd in \<open>auto simp: rra_dumpable_def\<close>)
  have p: "parse_tag_rra_params (arch rc s m ?q2 ?z (vals rc s m)) (Some (Element ''params'' []), ?par) =
      (Inr (arch rc s m ?q3 ?z (vals rc s m)), Some (EndElement ''params''), [nl, tabs 2] @ Element ''cdp_prep'' [] # ?cdp)"
    unfolding parse_params [OF rd] arch_simps(6) arch_upd(4) [OF L(1)] arch_upd(1) [OF L(1)] by simp
  have s3: "tag_loop True (rra_tag rc) True (arch rc s m ?q2 ?z (vals rc s m)) (None, ?com @ Element ''params'' [] # ?par) =
      tag_loop True (rra_tag rc) True (arch rc s m ?q3 ?z (vals rc s m)) (None, [nl, tabs 2] @ Element ''cdp_prep'' [] # ?cdp)"
    by (rule loop_block [where h = "rra_tag rc"]) (simp_all only: rra_blocks [OF v] p block_def prod.case, simp_all)
  have k: "parse_tag_rra_cdp_prep (arch rc s m ?q3 ?z (vals rc s m)) (Some (Element ''cdp_prep'' []), ?cdp) =
      (Inr (arch rc s m ?q3 ?cs (vals rc s m)), Some (EndElement ''cdp_prep''), [nl, tabs 2] @ Element ''database'' [] # ?db)"
    using parse_cdp_prep [of "arch rc s m ?q3 ?z (vals rc s m)" "\<lambda>i. cdp_prep s ! (m * dscnt s + i)" r] dumpableD(5) [OF d m] rd
      length_cdps [of s m] arch_upd(2) [OF L(1)] by (simp add: mult.commute)
  have s4: "tag_loop True (rra_tag rc) True (arch rc s m ?q3 ?z (vals rc s m)) (None, [nl, tabs 2] @ Element ''cdp_prep'' [] # ?cdp) =
      tag_loop True (rra_tag rc) True (arch rc s m ?q3 ?cs (vals rc s m)) (None, [nl, tabs 2] @ Element ''database'' [] # ?db)"
    by (rule loop_block [where h = "rra_tag rc"]) (simp_all only: rra_blocks [OF v] k block_def prod.case, simp_all)
  have b: "parse_tag_rra_database rc (arch rc s m ?q3 ?cs (vals rc s m)) (Some (Element ''database'' []), ?db) =
      (Inr (arch rc s m ?q4 ?cs (vals rc s (Suc m))), Some (EndElement ''database''), [nl, tabs 1, EndElement ''rra''] @ ns)"
    unfolding r_def by (rule parse_database [OF d m]) (simp add: rra_cleared_def)
  have s5: "tag_loop True (rra_tag rc) True (arch rc s m ?q3 ?cs (vals rc s m)) (None, [nl, tabs 2] @ Element ''database'' [] # ?db) =
      tag_loop True (rra_tag rc) True (arch rc s m ?q4 ?cs (vals rc s (Suc m))) (None, [nl, tabs 1, EndElement ''rra''] @ ns)"
    by (rule loop_block [where h = "rra_tag rc"]) (simp_all only: rra_blocks [OF v] b block_def prod.case, simp_all)
  have s6: "tag_loop True (rra_tag rc) True (arch rc s m ?q4 ?cs (vals rc s (Suc m))) (None, [nl, tabs 1] @ EndElement ''rra'' # ns) =
      (Inr (arch rc s m ?q4 ?cs (vals rc s (Suc m)), True), Some (EndElement ''rra''), ns)"
    by (rule loop_end) (simp_all only: rra_blocks [OF v], simp)
  have "arch rc s m ?q4 ?cs (vals rc s (Suc m)) = built rc s (dscnt s) (Suc m)"
    using built_Suc [OF d m] by (simp add: restored_rra_def r_def)
  then show ?thesis
    unfolding parse_tag_rra_def add_rra_built [OF d m] s1 s2 s3 s4 s5 using s6 by simp
qed

lemma rra_nodes_split: "\<exists>body. rra_nodes fmt s m = tabs 1 # Element ''rra'' [] # body @ [nl]"
  by (simp add: rra_nodes_def Let_def)

section \<open>One data source\<close>

definition ds_cleared :: ds_def_t where
  "ds_cleared = \<lparr>ds_nam = [], dst = [], mrhb_cnt = 0, min_val = 0, max_val = 0, cdef = []\<rparr>"

definition pdp_cleared :: pdp_prep_t where
  "pdp_cleared = \<lparr>last_ds = [], unkn_sec_cnt = 0, pdp_val = 0\<rparr>"

lemma source_upd:
  assumes "k \<le> length (ds_def s)" and "k \<le> length (pdp_prep s)"
  shows "upd_cur_ds f (source rc s k d p) = source rc s k (f d) p" and "upd_cur_pdp g (source rc s k d p) = source rc s k d (g p)"
    and "cur_ds (source rc s k d p) = k" and "ds_def (source rc s k d p) ! k = d" and "dscnt (source rc s k d p) = Suc k"
proof -
  let ?a = "map restored_ds (take k (ds_def s))" and ?b = "map restored_pdp (take k (pdp_prep s))"
  have l: "length ?a = k" "length ?b = k" using assms by simp_all
  show c: "cur_ds (source rc s k d p) = k" "dscnt (source rc s k d p) = Suc k" by (simp_all add: cur_ds_def source_def)
  have a: "(?a @ [d])[k := f d] = ?a @ [f d]" "(?a @ [d]) ! k = d" using l(1) by (metis list_update_length) (metis l(1) nth_append_length)
  have b: "(?b @ [p])[k := g p] = ?b @ [g p]" "(?b @ [p]) ! k = p" using l(2) by (metis list_update_length) (metis l(2) nth_append_length)
  have e: "ds_def (source rc s k d p) = ?a @ [d]" "pdp_prep (source rc s k d p) = ?b @ [p]" by (simp_all add: source_def)
  show "ds_def (source rc s k d p) ! k = d" using a(2) e(1) by simp
  show "upd_cur_ds f (source rc s k d p) = source rc s k (f d) p" unfolding upd_cur_ds_def c(1) e a by (simp add: source_def)
  show "upd_cur_pdp g (source rc s k d p) = source rc s k d (g p)" unfolding upd_cur_pdp_def c(1) e b by (simp add: source_def)
qed

lemma add_ds_built:
  assumes "k \<le> length (ds_def s)" and "k \<le> length (pdp_prep s)"
  shows "add_ds (built rc s k 0) = source rc s k ds_cleared pdp_cleared"
  using assms by (simp add: add_ds_def source_def built_def ds_cleared_def pdp_cleared_def)

lemma source_built:
  assumes "k < length (ds_def s)" and "k < length (pdp_prep s)"
  shows "source rc s k (restored_ds (ds_def s ! k)) (restored_pdp (pdp_prep s ! k)) = built rc s (Suc k) 0"
  using assms by (simp add: source_def built_def take_Suc_conv_app_nth)

lemma ds_takes:
  assumes k: "k \<le> length (ds_def s)" "k \<le> length (pdp_prep s)"
  shows "word nam \<Longrightarrow> length nam < 20 \<Longrightarrow> takes ds_tag ''name'' (spaced nam) (source rc s k d p) (source rc s k (d\<lparr>ds_nam := nam\<rparr>) p)"
    and "dst_conv ty \<noteq> None \<Longrightarrow> takes ds_tag ''type'' (spaced ty) (source rc s k d p) (source rc s k (d\<lparr>dst := ty\<rparr>) p)"
    and "n < 2 ^ 64 \<Longrightarrow> takes ds_tag ''minimal_heartbeat'' (show_nat n) (source rc s k d p) (source rc s k (d\<lparr>mrhb_cnt := n\<rparr>) p)"
    and "printable v \<Longrightarrow> takes ds_tag ''min'' (dump_double v) (source rc s k d p) (source rc s k (d\<lparr>min_val := reread v\<rparr>) p)"
    and "printable v \<Longrightarrow> takes ds_tag ''max'' (dump_double v) (source rc s k d p) (source rc s k (d\<lparr>max_val := reread v\<rparr>) p)"
    and "word t \<Longrightarrow> length t < 30 \<Longrightarrow> takes ds_tag ''last_ds'' t (source rc s k d p) (source rc s k d (p\<lparr>last_ds := t\<rparr>))"
    and "printable v \<Longrightarrow> takes ds_tag ''value'' (dump_double v) (source rc s k d p) (source rc s k d (p\<lparr>pdp_val := reread v\<rparr>))"
    and "n < 2 ^ 64 \<Longrightarrow> takes ds_tag ''unknown_sec'' (spaced (show_nat n)) (source rc s k d p) (source rc s k d (p\<lparr>unkn_sec_cnt := n\<rparr>))"
proof -
  note upd = source_upd [OF k]
  let ?f = "\<lambda>t. if dst_conv t = None then Inl XmlUnknownDst else Inr (strncpy_field 20 t)"
  have ty: "word ty" "strncpy_field 20 ty = ty" if "dst_conv ty \<noteq> None"
    using that by (auto simp: dst_conv_def word_def isspace_def code_def strncpy_field_def split: if_splits)
  have u: "parse_tag_ds_type = convert ?f" by (rule ext) (simp add: parse_tag_ds_type_def)
  show "takes ds_tag ''type'' (spaced ty) (source rc s k d p) (source rc s k (d\<lparr>dst := ty\<rparr>) p)" if "dst_conv ty \<noteq> None"
    using takes_store [of ds_tag "''type''" ?f "\<lambda>ty. upd_cur_ds (\<lambda>d. d\<lparr>dst := ty\<rparr>)" "spaced ty" ty "source rc s k d p"] that ty [OF that]
    by (simp add: ds_tag_def eq_ci_def u first_word_spaced upd)
  show "word nam \<Longrightarrow> length nam < 20 \<Longrightarrow> takes ds_tag ''name'' (spaced nam) (source rc s k d p) (source rc s k (d\<lparr>ds_nam := nam\<rparr>) p)"
    using takes_value(6) [of ds_tag "''name''" 20 "\<lambda>nam. upd_cur_ds (\<lambda>d. d\<lparr>ds_nam := nam\<rparr>)" nam "source rc s k d p"]
    by (simp add: ds_tag_def eq_ci_def upd)
  show "n < 2 ^ 64 \<Longrightarrow> takes ds_tag ''minimal_heartbeat'' (show_nat n) (source rc s k d p) (source rc s k (d\<lparr>mrhb_cnt := n\<rparr>) p)"
    using takes_value(3) [of ds_tag "''minimal_heartbeat''" "\<lambda>n. upd_cur_ds (\<lambda>d. d\<lparr>mrhb_cnt := n\<rparr>)" n "source rc s k d p"]
    by (simp add: ds_tag_def eq_ci_def upd)
  show "printable v \<Longrightarrow> takes ds_tag ''min'' (dump_double v) (source rc s k d p) (source rc s k (d\<lparr>min_val := reread v\<rparr>) p)"
    using takes_value(1) [of ds_tag "''min''" "\<lambda>v. upd_cur_ds (\<lambda>d. d\<lparr>min_val := v\<rparr>)" v "source rc s k d p"]
    by (simp add: ds_tag_def eq_ci_def upd)
  show "printable v \<Longrightarrow> takes ds_tag ''max'' (dump_double v) (source rc s k d p) (source rc s k (d\<lparr>max_val := reread v\<rparr>) p)"
    using takes_value(1) [of ds_tag "''max''" "\<lambda>v. upd_cur_ds (\<lambda>d. d\<lparr>max_val := v\<rparr>)" v "source rc s k d p"]
    by (simp add: ds_tag_def eq_ci_def upd)
  show "word t \<Longrightarrow> length t < 30 \<Longrightarrow> takes ds_tag ''last_ds'' t (source rc s k d p) (source rc s k d (p\<lparr>last_ds := t\<rparr>))"
    using takes_value(5) [of ds_tag "''last_ds''" 30 "\<lambda>t. upd_cur_pdp (\<lambda>p. p\<lparr>last_ds := t\<rparr>)" t "source rc s k d p"]
    by (simp add: ds_tag_def eq_ci_def upd)
  show "printable v \<Longrightarrow> takes ds_tag ''value'' (dump_double v) (source rc s k d p) (source rc s k d (p\<lparr>pdp_val := reread v\<rparr>))"
    using takes_value(1) [of ds_tag "''value''" "\<lambda>v. upd_cur_pdp (\<lambda>p. p\<lparr>pdp_val := v\<rparr>)" v "source rc s k d p"]
    by (simp add: ds_tag_def eq_ci_def upd)
  show "n < 2 ^ 64 \<Longrightarrow> takes ds_tag ''unknown_sec'' (spaced (show_nat n)) (source rc s k d p) (source rc s k d (p\<lparr>unkn_sec_cnt := n\<rparr>))"
    using takes_value(4) [of ds_tag "''unknown_sec''" "\<lambda>n. upd_cur_pdp (\<lambda>p. p\<lparr>unkn_sec_cnt := n\<rparr>)" n "source rc s k d p"]
    by (simp add: ds_tag_def eq_ci_def upd)
qed

lemma lookup_DS_names: "map ds_nam ds = map ds_nam es \<Longrightarrow> lookup_DS_from i ds = lookup_DS_from i es"
proof (induction ds arbitrary: i es)
  case Nil
  then show ?case by (simp add: fun_eq_iff)
next
  case (Cons d ds)
  then obtain e fs where "es = e # fs" "ds_nam d = ds_nam e" "map ds_nam ds = map ds_nam fs" by (auto simp: Cons_eq_map_conv)
  then show ?case using Cons.IH [of fs "Suc i"] by (simp add: fun_eq_iff)
qed

lemma restored_ds_nam [simp]: "ds_nam (restored_ds d) = ds_nam d" "dst (restored_ds d) = dst d"
  by (simp_all add: restored_ds_def)

lemma cdef_takes:
  assumes k: "k < length (ds_def s)" "k < length (pdp_prep s)" and c: "cdef_readable s k" and d: "ds_nam d = ds_nam (ds_def s ! k)"
  shows "takes ds_tag ''cdef'' (spaced (rpn_compact2str (ds_def s) (cdef (ds_def s ! k)))) (source rc s k d p)
    (source rc s k (d\<lparr>cdef := cdef (ds_def s ! k)\<rparr>) p)"
proof -
  let ?t = "rpn_compact2str (ds_def s) (cdef (ds_def s ! k))" and ?s = "source rc s k d p"
  have "map ds_nam (ds_def ?s) = map ds_nam (take (Suc k) (ds_def s))"
    using k(1) d by (simp add: source_def take_Suc_conv_app_nth comp_def)
  then have "lookup_DS_from 0 (ds_def ?s) = lookup_DS_from 0 (take (Suc k) (ds_def s))" by (rule lookup_DS_names)
  moreover have "take (dscnt ?s) (ds_def ?s) = ds_def ?s" using k(1) by (simp add: source_def)
  ultimately have l: "lookup_DS ?s = lookup_DS_from 0 (take (Suc k) (ds_def s))" by (simp add: lookup_DS_def fun_eq_iff)
  have u: "?s\<lparr>ds_def := (ds_def ?s)[k := (ds_def ?s ! k)\<lparr>cdef := c\<rparr>]\<rparr> = source rc s k (d\<lparr>cdef := c\<rparr>) p" for c
    using source_upd(1) [of k s "\<lambda>d. d\<lparr>cdef := c\<rparr>" rc d p] source_upd(3) [of k s rc d p] k by (simp add: upd_cur_ds_def)
  have w: "word ?t" and q: "parseCDEF_DS ?t (cur_ds ?s) ?s = (None, source rc s k (d\<lparr>cdef := cdef (ds_def s ! k)\<rparr>) p)"
    using c u k source_upd(3) [of k s rc d p]
    by (auto simp: cdef_readable_def parseCDEF_DS_def l Let_def split: sum.splits)
  show ?thesis unfolding takes_def
  proof (intro allI)
    fix c ns
    obtain c' ns' where e: "convert Inr (c, text_node (spaced ?t) @ EndElement ''cdef'' # ns) = (Inr (first_word (spaced ?t)), c', ns')"
      "expect_element_end ''cdef'' (c', ns') = (Inr (), Some (EndElement ''cdef''), ns)" using convert_elem by blast
    then have "get_xml_text (c, text_node (spaced ?t) @ EndElement ''cdef'' # ns) = (Inr ?t, c', ns')"
      by (auto simp: convert_def first_word_spaced [OF w] split: prod.splits sum.splits)
    moreover have "ds_tag ''cdef'' ?s rd = parse_tag_ds_cdef ?s rd" for rd by (simp add: ds_tag_def eq_ci_def)
    ultimately show "\<exists>c' ns'. ds_tag ''cdef'' ?s (c, text_node (spaced ?t) @ EndElement ''cdef'' # ns) =
        (FieldDone None (source rc s k (d\<lparr>cdef := cdef (ds_def s ! k)\<rparr>) p), c', ns') \<and>
        expect_element_end ''cdef'' (c', ns') = (Inr (), Some (EndElement ''cdef''), ns)"
      using e(2) q by (auto simp: parse_tag_ds_cdef_def)
  qed
qed

lemma takes_ds_fields:
  assumes d: "dumpable s" and k: "k < dscnt s"
  shows "takes_all ds_tag (ds_fields s (ds_def s ! k)) (source rc s k ds_cleared p) (source rc s k (restored_ds (ds_def s ! k)) p)"
proof -
  note wf = dumpableD(1) [OF d]
  let ?d = "ds_def s ! k"
  have L: "k \<le> length (ds_def s)" "k \<le> length (pdp_prep s)" "k < length (ds_def s)" "k < length (pdp_prep s)" using wf_rrdD [OF wf] k by simp_all
  have dd: "ds_dumpable ?d" using dumpableD(3) [OF d k] .
  note dd = dd [unfolded ds_dumpable_def] and t = ds_takes [OF L(1,2)]
  have ty: "dst_conv (dst ?d) \<noteq> None" using wf_rrdD(12) [OF wf k] by auto
  have head: "takes_all ds_tag [(''name'', spaced (ds_nam ?d)), (''type'', spaced (dst ?d))] (source rc s k ds_cleared p)
      (source rc s k (ds_cleared\<lparr>ds_nam := ds_nam ?d, dst := dst ?d\<rparr>) p)"
    by (rule takes_all_Cons, rule t(1), use dd in blast, use dd in blast, rule takes_all_Cons, rule t(2) [OF ty]) simp
  show ?thesis
  proof (cases "computed (dst ?d)")
    case True
    have "takes_all ds_tag [(''cdef'', spaced (rpn_compact2str (ds_def s) (cdef ?d)))] (source rc s k (ds_cleared\<lparr>ds_nam := ds_nam ?d, dst := dst ?d\<rparr>) p)
        (source rc s k (restored_ds ?d) p)"
      using cdef_takes [OF L(3,4) dumpableD(6) [OF d k True], of "ds_cleared\<lparr>ds_nam := ds_nam ?d, dst := dst ?d\<rparr>"] True
      by (simp add: restored_ds_def ds_cleared_def)
    from takes_all_append [OF head this] show ?thesis using True by (simp add: ds_fields_def computed_def del: takes_all.simps)
  next
    case False
    have "takes_all ds_tag [(''minimal_heartbeat'', show_nat (mrhb_cnt ?d)), (''min'', dump_double (min_val ?d)), (''max'', dump_double (max_val ?d))]
        (source rc s k q p) (source rc s k (q\<lparr>mrhb_cnt := mrhb_cnt ?d, min_val := reread (min_val ?d), max_val := reread (max_val ?d)\<rparr>) p)" for q
      by (rule takes_all_Cons, rule t(3), use dd in blast, rule takes_all_Cons, rule t(4), use dd in blast, rule takes_all_Cons, rule t(5), use dd in blast) simp
    from takes_all_append [OF head this] show ?thesis
      using False by (simp add: ds_fields_def computed_def restored_ds_def ds_cleared_def del: takes_all.simps)
  qed
qed

lemma takes_pdp_fields:
  assumes d: "dumpable s" and k: "k < dscnt s"
  shows "takes_all ds_tag (pdp_fields (pdp_prep s ! k)) (source rc s k q pdp_cleared) (source rc s k q (restored_pdp (pdp_prep s ! k)))"
proof -
  let ?p = "pdp_prep s ! k"
  have L: "k \<le> length (ds_def s)" "k \<le> length (pdp_prep s)" using wf_rrdD [OF dumpableD(1) [OF d]] k by simp_all
  have dd: "pdp_dumpable ?p" using dumpableD(4) [OF d k] .
  note dd = dd [unfolded pdp_dumpable_def] and t = ds_takes [OF L]
  show ?thesis unfolding pdp_fields_def
    by (rule takes_all_Cons, rule t(6), use dd in blast, use dd in blast, rule takes_all_Cons, rule t(7), use dd in blast,
      rule takes_all_Cons, rule t(8), use dd in blast) (cases ?p, simp add: restored_pdp_def pdp_cleared_def)
qed

lemma parse_ds:
  assumes d: "dumpable s" and k: "k < dscnt s"
  shows "parse_tag_ds (built rc s k 0)
      (c, nl # xml_fields 2 (ds_fields s (ds_def s ! k)) @ [nl, tabs 2, Other ''<!-- PDP Status -->'', nl] @
        xml_fields 2 (pdp_fields (pdp_prep s ! k)) @ tabs 1 # EndElement ''ds'' # ns) =
    (Inr (built rc s (Suc k) 0), Some (EndElement ''ds''), ns)"
proof -
  have L: "k < length (ds_def s)" "k < length (pdp_prep s)" using wf_rrdD [OF dumpableD(1) [OF d]] k by simp_all
  let ?com = "[nl, tabs 2, Other ''<!-- PDP Status -->'', nl]" and ?r = "restored_ds (ds_def s ! k)"
  have "tag_loop True ds_tag True (source rc s k ds_cleared pdp_cleared) (c, [nl] @ xml_fields 2 (ds_fields s (ds_def s ! k)) @ ?com @
        xml_fields 2 (pdp_fields (pdp_prep s ! k)) @ tabs 1 # EndElement ''ds'' # ns) =
      tag_loop True ds_tag True (source rc s k ?r pdp_cleared) (None, nl # ?com @ xml_fields 2 (pdp_fields (pdp_prep s ! k)) @ tabs 1 # EndElement ''ds'' # ns)"
    by (rule loop_fields [OF takes_ds_fields [OF d k]]) (simp_all add: ds_fields_def)
  also have "\<dots> = tag_loop True ds_tag True (source rc s k ?r pdp_cleared) (None, (nl # ?com) @ xml_fields 2 (pdp_fields (pdp_prep s ! k)) @ tabs 1 # EndElement ''ds'' # ns)"
    by simp
  also have "\<dots> = tag_loop True ds_tag True (source rc s k ?r (restored_pdp (pdp_prep s ! k))) (None, nl # tabs 1 # EndElement ''ds'' # ns)"
    by (rule loop_fields [OF takes_pdp_fields [OF d k]]) (simp_all add: pdp_fields_def)
  also have "\<dots> = (Inr (built rc s (Suc k) 0, True), Some (EndElement ''ds''), ns)"
    using loop_end [of "[nl, tabs 1]" ds_tag "''ds''"] source_built [OF L] by (simp add: ds_tag_def eq_ci_def)
  finally have loop: "tag_loop True ds_tag True (add_ds (built rc s k 0)) (c, nl # xml_fields 2 (ds_fields s (ds_def s ! k)) @ ?com @
        xml_fields 2 (pdp_fields (pdp_prep s ! k)) @ tabs 1 # EndElement ''ds'' # ns) = (Inr (built rc s (Suc k) 0, True), Some (EndElement ''ds''), ns)"
    using L by (simp add: add_ds_built)
  moreover have "rracnt (built rc s k 0) = 0" by (simp add: built_def)
  ultimately show ?thesis unfolding parse_tag_ds_def by simp
qed

section \<open>The whole document\<close>

text \<open>A sequence of blocks, each read by the handler of its tag.\<close>

lemma loop_blocks:
  assumes "\<And>i. i < n \<Longrightarrow> \<exists>pre tag body suf. f i = pre @ Element tag [] # body @ suf \<and> blanks pre \<and> blanks suf \<and>
      (\<forall>c ns. \<exists>c'. h tag (st i) (c, body @ ns) = (BlockDone (Inr (st (Suc i))), c', ns))"
    and "blanks os"
  shows "\<exists>os'. blanks os' \<and> tag_loop strict h True (st 0) (None, os @ concat (map f [0 ..< n]) @ ns) = tag_loop strict h True (st n) (None, os' @ ns)"
  using assms
proof (induction n arbitrary: ns)
  case 0
  then show ?case by (intro exI [of _ os]) simp
next
  case (Suc n)
  obtain pre tag body suf where b: "f n = pre @ Element tag [] # body @ suf" "blanks pre" "blanks suf"
    "\<And>c ns. \<exists>c'. h tag (st n) (c, body @ ns) = (BlockDone (Inr (st (Suc n))), c', ns)"
    using Suc.prems(1) [of n] by (metis lessI)
  obtain os' where IH: "blanks os'"
    "tag_loop strict h True (st 0) (None, os @ concat (map f [0 ..< n]) @ f n @ ns) = tag_loop strict h True (st n) (None, os' @ f n @ ns)"
    using Suc.IH [of "f n @ ns"] Suc.prems by (metis less_SucI)
  obtain c' where h: "h tag (st n) (Some (Element tag []), body @ suf @ ns) = (BlockDone (Inr (st (Suc n))), c', suf @ ns)" using b(4) by blast
  have "tag_loop strict h True (st n) (None, (os' @ pre) @ Element tag [] # body @ suf @ ns) = tag_loop strict h True (st (Suc n)) (None, suf @ ns)"
    by (rule loop_block [where h = h and tag = tag and a = "[]" and s = "st n", OF _ h]) (use IH(1) b(2) in simp_all)
  then show ?case using IH(2) b(1,3) by (intro exI [of _ suf]) simp
qed

lemma rrd_tags:
  "rrd_tag rc rnd ''ds'' t rd = block (parse_tag_ds t rd)" "rrd_tag rc rnd ''rra'' t rd = block (parse_tag_rra rc rnd t rd)"
  "rrd_tag rc rnd ''/rrd'' t rd = (EndTag, rd)"
  by (simp_all add: rrd_tag_def eq_ci_def)

lemma loop_dss:
  assumes d: "dumpable s" and "blanks os"
  shows "\<exists>os'. blanks os' \<and> tag_loop True (rrd_tag rc rnd) True (built rc s 0 0) (None, os @ concat (map (dump_ds s) [0 ..< dscnt s]) @ ns) =
    tag_loop True (rrd_tag rc rnd) True (built rc s (dscnt s) 0) (None, os' @ ns)"
proof (rule loop_blocks [where st = "\<lambda>k. built rc s k 0"])
  fix k
  assume k: "k < dscnt s"
  let ?body = "nl # xml_fields 2 (ds_fields s (ds_def s ! k)) @ [nl, tabs 2, Other ''<!-- PDP Status -->'', nl] @
    xml_fields 2 (pdp_fields (pdp_prep s ! k)) @ [tabs 1, EndElement ''ds'']"
  have "dump_ds s k = [tabs 1] @ Element ''ds'' [] # ?body @ [nl, nl]" by (simp add: dump_ds_def)
  moreover have "\<exists>c'. rrd_tag rc rnd ''ds'' (built rc s k 0) (c, ?body @ ns) = (BlockDone (Inr (built rc s (Suc k) 0)), c', ns)" for c ns
    using parse_ds [OF d k, of rc c ns] by (simp add: rrd_tags block_def)
  ultimately show "\<exists>pre tag body suf. dump_ds s k = pre @ Element tag [] # body @ suf \<and> blanks pre \<and> blanks suf \<and>
      (\<forall>c ns. \<exists>c'. rrd_tag rc rnd tag (built rc s k 0) (c, body @ ns) = (BlockDone (Inr (built rc s (Suc k) 0)), c', ns))"
    by (intro exI [of _ "[tabs 1]"] exI [of _ "''ds''"] exI [of _ ?body] exI [of _ "[nl, nl]"]) (simp del: append_Cons add: append_Cons [symmetric])
qed fact

lemma loop_rras:
  assumes d: "dumpable s" and "blanks os"
  shows "\<exists>os'. blanks os' \<and>
    tag_loop True (rrd_tag rc rnd) True (built rc s (dscnt s) 0) (None, os @ concat (map (rra_nodes fmt s) [0 ..< rracnt s]) @ ns) =
    tag_loop True (rrd_tag rc rnd) True (built rc s (dscnt s) (rracnt s)) (None, os' @ ns)"
proof (rule loop_blocks [where st = "built rc s (dscnt s)"])
  fix m
  assume m: "m < rracnt s"
  obtain body where body: "rra_nodes fmt s m = tabs 1 # Element ''rra'' [] # body @ [nl]" using rra_nodes_split by blast
  have "\<exists>c'. rrd_tag rc rnd ''rra'' (built rc s (dscnt s) m) (c, body @ ns) = (BlockDone (Inr (built rc s (dscnt s) (Suc m))), c', ns)" for c ns
    using parse_rra [OF d m body, of rc rnd c ns] by (simp add: rrd_tags block_def)
  then show "\<exists>pre tag body suf. rra_nodes fmt s m = pre @ Element tag [] # body @ suf \<and> blanks pre \<and> blanks suf \<and>
      (\<forall>c ns. \<exists>c'. rrd_tag rc rnd tag (built rc s (dscnt s) m) (c, body @ ns) = (BlockDone (Inr (built rc s (dscnt s) (Suc m))), c', ns))"
    using body by (intro exI [of _ "[tabs 1]"] exI [of _ "''rra''"] exI [of _ body] exI [of _ "[nl]"]) simp
qed fact

lemma loop_head:
  assumes d: "dumpable s"
  shows "tag_loop True (rrd_tag rc rnd) True rrd_cleared (c, nl # dump_head fmt s @ ns) =
    tag_loop True (rrd_tag rc rnd) True (built rc s 0 0) (None, [Other '' '', Other (''<!-- '' @ fmt (last_up (live_head s)) @ '' -->''), nl, nl] @ ns)"
proof -
  note dd = d [unfolded dumpable_def]
  define t1 where "t1 = rrd_cleared\<lparr>stat_head := (stat_head rrd_cleared)\<lparr>version := dump_version s\<rparr>\<rparr>"
  define t2 where "t2 = t1\<lparr>stat_head := (stat_head t1)\<lparr>pdp_step := pdpstep s\<rparr>\<rparr>"
  have w: "word (dump_version s)" "length (dump_version s) \<le> 5" by (simp_all add: dump_version_def word_def isspace_def code_def)
  have u: "get_xml_time_t = convert text_time_t" by (rule ext) (simp add: get_xml_time_t_def)
  have v: "takes (rrd_tag rc rnd) ''version'' (dump_version s) rrd_cleared t1" unfolding t1_def
    by (rule takes_value(5) [where len = 5 and sput = "\<lambda>t s. s\<lparr>stat_head := (stat_head s)\<lparr>version := t\<rparr>\<rparr>"])
      (use w in \<open>simp_all add: rrd_tag_def eq_ci_def\<close>)
  have p: "takes (rrd_tag rc rnd) ''step'' (show_nat (pdpstep s)) t1 t2" unfolding t2_def
    by (rule takes_value(3) [where cput = "\<lambda>n s. s\<lparr>stat_head := (stat_head s)\<lparr>pdp_step := n\<rparr>\<rparr>"])
      (use dd in \<open>simp_all add: rrd_tag_def eq_ci_def\<close>)
  have "takes (rrd_tag rc rnd) ''lastupdate'' (show_int (last_up (live_head s))) t2 (t2\<lparr>live_head := (live_head t2)\<lparr>last_up := last_up (live_head s)\<rparr>\<rparr>)"
    by (rule takes_store [where f = text_time_t and put = "\<lambda>t s. s\<lparr>live_head := (live_head s)\<lparr>last_up := t\<rparr>\<rparr>"])
      (use dd in \<open>simp_all add: rrd_tag_def eq_ci_def u first_word_id [OF word_show_int] text_time_show\<close>)
  moreover have "t2\<lparr>live_head := (live_head t2)\<lparr>last_up := last_up (live_head s)\<rparr>\<rparr> = built rc s 0 0"
    by (simp add: t1_def t2_def rrd_cleared_def built_def cdps_def vals_def)
  ultimately have l: "takes (rrd_tag rc rnd) ''lastupdate'' (show_int (last_up (live_head s))) t2 (built rc s 0 0)" by simp
  have nodes: "nl # dump_head fmt s @ ns = [nl, tabs 1] @ elem ''version'' (dump_version s) @ [nl, tabs 1] @ elem ''step'' (show_nat (pdpstep s)) @
      [Other '' '', Other ''<!-- Seconds -->'', nl, tabs 1] @ elem ''lastupdate'' (show_int (last_up (live_head s))) @
      [Other '' '', Other (''<!-- '' @ fmt (last_up (live_head s)) @ '' -->''), nl, nl] @ ns"
    by (simp add: dump_head_def field_def)
  show ?thesis unfolding nodes by (subst loop_elem [OF v], simp, subst loop_elem [OF p], simp, subst loop_elem [OF l], simp) (rule refl)
qed

lemma opening_split: "\<exists>pre a. dump_opening opt = pre @ [Element ''rrd'' a, nl] \<and> blanks pre"
  by (rule exI [of _ "butlast (butlast (dump_opening opt))"]) (simp add: dump_opening_def Let_def)

lemma parse_dump:
  assumes d: "dumpable s"
  shows "parse_file rc rnd (rrd_dump_cb_r fmt opt s) = Inr (built rc s (dscnt s) (rracnt s))"
proof -
  obtain pre a where o: "dump_opening opt = pre @ [Element ''rrd'' a, nl]" "blanks pre" using opening_split by blast
  let ?h = "rrd_tag rc rnd" and ?rras = "concat (map (rra_nodes fmt s) [0 ..< rracnt s])"
  let ?mid = "[tabs 1, Other ''<!-- Round Robin Archives -->'', nl]" and ?fin = "EndElement ''rrd'' # [nl]"
  let ?dss = "concat (map (dump_ds s) [0 ..< dscnt s]) @ ?mid @ ?rras @ ?fin"
  have e: "expect_element ''rrd'' (None, rrd_dump_cb_r fmt opt s) = (Inr (), Some (Element ''rrd'' a), nl # dump_head fmt s @ ?dss)"
    using expect_elem(1) [OF o(2), of "''rrd''" None a] by (simp add: dump_nodes [OF dumpableD(1) [OF d]] o(1))
  obtain os1 where s1: "blanks os1" "tag_loop True ?h True (built rc s 0 0)
      (None, [Other '' '', Other (''<!-- '' @ fmt (last_up (live_head s)) @ '' -->''), nl, nl] @ ?dss) =
    tag_loop True ?h True (built rc s (dscnt s) 0) (None, os1 @ ?mid @ ?rras @ ?fin)"
    using loop_dss [OF d, of "[Other '' '', Other (''<!-- '' @ fmt (last_up (live_head s)) @ '' -->''), nl, nl]" rc rnd "?mid @ ?rras @ ?fin"] by auto
  obtain os2 where s2: "blanks os2" "tag_loop True ?h True (built rc s (dscnt s) 0) (None, (os1 @ ?mid) @ ?rras @ ?fin) =
    tag_loop True ?h True (built rc s (dscnt s) (rracnt s)) (None, os2 @ ?fin)"
    using loop_rras [OF d, of "os1 @ ?mid" rc rnd fmt ?fin] s1(1) by auto
  have s3: "tag_loop True ?h True (built rc s (dscnt s) (rracnt s)) (None, os2 @ ?fin) = (Inr (built rc s (dscnt s) (rracnt s), True), Some (EndElement ''rrd''), [nl])"
    by (rule loop_end [OF s2(1)]) (simp add: rrd_tags)
  have "tag_loop True ?h True rrd_cleared (Some (Element ''rrd'' a), nl # dump_head fmt s @ ?dss) =
      (Inr (built rc s (dscnt s) (rracnt s), True), Some (EndElement ''rrd''), [nl])"
    unfolding loop_head [OF d] s1(2) using s2(2) s3 by simp
  then show ?thesis by (simp add: parse_file_def e parse_tag_rrd_def)
qed

section \<open>The rows of the new file\<close>

lemma rotated_concat:
  assumes "list_all (\<lambda>R. R \<noteq> [] \<and> list_all (\<lambda>v. length v = w) R) Rs" and "length pre = off * w"
  shows "rotated_values w (map (\<lambda>R. (length R, 0)) Rs) (pre @ concat (map concat Rs)) off = concat (map (\<lambda>R. concat (last R # butlast R)) Rs)"
  using assms
proof (induction Rs arbitrary: pre off)
  case (Cons R Rs)
  let ?rest = "concat (map concat Rs)"
  have R: "R \<noteq> []" "\<forall>v \<in> set R. length v = w" using Cons.prems(1) by (simp_all add: list_all_iff)
  then have b: "concat R = concat (butlast R) @ last R" by (metis append_butlast_last_id concat.simps concat_append append_Nil2)
  have lb: "length (concat (butlast R)) = (length R - 1) * w" using length_concat_blocks [of "butlast R" w] R by (auto dest: in_set_butlastD)
  have ll: "length (last R) = w" using R by simp
  have n: "off + length R - 1 - 0 = off + (length R - 1)" "0 < length R" using R(1) by (cases R; simp)+
  have "take ((0 + 1) * w) (drop ((off + length R - 1 - 0) * w) (pre @ concat R @ ?rest)) = last R"
    unfolding n b using Cons.prems(2) lb ll by (simp add: add_mult_distrib)
  moreover have "take ((length R - 1 - 0) * w) (drop (off * w) (pre @ concat R @ ?rest)) = concat (butlast R)"
    unfolding b using Cons.prems(2) lb by simp
  moreover have "rotated_values w (map (\<lambda>R. (length R, 0)) Rs) ((pre @ concat R) @ ?rest) (off + length R) = concat (map (\<lambda>R. concat (last R # butlast R)) Rs)"
    using Cons.prems lb ll n(2) length_concat_blocks [OF R(2)] by (intro Cons.IH) (simp_all add: algebra_simps)
  ultimately show ?case using n(2) by simp
qed simp

text \<open>The value area of a database as its rows, archive by archive.\<close>

definition row_blocks :: "rrd \<Rightarrow> dbl list list list \<Rightarrow> bool" where
  "row_blocks t Qs \<longleftrightarrow> length Qs = length (rra_def t) \<and>
     (\<forall>i < length Qs. length (Qs ! i) = row_cnt (rra_def t ! i) \<and> (\<forall>v \<in> set (Qs ! i). length v = dscnt t))"

lemma off_of_blocks:
  assumes q: "row_blocks t Qs"
  shows "i \<le> length Qs \<Longrightarrow> length (concat (map concat (take i Qs))) = rra_off t i"
proof (induction i)
  case 0
  then show ?case by (simp add: rra_off_def rra_total_def)
next
  case (Suc i)
  then have i: "i < length Qs" by simp
  have "length (concat (Qs ! i)) = row_cnt (rra_def t ! i) * dscnt t"
    using length_concat_blocks [of "Qs ! i" "dscnt t"] q i by (simp add: row_blocks_def)
  then show ?case using Suc i q by (simp add: take_Suc_conv_app_nth rra_off_Suc row_blocks_def)
qed

lemma rows_of_blocks:
  assumes v: "rrd_value t = concat (map concat Qs)" and q: "row_blocks t Qs" and i: "i < length Qs"
  shows "rra_rows t i = Qs ! i"
proof -
  have l: "length (Qs ! i) = row_cnt (rra_def t ! i)" and w: "\<forall>v \<in> set (Qs ! i). length v = dscnt t" using q i by (simp_all add: row_blocks_def)
  have off: "length (concat (map concat (take i Qs))) = rra_off t i" using off_of_blocks [OF q] i by simp
  have split: "rrd_value t = concat (map concat (take i Qs)) @ concat (Qs ! i) @ concat (map concat (drop (Suc i) Qs))"
    unfolding v by (subst id_take_nth_drop [OF i]) simp
  have cell: "rra_cell t i r d = Qs ! i ! r ! d" if "r < row_cnt (rra_def t ! i)" "d < dscnt t" for r d
  proof -
    have "concat (Qs ! i) ! (r * dscnt t + d) = Qs ! i ! r ! d" using nth_concat_blocks [OF w] that l by simp
    moreover have "r * dscnt t + d < length (concat (Qs ! i))" using block_index_less [OF that] length_concat_blocks [OF w] l by simp
    ultimately show ?thesis unfolding rra_cell_def split using off by (simp add: nth_append)
  qed
  have row: "map (rra_cell t i r) [0 ..< dscnt t] = Qs ! i ! r" if "r < row_cnt (rra_def t ! i)" for r
    using cell [OF that] w l that by (intro nth_equalityI) simp_all
  show ?thesis unfolding rra_rows_def using row l by (intro nth_equalityI) simp_all
qed

lemma rotate_last: "R \<noteq> [] \<Longrightarrow> rotate (Suc 0) (last R # butlast R) = R"
  by simp

section \<open>The round trip\<close>

lemma restored_params_fields [simp]: "cf_nam (restored_params s r q) = cf_nam q" "pdp_cnt (restored_params s r q) = pdp_cnt q"
  by (simp_all add: restored_params_def Let_def split: option.splits cf_en.splits)

lemma restored_rra_fields [simp]: "cf_nam (restored_rra s r) = cf_nam r" "pdp_cnt (restored_rra s r) = pdp_cnt r"
  by (simp_all add: restored_rra_def)

lemma written_values:
  fixes rc :: bool
  assumes d: "dumpable s"
  defines "t \<equiv> built rc s (dscnt s) (rracnt s)" and "Qs \<equiv> map (\<lambda>i. let R = conv_rows rc s i in last R # butlast R) [0 ..< rracnt s]"
  shows "write_file t = t\<lparr>rrd_value := concat (map concat Qs)\<rparr>"
proof -
  note wf = dumpableD(1) [OF d]
  let ?Rs = "map (conv_rows rc s) [0 ..< rracnt s]"
  have L: "length (rra_def s) = rracnt s" using wf_rrdD [OF wf] by simp
  have z: "zip (map row_cnt (rra_def t)) (rra_ptr t) = map (\<lambda>R. (length R, 0)) ?Rs"
    using L conv_rows_shape(1) [OF d] by (intro nth_equalityI) (simp_all add: t_def built_def)
  have ne: "R \<noteq> []" if "i < rracnt s" "R = conv_rows rc s i" for i R
    using conv_rows_shape(1) [OF d that(1), of rc] wf_rrdD(8) [OF wf that(1)] that(2) by auto
  have "rotated_values (dscnt s) (map (\<lambda>R. (length R, 0)) ?Rs) ([] @ concat (map concat ?Rs)) 0 = concat (map (\<lambda>R. concat (last R # butlast R)) ?Rs)"
    using ne conv_rows_shape(2) [OF d] by (intro rotated_concat) (auto simp: list_all_iff)
  moreover have "rrd_value t = concat (map concat ?Rs)" by (simp add: t_def built_def vals_def comp_def)
  moreover have "dscnt t = dscnt s" by (simp add: t_def built_def)
  moreover have "concat (map (\<lambda>R. concat (last R # butlast R)) ?Rs) = concat (map concat Qs)" by (simp add: Qs_def Let_def comp_def)
  moreover have "\<not> atoi (version (stat_head t)) < 3" using atoi_dump_version [of s] by (simp add: t_def built_def)
  ultimately show ?thesis by (simp add: write_file_def z)
qed

lemma cdps_nth: "i < m \<Longrightarrow> j < dscnt s \<Longrightarrow> cdps s m ! (i * dscnt s + j) = restored_cdp (rra_def s ! i) (cdp_prep s ! (i * dscnt s + j))"
  unfolding cdps_def by (subst nth_concat_blocks) auto

text \<open>
  C14: a dump is restored. A well-formed database whose numbers and texts the XML form can carry is dumped, with any of the three
  headers, and the dump is read back without an error into a well-formed database with the same step, time of last update,
  data sources and archives. Every archive, read in the order of time, has the rows it had. Numbers come back as the double that
  is nearest to their eleven digits, and with the range check on as unknown when they are outside of the limits of their data source.

  What the XML form can carry is \<open>dumpable\<close>: every number is unknown, infinite, 0 or of a size between 2^-1000 and 2^1000; counters fit
  64 bits and times are signed 64 bit numbers; names and last readings are shorter than their fields and hold no white space
  and no character that XML escapes; the text of a COMPUTE expression is parsed to the stored expression; a history has 28
  entries of 0 or 1, of which a FAILURES archive uses at most 28; and all archives together have fewer than 2^32 values. Between
  dump and restore stands the XML reader: the dump is taken as the sequence of nodes that a reader finds in it.
\<close>

theorem dump_restore:
  assumes "dumpable s"
  shows "\<exists>t. rrd_restore rc rnd (rrd_dump_cb_r fmt opt s) = Inr t \<and> wf_rrd t \<and>
    stat_head t = (stat_head s)\<lparr>version := dump_version s\<rparr> \<and> last_up (live_head t) = last_up (live_head s) \<and>
    ds_def t = map restored_ds (ds_def s) \<and> pdp_prep t = map restored_pdp (pdp_prep s) \<and> rra_def t = map (restored_rra s) (rra_def s) \<and>
    (\<forall>i < rracnt s. \<forall>j < dscnt s. cdp_prep t ! (i * dscnt s + j) = restored_cdp (rra_def s ! i) (cdp_prep s ! (i * dscnt s + j))) \<and>
    (\<forall>i < rracnt s. rra_log t i = map (conv_row rc (ds_def t)) (rra_log s i))"
proof -
  note wf = dumpableD(1) [OF assms] and L = wf_rrdD [OF dumpableD(1) [OF assms]]
  define b where "b = built rc s (dscnt s) (rracnt s)"
  define Qs where "Qs = map (\<lambda>i. let R = conv_rows rc s i in last R # butlast R) [0 ..< rracnt s]"
  define t where "t = b\<lparr>rrd_value := concat (map concat Qs)\<rparr>"
  have r: "rrd_restore rc rnd (rrd_dump_cb_r fmt opt s) = Inr t"
    using written_values [OF assms, of rc] by (simp add: rrd_restore_def parse_dump [OF assms] t_def b_def Qs_def)
  have head: "stat_head t = (stat_head s)\<lparr>version := dump_version s\<rparr>" by (cases "stat_head s") (simp add: t_def b_def built_def)
  have f: "last_up (live_head t) = last_up (live_head s)" "ds_def t = map restored_ds (ds_def s)" "pdp_prep t = map restored_pdp (pdp_prep s)"
    "rra_def t = map (restored_rra s) (rra_def s)" "cdp_prep t = cdps s (rracnt s)" "rra_ptr t = replicate (rracnt s) 0" "rrd_value t = concat (map concat Qs)"
    using L by (simp_all add: t_def b_def built_def)
  have ne: "conv_rows rc s i \<noteq> []" if "i < rracnt s" for i using conv_rows_shape(1) [OF assms that, of rc] L(8) [OF that] by auto
  have "length v = dscnt t" if "i < length Qs" "v \<in> set (Qs ! i)" for i v
  proof -
    have i: "i < rracnt s" using that(1) by (simp add: Qs_def)
    have "v \<in> set (conv_rows rc s i)" using that ne [OF i] i by (auto simp: Qs_def Let_def dest: in_set_butlastD)
    then show ?thesis using conv_rows_shape(2) [OF assms i] head by simp
  qed
  then have q: "row_blocks t Qs" using conv_rows_shape(1) [OF assms, of _ rc] L(3,8) by (auto simp: row_blocks_def Qs_def f Let_def)
  have log: "rra_log t i = map (conv_row rc (ds_def t)) (rra_log s i)" if i: "i < rracnt s" for i
  proof -
    have "rra_rows t i = last (conv_rows rc s i) # butlast (conv_rows rc s i)"
      using rows_of_blocks [OF f(7) q, of i] i by (simp add: Qs_def Let_def)
    then show ?thesis using i rotate_last [OF ne [OF i]] by (simp add: rra_log_def [of t] f conv_rows_def del: rotate_Suc)
  qed
  have "rra_total (dscnt t) (rra_def t) = length (rrd_value t)"
    using off_of_blocks [OF q, of "length Qs"] q f(7) by (simp add: rra_off_def row_blocks_def)
  moreover have "list_all (\<lambda>r. 0 < row_cnt r \<and> 0 < pdp_cnt r \<and> cf_conv (cf_nam r) \<noteq> None) (rra_def t)" "list_all (\<lambda>d. dst_conv (dst d) \<noteq> None) (ds_def t)"
    using wf by (simp_all add: wf_rrd_def f list.pred_map comp_def)
  moreover have "list_all2 (\<lambda>c r. c < row_cnt r) (rra_ptr t) (rra_def t)" using L(3,8) by (simp add: f list_all2_conv_all_nth)
  ultimately have "wf_rrd t" using L head by (simp add: wf_rrd_def f length_cdps)
  then show ?thesis using r head f log by (intro exI [of _ t]) (simp add: cdps_nth)
qed

text \<open>The sample database with a computed data source in place of the second one.\<close>

definition demo_nodes :: "rpn_cdefds_t list" where
  "demo_nodes = [\<lparr>cop = OP_VARIABLE, cval = 0\<rparr>, \<lparr>cop = OP_NUMBER, cval = 8\<rparr>, \<lparr>cop = OP_MUL, cval = 0\<rparr>]"

definition demo_sources :: "ds_def_t list" where
  "demo_sources = [\<lparr>ds_nam = ''in'', dst = ''GAUGE'', mrhb_cnt = 600, min_val = NaN, max_val = NaN, cdef = []\<rparr>,
     \<lparr>ds_nam = ''bits'', dst = ''COMPUTE'', mrhb_cnt = 0, min_val = 0, max_val = 0, cdef = demo_nodes\<rparr>]"

definition demo_dumped :: rrd where
  "demo_dumped = demo_file\<lparr>ds_def := demo_sources\<rparr>"

lemma demo_dumped_cdef: "cdef_readable demo_dumped 1"
proof -
  have d: "d_of_int 8 = Fin 8" "d_of_int (- 32768) = Fin (- 32768)" "d_of_int 32767 = Fin 32767" by (simp_all add: d_of_int_small)
  have "rpn_compact demo_expr = Inr demo_nodes"
    by (simp add: rpn_compact_def demo_expr_def demo_nodes_def rpn_node_def compact_node_def DS_CDEF_MAX_RPN_NODES_def d d_to_int_def rtrunc_def s16_def Let_def)
  moreover have "rpn_compact2str demo_sources demo_nodes = ''in,8,*''" by code_simp
  moreover have "rpn_parse (lookup_DS_from 0 demo_sources) ''in,8,*'' = Inr demo_expr" by code_simp
  moreover have "word ''in,8,*''" "xml_plain ''in,8,*''" by code_simp+
  moreover have "cdef (demo_sources ! 1) = demo_nodes" "take (Suc 1) demo_sources = demo_sources" by (simp_all add: demo_sources_def)
  moreover have "\<not> list_ex (\<lambda>n. op_not_permitted (op n)) demo_expr" by code_simp
  ultimately show ?thesis by (simp only: cdef_readable_def demo_dumped_def Let_def) (simp add: demo_file_def)
qed

lemma printable_values [simp]: "printable (Fin 0)" "printable (Fin 1)" "(numeral w :: int) \<le> 2 ^ 53 \<Longrightarrow> printable (Fin (numeral w))"
    "printable (Fin (1 / 2))" "printable 0"
proof -
  show "printable (Fin 0)" "printable (Fin 1)" "(numeral w :: int) \<le> 2 ^ 53 \<Longrightarrow> printable (Fin (numeral w))" "printable 0"
    using printable_int [of 0] printable_int [of 1] printable_int [of "numeral w"] by (simp_all add: zero_dbl_def)
  have "(2 :: rat) powi (- 1000) \<le> 2 powi (- 1)" by (rule power_int_increasing) simp_all
  moreover have "(2 :: rat) powi 0 < 2 powi 1000" by (rule power_int_strict_increasing) simp_all
  ultimately show "printable (Fin (1 / 2))" by (simp add: power_int_minus)
qed

lemma dumpable_demo: "dumpable demo_dumped"
proof -
  have w: "word ''in''" "word ''bits''" "word ''5''" "word ''1000''" 
    "xml_plain ''in''" "xml_plain ''bits''" "xml_plain ''5''" "xml_plain ''1000''" by code_simp+
  have c: "computed ''COMPUTE''" "\<not> computed ''GAUGE''" by (simp_all add: computed_def dst_conv_def)
  have "wf_rrd demo_dumped"
    by (simp add: demo_dumped_def demo_file_def demo_sources_def demo_rrd_def wf_rrd_def demo_rra_def cf_conv_def dst_conv_def rra_total_def)
  moreover have "list_all ds_dumpable (ds_def demo_dumped)" "list_all pdp_dumpable (pdp_prep demo_dumped)" "list_all rra_dumpable (rra_def demo_dumped)"
    "list_all cdp_dumpable (cdp_prep demo_dumped)" "list_all printable (rrd_value demo_dumped)"
    by (simp_all add: demo_dumped_def demo_file_def demo_sources_def demo_rrd_def demo_rra_def demo_cdp_def ds_dumpable_def pdp_dumpable_def rra_dumpable_def
      cdp_dumpable_def cf_conv_def w list_all_iff)
  moreover have "list_all (\<lambda>k. computed (dst (ds_def demo_dumped ! k)) \<longrightarrow> cdef_readable demo_dumped k) [0 ..< dscnt demo_dumped]"
    using demo_dumped_cdef by (simp add: demo_dumped_def demo_file_def demo_sources_def upt_rec c demo_rrd_def)
  ultimately show ?thesis unfolding dumpable_def by (simp add: demo_dumped_def demo_file_def demo_rrd_def demo_rra_def)
qed

theorem dump_restore_witness:
  "\<exists>t. rrd_restore False (\<lambda>_. 0) (rrd_dump_cb_r (\<lambda>_. []) 1 demo_dumped) = Inr t \<and> wf_rrd t \<and> ds_def t = ds_def demo_dumped \<and>
     rra_log t 0 = [[Fin 12, Fin 22], [Fin 10, Fin 20], [Fin 11, Fin 21]]"
proof -
  obtain t where t: "rrd_restore False (\<lambda>_. 0) (rrd_dump_cb_r (\<lambda>_. []) 1 demo_dumped) = Inr t" "wf_rrd t"
    "ds_def t = map restored_ds (ds_def demo_dumped)" "\<forall>i < rracnt demo_dumped. rra_log t i = map (conv_row False (ds_def t)) (rra_log demo_dumped i)"
    using dump_restore [OF dumpable_demo, of False "\<lambda>_. 0" "\<lambda>_. []" 1] by blast
  have n: "reread (Fin (numeral w)) = Fin (numeral w)" if "(numeral w :: int) < 10 ^ 11" for w using reread_int [of "numeral w"] that by simp
  have c: "computed ''COMPUTE''" "\<not> computed ''GAUGE''" by (simp_all add: computed_def dst_conv_def)
  have "ds_def t = ds_def demo_dumped" unfolding t(3) by (simp add: demo_dumped_def demo_sources_def restored_ds_def c reread_def)
  moreover have "rra_log demo_rrd 0 = [[Fin 12, Fin 22], [Fin 10, Fin 20], [Fin 11, Fin 21]]" by code_simp
  moreover have "rra_log demo_dumped 0 = rra_log demo_rrd 0"
    by (simp add: rra_log_def rra_rows_def rra_cell_def [abs_def] rra_off_def demo_dumped_def demo_file_def)
  moreover have "rracnt demo_dumped = 2" by (simp add: demo_dumped_def demo_file_def)
  ultimately show ?thesis
    using t(1,2,4) by (intro exI [of _ t]) (simp add: conv_row_def value_check_range_def n demo_dumped_def demo_sources_def)
qed

end
