(* ===== verification/Spec2Isabelle.thy ===== *)
theory Spec2Isabelle
  imports Update Fetch Create Parsetime Resize Cache_Queue Protocol Daemon_Access Daemon_Threads Graph_Export File_Image Tune Dump_Restore
begin

text \<open>
  A verification development for rrdtool, the round robin database (sources under \<open>src/src\<close>).

  \<^bold>\<open>The program.\<close> A database file has a header (its data sources, its archives, preparation areas for both, one current
  row per archive) and a data area with the rows of all archives, each a ring. \<open>rrd_create.c\<close> makes such a file,
  \<open>rrd_update.c\<close> feeds it with timed readings, which become primary data points at the end of each step and consolidated
  data points at the end of each row of an archive, \<open>rrd_fetch.c\<close> reads rows back, \<open>rrd_resize.c\<close> changes the number of
  rows. COMPUTE data sources are evaluated by the calculator of \<open>rrd_rpncalc.c\<close>; the archives for aberrant behaviour
  detection are maintained by \<open>rrd_hw.c\<close>, \<open>rrd_hw_update.c\<close> and \<open>rrd_hw_math.c\<close>. Times are given in the language of
  \<open>rrd_parsetime.c\<close>. The daemon \<open>rrd_daemon.c\<close> collects updates of many files and writes them later; \<open>rrd_client.c\<close> talks to it.

  \<^bold>\<open>Theories.\<close>
  \<^item> \<open>RRD_Prelude\<close>: machine integers as integers with their wrap-around (\<open>u64\<close>, \<open>s64\<close>, \<open>s32\<close>, \<open>s16\<close>), C division, errors as the left
    side of a sum with \<open>andThen\<close>, loops that may fail (\<open>loopM\<close>), blocks of a list.
  \<^item> \<open>IEEE_Double\<close>: doubles as a datatype (finite rationals, negative zero, infinities, NaN), rounded to nearest even after every
    operation, with conversions to and from integers. Subnormal results are rounded as such; the NaN payload is not kept.
  \<^item> \<open>C_Strings\<close>: character classes, \<open>strtol\<close>, \<open>strtoul\<close>, \<open>strtod\<close>, \<open>atoi\<close> on strings.
  \<^item> \<open>RRD_Format\<close> (\<open>rrd_format.c\<close>, \<open>rrd_format.h\<close>): the structures as records, the enumerations, the conversions of names; the
    invariant \<open>wf_rrd\<close> of a database and a sample database.
  \<^item> \<open>File_Image\<close> (\<open>rrd_open.c\<close>): the bytes of a file, a codec for each structure (locale \<open>codec\<close>, interpreted on all of them), and the opening
    of a file: what was written is read back, what is opened is long enough, a truncated file is refused.
  \<^item> \<open>Rra_Store\<close> (\<open>rrd_open.c\<close>, end of \<open>rrd_update.c\<close>): seek, tell, read and write on the data area, and the writer of the archives.
    The locale \<open>round_robin\<close> is the contract of a ring of rows; the writer refines appending to a bounded log.
  \<^item> \<open>Counter_Diff\<close> (\<open>rrd_diff.c\<close>): the digit-wise subtraction of two readings is the difference of the numbers.
  \<^item> \<open>Pdp\<close>, \<open>Cdp\<close>, \<open>Update\<close> (\<open>rrd_update.c\<close>): a reading to an increment, accumulation over a step, consolidation over a row
    (locale \<open>consolidation\<close>, one interpretation per function), and the whole update with its parsing, ordering and errors.
  \<^item> \<open>Fifo_Queue\<close>, \<open>Holt_Winters\<close>, \<open>Hw_Smoother\<close> (\<open>rrd_hw*.c\<close>): forecasting with its seasonal partner (locale \<open>hw_model\<close>, additive and
    multiplicative), violations, the smoother with its queue (locale \<open>fifo\<close>), the reset of coefficients.
  \<^item> \<open>Rpn\<close> (\<open>rrd_rpncalc.c\<close>): parser, compact form, conversion to text, stack machine.
  \<^item> \<open>Fetch\<close> (\<open>rrd_fetch.c\<close>), \<open>Create\<close> (\<open>rrd_create.c\<close>, \<open>hash_32.c\<close>), \<open>Resize\<close> (\<open>rrd_resize.c\<close>), \<open>Parsetime\<close> (\<open>rrd_parsetime.c\<close>).
  \<^item> \<open>Cache_Queue\<close> (\<open>rrd_daemon.c\<close>): the output queue as a doubly linked list in a store, a refinement of a duplicate-free list
    (locale \<open>simulation\<close>). \<open>Protocol\<close> (\<open>rrd_daemon.c\<close>, \<open>rrd_client.c\<close>): requests, lines, fields, responses and batches.
  \<^item> \<open>Daemon_Cache\<close> (\<open>rrd_daemon.c\<close>): the tree of cache items, the handlers of all requests, their dispatch, and the journal. The tree
    is GLib's: a parameter \<open>G\<close> with the laws \<open>gtree_laws\<close> (locale \<open>glib_tree\<close>, interpreted on the red-black trees of the library).
    \<open>Daemon_Threads\<close>: connections, queue threads, flush thread and signals as steps on a shared state, a refinement of a flow of
    values for each file. \<open>Daemon_Access\<close>: the confinement to the base directory.
  \<^item> \<open>Graph_Reduce\<close> (\<open>rrd_graph.c\<close>): the reduction of the rows of a graph to a larger step, in place.
    \<open>Graph_Data\<close>: DEF, VDEF, CDEF and SHIFT (locale \<open>comparison\<close> for the sorting behind percentiles); the evaluation of a CDEF with
    moving pointers agrees with an evaluation at each point in time. \<open>Graph_Export\<close> (\<open>rrd_xport.c\<close>): the table of an export.
  \<^item> \<open>Tune\<close> (\<open>rrd_tune.c\<close>, \<open>rrd_first.c\<close>, \<open>rrd_last.c\<close>, \<open>rrd_lastupdate.c\<close>): the options of the tuning command, and the times of the first
    and last values.
  \<^item> \<open>Print_Double\<close>: the conversion \<open>%0.10e\<close> of \<open>printf\<close> and what \<open>strtod\<close> makes of its text. \<open>Dump\<close> (\<open>rrd_dump.c\<close>): the XML form of a database,
    as nodes and as text. \<open>Restore\<close> (\<open>rrd_restore.c\<close>): the parser of this form and the writing of the file; its loops have one shape
    (locale \<open>tag_handler\<close>, interpreted on the handler of each loop). \<open>Dump_Restore\<close>: what is dumped is restored.

  \<^bold>\<open>What the lemmas show.\<close> Every operation keeps \<open>wf_rrd\<close>, and updates never fail half way through the archives
  (\<open>Rra_Store\<close>, \<open>Update\<close>, \<open>Create\<close>, \<open>Resize\<close>). What is written to an archive, read in the order of time, is the old log with new
  rows at its end (\<open>Rra_Store\<close>), and a fetch delivers the row of each interval (\<open>Fetch\<close>); growing and shrinking keep the order
  (\<open>Resize\<close>). Primary data points are weighted means, consolidated ones the maximum, minimum, last or mean of their
  window under the rule for unknown values (\<open>Pdp\<close>, \<open>Cdp\<close>). The text formats are read back as they are written
  (\<open>Update\<close>, \<open>Parsetime\<close>, \<open>Rpn\<close>, \<open>Protocol\<close>), and so are files (\<open>File_Image\<close>) and XML dumps, with numbers rounded to eleven
  digits (\<open>Dump_Restore\<close>). The daemon loses no acknowledged value in any interleaving, and writes
  everything when it stops (\<open>Daemon_Threads\<close>). Error branches are values, and the claims say when they are taken.

  \<^bold>\<open>Assumptions and bounds.\<close> The build with mapped files (\<open>HAVE_MMAP\<close>) on a 64 bit system: the preparation areas are changed in
  place, also by an update that fails later. Numbers that the code keeps in 64 bits wrap in the model where the claim depends
  on it; the exactness claims on doubles are for integers below \<open>2 ^ 53\<close>. Loops are structural or have a
  termination proof; the only fuel is the length of a list that is walked. The definition of a COMPUTE data source is a
  field of its own, while the source stores it over the heartbeat and the limits.
  Where the code leaves its arrays or follows an unset index or pointer the model has a result of its own (\<open>UpdIndexUnset\<close>,
  \<open>RpnNullWrite\<close>, \<open>RpnReadBehind\<close>, \<open>RpnOutOfBounds\<close>, \<open>GraphOutOfBounds\<close>, \<open>VdefUndefined\<close>, \<open>DivisionByZero\<close>, or \<open>None\<close>), and the claims say when it is
  taken or that it is not. Not bounded are the buffer for the digits of \<open>rrd_diff\<close> (a lemma gives the length that overflows it), the
  capacity and indices of the queue of the smoother, the sums of the smoothing schedule and of the seasonal lookup, and the row
  count that \<open>rrd_resize\<close> adds to; they are natural numbers, and would wrap only beyond the memory of the system. The step of a
  request is atomic where the code holds the cache lock; the lines of the journal are part of this step.
  Parameters of the model: \<open>localtime\<close> and \<open>mktime\<close> with their rules for time zones, the clock, \<open>rrd_random\<close>, \<open>realpath\<close>, the fill
  value of a new file, the tree library, the answers of \<open>stat\<close>, \<open>access\<close> and \<open>rrd_update_r\<close> in the daemon, \<open>strftime\<close> in a dump.

  \<^bold>\<open>Not modelled.\<close> The drawing of graphs (the rest of \<open>rrd_graph.c\<close>, \<open>rrd_graph_helper.c\<close>, \<open>rrd_gfx.c\<close>, \<open>pngsize.c\<close>), the CGI interpreter (\<open>rrd_cgi.c\<close>), the
  listing of \<open>rrd_info.c\<close> and the command line (\<open>rrd_tool.c\<close>, \<open>rrd_getopt.c\<close>) are drawing, libraries or I/O around the core. The reader
  of libxml2 is represented by the nodes of a well-formed document. Mapping and locking, memory exhaustion, the locale and the
  thread-specific error contexts are not modelled.
\<close>

end
